(* ===== verification/Pintos_Prelude.thy ===== *)
theory Pintos_Prelude
  imports Main "HOL-Library.Word" "HOL-Library.Multiset" "HOL-Library.Monad_Syntax"
begin

text \<open>
  Shared vocabulary of the development: machine types, the panic monad, and the
  generic facts that several component theories use.

  A kernel function that can stop the machine (a failed \<open>ASSERT\<close>, a \<open>PANIC\<close>, a
  division error, an access through a null pointer) returns an \<open>option\<close>: \<open>None\<close> is the
  stopped machine, \<open>Some\<close> the normal return. A loop that has no structural reason to
  stop is a \<open>partial_function (option)\<close>, so that \<open>None\<close> also stands for a loop that
  never returns; a theorem that concludes \<open>Some\<close> therefore shows that no assertion
  fires, no null pointer is followed and every loop ends.
\<close>

unbundle bit_operations_syntax

type_synonym u8 = "8 word"
type_synonym u32 = "32 word"
type_synonym u64 = "64 word"
type_synonym addr = u32

text \<open>Signed integers of a given width, as values with the wrap-around of two's complement.\<close>

definition s32 :: "int \<Rightarrow> int" where
  "s32 x = signed_take_bit 31 x"

definition s64 :: "int \<Rightarrow> int" where
  "s64 x = signed_take_bit 63 x"

definition s8 :: "int \<Rightarrow> int" where
  "s8 x = signed_take_bit 7 x"

lemma s32_id [simp]: "- 2147483648 \<le> x \<Longrightarrow> x < 2147483648 \<Longrightarrow> s32 x = x"
  by (simp add: s32_def signed_take_bit_int_eq_self)

lemma s64_id [simp]: "- 9223372036854775808 \<le> x \<Longrightarrow> x < 9223372036854775808 \<Longrightarrow> s64 x = x"
  by (simp add: s64_def signed_take_bit_int_eq_self)

lemma s8_id [simp]: "- 128 \<le> x \<Longrightarrow> x < 128 \<Longrightarrow> s8 x = x"
  by (simp add: s8_def signed_take_bit_int_eq_self)

text \<open>Bytes of a character and of a string literal.\<close>

abbreviation (input) chr8 :: "char \<Rightarrow> u8" where
  "chr8 c \<equiv> of_char c"

abbreviation (input) str8 :: "string \<Rightarrow> u8 list" where
  "str8 s \<equiv> map of_char s"

abbreviation NULL :: addr where
  "NULL \<equiv> 0"

definition kassert :: "bool \<Rightarrow> unit option" where
  "kassert b = (if b then Some () else None)"

named_theorems panic_simps \<open>unfolding the panic monad\<close>

lemma kassert_simps [simp, panic_simps]:
  "kassert True = Some ()"
  "kassert False = None"
  by (simp_all add: kassert_def)

lemma kassert_Some_iff [simp]: "kassert b = Some u \<longleftrightarrow> b"
  by (cases b) (simp_all add: kassert_def)

lemma kassert_None_iff [simp]: "kassert b = None \<longleftrightarrow> \<not> b"
  by (simp add: kassert_def)

lemma bind_kassert [simp]: "b \<Longrightarrow> Option.bind (kassert b) f = f ()"
  by (simp add: kassert_def)

lemma unat_of_nat_u32: "n < 2 ^ 32 \<Longrightarrow> unat (of_nat n :: u32) = n"
  by (simp add: unat_of_nat take_bit_nat_eq_self)

lemma unat_add_of_nat:
  assumes "unat p + i < 2 ^ 32"
  shows "unat (p + of_nat i :: u32) = unat p + i"
  using assms by (simp add: unat_word_ariths unat_of_nat take_bit_nat_eq_self)

lemma unat_push_bit: "unat (push_bit k (x :: 'a::len word)) = unat x * 2 ^ k mod 2 ^ LENGTH('a)"
  by (simp only: unsigned_push_bit_eq) (simp add: take_bit_eq_mod push_bit_eq_mult)

lemma unat_drop_bit: "unat (drop_bit k (x :: 'a::len word)) = unat x div 2 ^ k"
  by (simp only: unat_drop_bit_eq) (simp add: drop_bit_eq_div)

lemma unat_ucast_mod: "unat (ucast (x :: 'a::len word) :: 'b::len word) = unat x mod 2 ^ LENGTH('b)"
  by (simp add: unsigned_ucast_eq take_bit_eq_mod)

lemma butlast_last_notin: "distinct xs \<Longrightarrow> xs \<noteq> [] \<Longrightarrow> last xs \<notin> set (butlast xs)"
  by (metis append_butlast_last_id distinct_append disjoint_insert(2) list.set(1,2) Int_commute insert_iff)

lemma hd_notin_tl: "distinct xs \<Longrightarrow> xs \<noteq> [] \<Longrightarrow> hd xs \<notin> set (tl xs)"
  by (cases xs) auto

lemma sorted_wrt_insert:
  "sorted_wrt R (as @ bs) \<Longrightarrow> \<forall>a\<in>set as. R a e \<Longrightarrow> \<forall>b\<in>set bs. R e b \<Longrightarrow> sorted_wrt R (as @ e # bs)"
  by (auto simp: sorted_wrt_append)

end
