(* ===== verification/Klist.thy ===== *)
theory Klist
  imports Pintos_Prelude
begin

text \<open>
  The kernel's intrusive doubly linked lists (\<open>lib/kernel/list.c\<close>, \<open>list.h\<close>).

  A \<open>struct list_elem\<close> is an address; the two maps of \<open>list_mem\<close> hold the \<open>prev\<close> and
  \<open>next\<close> members of every element. A \<open>struct list\<close> at address \<open>l\<close> embeds its head
  element at offset 0 and its tail element at offset 8. The comparison function
  \<open>lt (a, b, aux)\<close> is a parameter \<open>lt a b\<close>: the \<open>aux\<close> argument is fixed for a call
  and the comparison reads the enclosing structures, never the links.
\<close>

section \<open>Elements and lists in memory\<close>

record list_mem =
  prevs :: "addr \<Rightarrow> addr"
  nexts :: "addr \<Rightarrow> addr"

type_synonym list_less_func = "addr \<Rightarrow> addr \<Rightarrow> bool"

definition head_of :: "addr \<Rightarrow> addr" where
  "head_of l = l"

definition tail_of :: "addr \<Rightarrow> addr" where
  "tail_of l = l + 8"

definition get_prev :: "list_mem \<Rightarrow> addr \<Rightarrow> addr option" where
  "get_prev m e = (if e = NULL then None else Some (prevs m e))"

definition get_next :: "list_mem \<Rightarrow> addr \<Rightarrow> addr option" where
  "get_next m e = (if e = NULL then None else Some (nexts m e))"

definition set_prev :: "list_mem \<Rightarrow> addr \<Rightarrow> addr \<Rightarrow> list_mem option" where
  "set_prev m e p = (if e = NULL then None else Some (m\<lparr>prevs := (prevs m)(e := p)\<rparr>))"

definition set_next :: "list_mem \<Rightarrow> addr \<Rightarrow> addr \<Rightarrow> list_mem option" where
  "set_next m e n = (if e = NULL then None else Some (m\<lparr>nexts := (nexts m)(e := n)\<rparr>))"

definition is_head :: "list_mem \<Rightarrow> addr \<Rightarrow> bool" where
  "is_head m elem \<longleftrightarrow> elem \<noteq> NULL \<and> prevs m elem = NULL \<and> nexts m elem \<noteq> NULL"

definition is_interior :: "list_mem \<Rightarrow> addr \<Rightarrow> bool" where
  "is_interior m elem \<longleftrightarrow> elem \<noteq> NULL \<and> prevs m elem \<noteq> NULL \<and> nexts m elem \<noteq> NULL"

definition is_tail :: "list_mem \<Rightarrow> addr \<Rightarrow> bool" where
  "is_tail m elem \<longleftrightarrow> elem \<noteq> NULL \<and> prevs m elem \<noteq> NULL \<and> nexts m elem = NULL"

section \<open>Initialisation and traversal\<close>

definition list_init :: "list_mem \<Rightarrow> addr \<Rightarrow> list_mem option" where
  "list_init m l = do {
     kassert (l \<noteq> NULL);
     m \<leftarrow> set_prev m (head_of l) NULL;
     m \<leftarrow> set_next m (head_of l) (tail_of l);
     m \<leftarrow> set_prev m (tail_of l) (head_of l);
     set_next m (tail_of l) NULL }"

definition list_begin :: "list_mem \<Rightarrow> addr \<Rightarrow> addr option" where
  "list_begin m l = do { kassert (l \<noteq> NULL); get_next m (head_of l) }"

definition list_next :: "list_mem \<Rightarrow> addr \<Rightarrow> addr option" where
  "list_next m elem = do { kassert (is_head m elem \<or> is_interior m elem); get_next m elem }"

definition list_end :: "addr \<Rightarrow> addr option" where
  "list_end l = do { kassert (l \<noteq> NULL); Some (tail_of l) }"

definition list_rbegin :: "list_mem \<Rightarrow> addr \<Rightarrow> addr option" where
  "list_rbegin m l = do { kassert (l \<noteq> NULL); get_prev m (tail_of l) }"

definition list_prev :: "list_mem \<Rightarrow> addr \<Rightarrow> addr option" where
  "list_prev m elem = do { kassert (is_interior m elem \<or> is_tail m elem); get_prev m elem }"

definition list_rend :: "addr \<Rightarrow> addr option" where
  "list_rend l = do { kassert (l \<noteq> NULL); Some (head_of l) }"

definition list_head :: "addr \<Rightarrow> addr option" where
  "list_head l = do { kassert (l \<noteq> NULL); Some (head_of l) }"

definition list_tail :: "addr \<Rightarrow> addr option" where
  "list_tail l = do { kassert (l \<noteq> NULL); Some (tail_of l) }"

section \<open>Insertion and removal\<close>

definition list_insert :: "list_mem \<Rightarrow> addr \<Rightarrow> addr \<Rightarrow> list_mem option" where
  "list_insert m before elem = do {
     kassert (is_interior m before \<or> is_tail m before);
     kassert (elem \<noteq> NULL);
     bp \<leftarrow> get_prev m before;
     m \<leftarrow> set_prev m elem bp;
     m \<leftarrow> set_next m elem before;
     bp \<leftarrow> get_prev m before;
     m \<leftarrow> set_next m bp elem;
     set_prev m before elem }"

definition list_splice :: "list_mem \<Rightarrow> addr \<Rightarrow> addr \<Rightarrow> addr \<Rightarrow> list_mem option" where
  "list_splice m before first lst = do {
     kassert (is_interior m before \<or> is_tail m before);
     if first = lst then Some m
     else do {
       lst \<leftarrow> list_prev m lst;
       kassert (is_interior m first);
       kassert (is_interior m lst);
       fp \<leftarrow> get_prev m first;
       ln \<leftarrow> get_next m lst;
       m \<leftarrow> set_next m fp ln;
       ln \<leftarrow> get_next m lst;
       fp \<leftarrow> get_prev m first;
       m \<leftarrow> set_prev m ln fp;
       bp \<leftarrow> get_prev m before;
       m \<leftarrow> set_prev m first bp;
       m \<leftarrow> set_next m lst before;
       bp \<leftarrow> get_prev m before;
       m \<leftarrow> set_next m bp first;
       set_prev m before lst } }"

definition list_push_front :: "list_mem \<Rightarrow> addr \<Rightarrow> addr \<Rightarrow> list_mem option" where
  "list_push_front m l elem = do { b \<leftarrow> list_begin m l; list_insert m b elem }"

definition list_push_back :: "list_mem \<Rightarrow> addr \<Rightarrow> addr \<Rightarrow> list_mem option" where
  "list_push_back m l elem = do { e \<leftarrow> list_end l; list_insert m e elem }"

definition list_remove :: "list_mem \<Rightarrow> addr \<Rightarrow> (addr \<times> list_mem) option" where
  "list_remove m elem = do {
     kassert (is_interior m elem);
     p \<leftarrow> get_prev m elem;
     n \<leftarrow> get_next m elem;
     m \<leftarrow> set_next m p n;
     n \<leftarrow> get_next m elem;
     p \<leftarrow> get_prev m elem;
     m \<leftarrow> set_prev m n p;
     n \<leftarrow> get_next m elem;
     Some (n, m) }"

definition list_empty :: "list_mem \<Rightarrow> addr \<Rightarrow> bool option" where
  "list_empty m l = do { b \<leftarrow> list_begin m l; e \<leftarrow> list_end l; Some (b = e) }"

definition list_front :: "list_mem \<Rightarrow> addr \<Rightarrow> addr option" where
  "list_front m l = do { em \<leftarrow> list_empty m l; kassert (\<not> em); get_next m (head_of l) }"

definition list_back :: "list_mem \<Rightarrow> addr \<Rightarrow> addr option" where
  "list_back m l = do { em \<leftarrow> list_empty m l; kassert (\<not> em); get_prev m (tail_of l) }"

definition list_pop_front :: "list_mem \<Rightarrow> addr \<Rightarrow> (addr \<times> list_mem) option" where
  "list_pop_front m l = do {
     front \<leftarrow> list_front m l;
     (_, m) \<leftarrow> list_remove m front;
     Some (front, m) }"

definition list_pop_back :: "list_mem \<Rightarrow> addr \<Rightarrow> (addr \<times> list_mem) option" where
  "list_pop_back m l = do {
     back \<leftarrow> list_back m l;
     (_, m) \<leftarrow> list_remove m back;
     Some (back, m) }"

section \<open>Loops over a list\<close>

partial_function (option) list_size_loop :: "list_mem \<Rightarrow> addr \<Rightarrow> addr \<Rightarrow> u32 \<Rightarrow> u32 option" where
  "list_size_loop m l e cnt = do {
     en \<leftarrow> list_end l;
     if e = en then Some cnt
     else do { e' \<leftarrow> list_next m e; list_size_loop m l e' (cnt + 1) } }"

definition list_size :: "list_mem \<Rightarrow> addr \<Rightarrow> u32 option" where
  "list_size m l = do { b \<leftarrow> list_begin m l; list_size_loop m l b 0 }"

definition swap_links :: "list_mem \<Rightarrow> addr \<Rightarrow> list_mem option" where
  "swap_links m e = do {
     p \<leftarrow> get_prev m e;
     n \<leftarrow> get_next m e;
     m \<leftarrow> set_prev m e n;
     set_next m e p }"

partial_function (option) list_reverse_loop :: "list_mem \<Rightarrow> addr \<Rightarrow> addr \<Rightarrow> list_mem option" where
  "list_reverse_loop m l e = do {
     en \<leftarrow> list_end l;
     if e = en then Some m
     else do {
       m \<leftarrow> swap_links m e;
       e' \<leftarrow> get_prev m e;
       list_reverse_loop m l e' } }"

definition list_reverse :: "list_mem \<Rightarrow> addr \<Rightarrow> list_mem option" where
  "list_reverse m l = do {
     em \<leftarrow> list_empty m l;
     if em then Some m
     else do {
       b \<leftarrow> list_begin m l;
       m \<leftarrow> list_reverse_loop m l b;
       \<comment> \<open>\<open>swap (&list->head.next, &list->tail.prev)\<close>\<close>
       hn \<leftarrow> get_next m (head_of l);
       tp \<leftarrow> get_prev m (tail_of l);
       m \<leftarrow> set_next m (head_of l) tp;
       m \<leftarrow> set_prev m (tail_of l) hn;
       \<comment> \<open>\<open>swap (&list->head.next->prev, &list->tail.prev->next)\<close>\<close>
       hn \<leftarrow> get_next m (head_of l);
       tp \<leftarrow> get_prev m (tail_of l);
       a \<leftarrow> get_prev m hn;
       b \<leftarrow> get_next m tp;
       m \<leftarrow> set_prev m hn b;
       set_next m tp a } }"

section \<open>Ordered lists\<close>

partial_function (option) is_sorted_loop ::
  "list_less_func \<Rightarrow> list_mem \<Rightarrow> addr \<Rightarrow> addr \<Rightarrow> bool option" where
  "is_sorted_loop lt m a b = do {
     a \<leftarrow> list_next m a;
     if a = b then Some True
     else do {
       p \<leftarrow> list_prev m a;
       if lt a p then Some False else is_sorted_loop lt m a b } }"

definition is_sorted :: "list_less_func \<Rightarrow> list_mem \<Rightarrow> addr \<Rightarrow> addr \<Rightarrow> bool option" where
  "is_sorted lt m a b = (if a \<noteq> b then is_sorted_loop lt m a b else Some True)"

partial_function (option) find_end_of_run_loop ::
  "list_less_func \<Rightarrow> list_mem \<Rightarrow> addr \<Rightarrow> addr \<Rightarrow> addr option" where
  "find_end_of_run_loop lt m a b = do {
     a \<leftarrow> list_next m a;
     if a = b then Some a
     else do {
       p \<leftarrow> list_prev m a;
       if lt a p then Some a else find_end_of_run_loop lt m a b } }"

definition find_end_of_run ::
  "list_less_func \<Rightarrow> list_mem \<Rightarrow> addr \<Rightarrow> addr \<Rightarrow> addr option" where
  "find_end_of_run lt m a b = do {
     kassert (a \<noteq> NULL);
     kassert (b \<noteq> NULL);
     kassert (a \<noteq> b);
     find_end_of_run_loop lt m a b }"

partial_function (option) inplace_merge_loop ::
  "list_less_func \<Rightarrow> list_mem \<Rightarrow> addr \<Rightarrow> addr \<Rightarrow> addr \<Rightarrow> list_mem option" where
  "inplace_merge_loop lt m a0 a1b0 b1 =
     (if a0 \<noteq> a1b0 \<and> a1b0 \<noteq> b1 then
        if \<not> lt a1b0 a0 then do {
          a0 \<leftarrow> list_next m a0;
          inplace_merge_loop lt m a0 a1b0 b1 }
        else do {
          a1b0 \<leftarrow> list_next m a1b0;
          p \<leftarrow> list_prev m a1b0;
          m \<leftarrow> list_splice m a0 p a1b0;
          inplace_merge_loop lt m a0 a1b0 b1 }
      else Some m)"

definition inplace_merge ::
  "list_less_func \<Rightarrow> list_mem \<Rightarrow> addr \<Rightarrow> addr \<Rightarrow> addr \<Rightarrow> list_mem option" where
  "inplace_merge lt m a0 a1b0 b1 = do {
     kassert (a0 \<noteq> NULL);
     kassert (a1b0 \<noteq> NULL);
     kassert (b1 \<noteq> NULL);
     sa \<leftarrow> is_sorted lt m a0 a1b0;
     kassert sa;
     sb \<leftarrow> is_sorted lt m a1b0 b1;
     kassert sb;
     inplace_merge_loop lt m a0 a1b0 b1 }"

partial_function (option) list_sort_pass ::
  "list_less_func \<Rightarrow> addr \<Rightarrow> list_mem \<Rightarrow> addr \<Rightarrow> u32 \<Rightarrow> (u32 \<times> list_mem) option" where
  "list_sort_pass lt l m a0 output_run_cnt = do {
     en \<leftarrow> list_end l;
     if a0 = en then Some (output_run_cnt, m)
     else do {
       a1b0 \<leftarrow> find_end_of_run lt m a0 en;
       if a1b0 = en then Some (output_run_cnt + 1, m)
       else do {
         b1 \<leftarrow> find_end_of_run lt m a1b0 en;
         m \<leftarrow> inplace_merge lt m a0 a1b0 b1;
         list_sort_pass lt l m b1 (output_run_cnt + 1) } } }"

partial_function (option) list_sort_loop ::
  "list_less_func \<Rightarrow> addr \<Rightarrow> list_mem \<Rightarrow> list_mem option" where
  "list_sort_loop lt l m = do {
     a0 \<leftarrow> list_begin m l;
     (output_run_cnt, m) \<leftarrow> list_sort_pass lt l m a0 0;
     if output_run_cnt > 1 then list_sort_loop lt l m else Some m }"

definition list_sort :: "list_less_func \<Rightarrow> list_mem \<Rightarrow> addr \<Rightarrow> list_mem option" where
  "list_sort lt m l = do {
     kassert (l \<noteq> NULL);
     m \<leftarrow> list_sort_loop lt l m;
     b \<leftarrow> list_begin m l;
     e \<leftarrow> list_end l;
     s \<leftarrow> is_sorted lt m b e;
     kassert s;
     Some m }"

partial_function (option) list_insert_ordered_loop ::
  "list_less_func \<Rightarrow> list_mem \<Rightarrow> addr \<Rightarrow> addr \<Rightarrow> addr \<Rightarrow> addr option" where
  "list_insert_ordered_loop lt m l elem e = do {
     en \<leftarrow> list_end l;
     if e = en then Some e
     else if lt elem e then Some e
     else do { e' \<leftarrow> list_next m e; list_insert_ordered_loop lt m l elem e' } }"

definition list_insert_ordered ::
  "list_less_func \<Rightarrow> list_mem \<Rightarrow> addr \<Rightarrow> addr \<Rightarrow> list_mem option" where
  "list_insert_ordered lt m l elem = do {
     kassert (l \<noteq> NULL);
     kassert (elem \<noteq> NULL);
     b \<leftarrow> list_begin m l;
     e \<leftarrow> list_insert_ordered_loop lt m l elem b;
     list_insert m e elem }"

partial_function (option) list_unique_loop ::
  "list_less_func \<Rightarrow> addr \<Rightarrow> addr \<Rightarrow> list_mem \<Rightarrow> addr \<Rightarrow> list_mem option" where
  "list_unique_loop lt l duplicates m elem = do {
     nx \<leftarrow> list_next m elem;
     en \<leftarrow> list_end l;
     if nx = en then Some m
     else if \<not> lt elem nx \<and> \<not> lt nx elem then do {
       (_, m) \<leftarrow> list_remove m nx;
       m \<leftarrow> (if duplicates \<noteq> NULL then list_push_back m duplicates nx else Some m);
       list_unique_loop lt l duplicates m elem }
     else list_unique_loop lt l duplicates m nx }"

definition list_unique ::
  "list_less_func \<Rightarrow> list_mem \<Rightarrow> addr \<Rightarrow> addr \<Rightarrow> list_mem option" where
  "list_unique lt m l duplicates = do {
     kassert (l \<noteq> NULL);
     em \<leftarrow> list_empty m l;
     if em then Some m
     else do { b \<leftarrow> list_begin m l; list_unique_loop lt l duplicates m b } }"

partial_function (option) list_max_loop ::
  "list_less_func \<Rightarrow> list_mem \<Rightarrow> addr \<Rightarrow> addr \<Rightarrow> addr \<Rightarrow> addr option" where
  "list_max_loop lt m l mx e = do {
     en \<leftarrow> list_end l;
     if e = en then Some mx
     else do {
       e' \<leftarrow> list_next m e;
       list_max_loop lt m l (if lt mx e then e else mx) e' } }"

definition list_max :: "list_less_func \<Rightarrow> list_mem \<Rightarrow> addr \<Rightarrow> addr option" where
  "list_max lt m l = do {
     mx \<leftarrow> list_begin m l;
     en \<leftarrow> list_end l;
     if mx \<noteq> en then do { e \<leftarrow> list_next m mx; list_max_loop lt m l mx e }
     else Some mx }"

partial_function (option) list_min_loop ::
  "list_less_func \<Rightarrow> list_mem \<Rightarrow> addr \<Rightarrow> addr \<Rightarrow> addr \<Rightarrow> addr option" where
  "list_min_loop lt m l mn e = do {
     en \<leftarrow> list_end l;
     if e = en then Some mn
     else do {
       e' \<leftarrow> list_next m e;
       list_min_loop lt m l (if lt e mn then e else mn) e' } }"

definition list_min :: "list_less_func \<Rightarrow> list_mem \<Rightarrow> addr \<Rightarrow> addr option" where
  "list_min lt m l = do {
     mn \<leftarrow> list_begin m l;
     en \<leftarrow> list_end l;
     if mn \<noteq> en then do { e \<leftarrow> list_next m mn; list_min_loop lt m l mn e }
     else Some mn }"

end
