(* ===== verification/Fifo.thy ===== *)
theory Fifo
  imports Pintos_Prelude
begin

text \<open>
  The contract of a first-in first-out queue, as the kernel uses it through
  \<open>list_push_back\<close>/\<open>list_pop_front\<close> and through \<open>intq_putc\<close>/\<open>intq_getc\<close>. A provider gives
  a representation predicate and discharges one law per operation; the locale then gives,
  once for every provider, that a whole sequence of operations returns what the abstract
  queue returns.
\<close>

datatype 'e qop = Enq 'e | Deq

fun run_queue ::
  "('q \<Rightarrow> 'e \<Rightarrow> 'q option) \<Rightarrow> ('q \<Rightarrow> ('e \<times> 'q) option) \<Rightarrow> 'q \<Rightarrow> 'e qop list \<Rightarrow> ('e list \<times> 'q) option"
where
  "run_queue enq deq q [] = Some ([], q)"
| "run_queue enq deq q (Enq e # ops) = do { q' \<leftarrow> enq q e; run_queue enq deq q' ops }"
| "run_queue enq deq q (Deq # ops) = do {
     (e, q') \<leftarrow> deq q;
     (outs, q'') \<leftarrow> run_queue enq deq q' ops;
     Some (e # outs, q'') }"

text \<open>The specification: \<open>None\<close> where an operation is outside its contract.\<close>

fun spec_queue ::
  "('e list \<Rightarrow> 'e \<Rightarrow> bool) \<Rightarrow> 'e list \<Rightarrow> 'e qop list \<Rightarrow> ('e list \<times> 'e list) option"
where
  "spec_queue room xs [] = Some ([], xs)"
| "spec_queue room xs (Enq e # ops) =
     (if room xs e then spec_queue room (xs @ [e]) ops else None)"
| "spec_queue room [] (Deq # ops) = None"
| "spec_queue room (x # xs) (Deq # ops) =
     map_option (\<lambda>(outs, ys). (x # outs, ys)) (spec_queue room xs ops)"

locale fifo =
  fixes rep :: "'q \<Rightarrow> 'e list \<Rightarrow> bool"
    and room :: "'e list \<Rightarrow> 'e \<Rightarrow> bool"
    and enq :: "'q \<Rightarrow> 'e \<Rightarrow> 'q option"
    and deq :: "'q \<Rightarrow> ('e \<times> 'q) option"
  assumes enq_law: "rep q xs \<Longrightarrow> room xs e \<Longrightarrow> \<exists>q'. enq q e = Some q' \<and> rep q' (xs @ [e])"
    and deq_law: "rep q (x # xs) \<Longrightarrow> \<exists>q'. deq q = Some (x, q') \<and> rep q' xs"
begin

lemma run_refines_spec:
  "rep q xs \<Longrightarrow> spec_queue room xs ops = Some (outs, ys) \<Longrightarrow>
     \<exists>q'. run_queue enq deq q ops = Some (outs, q') \<and> rep q' ys"
proof (induction ops arbitrary: q xs outs)
  case (Cons op ops)
  show ?case
  proof (cases op)
    case (Enq e)
    then have r: "room xs e" "spec_queue room (xs @ [e]) ops = Some (outs, ys)"
      using Cons.prems by (auto split: if_splits)
    obtain q' where "enq q e = Some q'" "rep q' (xs @ [e])"
      using enq_law [OF Cons.prems(1) r(1)] by blast
    then show ?thesis using Cons.IH [OF _ r(2)] Enq by simp
  next
    case Deq
    then obtain x xs' outs' where xs: "xs = x # xs'" "outs = x # outs'"
      and s: "spec_queue room xs' ops = Some (outs', ys)"
      using Cons.prems by (cases xs) auto
    obtain q' where "deq q = Some (x, q')" "rep q' xs'"
      using deq_law [of q x xs'] Cons.prems(1) xs by blast
    then show ?thesis using Cons.IH [OF _ s] Deq xs by fastforce
  qed
qed simp

end

end
