(* ===== verification/Klist_Correct.thy ===== *)
theory Klist_Correct
  imports Klist Fifo
begin

text \<open>
  Correctness of the operations of \<open>Klist\<close>. \<open>dlist m l xs\<close> says that the list at \<open>l\<close>
  holds exactly the elements \<open>xs\<close>, in order, with all its links intact; every operation
  is shown to return normally and to act on \<open>xs\<close> as the sequence operation it stands for,
  and \<open>same_outside\<close> bounds the memory it writes, so that disjoint lists keep their
  contents.
\<close>

section \<open>The abstract view of a list in memory\<close>

fun fwd :: "(addr \<Rightarrow> addr) \<Rightarrow> addr list \<Rightarrow> bool" where
  "fwd N (a # b # ns) \<longleftrightarrow> N a = b \<and> fwd N (b # ns)"
| "fwd N [a] \<longleftrightarrow> True"
| "fwd N [] \<longleftrightarrow> True"

fun bwd :: "(addr \<Rightarrow> addr) \<Rightarrow> addr list \<Rightarrow> bool" where
  "bwd P (a # b # ns) \<longleftrightarrow> P b = a \<and> bwd P (b # ns)"
| "bwd P [a] \<longleftrightarrow> True"
| "bwd P [] \<longleftrightarrow> True"

definition dnodes :: "list_mem \<Rightarrow> addr list \<Rightarrow> bool" where
  "dnodes m ns \<longleftrightarrow> distinct ns \<and> NULL \<notin> set ns \<and>
     fwd (nexts m) (ns @ [NULL]) \<and> bwd (prevs m) (NULL # ns)"

definition dlist :: "list_mem \<Rightarrow> addr \<Rightarrow> addr list \<Rightarrow> bool" where
  "dlist m l xs \<longleftrightarrow> dnodes m (head_of l # xs @ [tail_of l])"

definition list_nodes :: "addr \<Rightarrow> addr list \<Rightarrow> addr set" where
  "list_nodes l xs = insert (head_of l) (insert (tail_of l) (set xs))"

definition same_outside :: "addr set \<Rightarrow> list_mem \<Rightarrow> list_mem \<Rightarrow> bool" where
  "same_outside S m m' \<longleftrightarrow>
     (\<forall>a. a \<notin> S \<longrightarrow> prevs m' a = prevs m a \<and> nexts m' a = nexts m a)"

section \<open>Links\<close>

named_theorems mem_simps \<open>unfolding single memory accesses\<close>

lemmas mem_access [mem_simps] =
  get_prev_def get_next_def set_prev_def set_next_def is_head_def is_interior_def is_tail_def

lemma fwd_append: "fwd N (xs @ a # ys) \<longleftrightarrow> fwd N (xs @ [a]) \<and> fwd N (a # ys)"
proof (induction xs)
  case (Cons x xs)
  then show ?case by (cases xs) auto
qed simp

lemma bwd_append: "bwd P (xs @ a # ys) \<longleftrightarrow> bwd P (xs @ [a]) \<and> bwd P (a # ys)"
proof (induction xs)
  case (Cons x xs)
  then show ?case by (cases xs) auto
qed simp

lemma fwd_split:
  "fwd N (xs @ a # b # ys) \<longleftrightarrow> fwd N (xs @ [a]) \<and> N a = b \<and> fwd N (b # ys)"
  by (subst fwd_append) simp

lemma bwd_split:
  "bwd P (xs @ a # b # ys) \<longleftrightarrow> bwd P (xs @ [a]) \<and> P b = a \<and> bwd P (b # ys)"
  by (subst bwd_append) simp

lemma bwd_split_Cons:
  "bwd P (x # xs @ a # b # ys) \<longleftrightarrow> bwd P (x # xs @ [a]) \<and> P b = a \<and> bwd P (b # ys)"
  using bwd_split [of P "x # xs"] by simp

lemma fwd_upd [simp]: "a \<notin> set (butlast ns) \<Longrightarrow> fwd (N(a := v)) ns = fwd N ns"
  by (induction N ns rule: fwd.induct) (auto split: if_splits)

lemma bwd_upd [simp]: "a \<notin> set (tl ns) \<Longrightarrow> bwd (P(a := v)) ns = bwd P ns"
  by (induction P ns rule: bwd.induct) auto

lemma fwd_cong: "(\<And>a. a \<in> set (butlast ns) \<Longrightarrow> N' a = N a) \<Longrightarrow> fwd N' ns = fwd N ns"
  by (induction N ns rule: fwd.induct) (auto split: if_splits)

lemma bwd_cong: "(\<And>a. a \<in> set (tl ns) \<Longrightarrow> P' a = P a) \<Longrightarrow> bwd P' ns = bwd P ns"
  by (induction P ns rule: bwd.induct) auto

lemma fwd_upd_notin [simp]: "a \<notin> set ns \<Longrightarrow> fwd (N(a := v)) ns = fwd N ns"
  by (rule fwd_upd) (auto dest: in_set_butlastD)

lemma bwd_upd_notin [simp]: "a \<notin> set ns \<Longrightarrow> bwd (P(a := v)) ns = bwd P ns"
  by (rule bwd_upd) (cases ns, auto)

lemma fwd_rev: "fwd N (rev zs) = bwd N zs"
proof (induction N zs rule: bwd.induct)
  case (1 P a b ns)
  have "fwd P (rev (a # b # ns)) = (fwd P (rev ns @ [b]) \<and> P b = a)"
    using fwd_split [of P "rev ns" b a "[]"] by simp
  then show ?case using 1 by auto
qed simp_all

lemma bwd_rev: "bwd P (rev zs) = fwd P zs"
  using fwd_rev [of P "rev zs"] by simp

lemma fwd_app:
  "xs \<noteq> [] \<Longrightarrow> ys \<noteq> [] \<Longrightarrow> fwd N (xs @ ys) \<longleftrightarrow> fwd N xs \<and> N (last xs) = hd ys \<and> fwd N ys"
proof (induction N xs rule: fwd.induct)
  case (2 N a)
  then show ?case by (cases ys) auto
qed auto

lemma bwd_app:
  "xs \<noteq> [] \<Longrightarrow> ys \<noteq> [] \<Longrightarrow> bwd P (xs @ ys) \<longleftrightarrow> bwd P xs \<and> P (hd ys) = last xs \<and> bwd P ys"
proof (induction P xs rule: bwd.induct)
  case (2 P a)
  then show ?case by (cases ys) auto
qed auto

section \<open>Frames\<close>

lemma same_outside_refl [simp]: "same_outside S m m"
  by (simp add: same_outside_def)

lemma same_outside_trans:
  "same_outside S m m' \<Longrightarrow> same_outside S m' m'' \<Longrightarrow> same_outside S m m''"
  by (simp add: same_outside_def)

lemma same_outside_mono: "same_outside S m m' \<Longrightarrow> S \<subseteq> T \<Longrightarrow> same_outside T m m'"
  by (auto simp: same_outside_def)

lemma dnodes_frame:
  assumes "dnodes m ns" "same_outside S m m'" "S \<inter> set ns = {}"
  shows "dnodes m' ns"
proof -
  have eq: "prevs m' a = prevs m a" "nexts m' a = nexts m a" if "a \<in> set ns" for a
    using assms(2,3) that by (auto simp: same_outside_def)
  have "fwd (nexts m') (ns @ [NULL]) = fwd (nexts m) (ns @ [NULL])"
    by (rule fwd_cong) (simp add: eq)
  moreover have "bwd (prevs m') (NULL # ns) = bwd (prevs m) (NULL # ns)"
    by (rule bwd_cong) (simp add: eq)
  ultimately show ?thesis using assms(1) by (simp add: dnodes_def)
qed

lemma list_nodes_set: "set (head_of l # xs @ [tail_of l]) = list_nodes l xs"
  by (auto simp: list_nodes_def)

lemma dlist_frame:
  "dlist m l xs \<Longrightarrow> same_outside S m m' \<Longrightarrow> S \<inter> list_nodes l xs = {} \<Longrightarrow> dlist m' l xs"
  unfolding dlist_def by (rule dnodes_frame) (simp_all only: list_nodes_set)

section \<open>Single steps through a list\<close>

lemma dnodes_step:
  assumes "dnodes m (ps @ a # b # qs)"
  shows "nexts m a = b" "prevs m b = a" "a \<noteq> NULL" "b \<noteq> NULL" "a \<noteq> b"
    and "list_next m a = Some b" "list_prev m b = Some a"
    and "is_interior m b \<or> is_tail m b" "is_head m a \<or> is_interior m a"
  using assms
  by (auto simp: dnodes_def fwd_split bwd_split_Cons list_next_def list_prev_def mem_simps)

lemma dnodes_interior: "dnodes m (ps @ a # b # c # qs) \<Longrightarrow> is_interior m b"
  using dnodes_step [of m ps a b "c # qs"] dnodes_step [of m "ps @ [a]" b c qs]
  by (simp add: is_interior_def)

lemma list_insert_dnodes:
  assumes d: "dnodes m (ps @ a # b # qs)" and e: "e \<notin> set (ps @ a # b # qs)" "e \<noteq> NULL"
  obtains m' where "list_insert m b e = Some m'" "dnodes m' (ps @ a # e # b # qs)"
    "same_outside {a, b, e} m m'"
proof -
  let ?m = "m\<lparr>prevs := (prevs m)(e := a, b := e), nexts := (nexts m)(e := b, a := e)\<rparr>"
  note s = dnodes_step [OF d]
  have "list_insert m b e = Some ?m"
    using s e by (simp add: list_insert_def mem_simps)
  moreover have "dnodes ?m (ps @ a # e # b # qs)"
  proof -
    have "a \<noteq> e" "b \<noteq> a" using e(1) s(5) by auto
    then show ?thesis using d e by (simp add: dnodes_def fwd_split bwd_split_Cons)
  qed
  moreover have "same_outside {a, b, e} m ?m" by (auto simp: same_outside_def)
  ultimately show ?thesis by (rule that)
qed

lemma list_remove_dnodes:
  assumes d: "dnodes m (ps @ a # e # b # qs)"
  obtains m' where "list_remove m e = Some (b, m')" "dnodes m' (ps @ a # b # qs)"
    "same_outside {a, b} m m'"
proof -
  let ?m = "m\<lparr>prevs := (prevs m)(b := a), nexts := (nexts m)(a := b)\<rparr>"
  have d': "dnodes m ((ps @ [a]) @ e # b # qs)" using d by simp
  note s = dnodes_step [OF d] dnodes_step [OF d']
  have "list_remove m e = Some (b, ?m)"
    using s dnodes_interior [OF d] d by (simp add: list_remove_def mem_simps dnodes_def)
  moreover have "dnodes ?m (ps @ a # b # qs)"
  proof -
    have "b \<noteq> a" using d by (auto simp: dnodes_def)
    then show ?thesis using d by (simp add: dnodes_def fwd_split bwd_split_Cons)
  qed
  moreover have "same_outside {a, b} m ?m" by (auto simp: same_outside_def)
  ultimately show ?thesis by (rule that)
qed


section \<open>Lists: cursors\<close>

text \<open>
  The cursor of a traversal that has passed \<open>as\<close> and still has \<open>bs\<close> before it stands on
  \<open>cursor l bs\<close>: the first remaining element, or the tail.
\<close>

abbreviation cursor :: "addr \<Rightarrow> addr list \<Rightarrow> addr" where
  "cursor l bs \<equiv> hd (bs @ [tail_of l])"

lemma dlist_nonnull: "dlist m l xs \<Longrightarrow> l \<noteq> NULL" "dlist m l xs \<Longrightarrow> tail_of l \<noteq> NULL"
  by (auto simp: dlist_def dnodes_def head_of_def)

lemma dlist_elem:
  assumes "dlist m l xs" "b \<in> set xs"
  shows "b \<noteq> NULL" "b \<noteq> tail_of l" "b \<noteq> head_of l"
  using assms by (auto simp: dlist_def dnodes_def)

lemma dlist_distinct: "dlist m l xs \<Longrightarrow> distinct xs"
  by (simp add: dlist_def dnodes_def)

lemma list_end_dlist: "dlist m l xs \<Longrightarrow> list_end l = Some (tail_of l)"
  using dlist_nonnull(1) by (simp add: list_end_def)

lemma dlist_cursor_nodes:
  "head_of l # (as @ b # bs) @ [tail_of l] =
     (head_of l # as) @ b # cursor l bs # tl (bs @ [tail_of l])"
  by (cases bs) simp_all

lemma dlist_cursor_step:
  assumes "dlist m l (as @ b # bs)"
  shows "list_next m b = Some (cursor l bs)" "list_prev m (cursor l bs) = Some b"
    "nexts m b = cursor l bs" "prevs m (cursor l bs) = b"
  using assms dnodes_step [of m "head_of l # as" b "cursor l bs" "tl (bs @ [tail_of l])"]
  unfolding dlist_def dlist_cursor_nodes by simp_all

lemma dlist_begin:
  assumes "dlist m l xs"
  shows "list_begin m l = Some (cursor l xs)" "nexts m (head_of l) = cursor l xs"
    "prevs m (cursor l xs) = head_of l"
proof -
  have "head_of l # xs @ [tail_of l] = [] @ head_of l # cursor l xs # tl (xs @ [tail_of l])"
    by (cases xs) simp_all
  then have d: "dnodes m ([] @ head_of l # cursor l xs # tl (xs @ [tail_of l]))"
    using assms by (simp only: dlist_def)
  show "list_begin m l = Some (cursor l xs)" "nexts m (head_of l) = cursor l xs"
    "prevs m (cursor l xs) = head_of l"
    using dnodes_step [OF d] dlist_nonnull(1) [OF assms] by (simp_all add: list_begin_def get_next_def)
qed

lemma dlist_cursor_end:
  "dlist m l (as @ bs) \<Longrightarrow> cursor l bs = tail_of l \<longleftrightarrow> bs = []"
  using dlist_elem [of m l "as @ bs" "hd bs"] by (cases bs) auto

lemma dlist_cursor_nonnull: "dlist m l (as @ bs) \<Longrightarrow> cursor l bs \<noteq> NULL"
  using dlist_elem [of m l "as @ bs" "hd bs"] dlist_nonnull by (cases bs) auto

lemma list_empty_dlist: "dlist m l xs \<Longrightarrow> list_empty m l = Some (xs = [])"
  using dlist_cursor_end [of m l "[]" xs] by (simp add: list_empty_def dlist_begin list_end_dlist)

lemma list_front_dlist: "dlist m l (x # xs) \<Longrightarrow> list_front m l = Some x"
  using dlist_begin [of m l "x # xs"] dlist_nonnull(1) [of m l "x # xs"]
  by (auto simp: list_front_def get_next_def head_of_def list_empty_dlist)

lemma list_back_dlist:
  assumes "dlist m l (xs @ [x])"
  shows "list_back m l = Some x"
  using assms dlist_cursor_step(4) [OF assms] dlist_nonnull(2) [OF assms]
  by (simp add: list_back_def get_prev_def list_empty_dlist)

section \<open>Lists: insertion and removal\<close>

definition can_insert :: "addr \<Rightarrow> addr list \<Rightarrow> addr \<Rightarrow> bool" where
  "can_insert l xs e \<longleftrightarrow> e \<noteq> NULL \<and> e \<notin> list_nodes l xs"

lemma list_init_dlist:
  assumes "l \<noteq> NULL" "tail_of l \<noteq> NULL"
  shows "\<exists>m'. list_init m l = Some m' \<and> dlist m' l [] \<and> same_outside (list_nodes l []) m m'"
proof -
  let ?m = "m\<lparr>prevs := (prevs m)(head_of l := NULL, tail_of l := head_of l),
              nexts := (nexts m)(head_of l := tail_of l, tail_of l := NULL)\<rparr>"
  have ne: "head_of l \<noteq> tail_of l" by (simp add: head_of_def tail_of_def)
  have "list_init m l = Some ?m" using assms by (simp add: list_init_def mem_simps head_of_def)
  moreover have "dlist ?m l []"
    using assms ne by (auto simp: dlist_def dnodes_def head_of_def)
  moreover have "same_outside (list_nodes l []) m ?m"
    by (auto simp: same_outside_def list_nodes_def)
  ultimately show ?thesis by blast
qed

lemma list_gap:
  obtains b ps a qs where "b = cursor l bs"
    "\<forall>zs. head_of l # (as @ zs @ bs) @ [tail_of l] = ps @ a # zs @ b # qs"
proof -
  obtain ps a where pa: "head_of l # as = ps @ [a]" using rev_exhaust [of "head_of l # as"] by blast
  obtain b qs where bq: "bs @ [tail_of l] = b # qs" by (cases bs) auto
  have "head_of l # (as @ zs @ bs) @ [tail_of l] = (head_of l # as) @ zs @ (bs @ [tail_of l])" for zs
    by simp
  then have "head_of l # (as @ zs @ bs) @ [tail_of l] = ps @ a # zs @ b # qs" for zs
    unfolding pa bq by simp
  moreover have "b = cursor l bs" using bq by simp
  ultimately show ?thesis using that by blast
qed

lemma list_insert_dlist:
  assumes d: "dlist m l (as @ bs)" and e: "can_insert l (as @ bs) e"
  shows "\<exists>m'. list_insert m (cursor l bs) e = Some m' \<and> dlist m' l (as @ e # bs) \<and>
    same_outside (list_nodes l (as @ e # bs)) m m'"
proof -
  obtain b ps a qs where b: "b = cursor l bs"
    and gap: "\<forall>zs. head_of l # (as @ zs @ bs) @ [tail_of l] = ps @ a # zs @ b # qs"
    by (rule list_gap [where l = l and bs = bs and as = as])
  have nodes: "head_of l # (as @ bs) @ [tail_of l] = ps @ a # b # qs" using gap [rule_format, of "[]"] by simp
  have "dnodes m (ps @ a # b # qs)" using d by (simp only: dlist_def nodes)
  moreover have "e \<notin> set (ps @ a # b # qs)" "e \<noteq> NULL"
    using e by (simp_all only: can_insert_def nodes [symmetric] list_nodes_set) blast+
  ultimately obtain m' where m': "list_insert m b e = Some m'"
    "dnodes m' (ps @ a # e # b # qs)" "same_outside {a, b, e} m m'"
    by (rule list_insert_dnodes)
  have nodes': "ps @ a # e # b # qs = head_of l # (as @ e # bs) @ [tail_of l]"
    using gap [rule_format, of "[e]"] by simp
  have sub: "{a, b, e} \<subseteq> list_nodes l (as @ e # bs)"
    using arg_cong [OF nodes', of set] unfolding list_nodes_set by auto
  show ?thesis
  proof (intro exI conjI)
    show "list_insert m (cursor l bs) e = Some m'" using m'(1) b by simp
    show "dlist m' l (as @ e # bs)" using m'(2) by (simp only: dlist_def nodes')
    show "same_outside (list_nodes l (as @ e # bs)) m m'"
      using m'(3) sub by (rule same_outside_mono)
  qed
qed

lemma list_push_back_dlist:
  assumes "dlist m l xs" "can_insert l xs e"
  shows "\<exists>m'. list_push_back m l e = Some m' \<and> dlist m' l (xs @ [e]) \<and>
    same_outside (list_nodes l (xs @ [e])) m m'"
  using list_insert_dlist [of m l xs "[]" e] assms by (auto simp: list_push_back_def list_end_dlist)

lemma list_push_front_dlist:
  assumes "dlist m l xs" "can_insert l xs e"
  shows "\<exists>m'. list_push_front m l e = Some m' \<and> dlist m' l (e # xs) \<and>
    same_outside (list_nodes l (e # xs)) m m'"
  using list_insert_dlist [of m l "[]" xs e] assms
  by (auto simp: list_push_front_def dlist_begin)

lemma list_remove_dlist:
  assumes d: "dlist m l (as @ e # bs)"
  shows "\<exists>m'. list_remove m e = Some (cursor l bs, m') \<and> dlist m' l (as @ bs) \<and>
    same_outside (list_nodes l (as @ bs)) m m'"
proof -
  obtain b ps a qs where b: "b = cursor l bs"
    and gap: "\<forall>zs. head_of l # (as @ zs @ bs) @ [tail_of l] = ps @ a # zs @ b # qs"
    by (rule list_gap [where l = l and bs = bs and as = as])
  have nodes: "head_of l # (as @ e # bs) @ [tail_of l] = ps @ a # e # b # qs"
    using gap [rule_format, of "[e]"] by simp
  have "dnodes m (ps @ a # e # b # qs)" using d by (simp only: dlist_def nodes)
  then obtain m' where m': "list_remove m e = Some (b, m')"
    "dnodes m' (ps @ a # b # qs)" "same_outside {a, b} m m'"
    by (rule list_remove_dnodes)
  have nodes': "ps @ a # b # qs = head_of l # (as @ bs) @ [tail_of l]"
    using gap [rule_format, of "[]"] by simp
  have sub: "{a, b} \<subseteq> list_nodes l (as @ bs)"
    using arg_cong [OF nodes', of set] unfolding list_nodes_set by auto
  show ?thesis
  proof (intro exI conjI)
    show "list_remove m e = Some (cursor l bs, m')" using m'(1) b by simp
    show "dlist m' l (as @ bs)" using m'(2) by (simp only: dlist_def nodes')
    show "same_outside (list_nodes l (as @ bs)) m m'" using m'(3) sub by (rule same_outside_mono)
  qed
qed

lemma list_pop_front_dlist:
  assumes "dlist m l (x # xs)"
  shows "\<exists>m'. list_pop_front m l = Some (x, m') \<and> dlist m' l xs \<and>
    same_outside (list_nodes l xs) m m'"
  using list_remove_dlist [of m l "[]" x xs] assms list_front_dlist [OF assms]
  by (auto simp: list_pop_front_def)

lemma list_pop_back_dlist:
  assumes "dlist m l (xs @ [x])"
  shows "\<exists>m'. list_pop_back m l = Some (x, m') \<and> dlist m' l xs \<and>
    same_outside (list_nodes l xs) m m'"
  using list_remove_dlist [of m l xs x "[]"] assms list_back_dlist [OF assms]
  by (auto simp: list_pop_back_def)

lemma list_pop_front_empty: "dlist m l [] \<Longrightarrow> list_pop_front m l = None"
  by (simp add: list_pop_front_def list_front_def list_empty_dlist)

section \<open>Strict weak orders\<close>

definition strict_weak :: "list_less_func \<Rightarrow> bool" where
  "strict_weak lt \<longleftrightarrow> (\<forall>a b. lt a b \<longrightarrow> \<not> lt b a) \<and>
     (\<forall>a b c. \<not> lt a b \<longrightarrow> \<not> lt b c \<longrightarrow> \<not> lt a c)"

lemma strict_weakI:
  "(\<And>a b. lt a b \<Longrightarrow> \<not> lt b a) \<Longrightarrow> (\<And>a b c. \<not> lt a b \<Longrightarrow> \<not> lt b c \<Longrightarrow> \<not> lt a c) \<Longrightarrow> strict_weak lt"
  unfolding strict_weak_def by iprover

lemma strict_weak_asym: "strict_weak lt \<Longrightarrow> lt a b \<Longrightarrow> \<not> lt b a"
  unfolding strict_weak_def by iprover

lemma strict_weak_negtrans: "strict_weak lt \<Longrightarrow> \<not> lt a b \<Longrightarrow> \<not> lt b c \<Longrightarrow> \<not> lt a c"
  unfolding strict_weak_def by iprover

lemma strict_weak_irrefl: "strict_weak lt \<Longrightarrow> \<not> lt a a"
  by (rule notI) (frule (1) strict_weak_asym, erule (1) notE)

lemma strict_weak_trans1: "strict_weak lt \<Longrightarrow> lt a b \<Longrightarrow> \<not> lt c b \<Longrightarrow> lt a c"
  by (rule ccontr) (drule (2) strict_weak_negtrans, erule (1) notE)

lemma strict_weak_trans2: "strict_weak lt \<Longrightarrow> \<not> lt b a \<Longrightarrow> lt b c \<Longrightarrow> lt a c"
  by (rule ccontr) (drule (2) strict_weak_negtrans, erule (1) notE)

lemma strict_weak_converse:
  assumes "strict_weak lt"
  shows "strict_weak (\<lambda>a b. lt b a)"
proof (rule strict_weakI)
  show "\<not> lt a b" if "lt b a" for a b using strict_weak_asym [OF assms that] .
  show "\<not> lt c a" if "\<not> lt b a" "\<not> lt c b" for a b c
    using strict_weak_negtrans [OF assms that(2,1)] .
qed

section \<open>Size, maximum and minimum\<close>

lemma dlist_length: 
  assumes "dlist m l xs" shows "length xs + 2 < 2 ^ 32"
proof -
  let ?ns = "head_of l # xs @ [tail_of l]"
  have d: "distinct ?ns" "NULL \<notin> set ?ns" using assms by (simp_all add: dlist_def dnodes_def)
  have "set ?ns \<subset> (UNIV :: addr set)" using d(2) by blast
  then have "card (set ?ns) < card (UNIV :: addr set)" by (intro psubset_card_mono) simp_all
  then show ?thesis using distinct_card [OF d(1)] by (simp add: card_word)
qed

lemma list_size_loop_dlist:
  "dlist m l (as @ bs) \<Longrightarrow> list_size_loop m l (cursor l bs) cnt = Some (cnt + of_nat (length bs))"
proof (induction bs arbitrary: as cnt)
  case Nil
  then show ?case by (subst list_size_loop.simps) (simp add: list_end_dlist)
next
  case (Cons b bs)
  have "dlist m l ((as @ [b]) @ bs)" using Cons.prems by simp
  note IH = Cons.IH [OF this, of "cnt + 1"]
  show ?case using Cons.prems dlist_cursor_step [OF Cons.prems] dlist_elem(2) [OF Cons.prems] IH
    by (subst list_size_loop.simps) (simp add: list_end_dlist)
qed

lemma list_size_dlist:
  assumes "dlist m l xs"
  shows "\<exists>n. list_size m l = Some n \<and> unat n = length xs"
proof -
  have "list_size m l = Some (of_nat (length xs))"
    using list_size_loop_dlist [of m l "[]" xs 0] assms by (simp add: list_size_def dlist_begin)
  moreover have "unat (of_nat (length xs) :: u32) = length xs"
    using dlist_length [OF assms] by (simp add: unat_of_nat_u32)
  ultimately show ?thesis by blast
qed

fun max_from :: "list_less_func \<Rightarrow> addr \<Rightarrow> addr list \<Rightarrow> addr" where
  "max_from lt mx [] = mx"
| "max_from lt mx (e # es) = max_from lt (if lt mx e then e else mx) es"

lemma list_max_loop_dlist:
  "dlist m l (as @ bs) \<Longrightarrow> list_max_loop lt m l mx (cursor l bs) = Some (max_from lt mx bs)"
proof (induction bs arbitrary: as mx)
  case Nil
  then show ?case by (subst list_max_loop.simps) (simp add: list_end_dlist)
next
  case (Cons b bs)
  have "dlist m l ((as @ [b]) @ bs)" using Cons.prems by simp
  note IH = Cons.IH [OF this]
  show ?case using Cons.prems dlist_cursor_step [OF Cons.prems] dlist_elem(2) [OF Cons.prems] 
    by (subst list_max_loop.simps) (simp add: list_end_dlist IH)
qed

lemma list_max_dlist:
  assumes "dlist m l xs"
  shows "list_max lt m l = Some (case xs of [] \<Rightarrow> tail_of l | x # ys \<Rightarrow> max_from lt x ys)"
proof (cases xs)
  case Nil
  then show ?thesis using assms by (simp add: list_max_def dlist_begin list_end_dlist)
next
  case (Cons x ys)
  then have d: "dlist m l ([] @ x # ys)" "dlist m l ([x] @ ys)" using assms by simp_all
  show ?thesis using assms Cons dlist_cursor_step(1) [OF d(1)] dlist_elem(2) [OF assms]
    list_max_loop_dlist [OF d(2)]
    by (simp add: list_max_def dlist_begin list_end_dlist)
qed

lemma list_min_loop_dlist:
  "dlist m l (as @ bs) \<Longrightarrow>
     list_min_loop lt m l mn (cursor l bs) = Some (max_from (\<lambda>a b. lt b a) mn bs)"
proof (induction bs arbitrary: as mn)
  case Nil
  then show ?case by (subst list_min_loop.simps) (simp add: list_end_dlist)
next
  case (Cons b bs)
  have "dlist m l ((as @ [b]) @ bs)" using Cons.prems by simp
  note IH = Cons.IH [OF this]
  show ?case using Cons.prems dlist_cursor_step [OF Cons.prems] dlist_elem(2) [OF Cons.prems] 
    by (subst list_min_loop.simps) (simp add: list_end_dlist IH)
qed

lemma list_min_dlist:
  assumes "dlist m l xs"
  shows "list_min lt m l =
    Some (case xs of [] \<Rightarrow> tail_of l | x # ys \<Rightarrow> max_from (\<lambda>a b. lt b a) x ys)"
proof (cases xs)
  case Nil
  then show ?thesis using assms by (simp add: list_min_def dlist_begin list_end_dlist)
next
  case (Cons x ys)
  then have d: "dlist m l ([] @ x # ys)" "dlist m l ([x] @ ys)" using assms by simp_all
  show ?thesis using assms Cons dlist_cursor_step(1) [OF d(1)] dlist_elem(2) [OF assms]
    list_min_loop_dlist [OF d(2)]
    by (simp add: list_min_def dlist_begin list_end_dlist)
qed

lemma max_from_first:
  assumes "strict_weak lt"
  shows "\<exists>as bs. x # ys = as @ max_from lt x ys # bs \<and>
     (\<forall>a\<in>set as. lt a (max_from lt x ys)) \<and> (\<forall>b\<in>set bs. \<not> lt (max_from lt x ys) b)"
proof (induction ys arbitrary: x)
  case Nil
  show ?case by (intro exI [of _ "[]"]) simp
next
  case (Cons y ys)
  define z where "z = (if lt x y then y else x)"
  define mx where "mx = max_from lt z ys"
  obtain as bs where d: "z # ys = as @ mx # bs" "\<forall>a\<in>set as. lt a mx" "\<forall>b\<in>set bs. \<not> lt mx b"
    using Cons.IH unfolding mx_def by blast
  have mx: "max_from lt x (y # ys) = mx" by (simp add: mx_def z_def)
  have top: "\<not> lt mx z"
  proof (cases as)
    case Nil
    then show ?thesis using d(1) strict_weak_irrefl [OF assms] by simp
  next
    case (Cons a as')
    then have "lt z mx" using d(1,2) by simp
    then show ?thesis by (rule strict_weak_asym [OF assms])
  qed
  have "\<exists>as bs. x # y # ys = as @ mx # bs \<and> (\<forall>a\<in>set as. lt a mx) \<and> (\<forall>b\<in>set bs. \<not> lt mx b)"
  proof (cases "lt x y")
    case True
    then have "z = y" by (simp add: z_def)
    moreover have "lt x mx" using strict_weak_trans1 [OF assms True] top \<open>z = y\<close> by simp
    ultimately show ?thesis using d by (intro exI [of _ "x # as"] exI [of _ bs]) simp
  next
    case False
    then have z: "z = x" by (simp add: z_def)
    show ?thesis
    proof (cases as)
      case Nil
      then have "mx = x" using d(1) z by simp
      then show ?thesis using d Nil z False by (intro exI [of _ "[]"] exI [of _ "y # bs"]) simp
    next
      case (Cons a as')
      then have "lt x mx" using d(1,2) z by simp
      moreover from this have "lt y mx" using strict_weak_trans2 [OF assms False] by simp
      ultimately show ?thesis using d z Cons
        by (intro exI [of _ "x # y # as'"] exI [of _ bs]) simp
    qed
  qed
  then show ?case unfolding mx .
qed

section \<open>Ordered insertion\<close>

lemma list_insert_ordered_loop_dlist:
  "dlist m l (as @ bs) \<Longrightarrow> list_insert_ordered_loop lt m l e (cursor l bs) =
     Some (cursor l (dropWhile (\<lambda>b. \<not> lt e b) bs))"
proof (induction bs arbitrary: as)
  case Nil
  then show ?case by (subst list_insert_ordered_loop.simps) (simp add: list_end_dlist)
next
  case (Cons b bs)
  have "dlist m l ((as @ [b]) @ bs)" using Cons.prems by simp
  note IH = Cons.IH [OF this]
  show ?case using Cons.prems dlist_cursor_step [OF Cons.prems] dlist_elem(2) [OF Cons.prems]
    by (subst list_insert_ordered_loop.simps) (simp add: list_end_dlist IH)
qed

lemma list_insert_ordered_dlist:
  assumes d: "dlist m l xs" and e: "can_insert l xs e"
  shows "\<exists>m'. list_insert_ordered lt m l e = Some m' \<and>
     dlist m' l (takeWhile (\<lambda>b. \<not> lt e b) xs @ e # dropWhile (\<lambda>b. \<not> lt e b) xs) \<and>
     same_outside (list_nodes l (e # xs)) m m'"
proof -
  let ?as = "takeWhile (\<lambda>b. \<not> lt e b) xs" and ?bs = "dropWhile (\<lambda>b. \<not> lt e b) xs"
  have "dlist m l (?as @ ?bs)" "can_insert l (?as @ ?bs) e" using d e by simp_all
  then obtain m' where m': "list_insert m (cursor l ?bs) e = Some m'" "dlist m' l (?as @ e # ?bs)"
    "same_outside (list_nodes l (?as @ e # ?bs)) m m'"
    using list_insert_dlist by blast
  have "set ?as \<union> set ?bs = set xs" by (metis set_append takeWhile_dropWhile_id)
  then have "set (?as @ e # ?bs) = set (e # xs)" by auto
  then have "list_nodes l (?as @ e # ?bs) = list_nodes l (e # xs)" by (simp add: list_nodes_def)
  moreover have "list_insert_ordered lt m l e = Some m'"
    using m'(1) list_insert_ordered_loop_dlist [of m l "[]" xs lt e] d e dlist_nonnull(1) [OF d]
    by (simp add: list_insert_ordered_def dlist_begin can_insert_def)
  ultimately show ?thesis using m' by auto
qed

section \<open>Reversal\<close>

definition swapped :: "list_mem \<Rightarrow> addr set \<Rightarrow> list_mem" where
  "swapped m S = m\<lparr>prevs := (\<lambda>a. if a \<in> S then nexts m a else prevs m a),
                   nexts := (\<lambda>a. if a \<in> S then prevs m a else nexts m a)\<rparr>"

lemma swap_links_swapped:
  "e \<noteq> NULL \<Longrightarrow> e \<notin> S \<Longrightarrow> swap_links (swapped m S) e = Some (swapped m (insert e S))"
  by (simp add: swap_links_def swapped_def mem_simps fun_eq_iff)

lemma list_reverse_loop_dlist:
  "dlist m l (as @ bs) \<Longrightarrow>
     list_reverse_loop (swapped m (set as)) l (cursor l bs) = Some (swapped m (set (as @ bs)))"
proof (induction bs arbitrary: as)
  case Nil
  then show ?case by (subst list_reverse_loop.simps) (simp add: list_end_dlist)
next
  case (Cons b bs)
  have d: "dlist m l ((as @ [b]) @ bs)" using Cons.prems by simp
  have b: "b \<noteq> NULL" "b \<noteq> tail_of l" "b \<notin> set as"
    using dlist_elem [OF Cons.prems] dlist_distinct [OF Cons.prems] by simp_all
  have "prevs (swapped m (insert b (set as))) b = cursor l bs"
    using dlist_cursor_step(3) [OF Cons.prems] by (simp add: swapped_def)
  then show ?case
    using Cons.IH [OF d] b swap_links_swapped [OF b(1,3)] list_end_dlist [OF d]
    by (subst list_reverse_loop.simps) (simp add: get_prev_def)
qed

lemma dlist_nonempty_iff:
  assumes "xs \<noteq> []"
  shows "dlist m l xs \<longleftrightarrow> distinct (head_of l # xs @ [tail_of l]) \<and>
     NULL \<notin> set (head_of l # xs @ [tail_of l]) \<and>
     nexts m (head_of l) = hd xs \<and> fwd (nexts m) xs \<and> nexts m (last xs) = tail_of l \<and>
     nexts m (tail_of l) = NULL \<and>
     prevs m (head_of l) = NULL \<and> prevs m (hd xs) = head_of l \<and> bwd (prevs m) xs \<and>
     prevs m (tail_of l) = last xs"
proof -
  have f: "fwd N (head_of l # xs @ [tail_of l] @ [NULL]) \<longleftrightarrow> N (head_of l) = hd xs \<and> fwd N xs \<and>
      N (last xs) = tail_of l \<and> N (tail_of l) = NULL" for N
    using assms fwd_app [of "[head_of l]" "xs @ [tail_of l, NULL]"] fwd_app [of xs "[tail_of l, NULL]"]
    by simp
  have b: "bwd P (NULL # head_of l # xs @ [tail_of l]) \<longleftrightarrow> P (head_of l) = NULL \<and>
      P (hd xs) = head_of l \<and> bwd P xs \<and> P (tail_of l) = last xs" for P
    using assms bwd_app [of "[NULL, head_of l]" "xs @ [tail_of l]"] bwd_app [of xs "[tail_of l]"]
    by auto
  show ?thesis unfolding dlist_def dnodes_def using f [of "nexts m"] b [of "prevs m"] by auto
qed

lemma list_reverse_dlist:
  assumes d: "dlist m l xs"
  shows "\<exists>m'. list_reverse m l = Some m' \<and> dlist m' l (rev xs) \<and>
     same_outside (list_nodes l xs) m m'"
proof (cases "xs = []")
  case True
  then show ?thesis using d by (auto simp: list_reverse_def list_empty_dlist)
next
  case False
  let ?h = "head_of l" and ?t = "tail_of l" and ?x = "hd xs" and ?z = "last xs"
  let ?s = "swapped m (set xs)"
  let ?m = "?s\<lparr>prevs := (prevs ?s)(?t := ?x, ?z := ?h), nexts := (nexts ?s)(?h := ?z, ?x := ?t)\<rparr>"
  note D = d [unfolded dlist_nonempty_iff [OF False]]
  have in_xs: "?x \<in> set xs" "?z \<in> set xs" using False by simp_all
  have ne: "?x \<noteq> ?t" "?z \<noteq> ?t" "?x \<noteq> ?h" "?z \<noteq> ?h" "?h \<noteq> ?t" "?t \<noteq> ?h" "?x \<noteq> NULL" "?z \<noteq> NULL"
    "?h \<noteq> NULL" "?t \<noteq> NULL" "?h \<notin> set xs" "?t \<notin> set xs"
    using D in_xs by (auto simp del: hd_in_set last_in_set)
  have loop: "list_reverse_loop m l (cursor l xs) = Some ?s"
    using list_reverse_loop_dlist [of m l "[]" xs] d by (simp add: swapped_def)
  have "list_reverse m l = Some ?m"
    using loop d False ne D in_xs
    by (simp add: list_reverse_def list_empty_dlist dlist_begin mem_simps swapped_def)
  moreover have "dlist ?m l (rev xs)"
  proof -
    have "fwd (nexts ?m) (rev xs)"
    proof -
      have "?x \<notin> set (tl xs)" using D False by (cases xs) auto
      then have "bwd (nexts ?m) xs = bwd (prevs m) xs"
        using ne by (intro bwd_cong) (auto simp: swapped_def dest: list.set_sel(2) [OF False])
      then show ?thesis using D by (simp add: fwd_rev)
    qed
    moreover have "bwd (prevs ?m) (rev xs)"
    proof -
      have "?z \<notin> set (butlast xs)" using D False
        by (metis append_butlast_last_id distinct_butlast not_distinct_conv_prefix distinct.simps(2) distinct_append)
      then have "fwd (prevs ?m) xs = fwd (nexts m) xs"
        using ne by (intro fwd_cong) (auto simp: swapped_def dest: in_set_butlastD)
      then show ?thesis using D by (simp add: bwd_rev)
    qed
    ultimately show ?thesis
      using D False ne in_xs by (subst dlist_nonempty_iff) (simp_all add: hd_rev last_rev swapped_def)
  qed
  moreover have "same_outside (list_nodes l xs) m ?m"
    using in_xs by (auto simp: same_outside_def list_nodes_def swapped_def)
  ultimately show ?thesis by blast
qed

section \<open>Removing adjacent duplicates\<close>

fun uniq :: "list_less_func \<Rightarrow> addr \<Rightarrow> addr list \<Rightarrow> addr list \<times> addr list" where
  "uniq lt elem [] = ([], [])"
| "uniq lt elem (n # ns) =
     (if \<not> lt elem n \<and> \<not> lt n elem
      then (case uniq lt elem ns of (ks, ds) \<Rightarrow> (ks, n # ds))
      else (case uniq lt n ns of (ks, ds) \<Rightarrow> (n # ks, ds)))"

definition dup_list :: "list_mem \<Rightarrow> addr \<Rightarrow> addr list \<Rightarrow> addr \<Rightarrow> addr list \<Rightarrow> bool" where
  "dup_list m l xs dup ds \<longleftrightarrow>
     dup \<noteq> NULL \<longrightarrow> dlist m dup ds \<and> list_nodes dup ds \<inter> list_nodes l xs = {}"

lemma uniq_move_dlist:
  assumes d: "dlist m l (as @ e # n # ns)" and dup: "dup_list m l (as @ e # n # ns) dup ds"
  shows "\<exists>m1 m2. list_remove m n = Some (cursor l ns, m1) \<and>
     (if dup \<noteq> NULL then list_push_back m1 dup n else Some m1) = Some m2 \<and>
     dlist m2 l (as @ e # ns) \<and> dup_list m2 l (as @ e # ns) dup (ds @ [n]) \<and>
     same_outside (list_nodes l (as @ e # n # ns) \<union> (if dup \<noteq> NULL then list_nodes dup ds else {})) m m2"
proof -
  have "dlist m l ((as @ [e]) @ n # ns)" using d by simp
  from list_remove_dlist [OF this] obtain m1 where m1: "list_remove m n = Some (cursor l ns, m1)"
    "dlist m1 l (as @ e # ns)" "same_outside (list_nodes l (as @ e # ns)) m m1" by auto
  have sub: "list_nodes l (as @ e # ns) \<subseteq> list_nodes l (as @ e # n # ns)"
    by (auto simp: list_nodes_def)
  have n: "n \<noteq> NULL" "n \<notin> list_nodes l (as @ e # ns)"
    using d by (auto simp: list_nodes_def dlist_def dnodes_def)
  show ?thesis
  proof (cases "dup = NULL")
    case True
    then show ?thesis using m1 same_outside_mono [OF m1(3) sub] by (auto simp: dup_list_def)
  next
    case False
    then have D: "dlist m dup ds" "list_nodes dup ds \<inter> list_nodes l (as @ e # n # ns) = {}"
      using dup by (simp_all add: dup_list_def)
    have "list_nodes l (as @ e # ns) \<inter> list_nodes dup ds = {}" using D(2) sub by blast
    then have D1: "dlist m1 dup ds" by (rule dlist_frame [OF D(1) m1(3)])
    have "can_insert dup ds n" using n D(2) by (auto simp: can_insert_def list_nodes_def)
    then obtain m2 where m2: "list_push_back m1 dup n = Some m2" "dlist m2 dup (ds @ [n])"
      "same_outside (list_nodes dup (ds @ [n])) m1 m2"
      using list_push_back_dlist [OF D1] by blast
    have dis: "list_nodes dup (ds @ [n]) \<inter> list_nodes l (as @ e # ns) = {}"
      using D(2) sub n(2) by (auto simp: list_nodes_def)
    have "dlist m2 l (as @ e # ns)" by (rule dlist_frame [OF m1(2) m2(3) dis])
    moreover have "same_outside (list_nodes l (as @ e # n # ns) \<union> list_nodes dup ds) m m2"
    proof (rule same_outside_trans)
      show "same_outside (list_nodes l (as @ e # n # ns) \<union> list_nodes dup ds) m m1"
        using m1(3) sub by (rule same_outside_mono [OF _ order_trans]) blast
      show "same_outside (list_nodes l (as @ e # n # ns) \<union> list_nodes dup ds) m1 m2"
        by (rule same_outside_mono [OF m2(3)]) (auto simp: list_nodes_def)
    qed
    ultimately show ?thesis using False m1(1) m2 dis by (auto simp: dup_list_def)
  qed
qed

lemma list_unique_loop_dlist:
  "dlist m l (as @ e # ns) \<Longrightarrow> dup_list m l (as @ e # ns) dup ds \<Longrightarrow>
   \<exists>m'. list_unique_loop lt l dup m e = Some m' \<and> dlist m' l (as @ e # fst (uniq lt e ns)) \<and>
     dup_list m' l (as @ e # fst (uniq lt e ns)) dup (ds @ snd (uniq lt e ns))"
proof (induction lt e ns arbitrary: m as ds rule: uniq.induct)
  case (1 lt e)
  then show ?case using dlist_cursor_step(1) [OF 1(1)]
    by (subst list_unique_loop.simps) (simp add: list_end_dlist)
next
  case (2 lt e n ns)
  have nx: "list_next m e = Some n" using dlist_cursor_step(1) [OF 2(3)] by simp
  have ne: "n \<noteq> tail_of l" using dlist_elem(2) [OF 2(3)] by simp
  show ?case
  proof (cases "\<not> lt e n \<and> \<not> lt n e")
    case True
    from uniq_move_dlist [OF 2(3,4)] obtain m1 m2 where
      m: "list_remove m n = Some (cursor l ns, m1)"
         "(if dup \<noteq> NULL then list_push_back m1 dup n else Some m1) = Some m2"
         "dlist m2 l (as @ e # ns)" "dup_list m2 l (as @ e # ns) dup (ds @ [n])" by blast
    have "list_unique_loop lt l dup m e = list_unique_loop lt l dup m2 e"
      using nx ne True m(1,2) list_end_dlist [OF 2(3)]
      by (subst list_unique_loop.simps) (cases "dup = NULL", simp_all)
    then show ?thesis using 2(1) [OF True m(3,4)] True by (simp add: case_prod_unfold)
  next
    case False
    have d: "dlist m l ((as @ [e]) @ n # ns)" "dup_list m l ((as @ [e]) @ n # ns) dup ds"
      using 2(3,4) by simp_all
    from 2(2) [OF False d] show ?thesis
      using nx ne False list_end_dlist [OF 2(3)]
      by (subst list_unique_loop.simps) (auto simp: case_prod_unfold)
  qed
qed

section \<open>Splicing\<close>

lemma dnodes_interior_mem:
  assumes "dnodes m (X @ x # Y)" "X \<noteq> []" "Y \<noteq> []"
  shows "is_interior m x"
proof -
  obtain X' a where "X = X' @ [a]" using assms(2) rev_exhaust by blast
  moreover obtain c Y' where "Y = c # Y'" using assms(3) by (cases Y) auto
  ultimately show ?thesis using dnodes_interior [of m X' a x c Y'] assms(1) by simp
qed

lemma list_splice_dnodes:
  assumes d: "dnodes m (A @ B @ F @ C)" and ne: "A \<noteq> []" "B \<noteq> []" "F \<noteq> []" "C \<noteq> []"
  shows "\<exists>m'. list_splice m (hd B) (hd F) (hd C) = Some m' \<and> dnodes m' (A @ F @ B @ C) \<and>
    same_outside (set (A @ B @ F @ C)) m m'"
proof -
  let ?a = "last A" and ?b = "hd B" and ?u = "last B" and ?f = "hd F" and ?g = "last F" and ?c = "hd C"
  let ?m = "m\<lparr>prevs := (prevs m)(?c := ?u, ?f := ?a, ?b := ?g), nexts := (nexts m)(?u := ?c, ?g := ?b, ?a := ?f)\<rparr>"
  have dis: "distinct A" "distinct B" "distinct F" "distinct C"
    "set A \<inter> set B = {}" "set A \<inter> set F = {}" "set A \<inter> set C = {}"
    "set B \<inter> set F = {}" "set B \<inter> set C = {}" "set F \<inter> set C = {}"
    using d by (auto simp: dnodes_def)
  have mem: "?a \<in> set A" "?b \<in> set B" "?u \<in> set B" "?f \<in> set F" "?g \<in> set F" "?c \<in> set C"
    using ne by simp_all
  have nn: "NULL \<notin> set A" "NULL \<notin> set B" "NULL \<notin> set F" "NULL \<notin> set C"
    using d by (auto simp: dnodes_def)
  have F: "fwd (nexts m) A" "nexts m ?a = ?b" "fwd (nexts m) B" "nexts m ?u = ?f" "fwd (nexts m) F"
    "nexts m ?g = ?c" "fwd (nexts m) (C @ [NULL])"
    using d ne fwd_app [of A "B @ F @ C @ [NULL]" "nexts m"] fwd_app [of B "F @ C @ [NULL]" "nexts m"]
      fwd_app [of F "C @ [NULL]" "nexts m"] by (simp_all add: dnodes_def)
  have P: "bwd (prevs m) (NULL # A)" "prevs m ?b = ?a" "bwd (prevs m) B" "prevs m ?f = ?u" "bwd (prevs m) F"
    "prevs m ?c = ?g" "bwd (prevs m) C"
    using d ne bwd_app [of "NULL # A" "B @ F @ C" "prevs m"] bwd_app [of B "F @ C" "prevs m"]
      bwd_app [of F C "prevs m"] by (simp_all add: dnodes_def)
  have "is_interior m ?b"
    using dnodes_interior_mem [of m A ?b "tl B @ F @ C"] d ne by (cases B) simp_all
  moreover have "is_interior m ?f"
    using dnodes_interior_mem [of m "A @ B" ?f "tl F @ C"] d ne by (cases F) simp_all
  moreover have ig: "is_interior m ?g"
    using dnodes_interior_mem [of m "A @ B @ butlast F" ?g C] d ne append_butlast_last_id [of F]
    by (metis append.assoc append_Cons append_Nil append_is_Nil_conv)
  moreover have "list_prev m ?c = Some ?g"
    using P(6) ig mem nn F(6) by (auto simp: list_prev_def mem_simps)
  moreover have neq: "?f \<noteq> ?c" "?b \<noteq> ?c" "?c \<noteq> ?b" "?b \<noteq> ?f" "?f \<noteq> ?b" "?u \<noteq> ?g" "?g \<noteq> ?u"
    "?u \<noteq> ?a" "?a \<noteq> ?u" "?g \<noteq> ?a" "?a \<noteq> ?g" "?c \<noteq> ?f"
    "?a \<noteq> NULL" "?b \<noteq> NULL" "?c \<noteq> NULL" "?u \<noteq> NULL" "?f \<noteq> NULL" "?g \<noteq> NULL"
    using dis mem nn by (auto simp del: hd_in_set last_in_set)
  ultimately have "list_splice m ?b ?f ?c = Some ?m"
    using F P by (simp add: list_splice_def get_prev_def get_next_def set_prev_def set_next_def)
  moreover have "dnodes ?m (A @ F @ B @ C)"
  proof -
    let ?N = "nexts ?m" and ?P = "prevs ?m"
    have notin: "?u \<notin> set A" "?g \<notin> set A" "?a \<notin> set B" "?g \<notin> set B" "?a \<notin> set F" "?u \<notin> set F"
      "?a \<notin> set C" "?u \<notin> set C" "?g \<notin> set C" "?c \<notin> set A" "?f \<notin> set A" "?b \<notin> set A"
      "?c \<notin> set B" "?f \<notin> set B" "?c \<notin> set F" "?b \<notin> set F" "?f \<notin> set C" "?b \<notin> set C"
      using dis mem by blast+
    note ends = butlast_last_notin [OF dis(1) ne(1)] butlast_last_notin [OF dis(2) ne(2)]
      butlast_last_notin [OF dis(3) ne(3)] hd_notin_tl [OF dis(2) ne(2)] hd_notin_tl [OF dis(3) ne(3)]
      hd_notin_tl [OF dis(4) ne(4)]
    have "fwd ?N A" "fwd ?N F" "fwd ?N B" "fwd ?N (C @ [NULL])"
      using F notin ends by simp_all
    moreover have "?N ?a = ?f" "?N ?g = ?b" "?N ?u = ?c" using neq by simp_all
    ultimately have f: "fwd ?N (A @ F @ B @ C @ [NULL])" using ne by (simp add: fwd_app)
    have "bwd ?P (NULL # A)" "bwd ?P F" "bwd ?P B" "bwd ?P C" using P notin ends by simp_all
    moreover have "?P ?f = ?a" "?P ?b = ?g" "?P ?c = ?u" using neq by simp_all
    ultimately have b: "bwd ?P ((NULL # A) @ F @ B @ C)"
      using ne by (subst bwd_app) (simp_all add: bwd_app)
    show ?thesis using f b dis nn by (auto simp: dnodes_def)
  qed
  moreover have "same_outside (set (A @ B @ F @ C)) m ?m"
    using mem by (auto simp: same_outside_def)
  ultimately show ?thesis by blast
qed


section \<open>The list as a queue\<close>

interpretation list_fifo: fifo "\<lambda>m. dlist m l" "can_insert l" "\<lambda>m. list_push_back m l" "\<lambda>m. list_pop_front m l"
  for l :: addr
proof
  show "\<exists>q'. list_push_back q l e = Some q' \<and> dlist q' l (xs @ [e])"
    if "dlist q l xs" "can_insert l xs e" for q xs e
    using list_push_back_dlist [OF that] by blast
  show "\<exists>q'. list_pop_front q l = Some (x, q') \<and> dlist q' l xs" if "dlist q l (x # xs)" for q x xs
    using list_pop_front_dlist [OF that] by blast
qed

lemma list_nodes_insert: "list_nodes l (as @ e # bs) = insert e (list_nodes l (as @ bs))"
  by (auto simp: list_nodes_def)

section \<open>Properties\<close>

text \<open>
  A small concrete memory for the witnesses: the list at 64 (tail 72) holds the elements
  16, 48 and 32; the list at 80 (tail 88) is empty.
\<close>

definition demo_mem :: list_mem where
  "demo_mem = \<lparr>prevs = (\<lambda>_. 0)(16 := 64, 48 := 16, 32 := 48, 72 := 32, 88 := 80),
               nexts = (\<lambda>_. 0)(64 := 16, 16 := 48, 48 := 32, 32 := 72, 80 := 88)\<rparr>"

lemma demo_dlist: "dlist demo_mem 64 [16, 48, 32]" "dlist demo_mem 80 []"
  by (simp_all add: demo_mem_def dlist_def dnodes_def head_of_def tail_of_def)

text \<open>
  C3: starting from any intact list, every sequence of \<open>list_push_back\<close> and
  \<open>list_pop_front\<close> calls that respects the contract (elements pushed are not null and not
  already on the list, nothing is popped from an empty list) returns normally, pops the
  elements in first-in first-out order and leaves an intact list with the right contents.
\<close>

theorem list_queue_refines:
  assumes "dlist m l xs" and "spec_queue (can_insert l) xs ops = Some (outs, ys)"
  shows "\<exists>m'. run_queue (\<lambda>m. list_push_back m l) (\<lambda>m. list_pop_front m l) m ops = Some (outs, m') \<and>
    dlist m' l ys"
  using assms by (rule list_fifo.run_refines_spec)

theorem list_queue_refines_witness:
  "\<exists>m'. run_queue (\<lambda>m. list_push_back m 64) (\<lambda>m. list_pop_front m 64) demo_mem
      [Enq 24, Deq, Enq 16, Deq] = Some ([16, 48], m') \<and> dlist m' 64 [32, 24, 16]"
  by (rule list_queue_refines [OF demo_dlist(1)])
    (simp add: can_insert_def list_nodes_def head_of_def tail_of_def)

text \<open>
  C5: moving an element: \<open>list_remove\<close> takes it out of whatever list it is on and returns
  its successor, \<open>list_insert\<close> puts it before any position of another list; both lists
  stay intact, all other elements keep their order, and every list disjoint from the two
  keeps its contents.
\<close>

theorem list_move_between_lists:
  assumes "dlist m l (as @ e # bs)" and "dlist m l2 (cs @ ds)"
    and "list_nodes l (as @ e # bs) \<inter> list_nodes l2 (cs @ ds) = {}"
    and "dlist m l3 zs"
    and "list_nodes l3 zs \<inter> (list_nodes l (as @ e # bs) \<union> list_nodes l2 (cs @ ds)) = {}"
  shows "\<exists>m1 m2. list_remove m e = Some (cursor l bs, m1) \<and>
    list_insert m1 (cursor l2 ds) e = Some m2 \<and>
    dlist m2 l (as @ bs) \<and> dlist m2 l2 (cs @ e # ds) \<and> dlist m2 l3 zs"
proof -
  obtain m1 where m1: "list_remove m e = Some (cursor l bs, m1)" "dlist m1 l (as @ bs)"
    "same_outside (list_nodes l (as @ bs)) m m1" using list_remove_dlist [OF assms(1)] by blast
  note nodes = assms(3,5) [unfolded list_nodes_insert]
  have d1: "dlist m1 l2 (cs @ ds)" by (rule dlist_frame [OF assms(2) m1(3)]) (use nodes in blast)
  have d2: "dlist m1 l3 zs" by (rule dlist_frame [OF assms(4) m1(3)]) (use nodes in blast)
  have "e \<noteq> NULL" using dlist_elem(1) [OF assms(1)] by simp
  then have "can_insert l2 (cs @ ds) e" using nodes by (simp add: can_insert_def)
  then obtain m2 where m2: "list_insert m1 (cursor l2 ds) e = Some m2" "dlist m2 l2 (cs @ e # ds)"
    "same_outside (insert e (list_nodes l2 (cs @ ds))) m1 m2"
    using list_insert_dlist [OF d1] list_nodes_insert by metis
  have "e \<notin> list_nodes l (as @ bs)"
    using dlist_elem [OF assms(1), of e] dlist_distinct [OF assms(1)] by (auto simp: list_nodes_def)
  then have "dlist m2 l (as @ bs)" by (intro dlist_frame [OF m1(2) m2(3)]) (use nodes in blast)
  moreover have "dlist m2 l3 zs" by (rule dlist_frame [OF d2 m2(3)]) (use nodes in blast)
  ultimately show ?thesis using m1(1) m2(1,2) by blast
qed

definition demo_mem3 :: list_mem where
  "demo_mem3 = demo_mem\<lparr>prevs := (prevs demo_mem)(104 := 96), nexts := (nexts demo_mem)(96 := 104)\<rparr>"

theorem list_move_between_lists_witness:
  "\<exists>m1 m2. list_remove demo_mem3 48 = Some (32, m1) \<and> list_insert m1 88 48 = Some m2 \<and>
     dlist m2 64 [16, 32] \<and> dlist m2 80 [48] \<and> dlist m2 96 []"
proof -
  have d: "dlist demo_mem3 64 ([16] @ 48 # [32])" "dlist demo_mem3 80 ([] @ [])" "dlist demo_mem3 96 []"
    by (simp_all add: demo_mem3_def demo_mem_def dlist_def dnodes_def head_of_def tail_of_def)
  show ?thesis
    using list_move_between_lists [OF d(1,2) _ d(3)] by (simp add: list_nodes_def head_of_def tail_of_def)
qed

text \<open>
  C7: \<open>list_max\<close> returns an element of the list that no element exceeds, and the first
  such one: everything before it is strictly smaller. This is what makes the priority
  scheduler first-come first-served among equals. On an empty list it returns the tail.
\<close>

theorem list_max_first_maximum:
  assumes "dlist m l xs" and "strict_weak lt"
  shows "(xs = [] \<longrightarrow> list_max lt m l = Some (tail_of l)) \<and>
    (xs \<noteq> [] \<longrightarrow> (\<exists>as x bs. list_max lt m l = Some x \<and> xs = as @ x # bs \<and>
       (\<forall>a\<in>set as. lt a x) \<and> (\<forall>b\<in>set bs. \<not> lt x b)))"
proof (cases xs)
  case (Cons x ys)
  then show ?thesis using list_max_dlist [OF assms(1), of lt] max_from_first [OF assms(2), of x ys] by auto
qed (use assms list_max_dlist in simp)

theorem list_max_first_maximum_witness:
  "\<exists>as x bs. list_max (\<lambda>a b. a < b) demo_mem 64 = Some x \<and> [16, 48, 32] = as @ x # bs \<and>
     (\<forall>a\<in>set as. a < x) \<and> (\<forall>b\<in>set bs. \<not> x < b)"
proof -
  have "strict_weak (\<lambda>a b :: addr. a < b)" by (rule strict_weakI) auto
  from list_max_first_maximum [OF demo_dlist(1) this] show ?thesis by simp
qed

text \<open>
  \<open>list_reverse\<close>, which swaps the links of every element and of the two headers in
  place, leaves an intact list with the elements in reverse order and writes nothing
  outside the list.
\<close>

lemma list_reverse_correct:
  assumes "dlist m l xs"
  shows "\<exists>m'. list_reverse m l = Some m' \<and> dlist m' l (rev xs) \<and> same_outside (list_nodes l xs) m m'"
  using assms by (rule list_reverse_dlist)

lemma list_reverse_correct_example:
  "\<exists>m'. list_reverse demo_mem 64 = Some m' \<and> dlist m' 64 [32, 48, 16]"
  using list_reverse_correct [OF demo_dlist(1)] by auto

text \<open>
  C18: inserting into a sorted list with \<open>list_insert_ordered\<close> keeps it sorted, adds
  exactly the new element, and puts it after every element it ties with.
\<close>

theorem list_insert_ordered_sorted:
  assumes "dlist m l xs" and "can_insert l xs e" and "strict_weak lt"
    and "sorted_wrt (\<lambda>a b. \<not> lt b a) xs"
  shows "\<exists>m' as bs. list_insert_ordered lt m l e = Some m' \<and> xs = as @ bs \<and> dlist m' l (as @ e # bs) \<and>
    sorted_wrt (\<lambda>a b. \<not> lt b a) (as @ e # bs) \<and> (\<forall>a\<in>set as. \<not> lt e a) \<and> (\<forall>b\<in>set bs. lt e b)"
proof -
  let ?as = "takeWhile (\<lambda>b. \<not> lt e b) xs" and ?bs = "dropWhile (\<lambda>b. \<not> lt e b) xs"
  have xs: "xs = ?as @ ?bs" by simp
  then have s: "sorted_wrt (\<lambda>a b. \<not> lt b a) (?as @ ?bs)" using assms(4) by simp
  have as: "\<forall>a\<in>set ?as. \<not> lt e a" using set_takeWhileD by fastforce
  have bs: "\<forall>b\<in>set ?bs. lt e b"
  proof (cases ?bs)
    case (Cons c cs)
    then have "lt e c" by (metis hd_dropWhile list.distinct(1) list.sel(1))
    moreover have "\<forall>b\<in>set cs. \<not> lt b c" using s Cons by (simp add: sorted_wrt_append)
    ultimately have "\<forall>b\<in>set cs. lt e b" using strict_weak_trans1 [OF assms(3)] by blast
    then show ?thesis using \<open>lt e c\<close> unfolding Cons by simp
  next
    case Nil
    then show ?thesis unfolding Nil by simp
  qed
  have "sorted_wrt (\<lambda>a b. \<not> lt b a) (?as @ e # ?bs)"
  proof -
    have "\<forall>b\<in>set ?bs. \<not> lt b e" using bs strict_weak_asym [OF assms(3)] by blast
    then show ?thesis by (rule sorted_wrt_insert [OF s as])
  qed
  moreover obtain m' where "list_insert_ordered lt m l e = Some m'" "dlist m' l (?as @ e # ?bs)"
    using list_insert_ordered_dlist [OF assms(1,2), of lt] by blast
  ultimately show ?thesis using xs as bs by (intro exI [of _ m'] exI [of _ ?as] exI [of _ ?bs] conjI)
qed

text \<open>In the witness, the new element 24 ties with 48, the second of three elements.\<close>

definition demo_key :: "addr \<Rightarrow> nat" where
  "demo_key a = (if a = 16 then 1 else if a = 32 then 3 else 2)"

theorem list_insert_ordered_sorted_witness:
  "\<exists>m'. list_insert_ordered (\<lambda>a b. demo_key a < demo_key b) demo_mem 64 24 = Some m' \<and> dlist m' 64 [16, 48, 24, 32]"
proof -
  let ?lt = "\<lambda>a b. demo_key a < demo_key b"
  have "strict_weak ?lt" by (rule strict_weakI) auto
  moreover have "can_insert 64 [16, 48, 32] 24" by (simp add: can_insert_def list_nodes_def head_of_def tail_of_def)
  moreover have "sorted_wrt (\<lambda>a b. \<not> ?lt b a) [16, 48, 32]" by (simp add: demo_key_def)
  ultimately obtain m' as bs where r: "list_insert_ordered ?lt demo_mem 64 24 = Some m'" "[16, 48, 32] = as @ bs" "dlist m' 64 (as @ 24 # bs)"
    "\<forall>a\<in>set as. \<not> ?lt 24 a" "\<forall>b\<in>set bs. ?lt 24 b"
    using list_insert_ordered_sorted [OF demo_dlist(1), of 24 ?lt] by blast
  have "as = [16, 48] \<and> bs = [32]" using r(2,4,5) by (auto simp: Cons_eq_append_conv demo_key_def)
  then show ?thesis using r(1,3) by auto
qed

end
