(* ===== verification/Klist_Sort.thy ===== *)
theory Klist_Sort
  imports Klist_Correct
begin

text \<open>
  The in-place natural merge sort \<open>list_sort\<close>: one pass of \<open>list_sort_pass\<close> merges
  adjacent runs pairwise (\<open>sort_step\<close>), the number of runs at least halves, and the loop
  ends with a list that is a stable sort of the original.
\<close>

section \<open>The natural merge sort\<close>

fun first_run :: "list_less_func \<Rightarrow> addr \<Rightarrow> addr list \<Rightarrow> addr list \<times> addr list" where
  "first_run lt a [] = ([a], [])"
| "first_run lt a (b # bs) =
     (if lt b a then ([a], b # bs) else (case first_run lt b bs of (r, s) \<Rightarrow> (a # r, s)))"

fun merge_runs :: "list_less_func \<Rightarrow> addr list \<Rightarrow> addr list \<Rightarrow> addr list" where
  "merge_runs lt [] ys = ys"
| "merge_runs lt xs [] = xs"
| "merge_runs lt (x # xs) (y # ys) =
     (if \<not> lt y x then x # merge_runs lt xs (y # ys) else y # merge_runs lt (x # xs) ys)"

fun adj_sorted :: "list_less_func \<Rightarrow> addr list \<Rightarrow> bool" where
  "adj_sorted lt (a # b # xs) \<longleftrightarrow> \<not> lt b a \<and> adj_sorted lt (b # xs)"
| "adj_sorted lt _ \<longleftrightarrow> True"

lemma first_run_append: "first_run lt a bs = (r, s) \<Longrightarrow> r @ s = a # bs"
  by (induction lt a bs arbitrary: r s rule: first_run.induct) (auto split: if_splits prod.splits)

lemma first_run_ne: "first_run lt a bs = (r, s) \<Longrightarrow> \<exists>r'. r = a # r'"
  by (induction lt a bs arbitrary: r s rule: first_run.induct) (auto split: if_splits prod.splits)

lemma first_run_sorted: "first_run lt a bs = (r, s) \<Longrightarrow> adj_sorted lt r"
proof (induction lt a bs arbitrary: r s rule: first_run.induct)
  case (2 lt a b bs)
  then show ?case using first_run_ne [of lt b bs] by (fastforce split: if_splits prod.splits)
qed auto

lemma first_run_shorter: "first_run lt a bs = (r, s) \<Longrightarrow> length s < Suc (length bs)"
  by (frule first_run_append, drule first_run_ne, drule arg_cong [of _ _ length]) auto

function runs :: "list_less_func \<Rightarrow> addr list \<Rightarrow> addr list list" where
  "runs lt [] = []"
| "runs lt (a # bs) = fst (first_run lt a bs) # runs lt (snd (first_run lt a bs))"
  by pat_completeness auto
termination
  by (relation "measure (\<lambda>(lt, xs). length xs)") (auto simp: first_run_shorter [OF prod.collapse [symmetric]])

fun merge_pairs :: "list_less_func \<Rightarrow> addr list list \<Rightarrow> addr list list" where
  "merge_pairs lt (r1 # r2 # rs) = merge_runs lt r1 r2 # merge_pairs lt rs"
| "merge_pairs lt rs = rs"

fun descents :: "list_less_func \<Rightarrow> addr list \<Rightarrow> nat" where
  "descents lt (a # b # xs) = (if lt b a then 1 else 0) + descents lt (b # xs)"
| "descents lt _ = 0"

lemma adj_sorted_iff: "adj_sorted lt xs \<longleftrightarrow> descents lt xs = 0"
  by (induction lt xs rule: adj_sorted.induct) auto

lemma adj_sorted_Cons: "adj_sorted lt (x # xs) \<longleftrightarrow> adj_sorted lt xs \<and> (xs \<noteq> [] \<longrightarrow> \<not> lt (hd xs) x)"
  by (cases xs) auto

lemma hd_merge_runs:
  "merge_runs lt xs ys \<noteq> [] \<Longrightarrow>
     hd (merge_runs lt xs ys) = (if xs = [] then hd ys else if ys = [] then hd xs
        else if lt (hd ys) (hd xs) then hd ys else hd xs)"
  by (induction lt xs ys rule: merge_runs.induct) auto

lemma merge_runs_Nil [simp]: "merge_runs lt xs [] = xs"
  by (cases xs) simp_all

lemma merge_runs_eq_Nil [simp]: "merge_runs lt xs ys = [] \<longleftrightarrow> xs = [] \<and> ys = []"
  by (induction lt xs ys rule: merge_runs.induct) auto

lemma merge_runs_adj_sorted:
  "strict_weak lt \<Longrightarrow> adj_sorted lt r1 \<Longrightarrow> adj_sorted lt r2 \<Longrightarrow> adj_sorted lt (merge_runs lt r1 r2)"
  by (induction lt r1 r2 rule: merge_runs.induct)
    (auto simp: adj_sorted_Cons hd_merge_runs dest: strict_weak_asym)

lemma mset_merge_runs: "mset (merge_runs lt xs ys) = mset xs + mset ys"
  by (induction lt xs ys rule: merge_runs.induct) auto

lemma concat_runs: "concat (runs lt xs) = xs"
proof (induction lt xs rule: runs.induct)
  case (2 lt a bs)
  then show ?case using first_run_append [of lt a bs] by (cases "first_run lt a bs") simp
qed simp

lemma runs_adj_sorted: "r \<in> set (runs lt xs) \<Longrightarrow> adj_sorted lt r"
proof (induction lt xs rule: runs.induct)
  case (2 lt a bs)
  then show ?case using first_run_sorted [of lt a bs] by (cases "first_run lt a bs") auto
qed simp

lemma merge_pairs_adj_sorted:
  "strict_weak lt \<Longrightarrow> \<forall>r\<in>set rs. adj_sorted lt r \<Longrightarrow>
    \<forall>r\<in>set (merge_pairs lt rs). adj_sorted lt r"
  by (induction lt rs rule: merge_pairs.induct) (auto intro: merge_runs_adj_sorted)

lemma length_merge_pairs: "length (merge_pairs lt rs) = (length rs + 1) div 2"
  by (induction lt rs rule: merge_pairs.induct) auto

lemma mset_merge_pairs: "mset (concat (merge_pairs lt rs)) = mset (concat rs)"
  by (induction lt rs rule: merge_pairs.induct) (auto simp: mset_merge_runs)

lemma descents_append: "descents lt (xs @ ys) \<le> descents lt xs + descents lt ys + 1"
proof (induction xs)
  case (Cons x xs)
  then show ?case by (cases xs; cases ys) auto
qed simp

lemma descents_concat:
  "\<forall>r\<in>set rs. adj_sorted lt r \<Longrightarrow> descents lt (concat rs) \<le> length rs - 1"
proof (induction rs)
  case (Cons r rs)
  then show ?case using descents_append [of lt r "concat rs"]
    by (cases rs) (auto simp: adj_sorted_iff)
qed simp

lemma descents_first_run:
  "first_run lt a bs = (r, s) \<Longrightarrow> descents lt (a # bs) = (if s = [] then 0 else Suc (descents lt s))"
  by (induction lt a bs arbitrary: r s rule: first_run.induct) (auto split: if_splits prod.splits)

lemma length_runs: "length (runs lt xs) = (if xs = [] then 0 else Suc (descents lt xs))"
proof (induction lt xs rule: runs.induct)
  case (2 lt a bs)
  then show ?case using descents_first_run [of lt a bs] by (cases "first_run lt a bs") auto
qed simp

lemma find_end_of_run_loop_dlist:
  assumes "dlist m l (as @ a # bs)"  "first_run lt a bs = (r, s)"
  shows "find_end_of_run_loop lt m a (tail_of l) = Some (cursor l s)"
  using assms
proof (induction lt a bs arbitrary: as r s rule: first_run.induct)
  case (1 lt a)
  then show ?case using dlist_cursor_step(1) [OF 1(1)]
    by (subst find_end_of_run_loop.simps) auto
next
  case (2 lt a b bs)
  have d: "dlist m l ((as @ [a]) @ b # bs)" using 2 by simp
  have "b \<noteq> tail_of l" using dlist_elem(2) [OF d] by simp
  then show ?case using dlist_cursor_step(1,2) [OF 2(2)] 2(1) [OF _ d] 2(3)
    by (subst find_end_of_run_loop.simps) (auto split: if_splits prod.splits)
qed

lemma is_sorted_loop_dlist:
  "dlist m l (as @ a # xs @ bs) \<Longrightarrow>
     is_sorted_loop lt m a (cursor l bs) = Some (adj_sorted lt (a # xs))"
proof (induction xs arbitrary: as a)
  case Nil
  then show ?case using dlist_cursor_step(1) [of m l as a bs] 
    by (subst is_sorted_loop.simps) simp
next
  case (Cons x xs)
  have d: "dlist m l ((as @ [a]) @ x # xs @ bs)" using Cons.prems by simp
  have "distinct (as @ a # x # xs @ bs)" using dlist_distinct [OF Cons.prems] by simp
  then have "x \<noteq> cursor l bs" using dlist_elem(2) [OF d, of x] by (cases bs) auto
  then show ?case using dlist_cursor_step(1,2) [of m l as a "x # xs @ bs"] Cons.prems Cons.IH [OF d]
    by (subst is_sorted_loop.simps) simp
qed

lemma is_sorted_dlist:
  assumes "dlist m l (as @ xs @ bs)"
  shows "is_sorted lt m (cursor l (xs @ bs)) (cursor l bs) = Some (adj_sorted lt xs)"
proof (cases xs)
  case (Cons a ys)
  have "distinct (as @ xs @ bs)" using dlist_distinct [OF assms] .
  then have "a \<noteq> cursor l bs" using dlist_elem(2) [OF assms, of a] Cons by (cases bs) auto
  then show ?thesis using is_sorted_loop_dlist [of m l as a ys bs lt] assms Cons 
    by (simp add: is_sorted_def)
qed (simp add: is_sorted_def)

lemma list_splice_dlist:
  assumes d: "dlist m l (as @ xs @ fs @ bs)" and ne: "xs \<noteq> []" "fs \<noteq> []"
  shows "\<exists>m'. list_splice m (hd xs) (hd fs) (cursor l bs) = Some m' \<and> dlist m' l (as @ fs @ xs @ bs) \<and>
     same_outside (list_nodes l (as @ xs @ fs @ bs)) m m'"
proof -
  have "dnodes m ((head_of l # as) @ xs @ fs @ (bs @ [tail_of l]))" using d by (simp add: dlist_def)
  from list_splice_dnodes [OF this] ne obtain m' where
    m': "list_splice m (hd xs) (hd fs) (cursor l bs) = Some m'"
      "dnodes m' ((head_of l # as) @ fs @ xs @ (bs @ [tail_of l]))"
      "same_outside (set ((head_of l # as) @ xs @ fs @ (bs @ [tail_of l]))) m m'" by blast
  have "set ((head_of l # as) @ xs @ fs @ (bs @ [tail_of l])) = list_nodes l (as @ xs @ fs @ bs)"
    using list_nodes_set [of l "as @ xs @ fs @ bs"] by simp
  then show ?thesis using m' by (simp add: dlist_def)
qed

lemma inplace_merge_loop_dlist:
  "dlist m l (as @ r1 @ r2 @ bs) \<Longrightarrow>
   \<exists>m'. inplace_merge_loop lt m (cursor l (r1 @ r2 @ bs)) (cursor l (r2 @ bs)) (cursor l bs) = Some m' \<and>
     dlist m' l (as @ merge_runs lt r1 r2 @ bs) \<and> same_outside (list_nodes l (as @ r1 @ r2 @ bs)) m m'"
proof (induction lt r1 r2 arbitrary: m as rule: merge_runs.induct)
  case (1 lt ys)
  then show ?case by (subst inplace_merge_loop.simps) simp
next
  case (2 lt x xs)
  then show ?case by (subst inplace_merge_loop.simps) simp
next
  case (3 lt x xs y ys)
  have dist: "distinct (as @ (x # xs) @ (y # ys) @ bs)" using dlist_distinct [OF 3(3)] .
  have xy: "x \<noteq> y" using dist by auto
  have yb: "y \<noteq> cursor l bs" using dlist_elem(2) [OF 3(3), of y] dist by (cases bs) auto
  show ?case
  proof (cases "lt y x")
    case False
    have d: "dlist m l ((as @ [x]) @ xs @ (y # ys) @ bs)" using 3(3) by simp
    have "list_next m x = Some (cursor l (xs @ (y # ys) @ bs))"
      using dlist_cursor_step(1) [of m l as x "xs @ (y # ys) @ bs"] 3(3) by simp
    then show ?thesis using 3(1) [OF _ d] False xy yb
      by (subst inplace_merge_loop.simps) (auto simp: list_nodes_def)
  next
    case True
    have d: "dlist m l ((as @ x # xs) @ y # ys @ bs)" using 3(3) by simp
    note st = dlist_cursor_step(1,2) [OF d]
    have "dlist m l (as @ (x # xs) @ [y] @ (ys @ bs))" using 3(3) by simp
    from list_splice_dlist [OF this] obtain m1 where m1: "list_splice m x y (cursor l (ys @ bs)) = Some m1"
      "dlist m1 l ((as @ [y]) @ (x # xs) @ ys @ bs)"
      "same_outside (list_nodes l (as @ (x # xs) @ (y # ys) @ bs)) m m1" by auto
    have "list_nodes l ((as @ [y]) @ (x # xs) @ ys @ bs) = list_nodes l (as @ (x # xs) @ (y # ys) @ bs)"
      by (auto simp: list_nodes_def)
    with 3(2) [OF _ m1(2)] True obtain m2 where m2:
      "inplace_merge_loop lt m1 (cursor l ((x # xs) @ ys @ bs)) (cursor l (ys @ bs)) (cursor l bs) = Some m2"
      "dlist m2 l ((as @ [y]) @ merge_runs lt (x # xs) ys @ bs)"
      "same_outside (list_nodes l (as @ (x # xs) @ (y # ys) @ bs)) m1 m2" by auto
    have "inplace_merge_loop lt m (cursor l ((x # xs) @ (y # ys) @ bs)) (cursor l ((y # ys) @ bs)) (cursor l bs) = Some m2"
      using True xy yb st m1(1) m2(1) by (subst inplace_merge_loop.simps) simp
    then show ?thesis using m2 same_outside_trans [OF m1(3) m2(3)] True by simp
  qed
qed


lemma find_end_of_run_dlist:
  assumes "dlist m l (as @ a # bs)"
  shows "find_end_of_run lt m a (tail_of l) = Some (cursor l (snd (first_run lt a bs)))"
  using find_end_of_run_loop_dlist [OF assms, of lt "fst (first_run lt a bs)"] dlist_elem [OF assms, of a]
    dlist_nonnull [OF assms] by (simp add: find_end_of_run_def)

lemma inplace_merge_dlist:
  assumes d: "dlist m l (as @ r1 @ r2 @ bs)" and s: "adj_sorted lt r1" "adj_sorted lt r2"
  shows "\<exists>m'. inplace_merge lt m (cursor l (r1 @ r2 @ bs)) (cursor l (r2 @ bs)) (cursor l bs) = Some m' \<and>
     dlist m' l (as @ merge_runs lt r1 r2 @ bs) \<and> same_outside (list_nodes l (as @ r1 @ r2 @ bs)) m m'"
proof -
  have d': "dlist m l ((as @ r1) @ r2 @ bs)" "dlist m l ((as @ r1 @ r2) @ bs)" using d by simp_all
  show ?thesis
    using inplace_merge_loop_dlist [OF d, of lt] s is_sorted_dlist [OF d, of lt] is_sorted_dlist [OF d'(1), of lt]
      dlist_cursor_nonnull [OF d] dlist_cursor_nonnull [OF d'(1)] dlist_cursor_nonnull [OF d'(2)]
    by (simp add: inplace_merge_def)
qed

lemma list_sort_pass_dlist:
  "dlist m l (as @ xs) \<Longrightarrow>
   \<exists>m'. list_sort_pass lt l m (cursor l xs) cnt =
      Some (cnt + of_nat (length (merge_pairs lt (runs lt xs))), m') \<and>
     dlist m' l (as @ concat (merge_pairs lt (runs lt xs))) \<and> same_outside (list_nodes l (as @ xs)) m m'"
proof (induction "length xs" arbitrary: xs m as cnt rule: less_induct)
  case less
  show ?case
  proof (cases xs)
    case Nil
    then show ?thesis using less.prems by (subst list_sort_pass.simps) (simp add: list_end_dlist)
  next
    case (Cons a bs)
    obtain r1 s where r1: "first_run lt a bs = (r1, s)" by fastforce
    have xs: "xs = r1 @ s" using first_run_append [OF r1] Cons by simp
    have d: "dlist m l (as @ a # bs)" using less.prems Cons by simp
    note en = list_end_dlist [OF d] dlist_elem(2) [OF d, of a] find_end_of_run_dlist [OF d, of lt]
    have d1: "dlist m l ((as @ r1) @ s)" using less.prems xs by simp
    show ?thesis
    proof (cases s)
      case Nil
      then show ?thesis using less.prems Cons en r1 xs
        by (subst list_sort_pass.simps) simp
    next
      case s: (Cons c cs)
      obtain r2 t where r2: "first_run lt c cs = (r2, t)" by fastforce
      have st: "s = r2 @ t" using first_run_append [OF r2] s by simp
      have d2: "dlist m l ((as @ r1) @ c # cs)" "dlist m l (as @ r1 @ r2 @ t)"
        using d1 s st by simp_all
      note en2 = dlist_elem(2) [OF d2(1), of c] find_end_of_run_dlist [OF d2(1), of lt]
      from inplace_merge_dlist [OF d2(2) first_run_sorted [OF r1] first_run_sorted [OF r2]]
      obtain m1 where m1: "inplace_merge lt m (cursor l (r1 @ r2 @ t)) (cursor l (r2 @ t)) (cursor l t) = Some m1"
        "dlist m1 l ((as @ merge_runs lt r1 r2) @ t)" "same_outside (list_nodes l (as @ xs)) m m1"
        using xs st by auto
      have nodes: "list_nodes l ((as @ merge_runs lt r1 r2) @ t) = list_nodes l (as @ xs)"
        using arg_cong [OF mset_merge_runs [of lt r1 r2], of set_mset] xs st
        by (simp add: list_nodes_def Un_assoc)
      have "length t < length xs" using first_run_shorter [OF r2] xs s st by auto
      from less.hyps [OF this m1(2), of "cnt + 1"] obtain m2 where m2:
        "list_sort_pass lt l m1 (cursor l t) (cnt + 1) =
           Some (cnt + 1 + of_nat (length (merge_pairs lt (runs lt t))), m2)"
        "dlist m2 l ((as @ merge_runs lt r1 r2) @ concat (merge_pairs lt (runs lt t)))"
        "same_outside (list_nodes l (as @ xs)) m1 m2" unfolding nodes by blast
      have "r1 @ r2 @ t = a # bs" "r2 @ t = c # cs" using xs st s Cons by simp_all
      then have hd1: "cursor l (r1 @ r2 @ t) = a" "cursor l (r2 @ t) = c" by simp_all
      have "list_sort_pass lt l m (cursor l xs) cnt =
          Some (cnt + of_nat (length (merge_pairs lt (runs lt xs))), m2)"
        using en en2 r1 r2 s Cons m1(1) m2(1) hd1 by (subst list_sort_pass.simps) simp
      moreover have "merge_pairs lt (runs lt xs) = merge_runs lt r1 r2 # merge_pairs lt (runs lt t)"
        using Cons r1 s r2 by simp
      ultimately show ?thesis using m2 same_outside_trans [OF m1(3) m2(3)] by simp
    qed
  qed
qed

definition sort_step :: "list_less_func \<Rightarrow> addr list \<Rightarrow> addr list" where
  "sort_step lt xs = concat (merge_pairs lt (runs lt xs))"

lemma mset_sort_step: "mset (sort_step lt xs) = mset xs"
  by (simp add: sort_step_def mset_merge_pairs concat_runs)

lemma sort_step_runs:
  assumes "strict_weak lt"
  shows "length (runs lt (sort_step lt xs)) \<le> (length (runs lt xs) + 1) div 2"
proof (cases "xs = []")
  case False
  have "\<forall>r\<in>set (merge_pairs lt (runs lt xs)). adj_sorted lt r"
    by (rule merge_pairs_adj_sorted [OF assms]) (simp_all add: runs_adj_sorted)
  from descents_concat [OF this] show ?thesis
    using False by (simp add: length_runs length_merge_pairs sort_step_def)
qed (simp add: sort_step_def)

lemma list_sort_loop_dlist:
  assumes sw: "strict_weak lt"
  shows "dlist m l xs \<Longrightarrow>
    \<exists>k m'. list_sort_loop lt l m = Some m' \<and> dlist m' l ((sort_step lt ^^ Suc k) xs) \<and>
      adj_sorted lt ((sort_step lt ^^ Suc k) xs) \<and> same_outside (list_nodes l xs) m m'"
proof (induction "length (runs lt xs)" arbitrary: m xs rule: less_induct)
  case less
  let ?n = "length (merge_pairs lt (runs lt xs))"
  from list_sort_pass_dlist [of m l "[]" xs lt 0] less.prems obtain m1 where m1:
    "list_sort_pass lt l m (cursor l xs) 0 = Some (of_nat ?n, m1)"
    "dlist m1 l (sort_step lt xs)" "same_outside (list_nodes l xs) m m1"
    by (auto simp: sort_step_def)
  have n: "?n = (length (runs lt xs) + 1) div 2" by (rule length_merge_pairs)
  have runs_le: "length (runs lt xs) \<le> Suc (length xs)"
  proof -
    have "descents lt ys \<le> length ys" for ys
      by (induction lt ys rule: descents.induct) auto
    then show ?thesis by (simp add: length_runs)
  qed
  then have un: "unat (of_nat ?n :: u32) = ?n"
    using dlist_length [OF less.prems] n by (intro unat_of_nat_u32) linarith
  show ?case
  proof (cases "?n > 1")
    case False
    then have "length (runs lt (sort_step lt xs)) \<le> 1"
      using sort_step_runs [OF sw, of xs] n by simp
    then have "adj_sorted lt (sort_step lt xs)"
      by (auto simp: adj_sorted_iff length_runs split: if_splits)
    moreover have "list_sort_loop lt l m = Some m1"
      using m1(1) less.prems False un
      by (subst list_sort_loop.simps) (simp add: dlist_begin word_less_nat_alt)
    ultimately show ?thesis using m1 by (intro exI [of _ 0] exI [of _ m1]) simp
  next
    case True
    then have "length (runs lt (sort_step lt xs)) < length (runs lt xs)"
      using sort_step_runs [OF sw, of xs] n by simp
    from less.hyps [OF this m1(2)] obtain k m2 where m2: "list_sort_loop lt l m1 = Some m2"
      "dlist m2 l ((sort_step lt ^^ Suc k) (sort_step lt xs))"
      "adj_sorted lt ((sort_step lt ^^ Suc k) (sort_step lt xs))"
      "same_outside (list_nodes l (sort_step lt xs)) m1 m2" by blast
    have "list_nodes l (sort_step lt xs) = list_nodes l xs"
      using arg_cong [OF mset_sort_step [of lt xs], of set_mset] by (simp add: list_nodes_def)
    then have "same_outside (list_nodes l xs) m m2"
      using m1(3) m2(4) same_outside_trans by auto
    moreover have "list_sort_loop lt l m = Some m2"
      using m1(1) less.prems True un m2(1)
      by (subst list_sort_loop.simps) (simp add: dlist_begin word_less_nat_alt)
    ultimately show ?thesis using m2(2,3)
      by (intro exI [of _ "Suc k"] exI [of _ m2]) (simp add: funpow_swap1)
  qed
qed

section \<open>What the sort promises\<close>

definition equiv_to :: "list_less_func \<Rightarrow> addr \<Rightarrow> addr \<Rightarrow> bool" where
  "equiv_to lt k x \<longleftrightarrow> \<not> lt x k \<and> \<not> lt k x"

definition stable_sort_of :: "list_less_func \<Rightarrow> addr list \<Rightarrow> addr list \<Rightarrow> bool" where
  "stable_sort_of lt xs ys \<longleftrightarrow> mset ys = mset xs \<and> sorted_wrt (\<lambda>a b. \<not> lt b a) ys \<and>
     (\<forall>k. filter (equiv_to lt k) ys = filter (equiv_to lt k) xs)"

lemma adj_sorted_wrt:
  assumes "strict_weak lt"
  shows "adj_sorted lt xs \<longleftrightarrow> sorted_wrt (\<lambda>a b. \<not> lt b a) xs"
  using assms
proof (induction lt xs rule: adj_sorted.induct)
  case (1 lt a b xs)
  show ?case
  proof
    assume s: "adj_sorted lt (a # b # xs)"
    then have "sorted_wrt (\<lambda>a b. \<not> lt b a) (b # xs)" using 1 by simp
    then show "sorted_wrt (\<lambda>a b. \<not> lt b a) (a # b # xs)"
      using s strict_weak_negtrans [OF 1(2), of _ b a] by auto
  qed (use 1 in simp)
qed simp_all


lemma filter_equiv_empty:
  assumes sw: "strict_weak lt" and s: "sorted_wrt (\<lambda>a b. \<not> lt b a) (x # xs)"
    and y: "lt y x" "equiv_to lt k y"
  shows "filter (equiv_to lt k) (x # xs) = []"
proof -
  have "\<not> equiv_to lt k z" if "z \<in> set (x # xs)" for z
  proof -
    have "\<not> lt z x" using that s strict_weak_irrefl [OF sw] by auto
    then have "lt y z" using strict_weak_trans1 [OF sw y(1)] by simp
    moreover have "\<not> lt y k" using y(2) by (simp add: equiv_to_def)
    ultimately have "lt k z" using strict_weak_trans2 [OF sw] by blast
    then show ?thesis by (simp add: equiv_to_def)
  qed
  then show ?thesis by (simp add: filter_empty_conv)
qed

lemma filter_merge_runs:
  assumes "strict_weak lt"
  shows "sorted_wrt (\<lambda>a b. \<not> lt b a) xs \<Longrightarrow>
    filter (equiv_to lt k) (merge_runs lt xs ys) = filter (equiv_to lt k) xs @ filter (equiv_to lt k) ys"
  using assms
proof (induction lt xs ys rule: merge_runs.induct)
  case (3 lt x xs y ys)
  show ?case
  proof (cases "lt y x")
    case False
    then show ?thesis using 3 by simp
  next
    case True
    then have IH: "filter (equiv_to lt k) (merge_runs lt (x # xs) ys) =
        filter (equiv_to lt k) (x # xs) @ filter (equiv_to lt k) ys" using 3 by simp
    show ?thesis
    proof (cases "equiv_to lt k y")
      case y: True
      note e = filter_equiv_empty [OF 3(4,3) True y]
      have "filter (equiv_to lt k) (merge_runs lt (x # xs) (y # ys)) = y # filter (equiv_to lt k) ys"
        using True y IH e by simp
      then show ?thesis using e y by simp
    next
      case False
      then show ?thesis using True IH by simp
    qed
  qed
qed auto

lemma filter_merge_pairs:
  assumes "strict_weak lt"
  shows "\<forall>r\<in>set rs. adj_sorted lt r \<Longrightarrow>
    filter (equiv_to lt k) (concat (merge_pairs lt rs)) = filter (equiv_to lt k) (concat rs)"
  using assms
  by (induction lt rs rule: merge_pairs.induct) (simp_all add: filter_merge_runs adj_sorted_wrt)

lemma filter_sort_step:
  assumes "strict_weak lt"
  shows "filter (equiv_to lt k) (sort_step lt xs) = filter (equiv_to lt k) xs"
  using filter_merge_pairs [OF assms, of "runs lt xs" k]
  by (simp add: sort_step_def concat_runs runs_adj_sorted)

lemma funpow_sort_step:
  assumes "strict_weak lt"
  shows "mset ((sort_step lt ^^ n) xs) = mset xs \<and>
    filter (equiv_to lt k) ((sort_step lt ^^ n) xs) = filter (equiv_to lt k) xs"
  using assms by (induction n) (simp_all add: mset_sort_step filter_sort_step)

lemma list_sort_dlist:
  assumes sw: "strict_weak lt" and d: "dlist m l xs"
  shows "\<exists>m' ys. list_sort lt m l = Some m' \<and> dlist m' l ys \<and> stable_sort_of lt xs ys \<and>
    same_outside (list_nodes l xs) m m'"
proof -
  from list_sort_loop_dlist [OF sw d] obtain k m' where m': "list_sort_loop lt l m = Some m'"
    "dlist m' l ((sort_step lt ^^ Suc k) xs)" "adj_sorted lt ((sort_step lt ^^ Suc k) xs)"
    "same_outside (list_nodes l xs) m m'" by blast
  let ?ys = "(sort_step lt ^^ Suc k) xs"
  have "is_sorted lt m' (cursor l ?ys) (tail_of l) = Some True"
    using is_sorted_dlist [of m' l "[]" ?ys "[]" lt] m'(2,3) by simp
  then have "list_sort lt m l = Some m'"
    using m'(1,2) dlist_nonnull(1) [OF d]
    by (simp add: list_sort_def dlist_begin list_end_dlist del: funpow.simps)
  moreover have "stable_sort_of lt xs ?ys"
    using funpow_sort_step [OF sw, of "Suc k" xs] m'(3) unfolding stable_sort_of_def
    by (simp add: adj_sorted_wrt [OF sw, symmetric] del: funpow.simps)
  ultimately show ?thesis using m' by blast
qed


section \<open>Properties\<close>

text \<open>
  C1: \<open>list_sort\<close> with a strict weak order as its comparison always returns (none of its
  assertions fires and the passes come to an end), writes only the links of the list's own
  nodes, and leaves the list intact and holding a stable sort of its old contents: the
  same elements, in nondecreasing order, with tied elements in their old relative order.
\<close>

theorem list_sort_correct:
  assumes "strict_weak lt" and "dlist m l xs"
  shows "\<exists>m' ys. list_sort lt m l = Some m' \<and> dlist m' l ys \<and> stable_sort_of lt xs ys \<and>
    same_outside (list_nodes l xs) m m'"
  using assms by (rule list_sort_dlist)

theorem list_sort_correct_witness:
  "\<exists>m' ys. list_sort (\<lambda>a b. a < b) demo_mem 64 = Some m' \<and> dlist m' 64 ys \<and>
     stable_sort_of (\<lambda>a b. a < b) [16, 48, 32] ys"
proof -
  have "strict_weak (\<lambda>a b :: addr. a < b)" by (rule strict_weakI) auto
  from list_sort_correct [OF this demo_dlist(1)] show ?thesis by blast
qed

end
