(* ===== verification/Arith64.thy ===== *)
theory Arith64
  imports Pintos_Prelude "HOL-Library.Signed_Division"
begin

text \<open>
  The 64-bit division routines that GCC calls on a 32-bit target (\<open>lib/arithmetic.c\<close>),
  over machine words. \<open>None\<close> is the divide error (\<open>#DE\<close>) of the processor's \<open>divl\<close>: a
  zero divisor or a quotient that does not fit in 32 bits.
\<close>

section \<open>The routines\<close>

definition divl :: "u64 \<Rightarrow> u32 \<Rightarrow> u32 option" where
  "divl n d =
     (if d = 0 \<or> n div ucast d \<ge> 2 ^ 32 then None else Some (ucast (n div ucast d)))"

definition nlz :: "u32 \<Rightarrow> nat" where
  "nlz x =
     (let n = 0;
          (n, x) = (if x \<le> 0x0000FFFF then (n + 16, push_bit 16 x) else (n, x));
          (n, x) = (if x \<le> 0x00FFFFFF then (n + 8, push_bit 8 x) else (n, x));
          (n, x) = (if x \<le> 0x0FFFFFFF then (n + 4, push_bit 4 x) else (n, x));
          (n, x) = (if x \<le> 0x3FFFFFFF then (n + 2, push_bit 2 x) else (n, x))
      in if x \<le> 0x7FFFFFFF then n + 1 else n)"

definition udiv64 :: "u64 \<Rightarrow> u64 \<Rightarrow> u64 option" where
  "udiv64 n d =
     (if drop_bit 32 d = 0 then
        (let b = push_bit 32 1;
             n1 = ucast (drop_bit 32 n) :: u32;
             n0 = ucast n :: u32;
             d0 = ucast d :: u32
         in if d0 = 0 then None
            else do {
              q \<leftarrow> divl (b * ucast (n1 mod d0) + ucast n0) d0;
              Some (ucast q + b * ucast (n1 div d0)) })
      else if n < d then Some 0
      else
        (let d1 = ucast (drop_bit 32 d) :: u32;
             s = nlz d1
         in do {
              q32 \<leftarrow> divl (drop_bit 1 n) (ucast (drop_bit 32 (push_bit s d)));
              let q = (ucast (drop_bit (31 - s) q32) :: u64);
              Some (if n - (q - 1) * d < d then q - 1 else q) }))"

definition umod64 :: "u64 \<Rightarrow> u64 \<Rightarrow> u32 option" where
  "umod64 n d = do { q \<leftarrow> udiv64 n d; Some (ucast (n - d * q)) }"

definition sdiv64 :: "u64 \<Rightarrow> u64 \<Rightarrow> u64 option" where
  "sdiv64 n d =
     (let n_abs = (if sint n \<ge> 0 then n else - n);
          d_abs = (if sint d \<ge> 0 then d else - d)
      in do {
           q_abs \<leftarrow> udiv64 n_abs d_abs;
           Some (if (sint n < 0) = (sint d < 0) then q_abs else - q_abs) })"

definition smod64 :: "u64 \<Rightarrow> u64 \<Rightarrow> u32 option" where
  "smod64 n d = do { q \<leftarrow> sdiv64 n d; Some (ucast (n - d * q)) }"

definition divdi3 :: "u64 \<Rightarrow> u64 \<Rightarrow> u64 option" where
  "divdi3 n d = sdiv64 n d"

definition moddi3 :: "u64 \<Rightarrow> u64 \<Rightarrow> u64 option" where
  "moddi3 n d = do { r \<leftarrow> smod64 n d; Some (scast r) }"

definition udivdi3 :: "u64 \<Rightarrow> u64 \<Rightarrow> u64 option" where
  "udivdi3 n d = udiv64 n d"

definition umoddi3 :: "u64 \<Rightarrow> u64 \<Rightarrow> u64 option" where
  "umoddi3 n d = do { r \<leftarrow> umod64 n d; Some (ucast r) }"

section \<open>Leading zeros\<close>

definition nlz_step :: "nat \<Rightarrow> nat \<times> u32 \<Rightarrow> nat \<times> u32" where
  "nlz_step k = (\<lambda>(n, x). if unat x < 2 ^ (32 - k) then (n + k, push_bit k x) else (n, x))"

lemma nlz_step_fold:
  "(if x \<le> 0x0000FFFF then (n + 16, push_bit 16 x) else (n, x)) = nlz_step 16 (n, x)"
  "(if x \<le> 0x00FFFFFF then (n + 8, push_bit 8 x) else (n, x)) = nlz_step 8 (n, x)"
  "(if x \<le> 0x0FFFFFFF then (n + 4, push_bit 4 x) else (n, x)) = nlz_step 4 (n, x)"
  "(if x \<le> 0x3FFFFFFF then (n + 2, push_bit 2 x) else (n, x)) = nlz_step 2 (n, x)"
  by (auto simp: nlz_step_def word_le_nat_alt)

lemma nlz_step_inv:
  assumes "unat x = X * 2 ^ n" "2 ^ (32 - 2 * k) \<le> unat x" "2 * k \<le> 32"
  shows "case nlz_step k (n, x) of (n', x') \<Rightarrow> n' \<le> n + k \<and> unat x' = X * 2 ^ n' \<and> 2 ^ (32 - k) \<le> unat x'"
proof (cases "unat x < 2 ^ (32 - k)")
  case True
  have "unat x * 2 ^ k < 2 ^ (32 - k) * 2 ^ k" using True by simp
  then have "unat x * 2 ^ k < 2 ^ 32" using assms(3) by (simp flip: power_add)
  then have "unat (push_bit k x) = unat x * 2 ^ k" by (simp add: unat_push_bit)
  moreover have "2 ^ (32 - 2 * k) * 2 ^ k \<le> unat x * 2 ^ k" using assms(2) by (rule mult_right_mono) simp
  then have "2 ^ (32 - k) \<le> unat x * 2 ^ k" using assms(3) by (simp flip: power_add add: mult_2)
  ultimately show ?thesis using True assms(1) by (simp add: nlz_step_def power_add algebra_simps)
next
  case False
  then show ?thesis using assms(1) by (simp add: nlz_step_def)
qed

lemma nlz_normalizes:
  assumes "x \<noteq> 0"
  shows "nlz x \<le> 31 \<and> 2 ^ 31 \<le> unat x * 2 ^ nlz x \<and> unat x * 2 ^ nlz x < 2 ^ 32"
proof -
  obtain n1 x1 where s1: "nlz_step 16 (0, x) = (n1, x1)" by fastforce
  obtain n2 x2 where s2: "nlz_step 8 (n1, x1) = (n2, x2)" by fastforce
  obtain n3 x3 where s3: "nlz_step 4 (n2, x2) = (n3, x3)" by fastforce
  obtain n4 x4 where s4: "nlz_step 2 (n3, x3) = (n4, x4)" by fastforce
  have "unat x \<noteq> 0" using assms by (simp add: unat_eq_0)
  then have i1: "n1 \<le> 16" "unat x1 = unat x * 2 ^ n1" "2 ^ 16 \<le> unat x1"
    using nlz_step_inv [of x "unat x" 0 16] s1 by auto
  then have i2: "n2 \<le> 24" "unat x2 = unat x * 2 ^ n2" "2 ^ 24 \<le> unat x2"
    using nlz_step_inv [of x1 "unat x" n1 8] s2 by auto
  then have i3: "n3 \<le> 28" "unat x3 = unat x * 2 ^ n3" "2 ^ 28 \<le> unat x3"
    using nlz_step_inv [of x2 "unat x" n2 4] s3 by auto
  then have i4: "n4 \<le> 30" "unat x4 = unat x * 2 ^ n4" "2 ^ 30 \<le> unat x4"
    using nlz_step_inv [of x3 "unat x" n3 2] s4 by auto
  have "nlz x = (if unat x4 < 2 ^ 31 then n4 + 1 else n4)" 
    by (simp only: nlz_def Let_def nlz_step_fold s1 s2 s3 s4 prod.case) (simp add: word_le_nat_alt)
  moreover have "unat x4 < 2 ^ 32" using unsigned_less [of x4] by simp
  ultimately show ?thesis using i4 by (auto split: if_splits)
qed

section \<open>The quotient estimate\<close>

lemma quotient_gap:
  fixes n d D k :: int
  assumes "0 < k" "D \<le> d" "d - D \<le> k - 1" "2 ^ 31 * k \<le> D" "0 \<le> n" "n < 2 ^ 64"
  shows "n * (d - D) < d * D"
proof (cases "d = D")
  case True
  then show ?thesis using assms by (simp add: mult_pos_pos)
next
  case False
  then have gap: "0 < d - D" using assms(2) by simp
  have k2: "4 * (k - 1) \<le> k * k"
  proof -
    have "0 \<le> (k - 2) * (k - 2)" by simp
    then show ?thesis by (simp add: algebra_simps)
  qed
  have "n * (d - D) < 2 ^ 64 * (d - D)" using assms(6) gap by (rule mult_strict_right_mono)
  also have "\<dots> \<le> 2 ^ 64 * (k - 1)" using assms(3) by (intro mult_left_mono) simp_all
  also have "\<dots> = 2 ^ 62 * (4 * (k - 1))" by simp
  also have "\<dots> \<le> 2 ^ 62 * (k * k)" using k2 by (intro mult_left_mono) simp_all
  also have "\<dots> = (2 ^ 31 * k) * (2 ^ 31 * k)" by simp
  also have "\<dots> \<le> d * D"
  proof (rule mult_mono)
    show "2 ^ 31 * k \<le> d" using assms(2,4) by (rule order_trans [rotated])
    show "2 ^ 31 * k \<le> D" by (rule assms(4))
    show "0 \<le> 2 ^ 31 * k" using assms(1) by simp
    then show "0 \<le> d" using assms(2,4) by linarith
  qed
  finally show ?thesis .
qed

lemma quotient_estimate:
  fixes n d D :: int
  assumes pos: "0 < D" and le: "D \<le> d" and n: "0 \<le> n" and gap: "n * (d - D) < d * D"
  shows "n div d \<le> n div D" "n div D \<le> n div d + 1"
proof -
  have posd: "0 < d" using pos le by simp
  show "n div d \<le> n div D" using n pos le by (rule zdiv_mono2)
  show "n div D \<le> n div d + 1"
  proof (rule ccontr)
    assume "\<not> ?thesis"
    then have q: "n div d + 2 \<le> n div D" by simp
    define Q where "Q = n div d"
    have "(Q + 2) * D \<le> (n div D) * D" using q pos unfolding Q_def by (intro mult_right_mono) simp_all
    also have "\<dots> \<le> n" using pos by (simp add: minus_mod_eq_div_mult [symmetric])
    finally have "(Q + 2) * D * d \<le> n * d" using posd by (intro mult_right_mono) simp_all
    moreover have "n < (Q + 1) * d"
    proof -
      have "n = Q * d + n mod d" by (simp add: Q_def)
      moreover have "n mod d < d" using posd by simp
      ultimately show ?thesis by (simp add: algebra_simps)
    qed
    then have "n * D < (Q + 1) * d * D" using pos by (rule mult_strict_right_mono)
    ultimately have "d * D < n * (d - D)" by (simp add: algebra_simps)
    then show False using gap by simp
  qed
qed

lemma truncated_divisor_estimate:
  fixes n d k :: nat
  assumes "n < 2 ^ 64" "0 < k" "2 ^ 31 \<le> d div k"
  shows "n div d \<le> n div (d div k * k)" "n div (d div k * k) \<le> n div d + 1"
proof -
  let ?D = "d div k * k"
  have le: "?D \<le> d" by simp
  have "d - ?D \<le> k - 1" using assms(2) by (simp add: minus_div_mult_eq_mod less_Suc_eq_le [symmetric])
  then have near: "int d - int ?D \<le> int k - 1" using le assms(2) by linarith
  have "2 ^ 31 * k \<le> ?D" using assms(3) by (rule mult_right_mono) simp
  then have "int (2 ^ 31 * k) \<le> int ?D" by (simp only: of_nat_le_iff)
  then have big: "2 ^ 31 * int k \<le> int ?D" by simp
  have "int n < int (2 ^ 64)" using assms(1) by (simp only: of_nat_less_iff)
  then have "int n < 2 ^ 64" by simp
  then have gap: "int n * (int d - int ?D) < int d * int ?D"
    using near big assms(2) le [folded of_nat_le_iff [where 'a = int]]
    by (intro quotient_gap [of "int k"]) (simp_all only: of_nat_0_less_iff of_nat_0_le_iff)
  have "0 < d div k" using assms(3) by (rule less_le_trans [rotated]) simp
  then have pos: "0 < int ?D" using assms(2) by (simp only: of_nat_0_less_iff mult_pos_pos)
  have "int n div int d \<le> int n div int ?D" "int n div int ?D \<le> int n div int d + 1"
    by (rule quotient_estimate [OF pos _ _ gap], simp only: of_nat_le_iff le, simp)+
  then show "n div d \<le> n div ?D" "n div ?D \<le> n div d + 1"
    by (simp_all only: zdiv_int [symmetric])
qed

section \<open>Unsigned division\<close>

lemma unat_ucast_upcast:
  assumes "LENGTH('a) \<le> LENGTH('b)"
  shows "unat (ucast (x :: 'a::len word) :: 'b::len word) = unat x"
proof -
  have "unat x < 2 ^ LENGTH('a)" by (rule unsigned_less)
  also have "\<dots> \<le> 2 ^ LENGTH('b)" using assms by (rule power_increasing) simp
  finally show ?thesis by (simp add: unat_ucast_mod)
qed

lemma u32_u64: "LENGTH(32) \<le> LENGTH(64)" by simp

lemma divl_Some:
  assumes "unat d \<noteq> 0" "unat n div unat d < 2 ^ 32"
  shows "\<exists>q. divl n d = Some q \<and> unat q = unat n div unat d"
proof -
  have "unat d < 2 ^ 32" using unsigned_less [of d] by simp
  then have u: "unat (ucast d :: u64) = unat d" by (simp add: unat_ucast_mod)
  have q: "unat (n div ucast d) = unat n div unat d" by (simp add: unat_div_distrib u)
  then have "\<not> 2 ^ 32 \<le> n div ucast d" using assms(2) by (simp add: word_le_nat_alt)
  moreover have "d \<noteq> 0" using assms(1) by auto
  ultimately show ?thesis using assms(2) q by (simp add: divl_def unat_ucast_mod)
qed

lemma udiv64_long_division:
  assumes d: "d \<noteq> 0" "unat d < 2 ^ 32"
  shows "udiv64 n d = Some (n div d)"
proof -
  let ?b = "2 ^ 32 :: nat"
  let ?n1 = "ucast (drop_bit 32 n) :: u32" and ?n0 = "ucast n :: u32" and ?d0 = "ucast d :: u32"
  have d0: "unat ?d0 = unat d" using d(2) by (simp add: unat_ucast_mod)
  have dpos: "0 < unat d" using d(1) by (simp add: unat_gt_0)
  have nlt: "unat n < 2 ^ 64" using unsigned_less [of n] by simp
  then have n1: "unat ?n1 = unat n div ?b" by (simp add: unat_ucast_mod unat_drop_bit)
  have n0: "unat ?n0 = unat n mod ?b" by (simp add: unat_ucast_mod)
  define r where "r = unat n div ?b mod unat d"
  define t where "t = unat n div ?b div unat d"
  have r: "r < unat d" using dpos by (simp add: r_def)
  have rb: "?b * r + unat n mod ?b < ?b * unat d"
  proof -
    have "?b * (r + 1) \<le> ?b * unat d" using r by (intro mult_left_mono) simp_all
    then show ?thesis using mod_less_divisor [of ?b "unat n"] by (simp add: algebra_simps)
  qed
  also have "\<dots> \<le> 2 ^ 64" using d(2) by simp
  finally have rb64: "?b * r + unat n mod ?b < 2 ^ 64" .
  have "r < 2 ^ 32" using r d(2) by simp
  then have ur: "unat (ucast (?n1 mod ?d0) :: u64) = r"
    unfolding unat_ucast_upcast [OF u32_u64] unat_mod_distrib d0 n1 r_def by simp
  have un0: "unat (ucast ?n0 :: u64) = unat n mod ?b"
    unfolding unat_ucast_upcast [OF u32_u64] by (rule n0)
  have num: "unat (push_bit 32 1 * ucast (?n1 mod ?d0) + ucast ?n0 :: u64) = ?b * r + unat n mod ?b"
    using rb64 unfolding unat_word_ariths ur un0 by (simp add: unat_push_bit)
  have qlt: "(?b * r + unat n mod ?b) div unat d < ?b"
    using rb dpos by (simp add: div_less_iff_less_mult mult.commute)
  obtain q where q: "divl (push_bit 32 1 * ucast (?n1 mod ?d0) + ucast ?n0) ?d0 = Some q"
    "unat q = (?b * r + unat n mod ?b) div unat d"
    using divl_Some [of ?d0] num qlt dpos d0 by (metis not_gr_zero)
  have split: "unat n div unat d = (?b * r + unat n mod ?b) div unat d + ?b * t"
  proof -
    have "unat n = ?b * (t * unat d + r) + unat n mod ?b" by (simp add: r_def t_def)
    also have "\<dots> = (?b * r + unat n mod ?b) + (?b * t) * unat d" by (simp add: algebra_simps)
    finally have "unat n div unat d = ((?b * r + unat n mod ?b) + (?b * t) * unat d) div unat d" by simp
    then show ?thesis using dpos by (simp del: mult.commute)
  qed
  have "unat n div unat d < 2 ^ 64" using nlt by (meson div_le_dividend le_less_trans)
  then have small: "(?b * r + unat n mod ?b) div unat d + ?b * t < 2 ^ 64" using split by simp
  then have "t < 2 ^ 32" by simp
  have ut: "unat (ucast (?n1 div ?d0) :: u64) = t"
    unfolding unat_ucast_upcast [OF u32_u64] unat_div_distrib d0 n1 t_def by simp
  have uq: "unat (ucast q :: u64) = (?b * r + unat n mod ?b) div unat d"
    unfolding unat_ucast_upcast [OF u32_u64] by (rule q(2))
  have "unat (ucast q + push_bit 32 1 * ucast (?n1 div ?d0) :: u64) = unat (n div d)"
    using small unfolding unat_word_ariths ut uq unat_div_distrib split by (simp add: unat_push_bit)
  then have "ucast q + push_bit 32 1 * ucast (?n1 div ?d0) = n div d" by (simp only: unsigned_word_eqI)
  moreover have "drop_bit 32 d = 0" using d(2) by (simp add: unat_eq_0 [symmetric] unat_drop_bit)
  moreover have "?d0 \<noteq> 0" using d0 dpos by (metis unat_0 not_gr_zero)
  ultimately show ?thesis using q(1) by (simp add: udiv64_def Let_def)
qed

lemma shifted_divisor:
  fixes d :: u64
  assumes big: "2 ^ 32 \<le> unat d" and s: "s = nlz (ucast (drop_bit 32 d))"
  shows "s \<le> 31" and "unat (ucast (drop_bit 32 (push_bit s d)) :: u32) = unat d div 2 ^ (32 - s)"
    and "2 ^ 31 \<le> unat d div 2 ^ (32 - s)"
proof -
  let ?d1 = "ucast (drop_bit 32 d) :: u32"
  have dlt: "unat d < 2 ^ 64" using unsigned_less [of d] by simp
  then have d1: "unat ?d1 = unat d div 2 ^ 32" by (simp add: unat_ucast_mod unat_drop_bit)
  then have "unat ?d1 \<noteq> 0" using big by (simp add: div_greater_zero_iff)
  then have "?d1 \<noteq> 0" by auto
  then have n: "s \<le> 31" "2 ^ 31 \<le> unat ?d1 * 2 ^ s" "unat ?d1 * 2 ^ s < 2 ^ 32"
    using nlz_normalizes [of ?d1] s by auto
  show "s \<le> 31" by (rule n(1))
  have p: "2 ^ 32 = (2 ^ (32 - s) * 2 ^ s :: nat)" using n(1) by (simp flip: power_add)
  have "unat ?d1 < 2 ^ (32 - s)" using n(3) unfolding p by simp
  then have "unat d div 2 ^ 32 < 2 ^ (32 - s)" by (simp only: d1)
  then have "unat d < 2 ^ (32 - s) * 2 ^ 32" by (simp add: div_less_iff_less_mult)
  then have "unat d * 2 ^ s < 2 ^ (32 - s) * 2 ^ 32 * 2 ^ s" by simp
  also have "\<dots> = 2 ^ 64" using n(1) by (simp flip: power_add)
  finally have ov: "unat d * 2 ^ s < 2 ^ 64" .
  have v: "unat d * 2 ^ s div 2 ^ 32 = unat d div 2 ^ (32 - s)" unfolding p by simp
  have "unat d * 2 ^ s div 2 ^ 32 < 2 ^ 32" using ov by (simp add: div_less_iff_less_mult)
  then show "unat (ucast (drop_bit 32 (push_bit s d)) :: u32) = unat d div 2 ^ (32 - s)"
    using ov v by (simp add: unat_ucast_mod unat_drop_bit unat_push_bit del: push_bit_eq_mult)
  have "unat ?d1 * 2 ^ s = unat d div 2 ^ (32 - s) div 2 ^ s * 2 ^ s"
    unfolding d1 p by (simp add: div_mult2_eq)
  also have "\<dots> \<le> unat d div 2 ^ (32 - s)" by simp
  finally show "2 ^ 31 \<le> unat d div 2 ^ (32 - s)" using n(2) by (rule order_trans [rotated])
qed

lemma udiv64_shifted:
  assumes d: "2 ^ 32 \<le> unat d" and n: "d \<le> n"
  shows "udiv64 n d = Some (n div d)"
proof -
  let ?s = "nlz (ucast (drop_bit 32 d))"
  let ?v = "ucast (drop_bit 32 (push_bit ?s d)) :: u32" and ?k = "2 ^ (32 - ?s) :: nat"
  note sh = shifted_divisor [OF d refl]
  have N: "unat n < 2 ^ 64" using unsigned_less [of n] by simp
  have "unat (drop_bit 1 n) div unat ?v \<le> unat (drop_bit 1 n) div 2 ^ 31"
    using sh(2,3) by (intro div_le_mono2) simp_all
  also have "\<dots> < 2 ^ 32" using N by (simp add: unat_drop_bit div_less_iff_less_mult)
  finally have "unat (drop_bit 1 n) div unat ?v < 2 ^ 32" .
  moreover have "unat ?v \<noteq> 0" using sh(2,3) by (metis not_one_le_zero one_le_numeral one_le_power order_trans)
  ultimately obtain q32 where q32: "divl (drop_bit 1 n) ?v = Some q32"
    "unat q32 = unat n div 2 div (unat d div ?k)"
    using divl_Some [of ?v "drop_bit 1 n"] sh(2) by (auto simp: unat_drop_bit)
  define q where "q = (ucast (drop_bit (31 - ?s) q32) :: u64)"
  have k: "?k = 2 * 2 ^ (31 - ?s)" using sh(1) by (simp add: Suc_diff_le flip: power_Suc)
  have q: "unat q = unat n div (unat d div ?k * ?k)"
    unfolding q_def unat_ucast_upcast [OF u32_u64] unat_drop_bit q32(2)
    by (subst (2) k) (simp add: div_mult2_eq [symmetric] ac_simps)
  define Q where "Q = unat n div unat d"
  have est: "Q \<le> unat q" "unat q \<le> Q + 1"
    using truncated_divisor_estimate [OF N _ sh(3)] unfolding q Q_def by simp_all
  have Q1: "1 \<le> Q" using n d by (simp add: Q_def word_le_nat_alt div_greater_zero_iff Suc_leI)
  have ql: "unat (q - 1) = unat q - 1" using est Q1 by (intro unat_minus_one) auto
  have Qd: "Q * unat d + unat n mod unat d = unat n" by (simp add: Q_def)
  have dpos: "0 < unat d" using d by (rule less_le_trans [rotated]) simp
  have "(unat q - 1) * unat d \<le> Q * unat d" using est by (intro mult_right_mono) simp_all
  then have le: "(unat q - 1) * unat d \<le> unat n" using Qd by linarith
  then have "unat ((q - 1) * d) = (unat q - 1) * unat d"
    using N by (simp add: unat_word_ariths ql)
  then have rem: "unat (n - (q - 1) * d) = unat n - (unat q - 1) * unat d"
    using le by (subst unat_sub) (simp_all add: word_le_nat_alt)
  have "(if n - (q - 1) * d < d then q - 1 else q) = n div d"
  proof (cases "unat q = Q")
    case True
    have "unat d \<le> unat n - (Q - 1) * unat d"
      using Qd Q1 by (simp add: diff_mult_distrib)
    then have "\<not> n - (q - 1) * d < d" using rem True by (simp add: word_less_nat_alt)
    moreover have "q = n div d" using True by (intro unsigned_word_eqI [where 'a = nat]) (simp add: unat_div_distrib Q_def)
    ultimately show ?thesis by simp
  next
    case False
    then have q1: "unat q = Q + 1" using est by simp
    have "unat n - Q * unat d < unat d" using Qd mod_less_divisor [OF dpos, of "unat n"] by linarith
    then have "n - (q - 1) * d < d" using rem q1 by (simp add: word_less_nat_alt)
    moreover have "q - 1 = n div d"
      using ql q1 by (intro unsigned_word_eqI [where 'a = nat]) (simp add: unat_div_distrib Q_def)
    ultimately show ?thesis by simp
  qed
  moreover have "drop_bit 32 d \<noteq> 0" using d by (simp add: unat_eq_0 [symmetric] unat_drop_bit div_greater_zero_iff)
  moreover have "\<not> n < d" using n by simp
  ultimately show ?thesis unfolding udiv64_def Let_def q32(1) q_def [symmetric] bind.simps by simp
qed

lemma udiv64_eq: "udiv64 n d = (if d = 0 then None else Some (n div d))"
proof -
  consider "d = 0" | "d \<noteq> 0" "unat d < 2 ^ 32" | "2 ^ 32 \<le> unat d" "n < d" | "2 ^ 32 \<le> unat d" "d \<le> n"
    by fastforce
  then show ?thesis
  proof cases
    case 1
    then show ?thesis by (simp add: udiv64_def)
  next
    case 2
    then show ?thesis by (simp add: udiv64_long_division)
  next
    case 3
    then have "drop_bit 32 d \<noteq> 0" by (simp add: unat_eq_0 [symmetric] unat_drop_bit div_greater_zero_iff)
    moreover have "n div d = 0"
      using 3 by (intro unsigned_word_eqI [where 'a = nat]) (simp add: unat_div_distrib word_less_nat_alt)
    ultimately show ?thesis using 3 by (auto simp: udiv64_def)
  next
    case 4
    moreover have "d \<noteq> 0" using 4(1) by auto
    ultimately show ?thesis by (simp add: udiv64_shifted)
  qed
qed

lemma umod64_eq: "umod64 n d = (if d = 0 then None else Some (ucast (n mod d)))"
  by (simp add: umod64_def udiv64_eq minus_mult_div_eq_mod)

lemma umoddi3_eq: "umoddi3 n d = (if d = 0 then None else Some (ucast (ucast (n mod d) :: u32)))"
  by (simp add: umoddi3_def umod64_eq)

lemma ucast_round_trip: "ucast (ucast (x :: u64) :: u32) = x \<longleftrightarrow> unat x < 2 ^ 32"
proof
  assume "ucast (ucast x :: u32) = x"
  then have "unat (ucast (ucast x :: u32) :: u64) = unat x" by simp
  then have "unat x mod 2 ^ 32 = unat x" by (simp add: unat_ucast_mod)
  then show "unat x < 2 ^ 32" by (metis mod_less_divisor zero_less_power zero_less_numeral)
next
  assume "unat x < 2 ^ 32"
  then show "ucast (ucast x :: u32) = x"
    by (intro unsigned_word_eqI [where 'a = nat]) (simp add: unat_ucast_mod)
qed

section \<open>Signed division\<close>

lemma abs_word:
  fixes n :: u64
  shows "(if sint n \<ge> 0 then n else - n) = word_of_int \<bar>sint n\<bar>"
    and "uint (word_of_int \<bar>sint n\<bar> :: u64) = \<bar>sint n\<bar>"
proof -
  show "(if sint n \<ge> 0 then n else - n) = word_of_int \<bar>sint n\<bar>" by simp
  have "- (2 ^ 63) \<le> sint n" "sint n < 2 ^ 63" using sint_ge [of n] sint_lt [of n] by simp_all
  then show "uint (word_of_int \<bar>sint n\<bar> :: u64) = \<bar>sint n\<bar>"
    by (simp add: uint_word_of_int)
qed

lemma sint_nonzero: "(d :: u64) \<noteq> 0 \<Longrightarrow> sint d \<noteq> 0"
  using signed_word_eqI [of d 0, where 'a = int] by auto

lemma sdiv64_eq: "sdiv64 n d = (if d = 0 then None else Some (word_of_int (sint n sdiv sint d)))"
proof (cases "d = 0")
  case True
  then show ?thesis by (simp add: sdiv64_def udiv64_eq)
next
  case False
  then have d: "sint d \<noteq> 0" by (rule sint_nonzero)
  then have "uint (word_of_int \<bar>sint d\<bar> :: u64) \<noteq> 0" by (simp add: abs_word(2))
  then have nz: "(word_of_int \<bar>sint d\<bar> :: u64) \<noteq> 0" by (metis unsigned_0)
  have q: "word_of_int \<bar>sint n\<bar> div word_of_int \<bar>sint d\<bar> = (word_of_int (\<bar>sint n\<bar> div \<bar>sint d\<bar>) :: u64)"
    by (subst (3 4) abs_word(2) [symmetric], subst uint_div_distrib [symmetric]) (simp only: of_int_uint ucast_id)
  show ?thesis
    using False d nz
    by (auto simp: sdiv64_def Let_def abs_word(1) udiv64_eq q signed_divide_int_def sgn_if not_less)
qed

lemma ucast_of_int: "ucast (word_of_int k :: u64) = (word_of_int k :: u32)"
  by (rule bit_word_eqI) (simp add: bit_unsigned_iff bit_of_int_iff)

lemma smod64_eq: "smod64 n d = (if d = 0 then None else Some (word_of_int (sint n smod sint d)))"
proof -
  have "n - d * word_of_int (sint n sdiv sint d) = word_of_int (sint n - sint d * (sint n sdiv sint d))"
    by simp
  then have "n - d * word_of_int (sint n sdiv sint d) = word_of_int (sint n smod sint d)"
    by (simp only: minus_mult_sdiv_eq_smod)
  then show ?thesis by (auto simp: smod64_def sdiv64_eq ucast_of_int)
qed

lemma sint_of_int_in_range:
  "-(2 ^ 63) \<le> k \<Longrightarrow> k < 2 ^ 63 \<Longrightarrow> sint (word_of_int k :: u64) = k"
  "-(2 ^ 31) \<le> k \<Longrightarrow> k < 2 ^ 31 \<Longrightarrow> sint (word_of_int k :: u32) = k"
  by (simp_all add: sint_sbintrunc' signed_take_bit_int_eq_self)

lemma scast_round_trip:
  assumes "-(2 ^ 63) \<le> k" "k < 2 ^ 63"
  shows "(scast (word_of_int k :: u32) :: u64) = word_of_int k \<longleftrightarrow> -(2 ^ 31) \<le> k \<and> k < 2 ^ 31"
proof -
  define r where "r = sint (word_of_int k :: u32)"
  have lo: "-(2 ^ 31) \<le> r" "r < 2 ^ 31"
    unfolding r_def using sint_ge [of "word_of_int k :: u32"] sint_lt [of "word_of_int k :: u32"] by simp_all
  then have "-(2 ^ 63) \<le> r" "r < 2 ^ 63" by simp_all
  then have "(word_of_int r :: u64) = word_of_int k \<longleftrightarrow> r = k"
    by (metis assms sint_of_int_in_range(1))
  moreover have "r = k \<longleftrightarrow> -(2 ^ 31) \<le> k \<and> k < 2 ^ 31"
    using lo sint_of_int_in_range(2) [of k] by (auto simp only: r_def)
  moreover have "(scast (word_of_int k :: u32) :: u64) = word_of_int r" by (simp only: r_def scast_eq)
  ultimately show ?thesis by simp
qed

lemma moddi3_eq:
  "moddi3 n d = (if d = 0 then None else Some (scast (word_of_int (sint n smod sint d) :: u32)))"
  by (simp add: moddi3_def smod64_eq)

lemma smod_range:
  fixes n d :: u64
  assumes "d \<noteq> 0"
  shows "-(2 ^ 63) \<le> sint n smod sint d \<and> sint n smod sint d < 2 ^ 63"
proof -
  have "- (2 ^ 63) \<le> sint n" "sint n < 2 ^ 63" using sint_ge [of n] sint_lt [of n] by simp_all
  moreover have "\<bar>sint n\<bar> mod \<bar>sint d\<bar> \<le> \<bar>sint n\<bar>" by (intro zmod_le_nonneg_dividend) simp
  moreover have "0 \<le> \<bar>sint n\<bar> mod \<bar>sint d\<bar>" using sint_nonzero [OF assms] by simp
  moreover have "sint n smod sint d = sgn (sint n) * (\<bar>sint n\<bar> mod \<bar>sint d\<bar>)"
    by (rule signed_modulo_int_def)
  ultimately show ?thesis by (simp add: sgn_if split: if_splits)
qed

section \<open>What the compiler's helpers compute\<close>

text \<open>
  C30: \<open>__udivdi3\<close> is unsigned 64-bit division: it traps exactly on a zero divisor (the
  processor's \<open>divl\<close> never traps on overflow, and the one-off correction of the shifted
  estimate is always right), and otherwise returns the quotient.
\<close>
theorem udivdi3_correct: "udivdi3 n d = (if d = 0 then None else Some (n div d))"
  by (simp add: udivdi3_def udiv64_eq)

text \<open>
  \<open>__divdi3\<close> is signed 64-bit division rounding towards zero, as C requires; the
  quotient of the most negative number by -1 wraps around.
\<close>
lemma divdi3_correct: "divdi3 n d = (if d = 0 then None else Some (word_of_int (sint n sdiv sint d)))"
  by (simp add: divdi3_def sdiv64_eq)

text \<open>
  C34: \<open>__umoddi3\<close> and \<open>__moddi3\<close> return the remainder only when it fits in 32 bits: both
  compute it in a helper whose return type is 32 bits wide, so a larger remainder is
  silently truncated.
\<close>
theorem remainder_exact_iff:
  assumes "d \<noteq> 0"
  shows "(umoddi3 n d = Some (n mod d) \<longleftrightarrow> n mod d < 2 ^ 32) \<and>
         (moddi3 n d = Some (word_of_int (sint n smod sint d)) \<longleftrightarrow>
           -(2 ^ 31) \<le> sint n smod sint d \<and> sint n smod sint d < 2 ^ 31)"
proof
  have "(n mod d < 2 ^ 32) = (unat (n mod d) < 2 ^ 32)" by (simp add: word_less_nat_alt)
  then show "umoddi3 n d = Some (n mod d) \<longleftrightarrow> n mod d < 2 ^ 32"
    using assms by (simp add: umoddi3_eq ucast_round_trip)
  show "moddi3 n d = Some (word_of_int (sint n smod sint d)) \<longleftrightarrow>
      -(2 ^ 31) \<le> sint n smod sint d \<and> sint n smod sint d < 2 ^ 31"
    using assms scast_round_trip [OF conjunct1 [OF smod_range] conjunct2 [OF smod_range], OF assms assms]
    by (simp add: moddi3_eq)
qed

theorem remainder_exact_iff_witness:
  "umoddi3 17 5 = Some (17 mod 5) \<and> umoddi3 (2 ^ 32) (2 ^ 33) \<noteq> Some (2 ^ 32 mod 2 ^ 33)"
  using remainder_exact_iff [of 5 17] remainder_exact_iff [of "2 ^ 33" "2 ^ 32"] by simp

end
