(* ===== verification/Kernel_State.thy ===== *)
theory Kernel_State
  imports Klist_Correct "HOL-Library.Signed_Division"
begin

text \<open>
  The state of the thread system (\<open>threads/thread.h\<close>, \<open>threads/synch.h\<close>, the globals of
  \<open>threads/thread.c\<close>, \<open>threads/interrupt.c\<close> and \<open>devices/timer.c\<close>).

  Threads, semaphores, locks and condition variables are identified by their addresses. The
  lists of the kernel (ready queue, waiters, all threads, locks) are HOL lists of the
  addresses of the structures that contain the list elements; that the link-level routines
  implement exactly these list operations is what the theories on \<open>lib/kernel/list.c\<close>
  prove. \<open>None\<close> is a failed \<open>ASSERT\<close>, a fault (null or freed pointer) or a call outside the
  contract of a list routine.

  A switch to another thread happens in the middle of a C function. What a suspended thread
  still has to do is kept as a stack of \<open>frame\<close>s, one for each pending call, the data each
  of them holds being the local variables that are still needed.
\<close>

section \<open>Threads\<close>

datatype thread_status = THREAD_RUNNING | THREAD_READY | THREAD_BLOCKED | THREAD_DYING

abbreviation (input) PRI_MIN :: int where "PRI_MIN \<equiv> 0"
abbreviation (input) PRI_DEFAULT :: int where "PRI_DEFAULT \<equiv> 31"
abbreviation (input) PRI_MAX :: int where "PRI_MAX \<equiv> 63"
abbreviation (input) THREAD_MAGIC :: u32 where "THREAD_MAGIC \<equiv> 0xcd6abf4b"

text \<open>What a thread still has to do, innermost call first.\<close>

datatype frame =
    K_body                          \<comment> \<open>the thread's own function\<close>
  | K_kernel_thread                 \<comment> \<open>first run: \<open>kernel_thread\<close> enables interrupts\<close>
  | K_set_level bool                \<comment> \<open>\<open>intr_set_level (old_level)\<close>\<close>
  | K_iret                          \<comment> \<open>return from an external interrupt\<close>
  | K_sema_down addr bool           \<comment> \<open>the loop of \<open>sema_down\<close> after \<open>thread_block\<close>\<close>
  | K_lock_donate addr              \<comment> \<open>\<open>lock_acquire\<close>: priority donation\<close>
  | K_lock_down addr                \<comment> \<open>\<open>lock_acquire\<close>: call of \<open>sema_down\<close>\<close>
  | K_lock_held addr                \<comment> \<open>\<open>lock_acquire\<close>: after \<open>sema_down\<close>\<close>
  | K_try_held addr                 \<comment> \<open>\<open>lock_try_acquire\<close>: after \<open>sema_try_down\<close>\<close>
  | K_lock_up addr                  \<comment> \<open>\<open>lock_release\<close>: call of \<open>sema_up\<close>\<close>
  | K_lock_unlist addr              \<comment> \<open>\<open>lock_release\<close>: after \<open>sema_up\<close>\<close>
  | K_cond_down addr                \<comment> \<open>\<open>cond_wait\<close>: call of \<open>sema_down\<close> on the waiter\<close>
  | K_lock_acquire addr             \<comment> \<open>\<open>cond_wait\<close>: call of \<open>lock_acquire\<close>\<close>
  | K_cond_broadcast addr addr      \<comment> \<open>the loop of \<open>cond_broadcast\<close>\<close>
  | K_tid_take addr "frame option"  \<comment> \<open>\<open>allocate_tid\<close> with the lock held\<close>
  | K_tid_got addr int "frame option" \<comment> \<open>\<open>thread_create\<close> or \<open>thread_init\<close> after \<open>allocate_tid\<close>\<close>
  | K_start addr                    \<comment> \<open>\<open>thread_start\<close> after \<open>thread_create\<close>\<close>
  | K_idle addr                     \<comment> \<open>\<open>idle\<close>: its initialisation\<close>
  | K_idle_block                    \<comment> \<open>\<open>idle\<close>: head of the loop\<close>
  | K_idle_hlt                      \<comment> \<open>\<open>idle\<close>: after \<open>thread_block\<close>\<close>

record thread =
  tid :: int
  status :: thread_status
  name :: string
  stack :: addr
  priority :: int
  priority_old :: int
  all_locks :: "addr list"
  sleep_ticks :: int
  nice :: int
  recent_cpu :: int
  magic :: u32
  frames :: "frame list"

record semaphore =
  sema_value :: u32
  waiters :: "addr list"

section \<open>The kernel\<close>

text \<open>
  A lock is its holder and a semaphore four bytes into \<open>struct lock\<close>; a \<open>semaphore_elem\<close> has
  its semaphore eight bytes in.
\<close>

abbreviation lock_sema :: "addr \<Rightarrow> addr" where "lock_sema l \<equiv> l + 4"
abbreviation waiter_sema :: "addr \<Rightarrow> addr" where "waiter_sema w \<equiv> w + 8"

record kernel =
  threads :: "addr \<Rightarrow> thread option"
  semas :: "addr \<Rightarrow> semaphore"
  holder :: "addr \<Rightarrow> addr"
  cond_waiters :: "addr \<Rightarrow> addr list"
  ready_list :: "addr list"
  mlfqs_list :: "nat \<Rightarrow> addr list"
  all_list :: "addr list"
  lock_list :: "addr list"
  idle_thread :: addr
  initial_thread :: addr
  tid_lock :: addr
  next_tid :: int
  running :: addr
  if_flag :: bool
  in_external_intr :: bool
  yield_on_return :: bool
  ticks :: int
  thread_ticks :: nat
  idle_ticks :: int
  kernel_ticks :: int
  thread_mlfqs :: bool
  load_avg :: int

definition upd_thread :: "addr \<Rightarrow> (thread \<Rightarrow> thread) \<Rightarrow> kernel \<Rightarrow> kernel option" where
  "upd_thread t f k =
     map_option (\<lambda>th. k\<lparr>threads := (threads k)(t \<mapsto> f th)\<rparr>) (threads k t)"

definition push_frame :: "frame \<Rightarrow> kernel \<Rightarrow> kernel option" where
  "push_frame fr = (\<lambda>k. upd_thread (running k) (frames_update ((#) fr)) k)"

definition upd_sema :: "addr \<Rightarrow> (semaphore \<Rightarrow> semaphore) \<Rightarrow> kernel \<Rightarrow> kernel" where
  "upd_sema s f k = k\<lparr>semas := (semas k)(s := f (semas k s))\<rparr>"

abbreviation prio :: "kernel \<Rightarrow> addr \<Rightarrow> int" where
  "prio k t \<equiv> priority (the (threads k t))"

definition alive :: "kernel \<Rightarrow> addr \<Rightarrow> bool" where
  "alive k t \<longleftrightarrow> threads k t \<noteq> None"

text \<open>\<open>less_priority\<close> with \<open>sema_waiter_priority\<close>, and \<open>list_max\<close> with it on a list of threads.\<close>

definition less_priority :: "kernel \<Rightarrow> addr \<Rightarrow> addr \<Rightarrow> bool" where
  "less_priority k a b \<longleftrightarrow> prio k a < prio k b"

fun max_thread :: "kernel \<Rightarrow> addr list \<Rightarrow> addr option" where
  "max_thread k [] = None"
| "max_thread k (t # ts) =
     (if list_all (alive k) (t # ts) then Some (max_from (less_priority k) t ts) else None)"

definition is_thread :: "kernel \<Rightarrow> addr \<Rightarrow> bool" where
  "is_thread k t \<longleftrightarrow>
     t \<noteq> NULL \<and> (case threads k t of None \<Rightarrow> False | Some th \<Rightarrow> magic th = THREAD_MAGIC)"

definition thread_current :: "kernel \<Rightarrow> addr option" where
  "thread_current k = do {
     kassert (is_thread k (running k));
     th \<leftarrow> threads k (running k);
     kassert (status th = THREAD_RUNNING);
     Some (running k) }"

section \<open>Interrupt level\<close>

definition intr_disable :: "kernel \<Rightarrow> kernel" where
  "intr_disable k = k\<lparr>if_flag := False\<rparr>"

definition intr_enable :: "kernel \<Rightarrow> kernel option" where
  "intr_enable k = do { kassert (\<not> in_external_intr k); Some (k\<lparr>if_flag := True\<rparr>) }"

definition intr_set_level :: "bool \<Rightarrow> kernel \<Rightarrow> kernel option" where
  "intr_set_level level k = (if level then intr_enable k else Some (intr_disable k))"

definition intr_yield_on_return :: "kernel \<Rightarrow> kernel option" where
  "intr_yield_on_return k = do { kassert (in_external_intr k); Some (k\<lparr>yield_on_return := True\<rparr>) }"

end
