(* ===== verification/Sched.thy ===== *)
theory Sched
  imports Kernel_State
begin

text \<open>
  The thread system of \<open>threads/thread.c\<close> and the timer of \<open>devices/timer.c\<close>: the ready
  queues, the scheduler, thread creation and exit, priority donation, the multilevel
  feedback queue and the timer tick. A function that gives up the processor pushes what its
  caller has left to do before it calls \<open>schedule\<close>.
\<close>

section \<open>Fixed-point arithmetic\<close>

abbreviation (input) FRAC :: int where "FRAC \<equiv> 16384"

definition TO_FP :: "int \<Rightarrow> int" where "TO_FP n = n * FRAC"
definition TO_INT :: "int \<Rightarrow> int" where "TO_INT x = x sdiv FRAC"
definition ROUND_TO_INT :: "int \<Rightarrow> int" where
  "ROUND_TO_INT x = (if x \<ge> 0 then (x + FRAC div 2) sdiv FRAC else (x - FRAC div 2) sdiv FRAC)"
definition FMUL_F :: "int \<Rightarrow> int \<Rightarrow> int" where "FMUL_F x y = s64 (x * y) sdiv FRAC"
definition FDIV_F :: "int \<Rightarrow> int \<Rightarrow> int" where "FDIV_F x y = s64 (x * FRAC) sdiv y"
definition FADD_I :: "int \<Rightarrow> int \<Rightarrow> int" where "FADD_I x n = x + n * FRAC"
definition FDIV_I :: "int \<Rightarrow> int \<Rightarrow> int" where "FDIV_I x n = x sdiv n"

section \<open>Ready queues\<close>

definition enqueue_ready :: "addr \<Rightarrow> kernel \<Rightarrow> kernel option" where
  "enqueue_ready t k = do {
     th \<leftarrow> threads k t;
     if thread_mlfqs k then do {
       kassert (PRI_MIN \<le> priority th \<and> priority th \<le> PRI_MAX);
       Some (k\<lparr>mlfqs_list := (mlfqs_list k)(nat (priority th) := mlfqs_list k (nat (priority th)) @ [t])\<rparr>) }
     else Some (k\<lparr>ready_list := ready_list k @ [t]\<rparr>) }"

definition next_thread_to_run :: "kernel \<Rightarrow> (addr \<times> kernel) option" where
  "next_thread_to_run k =
     (if thread_mlfqs k then
        (case find (\<lambda>i. mlfqs_list k (63 - i) \<noteq> []) [0..<64] of
           None \<Rightarrow> Some (idle_thread k, k)
         | Some i \<Rightarrow>
             Some (hd (mlfqs_list k (63 - i)),
                   k\<lparr>mlfqs_list := (mlfqs_list k)(63 - i := tl (mlfqs_list k (63 - i)))\<rparr>))
      else if ready_list k = [] then Some (idle_thread k, k)
      else do {
        mx \<leftarrow> max_thread k (ready_list k);
        Some (mx, k\<lparr>ready_list := remove1 mx (ready_list k)\<rparr>) })"

section \<open>The scheduler\<close>

definition thread_schedule_tail :: "addr \<Rightarrow> kernel \<Rightarrow> kernel option" where
  "thread_schedule_tail prev k = do {
     kassert (\<not> if_flag k);
     k \<leftarrow> upd_thread (running k) (status_update (\<lambda>_. THREAD_RUNNING)) k;
     let k = k\<lparr>thread_ticks := 0\<rparr>;
     if prev \<noteq> NULL \<and> prev \<noteq> initial_thread k then do {
       p \<leftarrow> threads k prev;
       if status p = THREAD_DYING then do {
         kassert (prev \<noteq> running k);
         Some (k\<lparr>threads := (threads k)(prev := None)\<rparr>) }
       else Some k }
     else Some k }"

definition schedule :: "kernel \<Rightarrow> kernel option" where
  "schedule k = do {
     let cur = running k;
     (nxt, k) \<leftarrow> next_thread_to_run k;
     kassert (\<not> if_flag k);
     c \<leftarrow> threads k cur;
     kassert (status c \<noteq> THREAD_RUNNING);
     kassert (is_thread k nxt);
     if cur \<noteq> nxt then thread_schedule_tail cur (k\<lparr>running := nxt\<rparr>)
     else thread_schedule_tail NULL k }"

definition thread_block :: "kernel \<Rightarrow> kernel option" where
  "thread_block k = do {
     kassert (\<not> in_external_intr k);
     kassert (\<not> if_flag k);
     t \<leftarrow> thread_current k;
     k \<leftarrow> upd_thread t (status_update (\<lambda>_. THREAD_BLOCKED)) k;
     schedule k }"

definition thread_unblock :: "addr \<Rightarrow> kernel \<Rightarrow> kernel option" where
  "thread_unblock t k = do {
     kassert (is_thread k t);
     let old_level = if_flag k;
     let k = intr_disable k;
     th \<leftarrow> threads k t;
     kassert (status th = THREAD_BLOCKED);
     k \<leftarrow> enqueue_ready t k;
     k \<leftarrow> upd_thread t (status_update (\<lambda>_. THREAD_READY)) k;
     intr_set_level old_level k }"

definition thread_yield :: "kernel \<Rightarrow> kernel option" where
  "thread_yield k = do {
     cur \<leftarrow> thread_current k;
     kassert (\<not> in_external_intr k);
     let old_level = if_flag k;
     let k = intr_disable k;
     k \<leftarrow> (if cur \<noteq> idle_thread k then enqueue_ready cur k else Some k);
     k \<leftarrow> upd_thread cur (status_update (\<lambda>_. THREAD_READY)) k;
     k \<leftarrow> push_frame (K_set_level old_level) k;
     schedule k }"

definition thread_exit :: "kernel \<Rightarrow> kernel option" where
  "thread_exit k = do {
     kassert (\<not> in_external_intr k);
     let k = intr_disable k;
     t \<leftarrow> thread_current k;
     kassert (t \<in> set (all_list k));
     let k = k\<lparr>all_list := remove1 t (all_list k)\<rparr>;
     k \<leftarrow> upd_thread t (status_update (\<lambda>_. THREAD_DYING)) k;
     schedule k }"

section \<open>Creating threads\<close>

definition init_thread :: "addr \<Rightarrow> string \<Rightarrow> int \<Rightarrow> kernel \<Rightarrow> kernel option" where
  "init_thread t nm pri k = do {
     kassert (t \<noteq> NULL);
     kassert (PRI_MIN \<le> pri \<and> pri \<le> PRI_MAX);
     Some (k\<lparr>threads := (threads k)(t \<mapsto>
                \<lparr>tid = 0, status = THREAD_BLOCKED, name = take 15 nm, stack = t + 4096,
                 priority = pri, priority_old = pri, all_locks = [], sleep_ticks = 0,
                 nice = 0, recent_cpu = 0, magic = THREAD_MAGIC, frames = []\<rparr>),
             all_list := all_list k @ [t]\<rparr>) }"

definition alloc_frame :: "addr \<Rightarrow> u32 \<Rightarrow> kernel \<Rightarrow> kernel option" where
  "alloc_frame t sz k = do {
     kassert (is_thread k t);
     kassert (sz mod 4 = 0);
     upd_thread t (stack_update (\<lambda>s. s - sz)) k }"

text \<open>
  \<open>thread_create\<close> after the thread has its identifier: the three stack frames (sizes of
  \<open>kernel_thread_frame\<close>, \<open>switch_entry_frame\<close>, \<open>switch_threads_frame\<close>), the run queue, and
  the immediate yield to a higher priority. The first run of the thread starts in
  \<open>kernel_thread\<close> and goes on to \<open>fn\<close>.
\<close>

definition thread_create_rest :: "addr \<Rightarrow> int \<Rightarrow> frame \<Rightarrow> kernel \<Rightarrow> kernel option" where
  "thread_create_rest t new_tid fn k = do {
     k \<leftarrow> upd_thread t (tid_update (\<lambda>_. new_tid)) k;
     k \<leftarrow> alloc_frame t 12 k;
     k \<leftarrow> alloc_frame t 4 k;
     k \<leftarrow> alloc_frame t 28 k;
     k \<leftarrow> upd_thread t (frames_update (\<lambda>_. [K_kernel_thread, fn])) k;
     k \<leftarrow> thread_unblock t k;
     th \<leftarrow> threads k t;
     cur \<leftarrow> thread_current k;
     c \<leftarrow> threads k cur;
     if priority th > priority c then thread_yield k else Some k }"

section \<open>Priority donation\<close>

definition append_lock_list :: "addr \<Rightarrow> kernel \<Rightarrow> kernel option" where
  "append_lock_list l k = do {
     kassert (l \<noteq> NULL);
     let old_level = if_flag k;
     intr_set_level old_level ((intr_disable k)\<lparr>lock_list := lock_list k @ [l]\<rparr>) }"

definition remove_lock_list :: "addr \<Rightarrow> kernel \<Rightarrow> kernel option" where
  "remove_lock_list l k = do {
     kassert (l \<noteq> NULL);
     let old_level = if_flag k;
     kassert (l \<in> set (lock_list k));
     intr_set_level old_level ((intr_disable k)\<lparr>lock_list := remove1 l (lock_list k)\<rparr>) }"

text \<open>
  The priority read through \<open>list_max\<close> of a lock's waiters. On an empty list \<open>list_max\<close>
  returns the list tail, and the \<open>priority\<close> read through it lies 12 bytes before the tail:
  that word is the semaphore's \<open>value\<close>.
\<close>

definition waiters_max_priority :: "kernel \<Rightarrow> addr \<Rightarrow> int option" where
  "waiters_max_priority k l =
     (if waiters (semas k (lock_sema l)) = [] then Some (sint (sema_value (semas k (lock_sema l))))
      else map_option (prio k) (max_thread k (waiters (semas k (lock_sema l)))))"

partial_function (option) reset_donate_loop :: "addr list \<Rightarrow> kernel \<Rightarrow> kernel option" where
  "reset_donate_loop ls k =
     (case ls of
        [] \<Rightarrow> Some k
      | l # ls' \<Rightarrow> do {
          p \<leftarrow> waiters_max_priority k l;
          kassert (holder k l \<noteq> NULL);
          h \<leftarrow> threads k (holder k l);
          if p > priority h then do {
            k \<leftarrow> upd_thread (holder k l) (priority_update (\<lambda>_. p)) k;
            k \<leftarrow> reset_donate_loop (lock_list k) k;
            reset_donate_loop ls' k }
          else reset_donate_loop ls' k })"

definition reset_donate_priority :: "kernel \<Rightarrow> kernel option" where
  "reset_donate_priority k = do {
     let old_level = if_flag k;
     k \<leftarrow> reset_donate_loop (lock_list k) (intr_disable k);
     intr_set_level old_level k }"

text \<open>
  \<open>thread_set_priority\<close> also reads \<open>list_max\<close> of a possibly empty list, the ready queue;
  \<open>stray\<close> is the word in front of \<open>ready_list\<close> that it then takes for a priority.
\<close>

definition thread_set_priority :: "int \<Rightarrow> int \<Rightarrow> kernel \<Rightarrow> kernel option" where
  "thread_set_priority stray new_priority k = do {
     t \<leftarrow> thread_current k;
     k \<leftarrow> upd_thread t (\<lambda>th. th\<lparr>priority := new_priority, priority_old := new_priority\<rparr>) k;
     if thread_mlfqs k then Some k
     else do {
       k \<leftarrow> reset_donate_priority k;
       max_priority \<leftarrow> (if ready_list k = [] then Some stray
                        else map_option (prio k) (max_thread k (ready_list k)));
       th \<leftarrow> threads k t;
       if priority th < max_priority then thread_yield k else Some k } }"

section \<open>The multilevel feedback queue\<close>

fun count_active :: "kernel \<Rightarrow> addr list \<Rightarrow> int option" where
  "count_active k [] = Some 0"
| "count_active k (t # ts) = do {
     th \<leftarrow> threads k t;
     n \<leftarrow> count_active k ts;
     Some (if t \<noteq> idle_thread k \<and> (status th = THREAD_RUNNING \<or> status th = THREAD_READY)
           then n + 1 else n) }"

definition thread_active :: "kernel \<Rightarrow> int option" where
  "thread_active k = count_active k (all_list k)"

definition thread_set_load_avg :: "kernel \<Rightarrow> kernel option" where
  "thread_set_load_avg k = do {
     kassert (\<not> if_flag k);
     active \<leftarrow> count_active k (all_list k);
     Some (k\<lparr>load_avg := s32 (FMUL_F (FDIV_I (TO_FP 59) 60) (load_avg k)
                               + FDIV_I (TO_FP 1) 60 * active)\<rparr>) }"

definition thread_refresh_recent_cpu :: "addr \<Rightarrow> kernel \<Rightarrow> kernel option" where
  "thread_refresh_recent_cpu t k = do {
     kassert (is_thread k t);
     th \<leftarrow> threads k t;
     let la2 = s32 (load_avg k * 2);
     let den = s32 (FADD_I la2 1);
     kassert (den \<noteq> 0);
     upd_thread t (recent_cpu_update
       (\<lambda>_. s64 (FADD_I (FMUL_F (FDIV_F la2 den) (recent_cpu th)) (nice th)))) k }"

definition cap_priority :: "int \<Rightarrow> int" where
  "cap_priority p = (if p < PRI_MIN then PRI_MIN else if p > PRI_MAX then PRI_MAX else p)"

definition requeue_ready :: "addr \<Rightarrow> int \<Rightarrow> int \<Rightarrow> kernel \<Rightarrow> kernel option" where
  "requeue_ready t old_priority p k = do {
     kassert (PRI_MIN \<le> old_priority \<and> old_priority \<le> PRI_MAX \<and> t \<in> set (mlfqs_list k (nat old_priority)));
     let qs = (mlfqs_list k)(nat old_priority := remove1 t (mlfqs_list k (nat old_priority)));
     Some (k\<lparr>mlfqs_list := qs(nat p := qs (nat p) @ [t])\<rparr>) }"

definition thread_refresh_priority :: "addr \<Rightarrow> kernel \<Rightarrow> kernel option" where
  "thread_refresh_priority t k = do {
     kassert (is_thread k t);
     th \<leftarrow> threads k t;
     let old_priority = priority th;
     let p = cap_priority (s32 (PRI_MAX - nice th * 2 - TO_INT (recent_cpu th sdiv 4)));
     k \<leftarrow> upd_thread t (priority_update (\<lambda>_. p)) k;
     if status th = THREAD_READY \<and> p \<noteq> old_priority then requeue_ready t old_priority p k
     else Some k }"

definition thread_set_nice :: "int \<Rightarrow> kernel \<Rightarrow> kernel option" where
  "thread_set_nice new_nice k = do {
     kassert (new_nice \<ge> -20 \<and> new_nice \<le> 20);
     t \<leftarrow> thread_current k;
     k \<leftarrow> upd_thread t (nice_update (\<lambda>_. s8 new_nice)) k;
     k \<leftarrow> thread_refresh_recent_cpu t k;
     k \<leftarrow> thread_refresh_priority t k;
     th \<leftarrow> threads k t;
     let max_priority = (case find (\<lambda>i. mlfqs_list k (63 - i) \<noteq> []) [0..<64] of
                           None \<Rightarrow> 0 | Some i \<Rightarrow> int i);
     if priority th < max_priority then thread_yield k else Some k }"

definition thread_get_priority :: "kernel \<Rightarrow> int option" where
  "thread_get_priority k = do { t \<leftarrow> thread_current k; th \<leftarrow> threads k t; Some (priority th) }"

definition thread_get_nice :: "kernel \<Rightarrow> int option" where
  "thread_get_nice k = do { t \<leftarrow> thread_current k; th \<leftarrow> threads k t; Some (nice th) }"

definition thread_get_load_avg :: "kernel \<Rightarrow> int" where
  "thread_get_load_avg k = TO_INT (s32 (load_avg k * 100))"

definition thread_get_recent_cpu :: "kernel \<Rightarrow> int option" where
  "thread_get_recent_cpu k = do {
     t \<leftarrow> thread_current k;
     th \<leftarrow> threads k t;
     Some (s32 (ROUND_TO_INT (s64 (recent_cpu th * 100)))) }"

definition get_thread :: "int \<Rightarrow> kernel \<Rightarrow> addr" where
  "get_thread i k =
     (case find (\<lambda>t. map_option tid (threads k t) = Some i) (all_list k) of None \<Rightarrow> NULL | Some t \<Rightarrow> t)"

section \<open>The timer\<close>

definition wake_threads :: "addr \<Rightarrow> kernel \<Rightarrow> kernel option" where
  "wake_threads t k = do {
     kassert (is_thread k t);
     th \<leftarrow> threads k t;
     if status th = THREAD_BLOCKED \<and> sleep_ticks th > 0 then do {
       k \<leftarrow> upd_thread t (sleep_ticks_update (\<lambda>n. n - 1)) k;
       if sleep_ticks th - 1 = 0 then thread_unblock t k else Some k }
     else Some k }"

fun foreach_threads :: "(addr \<Rightarrow> kernel \<Rightarrow> kernel option) \<Rightarrow> addr list \<Rightarrow> kernel \<Rightarrow> kernel option" where
  "foreach_threads f [] k = Some k"
| "foreach_threads f (t # ts) k = do { k \<leftarrow> f t k; foreach_threads f ts k }"

definition thread_foreach :: "(addr \<Rightarrow> kernel \<Rightarrow> kernel option) \<Rightarrow> kernel \<Rightarrow> kernel option" where
  "thread_foreach f k = do { kassert (\<not> if_flag k); foreach_threads f (all_list k) k }"

abbreviation (input) TIMER_FREQ :: int where "TIMER_FREQ \<equiv> 100"
abbreviation (input) TIME_SLICE :: nat where "TIME_SLICE \<equiv> 4"

definition unless_idle :: "(addr \<Rightarrow> kernel \<Rightarrow> kernel option) \<Rightarrow> addr \<Rightarrow> kernel \<Rightarrow> kernel option" where
  "unless_idle f t k = (if t \<noteq> idle_thread k then f t k else Some k)"

definition mlfqs_tick :: "addr \<Rightarrow> kernel \<Rightarrow> kernel option" where
  "mlfqs_tick t k = do {
     k \<leftarrow> upd_thread t (recent_cpu_update (\<lambda>c. s64 (FADD_I c 1))) k;
     k \<leftarrow> (if ticks k mod TIMER_FREQ = 0 then do {
              k \<leftarrow> thread_set_load_avg k;
              foreach_threads (unless_idle thread_refresh_recent_cpu) (all_list k) k }
            else Some k);
     k \<leftarrow> (if ticks k mod int TIME_SLICE = 0
            then foreach_threads (unless_idle thread_refresh_priority) (all_list k) k
            else Some k);
     intr_yield_on_return k }"

definition thread_tick :: "kernel \<Rightarrow> kernel option" where
  "thread_tick k = do {
     t \<leftarrow> thread_current k;
     let k = (if t = idle_thread k then k\<lparr>idle_ticks := idle_ticks k + 1\<rparr>
              else k\<lparr>kernel_ticks := kernel_ticks k + 1\<rparr>);
     k \<leftarrow> thread_foreach wake_threads k;
     k \<leftarrow> (if thread_mlfqs k then mlfqs_tick t k else Some k);
     let k = k\<lparr>thread_ticks := thread_ticks k + 1\<rparr>;
     if thread_ticks k \<ge> TIME_SLICE then intr_yield_on_return k else Some k }"

definition timer_interrupt :: "kernel \<Rightarrow> kernel option" where
  "timer_interrupt k = thread_tick (k\<lparr>ticks := ticks k + 1\<rparr>)"

text \<open>
  \<open>intr_handler\<close> for an external interrupt: the interrupt gate clears the interrupt flag, and
  returning from the interrupt sets it again. \<open>handler\<close> is the registered handler.
\<close>

definition intr_handler_ext :: "(kernel \<Rightarrow> kernel option) \<Rightarrow> kernel \<Rightarrow> kernel option" where
  "intr_handler_ext handler k = do {
     let k = intr_disable k;
     kassert (\<not> in_external_intr k);
     k \<leftarrow> handler (k\<lparr>in_external_intr := True, yield_on_return := False\<rparr>);
     kassert (\<not> if_flag k);
     kassert (in_external_intr k);
     let k = k\<lparr>in_external_intr := False\<rparr>;
     k \<leftarrow> push_frame K_iret k;
     if yield_on_return k then thread_yield k else Some k }"

definition timer_sleep :: "int \<Rightarrow> kernel \<Rightarrow> kernel option" where
  "timer_sleep n k = do {
     kassert (if_flag k);
     t \<leftarrow> thread_current k;
     if n > 0 then do {
       k \<leftarrow> upd_thread t (sleep_ticks_update (\<lambda>_. n)) k;
       let old_level = if_flag k;
       let k = intr_disable k;
       k \<leftarrow> push_frame (K_set_level old_level) k;
       thread_block k }
     else Some k }"

end
