(* ===== verification/Synch.thy ===== *)
theory Synch
  imports Sched
begin

text \<open>
  Semaphores, locks and condition variables (\<open>threads/synch.c\<close>), thread creation on top of
  the identifier lock, and the kernel as a machine: a thread issues a call, resumes its
  innermost pending frame, or is interrupted by the timer.
\<close>

section \<open>Semaphores\<close>

definition sema_init :: "addr \<Rightarrow> u32 \<Rightarrow> kernel \<Rightarrow> kernel option" where
  "sema_init s v k = do {
     kassert (s \<noteq> NULL);
     Some (upd_sema s (\<lambda>_. \<lparr>sema_value = v, waiters = []\<rparr>) k) }"

definition sema_down_loop :: "addr \<Rightarrow> bool \<Rightarrow> kernel \<Rightarrow> kernel option" where
  "sema_down_loop s old_level k =
     (if sema_value (semas k s) = 0 then do {
        t \<leftarrow> thread_current k;
        let k = upd_sema s (waiters_update (\<lambda>ws. ws @ [t])) k;
        k \<leftarrow> push_frame (K_sema_down s old_level) k;
        thread_block k }
      else intr_set_level old_level (upd_sema s (sema_value_update (\<lambda>v. v - 1)) k))"

definition sema_down :: "addr \<Rightarrow> kernel \<Rightarrow> kernel option" where
  "sema_down s k = do {
     kassert (s \<noteq> NULL);
     kassert (\<not> in_external_intr k);
     sema_down_loop s (if_flag k) (intr_disable k) }"

definition sema_try_down :: "addr \<Rightarrow> kernel \<Rightarrow> (bool \<times> kernel) option" where
  "sema_try_down s k = do {
     kassert (s \<noteq> NULL);
     let old_level = if_flag k;
     let k = intr_disable k;
     let success = (sema_value (semas k s) > 0);
     let k = (if success then upd_sema s (sema_value_update (\<lambda>v. v - 1)) k else k);
     k \<leftarrow> intr_set_level old_level k;
     Some (success, k) }"

definition sema_wake :: "addr \<Rightarrow> kernel \<Rightarrow> (int \<times> kernel) option" where
  "sema_wake s k =
     (if waiters (semas k s) = [] then Some (0, k)
      else do {
        mx \<leftarrow> max_thread k (waiters (semas k s));
        let k = upd_sema s (waiters_update (remove1 mx)) k;
        th \<leftarrow> threads k mx;
        k \<leftarrow> thread_unblock mx k;
        Some (priority th, k) })"

definition sema_up :: "addr \<Rightarrow> kernel \<Rightarrow> kernel option" where
  "sema_up s k = do {
     kassert (s \<noteq> NULL);
     let old_level = if_flag k;
     (max_priority, k) \<leftarrow> sema_wake s (intr_disable k);
     let k = upd_sema s (sema_value_update (\<lambda>v. v + 1)) k;
     if in_external_intr k then intr_set_level old_level k
     else do {
       t \<leftarrow> thread_current k;
       th \<leftarrow> threads k t;
       if priority th < max_priority then do {
         k \<leftarrow> push_frame (K_set_level old_level) k;
         thread_yield k }
       else intr_set_level old_level k } }"

section \<open>Locks\<close>

definition lock_init :: "addr \<Rightarrow> kernel \<Rightarrow> kernel option" where
  "lock_init l k = do {
     kassert (l \<noteq> NULL);
     sema_init (lock_sema l) 1 (k\<lparr>holder := (holder k)(l := NULL)\<rparr>) }"

definition lock_held_by_current_thread :: "addr \<Rightarrow> kernel \<Rightarrow> bool option" where
  "lock_held_by_current_thread l k = do {
     kassert (l \<noteq> NULL);
     t \<leftarrow> thread_current k;
     Some (holder k l = t) }"

definition lock_initial_state :: "addr \<Rightarrow> kernel \<Rightarrow> bool" where
  "lock_initial_state l k \<longleftrightarrow>
     holder k l = NULL \<and> waiters (semas k (lock_sema l)) = [] \<and> sema_value (semas k (lock_sema l)) = 1"

text \<open>\<open>lock_acquire\<close>: up to the registration in \<open>lock_list\<close>, the donation, \<open>sema_down\<close>, and the rest.\<close>

definition lock_acquire :: "addr \<Rightarrow> kernel \<Rightarrow> kernel option" where
  "lock_acquire l k = do {
     kassert (l \<noteq> NULL);
     kassert (\<not> in_external_intr k);
     held \<leftarrow> lock_held_by_current_thread l k;
     kassert (\<not> held);
     k \<leftarrow> (if lock_initial_state l k then append_lock_list l k else Some k);
     push_frame (K_lock_donate l) k }"

definition lock_acquire_donate :: "addr \<Rightarrow> kernel \<Rightarrow> kernel option" where
  "lock_acquire_donate l k = do {
     k \<leftarrow> (if holder k l \<noteq> NULL \<and> \<not> thread_mlfqs k then do {
              t \<leftarrow> thread_current k;
              th \<leftarrow> threads k t;
              h \<leftarrow> threads k (holder k l);
              k \<leftarrow> (if priority th > priority h
                     then upd_thread (holder k l) (priority_update (\<lambda>_. priority th)) k
                     else Some k);
              reset_donate_priority k }
            else Some k);
     push_frame (K_lock_down l) k }"

definition lock_acquire_down :: "addr \<Rightarrow> kernel \<Rightarrow> kernel option" where
  "lock_acquire_down l k = do { k \<leftarrow> push_frame (K_lock_held l) k; sema_down (lock_sema l) k }"

definition lock_acquire_held :: "addr \<Rightarrow> kernel \<Rightarrow> kernel option" where
  "lock_acquire_held l k = do {
     t \<leftarrow> thread_current k;
     k \<leftarrow> upd_thread t (all_locks_update (\<lambda>ls. ls @ [l])) k;
     Some (k\<lparr>holder := (holder k)(l := t)\<rparr>) }"

text \<open>\<open>lock_try_acquire\<close>: interrupts are on again between \<open>sema_try_down\<close> and the rest.\<close>

definition lock_try_acquire :: "addr \<Rightarrow> kernel \<Rightarrow> (bool \<times> kernel) option" where
  "lock_try_acquire l k = do {
     kassert (l \<noteq> NULL);
     held \<leftarrow> lock_held_by_current_thread l k;
     kassert (\<not> held);
     (success, k) \<leftarrow> sema_try_down (lock_sema l) k;
     k \<leftarrow> (if success then push_frame (K_try_held l) k else Some k);
     Some (success, k) }"

definition lock_try_acquire_held :: "addr \<Rightarrow> kernel \<Rightarrow> kernel option" where
  "lock_try_acquire_held l k = do {
     t \<leftarrow> thread_current k;
     Some (k\<lparr>holder := (holder k)(l := t)\<rparr>) }"

fun max_donate_priority :: "kernel \<Rightarrow> int \<Rightarrow> addr list \<Rightarrow> int option" where
  "max_donate_priority k m [] = Some m"
| "max_donate_priority k m (l # ls) = do {
     p \<leftarrow> waiters_max_priority k l;
     max_donate_priority k (if p > m then p else m) ls }"

definition lock_release :: "addr \<Rightarrow> kernel \<Rightarrow> kernel option" where
  "lock_release l k = do {
     kassert (l \<noteq> NULL);
     held \<leftarrow> lock_held_by_current_thread l k;
     kassert held;
     t \<leftarrow> thread_current k;
     k \<leftarrow> upd_thread t (all_locks_update (remove1 l)) k;
     th \<leftarrow> threads k t;
     k \<leftarrow> (if \<not> thread_mlfqs k then do {
              m \<leftarrow> max_donate_priority k 0 (all_locks th);
              upd_thread t (priority_update
                (\<lambda>_. if m > priority_old th then m else priority_old th)) k }
            else Some k);
     push_frame (K_lock_up l) (k\<lparr>holder := (holder k)(l := NULL)\<rparr>) }"

definition lock_release_up :: "addr \<Rightarrow> kernel \<Rightarrow> kernel option" where
  "lock_release_up l k = do { k \<leftarrow> push_frame (K_lock_unlist l) k; sema_up (lock_sema l) k }"

definition lock_release_unlist :: "addr \<Rightarrow> kernel \<Rightarrow> kernel option" where
  "lock_release_unlist l k = (if lock_initial_state l k then remove_lock_list l k else Some k)"

section \<open>Condition variables\<close>

definition cond_init :: "addr \<Rightarrow> kernel \<Rightarrow> kernel option" where
  "cond_init c k = do {
     kassert (c \<noteq> NULL);
     Some (k\<lparr>cond_waiters := (cond_waiters k)(c := [])\<rparr>) }"

text \<open>\<open>w\<close> is the address of the \<open>semaphore_elem\<close> in the stack frame of \<open>cond_wait\<close>.\<close>

definition cond_wait :: "addr \<Rightarrow> addr \<Rightarrow> addr \<Rightarrow> kernel \<Rightarrow> kernel option" where
  "cond_wait w c l k = do {
     kassert (c \<noteq> NULL);
     kassert (l \<noteq> NULL);
     kassert (\<not> in_external_intr k);
     held \<leftarrow> lock_held_by_current_thread l k;
     kassert held;
     k \<leftarrow> sema_init (waiter_sema w) 0 k;
     let k = k\<lparr>cond_waiters := (cond_waiters k)(c := cond_waiters k c @ [w])\<rparr>;
     k \<leftarrow> push_frame (K_lock_acquire l) k;
     k \<leftarrow> push_frame (K_cond_down w) k;
     lock_release l k }"

text \<open>
  The priority of a waiter is that of the first thread in its semaphore; when that thread has
  released the lock but not yet gone to sleep, the read through the empty list yields the
  semaphore's \<open>value\<close>.
\<close>

definition cond_waiter_priority :: "kernel \<Rightarrow> addr \<Rightarrow> int" where
  "cond_waiter_priority k w =
     (case waiters (semas k (waiter_sema w)) of
        [] \<Rightarrow> sint (sema_value (semas k (waiter_sema w)))
      | t # _ \<Rightarrow> prio k t)"

definition cond_signal :: "addr \<Rightarrow> addr \<Rightarrow> kernel \<Rightarrow> kernel option" where
  "cond_signal c l k = do {
     kassert (c \<noteq> NULL);
     kassert (l \<noteq> NULL);
     kassert (\<not> in_external_intr k);
     held \<leftarrow> lock_held_by_current_thread l k;
     kassert held;
     case cond_waiters k c of
       [] \<Rightarrow> Some k
     | w # ws \<Rightarrow> do {
         let mx = max_from (\<lambda>a b. cond_waiter_priority k a < cond_waiter_priority k b) w ws;
         sema_up (waiter_sema mx) (k\<lparr>cond_waiters := (cond_waiters k)(c := remove1 mx (w # ws))\<rparr>) } }"

definition cond_broadcast :: "addr \<Rightarrow> addr \<Rightarrow> kernel \<Rightarrow> kernel option" where
  "cond_broadcast c l k = do {
     kassert (c \<noteq> NULL);
     kassert (l \<noteq> NULL);
     if cond_waiters k c = [] then Some k
     else do { k \<leftarrow> push_frame (K_cond_broadcast c l) k; cond_signal c l k } }"

section \<open>Creating threads\<close>

definition allocate_tid :: "kernel \<Rightarrow> kernel option" where
  "allocate_tid k = lock_acquire (tid_lock k) k"

definition allocate_tid_take :: "addr \<Rightarrow> frame option \<Rightarrow> kernel \<Rightarrow> kernel option" where
  "allocate_tid_take t fn k = do {
     let new_tid = next_tid k;
     k \<leftarrow> push_frame (K_tid_got t new_tid fn) (k\<lparr>next_tid := s32 (new_tid + 1)\<rparr>);
     lock_release (tid_lock k) k }"

text \<open>\<open>page\<close> is what \<open>palloc_get_page (PAL_ZERO)\<close> returned; on \<open>NULL\<close> the call is over (\<open>TID_ERROR\<close>).\<close>

definition thread_create :: "addr \<Rightarrow> string \<Rightarrow> int \<Rightarrow> frame \<Rightarrow> kernel \<Rightarrow> kernel option" where
  "thread_create page nm pri fn k =
     (if page = NULL then Some k
      else do {
        k \<leftarrow> init_thread page nm pri k;
        k \<leftarrow> push_frame (K_tid_take page (Some fn)) k;
        allocate_tid k })"

text \<open>
  Booting: \<open>thread_init\<close> makes the running code the thread \<open>main\<close>, in a page of its own, and
  gives it an identifier; \<open>thread_start\<close> creates the idle thread and waits for it on the
  semaphore \<open>idle_started\<close>.
\<close>

definition blank_kernel :: "bool \<Rightarrow> addr \<Rightarrow> addr \<Rightarrow> kernel" where
  "blank_kernel mlfqs main_page tidlock =
     \<lparr>threads = (\<lambda>_. None), semas = (\<lambda>_. \<lparr>sema_value = 0, waiters = []\<rparr>), holder = (\<lambda>_. NULL),
      cond_waiters = (\<lambda>_. []), ready_list = [], mlfqs_list = (\<lambda>_. []), all_list = [], lock_list = [],
      idle_thread = NULL, initial_thread = main_page, tid_lock = tidlock, next_tid = 1,
      running = main_page, if_flag = False, in_external_intr = False, yield_on_return = False,
      ticks = 0, thread_ticks = 0, idle_ticks = 0, kernel_ticks = 0, thread_mlfqs = mlfqs, load_avg = 0\<rparr>"

definition thread_init :: "bool \<Rightarrow> addr \<Rightarrow> addr \<Rightarrow> kernel option" where
  "thread_init mlfqs main_page tidlock = do {
     k \<leftarrow> lock_init tidlock (blank_kernel mlfqs main_page tidlock);
     k \<leftarrow> init_thread main_page ''main'' PRI_DEFAULT k;
     k \<leftarrow> upd_thread main_page (\<lambda>th. th\<lparr>status := THREAD_RUNNING, frames := [K_body]\<rparr>) k;
     k \<leftarrow> push_frame (K_tid_take main_page None) k;
     allocate_tid k }"

definition thread_start :: "addr \<Rightarrow> addr \<Rightarrow> kernel \<Rightarrow> kernel option" where
  "thread_start page idle_started k = do {
     k \<leftarrow> sema_init idle_started 0 k;
     k \<leftarrow> push_frame (K_start idle_started) k;
     thread_create page ''idle'' PRI_MIN (K_idle idle_started) k }"

definition thread_start_rest :: "addr \<Rightarrow> kernel \<Rightarrow> kernel option" where
  "thread_start_rest idle_started k = do {
     k \<leftarrow> intr_enable k;
     sema_down idle_started k }"

section \<open>The kernel machine\<close>

definition pop_frame :: "kernel \<Rightarrow> (frame \<times> kernel) option" where
  "pop_frame k = do {
     th \<leftarrow> threads k (running k);
     case frames th of
       [] \<Rightarrow> None
     | fr # frs \<Rightarrow> Some (fr, k\<lparr>threads := (threads k)(running k \<mapsto> th\<lparr>frames := frs\<rparr>)\<rparr>) }"

text \<open>
  The idle thread announces itself, then blocks forever; each time it is scheduled it halts
  the processor with interrupts on until the next interrupt.
\<close>

definition run_idle :: "addr \<Rightarrow> kernel \<Rightarrow> kernel option" where
  "run_idle s k = do {
     t \<leftarrow> thread_current k;
     k \<leftarrow> push_frame K_idle_block (k\<lparr>idle_thread := t\<rparr>);
     sema_up s k }"

definition run_idle_block :: "kernel \<Rightarrow> kernel option" where
  "run_idle_block k = do {
     k \<leftarrow> push_frame K_idle_hlt (intr_disable k);
     thread_block k }"

definition run_idle_hlt :: "kernel \<Rightarrow> kernel option" where
  "run_idle_hlt k = push_frame K_idle_block (k\<lparr>if_flag := True\<rparr>)"

fun run_frame :: "frame \<Rightarrow> kernel \<Rightarrow> kernel option" where
  "run_frame K_body k = thread_exit k"
| "run_frame K_kernel_thread k = intr_enable k"
| "run_frame (K_set_level old_level) k = intr_set_level old_level k"
| "run_frame K_iret k = Some (k\<lparr>if_flag := True\<rparr>)"
| "run_frame (K_sema_down s old_level) k = sema_down_loop s old_level k"
| "run_frame (K_lock_donate l) k = lock_acquire_donate l k"
| "run_frame (K_lock_down l) k = lock_acquire_down l k"
| "run_frame (K_lock_held l) k = lock_acquire_held l k"
| "run_frame (K_try_held l) k = lock_try_acquire_held l k"
| "run_frame (K_lock_up l) k = lock_release_up l k"
| "run_frame (K_lock_unlist l) k = lock_release_unlist l k"
| "run_frame (K_cond_down w) k = sema_down (waiter_sema w) k"
| "run_frame (K_lock_acquire l) k = lock_acquire l k"
| "run_frame (K_cond_broadcast c l) k = cond_broadcast c l k"
| "run_frame (K_tid_take t fn) k = allocate_tid_take t fn k"
| "run_frame (K_tid_got t new_tid None) k = upd_thread t (tid_update (\<lambda>_. new_tid)) k"
| "run_frame (K_tid_got t new_tid (Some fn)) k = thread_create_rest t new_tid fn k"
| "run_frame (K_start s) k = thread_start_rest s k"
| "run_frame (K_idle s) k = run_idle s k"
| "run_frame K_idle_block k = run_idle_block k"
| "run_frame K_idle_hlt k = run_idle_hlt k"

datatype call =
    Sema_down addr | Sema_try_down addr | Sema_up addr
  | Lock_acquire addr | Lock_try_acquire addr | Lock_release addr
  | Cond_wait addr addr addr | Cond_signal addr addr | Cond_broadcast addr addr
  | Thread_start addr addr | Thread_create addr string int frame | Thread_yield | Thread_exit
  | Thread_set_priority int int | Thread_set_nice int | Timer_sleep int

fun run_call :: "call \<Rightarrow> kernel \<Rightarrow> kernel option" where
  "run_call (Sema_down s) k = sema_down s k"
| "run_call (Sema_try_down s) k = map_option snd (sema_try_down s k)"
| "run_call (Sema_up s) k = sema_up s k"
| "run_call (Lock_acquire l) k = lock_acquire l k"
| "run_call (Lock_try_acquire l) k = map_option snd (lock_try_acquire l k)"
| "run_call (Lock_release l) k = lock_release l k"
| "run_call (Cond_wait w c l) k = cond_wait w c l k"
| "run_call (Cond_signal c l) k = cond_signal c l k"
| "run_call (Cond_broadcast c l) k = cond_broadcast c l k"
| "run_call (Thread_start page s) k = thread_start page s k"
| "run_call (Thread_create page nm pri fn) k = thread_create page nm pri fn k"
| "run_call Thread_yield k = thread_yield k"
| "run_call Thread_exit k = thread_exit k"
| "run_call (Thread_set_priority stray p) k = thread_set_priority stray p k"
| "run_call (Thread_set_nice n) k = thread_set_nice n k"
| "run_call (Timer_sleep n) k = timer_sleep n k"

text \<open>One event of the machine: a thread in its own code calls the kernel; the running thread
  resumes its innermost frame; the timer interrupts, which needs interrupts to be on.\<close>

datatype event = Call call | Resume | Tick

definition in_body :: "kernel \<Rightarrow> bool" where
  "in_body k \<longleftrightarrow> (case threads k (running k) of None \<Rightarrow> False | Some th \<Rightarrow> frames th \<noteq> [] \<and> hd (frames th) = K_body)"

fun kexec :: "event \<Rightarrow> kernel \<Rightarrow> kernel option" where
  "kexec (Call c) k = do { kassert (in_body k); run_call c k }"
| "kexec Resume k = do { (fr, k) \<leftarrow> pop_frame k; run_frame fr k }"
| "kexec Tick k = do { kassert (if_flag k); intr_handler_ext timer_interrupt k }"

fun krun :: "event list \<Rightarrow> kernel \<Rightarrow> kernel option" where
  "krun [] k = Some k"
| "krun (e # es) k = do { k \<leftarrow> kexec e k; krun es k }"

end
