(* ===== verification/Kernel_Inv.thy ===== *)
theory Kernel_Inv
  imports Synch
begin

text \<open>
  The invariant of the thread system and that every event of the kernel machine preserves
  it. \<open>L\<close> is the set of the addresses of the kernel's locks.
\<close>

section \<open>Counting frames\<close>

definition fcount :: "(frame \<Rightarrow> bool) \<Rightarrow> (addr \<Rightarrow> thread option) \<Rightarrow> nat" where
  "fcount P T = (\<Sum>t\<in>dom T. length (filter P (frames (the (T t)))))"

lemma fcount_upd:
  assumes "finite (dom T)" "T t = Some th"
  shows "fcount P (T(t \<mapsto> th')) + length (filter P (frames th)) =
    fcount P T + length (filter P (frames th'))"
proof -
  have d: "t \<in> dom T" using assms(2) by blast
  then have "dom (T(t \<mapsto> th')) = dom T" by auto
  then show ?thesis
    using assms(2) sum.remove [OF assms(1) d, of "\<lambda>x. length (filter P (frames (the (T x))))"]
      sum.remove [OF assms(1) d, of "\<lambda>x. length (filter P (frames (the ((T(t \<mapsto> th')) x))))"]
    by (simp add: fcount_def)
qed

lemma fcount_same:
  assumes "finite (dom T)" "T t = Some th" "filter P (frames th') = filter P (frames th)"
  shows "fcount P (T(t \<mapsto> th')) = fcount P T"
  using fcount_upd [OF assms(1,2), of P th'] assms(3) by simp

lemma fcount_new:
  assumes "finite (dom T)" "T t = None"
  shows "fcount P (T(t \<mapsto> th)) = fcount P T + length (filter P (frames th))"
proof -
  have "fcount P (T(t \<mapsto> th)) =
      length (filter P (frames th)) + (\<Sum>x\<in>dom T. length (filter P (frames (the ((T(t \<mapsto> th)) x)))))"
    using assms by (simp add: fcount_def domIff)
  also have "(\<Sum>x\<in>dom T. length (filter P (frames (the ((T(t \<mapsto> th)) x))))) = fcount P T"
    unfolding fcount_def using assms(2) by (intro sum.cong) (auto simp: domIff)
  finally show ?thesis by (simp only: add.commute)
qed

lemma fcount_free:
  assumes "finite (dom T)" "T t = Some th" "filter P (frames th) = []"
  shows "fcount P (T(t := None)) = fcount P T"
proof -
  have d: "t \<in> dom T" using assms(2) by blast
  have "fcount P (T(t := None)) = (\<Sum>x\<in>dom T - {t}. length (filter P (frames (the (T x)))))"
    unfolding fcount_def by (intro sum.cong) auto
  then show ?thesis
    using assms(2,3) sum.remove [OF assms(1) d, of "\<lambda>x. length (filter P (frames (the (T x))))"]
    by (simp add: fcount_def)
qed

lemma fcount_ge:
  assumes "finite (dom T)" "T t = Some th"
  shows "length (filter P (frames th)) \<le> fcount P T"
  using assms member_le_sum [of t "dom T" "\<lambda>x. length (filter P (frames (the (T x))))"]
  by (fastforce simp: fcount_def)

lemma fcount_mono:
  assumes "\<And>t th. T t = Some th \<Longrightarrow> length (filter P (frames th)) \<le> length (filter Q (frames th))"
  shows "fcount P T \<le> fcount Q T"
  unfolding fcount_def by (rule sum_mono) (use assms in auto)

section \<open>The ready queue as one list\<close>

definition readyq :: "kernel \<Rightarrow> addr list" where
  "readyq k = (if thread_mlfqs k then concat (map (mlfqs_list k) [0..<64]) else ready_list k)"

lemma mset_concat_upd:
  assumes "p < n"
  shows "mset (concat (map (f(p := xs)) [0..<n])) + mset (f p) = mset (concat (map f [0..<n])) + mset xs"
proof -
  have sum: "mset (concat (map g [0..<n])) = (\<Sum>i\<in>{..<n}. mset (g i))" for g :: "nat \<Rightarrow> 'a list"
    by (induction n) (simp_all add: lessThan_Suc add.commute)
  have p: "p \<in> {..<n}" using assms by simp
  show ?thesis
    unfolding sum using sum.remove [OF _ p, of "\<lambda>i. mset ((f(p := xs)) i)"] sum.remove [OF _ p, of "\<lambda>i. mset (f i)"]
    by (simp add: ac_simps)
qed

lemma enqueue_ready_mset:
  assumes "enqueue_ready t k = Some k'"
  shows "mset (readyq k') = add_mset t (mset (readyq k))"
    and "\<exists>qs m. k' = k\<lparr>ready_list := qs, mlfqs_list := m\<rparr>"
proof -
  obtain th where th: "threads k t = Some th" using assms by (auto simp: enqueue_ready_def bind_eq_Some_conv)
  show "mset (readyq k') = add_mset t (mset (readyq k))"
  proof (cases "thread_mlfqs k")
    case True
    define p where "p = nat (priority th)"
    have p: "p < 64" and k': "k' = k\<lparr>mlfqs_list := (mlfqs_list k)(p := mlfqs_list k p @ [t])\<rparr>"
      using assms th True by (auto simp: enqueue_ready_def p_def bind_eq_Some_conv)
    show ?thesis using mset_concat_upd [OF p, of "mlfqs_list k" "mlfqs_list k p @ [t]"] True k'
      by (simp add: readyq_def)
  next
    case False
    then show ?thesis using assms th by (auto simp: enqueue_ready_def readyq_def)
  qed
  show "\<exists>qs m. k' = k\<lparr>ready_list := qs, mlfqs_list := m\<rparr>"
  proof (cases "thread_mlfqs k")
    case True
    then have "k' = k\<lparr>ready_list := ready_list k, mlfqs_list := mlfqs_list k'\<rparr>"
      using assms th by (auto simp: enqueue_ready_def bind_eq_Some_conv)
    then show ?thesis by blast
  next
    case False
    then have "k' = k\<lparr>ready_list := ready_list k', mlfqs_list := mlfqs_list k\<rparr>"
      using assms th by (auto simp: enqueue_ready_def bind_eq_Some_conv)
    then show ?thesis by blast
  qed
qed

lemma max_thread_mem: "max_thread k ts = Some t \<Longrightarrow> t \<in> set ts"
proof (cases ts)
  case (Cons x xs)
  have "max_from lt y ys \<in> insert y (set ys)" for lt y and ys :: "addr list"
    by (induction ys arbitrary: y) auto
  then show "max_thread k ts = Some t \<Longrightarrow> t \<in> set ts" using Cons by (auto split: if_splits)
qed simp

lemma next_thread_to_run_cases:
  assumes "next_thread_to_run k = Some (nxt, k')"
  shows "readyq k = [] \<and> nxt = idle_thread k \<and> k' = k \<or>
    mset (readyq k) = add_mset nxt (mset (readyq k')) \<and> (\<exists>qs m. k' = k\<lparr>ready_list := qs, mlfqs_list := m\<rparr>)"
proof (cases "thread_mlfqs k")
  case True
  show ?thesis
  proof (cases "find (\<lambda>i. mlfqs_list k (63 - i) \<noteq> []) [0..<64]")
    case None
    then have none: "\<forall>i\<in>set [0..<64]. mlfqs_list k (63 - i) = []" by (simp add: find_None_iff)
    have "mlfqs_list k p = []" if "p < 64" for p
      using bspec [OF none, of "63 - p"] that by simp
    then have "readyq k = []" using True by (simp add: readyq_def)
    then show ?thesis using assms True None by (auto simp: next_thread_to_run_def)
  next
    case (Some i)
    define p where "p = 63 - i"
    have q: "mlfqs_list k p \<noteq> []" using Some by (auto simp: find_Some_iff p_def)
    have k': "nxt = hd (mlfqs_list k p)" "k' = k\<lparr>mlfqs_list := (mlfqs_list k)(p := tl (mlfqs_list k p))\<rparr>"
      using assms True Some by (simp_all add: next_thread_to_run_def p_def)
    have "p < 64" by (simp add: p_def)
    from mset_concat_upd [OF this, of "mlfqs_list k" "tl (mlfqs_list k p)"]
    have "mset (readyq k) = add_mset nxt (mset (readyq k'))"
      using True q k' by (cases "mlfqs_list k p") (simp_all add: readyq_def)
    moreover have "k' = k\<lparr>ready_list := ready_list k, mlfqs_list := mlfqs_list k'\<rparr>" using k' by simp
    ultimately show ?thesis by blast
  qed
next
  case False
  show ?thesis
  proof (cases "ready_list k = []")
    case True
    then show ?thesis using assms False by (auto simp: next_thread_to_run_def readyq_def)
  next
    case nonempty: False
    then have m: "max_thread k (ready_list k) = Some nxt" "k' = k\<lparr>ready_list := remove1 nxt (ready_list k)\<rparr>"
      using assms False by (auto simp: next_thread_to_run_def bind_eq_Some_conv)
    have "nxt \<in> set (ready_list k)" using m(1) by (rule max_thread_mem)
    then have "mset (readyq k) = add_mset nxt (mset (readyq k'))" using False m(2) by (simp add: readyq_def)
    moreover have "k' = k\<lparr>ready_list := ready_list k', mlfqs_list := mlfqs_list k\<rparr>" using m(2) by simp
    ultimately show ?thesis by blast
  qed
qed

section \<open>The invariant\<close>

fun creates :: "frame \<Rightarrow> addr \<Rightarrow> bool" where
  "creates (K_tid_take t fn) t' \<longleftrightarrow> t = t'"
| "creates (K_tid_got t i fn) t' \<longleftrightarrow> t = t'"
| "creates _ t' \<longleftrightarrow> False"

fun waits :: "addr \<Rightarrow> frame \<Rightarrow> bool" where
  "waits s (K_sema_down s' lv) \<longleftrightarrow> s' = s"
| "waits s _ \<longleftrightarrow> False"

fun takes :: "addr \<Rightarrow> frame \<Rightarrow> bool" where
  "takes l (K_lock_held l') \<longleftrightarrow> l' = l"
| "takes l (K_try_held l') \<longleftrightarrow> l' = l"
| "takes l _ \<longleftrightarrow> False"

fun frame_ok :: "addr set \<Rightarrow> frame \<Rightarrow> bool" where
  "frame_ok L (K_lock_donate l) \<longleftrightarrow> l \<in> L"
| "frame_ok L (K_lock_down l) \<longleftrightarrow> l \<in> L"
| "frame_ok L (K_lock_held l) \<longleftrightarrow> l \<in> L"
| "frame_ok L (K_try_held l) \<longleftrightarrow> l \<in> L"
| "frame_ok L (K_lock_up l) \<longleftrightarrow> l \<in> L"
| "frame_ok L (K_lock_unlist l) \<longleftrightarrow> l \<in> L"
| "frame_ok L (K_lock_acquire l) \<longleftrightarrow> l \<in> L"
| "frame_ok L (K_cond_down w) \<longleftrightarrow> waiter_sema w \<notin> lock_sema ` L"
| "frame_ok L (K_tid_take t fn) \<longleftrightarrow> fn = Some K_body"
| "frame_ok L (K_tid_got t i fn) \<longleftrightarrow> fn = Some K_body"
| "frame_ok L (K_idle s) \<longleftrightarrow> False"
| "frame_ok L (K_start s) \<longleftrightarrow> False"
| "frame_ok L _ \<longleftrightarrow> True"

fun stack_ok :: "addr set \<Rightarrow> frame list \<Rightarrow> bool" where
  "stack_ok L [] \<longleftrightarrow> True"
| "stack_ok L (fr # frs) \<longleftrightarrow>
     frame_ok L fr \<and> (fr = K_body \<longrightarrow> frs = []) \<and>
     (\<forall>l\<in>L. waits (lock_sema l) fr \<longrightarrow> (\<exists>bs. frs = K_lock_held l # bs)) \<and> stack_ok L frs"

definition idle_frames :: "frame set" where
  "idle_frames = {K_idle_block, K_idle_hlt, K_iret, K_set_level True, K_set_level False}"

definition threads_ok :: "kernel \<Rightarrow> bool" where
  "threads_ok k \<longleftrightarrow>
     finite (dom (threads k)) \<and> threads k NULL = None \<and>
     (\<forall>t th. threads k t = Some th \<longrightarrow> magic th = THREAD_MAGIC)"

definition run_ok :: "kernel \<Rightarrow> bool" where
  "run_ok k \<longleftrightarrow>
     alive k (running k) \<and>
     (\<forall>t th. threads k t = Some th \<longrightarrow> status th = THREAD_RUNNING \<longrightarrow> t = running k)"

definition ready_set :: "kernel \<Rightarrow> addr set" where
  "ready_set k = {t. t \<noteq> idle_thread k \<and> (\<exists>th. threads k t = Some th \<and> status th = THREAD_READY)}"

definition ready_ok :: "kernel \<Rightarrow> bool" where
  "ready_ok k \<longleftrightarrow> mset (readyq k) = mset_set (ready_set k)"

definition waiters_ok :: "kernel \<Rightarrow> bool" where
  "waiters_ok k \<longleftrightarrow>
     (\<forall>s. distinct (waiters (semas k s)) \<and>
        (\<forall>t\<in>set (waiters (semas k s)). \<exists>th lv frs. threads k t = Some th \<and>
           status th = THREAD_BLOCKED \<and> sleep_ticks th = 0 \<and> frames th = K_sema_down s lv # frs))"

definition sleep_ok :: "kernel \<Rightarrow> bool" where
  "sleep_ok k \<longleftrightarrow>
     (\<forall>t th. threads k t = Some th \<longrightarrow> status th \<noteq> THREAD_BLOCKED \<longrightarrow> sleep_ticks th = 0)"

definition dying_ok :: "kernel \<Rightarrow> bool" where
  "dying_ok k \<longleftrightarrow>
     (\<forall>t th. threads k t = Some th \<longrightarrow> status th = THREAD_DYING \<longrightarrow>
        (t = initial_thread k \<or> t = running k) \<and> t \<noteq> idle_thread k \<and> set (frames th) \<subseteq> {K_body})"

definition all_ok :: "kernel \<Rightarrow> bool" where
  "all_ok k \<longleftrightarrow>
     distinct (all_list k) \<and>
     (\<forall>t. t \<in> set (all_list k) \<longleftrightarrow> (\<exists>th. threads k t = Some th \<and> status th \<noteq> THREAD_DYING))"

definition idle_ok :: "kernel \<Rightarrow> bool" where
  "idle_ok k \<longleftrightarrow>
     (\<exists>th. threads k (idle_thread k) = Some th \<and> sleep_ticks th = 0 \<and> set (frames th) \<subseteq> idle_frames)"

definition create_ok :: "kernel \<Rightarrow> bool" where
  "create_ok k \<longleftrightarrow>
     (\<forall>x thx fr t. threads k x = Some thx \<longrightarrow> fr \<in> set (frames thx) \<longrightarrow> creates fr t \<longrightarrow>
        t \<noteq> idle_thread k \<and> t \<noteq> running k \<and>
        (\<exists>th. threads k t = Some th \<and> status th = THREAD_BLOCKED \<and> sleep_ticks th = 0 \<and> frames th = [])) \<and>
     (\<forall>t. fcount (\<lambda>fr. creates fr t) (threads k) \<le> 1)"

definition stacks_ok :: "addr set \<Rightarrow> kernel \<Rightarrow> bool" where
  "stacks_ok L k \<longleftrightarrow> (\<forall>t th. threads k t = Some th \<longrightarrow> stack_ok L (frames th))"

definition conds_ok :: "addr set \<Rightarrow> kernel \<Rightarrow> bool" where
  "conds_ok L k \<longleftrightarrow> (\<forall>c. \<forall>w\<in>set (cond_waiters k c). waiter_sema w \<notin> lock_sema ` L)"

text \<open>
  Mutual exclusion: of the value of a lock's semaphore, its holder, the threads that have the
  semaphore but are not yet recorded as holder, and the threads that are no longer recorded
  but have not yet given the semaphore back, there is always exactly one.
\<close>

definition tokens :: "kernel \<Rightarrow> addr \<Rightarrow> nat" where
  "tokens k l =
     unat (sema_value (semas k (lock_sema l))) + of_bool (holder k l \<noteq> NULL) +
     fcount (takes l) (threads k) + fcount ((=) (K_lock_up l)) (threads k)"

definition mutex_ok :: "addr set \<Rightarrow> kernel \<Rightarrow> bool" where
  "mutex_ok L k \<longleftrightarrow> (\<forall>l\<in>L. tokens k l = 1 + fcount (waits (lock_sema l)) (threads k))"

text \<open>
  No wakeup is lost: while threads sleep on a semaphore, its value does not exceed the number
  of threads already woken that are about to look at it again.
\<close>

definition wake_ok :: "kernel \<Rightarrow> bool" where
  "wake_ok k \<longleftrightarrow>
     (\<forall>s. waiters (semas k s) \<noteq> [] \<longrightarrow>
        unat (sema_value (semas k s)) + length (waiters (semas k s)) \<le> fcount (waits s) (threads k))"

definition kinv0 :: "addr set \<Rightarrow> kernel \<Rightarrow> bool" where
  "kinv0 L k \<longleftrightarrow>
     tid_lock k \<in> L \<and>
     threads_ok k \<and> run_ok k \<and> ready_ok k \<and> waiters_ok k \<and> sleep_ok k \<and> dying_ok k \<and>
     all_ok k \<and> idle_ok k \<and> create_ok k \<and> stacks_ok L k \<and> conds_ok L k \<and> mutex_ok L k \<and> wake_ok k"

definition kinv :: "addr set \<Rightarrow> kernel \<Rightarrow> bool" where
  "kinv L k \<longleftrightarrow> kinv0 L k \<and> map_option status (threads k (running k)) = Some THREAD_RUNNING"

lemmas kinv_parts = threads_ok_def run_ok_def ready_ok_def waiters_ok_def sleep_ok_def dying_ok_def
  all_ok_def idle_ok_def create_ok_def stacks_ok_def conds_ok_def

lemma kinv0I:
  assumes "tid_lock k \<in> L" "threads_ok k" "run_ok k" "ready_ok k" "waiters_ok k" "sleep_ok k" "dying_ok k"
    "all_ok k" "idle_ok k" "create_ok k" "stacks_ok L k" "conds_ok L k" "mutex_ok L k" "wake_ok k"
  shows "kinv0 L k"
  using assms by (simp add: kinv0_def)

lemma kinv0D:
  assumes "kinv0 L k"
  shows "tid_lock k \<in> L" "threads_ok k" "run_ok k" "ready_ok k" "waiters_ok k" "sleep_ok k" "dying_ok k"
    "all_ok k" "idle_ok k" "create_ok k" "stacks_ok L k" "conds_ok L k" "mutex_ok L k" "wake_ok k"
  using assms by (simp_all add: kinv0_def)

lemma finite_threads [simp]: "kinv0 L k \<Longrightarrow> finite (dom (threads k))"
  by (simp add: kinv0_def threads_ok_def)

lemma finite_ready_set [simp]: "finite (dom (threads k)) \<Longrightarrow> finite (ready_set k)"
  by (rule finite_subset [where B = "dom (threads k)"]) (auto simp: ready_set_def)

lemma threads_okD:
  assumes "kinv0 L k"
  shows "threads k NULL = None" "threads k t = Some th \<Longrightarrow> magic th = THREAD_MAGIC"
  using assms by (auto simp: kinv0_def threads_ok_def)

lemma idle_not_ready: "idle_thread k \<notin> ready_set k"
  by (simp add: ready_set_def)

lemma waiters_okD:
  assumes "kinv0 L k" "t \<in> set (waiters (semas k s))"
  shows "\<exists>th lv frs. threads k t = Some th \<and> status th = THREAD_BLOCKED \<and> sleep_ticks th = 0 \<and>
    frames th = K_sema_down s lv # frs"
  using kinv0D(5) [OF assms(1)] assms(2) unfolding waiters_ok_def by blast

section \<open>Scheduling\<close>

text \<open>What \<open>schedule\<close> does to the threads: the chosen one runs, a dying one is gone.\<close>

lemma schedule_threads:
  assumes s: "schedule k = Some k'"
  shows "\<exists>nxt k1 n c T. next_thread_to_run k = Some (nxt, k1) \<and> threads k (running k) = Some c \<and>
    status c \<noteq> THREAD_RUNNING \<and> is_thread k1 nxt \<and> threads k1 nxt = Some n \<and> \<not> if_flag k1 \<and>
    k' = k1\<lparr>running := nxt, thread_ticks := 0, threads := T\<rparr> \<and>
    (T = (threads k1)(nxt \<mapsto> n\<lparr>status := THREAD_RUNNING\<rparr>) \<and>
       (running k = nxt \<or> running k = initial_thread k1 \<or> status c \<noteq> THREAD_DYING \<or> running k = NULL) \<or>
     T = (threads k1)(nxt \<mapsto> n\<lparr>status := THREAD_RUNNING\<rparr>, running k := None) \<and>
       running k \<noteq> nxt \<and> running k \<noteq> initial_thread k1 \<and> status c = THREAD_DYING)"
proof -
  obtain nxt k1 where n: "next_thread_to_run k = Some (nxt, k1)"
    using s by (auto simp: schedule_def Let_def bind_eq_Some_conv)
  then have k1: "\<exists>qs m. k1 = k\<lparr>ready_list := qs, mlfqs_list := m\<rparr>"
    using next_thread_to_run_cases [OF n] by (metis kernel.surjective kernel.update_convs(5,6))
  then have same: "threads k1 = threads k" "running k1 = running k" by auto
  obtain c where c: "threads k (running k) = Some c" "status c \<noteq> THREAD_RUNNING" "is_thread k1 nxt" "\<not> if_flag k1"
    using s n same by (auto simp: schedule_def Let_def bind_eq_Some_conv)
  obtain nn where nn: "threads k1 nxt = Some nn"
    using c(3) by (auto simp: is_thread_def split: option.splits)
  show ?thesis
  proof (cases "running k = nxt")
    case True
    have "thread_schedule_tail NULL k1 = Some k'" using s n c same True
      by (simp add: schedule_def Let_def)
    then have "k' = k1\<lparr>running := nxt, thread_ticks := 0, threads := (threads k1)(nxt \<mapsto> nn\<lparr>status := THREAD_RUNNING\<rparr>)\<rparr>"
      using nn c(4) same True by (auto simp: thread_schedule_tail_def Let_def upd_thread_def)
    then show ?thesis using n c nn True by blast
  next
    case False
    have tail: "thread_schedule_tail (running k) (k1\<lparr>running := nxt\<rparr>) = Some k'" using s n c same False
      by (simp add: schedule_def Let_def)
    then show ?thesis
    proof (cases "running k \<noteq> NULL \<and> running k \<noteq> initial_thread k1 \<and> status c = THREAD_DYING")
      case True
      then have "k' = k1\<lparr>running := nxt, thread_ticks := 0,
          threads := (threads k1)(nxt \<mapsto> nn\<lparr>status := THREAD_RUNNING\<rparr>, running k := None)\<rparr>"
        using tail nn c same False by (auto simp: thread_schedule_tail_def Let_def upd_thread_def)
      then show ?thesis using n c nn True False by blast
    next
      case keep: False
      then have "k' = k1\<lparr>running := nxt, thread_ticks := 0, threads := (threads k1)(nxt \<mapsto> nn\<lparr>status := THREAD_RUNNING\<rparr>)\<rparr>"
        using tail nn c same False
        by (auto simp: thread_schedule_tail_def Let_def upd_thread_def split: if_splits)
      then show ?thesis using n c nn keep by blast
    qed
  qed
qed

lemma readyq_update [simp]:
  "readyq (k\<lparr>running := x\<rparr>) = readyq k" "readyq (k\<lparr>thread_ticks := y\<rparr>) = readyq k" "readyq (k\<lparr>threads := T\<rparr>) = readyq k"
  "readyq (k\<lparr>semas := S\<rparr>) = readyq k" "readyq (k\<lparr>holder := H\<rparr>) = readyq k" "readyq (k\<lparr>cond_waiters := C\<rparr>) = readyq k"
  "readyq (k\<lparr>lock_list := ls\<rparr>) = readyq k" "readyq (k\<lparr>all_list := ts\<rparr>) = readyq k" "readyq (k\<lparr>if_flag := b\<rparr>) = readyq k"
  "readyq (k\<lparr>in_external_intr := b\<rparr>) = readyq k" "readyq (k\<lparr>yield_on_return := b\<rparr>) = readyq k"
  "readyq (k\<lparr>ticks := i\<rparr>) = readyq k" "readyq (k\<lparr>idle_ticks := i\<rparr>) = readyq k" "readyq (k\<lparr>kernel_ticks := i\<rparr>) = readyq k"
  "readyq (k\<lparr>load_avg := i\<rparr>) = readyq k" "readyq (k\<lparr>next_tid := i\<rparr>) = readyq k"
  by (simp_all add: readyq_def)

lemma mutex_wake_cong:
  assumes "\<And>P. \<not> P K_body \<Longrightarrow> fcount P (threads k') = fcount P (threads k)"
    and "semas k' = semas k" "holder k' = holder k"
  shows "mutex_ok L k' = mutex_ok L k" "wake_ok k' = wake_ok k"
  by (simp_all add: mutex_ok_def tokens_def wake_ok_def assms)

text \<open>The invariant after a switch to \<open>nxt\<close>, the old running thread possibly freed.\<close>

lemma switch_inv:
  assumes inv: "kinv0 L k"
    and nxt: "threads k nxt = Some n" "nxt \<noteq> idle_thread k \<Longrightarrow> status n = THREAD_READY"
    and rq: "mset (readyq k') = mset_set (ready_set k - {nxt})"
    and cur: "threads k (running k) = Some c" "status c \<noteq> THREAD_RUNNING"
    and T: "T nxt = Some (n\<lparr>status := THREAD_RUNNING\<rparr>)"
      "\<And>t th. t \<noteq> nxt \<Longrightarrow> T t = Some th \<Longrightarrow> threads k t = Some th"
      "\<And>t th. t \<noteq> nxt \<Longrightarrow> threads k t = Some th \<Longrightarrow> status th \<noteq> THREAD_DYING \<or> t = initial_thread k \<Longrightarrow> T t = Some th"
      "\<And>t th. t \<noteq> nxt \<Longrightarrow> T t = Some th \<Longrightarrow> status th = THREAD_DYING \<Longrightarrow> t = initial_thread k"
    and cnt: "\<And>P. \<not> P K_body \<Longrightarrow> fcount P T = fcount P (threads k)"
    and k': "threads k' = T" "running k' = nxt" "semas k' = semas k" "holder k' = holder k"
      "cond_waiters k' = cond_waiters k" "all_list k' = all_list k" "idle_thread k' = idle_thread k"
      "initial_thread k' = initial_thread k" "tid_lock k' = tid_lock k"
  shows "kinv L k'"
proof -
  note parts = kinv0D [OF inv]
  obtain ith where idle: "threads k (idle_thread k) = Some ith" "sleep_ticks ith = 0" "set (frames ith) \<subseteq> idle_frames"
    using parts(9) by (auto simp: idle_ok_def)
  have nok: "magic n = THREAD_MAGIC" "nxt \<noteq> NULL" using threads_okD [OF inv] nxt(1) by auto
  have nodie: "status n \<noteq> THREAD_DYING"
    using nxt parts(7) by (cases "nxt = idle_thread k") (auto simp: dying_ok_def)
  have nwait: "nxt \<notin> set (waiters (semas k s))" for s
  proof
    assume "nxt \<in> set (waiters (semas k s))"
    then obtain lv frs where w: "status n = THREAD_BLOCKED" "frames n = K_sema_down s lv # frs"
      using waiters_okD [OF inv] nxt(1) by fastforce
    then have "nxt = idle_thread k" using nxt(2) by fastforce
    then show False using idle nxt(1) w(2) by (auto simp: idle_frames_def)
  qed
  have ncreate: "nxt \<noteq> t" if "threads k x = Some thx" "fr \<in> set (frames thx)" "creates fr t" for x thx fr t
  proof -
    have c: "t \<noteq> idle_thread k \<and> (\<exists>th. threads k t = Some th \<and> status th = THREAD_BLOCKED)"
      using parts(10) that unfolding create_ok_def by blast
    show ?thesis
    proof
      assume "nxt = t"
      then show False using c nxt by auto
    qed
  qed
  have nsleep: "sleep_ticks n = 0"
  proof (cases "nxt = idle_thread k")
    case True
    then show ?thesis using idle nxt(1) by simp
  next
    case False
    then show ?thesis using parts(6) nxt by (simp add: sleep_ok_def)
  qed
  have Tiff: "(\<exists>th. T t = Some th \<and> Q th) \<longleftrightarrow> (\<exists>th. threads k t = Some th \<and> Q th)"
    if t: "t \<noteq> nxt" and Q: "\<And>th. Q th \<Longrightarrow> status th \<noteq> THREAD_DYING" for t and Q :: "thread \<Rightarrow> bool"
  proof
    assume "\<exists>th. T t = Some th \<and> Q th"
    then show "\<exists>th. threads k t = Some th \<and> Q th" using T(2) [OF t] by blast
  next
    assume "\<exists>th. threads k t = Some th \<and> Q th"
    then obtain th where "threads k t = Some th" "Q th" by blast
    then show "\<exists>th. T t = Some th \<and> Q th" using T(3) [OF t] Q by blast
  qed
  have rs: "ready_set k' = ready_set k - {nxt}"
  proof (rule set_eqI)
    fix t
    show "t \<in> ready_set k' \<longleftrightarrow> t \<in> ready_set k - {nxt}"
    proof (cases "t = nxt")
      case True
      then show ?thesis using T(1) k' by (simp add: ready_set_def)
    next
      case False
      then show ?thesis using Tiff [OF False, of "\<lambda>th. status th = THREAD_READY"] k' by (simp add: ready_set_def)
    qed
  qed
  have Tc: "t = nxt \<and> th = n\<lparr>status := THREAD_RUNNING\<rparr> \<or> t \<noteq> nxt \<and> threads k t = Some th" if "T t = Some th" for t th
    using that T(1,2) by (cases "t = nxt") auto
  have Tall: "Q th" if "T t = Some th" "\<And>t th. threads k t = Some th \<Longrightarrow> Q th" "Q n \<Longrightarrow> Q (n\<lparr>status := THREAD_RUNNING\<rparr>)"
    for t th and Q :: "thread \<Rightarrow> bool"
    using Tc [OF that(1)] that(2) [of t th] that(2) [OF nxt(1)] that(3) by auto
  have "kinv0 L k'"
  proof (rule kinv0I)
    show "tid_lock k' \<in> L" using parts(1) k' by simp
    have "dom T \<subseteq> dom (threads k)" using Tc nxt(1) by blast
    then have "finite (dom T)" using inv finite_subset [OF _ finite_threads] by blast
    moreover have "T NULL = None" using Tc nok threads_okD(1) [OF inv] by (metis not_None_eq)
    moreover have "magic th = THREAD_MAGIC" if "T t = Some th" for t th
      by (rule Tall [OF that]) (simp_all add: threads_okD [OF inv])
    ultimately show "threads_ok k'" using k' by (simp add: threads_ok_def)
    have "t = nxt" if "T t = Some th" "status th = THREAD_RUNNING" for t th
    proof (rule ccontr)
      assume "t \<noteq> nxt"
      then have "threads k t = Some th" using Tc that(1) by blast
      moreover from this have "t = running k" using parts(3) that(2) by (simp add: run_ok_def)
      ultimately show False using cur that(2) by simp
    qed
    then have "\<forall>t th. T t = Some th \<longrightarrow> status th = THREAD_RUNNING \<longrightarrow> t = nxt" by blast
    moreover have "T nxt \<noteq> None" using T(1) by simp
    ultimately show "run_ok k'" unfolding run_ok_def alive_def k' by blast
    show "ready_ok k'" using rq rs by (simp add: ready_ok_def)
    show "waiters_ok k'" unfolding waiters_ok_def k'
    proof (intro allI conjI ballI)
      fix s t
      show "distinct (waiters (semas k s))" using parts(5) by (simp add: waiters_ok_def)
      assume t: "t \<in> set (waiters (semas k s))"
      then obtain th lv frs where th: "threads k t = Some th" "status th = THREAD_BLOCKED" "sleep_ticks th = 0" "frames th = K_sema_down s lv # frs"
        using waiters_okD [OF inv t] by blast
      moreover have "T t = Some th" using T(3) [OF _ th(1)] nwait t th(2) by fastforce
      ultimately show "\<exists>th lv frs. T t = Some th \<and> status th = THREAD_BLOCKED \<and> sleep_ticks th = 0 \<and> frames th = K_sema_down s lv # frs"
        by blast
    qed
    have "status th \<noteq> THREAD_BLOCKED \<longrightarrow> sleep_ticks th = 0" if "T t = Some th" for t th
      by (rule Tall [OF that]) (use parts(6) nsleep in \<open>auto simp: sleep_ok_def\<close>)
    then show "sleep_ok k'" using k' by (simp add: sleep_ok_def)
    show "dying_ok k'" unfolding dying_ok_def k'
    proof (intro allI impI)
      fix t th
      assume d: "T t = Some th" "status th = THREAD_DYING"
      then have t: "t \<noteq> nxt" using T(1) by auto
      then have "threads k t = Some th" using T(2) d(1) by blast
      then show "(t = initial_thread k \<or> t = nxt) \<and> t \<noteq> idle_thread k \<and> set (frames th) \<subseteq> {K_body}"
        using parts(7) T(4) [OF t d] d(2) by (auto simp: dying_ok_def)
    qed
    have "(\<exists>th. T t = Some th \<and> status th \<noteq> THREAD_DYING) \<longleftrightarrow> (\<exists>th. threads k t = Some th \<and> status th \<noteq> THREAD_DYING)" for t
    proof (cases "t = nxt")
      case True
      then show ?thesis using T(1) nxt(1) nodie by simp
    next
      case False
      then show ?thesis by (rule Tiff)
    qed
    then show "all_ok k'" using parts(8) k' by (simp add: all_ok_def)
    have "status ith \<noteq> THREAD_DYING" using parts(7) idle(1) by (auto simp: dying_ok_def)
    then show "idle_ok k'" using idle T(1) T(3) [OF _ idle(1)] nxt(1) k'
      by (cases "idle_thread k = nxt") (auto simp: idle_ok_def)
    show "create_ok k'" unfolding create_ok_def k'
    proof (intro conjI allI impI)
      fix x thx fr t
      assume x: "T x = Some thx" "fr \<in> set (frames thx)" "creates fr t"
      have "\<exists>y thy. threads k y = Some thy \<and> fr \<in> set (frames thy)"
        using Tc [OF x(1)] x(2) nxt(1) by (cases "x = nxt") (auto intro: exI [of _ nxt])
      then obtain y thy where y: "threads k y = Some thy" "fr \<in> set (frames thy)" by blast
      then have c: "t \<noteq> idle_thread k" "\<exists>th. threads k t = Some th \<and> status th = THREAD_BLOCKED \<and> sleep_ticks th = 0 \<and> frames th = []"
        using parts(10) x(3) unfolding create_ok_def by blast+
      show "t \<noteq> idle_thread k" by (rule c(1))
      show "t \<noteq> nxt" using ncreate [OF y x(3)] by simp
      then show "\<exists>th. T t = Some th \<and> status th = THREAD_BLOCKED \<and> sleep_ticks th = 0 \<and> frames th = []"
        using c(2) T(3) by force
    next
      fix t
      have "fcount (\<lambda>fr. creates fr t) T = fcount (\<lambda>fr. creates fr t) (threads k)" by (rule cnt) simp
      then show "fcount (\<lambda>fr. creates fr t) T \<le> 1" using parts(10) by (simp add: create_ok_def)
    qed
    have "stack_ok L (frames th)" if "T t = Some th" for t th
      by (rule Tall [OF that]) (use parts(11) in \<open>auto simp: stacks_ok_def\<close>)
    then show "stacks_ok L k'" using k' by (simp add: stacks_ok_def)
    show "conds_ok L k'" using parts(12) k' by (simp add: conds_ok_def)
    show "mutex_ok L k'" "wake_ok k'" using parts(13,14) mutex_wake_cong [of k' k] cnt k' by simp_all
  qed
  then show ?thesis using T(1) k' by (simp add: kinv_def)
qed

lemma schedule_inv:
  assumes inv: "kinv0 L k" and s: "schedule k = Some k'"
  shows "kinv L k'"
proof -
  obtain nxt k1 n c T where n: "next_thread_to_run k = Some (nxt, k1)" "is_thread k1 nxt" "threads k1 nxt = Some n"
    and c: "threads k (running k) = Some c" "status c \<noteq> THREAD_RUNNING"
    and k': "k' = k1\<lparr>running := nxt, thread_ticks := 0, threads := T\<rparr>"
    and T: "T = (threads k1)(nxt \<mapsto> n\<lparr>status := THREAD_RUNNING\<rparr>) \<and>
       (running k = nxt \<or> running k = initial_thread k1 \<or> status c \<noteq> THREAD_DYING \<or> running k = NULL) \<or>
     T = (threads k1)(nxt \<mapsto> n\<lparr>status := THREAD_RUNNING\<rparr>, running k := None) \<and>
       running k \<noteq> nxt \<and> running k \<noteq> initial_thread k1 \<and> status c = THREAD_DYING"
    using schedule_threads [OF s] by blast
  have "(\<exists>qs m. k1 = k\<lparr>ready_list := qs, mlfqs_list := m\<rparr>) \<and>
      mset (readyq k1) = mset_set (ready_set k - {nxt}) \<and> (nxt \<noteq> idle_thread k \<longrightarrow> nxt \<in> ready_set k)"
    using next_thread_to_run_cases [OF n(1)]
  proof
    assume r: "readyq k = [] \<and> nxt = idle_thread k \<and> k1 = k"
    have "k = k\<lparr>ready_list := ready_list k, mlfqs_list := mlfqs_list k\<rparr>" by simp
    moreover have "mset (readyq k) = mset_set (ready_set k)" using kinv0D(4) [OF inv] by (simp add: ready_ok_def)
    ultimately show ?thesis using r by (metis Diff_empty Diff_insert0 idle_not_ready)
  next
    assume r: "mset (readyq k) = add_mset nxt (mset (readyq k1)) \<and> (\<exists>qs m. k1 = k\<lparr>ready_list := qs, mlfqs_list := m\<rparr>)"
    have "mset_set (ready_set k) = add_mset nxt (mset (readyq k1))"
      using kinv0D(4) [OF inv] r by (simp add: ready_ok_def)
    moreover from this have "nxt \<in> ready_set k"
      by (metis elem_mset_set finite_ready_set finite_threads inv union_single_eq_member)
    ultimately show ?thesis
      using r inv by (simp add: mset_set_Diff)
  qed
  then have k1: "\<exists>qs m. k1 = k\<lparr>ready_list := qs, mlfqs_list := m\<rparr>"
    and rq: "mset (readyq k1) = mset_set (ready_set k - {nxt})" and rdy: "nxt \<noteq> idle_thread k \<longrightarrow> nxt \<in> ready_set k"
    by blast+
  then have same: "threads k1 = threads k" "semas k1 = semas k" "holder k1 = holder k" "initial_thread k1 = initial_thread k"
    "cond_waiters k1 = cond_waiters k" "all_list k1 = all_list k" "idle_thread k1 = idle_thread k" "tid_lock k1 = tid_lock k"
    by auto
  have nr: "status n = THREAD_READY" if "nxt \<noteq> idle_thread k"
    using rdy that n(3) same by (simp add: ready_set_def)
  have dn: "filter P (frames c) = []" if "status c = THREAD_DYING" "\<not> P K_body" for P
    using kinv0D(7) [OF inv] c(1) that by (auto simp: dying_ok_def filter_empty_conv)
  have cnt: "fcount P T = fcount P (threads k)" if "\<not> P K_body" for P
  proof -
    let ?T = "(threads k)(nxt \<mapsto> n\<lparr>status := THREAD_RUNNING\<rparr>)"
    have f: "fcount P ?T = fcount P (threads k)"
      by (rule fcount_same) (use n(3) same inv in simp_all)
    from T show ?thesis
    proof
      assume "T = (threads k1)(nxt \<mapsto> n\<lparr>status := THREAD_RUNNING\<rparr>, running k := None) \<and>
       running k \<noteq> nxt \<and> running k \<noteq> initial_thread k1 \<and> status c = THREAD_DYING"
      moreover from this have "fcount P (?T(running k := None)) = fcount P ?T"
        using c(1) dn that inv by (intro fcount_free [where th = c]) simp_all
      ultimately show ?thesis using f same by simp
    qed (use f same in simp)
  qed
  have nd: "status n \<noteq> THREAD_DYING \<and> nxt \<noteq> NULL"
    using nr kinv0D(7) [OF inv] n(3) same threads_okD(1) [OF inv]
    by (cases "nxt = idle_thread k") (auto simp: dying_ok_def)
  show ?thesis
  proof (rule switch_inv [OF inv, where nxt = nxt and n = n and T = T and c = c])
    show "threads k nxt = Some n" using n(3) same by simp
    show "T nxt = Some (n\<lparr>status := THREAD_RUNNING\<rparr>)" using T by auto
    show "mset (readyq k') = mset_set (ready_set k - {nxt})" using rq k' by simp
    fix t th
    assume t: "t \<noteq> nxt"
    show "threads k t = Some th" if "T t = Some th" using T t that same by (auto split: if_splits)
    show "T t = Some th" if "threads k t = Some th" "status th \<noteq> THREAD_DYING \<or> t = initial_thread k"
      using T
    proof
      assume "T = (threads k1)(nxt \<mapsto> n\<lparr>status := THREAD_RUNNING\<rparr>, running k := None) \<and>
       running k \<noteq> nxt \<and> running k \<noteq> initial_thread k1 \<and> status c = THREAD_DYING"
      then show ?thesis using that t same c(1) by (cases "t = running k") simp_all
    qed (use that t same in simp)
    show "t = initial_thread k" if "T t = Some th" "status th = THREAD_DYING"
    proof (rule ccontr)
      assume ni: "t \<noteq> initial_thread k"
      have tk: "threads k t = Some th" using T t that same by (auto split: if_splits)
      then have r: "t = running k" using kinv0D(7) [OF inv] that(2) ni by (auto simp: dying_ok_def)
      moreover from this have "running k \<noteq> NULL" "status c = THREAD_DYING"
        using tk c(1) that(2) threads_okD(1) [OF inv] by auto
      ultimately show False using T that(1) t ni same by auto
    qed
  qed (use nr c cnt k' same in simp_all)
qed

section \<open>What the invariant looks at\<close>

definition tview :: "thread \<Rightarrow> thread_status \<times> frame list \<times> int \<times> u32" where
  "tview th = (status th, frames th, sleep_ticks th, magic th)"

definition same_view :: "kernel \<Rightarrow> kernel \<Rightarrow> bool" where
  "same_view k k' \<longleftrightarrow>
     (\<forall>t. map_option tview (threads k' t) = map_option tview (threads k t)) \<and>
     running k' = running k \<and> idle_thread k' = idle_thread k \<and> initial_thread k' = initial_thread k \<and>
     tid_lock k' = tid_lock k \<and> semas k' = semas k \<and> holder k' = holder k \<and>
     cond_waiters k' = cond_waiters k \<and> all_list k' = all_list k \<and> mset (readyq k') = mset (readyq k)"

lemma same_view_refl [simp]: "same_view k k"
  by (simp add: same_view_def)

lemma same_view_trans [trans]: "same_view a b \<Longrightarrow> same_view b c \<Longrightarrow> same_view a c"
  by (simp add: same_view_def)

lemma same_view_dom: "same_view k k' \<Longrightarrow> dom (threads k') = dom (threads k)"
  unfolding same_view_def dom_def by (metis (mono_tags, opaque_lifting) map_option_is_None)

lemma same_view_thread:
  assumes "same_view k k'" "threads k' t = Some th'"
  shows "\<exists>th. threads k t = Some th \<and> tview th = tview th'"
  using assms unfolding same_view_def by (metis map_option_eq_Some option.map(2))

lemma same_view_sym: "same_view k k' \<Longrightarrow> same_view k' k"
  by (simp add: same_view_def)

lemma same_view_fcount: "same_view k k' \<Longrightarrow> fcount P (threads k') = fcount P (threads k)"
proof -
  assume v: "same_view k k'"
  have "frames (the (threads k' t)) = frames (the (threads k t))" if "t \<in> dom (threads k)" for t
  proof -
    obtain th' where t': "threads k' t = Some th'" using \<open>t \<in> dom (threads k)\<close> same_view_dom [OF v] by blast
    then show ?thesis using same_view_thread [OF v t'] by (auto simp: tview_def)
  qed
  then show ?thesis using same_view_dom [OF v] by (simp add: fcount_def)
qed

lemma same_view_ex:
  assumes "same_view k k'" "\<And>th th'. tview th = tview th' \<Longrightarrow> Q th = Q th'"
  shows "(\<exists>th. threads k' t = Some th \<and> Q th) \<longleftrightarrow> (\<exists>th. threads k t = Some th \<and> Q th)"
  using same_view_thread [OF assms(1)] same_view_thread [OF same_view_sym [OF assms(1)]] assms(2) by metis

lemma same_view_all:
  assumes v: "same_view k k'" and Q: "\<And>th th'. tview th = tview th' \<Longrightarrow> Q th = Q th'"
    and all: "\<And>th. threads k t = Some th \<Longrightarrow> Q th" and t: "threads k' t = Some th"
  shows "Q th"
proof -
  obtain th0 where "threads k t = Some th0" "tview th0 = tview th" using same_view_thread [OF v t] by blast
  then show ?thesis using all Q by blast
qed

lemma same_view_kinv0:
  assumes v: "same_view k k'" and inv: "kinv0 L k"
  shows "kinv0 L k'"
proof -
  note parts = kinv0D [OF inv]
  have eqs: "running k' = running k" "idle_thread k' = idle_thread k" "initial_thread k' = initial_thread k"
    "tid_lock k' = tid_lock k" "semas k' = semas k" "holder k' = holder k" "cond_waiters k' = cond_waiters k"
    "all_list k' = all_list k" "mset (readyq k') = mset (readyq k)"
    using v by (simp_all add: same_view_def)
  note ex = same_view_ex [OF v] and all = same_view_all [OF v]
  show ?thesis
  proof (rule kinv0I)
    show "tid_lock k' \<in> L" using parts(1) eqs by simp
    have "threads k' NULL = None"
      using threads_okD(1) [OF inv] same_view_dom [OF v] by (metis domIff)
    moreover have "magic th = THREAD_MAGIC" if "threads k' t = Some th" for t th
      by (rule all [OF _ _ that]) (auto simp: tview_def threads_okD [OF inv])
    ultimately show "threads_ok k'"
      using inv same_view_dom [OF v] by (simp add: threads_ok_def)
    have "status th = THREAD_RUNNING \<longrightarrow> t = running k" if "threads k' t = Some th" for t th
      by (rule all [OF _ _ that]) (use parts(3) in \<open>auto simp: tview_def run_ok_def\<close>)
    moreover have "alive k' (running k)" using parts(3) same_view_dom [OF v] by (metis alive_def domIff run_ok_def)
    ultimately show "run_ok k'" unfolding run_ok_def eqs by blast
    have "ready_set k' = ready_set k"
      unfolding ready_set_def eqs by (subst ex) (auto simp: tview_def)
    then show "ready_ok k'" using parts(4) eqs by (simp add: ready_ok_def)
    show "waiters_ok k'" unfolding waiters_ok_def eqs
    proof (intro allI conjI ballI)
      fix s t
      show "distinct (waiters (semas k s))" using parts(5) by (simp add: waiters_ok_def)
      assume "t \<in> set (waiters (semas k s))"
      from waiters_okD [OF inv this]
      show "\<exists>th lv frs. threads k' t = Some th \<and> status th = THREAD_BLOCKED \<and> sleep_ticks th = 0 \<and> frames th = K_sema_down s lv # frs"
        using ex [of "\<lambda>th. status th = THREAD_BLOCKED \<and> sleep_ticks th = 0 \<and> (\<exists>lv frs. frames th = K_sema_down s lv # frs)" t]
        by (simp add: tview_def)
    qed
    have "status th \<noteq> THREAD_BLOCKED \<longrightarrow> sleep_ticks th = 0" if "threads k' t = Some th" for t th
      by (rule all [OF _ _ that]) (use parts(6) in \<open>auto simp: tview_def sleep_ok_def\<close>)
    then show "sleep_ok k'" by (simp add: sleep_ok_def)
    have "status th = THREAD_DYING \<longrightarrow> (t = initial_thread k \<or> t = running k) \<and> t \<noteq> idle_thread k \<and> set (frames th) \<subseteq> {K_body}"
      if "threads k' t = Some th" for t th
      by (rule all [OF _ _ that]) (use parts(7) in \<open>auto simp: tview_def dying_ok_def\<close>)
    then show "dying_ok k'" unfolding dying_ok_def eqs by blast
    show "all_ok k'" using parts(8) unfolding all_ok_def eqs by (subst ex) (auto simp: tview_def)
    show "idle_ok k'" using parts(9) unfolding idle_ok_def eqs by (subst ex) (auto simp: tview_def)
    have "\<forall>fr\<in>set (frames thx). \<forall>t. creates fr t \<longrightarrow> t \<noteq> idle_thread k \<and> t \<noteq> running k \<and>
        (\<exists>th. threads k t = Some th \<and> status th = THREAD_BLOCKED \<and> sleep_ticks th = 0 \<and> frames th = [])"
      if "threads k' x = Some thx" for x thx
      by (rule all [OF _ _ that]) (use parts(10) in \<open>auto simp: tview_def create_ok_def\<close>)
    moreover have "(\<exists>th. threads k' t = Some th \<and> status th = THREAD_BLOCKED \<and> sleep_ticks th = 0 \<and> frames th = []) \<longleftrightarrow>
        (\<exists>th. threads k t = Some th \<and> status th = THREAD_BLOCKED \<and> sleep_ticks th = 0 \<and> frames th = [])" for t
      by (rule ex) (auto simp: tview_def)
    ultimately show "create_ok k'" using parts(10) unfolding create_ok_def eqs same_view_fcount [OF v] by blast
    have "stack_ok L (frames th)" if "threads k' t = Some th" for t th
      by (rule all [OF _ _ that]) (use parts(11) in \<open>auto simp: tview_def stacks_ok_def\<close>)
    then show "stacks_ok L k'" by (simp add: stacks_ok_def)
    show "conds_ok L k'" using parts(12) eqs by (simp add: conds_ok_def)
    show "mutex_ok L k'" using parts(13) eqs same_view_fcount [OF v] by (simp add: mutex_ok_def tokens_def)
    show "wake_ok k'" using parts(14) eqs same_view_fcount [OF v] by (simp add: wake_ok_def)
  qed
qed

lemma same_view_kinv:
  assumes v: "same_view k k'" and inv: "kinv L k"
  shows "kinv L k'"
proof -
  have "map_option tview (threads k' (running k)) = map_option tview (threads k (running k))"
    using v by (simp add: same_view_def)
  then have "map_option status (threads k' (running k)) = map_option status (threads k (running k))"
    by (auto simp: map_option_case tview_def split: option.splits)
  then show ?thesis using inv same_view_kinv0 [OF v] v by (simp add: kinv_def same_view_def)
qed

lemma upd_thread_view:
  assumes "upd_thread t f k = Some k'" "\<And>th. tview (f th) = tview th"
  shows "same_view k k'"
  using assms by (auto simp: upd_thread_def same_view_def)

section \<open>Changes to the running thread\<close>

definition create_target :: "kernel \<Rightarrow> addr \<Rightarrow> bool" where
  "create_target k t \<longleftrightarrow> t \<noteq> idle_thread k \<and> t \<noteq> running k \<and>
     (\<exists>th. threads k t = Some th \<and> status th = THREAD_BLOCKED \<and> sleep_ticks th = 0 \<and> frames th = [])"

lemma create_okD:
  "kinv0 L k \<Longrightarrow> threads k x = Some thx \<Longrightarrow> fr \<in> set (frames thx) \<Longrightarrow> creates fr t \<Longrightarrow> create_target k t"
  unfolding kinv0_def create_ok_def create_target_def by blast

lemma create_ok_count: "kinv0 L k \<Longrightarrow> fcount (\<lambda>fr. creates fr t) (threads k) \<le> 1"
  unfolding kinv0_def create_ok_def by blast

lemma running_not_waiting:
  assumes "kinv L k"
  shows "running k \<notin> set (waiters (semas k s))"
proof
  assume "running k \<in> set (waiters (semas k s))"
  from waiters_okD [OF _ this, of L] show False using assms by (auto simp: kinv_def)
qed

lemma cur_upd_inv:
  assumes inv: "kinv L k" and th: "threads k (running k) = Some th"
    and k': "threads k' = (threads k)(running k \<mapsto> th')" "running k' = running k" "idle_thread k' = idle_thread k"
      "initial_thread k' = initial_thread k" "tid_lock k' = tid_lock k"
    and magic: "magic th' = magic th" and stk: "stack_ok L (frames th')"
    and idle: "running k = idle_thread k \<Longrightarrow> set (frames th') \<subseteq> idle_frames \<and> sleep_ticks th' = 0 \<and> status th' \<noteq> THREAD_DYING"
    and rdy: "mset (readyq k') = (if status th' = THREAD_READY \<and> running k \<noteq> idle_thread k
       then add_mset (running k) (mset (readyq k)) else mset (readyq k))"
    and sleep: "status th' \<noteq> THREAD_BLOCKED \<Longrightarrow> sleep_ticks th' = 0"
    and dying: "status th' = THREAD_DYING \<Longrightarrow> set (frames th') \<subseteq> {K_body}"
    and alls: "all_list k' = (if status th' = THREAD_DYING then remove1 (running k) (all_list k) else all_list k)"
    and wait: "\<And>s. waiters (semas k' s) = waiters (semas k s) \<or>
       status th' = THREAD_BLOCKED \<and> sleep_ticks th' = 0 \<and> (\<exists>lv frs. frames th' = K_sema_down s lv # frs) \<and>
       waiters (semas k' s) = waiters (semas k s) @ [running k]"
    and crt: "\<And>fr t. fr \<in> set (frames th') \<Longrightarrow> creates fr t \<Longrightarrow> create_target k t"
    and cnt: "\<And>t. fcount (\<lambda>fr. creates fr t) (threads k') \<le> 1"
    and cond: "conds_ok L k'" and mut: "mutex_ok L k'" and wake: "wake_ok k'"
  shows "kinv0 L k'"
proof -
  have inv0: "kinv0 L k" and run: "status th = THREAD_RUNNING" using inv th by (auto simp: kinv_def)
  note parts = kinv0D [OF inv0]
  have Tall: "Q x" if "threads k' t = Some x" "\<And>x. t \<noteq> running k \<Longrightarrow> threads k t = Some x \<Longrightarrow> Q x" "t = running k \<Longrightarrow> Q th'"
    for t x and Q :: "thread \<Rightarrow> bool"
    using that k'(1) by (cases "t = running k") simp_all
  show ?thesis
  proof (rule kinv0I)
    show "tid_lock k' \<in> L" using parts(1) k' by simp
    have "magic x = THREAD_MAGIC" if "threads k' t = Some x" for t x
      by (rule Tall [OF that]) (use magic th threads_okD [OF inv0] in auto)
    moreover have "running k \<noteq> NULL" using th threads_okD(1) [OF inv0] by auto
    ultimately show "threads_ok k'" using inv0 threads_okD(1) [OF inv0] k' by (simp add: threads_ok_def)
    have "status x = THREAD_RUNNING \<longrightarrow> t = running k" if "threads k' t = Some x" for t x
      by (rule Tall [OF that]) (use parts(3) in \<open>auto simp: run_ok_def\<close>)
    moreover have "threads k' (running k) \<noteq> None" using k' by simp
    ultimately show "run_ok k'" unfolding run_ok_def alive_def k'(2) by blast
    have fin: "finite (ready_set k)" using inv0 by simp
    have nin: "running k \<notin> ready_set k" using th run by (simp add: ready_set_def)
    have "ready_set k' = (if status th' = THREAD_READY \<and> running k \<noteq> idle_thread k then insert (running k) (ready_set k) else ready_set k)"
      using th run by (auto simp: ready_set_def k')
    then show "ready_ok k'" using parts(4) rdy fin nin by (simp add: ready_ok_def)
    show "waiters_ok k'" unfolding waiters_ok_def
    proof (intro allI conjI ballI)
      fix s t
      show "distinct (waiters (semas k' s))"
        using parts(5) wait [of s] running_not_waiting [OF inv, of s] by (auto simp: waiters_ok_def)
      assume t: "t \<in> set (waiters (semas k' s))"
      show "\<exists>x lv frs. threads k' t = Some x \<and> status x = THREAD_BLOCKED \<and> sleep_ticks x = 0 \<and> frames x = K_sema_down s lv # frs"
      proof (cases "t = running k")
        case True
        then show ?thesis using t wait [of s] running_not_waiting [OF inv, of s] k'(1) by auto
      next
        case False
        then have "t \<in> set (waiters (semas k s))" using t wait [of s] by auto
        from waiters_okD [OF inv0 this] show ?thesis using False k'(1) by auto
      qed
    qed
    have "status x \<noteq> THREAD_BLOCKED \<longrightarrow> sleep_ticks x = 0" if "threads k' t = Some x" for t x
      by (rule Tall [OF that]) (use parts(6) sleep in \<open>auto simp: sleep_ok_def\<close>)
    then show "sleep_ok k'" by (simp add: sleep_ok_def)
    have "status x = THREAD_DYING \<longrightarrow> (t = initial_thread k \<or> t = running k) \<and> t \<noteq> idle_thread k \<and> set (frames x) \<subseteq> {K_body}"
      if "threads k' t = Some x" for t x
      by (rule Tall [OF that]) (use parts(7) idle dying in \<open>auto simp: dying_ok_def\<close>)
    then show "dying_ok k'" unfolding dying_ok_def k' using k'(1) by metis
    have d: "distinct (all_list k)" "t \<in> set (all_list k) \<longleftrightarrow> (\<exists>x. threads k t = Some x \<and> status x \<noteq> THREAD_DYING)" for t
      using parts(8) by (auto simp: all_ok_def)
    have "t \<in> set (all_list k') \<longleftrightarrow> (\<exists>x. threads k' t = Some x \<and> status x \<noteq> THREAD_DYING)" for t
      using alls d th run k'(1) by (cases "t = running k") auto
    then show "all_ok k'" using alls d(1) by (simp add: all_ok_def)
    show "idle_ok k'" using parts(9) idle k' by (cases "running k = idle_thread k") (auto simp: idle_ok_def)
    show "create_ok k'" unfolding create_ok_def k'(2,3)
    proof (intro conjI allI impI)
      fix x thx fr t
      assume x: "threads k' x = Some thx" "fr \<in> set (frames thx)" "creates fr t"
      have "create_target k t"
        using x crt create_okD [OF inv0 _ x(2,3)] k'(1) by (cases "x = running k") auto
      then show "t \<noteq> idle_thread k" "t \<noteq> running k"
        "\<exists>th. threads k' t = Some th \<and> status th = THREAD_BLOCKED \<and> sleep_ticks th = 0 \<and> frames th = []"
        using k'(1) by (auto simp: create_target_def)
    qed (use cnt in blast)
    have "stack_ok L (frames x)" if "threads k' t = Some x" for t x
      by (rule Tall [OF that]) (use parts(11) stk in \<open>auto simp: stacks_ok_def\<close>)
    then show "stacks_ok L k'" by (simp add: stacks_ok_def)
  qed (use cond mut wake in simp_all)
qed

section \<open>Waking a thread\<close>

lemma unblock_inv:
  assumes inv: "kinv0 L k" and th: "threads k t = Some th" "status th = THREAD_BLOCKED"
    and t: "t \<noteq> running k" "t \<noteq> idle_thread k"
    and k': "threads k' = (threads k)(t \<mapsto> th')" "running k' = running k" "idle_thread k' = idle_thread k"
      "initial_thread k' = initial_thread k" "tid_lock k' = tid_lock k" "all_list k' = all_list k"
      "cond_waiters k' = cond_waiters k"
    and th': "magic th' = magic th" "status th' = THREAD_READY" "sleep_ticks th' = 0" "stack_ok L (frames th')"
    and rdy: "mset (readyq k') = add_mset t (mset (readyq k))"
    and wait: "\<And>s. waiters (semas k' s) = remove1 t (waiters (semas k s))"
    and crt: "\<And>fr u. fr \<in> set (frames th') \<Longrightarrow> creates fr u \<Longrightarrow> create_target k u"
    and fresh: "\<And>x thx fr. threads k' x = Some thx \<Longrightarrow> fr \<in> set (frames thx) \<Longrightarrow> \<not> creates fr t"
    and cnt: "\<And>u. fcount (\<lambda>fr. creates fr u) (threads k') \<le> 1"
    and mut: "mutex_ok L k'" and wake: "wake_ok k'"
  shows "kinv0 L k'"
proof -
  note parts = kinv0D [OF inv]
  have Tall: "Q x" if "threads k' u = Some x" "\<And>x. u \<noteq> t \<Longrightarrow> threads k u = Some x \<Longrightarrow> Q x" "u = t \<Longrightarrow> Q th'"
    for u x and Q :: "thread \<Rightarrow> bool"
    using that k'(1) by (cases "u = t") simp_all
  show ?thesis
  proof (rule kinv0I)
    show "tid_lock k' \<in> L" using parts(1) k' by simp
    have "magic x = THREAD_MAGIC" if "threads k' u = Some x" for u x
      by (rule Tall [OF that]) (use th' th threads_okD [OF inv] in auto)
    moreover have "t \<noteq> NULL" using th threads_okD(1) [OF inv] by auto
    ultimately show "threads_ok k'" using inv threads_okD(1) [OF inv] k' by (simp add: threads_ok_def)
    have "status x = THREAD_RUNNING \<longrightarrow> u = running k" if "threads k' u = Some x" for u x
      by (rule Tall [OF that]) (use parts(3) th' in \<open>auto simp: run_ok_def\<close>)
    moreover have "threads k' (running k) \<noteq> None" using parts(3) k' by (simp add: run_ok_def alive_def)
    ultimately show "run_ok k'" unfolding run_ok_def alive_def k'(2) by blast
    have fin: "finite (ready_set k)" using inv by simp
    have nin: "t \<notin> ready_set k" using th by (simp add: ready_set_def)
    have "ready_set k' = insert t (ready_set k)" using t th' by (auto simp: ready_set_def k')
    then show "ready_ok k'" using parts(4) rdy fin nin by (simp add: ready_ok_def)
    show "waiters_ok k'" unfolding waiters_ok_def wait
    proof (intro allI conjI ballI)
      fix s u
      have d: "distinct (waiters (semas k s))" using parts(5) by (simp add: waiters_ok_def)
      then show "distinct (remove1 t (waiters (semas k s)))" by simp
      assume "u \<in> set (remove1 t (waiters (semas k s)))"
      then have u: "u \<in> set (waiters (semas k s))" "u \<noteq> t" using d by auto
      from waiters_okD [OF inv u(1)]
      show "\<exists>x lv frs. threads k' u = Some x \<and> status x = THREAD_BLOCKED \<and> sleep_ticks x = 0 \<and> frames x = K_sema_down s lv # frs"
        using u(2) k'(1) by auto
    qed
    have "status x \<noteq> THREAD_BLOCKED \<longrightarrow> sleep_ticks x = 0" if "threads k' u = Some x" for u x
      by (rule Tall [OF that]) (use parts(6) th' in \<open>auto simp: sleep_ok_def\<close>)
    then show "sleep_ok k'" by (simp add: sleep_ok_def)
    have "status x = THREAD_DYING \<longrightarrow> (u = initial_thread k \<or> u = running k) \<and> u \<noteq> idle_thread k \<and> set (frames x) \<subseteq> {K_body}"
      if "threads k' u = Some x" for u x
      by (rule Tall [OF that]) (use parts(7) th' in \<open>auto simp: dying_ok_def\<close>)
    then show "dying_ok k'" unfolding dying_ok_def k' using k'(1) by metis
    have "u \<in> set (all_list k) \<longleftrightarrow> (\<exists>x. threads k u = Some x \<and> status x \<noteq> THREAD_DYING)" for u
      using parts(8) by (auto simp: all_ok_def)
    then have "u \<in> set (all_list k) \<longleftrightarrow> (\<exists>x. threads k' u = Some x \<and> status x \<noteq> THREAD_DYING)" for u
      using th th' k'(1) by (cases "u = t") auto
    then show "all_ok k'" using parts(8) k' by (simp add: all_ok_def)
    show "idle_ok k'" using parts(9) t k' by (auto simp: idle_ok_def)
    show "create_ok k'" unfolding create_ok_def k'(2,3)
    proof (intro conjI allI impI)
      fix x thx fr u
      assume x: "threads k' x = Some thx" "fr \<in> set (frames thx)" "creates fr u"
      have "create_target k u"
        using x crt create_okD [OF inv _ x(2,3)] k'(1) by (cases "x = t") auto
      moreover have "u \<noteq> t" using fresh [OF x(1,2)] x(3) by auto
      ultimately show "u \<noteq> idle_thread k" "u \<noteq> running k"
        "\<exists>th. threads k' u = Some th \<and> status th = THREAD_BLOCKED \<and> sleep_ticks th = 0 \<and> frames th = []"
        using k'(1) by (auto simp: create_target_def)
    qed (use cnt in blast)
    have "stack_ok L (frames x)" if "threads k' u = Some x" for u x
      by (rule Tall [OF that]) (use parts(11) th' in \<open>auto simp: stacks_ok_def\<close>)
    then show "stacks_ok L k'" by (simp add: stacks_ok_def)
    show "conds_ok L k'" using parts(12) k' by (simp add: conds_ok_def)
  qed (use mut wake in simp_all)
qed

text \<open>A waiter, and a sleeper, is not the idle thread, the running thread or under creation.\<close>

lemma waiter_facts:
  assumes "kinv L k" "t \<in> set (waiters (semas k s))"
  shows "t \<noteq> running k" "t \<noteq> idle_thread k" "threads k x = Some thx \<Longrightarrow> fr \<in> set (frames thx) \<Longrightarrow> \<not> creates fr t"
    "s' \<noteq> s \<Longrightarrow> t \<notin> set (waiters (semas k s'))"
proof -
  have inv0: "kinv0 L k" using assms(1) by (simp add: kinv_def)
  from waiters_okD [OF inv0 assms(2)] obtain th lv frs where w: "threads k t = Some th"
    "status th = THREAD_BLOCKED" "sleep_ticks th = 0" "frames th = K_sema_down s lv # frs" by blast
  show "t \<noteq> running k" using assms running_not_waiting by metis
  show "t \<noteq> idle_thread k" using kinv0D(9) [OF inv0] w by (auto simp: idle_ok_def idle_frames_def)
  show "\<not> creates fr t" if "threads k x = Some thx" "fr \<in> set (frames thx)"
    using create_okD [OF inv0 that, of t] w by (auto simp: create_target_def)
  show "t \<notin> set (waiters (semas k s'))" if "s' \<noteq> s"
    using waiters_okD [OF inv0, of t s'] w that by auto
qed

lemma sleeper_facts:
  assumes inv0: "kinv0 L k" and th: "threads k t = Some th" "status th = THREAD_BLOCKED" "sleep_ticks th \<noteq> 0"
  shows "t \<noteq> idle_thread k" "threads k x = Some thx \<Longrightarrow> fr \<in> set (frames thx) \<Longrightarrow> \<not> creates fr t"
    "t \<notin> set (waiters (semas k s))"
proof -
  show "t \<noteq> idle_thread k" using kinv0D(9) [OF inv0] th by (auto simp: idle_ok_def)
  show "\<not> creates fr t" if "threads k x = Some thx" "fr \<in> set (frames thx)"
    using create_okD [OF inv0 that, of t] th by (auto simp: create_target_def)
  show "t \<notin> set (waiters (semas k s))" using waiters_okD [OF inv0, of t s] th by auto
qed

end
