(* ===== verification/Kernel_Steps.thy ===== *)
theory Kernel_Steps
  imports Kernel_Inv
begin

text \<open>
  Every event of the kernel machine preserves the invariant: the operations of
  \<open>threads/synch.c\<close> and \<open>threads/thread.c\<close> one by one, then the machine.
\<close>

section \<open>Changing the running thread\<close>

lemma kernel_upd_order [simp]:
  "k\<lparr>threads := T, if_flag := b\<rparr> = k\<lparr>if_flag := b, threads := T\<rparr>"
  "k\<lparr>threads := T, semas := S\<rparr> = k\<lparr>semas := S, threads := T\<rparr>"
  "k\<lparr>semas := S, if_flag := b\<rparr> = k\<lparr>if_flag := b, semas := S\<rparr>"
  by simp_all

lemma sema_upd_eqs [simp]:
  "waiters_update (\<lambda>ws. ws @ [t]) sm = sm\<lparr>waiters := waiters sm @ [t]\<rparr>"
  "waiters_update (remove1 t) sm = sm\<lparr>waiters := remove1 t (waiters sm)\<rparr>"
  "sema_value_update (\<lambda>v. v - 1) sm = sm\<lparr>sema_value := sema_value sm - 1\<rparr>"
  "sema_value_update (\<lambda>v. v + 1) sm = sm\<lparr>sema_value := sema_value sm + 1\<rparr>"
  by simp_all

abbreviation cnt :: "(frame \<Rightarrow> bool) \<Rightarrow> thread \<Rightarrow> nat" where
  "cnt P th \<equiv> length (filter P (frames th))"

definition token_sum :: "kernel \<Rightarrow> addr \<Rightarrow> nat" where
  "token_sum k l = unat (sema_value (semas k (lock_sema l))) + of_bool (holder k l \<noteq> NULL)"

lemma mutex_step:
  assumes inv: "kinv0 L k" and th: "threads k t = Some th" and k': "threads k' = (threads k)(t \<mapsto> th')"
    and bal: "\<And>l. l \<in> L \<Longrightarrow>
      token_sum k' l + cnt (takes l) th' + cnt ((=) (K_lock_up l)) th' + cnt (waits (lock_sema l)) th =
      token_sum k l + cnt (takes l) th + cnt ((=) (K_lock_up l)) th + cnt (waits (lock_sema l)) th'"
  shows "mutex_ok L k'"
  unfolding mutex_ok_def
proof
  fix l
  assume l: "l \<in> L"
  have f: "fcount P (threads k') + cnt P th = fcount P (threads k) + cnt P th'" for P
    unfolding k' using inv th by (intro fcount_upd) simp_all
  have "tokens k l = 1 + fcount (waits (lock_sema l)) (threads k)"
    using kinv0D(13) [OF inv] l by (simp add: mutex_ok_def)
  then show "tokens k' l = 1 + fcount (waits (lock_sema l)) (threads k')"
    using bal [OF l] f [of "takes l"] f [of "(=) (K_lock_up l)"] f [of "waits (lock_sema l)"]
    unfolding tokens_def token_sum_def by linarith
qed

lemma wake_step:
  assumes inv: "kinv0 L k" and th: "threads k t = Some th" and k': "threads k' = (threads k)(t \<mapsto> th')"
    and bal: "\<And>s. waiters (semas k' s) \<noteq> [] \<Longrightarrow>
      waiters (semas k s) \<noteq> [] \<and>
        unat (sema_value (semas k' s)) + length (waiters (semas k' s)) + cnt (waits s) th \<le>
        unat (sema_value (semas k s)) + length (waiters (semas k s)) + cnt (waits s) th' \<or>
      unat (sema_value (semas k' s)) + length (waiters (semas k' s)) \<le> cnt (waits s) th'"
  shows "wake_ok k'"
  unfolding wake_ok_def
proof (intro allI impI)
  fix s
  assume w: "waiters (semas k' s) \<noteq> []"
  have f: "fcount (waits s) (threads k') + cnt (waits s) th = fcount (waits s) (threads k) + cnt (waits s) th'"
    unfolding k' using inv th by (intro fcount_upd) simp_all
  from bal [OF w] show "unat (sema_value (semas k' s)) + length (waiters (semas k' s)) \<le> fcount (waits s) (threads k')"
  proof
    assume a: "waiters (semas k s) \<noteq> [] \<and>
        unat (sema_value (semas k' s)) + length (waiters (semas k' s)) + cnt (waits s) th \<le>
        unat (sema_value (semas k s)) + length (waiters (semas k s)) + cnt (waits s) th'"
    then have "unat (sema_value (semas k s)) + length (waiters (semas k s)) \<le> fcount (waits s) (threads k)"
      using kinv0D(14) [OF inv] by (simp add: wake_ok_def)
    then show ?thesis using a f by linarith
  next
    assume "unat (sema_value (semas k' s)) + length (waiters (semas k' s)) \<le> cnt (waits s) th'"
    moreover have "cnt (waits s) th' \<le> fcount (waits s) (threads k')"
      unfolding k' using inv th by (intro fcount_ge [of _ t]) simp_all
    ultimately show ?thesis by linarith
  qed
qed

lemma creates_step:
  assumes inv: "kinv0 L k" and th: "threads k t = Some th" and k': "threads k' = (threads k)(t \<mapsto> th')"
    and le: "\<And>u. cnt (\<lambda>fr. creates fr u) th' \<le> cnt (\<lambda>fr. creates fr u) th"
  shows "fcount (\<lambda>fr. creates fr u) (threads k') \<le> 1"
    and "fr \<in> set (frames th') \<Longrightarrow> creates fr u \<Longrightarrow> create_target k u"
proof -
  have "fcount (\<lambda>fr. creates fr u) (threads k') + cnt (\<lambda>fr. creates fr u) th =
      fcount (\<lambda>fr. creates fr u) (threads k) + cnt (\<lambda>fr. creates fr u) th'"
    unfolding k' using inv th by (intro fcount_upd) simp_all
  then show "fcount (\<lambda>fr. creates fr u) (threads k') \<le> 1" using le [of u] create_ok_count [OF inv, of u] by linarith
  assume f: "fr \<in> set (frames th')" "creates fr u"
  then have "0 < cnt (\<lambda>fr. creates fr u) th'" by (simp add: filter_empty_conv) blast
  then have "0 < cnt (\<lambda>fr. creates fr u) th" using le [of u] by linarith
  then obtain fr' where "fr' \<in> set (frames th)" "creates fr' u" by (auto simp: filter_empty_conv)
  then show "create_target k u" using create_okD [OF inv th] by blast
qed

text \<open>A call or frame that leaves the semaphores, locks and queues alone.\<close>

lemma frames_inv:
  assumes inv: "kinv L k" and th: "threads k (running k) = Some th"
    and k': "threads k' = (threads k)(running k \<mapsto> th\<lparr>frames := frs\<rparr>)" "running k' = running k" "idle_thread k' = idle_thread k"
      "initial_thread k' = initial_thread k" "tid_lock k' = tid_lock k" "all_list k' = all_list k"
      "mset (readyq k') = mset (readyq k)"
    and stk: "stack_ok L frs" and idle: "running k = idle_thread k \<Longrightarrow> set frs \<subseteq> idle_frames"
    and crt: "\<And>u. length (filter (\<lambda>fr. creates fr u) frs) \<le> cnt (\<lambda>fr. creates fr u) th"
    and wait: "\<And>s. waiters (semas k' s) = waiters (semas k s)"
    and cond: "conds_ok L k'" and mut: "mutex_ok L k'" and wake: "wake_ok k'"
  shows "kinv L k'"
proof -
  have inv0: "kinv0 L k" and run: "status th = THREAD_RUNNING" using inv th by (auto simp: kinv_def)
  have sl: "sleep_ticks th = 0" using kinv0D(6) [OF inv0] th run by (simp add: sleep_ok_def)
  note c = creates_step [OF inv0 th k'(1)]
  have "kinv0 L k'"
    by (rule cur_upd_inv [OF inv th, where th' = "th\<lparr>frames := frs\<rparr>"])
      (use k' stk idle crt wait cond mut wake run sl c in \<open>auto\<close>)
  then show ?thesis using k' run by (simp add: kinv_def)
qed

lemma waiters_counted:
  assumes "finite (dom T)" "distinct ws" "\<And>t. t \<in> set ws \<Longrightarrow> \<exists>th. T t = Some th \<and> 0 < cnt P th"
  shows "length ws \<le> fcount P T"
proof -
  have "length ws = (\<Sum>t\<in>set ws. 1)" using assms(2) by (simp add: distinct_card)
  also have "\<dots> \<le> (\<Sum>t\<in>set ws. cnt P (the (T t)))"
  proof (rule sum_mono)
    fix t
    assume "t \<in> set ws"
    then obtain th where "T t = Some th" "0 < cnt P th" using assms(3) [of t] by blast
    then show "1 \<le> cnt P (the (T t))" by (simp only: option.sel One_nat_def Suc_leI)
  qed
  also have "\<dots> \<le> fcount P T" unfolding fcount_def
    using assms(1,3) by (intro sum_mono2) auto
  finally show ?thesis .
qed

section \<open>Semaphores of locks\<close>

lemma stack_held_ge_waits:
  assumes "l \<in> L"
  shows "stack_ok L frs \<Longrightarrow> length (filter (waits (lock_sema l)) frs) \<le> length (filter (takes l) frs)"
proof (induction frs rule: length_induct)
  case (1 frs)
  show ?case
  proof (cases frs)
    case (Cons fr r)
    show ?thesis
    proof (cases "waits (lock_sema l) fr")
      case True
      then obtain bs where "r = K_lock_held l # bs" using 1(2) Cons assms by auto
      moreover have "\<not> takes l fr" using True by (cases fr) auto
      ultimately show ?thesis using 1 Cons True by auto
    next
      case False
      moreover have "length (filter (waits (lock_sema l)) r) \<le> length (filter (takes l) r)" using 1 Cons by auto
      ultimately show ?thesis using Cons by auto
    qed
  qed simp
qed

lemma held_ge_waits:
  assumes "kinv0 L k" "l \<in> L"
  shows "fcount (waits (lock_sema l)) (threads k) \<le> fcount (takes l) (threads k)"
proof (rule fcount_mono)
  fix t th
  assume "threads k t = Some th"
  then have "stack_ok L (frames th)" using kinv0D(11) [OF assms(1)] by (simp add: stacks_ok_def)
  then show "cnt (waits (lock_sema l)) th \<le> cnt (takes l) th" by (rule stack_held_ge_waits [OF assms(2)])
qed

text \<open>So at most one of the four kinds of token exists.\<close>

lemma token_unique:
  assumes "kinv0 L k" "l \<in> L"
  shows "token_sum k l + (fcount (takes l) (threads k) - fcount (waits (lock_sema l)) (threads k))
    + fcount ((=) (K_lock_up l)) (threads k) = 1"
  using held_ge_waits [OF assms] kinv0D(13) [OF assms(1)] assms(2)
  unfolding mutex_ok_def tokens_def token_sum_def by force

section \<open>Plain frames\<close>

lemma frames_push_eq [simp]: "frames_update ((#) fr) th = th\<lparr>frames := fr # frames th\<rparr>"
  by (cases th) simp

fun plain :: "frame \<Rightarrow> bool" where
  "plain (K_lock_held l) \<longleftrightarrow> False"
| "plain (K_try_held l) \<longleftrightarrow> False"
| "plain (K_lock_up l) \<longleftrightarrow> False"
| "plain (K_sema_down s lv) \<longleftrightarrow> False"
| "plain (K_tid_take t fn) \<longleftrightarrow> False"
| "plain (K_tid_got t i fn) \<longleftrightarrow> False"
| "plain _ \<longleftrightarrow> True"

lemma plain_weightless [simp]:
  assumes "plain fr"
  shows "\<not> waits s fr" "\<not> creates fr t" "\<not> takes l fr" "K_lock_up l \<noteq> fr"
  using assms by (cases fr; simp)+

lemma plain_change_inv:
  assumes inv: "kinv L k" and th: "threads k (running k) = Some th"
    and f: "filter (\<lambda>fr. \<not> plain fr) frs = filter (\<lambda>fr. \<not> plain fr) (frames th)"
    and stk: "stack_ok L frs" and idle: "running k = idle_thread k \<Longrightarrow> set frs \<subseteq> idle_frames"
  shows "kinv L (k\<lparr>threads := (threads k)(running k \<mapsto> th\<lparr>frames := frs\<rparr>)\<rparr>)" (is "kinv L ?k")
proof -
  have eq: "filter P frs = filter P (frames th)" if "\<And>fr. P fr \<Longrightarrow> \<not> plain fr" for P
  proof -
    have "filter P xs = filter P (filter (\<lambda>fr. \<not> plain fr) xs)" for xs
      using that by (induction xs) auto
    then show ?thesis using f by metis
  qed
  have e: "filter (waits s) frs = filter (waits s) (frames th)" "filter (\<lambda>fr. creates fr u) frs = filter (\<lambda>fr. creates fr u) (frames th)"
    "filter (takes l) frs = filter (takes l) (frames th)"
    "filter ((=) (K_lock_up l)) frs = filter ((=) (K_lock_up l)) (frames th)" for s u l
    by (rule eq; auto)+
  have inv0: "kinv0 L k" using inv by (simp add: kinv_def)
  have "mutex_ok L ?k" by (rule mutex_step [OF inv0 th, where th' = "th\<lparr>frames := frs\<rparr>"]) (simp_all add: e token_sum_def)
  moreover have "wake_ok ?k" by (rule wake_step [OF inv0 th, where th' = "th\<lparr>frames := frs\<rparr>"]) (simp_all add: e)
  moreover have "conds_ok L ?k" using kinv0D(12) [OF inv0] by (simp add: conds_ok_def)
  ultimately show ?thesis
    by (intro frames_inv [OF inv th, where frs = frs]) (use stk idle in \<open>simp_all add: e\<close>)
qed

lemma running_thread:
  assumes "kinv L k"
  shows "\<exists>th. threads k (running k) = Some th \<and> status th = THREAD_RUNNING \<and> stack_ok L (frames th) \<and> sleep_ticks th = 0 \<and>
    (running k = idle_thread k \<longrightarrow> set (frames th) \<subseteq> idle_frames)"
proof -
  obtain th where th: "threads k (running k) = Some th" "status th = THREAD_RUNNING" using assms by (auto simp: kinv_def)
  have inv0: "kinv0 L k" using assms by (simp add: kinv_def)
  show ?thesis using th kinv0D(6,9,11) [OF inv0] by (auto simp: stacks_ok_def sleep_ok_def idle_ok_def)
qed

lemma push_plain_inv:
  assumes "kinv L k" "push_frame fr k = Some k'" "plain fr" "frame_ok L fr" "fr \<noteq> K_body"
    "running k = idle_thread k \<Longrightarrow> fr \<in> idle_frames"
  shows "kinv L k'"
proof -
  obtain th where th: "threads k (running k) = Some th" "stack_ok L (frames th)" "running k = idle_thread k \<longrightarrow> set (frames th) \<subseteq> idle_frames"
    using running_thread [OF assms(1)] by blast
  have "k' = k\<lparr>threads := (threads k)(running k \<mapsto> th\<lparr>frames := fr # frames th\<rparr>)\<rparr>"
    using assms(2) th by (auto simp: push_frame_def upd_thread_def)
  moreover have "kinv L (k\<lparr>threads := (threads k)(running k \<mapsto> th\<lparr>frames := fr # frames th\<rparr>)\<rparr>)"
    by (rule plain_change_inv [OF assms(1) th(1)]) (use assms th in auto)
  ultimately show ?thesis by simp
qed

section \<open>Giving up the processor\<close>

lemma intr_set_level_eq: "intr_set_level lv k = Some k' \<Longrightarrow> k' = k\<lparr>if_flag := lv\<rparr>"
  by (auto simp: intr_set_level_def intr_enable_def intr_disable_def bind_eq_Some_conv split: if_splits)

lemma same_view_fields [simp]:
  "same_view k (k\<lparr>if_flag := b\<rparr>)" "same_view k (k\<lparr>in_external_intr := b\<rparr>)" "same_view k (k\<lparr>yield_on_return := b\<rparr>)"
  "same_view k (k\<lparr>ticks := i\<rparr>)" "same_view k (k\<lparr>thread_ticks := n\<rparr>)" "same_view k (k\<lparr>idle_ticks := i\<rparr>)"
  "same_view k (k\<lparr>kernel_ticks := i\<rparr>)" "same_view k (k\<lparr>load_avg := i\<rparr>)" "same_view k (k\<lparr>next_tid := i\<rparr>)"
  "same_view k (k\<lparr>lock_list := ls\<rparr>)"
  by (simp_all add: same_view_def)

lemma intr_set_level_inv: "kinv L k \<Longrightarrow> intr_set_level lv k = Some k' \<Longrightarrow> kinv L k'"
  by (metis intr_set_level_eq same_view_fields(1) same_view_kinv)

lemma thread_current_eq: "thread_current k = Some t \<Longrightarrow> t = running k"
  by (auto simp: thread_current_def bind_eq_Some_conv)

lemma leave_cpu_inv:
  assumes inv: "kinv L k" and th: "threads k (running k) = Some th"
    and k1: "k1 = k\<lparr>if_flag := b, ready_list := qs, mlfqs_list := m, all_list := al,
      threads := (threads k)(running k \<mapsto> th\<lparr>status := st, frames := frs @ frames th, sleep_ticks := n\<rparr>)\<rparr>"
    and frs: "\<forall>fr\<in>set frs. plain fr \<and> fr \<noteq> K_body \<and> frame_ok L fr"
    and idle: "running k = idle_thread k \<Longrightarrow> set frs \<subseteq> idle_frames \<and> n = 0 \<and> st \<noteq> THREAD_DYING"
    and n: "st \<noteq> THREAD_BLOCKED \<Longrightarrow> n = 0" "st = THREAD_DYING \<Longrightarrow> set (frs @ frames th) \<subseteq> {K_body}"
    and rdy: "mset (readyq k1) = (if st = THREAD_READY \<and> running k \<noteq> idle_thread k
       then add_mset (running k) (mset (readyq k)) else mset (readyq k))"
    and al: "al = (if st = THREAD_DYING then remove1 (running k) (all_list k) else all_list k)"
    and s: "schedule k1 = Some k'"
  shows "kinv L k'"
proof -
  have inv0: "kinv0 L k" using inv by (simp add: kinv_def)
  obtain th0 where "threads k (running k) = Some th0" "stack_ok L (frames th0)"
    "running k = idle_thread k \<longrightarrow> set (frames th0) \<subseteq> idle_frames"
    using running_thread [OF inv] by blast
  then have stk: "stack_ok L (frames th)" and idl: "running k = idle_thread k \<longrightarrow> set (frames th) \<subseteq> idle_frames"
    using th by auto
  let ?th = "th\<lparr>status := st, frames := frs @ frames th, sleep_ticks := n\<rparr>"
  have fl: "filter P frs = []" if "\<And>fr. plain fr \<Longrightarrow> \<not> P fr" for P
    using frs that by (auto simp: filter_empty_conv)
  have e: "filter (waits s) frs = []" "filter (\<lambda>fr. creates fr u) frs = []" "filter (takes l) frs = []"
    "filter ((=) (K_lock_up l)) frs = []" for s u l
    by (rule fl; simp)+
  have T: "threads k1 = (threads k)(running k \<mapsto> ?th)" by (simp add: k1)
  have stk': "stack_ok L (frs @ frames th)" using frs stk by (induction frs) auto
  have "kinv0 L k1"
  proof (rule cur_upd_inv [OF inv th T])
    show "mutex_ok L k1" by (rule mutex_step [OF inv0 th T]) (simp_all add: e token_sum_def k1)
    show "wake_ok k1" by (rule wake_step [OF inv0 th T]) (simp_all add: e k1)
    show "conds_ok L k1" using kinv0D(12) [OF inv0] by (simp add: conds_ok_def k1)
    fix fr t
    show "fcount (\<lambda>fr. creates fr t) (threads k1) \<le> 1" by (rule creates_step [OF inv0 th T]) (simp add: e)
    assume "fr \<in> set (frames ?th)" "creates fr t"
    then show "create_target k t" by (rule creates_step(2) [OF inv0 th T, rotated]) (simp add: e)
  qed (use stk' idle idl n rdy al in \<open>auto simp: k1\<close>)
  then show ?thesis using s by (rule schedule_inv)
qed

lemma thread_yield_inv:
  assumes inv: "kinv L k" and y: "thread_yield k = Some k'"
  shows "kinv L k'"
proof -
  obtain th where th: "threads k (running k) = Some th" "sleep_ticks th = 0" using running_thread [OF inv] by blast
  obtain k1 where k1: "(if running k \<noteq> idle_thread k then enqueue_ready (running k) (k\<lparr>if_flag := False\<rparr>) else Some (k\<lparr>if_flag := False\<rparr>)) = Some k1"
    using y by (auto simp: thread_yield_def Let_def bind_eq_Some_conv intr_disable_def dest!: thread_current_eq)
  have "(\<exists>qs m. k1 = (k\<lparr>if_flag := False\<rparr>)\<lparr>ready_list := qs, mlfqs_list := m\<rparr>) \<and>
    mset (readyq k1) = (if running k \<noteq> idle_thread k then add_mset (running k) (mset (readyq k)) else mset (readyq k))"
  proof (cases "running k = idle_thread k")
    case True
    then have "k1 = k\<lparr>if_flag := False\<rparr>" using k1 by simp
    moreover have "k\<lparr>if_flag := False\<rparr> = (k\<lparr>if_flag := False\<rparr>)\<lparr>ready_list := ready_list k, mlfqs_list := mlfqs_list k\<rparr>"
      by simp
    ultimately show ?thesis using True by (metis readyq_update(9))
  next
    case False
    then have e: "enqueue_ready (running k) (k\<lparr>if_flag := False\<rparr>) = Some k1" using k1 by simp
    have "readyq (k\<lparr>if_flag := False\<rparr>) = readyq k" by (simp add: intr_disable_def)
    then show ?thesis using False enqueue_ready_mset [OF e] by simp
  qed
  then obtain qs m where q: "k1 = (k\<lparr>if_flag := False\<rparr>)\<lparr>ready_list := qs, mlfqs_list := m\<rparr>"
    and r: "mset (readyq k1) = (if running k \<noteq> idle_thread k then add_mset (running k) (mset (readyq k)) else mset (readyq k))"
    by blast
  let ?th = "th\<lparr>status := THREAD_READY, frames := [K_set_level (if_flag k)] @ frames th, sleep_ticks := 0\<rparr>"
  let ?k2 = "k\<lparr>if_flag := False, ready_list := qs, mlfqs_list := m, all_list := all_list k,
      threads := (threads k)(running k \<mapsto> ?th)\<rparr>"
  have "th\<lparr>status := THREAD_READY, frames := K_set_level (if_flag k) # frames th\<rparr> = ?th" using th(2) by simp
  then have "schedule ?k2 = Some k'"
    using y k1 th(1) unfolding thread_yield_def Let_def intr_disable_def
    by (auto simp: bind_eq_Some_conv push_frame_def upd_thread_def q intr_disable_def dest!: thread_current_eq)
  moreover have "readyq ?k2 = readyq k1" by (simp add: q intr_disable_def readyq_def)
  ultimately show ?thesis
    using r by (intro leave_cpu_inv [OF inv th(1), where ?k1.0 = ?k2 and frs = "[K_set_level (if_flag k)]"
        and b = False and qs = qs and m = m and al = "all_list k" and st = THREAD_READY and n = 0])
      (auto simp: idle_frames_def)
qed

lemma block_inv:
  assumes inv: "kinv L k" and th: "threads k (running k) = Some th"
    and frs: "\<forall>fr\<in>set frs. plain fr \<and> fr \<noteq> K_body \<and> frame_ok L fr"
    and idle: "running k = idle_thread k \<Longrightarrow> set frs \<subseteq> idle_frames \<and> n = 0"
    and b: "thread_block (k\<lparr>if_flag := False,
      threads := (threads k)(running k \<mapsto> th\<lparr>frames := frs @ frames th, sleep_ticks := n\<rparr>)\<rparr>) = Some k'"
  shows "kinv L k'"
proof -
  let ?k1 = "k\<lparr>if_flag := False, ready_list := ready_list k, mlfqs_list := mlfqs_list k, all_list := all_list k,
      threads := (threads k)(running k \<mapsto> th\<lparr>status := THREAD_BLOCKED, frames := frs @ frames th, sleep_ticks := n\<rparr>)\<rparr>"
  have eq: "th\<lparr>frames := frs @ frames th, sleep_ticks := n, status := THREAD_BLOCKED\<rparr> =
      th\<lparr>status := THREAD_BLOCKED, frames := frs @ frames th, sleep_ticks := n\<rparr>" by (cases th) simp
  have "schedule (k\<lparr>if_flag := False, threads := (threads k)(running k \<mapsto>
      th\<lparr>frames := frs @ frames th, sleep_ticks := n, status := THREAD_BLOCKED\<rparr>)\<rparr>) = Some k'"
    using b by (auto simp: thread_block_def upd_thread_def bind_eq_Some_conv dest!: thread_current_eq)
  then have "schedule ?k1 = Some k'" unfolding eq by simp
  then show ?thesis
    by (intro leave_cpu_inv [OF inv th, where ?k1.0 = ?k1 and frs = frs and b = False and qs = "ready_list k"
          and m = "mlfqs_list k" and al = "all_list k" and st = THREAD_BLOCKED and n = n])
      (use frs idle in \<open>auto simp: readyq_def\<close>)
qed

lemma thread_exit_inv:
  assumes inv: "kinv L k" and body: "\<And>th. threads k (running k) = Some th \<Longrightarrow> set (frames th) \<subseteq> {K_body}"
    and idle: "running k \<noteq> idle_thread k" and e: "thread_exit k = Some k'"
  shows "kinv L k'"
proof -
  obtain th where th: "threads k (running k) = Some th" "sleep_ticks th = 0" using running_thread [OF inv] by blast
  let ?k1 = "k\<lparr>if_flag := False, ready_list := ready_list k, mlfqs_list := mlfqs_list k, all_list := remove1 (running k) (all_list k),
      threads := (threads k)(running k \<mapsto> th\<lparr>status := THREAD_DYING, frames := [] @ frames th, sleep_ticks := 0\<rparr>)\<rparr>"
  have "th\<lparr>status := THREAD_DYING\<rparr> = th\<lparr>status := THREAD_DYING, frames := [] @ frames th, sleep_ticks := 0\<rparr>" using th(2) by simp
  then have "schedule ?k1 = Some k'"
    using e th(1) unfolding thread_exit_def Let_def intr_disable_def
    by (auto simp: upd_thread_def bind_eq_Some_conv dest!: thread_current_eq)
  then show ?thesis
    by (intro leave_cpu_inv [OF inv th(1), where ?k1.0 = ?k1 and frs = "[]" and b = False and qs = "ready_list k"
          and m = "mlfqs_list k" and al = "remove1 (running k) (all_list k)" and st = THREAD_DYING and n = 0])
      (use body [OF th(1)] idle in \<open>auto simp: readyq_def\<close>)
qed

section \<open>Semaphores\<close>

text \<open>
  The loop of \<open>sema_down\<close>, entered with frames \<open>F\<close> on the stack: \<open>k\<close> is the state before
  the frames changed, and \<open>F\<close> is what remains once the semaphore has been taken.
\<close>

lemma sema_take_inv:
  assumes inv: "kinv L k" and th: "threads k (running k) = Some th" and v: "sema_value (semas k s) \<noteq> 0"
    and stk: "stack_ok L F" and idle: "running k = idle_thread k \<Longrightarrow> set F \<subseteq> idle_frames"
    and crt: "\<And>u. length (filter (\<lambda>fr. creates fr u) F) \<le> cnt (\<lambda>fr. creates fr u) th"
    and bal: "\<And>l. l \<in> L \<Longrightarrow>
      length (filter (takes l) F) + length (filter ((=) (K_lock_up l)) F) + cnt (waits (lock_sema l)) th =
      of_bool (s = lock_sema l) + cnt (takes l) th + cnt ((=) (K_lock_up l)) th + length (filter (waits (lock_sema l)) F)"
    and wts: "\<And>s'. cnt (waits s') th \<le> length (filter (waits s') F) + of_bool (s' = s)"
  shows "kinv L (upd_sema s (sema_value_update (\<lambda>v. v - 1)) (k\<lparr>if_flag := b, threads := (threads k)(running k \<mapsto> th\<lparr>frames := F\<rparr>)\<rparr>))"
    (is "kinv L ?k'")
proof -
  have inv0: "kinv0 L k" using inv by (simp add: kinv_def)
  let ?th = "th\<lparr>frames := F\<rparr>"
  have T: "threads ?k' = (threads k)(running k \<mapsto> ?th)" by (simp add: upd_sema_def)
  have vd: "unat (sema_value (semas k s) - 1) + 1 = unat (sema_value (semas k s))"
    using v unat_minus_one [OF v] by (simp add: unat_gt_0 Suc_leI)
  have mut: "mutex_ok L ?k'"
  proof (rule mutex_step [OF inv0 th T])
    fix l
    assume l: "l \<in> L"
    have "token_sum ?k' l + of_bool (s = lock_sema l) = token_sum k l"
      using vd by (auto simp: token_sum_def upd_sema_def)
    then show "token_sum ?k' l + cnt (takes l) ?th + cnt ((=) (K_lock_up l)) ?th + cnt (waits (lock_sema l)) th =
        token_sum k l + cnt (takes l) th + cnt ((=) (K_lock_up l)) th + cnt (waits (lock_sema l)) ?th"
      using bal [OF l] by simp
  qed
  have wake: "wake_ok ?k'"
  proof (rule wake_step [OF inv0 th T])
    fix s'
    assume "waiters (semas ?k' s') \<noteq> []"
    then show "waiters (semas k s') \<noteq> [] \<and>
        unat (sema_value (semas ?k' s')) + length (waiters (semas ?k' s')) + cnt (waits s') th \<le>
        unat (sema_value (semas k s')) + length (waiters (semas k s')) + cnt (waits s') ?th \<or>
        unat (sema_value (semas ?k' s')) + length (waiters (semas ?k' s')) \<le> cnt (waits s') ?th"
      using wts [of s'] vd by (cases "s' = s") (auto simp: upd_sema_def)
  qed
  show ?thesis
    by (rule frames_inv [OF inv th T _ _ _ _ _ _ stk])
      (use idle crt mut wake kinv0D(12) [OF inv0] in \<open>auto simp: upd_sema_def conds_ok_def\<close>)
qed

lemma sema_block_inv:
  assumes inv: "kinv L k" and th: "threads k (running k) = Some th" and v: "sema_value (semas k s) = 0"
    and stk: "stack_ok L F" and idle: "running k \<noteq> idle_thread k"
    and held: "\<And>l. l \<in> L \<Longrightarrow> s = lock_sema l \<Longrightarrow> \<exists>bs. F = K_lock_held l # bs"
    and crt: "\<And>u. length (filter (\<lambda>fr. creates fr u) F) \<le> cnt (\<lambda>fr. creates fr u) th"
    and bal: "\<And>l. l \<in> L \<Longrightarrow>
      length (filter (takes l) F) + length (filter ((=) (K_lock_up l)) F) + cnt (waits (lock_sema l)) th =
      of_bool (s = lock_sema l) + cnt (takes l) th + cnt ((=) (K_lock_up l)) th + length (filter (waits (lock_sema l)) F)"
    and wts: "\<And>s'. cnt (waits s') th \<le> length (filter (waits s') F) + of_bool (s' = s)"
    and k1: "k1 = k\<lparr>if_flag := b, semas := (semas k)(s := (semas k s)\<lparr>waiters := waiters (semas k s) @ [running k]\<rparr>),
      threads := (threads k)(running k \<mapsto> th\<lparr>frames := K_sema_down s lv # F, status := THREAD_BLOCKED\<rparr>)\<rparr>"
  shows "kinv0 L k1"
proof -
  have inv0: "kinv0 L k" using inv by (simp add: kinv_def)
  obtain th0 where "threads k (running k) = Some th0" "sleep_ticks th0 = 0" using running_thread [OF inv] by blast
  then have sl: "sleep_ticks th = 0" using th by simp
  let ?th = "th\<lparr>frames := K_sema_down s lv # F, status := THREAD_BLOCKED\<rparr>"
  have T: "threads k1 = (threads k)(running k \<mapsto> ?th)" by (simp add: k1)
  have mut: "mutex_ok L k1"
  proof (rule mutex_step [OF inv0 th T])
    fix l
    assume l: "l \<in> L"
    show "token_sum k1 l + cnt (takes l) ?th + cnt ((=) (K_lock_up l)) ?th + cnt (waits (lock_sema l)) th =
        token_sum k l + cnt (takes l) th + cnt ((=) (K_lock_up l)) th + cnt (waits (lock_sema l)) ?th"
      using bal [OF l] by (auto simp: token_sum_def k1)
  qed
  have ws: "\<exists>x. threads k1 t = Some x \<and> 0 < cnt (waits s) x" if t: "t \<in> set (waiters (semas k1 s))" for t
  proof (cases "t = running k")
    case False
    then have "t \<in> set (waiters (semas k s))" using t by (simp add: k1)
    from waiters_okD [OF inv0 this] show ?thesis using False by (auto simp: k1)
  qed (simp add: k1)
  have d: "distinct (waiters (semas k1 s))"
    using kinv0D(5) [OF inv0] running_not_waiting [OF inv, of s] by (simp add: k1 waiters_ok_def)
  have wake: "wake_ok k1"
    unfolding wake_ok_def
  proof (intro allI impI)
    fix s'
    assume w: "waiters (semas k1 s') \<noteq> []"
    show "unat (sema_value (semas k1 s')) + length (waiters (semas k1 s')) \<le> fcount (waits s') (threads k1)"
    proof (cases "s' = s")
      case True
      have "finite (dom (threads k1))" using inv0 T by simp
      then have "length (waiters (semas k1 s)) \<le> fcount (waits s) (threads k1)" using d ws by (rule waiters_counted)
      moreover have "sema_value (semas k1 s) = 0" using v by (simp add: k1)
      ultimately show ?thesis using True by simp
    next
      case False
      have "unat (sema_value (semas k s')) + length (waiters (semas k s')) \<le> fcount (waits s') (threads k)"
        using w False kinv0D(14) [OF inv0] by (simp add: wake_ok_def k1)
      moreover have "fcount (waits s') (threads k1) + cnt (waits s') th = fcount (waits s') (threads k) + cnt (waits s') ?th"
        unfolding T using inv0 th by (intro fcount_upd) simp_all
      ultimately show ?thesis using False wts [of s'] by (simp add: k1)
    qed
  qed
  show ?thesis
  proof (rule cur_upd_inv [OF inv th T])
    show "stack_ok L (frames ?th)" using stk held by auto
    show "waiters (semas k1 s') = waiters (semas k s') \<or>
       status ?th = THREAD_BLOCKED \<and> sleep_ticks ?th = 0 \<and> (\<exists>lv frs. frames ?th = K_sema_down s' lv # frs) \<and>
       waiters (semas k1 s') = waiters (semas k s') @ [running k]" for s'
      using sl by (cases "s' = s") (auto simp: k1)
    fix fr t
    show "fcount (\<lambda>fr. creates fr t) (threads k1) \<le> 1" by (rule creates_step [OF inv0 th T]) (simp add: crt)
    assume "fr \<in> set (frames ?th)" "creates fr t"
    then show "create_target k t" by (rule creates_step(2) [OF inv0 th T, rotated]) (simp add: crt)
  qed (use idle mut wake kinv0D(12) [OF inv0] in \<open>auto simp: k1 conds_ok_def\<close>)
qed

lemma sema_down_loop_inv:
  assumes inv: "kinv L k" and th: "threads k (running k) = Some th"
    and stk: "stack_ok L F" and idle: "running k \<noteq> idle_thread k"
    and held: "\<And>l. l \<in> L \<Longrightarrow> s = lock_sema l \<Longrightarrow> \<exists>bs. F = K_lock_held l # bs"
    and crt: "\<And>u. length (filter (\<lambda>fr. creates fr u) F) \<le> cnt (\<lambda>fr. creates fr u) th"
    and bal: "\<And>l. l \<in> L \<Longrightarrow>
      length (filter (takes l) F) + length (filter ((=) (K_lock_up l)) F) + cnt (waits (lock_sema l)) th =
      of_bool (s = lock_sema l) + cnt (takes l) th + cnt ((=) (K_lock_up l)) th + length (filter (waits (lock_sema l)) F)"
    and wts: "\<And>s'. cnt (waits s') th \<le> length (filter (waits s') F) + of_bool (s' = s)"
    and d: "sema_down_loop s lv (k\<lparr>if_flag := b, threads := (threads k)(running k \<mapsto> th\<lparr>frames := F\<rparr>)\<rparr>) = Some k'"
  shows "kinv L k'"
proof (cases "sema_value (semas k s) = 0")
  case False
  then have "intr_set_level lv (upd_sema s (sema_value_update (\<lambda>v. v - 1))
      (k\<lparr>if_flag := b, threads := (threads k)(running k \<mapsto> th\<lparr>frames := F\<rparr>)\<rparr>)) = Some k'"
    using d by (simp add: sema_down_loop_def)
  then show ?thesis
    by (rule intr_set_level_inv [rotated]) (rule sema_take_inv [OF inv th False stk _ crt bal wts], use idle in simp_all)
next
  case True
  let ?k1 = "k\<lparr>if_flag := b, semas := (semas k)(s := (semas k s)\<lparr>waiters := waiters (semas k s) @ [running k]\<rparr>),
      threads := (threads k)(running k \<mapsto> th\<lparr>frames := K_sema_down s lv # F, status := THREAD_BLOCKED\<rparr>)\<rparr>"
  have "schedule ?k1 = Some k'"
    using d True
    by (auto simp: sema_down_loop_def thread_block_def upd_thread_def push_frame_def upd_sema_def Let_def bind_eq_Some_conv
        dest!: thread_current_eq)
  then show ?thesis
    by (rule schedule_inv [rotated]) (rule sema_block_inv [OF inv th True stk idle held crt bal wts refl])
qed

lemma sema_down_inv:
  assumes inv: "kinv L k" and s: "s \<notin> lock_sema ` L" and idle: "running k \<noteq> idle_thread k" and d: "sema_down s k = Some k'"
  shows "kinv L k'"
proof -
  obtain th where th: "threads k (running k) = Some th" "stack_ok L (frames th)" using running_thread [OF inv] by blast
  have "(k\<lparr>if_flag := False, threads := (threads k)(running k \<mapsto> th\<lparr>frames := frames th\<rparr>)\<rparr>) = intr_disable k"
    using th by (simp add: intr_disable_def fun_upd_idem)
  then have "sema_down_loop s (if_flag k) (k\<lparr>if_flag := False, threads := (threads k)(running k \<mapsto> th\<lparr>frames := frames th\<rparr>)\<rparr>) = Some k'"
    using d by (simp add: sema_down_def bind_eq_Some_conv)
  from sema_down_loop_inv [OF inv th(1) th(2) idle _ _ _ _ this] show ?thesis using s by auto
qed

lemma lock_acquire_down_inv:
  assumes inv: "kinv L k" and th: "threads k (running k) = Some th" "frames th = K_lock_down l # frs"
    and idle: "running k \<noteq> idle_thread k" and l: "l \<in> L"
    and d: "lock_acquire_down l (k\<lparr>threads := (threads k)(running k \<mapsto> th\<lparr>frames := frs\<rparr>)\<rparr>) = Some k'"
  shows "kinv L k'"
proof -
  obtain th0 where "threads k (running k) = Some th0" "stack_ok L (frames th0)" using running_thread [OF inv] by blast
  then have stk: "stack_ok L (K_lock_down l # frs)" using th by simp
  have "sema_down_loop (lock_sema l) (if_flag k)
      (k\<lparr>if_flag := False, threads := (threads k)(running k \<mapsto> th\<lparr>frames := K_lock_held l # frs\<rparr>)\<rparr>) = Some k'"
    using d by (auto simp: lock_acquire_down_def sema_down_def push_frame_def upd_thread_def intr_disable_def bind_eq_Some_conv)
  from sema_down_loop_inv [OF inv th(1) _ idle _ _ _ _ this] show ?thesis using stk th(2) l by auto
qed

lemma resume_sema_down_inv:
  assumes inv: "kinv L k" and th: "threads k (running k) = Some th" "frames th = K_sema_down s lv # frs"
    and idle: "running k \<noteq> idle_thread k"
    and d: "sema_down_loop s lv (k\<lparr>threads := (threads k)(running k \<mapsto> th\<lparr>frames := frs\<rparr>)\<rparr>) = Some k'"
  shows "kinv L k'"
proof -
  obtain th0 where "threads k (running k) = Some th0" "stack_ok L (frames th0)" using running_thread [OF inv] by blast
  then have stk: "stack_ok L (K_sema_down s lv # frs)" using th by simp
  have "sema_down_loop s lv (k\<lparr>if_flag := if_flag k, threads := (threads k)(running k \<mapsto> th\<lparr>frames := frs\<rparr>)\<rparr>) = Some k'"
    using d by simp
  from sema_down_loop_inv [OF inv th(1) _ idle _ _ _ _ this] show ?thesis using stk th(2) by auto
qed

lemma unat_succ_le: "unat (v + 1 :: u32) \<le> unat v + 1"
  by (simp add: unat_word_ariths)

lemma sema_give_inv:
  assumes inv: "kinv L k" and th: "threads k (running k) = Some th"
    and slack: "waiters (semas k s) \<noteq> [] \<Longrightarrow>
      unat (sema_value (semas k s)) + length (waiters (semas k s)) + 1 \<le> fcount (waits s) (threads k)"
    and stk: "stack_ok L F" and idle: "running k = idle_thread k \<Longrightarrow> set F \<subseteq> idle_frames"
    and crt: "\<And>u. length (filter (\<lambda>fr. creates fr u) F) \<le> cnt (\<lambda>fr. creates fr u) th"
    and bal: "\<And>l. l \<in> L \<Longrightarrow>
      of_bool (s = lock_sema l) + length (filter (takes l) F) + length (filter ((=) (K_lock_up l)) F) =
      cnt (takes l) th + cnt ((=) (K_lock_up l)) th"
    and wts: "\<And>s'. cnt (waits s') th = length (filter (waits s') F)"
    and k': "k' = k\<lparr>if_flag := b, semas := (semas k)(s := (semas k s)\<lparr>sema_value := sema_value (semas k s) + 1\<rparr>),
      threads := (threads k)(running k \<mapsto> th\<lparr>frames := F\<rparr>)\<rparr>"
  shows "kinv L k'"
proof -
  have inv0: "kinv0 L k" using inv by (simp add: kinv_def)
  let ?th = "th\<lparr>frames := F\<rparr>"
  have T: "threads k' = (threads k)(running k \<mapsto> ?th)" by (simp add: k')
  have mut: "mutex_ok L k'"
  proof (rule mutex_step [OF inv0 th T])
    fix l
    assume l: "l \<in> L"
    have "unat (sema_value (semas k (lock_sema l))) \<le> 1"
      using token_unique [OF inv0 l] by (simp add: token_sum_def)
    then have "unat (sema_value (semas k (lock_sema l)) + 1) = unat (sema_value (semas k (lock_sema l))) + 1"
      by (simp add: unat_word_ariths)
    then have "token_sum k' l = token_sum k l + of_bool (s = lock_sema l)"
      by (auto simp: token_sum_def k')
    then show "token_sum k' l + cnt (takes l) ?th + cnt ((=) (K_lock_up l)) ?th + cnt (waits (lock_sema l)) th =
        token_sum k l + cnt (takes l) th + cnt ((=) (K_lock_up l)) th + cnt (waits (lock_sema l)) ?th"
      using bal [OF l] wts by simp
  qed
  have f: "fcount (waits s') (threads k') = fcount (waits s') (threads k)" for s'
  proof -
    have "fcount (waits s') (threads k') + cnt (waits s') th = fcount (waits s') (threads k) + cnt (waits s') ?th"
      unfolding T using inv0 th by (intro fcount_upd) simp_all
    then show ?thesis using wts by simp
  qed
  have wake: "wake_ok k'"
    unfolding wake_ok_def f
  proof (intro allI impI)
    fix s'
    assume w: "waiters (semas k' s') \<noteq> []"
    show "unat (sema_value (semas k' s')) + length (waiters (semas k' s')) \<le> fcount (waits s') (threads k)"
      using w slack unat_succ_le [of "sema_value (semas k s)"] kinv0D(14) [OF inv0]
      by (cases "s' = s") (auto simp: k' wake_ok_def)
  qed
  show ?thesis
    by (rule frames_inv [OF inv th T _ _ _ _ _ _ stk])
      (use idle crt mut wake kinv0D(12) [OF inv0] in \<open>auto simp: k' conds_ok_def readyq_def\<close>)
qed

lemma thread_unblock_state:
  assumes "thread_unblock t k = Some k'"
  shows "\<exists>th qs m. threads k t = Some th \<and> status th = THREAD_BLOCKED \<and>
    k' = k\<lparr>ready_list := qs, mlfqs_list := m, threads := (threads k)(t \<mapsto> th\<lparr>status := THREAD_READY\<rparr>)\<rparr> \<and>
    mset (readyq k') = add_mset t (mset (readyq k))"
proof -
  obtain th k1 k2 where th: "threads k t = Some th" "status th = THREAD_BLOCKED"
    and k1: "enqueue_ready t (intr_disable k) = Some k1"
    and k2: "upd_thread t (status_update (\<lambda>_. THREAD_READY)) k1 = Some k2"
    and k': "intr_set_level (if_flag k) k2 = Some k'"
    using assms by (auto simp: thread_unblock_def Let_def bind_eq_Some_conv intr_disable_def)
  obtain qs m where q: "k1 = (intr_disable k)\<lparr>ready_list := qs, mlfqs_list := m\<rparr>"
    using enqueue_ready_mset(2) [OF k1] by blast
  have "k' = k\<lparr>ready_list := qs, mlfqs_list := m, threads := (threads k)(t \<mapsto> th\<lparr>status := THREAD_READY\<rparr>)\<rparr>"
    using intr_set_level_eq [OF k'] k2 th by (auto simp: q upd_thread_def intr_disable_def)
  moreover have "readyq k' = readyq k1"
    using calculation by (simp add: q intr_disable_def readyq_def)
  moreover have "mset (readyq k1) = add_mset t (mset (readyq k))"
    using enqueue_ready_mset(1) [OF k1] by (simp add: intr_disable_def)
  ultimately show ?thesis using th by metis
qed

lemma wake_waiter_inv:
  assumes inv: "kinv L k" and t: "t \<in> set (waiters (semas k s))" and th: "threads k t = Some th"
    and k1: "k1 = k\<lparr>if_flag := b, semas := (semas k)(s := (semas k s)\<lparr>waiters := remove1 t (waiters (semas k s))\<rparr>),
      ready_list := qs, mlfqs_list := m, threads := (threads k)(t \<mapsto> th\<lparr>status := THREAD_READY\<rparr>)\<rparr>"
    and rdy: "mset (readyq k1) = add_mset t (mset (readyq k))"
  shows "kinv L k1"
    and "unat (sema_value (semas k1 s)) + length (waiters (semas k1 s)) + 1 \<le> fcount (waits s) (threads k1)"
proof -
  have inv0: "kinv0 L k" using inv by (simp add: kinv_def)
  note wf = waiter_facts [OF inv t]
  let ?th = "th\<lparr>status := THREAD_READY\<rparr>"
  have T: "threads k1 = (threads k)(t \<mapsto> ?th)" by (simp add: k1)
  obtain w: "status th = THREAD_BLOCKED" "sleep_ticks th = 0" using waiters_okD [OF inv0 t] th by auto
  have stk: "stack_ok L (frames th)" using kinv0D(11) [OF inv0] th by (simp add: stacks_ok_def)
  have f: "fcount P (threads k1) = fcount P (threads k)" for P
    unfolding T using inv0 th by (intro fcount_same) simp_all
  have len: "length (waiters (semas k s)) = length (remove1 t (waiters (semas k s))) + 1"
    using t length_pos_if_in_set [OF t] by (simp add: length_remove1)
  have ok: "unat (sema_value (semas k s)) + length (waiters (semas k s)) \<le> fcount (waits s) (threads k)"
    using kinv0D(14) [OF inv0] t by (force simp: wake_ok_def)
  show "unat (sema_value (semas k1 s)) + length (waiters (semas k1 s)) + 1 \<le> fcount (waits s) (threads k1)"
    unfolding f using ok len by (simp add: k1)
  have wait: "waiters (semas k1 s') = remove1 t (waiters (semas k s'))" for s'
    using wf(4) [of s'] by (cases "s' = s") (simp_all add: k1 remove1_idem)
  have wake: "wake_ok k1"
    unfolding wake_ok_def f
  proof (intro allI impI)
    fix s'
    assume a: "waiters (semas k1 s') \<noteq> []"
    show "unat (sema_value (semas k1 s')) + length (waiters (semas k1 s')) \<le> fcount (waits s') (threads k)"
      using a ok len kinv0D(14) [OF inv0] by (cases "s' = s") (auto simp: k1 wake_ok_def)
  qed
  have mut: "mutex_ok L k1"
    using kinv0D(13) [OF inv0] unfolding mutex_ok_def tokens_def f by (auto simp: k1)
  have "kinv0 L k1"
  proof (rule unblock_inv [OF inv0 th w(1) wf(1,2) T])
    show "fcount (\<lambda>fr. creates fr u) (threads k1) \<le> 1" for u unfolding f by (rule create_ok_count [OF inv0])
    show "\<not> creates fr t" if "threads k1 x = Some thx" "fr \<in> set (frames thx)" for x thx fr
      using that wf(3) [of x] wf(3) [OF th] by (cases "x = t") (auto simp: k1)
    show "create_target k u" if "fr \<in> set (frames (th\<lparr>status := THREAD_READY\<rparr>))" "creates fr u" for fr u
      using create_okD [OF inv0 th] that by simp
  qed (use w stk rdy wait mut wake in \<open>simp_all add: k1\<close>)
  then show "kinv L k1" using inv wf(1) by (simp add: kinv_def k1)
qed

text \<open>Everything of \<open>sema_up\<close> but the final yield.\<close>

lemma sema_up_state_inv:
  assumes inv: "kinv L k" and th: "threads k (running k) = Some th"
    and stk: "stack_ok L F" and idle: "running k = idle_thread k \<Longrightarrow> set F \<subseteq> idle_frames"
    and crt: "\<And>u. length (filter (\<lambda>fr. creates fr u) F) \<le> cnt (\<lambda>fr. creates fr u) th"
    and bal: "\<And>l. l \<in> L \<Longrightarrow>
      of_bool (s = lock_sema l) + length (filter (takes l) F) + length (filter ((=) (K_lock_up l)) F) =
      cnt (takes l) th + cnt ((=) (K_lock_up l)) th"
    and wts: "\<And>s'. cnt (waits s') th = length (filter (waits s') F)"
    and w: "sema_wake s (k\<lparr>if_flag := b, threads := (threads k)(running k \<mapsto> th\<lparr>frames := F\<rparr>)\<rparr>) = Some (p, kw)"
  shows "kinv L (upd_sema s (sema_value_update (\<lambda>v. v + 1)) kw)"
proof (cases "waiters (semas k s) = []")
  case True
  then have kw: "kw = k\<lparr>if_flag := b, threads := (threads k)(running k \<mapsto> th\<lparr>frames := F\<rparr>)\<rparr>"
    using w by (simp add: sema_wake_def)
  show ?thesis
    by (rule sema_give_inv [OF inv th _ stk idle crt bal wts, where b = b])
      (use True in \<open>simp_all add: upd_sema_def kw\<close>)
next
  case False
  let ?kp = "k\<lparr>if_flag := b, threads := (threads k)(running k \<mapsto> th\<lparr>frames := F\<rparr>)\<rparr>"
  obtain mx where mx: "max_thread ?kp (waiters (semas k s)) = Some mx"
    and ub: "thread_unblock mx (upd_sema s (waiters_update (remove1 mx)) ?kp) = Some kw"
    using w False by (auto simp: sema_wake_def Let_def bind_eq_Some_conv)
  have t: "mx \<in> set (waiters (semas k s))" using mx by (rule max_thread_mem)
  note wf = waiter_facts [OF inv t]
  obtain mth qs m where mth: "threads k mx = Some mth"
    and kw: "kw = (upd_sema s (waiters_update (remove1 mx)) ?kp)\<lparr>ready_list := qs, mlfqs_list := m,
      threads := (threads ?kp)(mx \<mapsto> mth\<lparr>status := THREAD_READY\<rparr>)\<rparr>"
    and rq: "mset (readyq kw) = add_mset mx (mset (readyq k))"
    using thread_unblock_state [OF ub] wf(1) by (auto simp: upd_sema_def)
  let ?k1 = "k\<lparr>if_flag := b, semas := (semas k)(s := (semas k s)\<lparr>waiters := remove1 mx (waiters (semas k s))\<rparr>),
      ready_list := qs, mlfqs_list := m, threads := (threads k)(mx \<mapsto> mth\<lparr>status := THREAD_READY\<rparr>)\<rparr>"
  have "readyq ?k1 = readyq kw" unfolding readyq_def by (simp add: kw upd_sema_def)
  then have rq1: "mset (readyq ?k1) = add_mset mx (mset (readyq k))" using rq by simp
  note k1 = wake_waiter_inv [OF inv t mth refl rq1]
  have th1: "threads ?k1 (running ?k1) = Some th" using th wf(1) by simp
  have "upd_sema s (sema_value_update (\<lambda>v. v + 1)) kw =
      ?k1\<lparr>if_flag := b, semas := (semas ?k1)(s := (semas ?k1 s)\<lparr>sema_value := sema_value (semas ?k1 s) + 1\<rparr>),
        threads := (threads ?k1)(running ?k1 \<mapsto> th\<lparr>frames := F\<rparr>)\<rparr>"
    using wf(1) by (simp add: kw upd_sema_def fun_upd_twist)
  from sema_give_inv [OF k1(1) th1 k1(2) stk _ crt bal wts this] show ?thesis using idle by simp
qed

lemma yield_tail_inv:
  assumes "kinv L k" "running k = idle_thread k \<Longrightarrow> fr \<in> idle_frames" "plain fr" "frame_ok L fr" "fr \<noteq> K_body"
    "Option.bind (push_frame fr k) thread_yield = Some k'"
  shows "kinv L k'"
proof -
  obtain k1 where k1: "push_frame fr k = Some k1" "thread_yield k1 = Some k'" using assms(6) by (auto simp: bind_eq_Some_conv)
  have "kinv L k1" by (rule push_plain_inv [OF assms(1) k1(1)]) (use assms in auto)
  then show ?thesis using k1(2) by (rule thread_yield_inv)
qed

lemma sema_up_loop_inv:
  assumes inv: "kinv L k" and th: "threads k (running k) = Some th"
    and stk: "stack_ok L F" and idle: "running k = idle_thread k \<Longrightarrow> set F \<subseteq> idle_frames"
    and crt: "\<And>u. length (filter (\<lambda>fr. creates fr u) F) \<le> cnt (\<lambda>fr. creates fr u) th"
    and bal: "\<And>l. l \<in> L \<Longrightarrow>
      of_bool (s = lock_sema l) + length (filter (takes l) F) + length (filter ((=) (K_lock_up l)) F) =
      cnt (takes l) th + cnt ((=) (K_lock_up l)) th"
    and wts: "\<And>s'. cnt (waits s') th = length (filter (waits s') F)"
    and u: "sema_up s (k\<lparr>threads := (threads k)(running k \<mapsto> th\<lparr>frames := F\<rparr>)\<rparr>) = Some k'"
  shows "kinv L k'"
proof -
  have "\<exists>p kw. sema_wake s (k\<lparr>if_flag := False, threads := (threads k)(running k \<mapsto> th\<lparr>frames := F\<rparr>)\<rparr>) = Some (p, kw) \<and>
      (intr_set_level (if_flag k) (upd_sema s (sema_value_update (\<lambda>v. v + 1)) kw) = Some k' \<or>
       Option.bind (push_frame (K_set_level (if_flag k)) (upd_sema s (sema_value_update (\<lambda>v. v + 1)) kw)) thread_yield = Some k')"
    using u unfolding sema_up_def Let_def intr_disable_def
    by (auto simp: bind_eq_Some_conv simp del: sema_upd_eqs split: if_splits)
  then obtain p kw where w: "sema_wake s (k\<lparr>if_flag := False, threads := (threads k)(running k \<mapsto> th\<lparr>frames := F\<rparr>)\<rparr>) = Some (p, kw)"
    and t: "intr_set_level (if_flag k) (upd_sema s (sema_value_update (\<lambda>v. v + 1)) kw) = Some k' \<or>
       Option.bind (push_frame (K_set_level (if_flag k)) (upd_sema s (sema_value_update (\<lambda>v. v + 1)) kw)) thread_yield = Some k'"
    by blast
  have kz: "kinv L (upd_sema s (sema_value_update (\<lambda>v. v + 1)) kw)"
    by (rule sema_up_state_inv [OF inv th stk idle crt bal wts w])
  from t show ?thesis
    using intr_set_level_inv [OF kz] yield_tail_inv [OF kz, of "K_set_level (if_flag k)"] by (auto simp: idle_frames_def)
qed

lemma sema_up_inv:
  assumes inv: "kinv L k" and s: "s \<notin> lock_sema ` L" and u: "sema_up s k = Some k'"
  shows "kinv L k'"
proof -
  obtain th where th: "threads k (running k) = Some th" "stack_ok L (frames th)"
    "running k = idle_thread k \<longrightarrow> set (frames th) \<subseteq> idle_frames" using running_thread [OF inv] by blast
  have "k\<lparr>threads := (threads k)(running k \<mapsto> th\<lparr>frames := frames th\<rparr>)\<rparr> = k" using th(1) by (simp add: fun_upd_idem)
  then have "sema_up s (k\<lparr>threads := (threads k)(running k \<mapsto> th\<lparr>frames := frames th\<rparr>)\<rparr>) = Some k'" using u by simp
  from sema_up_loop_inv [OF inv th(1,2) _ _ _ _ this] show ?thesis using s th(3) by auto
qed

lemma lock_release_up_inv:
  assumes inv: "kinv L k" and th: "threads k (running k) = Some th" "frames th = K_lock_up l # frs"
    and idle: "running k \<noteq> idle_thread k" and l: "l \<in> L"
    and u: "lock_release_up l (k\<lparr>threads := (threads k)(running k \<mapsto> th\<lparr>frames := frs\<rparr>)\<rparr>) = Some k'"
  shows "kinv L k'"
proof -
  obtain th0 where "threads k (running k) = Some th0" "stack_ok L (frames th0)" using running_thread [OF inv] by blast
  then have stk: "stack_ok L (K_lock_up l # frs)" using th by simp
  have "sema_up (lock_sema l) (k\<lparr>threads := (threads k)(running k \<mapsto> th\<lparr>frames := K_lock_unlist l # frs\<rparr>)\<rparr>) = Some k'"
    using u by (auto simp: lock_release_up_def push_frame_def upd_thread_def bind_eq_Some_conv)
  from sema_up_loop_inv [OF inv th(1) _ _ _ _ _ this] show ?thesis using stk th(2) l idle by auto
qed

end
