(* ===== verification/Kernel_Calls.thy ===== *)
theory Kernel_Calls
  imports Kernel_Steps
begin

text \<open>
  The remaining operations of the thread system preserve the invariant: locks, condition
  variables, thread creation, priorities and the timer.
\<close>

section \<open>Operations outside the view of the invariant\<close>

lemma reset_donate_loop_view:
  assumes "reset_donate_loop ls k = Some k'"
  shows "same_view k k'"
proof (rule reset_donate_loop.raw_induct [where P = "\<lambda>ls. same_view", OF _ assms])
  fix loop ls k k'
  assume IH: "\<And>ls k k'. loop ls k = Some k' \<Longrightarrow> same_view k k'"
    and body: "(case ls of [] \<Rightarrow> Some k
      | l # ls' \<Rightarrow> do {
          p \<leftarrow> waiters_max_priority k l;
          kassert (holder k l \<noteq> NULL);
          h \<leftarrow> threads k (holder k l);
          if p > priority h then do {
            k \<leftarrow> upd_thread (holder k l) (priority_update (\<lambda>_. p)) k;
            k \<leftarrow> loop (lock_list k) k;
            loop ls' k }
          else loop ls' k }) = Some k'"
  show "same_view k k'"
  proof (cases ls)
    case Nil
    then show ?thesis using body by simp
  next
    case (Cons l ls')
    obtain p h where p: "waiters_max_priority k l = Some p" "holder k l \<noteq> NULL" "threads k (holder k l) = Some h"
      using body Cons by (auto simp: bind_eq_Some_conv)
    show ?thesis
    proof (cases "p > priority h")
      case True
      then obtain k1 k2 where k1: "upd_thread (holder k l) (priority_update (\<lambda>_. p)) k = Some k1"
        and k2: "loop (lock_list k1) k1 = Some k2" "loop ls' k2 = Some k'"
        using body Cons p by (auto simp: bind_eq_Some_conv)
      have "same_view k k1" using k1 by (rule upd_thread_view) (simp add: tview_def)
      also have "same_view k1 k2" using k2(1) by (rule IH)
      also have "same_view k2 k'" using k2(2) by (rule IH)
      finally show ?thesis .
    next
      case False
      then have "loop ls' k = Some k'" using body Cons p by (auto simp: bind_eq_Some_conv)
      then show ?thesis by (rule IH)
    qed
  qed
qed

lemma intr_set_level_view: "intr_set_level lv k = Some k' \<Longrightarrow> same_view k k'"
  using intr_set_level_eq by fastforce

lemma reset_donate_priority_view: "reset_donate_priority k = Some k' \<Longrightarrow> same_view k k'"
proof -
  assume "reset_donate_priority k = Some k'"
  then obtain k1 where k1: "reset_donate_loop (lock_list k) (intr_disable k) = Some k1" "intr_set_level (if_flag k) k1 = Some k'"
    by (auto simp: reset_donate_priority_def Let_def bind_eq_Some_conv)
  have "same_view k (intr_disable k)" by (simp add: intr_disable_def)
  also have "same_view (intr_disable k) k1" using k1(1) by (rule reset_donate_loop_view)
  also have "same_view k1 k'" using k1(2) by (rule intr_set_level_view)
  finally show ?thesis .
qed

lemma append_lock_list_view: "append_lock_list l k = Some k' \<Longrightarrow> same_view k k'"
  by (auto simp: append_lock_list_def Let_def bind_eq_Some_conv intr_disable_def same_view_def dest!: intr_set_level_eq)

lemma remove_lock_list_view: "remove_lock_list l k = Some k' \<Longrightarrow> same_view k k'"
  by (auto simp: remove_lock_list_def Let_def bind_eq_Some_conv intr_disable_def same_view_def dest!: intr_set_level_eq)

lemma same_view_running: "same_view k k' \<Longrightarrow> running k' = running k \<and> idle_thread k' = idle_thread k"
  by (simp add: same_view_def)

lemma view_push_inv:
  assumes "kinv L k" "same_view k k1" "push_frame fr k1 = Some k'" "plain fr" "frame_ok L fr" "fr \<noteq> K_body"
    "running k \<noteq> idle_thread k"
  shows "kinv L k'"
  using push_plain_inv [OF same_view_kinv [OF assms(2,1)] assms(3-6)] same_view_running [OF assms(2)] assms(7) by simp

section \<open>Locks\<close>

lemma lock_acquire_inv:
  assumes inv: "kinv L k" and l: "l \<in> L" and idle: "running k \<noteq> idle_thread k" and a: "lock_acquire l k = Some k'"
  shows "kinv L k'"
proof -
  obtain k1 where k1: "(if lock_initial_state l k then append_lock_list l k else Some k) = Some k1"
    and p: "push_frame (K_lock_donate l) k1 = Some k'"
    using a by (auto simp: lock_acquire_def bind_eq_Some_conv)
  have "same_view k k1" using k1 append_lock_list_view by (auto split: if_splits)
  then show ?thesis by (rule view_push_inv [OF inv _ p]) (use l idle in simp_all)
qed

lemma lock_acquire_donate_inv:
  assumes inv: "kinv L k" and l: "l \<in> L" and idle: "running k \<noteq> idle_thread k" and a: "lock_acquire_donate l k = Some k'"
  shows "kinv L k'"
proof -
  obtain k1 where p: "push_frame (K_lock_down l) k1 = Some k'" and v: "same_view k k1"
  proof (cases "holder k l \<noteq> NULL \<and> \<not> thread_mlfqs k")
    case True
    then obtain th h k2 k1 where k2: "(if priority (th :: thread) > priority (h :: thread)
        then upd_thread (holder k l) (priority_update (\<lambda>_. priority th)) k else Some k) = Some k2"
      and k1: "reset_donate_priority k2 = Some k1" and p: "push_frame (K_lock_down l) k1 = Some k'"
      using a by (auto simp: lock_acquire_donate_def bind_eq_Some_conv)
    have "same_view k k2" using k2 upd_thread_view [of "holder k l" "priority_update (\<lambda>_. priority th)" k k2]
      by (auto simp: tview_def split: if_splits)
    also have "same_view k2 k1" using k1 by (rule reset_donate_priority_view)
    finally show ?thesis using that p by blast
  next
    case False
    then have "push_frame (K_lock_down l) k = Some k'" using a by (auto simp: lock_acquire_donate_def)
    then show ?thesis using that same_view_refl by blast
  qed
  from view_push_inv [OF inv v p] show ?thesis using l idle by simp
qed

lemma holder_change_inv:
  assumes inv: "kinv L k" and th: "threads k (running k) = Some th" and l: "l \<in> L"
    and idle: "running k \<noteq> idle_thread k"
    and k': "k' = k\<lparr>holder := (holder k)(l := h), semas := S, threads := (threads k)(running k \<mapsto> th\<lparr>frames := F\<rparr>)\<rparr>"
    and S: "\<And>s. waiters (S s) = waiters (semas k s)" "\<And>s. unat (sema_value (S s)) \<le> unat (sema_value (semas k s))"
      "\<And>l'. l' \<in> L \<Longrightarrow> l' \<noteq> l \<Longrightarrow> sema_value (S (lock_sema l')) = sema_value (semas k (lock_sema l'))"
    and stk: "stack_ok L F"
    and crt: "\<And>u. length (filter (\<lambda>fr. creates fr u) F) \<le> cnt (\<lambda>fr. creates fr u) th"
    and wts: "\<And>s. length (filter (waits s) F) = cnt (waits s) th"
    and other: "\<And>l'. l' \<noteq> l \<Longrightarrow> length (filter (takes l') F) = cnt (takes l') th \<and>
      length (filter ((=) (K_lock_up l')) F) = cnt ((=) (K_lock_up l')) th"
    and bal: "unat (sema_value (S (lock_sema l))) + of_bool (h \<noteq> NULL) +
        length (filter (takes l) F) + length (filter ((=) (K_lock_up l)) F) =
      token_sum k l + cnt (takes l) th + cnt ((=) (K_lock_up l)) th"
  shows "kinv L k'"
proof -
  have inv0: "kinv0 L k" using inv by (simp add: kinv_def)
  let ?th = "th\<lparr>frames := F\<rparr>"
  have T: "threads k' = (threads k)(running k \<mapsto> ?th)" by (simp add: k')
  have mut: "mutex_ok L k'"
  proof (rule mutex_step [OF inv0 th T])
    fix l'
    assume l': "l' \<in> L"
    show "token_sum k' l' + cnt (takes l') ?th + cnt ((=) (K_lock_up l')) ?th + cnt (waits (lock_sema l')) th =
        token_sum k l' + cnt (takes l') th + cnt ((=) (K_lock_up l')) th + cnt (waits (lock_sema l')) ?th"
      using bal other [of l'] wts S(3) [OF l'] by (cases "l' = l") (simp_all add: token_sum_def k')
  qed
  have wake: "wake_ok k'"
    by (rule wake_step [OF inv0 th T]) (use S(1,2) wts in \<open>auto simp: k'\<close>)
  show ?thesis
    by (rule frames_inv [OF inv th T _ _ _ _ _ _ stk])
      (use idle crt mut wake S(1) kinv0D(12) [OF inv0] in \<open>auto simp: k' conds_ok_def readyq_def\<close>)
qed

text \<open>A thread that takes the lock records itself as its holder.\<close>

lemma take_holder_inv:
  assumes inv: "kinv L k" and th: "threads k (running k) = Some th" "frames th = fr # frs"
    and fr: "takes l fr" and idle: "running k \<noteq> idle_thread k" and l: "l \<in> L"
  shows "kinv L (k\<lparr>holder := (holder k)(l := running k), semas := semas k, threads := (threads k)(running k \<mapsto> th\<lparr>frames := frs\<rparr>)\<rparr>)"
proof -
  have inv0: "kinv0 L k" using inv by (simp add: kinv_def)
  obtain th0 where "threads k (running k) = Some th0" "stack_ok L (frames th0)" using running_thread [OF inv] by blast
  then have stk: "stack_ok L (fr # frs)" using th by simp
  have fr': "\<not> waits s fr" "\<not> creates fr u" "takes l' fr \<longleftrightarrow> l' = l" "K_lock_up l' \<noteq> fr" for s u l'
    using fr by (cases fr; auto)+
  have "cnt (waits (lock_sema l)) th + 1 \<le> cnt (takes l) th"
    using stack_held_ge_waits [OF l, of frs] stk th(2) fr' by simp
  moreover have "cnt (takes l) th + fcount (waits (lock_sema l)) (threads k) \<le>
      cnt (waits (lock_sema l)) th + fcount (takes l) (threads k)"
  proof -
    let ?T = "(threads k)(running k \<mapsto> th\<lparr>frames := []\<rparr>)"
    have le: "fcount (waits (lock_sema l)) ?T \<le> fcount (takes l) ?T"
      by (rule fcount_mono)
        (use kinv0D(11) [OF inv0] stack_held_ge_waits [OF l] in \<open>auto simp: stacks_ok_def split: if_splits\<close>)
    have f: "fcount P ?T + cnt P th = fcount P (threads k)" for P
      using fcount_upd [OF finite_threads [OF inv0] th(1), of P "th\<lparr>frames := []\<rparr>"] by simp
    show ?thesis using le f [of "waits (lock_sema l)"] f [of "takes l"] by linarith
  qed
  ultimately have zero: "token_sum k l = 0" using token_unique [OF inv0 l] by linarith
  then have free: "holder k l = NULL" "token_sum k l = 0" by (auto simp: token_sum_def)
  have nn: "running k \<noteq> NULL" using th(1) threads_okD(1) [OF inv0] by auto
  show ?thesis
    by (rule holder_change_inv [OF inv th(1) l idle refl])
      (use stk th(2) free nn fr' in \<open>auto simp: token_sum_def\<close>)
qed

lemma lock_acquire_held_inv:
  assumes inv: "kinv L k" and th: "threads k (running k) = Some th" "frames th = K_lock_held l # frs"
    and idle: "running k \<noteq> idle_thread k" and l: "l \<in> L"
    and a: "lock_acquire_held l (k\<lparr>threads := (threads k)(running k \<mapsto> th\<lparr>frames := frs\<rparr>)\<rparr>) = Some k'"
  shows "kinv L k'"
proof -
  let ?k1 = "k\<lparr>holder := (holder k)(l := running k), semas := semas k, threads := (threads k)(running k \<mapsto> th\<lparr>frames := frs\<rparr>)\<rparr>"
  have "kinv L ?k1" by (rule take_holder_inv [OF inv th _ idle l]) simp
  moreover have "same_view ?k1 k'"
    using a by (auto simp: lock_acquire_held_def upd_thread_def bind_eq_Some_conv same_view_def tview_def
        dest!: thread_current_eq)
  ultimately show ?thesis by (rule same_view_kinv [rotated])
qed

lemma lock_try_acquire_held_inv:
  assumes inv: "kinv L k" and th: "threads k (running k) = Some th" "frames th = K_try_held l # frs"
    and idle: "running k \<noteq> idle_thread k" and l: "l \<in> L"
    and a: "lock_try_acquire_held l (k\<lparr>threads := (threads k)(running k \<mapsto> th\<lparr>frames := frs\<rparr>)\<rparr>) = Some k'"
  shows "kinv L k'"
proof -
  have "k' = k\<lparr>holder := (holder k)(l := running k), semas := semas k, threads := (threads k)(running k \<mapsto> th\<lparr>frames := frs\<rparr>)\<rparr>"
    using a by (auto simp: lock_try_acquire_held_def bind_eq_Some_conv dest!: thread_current_eq)
  then show ?thesis using take_holder_inv [OF inv th _ idle l] by simp
qed

lemma lock_release_inv:
  assumes inv: "kinv L k" and l: "l \<in> L" and idle: "running k \<noteq> idle_thread k" and a: "lock_release l k = Some k'"
  shows "kinv L k'"
proof -
  have inv0: "kinv0 L k" using inv by (simp add: kinv_def)
  obtain k1 k2 th1 where held: "holder k l = running k"
    and k1: "upd_thread (running k) (all_locks_update (remove1 l)) k = Some k1"
    and k2: "(if \<not> thread_mlfqs k1 then do {
        m \<leftarrow> max_donate_priority k1 0 (all_locks th1);
        upd_thread (running k) (priority_update (\<lambda>_. if m > priority_old (th1 :: thread) then m else priority_old th1)) k1 }
      else Some k1) = Some k2"
    and k': "push_frame (K_lock_up l) (k2\<lparr>holder := (holder k2)(l := NULL)\<rparr>) = Some k'"
    using a by (auto simp: lock_release_def lock_held_by_current_thread_def bind_eq_Some_conv dest!: thread_current_eq)
  have "same_view k k1" using k1 by (rule upd_thread_view) (simp add: tview_def)
  moreover have "same_view k1 k2"
    using k2 by (auto simp: tview_def bind_eq_Some_conv split: if_splits intro: upd_thread_view)
  ultimately have v: "same_view k k2" by (rule same_view_trans)
  have inv2: "kinv L k2" using v inv by (rule same_view_kinv)
  have inv20: "kinv0 L k2" using inv2 by (simp add: kinv_def)
  obtain th where th: "threads k2 (running k2) = Some th" "stack_ok L (frames th)" using running_thread [OF inv2] by blast
  have r: "running k2 = running k" "holder k2 = holder k" "idle_thread k2 = idle_thread k" using v by (simp_all add: same_view_def)
  have nn: "running k2 \<noteq> NULL" using th(1) threads_okD(1) [OF inv20] by auto
  have "k' = k2\<lparr>holder := (holder k2)(l := NULL), semas := semas k2, threads := (threads k2)(running k2 \<mapsto> th\<lparr>frames := K_lock_up l # frames th\<rparr>)\<rparr>"
    using k' th by (auto simp: push_frame_def upd_thread_def)
  from holder_change_inv [OF inv2 th(1) l _ this] show ?thesis
    using th(2) l idle held r nn by (auto simp: token_sum_def)
qed

lemma sema_try_down_inv:
  assumes inv: "kinv L k" and s: "s \<notin> lock_sema ` L" and d: "sema_try_down s k = Some (ok, k')"
  shows "kinv L k'"
proof -
  obtain th where th: "threads k (running k) = Some th" "stack_ok L (frames th)"
    "running k = idle_thread k \<longrightarrow> set (frames th) \<subseteq> idle_frames" using running_thread [OF inv] by blast
  have idem: "k\<lparr>if_flag := False, threads := (threads k)(running k \<mapsto> th\<lparr>frames := frames th\<rparr>)\<rparr> = intr_disable k"
    using th(1) by (simp add: fun_upd_idem intr_disable_def)
  show ?thesis
  proof (cases "sema_value (semas k s) = 0")
    case True
    then have "intr_set_level (if_flag k) (intr_disable k) = Some k'"
      using d by (auto simp: sema_try_down_def Let_def intr_disable_def bind_eq_Some_conv)
    then show ?thesis using inv by (metis intr_set_level_eq intr_disable_def same_view_fields(1) same_view_kinv)
  next
    case False
    then have v: "0 < sema_value (semas k s)" by (simp add: word_gt_0)
    have "kinv L (upd_sema s (sema_value_update (\<lambda>v. v - 1)) (intr_disable k))"
      unfolding idem [symmetric]
      by (rule sema_take_inv [OF inv th(1) False th(2)]) (use th(3) s in auto)
    moreover have "intr_set_level (if_flag k) (upd_sema s (sema_value_update (\<lambda>v. v - 1)) (intr_disable k)) = Some k'"
      using d v by (auto simp: sema_try_down_def Let_def intr_disable_def bind_eq_Some_conv simp del: sema_upd_eqs)
    ultimately show ?thesis by (rule intr_set_level_inv)
  qed
qed

lemma lock_try_acquire_inv:
  assumes inv: "kinv L k" and l: "l \<in> L" and idle: "running k \<noteq> idle_thread k" and d: "lock_try_acquire l k = Some (ok, k')"
  shows "kinv L k'"
proof -
  obtain th where th: "threads k (running k) = Some th" "stack_ok L (frames th)" using running_thread [OF inv] by blast
  let ?s = "lock_sema l"
  show ?thesis
  proof (cases "sema_value (semas k ?s) = 0")
    case True
    then have "intr_set_level (if_flag k) (intr_disable k) = Some k'"
      using d by (auto simp: lock_try_acquire_def sema_try_down_def Let_def intr_disable_def bind_eq_Some_conv)
    then show ?thesis using inv by (metis intr_set_level_eq intr_disable_def same_view_fields(1) same_view_kinv)
  next
    case False
    then have v: "0 < sema_value (semas k ?s)" by (simp add: word_gt_0)
    let ?k1 = "upd_sema ?s (sema_value_update (\<lambda>v. v - 1))
      (k\<lparr>if_flag := False, threads := (threads k)(running k \<mapsto> th\<lparr>frames := K_try_held l # frames th\<rparr>)\<rparr>)"
    have "kinv L ?k1"
      by (rule sema_take_inv [OF inv th(1) False]) (use th(2) idle l in auto)
    moreover have "same_view ?k1 k'"
      using d v th(1)
      by (auto simp: lock_try_acquire_def sema_try_down_def Let_def intr_disable_def bind_eq_Some_conv same_view_def
          upd_sema_def push_frame_def upd_thread_def readyq_def dest!: intr_set_level_eq)
    ultimately show ?thesis by (rule same_view_kinv [rotated])
  qed
qed

lemma lock_release_unlist_inv: "kinv L k \<Longrightarrow> lock_release_unlist l k = Some k' \<Longrightarrow> kinv L k'"
  by (auto simp: lock_release_unlist_def split: if_splits intro: same_view_kinv [OF remove_lock_list_view])

section \<open>Condition variables\<close>

lemma cond_signal_inv:
  assumes inv: "kinv L k" and s: "cond_signal c l k = Some k'"
  shows "kinv L k'"
proof (cases "cond_waiters k c")
  case Nil
  then show ?thesis using inv s by (auto simp: cond_signal_def bind_eq_Some_conv)
next
  case (Cons w ws)
  define mx where "mx = max_from (\<lambda>a b. cond_waiter_priority k a < cond_waiter_priority k b) w ws"
  let ?k1 = "k\<lparr>cond_waiters := (cond_waiters k)(c := remove1 mx (w # ws))\<rparr>"
  have up: "sema_up (waiter_sema mx) ?k1 = Some k'"
    using s Cons unfolding mx_def by (auto simp: cond_signal_def bind_eq_Some_conv Let_def simp del: remove1.simps)
  have "max_from lt y ys \<in> insert y (set ys)" for lt y and ys :: "addr list" by (induction ys arbitrary: y) auto
  then have mem: "mx \<in> set (cond_waiters k c)" using Cons by (auto simp: mx_def)
  have inv0: "kinv0 L k" using inv by (simp add: kinv_def)
  have sub: "set (remove1 mx (w # ws)) \<subseteq> set (cond_waiters k c)" using set_remove1_subset [of mx "w # ws"] Cons by simp
  have "conds_ok L ?k1" unfolding conds_ok_def
  proof (intro allI ballI)
    fix c' w'
    assume "w' \<in> set (cond_waiters ?k1 c')"
    then have "w' \<in> set (cond_waiters k c')" using sub by (cases "c' = c") (auto simp del: remove1.simps)
    then show "waiter_sema w' \<notin> lock_sema ` L" using kinv0D(12) [OF inv0] unfolding conds_ok_def by blast
  qed
  then have "kinv L ?k1"
    using inv by (simp add: kinv_def kinv0_def threads_ok_def run_ok_def alive_def ready_ok_def ready_set_def waiters_ok_def
        sleep_ok_def dying_ok_def all_ok_def idle_ok_def create_ok_def stacks_ok_def mutex_ok_def tokens_def wake_ok_def)
  moreover have "waiter_sema mx \<notin> lock_sema ` L" using kinv0D(12) [OF inv0] mem by (auto simp: conds_ok_def)
  ultimately show ?thesis using up by (rule sema_up_inv)
qed

lemma cond_broadcast_inv:
  assumes inv: "kinv L k" and idle: "running k \<noteq> idle_thread k" and s: "cond_broadcast c l k = Some k'"
  shows "kinv L k'"
proof (cases "cond_waiters k c = []")
  case True
  then show ?thesis using inv s by (auto simp: cond_broadcast_def bind_eq_Some_conv)
next
  case False
  then obtain k1 where k1: "push_frame (K_cond_broadcast c l) k = Some k1" "cond_signal c l k1 = Some k'"
    using s by (auto simp: cond_broadcast_def bind_eq_Some_conv)
  have "kinv L k1" by (rule push_plain_inv [OF inv k1(1)]) (use idle in auto)
  then show ?thesis using k1(2) by (rule cond_signal_inv)
qed

lemma fresh_sema_inv:
  assumes inv: "kinv L k" and s: "s \<notin> lock_sema ` L" "waiters (semas k s) = []"
    and c: "\<And>c. \<forall>w\<in>set (C c). w \<in> set (cond_waiters k c) \<or> waiter_sema w \<notin> lock_sema ` L"
  shows "kinv L (k\<lparr>semas := (semas k)(s := \<lparr>sema_value = v, waiters = []\<rparr>), cond_waiters := C\<rparr>)" (is "kinv L ?k")
proof -
  have inv0: "kinv0 L k" using inv by (simp add: kinv_def)
  have w: "waiters (semas ?k s') = waiters (semas k s')" for s' using s(2) by simp
  have "mutex_ok L ?k" using kinv0D(13) [OF inv0] s(1) by (auto simp: mutex_ok_def tokens_def)
  moreover have "wake_ok ?k" using kinv0D(14) [OF inv0] by (auto simp: wake_ok_def)
  moreover have "waiters_ok ?k" using kinv0D(5) [OF inv0] unfolding waiters_ok_def w by simp
  moreover have "conds_ok L ?k" using kinv0D(12) [OF inv0] c unfolding conds_ok_def by fastforce
  ultimately show ?thesis
    using inv by (simp add: kinv_def kinv0_def threads_ok_def run_ok_def alive_def ready_ok_def ready_set_def
        sleep_ok_def dying_ok_def all_ok_def idle_ok_def create_ok_def stacks_ok_def)
qed

lemma cond_wait_inv:
  assumes inv: "kinv L k" and l: "l \<in> L" and idle: "running k \<noteq> idle_thread k"
    and w: "waiter_sema w \<notin> lock_sema ` L" "waiters (semas k (waiter_sema w)) = []" and a: "cond_wait w c l k = Some k'"
  shows "kinv L k'"
proof -
  let ?k1 = "k\<lparr>semas := (semas k)(waiter_sema w := \<lparr>sema_value = 0, waiters = []\<rparr>),
    cond_waiters := (cond_waiters k)(c := cond_waiters k c @ [w])\<rparr>"
  have "kinv L ?k1" by (rule fresh_sema_inv [OF inv w]) (use w(1) in auto)
  moreover obtain k2 k3 where k2: "push_frame (K_lock_acquire l) ?k1 = Some k2" and k3: "push_frame (K_cond_down w) k2 = Some k3"
    and r: "lock_release l k3 = Some k'"
    using a by (auto simp: cond_wait_def sema_init_def upd_sema_def bind_eq_Some_conv)
  ultimately have inv2: "kinv L k2" by (rule_tac push_plain_inv [OF _ k2]) (use l idle in auto)
  have r2: "running k2 = running k \<and> idle_thread k2 = idle_thread k" using k2 by (auto simp: push_frame_def upd_thread_def)
  have r3: "running k3 = running k2 \<and> idle_thread k3 = idle_thread k2" using k3 by (auto simp: push_frame_def upd_thread_def)
  have "kinv L k3" by (rule push_plain_inv [OF inv2 k3]) (use w idle r2 in auto)
  then show ?thesis by (rule lock_release_inv [OF _ l _ r]) (use idle r2 r3 in simp)
qed

section \<open>Thread creation\<close>

lemma init_thread_inv:
  assumes inv: "kinv L k" and t: "threads k t = None" and i: "init_thread t nm p k = Some k'"
  shows "kinv L k'" and "create_target k' t" and "fcount (\<lambda>fr. creates fr t) (threads k') = 0"
    and "running k' = running k" "idle_thread k' = idle_thread k" "t \<noteq> running k" "t \<noteq> NULL"
proof -
  have inv0: "kinv0 L k" using inv by (simp add: kinv_def)
  note parts = kinv0D [OF inv0]
  define nt :: thread where "nt = \<lparr>tid = 0, status = THREAD_BLOCKED, name = take 15 nm, stack = t + 4096,
                 priority = p, priority_old = p, all_locks = [], sleep_ticks = 0,
                 nice = 0, recent_cpu = 0, magic = THREAD_MAGIC, frames = []\<rparr>"
  have k': "k' = k\<lparr>threads := (threads k)(t \<mapsto> nt), all_list := all_list k @ [t]\<rparr>" and tn: "t \<noteq> NULL"
    using i by (auto simp: init_thread_def nt_def bind_eq_Some_conv)
  show "running k' = running k" "idle_thread k' = idle_thread k" "t \<noteq> NULL" using tn by (simp_all add: k')
  have tr: "t \<noteq> running k" using parts(3) t by (auto simp: run_ok_def alive_def)
  then show "t \<noteq> running k" .
  have ti: "t \<noteq> idle_thread k" using parts(9) t by (auto simp: idle_ok_def)
  have f: "fcount P (threads k') = fcount P (threads k)" for P
    using fcount_new [OF finite_threads [OF inv0] t, of P nt] by (simp add: k' nt_def)
  have nocr: "\<not> creates fr t" if "threads k x = Some thx" "fr \<in> set (frames thx)" for x thx fr
    using create_okD [OF inv0 that, of t] t by (auto simp: create_target_def)
  show "fcount (\<lambda>fr. creates fr t) (threads k') = 0"
    unfolding f unfolding fcount_def using nocr by (auto simp: filter_empty_conv)
  show "create_target k' t" using tr ti by (simp add: create_target_def k' nt_def)
  have Tall: "Q x" if "threads k' u = Some x" "\<And>x. u \<noteq> t \<Longrightarrow> threads k u = Some x \<Longrightarrow> Q x" "u = t \<Longrightarrow> Q nt"
    for u x and Q :: "thread \<Rightarrow> bool"
    using that by (cases "u = t") (simp_all add: k')
  have "kinv0 L k'"
  proof (rule kinv0I)
    show "tid_lock k' \<in> L" using parts(1) by (simp add: k')
    have "magic x = THREAD_MAGIC" if "threads k' u = Some x" for u x
      by (rule Tall [OF that]) (use threads_okD [OF inv0] in \<open>auto simp: nt_def\<close>)
    then show "threads_ok k'" using inv0 threads_okD(1) [OF inv0] tn by (simp add: threads_ok_def k')
    have "status x = THREAD_RUNNING \<longrightarrow> u = running k" if "threads k' u = Some x" for u x
      by (rule Tall [OF that]) (use parts(3) in \<open>auto simp: run_ok_def nt_def\<close>)
    moreover have "threads k' (running k) \<noteq> None" using parts(3) tr by (simp add: k' run_ok_def alive_def)
    ultimately show "run_ok k'" unfolding run_ok_def alive_def by (simp add: k')
    have "ready_set k' = ready_set k" using t by (auto simp: ready_set_def k' nt_def)
    then show "ready_ok k'" using parts(4) by (simp add: ready_ok_def k')
    show "waiters_ok k'" unfolding waiters_ok_def
    proof (intro allI conjI ballI)
      fix s u
      show "distinct (waiters (semas k' s))" using parts(5) by (simp add: waiters_ok_def k')
      assume "u \<in> set (waiters (semas k' s))"
      then have u: "u \<in> set (waiters (semas k s))" by (simp add: k')
      then have "u \<noteq> t" using waiters_okD [OF inv0 u] t by auto
      with waiters_okD [OF inv0 u]
      show "\<exists>th lv frs. threads k' u = Some th \<and> status th = THREAD_BLOCKED \<and> sleep_ticks th = 0 \<and> frames th = K_sema_down s lv # frs"
        by (simp add: k')
    qed
    have "status x \<noteq> THREAD_BLOCKED \<longrightarrow> sleep_ticks x = 0" if "threads k' u = Some x" for u x
      by (rule Tall [OF that]) (use parts(6) in \<open>auto simp: sleep_ok_def nt_def\<close>)
    then show "sleep_ok k'" by (simp add: sleep_ok_def)
    have "status x = THREAD_DYING \<longrightarrow> (u = initial_thread k \<or> u = running k) \<and> u \<noteq> idle_thread k \<and> set (frames x) \<subseteq> {K_body}"
      if "threads k' u = Some x" for u x
      by (rule Tall [OF that]) (use parts(7) in \<open>auto simp: dying_ok_def nt_def\<close>)
    moreover have "initial_thread k' = initial_thread k \<and> running k' = running k \<and> idle_thread k' = idle_thread k" by (simp add: k')
    ultimately show "dying_ok k'" unfolding dying_ok_def by metis
    have a: "u \<in> set (all_list k) \<longleftrightarrow> (\<exists>x. threads k u = Some x \<and> status x \<noteq> THREAD_DYING)" for u
      using parts(8) by (auto simp: all_ok_def)
    have "u \<in> set (all_list k') \<longleftrightarrow> (\<exists>x. threads k' u = Some x \<and> status x \<noteq> THREAD_DYING)" for u
      using a [of u] by (cases "u = t") (auto simp: k' nt_def)
    moreover have "distinct (all_list k')" using parts(8) a t by (simp add: all_ok_def k')
    ultimately show "all_ok k'" by (simp add: all_ok_def)
    show "idle_ok k'" using parts(9) ti by (auto simp: idle_ok_def k')
    show "create_ok k'" unfolding create_ok_def f
    proof (intro conjI allI impI)
      fix x thx fr u
      assume x: "threads k' x = Some thx" "fr \<in> set (frames thx)" "creates fr u"
      have "x \<noteq> t" using x(1,2) by (auto simp: k' nt_def)
      then have xk: "threads k x = Some thx" using x(1) by (simp add: k')
      have "create_target k u" "u \<noteq> t" using create_okD [OF inv0 xk x(2,3)] nocr [OF xk x(2)] x(3) by auto
      then show "u \<noteq> idle_thread k'" "u \<noteq> running k'"
        "\<exists>th. threads k' u = Some th \<and> status th = THREAD_BLOCKED \<and> sleep_ticks th = 0 \<and> frames th = []"
        by (auto simp: create_target_def k')
    qed (rule create_ok_count [OF inv0])
    have "stack_ok L (frames x)" if "threads k' u = Some x" for u x
      by (rule Tall [OF that]) (use parts(11) in \<open>auto simp: stacks_ok_def nt_def\<close>)
    then show "stacks_ok L k'" by (simp add: stacks_ok_def)
    show "conds_ok L k'" using parts(12) by (simp add: conds_ok_def k')
    show "mutex_ok L k'" using parts(13) unfolding mutex_ok_def tokens_def f by (simp add: k')
    show "wake_ok k'" using parts(14) unfolding wake_ok_def f by (simp add: k')
  qed
  then show "kinv L k'" using inv tr by (simp add: kinv_def k')
qed

lemma fcount_0_iff: "finite (dom T) \<Longrightarrow> fcount P T = 0 \<longleftrightarrow> (\<forall>x th. T x = Some th \<longrightarrow> (\<forall>fr\<in>set (frames th). \<not> P fr))"
  by (force simp: fcount_def filter_empty_conv)

lemma push_take_inv:
  assumes inv: "kinv L k" and t: "create_target k t" "fcount (\<lambda>fr. creates fr t) (threads k) = 0"
    and idle: "running k \<noteq> idle_thread k" and p: "push_frame (K_tid_take t (Some K_body)) k = Some k'"
  shows "kinv L k'"
proof -
  have inv0: "kinv0 L k" using inv by (simp add: kinv_def)
  obtain th where th: "threads k (running k) = Some th" "stack_ok L (frames th)" "status th = THREAD_RUNNING" "sleep_ticks th = 0"
    using running_thread [OF inv] by blast
  let ?th = "th\<lparr>frames := K_tid_take t (Some K_body) # frames th\<rparr>"
  have k': "k' = k\<lparr>threads := (threads k)(running k \<mapsto> ?th)\<rparr>" using p th(1) by (auto simp: push_frame_def upd_thread_def)
  then have T: "threads k' = (threads k)(running k \<mapsto> ?th)" by simp
  have f: "fcount P (threads k') + cnt P th = fcount P (threads k) + cnt P ?th" for P
    unfolding T using inv0 th by (intro fcount_upd) simp_all
  have "kinv0 L k'"
  proof (rule cur_upd_inv [OF inv th(1) T])
    show "mutex_ok L k'" by (rule mutex_step [OF inv0 th(1) T]) (simp_all add: token_sum_def k')
    show "wake_ok k'" by (rule wake_step [OF inv0 th(1) T]) (simp_all add: k')
    show "conds_ok L k'" using kinv0D(12) [OF inv0] by (simp add: conds_ok_def k')
    fix fr u
    show "fcount (\<lambda>fr. creates fr u) (threads k') \<le> 1"
      using f [of "\<lambda>fr. creates fr u"] t(2) create_ok_count [OF inv0, of u] by (cases "u = t") simp_all
    assume "fr \<in> set (frames ?th)" "creates fr u"
    then show "create_target k u" using t(1) create_okD [OF inv0 th(1)] by auto
  qed (use th idle in \<open>simp_all add: k'\<close>)
  then show ?thesis using th(3) by (simp add: kinv_def k')
qed

lemma thread_create_inv:
  assumes inv: "kinv L k" and idle: "running k \<noteq> idle_thread k" and t: "page = NULL \<or> threads k page = None"
    and c: "thread_create page nm p K_body k = Some k'"
  shows "kinv L k'"
proof (cases "page = NULL")
  case True
  then show ?thesis using inv c by (simp add: thread_create_def)
next
  case False
  then obtain k1 k2 where k1: "init_thread page nm p k = Some k1" and k2: "push_frame (K_tid_take page (Some K_body)) k1 = Some k2"
    and a: "lock_acquire (tid_lock k2) k2 = Some k'"
    using c by (auto simp: thread_create_def allocate_tid_def bind_eq_Some_conv)
  have "threads k page = None" using t False by simp
  note i = init_thread_inv [OF inv this k1]
  have inv2: "kinv L k2" by (rule push_take_inv [OF i(1-3) _ k2]) (use idle i in simp)
  have r: "running k2 = running k1 \<and> idle_thread k2 = idle_thread k1" using k2 by (auto simp: push_frame_def upd_thread_def)
  have "tid_lock k2 \<in> L" using inv2 by (simp add: kinv_def kinv0_def)
  from lock_acquire_inv [OF inv2 this _ a] show ?thesis using r i idle by simp
qed

lemma allocate_tid_take_inv:
  assumes inv: "kinv L k" and th: "threads k (running k) = Some th" "frames th = K_tid_take t fn # frs"
    and idle: "running k \<noteq> idle_thread k"
    and a: "allocate_tid_take t fn (k\<lparr>threads := (threads k)(running k \<mapsto> th\<lparr>frames := frs\<rparr>)\<rparr>) = Some k'"
  shows "kinv L k'"
proof -
  have inv0: "kinv0 L k" using inv by (simp add: kinv_def)
  obtain th0 where "threads k (running k) = Some th0" "stack_ok L (frames th0)" using running_thread [OF inv] by blast
  then have stk: "stack_ok L (K_tid_take t fn # frs)" using th by simp
  let ?F = "K_tid_got t (next_tid k) fn # frs"
  let ?k1 = "k\<lparr>next_tid := s32 (next_tid k + 1), threads := (threads k)(running k \<mapsto> th\<lparr>frames := ?F\<rparr>)\<rparr>"
  have eq: "k\<lparr>threads := T, next_tid := i\<rparr> = k\<lparr>next_tid := i, threads := T\<rparr>" for T i by simp
  have r: "lock_release (tid_lock k) ?k1 = Some k'"
    using a by (auto simp: allocate_tid_take_def push_frame_def upd_thread_def Let_def bind_eq_Some_conv eq)
  have T: "threads ?k1 = (threads k)(running k \<mapsto> th\<lparr>frames := ?F\<rparr>)" by simp
  have "kinv L ?k1"
  proof (rule frames_inv [OF inv th(1) T])
    show "mutex_ok L ?k1" by (rule mutex_step [OF inv0 th(1) T]) (simp_all add: token_sum_def th(2))
    show "wake_ok ?k1" by (rule wake_step [OF inv0 th(1) T]) (simp_all add: th(2))
    show "conds_ok L ?k1" using kinv0D(12) [OF inv0] by (simp add: conds_ok_def)
  qed (use stk idle th(2) in auto)
  moreover have "tid_lock k \<in> L" using inv0 by (simp add: kinv0_def)
  ultimately show ?thesis by (rule lock_release_inv [OF _ _ _ r]) (use idle in simp)
qed

lemma alloc_frame_view: "alloc_frame t n k = Some k' \<Longrightarrow> same_view k k'"
  by (auto simp: alloc_frame_def bind_eq_Some_conv tview_def intro: upd_thread_view)

lemma thread_create_rest_inv:
  assumes inv: "kinv L k" and th: "threads k (running k) = Some th" "frames th = K_tid_got t i (Some fn) # frs"
    and idle: "running k \<noteq> idle_thread k"
    and a: "thread_create_rest t i fn (k\<lparr>threads := (threads k)(running k \<mapsto> th\<lparr>frames := frs\<rparr>)\<rparr>) = Some k'"
  shows "kinv L k'"
proof -
  have inv0: "kinv0 L k" using inv by (simp add: kinv_def)
  obtain th0 where "threads k (running k) = Some th0" "stack_ok L (frames th0)" using running_thread [OF inv] by blast
  then have stk: "stack_ok L (K_tid_got t i (Some fn) # frs)" using th by simp
  let ?kp = "k\<lparr>threads := (threads k)(running k \<mapsto> th\<lparr>frames := frs\<rparr>)\<rparr>"
  have T: "threads ?kp = (threads k)(running k \<mapsto> th\<lparr>frames := frs\<rparr>)" by simp
  have invp: "kinv L ?kp"
  proof (rule frames_inv [OF inv th(1) T])
    show "mutex_ok L ?kp" by (rule mutex_step [OF inv0 th(1) T]) (simp_all add: token_sum_def th(2))
    show "wake_ok ?kp" by (rule wake_step [OF inv0 th(1) T]) (simp_all add: th(2))
    show "conds_ok L ?kp" using kinv0D(12) [OF inv0] by (simp add: conds_ok_def)
  qed (use stk idle th(2) in auto)
  have c0: "fcount (\<lambda>fr. creates fr t) (threads ?kp) = 0"
    using fcount_upd [OF finite_threads [OF inv0] th(1), of "\<lambda>fr. creates fr t" "th\<lparr>frames := frs\<rparr>"]
      create_ok_count [OF inv0, of t] th(2) by simp
  obtain k1 k2 k3 k4 where k1: "upd_thread t (tid_update (\<lambda>_. i)) ?kp = Some k1" "alloc_frame t 12 k1 = Some k2"
    "alloc_frame t 4 k2 = Some k3" "alloc_frame t 28 k3 = Some k4"
    and rest: "(do { k \<leftarrow> upd_thread t (frames_update (\<lambda>_. [K_kernel_thread, fn])) k4;
      k \<leftarrow> thread_unblock t k; th \<leftarrow> threads k t; cur \<leftarrow> thread_current k; c \<leftarrow> threads k cur;
      if priority th > priority c then thread_yield k else Some k }) = Some k'"
    using a unfolding thread_create_rest_def by (auto simp: bind_eq_Some_conv)
  have "same_view ?kp k1" using k1(1) by (rule upd_thread_view) (simp add: tview_def)
  also have "same_view k1 k2" using k1(2) by (rule alloc_frame_view)
  also have "same_view k2 k3" using k1(3) by (rule alloc_frame_view)
  also have "same_view k3 k4" using k1(4) by (rule alloc_frame_view)
  finally have v: "same_view ?kp k4" .
  have inv4: "kinv L k4" using v invp by (rule same_view_kinv)
  have inv40: "kinv0 L k4" using inv4 by (simp add: kinv_def)
  have c4: "fcount (\<lambda>fr. creates fr t) (threads k4) = 0" using same_view_fcount [OF v] c0 by metis
  have ct: "create_target k t" using create_okD [OF inv0 th(1), of "K_tid_got t i (Some fn)" t] th(2) by simp
  have same: "running k4 = running k" "idle_thread k4 = idle_thread k" using v by (simp_all add: same_view_def)
  have "\<exists>x. threads ?kp t = Some x \<and> status x = THREAD_BLOCKED \<and> sleep_ticks x = 0 \<and> frames x = []"
    using ct by (auto simp: create_target_def)
  then have "\<exists>x. threads k4 t = Some x \<and> status x = THREAD_BLOCKED \<and> sleep_ticks x = 0 \<and> frames x = []"
    by (subst same_view_ex [OF v]) (auto simp: tview_def)
  then obtain x where x: "threads k4 t = Some x" "status x = THREAD_BLOCKED" "sleep_ticks x = 0" "frames x = []" by blast
  let ?x = "x\<lparr>frames := [K_kernel_thread, fn], status := THREAD_READY\<rparr>"
  obtain k6 where ub: "thread_unblock t (k4\<lparr>threads := (threads k4)(t \<mapsto> x\<lparr>frames := [K_kernel_thread, fn]\<rparr>)\<rparr>) = Some k6"
    and fin: "k' = k6 \<or> thread_yield k6 = Some k'"
    using rest x(1) by (auto simp: upd_thread_def bind_eq_Some_conv split: if_splits)
  obtain qs m where k6: "k6 = k4\<lparr>ready_list := qs, mlfqs_list := m, threads := (threads k4)(t \<mapsto> ?x)\<rparr>"
    and rq: "mset (readyq k6) = add_mset t (mset (readyq k4))"
    using thread_unblock_state [OF ub] by auto
  have s6: "semas k6 = semas k4" "holder k6 = holder k4" by (simp_all add: k6)
  have T6: "threads k6 = (threads k4)(t \<mapsto> ?x)" by (simp add: k6)
  have tr: "t \<noteq> running k4" "t \<noteq> idle_thread k4" using ct same by (auto simp: create_target_def)
  have fnb: "fn = K_body" using stk by simp
  have f: "fcount P (threads k6) = fcount P (threads k4)" if "\<not> P K_kernel_thread" "\<not> P K_body" for P
    using fcount_upd [OF finite_threads [OF inv40] x(1), of P ?x] x(4) that by (simp add: T6 fnb)
  have w: "waiters (semas k4 s) = remove1 t (waiters (semas k4 s))" for s
  proof -
    have "t \<notin> set (waiters (semas k4 s))" using waiters_okD [OF inv40, of t s] x by auto
    then show ?thesis by (simp add: remove1_idem)
  qed
  have z: "\<forall>y thy. threads k4 y = Some thy \<longrightarrow> (\<forall>fr\<in>set (frames thy). \<not> creates fr t)"
    using c4 by (simp only: fcount_0_iff [OF finite_threads [OF inv40]])
  have nocr: "\<not> creates fr t" if "threads k4 y = Some thy" "fr \<in> set (frames thy)" for y thy fr
    using z that by blast
  have "kinv0 L k6"
  proof (rule unblock_inv [OF inv40 x(1,2) tr T6])
    show "mutex_ok L k6" using kinv0D(13) [OF inv40] by (simp add: mutex_ok_def tokens_def f s6)
    show "wake_ok k6" using kinv0D(14) [OF inv40] by (simp add: wake_ok_def f s6)
    show "fcount (\<lambda>fr. creates fr u) (threads k6) \<le> 1" for u using create_ok_count [OF inv40] by (simp add: f)
    show "\<not> creates fr t" if "threads k6 y = Some thy" "fr \<in> set (frames thy)" for y thy fr
      using nocr [of y thy fr] that by (cases "y = t") (auto simp: k6 fnb)
    show "waiters (semas k6 s) = remove1 t (waiters (semas k4 s))" for s using w [of s] by (simp add: k6)
  qed (use rq x in \<open>auto simp: k6 fnb\<close>)
  then have "kinv L k6" using inv4 tr by (simp add: kinv_def k6)
  then show ?thesis using fin thread_yield_inv by blast
qed

end
