(* ===== verification/Kernel_Machine.thy ===== *)
theory Kernel_Machine
  imports Kernel_Calls
begin

text \<open>
  The timer and the scheduler's bookkeeping preserve the invariant, and so does every event
  of the kernel machine; hence it holds in every reachable state.
\<close>

section \<open>Sleeping threads\<close>

lemma sleeper_upd_inv:
  assumes inv: "kinv L k" and th: "threads k t = Some th" "status th = THREAD_BLOCKED" "sleep_ticks th \<noteq> 0"
  shows "kinv L (k\<lparr>threads := (threads k)(t \<mapsto> th\<lparr>sleep_ticks := n\<rparr>)\<rparr>)" (is "kinv L ?k")
proof -
  have inv0: "kinv0 L k" using inv by (simp add: kinv_def)
  note parts = kinv0D [OF inv0] and sf = sleeper_facts [OF inv0 th]
  let ?th = "th\<lparr>sleep_ticks := n\<rparr>"
  have tr: "t \<noteq> running k" using inv th by (auto simp: kinv_def)
  have tn: "t \<noteq> NULL" using threads_okD(1) [OF inv0] th by auto
  have f: "fcount P (threads ?k) = fcount P (threads k)" for P
    using inv0 th by (simp add: fcount_same)
  have f': "fcount P ((threads k)(t \<mapsto> ?th)) = fcount P (threads k)" for P using f by simp
  have Tall: "Q x" if "threads ?k u = Some x" "\<And>x. u \<noteq> t \<Longrightarrow> threads k u = Some x \<Longrightarrow> Q x" "u = t \<Longrightarrow> Q ?th"
    for u x and Q :: "thread \<Rightarrow> bool"
    using that by (cases "u = t") simp_all
  have "kinv0 L ?k"
  proof (rule kinv0I)
    have "magic x = THREAD_MAGIC" if "threads ?k u = Some x" for u x
      by (rule Tall [OF that]) (use th threads_okD [OF inv0] in auto)
    then show "threads_ok ?k" using inv0 threads_okD(1) [OF inv0] tn by (simp add: threads_ok_def)
    have "status x = THREAD_RUNNING \<longrightarrow> u = running k" if "threads ?k u = Some x" for u x
      by (rule Tall [OF that]) (use parts(3) th in \<open>auto simp: run_ok_def\<close>)
    then show "run_ok ?k" using parts(3) unfolding run_ok_def alive_def by simp
    have "ready_set ?k = ready_set k" using th by (auto simp: ready_set_def)
    then show "ready_ok ?k" using parts(4) by (simp add: ready_ok_def)
    show "waiters_ok ?k" unfolding waiters_ok_def
    proof (intro allI conjI ballI)
      fix s u
      show "distinct (waiters (semas ?k s))" using parts(5) by (simp add: waiters_ok_def)
      assume "u \<in> set (waiters (semas ?k s))"
      then have u: "u \<in> set (waiters (semas k s))" by simp
      then have "u \<noteq> t" using sf(3) by auto
      with waiters_okD [OF inv0 u]
      show "\<exists>th lv frs. threads ?k u = Some th \<and> status th = THREAD_BLOCKED \<and> sleep_ticks th = 0 \<and> frames th = K_sema_down s lv # frs"
        by simp
    qed
    have "status x \<noteq> THREAD_BLOCKED \<longrightarrow> sleep_ticks x = 0" if "threads ?k u = Some x" for u x
      by (rule Tall [OF that]) (use parts(6) th in \<open>auto simp: sleep_ok_def\<close>)
    then show "sleep_ok ?k" by (simp add: sleep_ok_def)
    have "status x = THREAD_DYING \<longrightarrow> (u = initial_thread k \<or> u = running k) \<and> u \<noteq> idle_thread k \<and> set (frames x) \<subseteq> {K_body}"
      if "threads ?k u = Some x" for u x
      by (rule Tall [OF that]) (use parts(7) th in \<open>auto simp: dying_ok_def\<close>)
    moreover have "initial_thread ?k = initial_thread k \<and> running ?k = running k \<and> idle_thread ?k = idle_thread k" by simp
    ultimately show "dying_ok ?k" unfolding dying_ok_def by metis
    have "u \<in> set (all_list k) \<longleftrightarrow> (\<exists>x. threads ?k u = Some x \<and> status x \<noteq> THREAD_DYING)" for u
      using parts(8) th by (cases "u = t") (auto simp: all_ok_def)
    then show "all_ok ?k" using parts(8) by (simp add: all_ok_def)
    show "idle_ok ?k" using parts(9) sf(1) by (auto simp: idle_ok_def)
    show "create_ok ?k" unfolding create_ok_def f
    proof (intro conjI allI impI)
      fix x thx fr u
      assume x: "threads ?k x = Some thx" "fr \<in> set (frames thx)" "creates fr u"
      have "\<exists>thy. threads k x = Some thy \<and> frames thy = frames thx" using x(1) th(1) by (cases "x = t") auto
      then obtain thy where y: "threads k x = Some thy" "fr \<in> set (frames thy)" using x(2) by auto
      have "create_target k u" "u \<noteq> t" using create_okD [OF inv0 y x(3)] sf(2) [OF y] x(3) by auto
      then show "u \<noteq> idle_thread ?k" "u \<noteq> running ?k"
        "\<exists>th. threads ?k u = Some th \<and> status th = THREAD_BLOCKED \<and> sleep_ticks th = 0 \<and> frames th = []"
        by (auto simp: create_target_def)
    qed (rule create_ok_count [OF inv0])
    have "stack_ok L (frames x)" if "threads ?k u = Some x" for u x
      by (rule Tall [OF that]) (use parts(11) th in \<open>auto simp: stacks_ok_def\<close>)
    then show "stacks_ok L ?k" by (simp add: stacks_ok_def)
    show "mutex_ok L ?k" using parts(13) by (simp add: mutex_ok_def tokens_def f')
    show "wake_ok ?k" using parts(14) by (simp add: wake_ok_def f')
  qed (use parts in \<open>simp_all add: conds_ok_def\<close>)
  then show ?thesis using inv tr by (simp add: kinv_def)
qed

lemma wake_threads_inv:
  assumes inv: "kinv L k" and w: "wake_threads t k = Some k'"
  shows "kinv L k'"
proof -
  obtain th where th: "threads k t = Some th" using w by (auto simp: wake_threads_def bind_eq_Some_conv)
  show ?thesis
  proof (cases "status th = THREAD_BLOCKED \<and> sleep_ticks th > 0")
    case False
    then show ?thesis using w th inv by (auto simp: wake_threads_def bind_eq_Some_conv split: if_splits)
  next
    case True
    then have b: "status th = THREAD_BLOCKED" "sleep_ticks th \<noteq> 0" by auto
    have upd: "sleep_ticks_update (\<lambda>n. n - 1) th = th\<lparr>sleep_ticks := sleep_ticks th - 1\<rparr>" by simp
    let ?k1 = "k\<lparr>threads := (threads k)(t \<mapsto> th\<lparr>sleep_ticks := sleep_ticks th - 1\<rparr>)\<rparr>"
    show ?thesis
    proof (cases "sleep_ticks th - 1 = 0")
      case False
      then have "k' = ?k1" using w th True by (auto simp: wake_threads_def upd_thread_def bind_eq_Some_conv upd)
      then show ?thesis using sleeper_upd_inv [OF inv th b] by simp
    next
      case one: True
      have inv0: "kinv0 L k" using inv by (simp add: kinv_def)
      note sf = sleeper_facts [OF inv0 th b]
      have tr: "t \<noteq> running k" using inv th b by (auto simp: kinv_def)
      have ub: "thread_unblock t ?k1 = Some k'"
        using w th True one by (auto simp: wake_threads_def upd_thread_def bind_eq_Some_conv upd)
      let ?th = "th\<lparr>sleep_ticks := sleep_ticks th - 1, status := THREAD_READY\<rparr>"
      obtain qs m where k': "k' = k\<lparr>ready_list := qs, mlfqs_list := m, threads := (threads k)(t \<mapsto> ?th)\<rparr>"
        and rq: "mset (readyq k') = add_mset t (mset (readyq k))"
      proof -
        have "k\<lparr>threads := T, ready_list := qs, mlfqs_list := m, threads := T'\<rparr> = k\<lparr>ready_list := qs, mlfqs_list := m, threads := T'\<rparr>"
          for T T' qs m by simp
        then show ?thesis using thread_unblock_state [OF ub] that by auto
      qed
      have T: "threads k' = (threads k)(t \<mapsto> ?th)" by (simp add: k')
      have s6: "semas k' = semas k" "holder k' = holder k" by (simp_all add: k')
      have f: "fcount P (threads k') = fcount P (threads k)" for P
        unfolding T using inv0 th by (intro fcount_same) simp_all
      have "kinv0 L k'"
      proof (rule unblock_inv [OF inv0 th b(1) tr sf(1) T])
        show "mutex_ok L k'" using kinv0D(13) [OF inv0] by (simp add: mutex_ok_def tokens_def f s6)
        show "wake_ok k'" using kinv0D(14) [OF inv0] by (simp add: wake_ok_def f s6)
        show "fcount (\<lambda>fr. creates fr u) (threads k') \<le> 1" for u using create_ok_count [OF inv0] by (simp add: f)
        show "\<not> creates fr t" if "threads k' y = Some thy" "fr \<in> set (frames thy)" for y thy fr
          using sf(2) [of y thy fr] sf(2) [OF th, of fr] that by (cases "y = t") (auto simp: k')
        show "waiters (semas k' s) = remove1 t (waiters (semas k s))" for s using sf(3) [of s] by (simp add: k' remove1_idem)
        show "create_target k u" if "fr \<in> set (frames ?th)" "creates fr u" for fr u
          using create_okD [OF inv0 th] that by simp
        show "stack_ok L (frames ?th)" using kinv0D(11) [OF inv0] th by (simp add: stacks_ok_def)
      qed (use rq one in \<open>simp_all add: k'\<close>)
      then show ?thesis using inv tr by (simp add: kinv_def k')
    qed
  qed
qed

lemma foreach_threads_inv:
  assumes "\<And>t k k'. kinv L k \<Longrightarrow> f t k = Some k' \<Longrightarrow> kinv L k'"
  shows "kinv L k \<Longrightarrow> foreach_threads f ts k = Some k' \<Longrightarrow> kinv L k'"
  by (induction ts arbitrary: k) (auto simp: bind_eq_Some_conv intro: assms)

section \<open>Priorities\<close>

lemma requeue_view:
  assumes "requeue_ready t old p k = Some k'" "0 \<le> p" "p \<le> 63"
  shows "same_view k k'"
proof -
  define qs where "qs = (mlfqs_list k)(nat old := remove1 t (mlfqs_list k (nat old)))"
  have o: "nat old < 64" "t \<in> set (mlfqs_list k (nat old))"
    and k': "k' = k\<lparr>mlfqs_list := qs(nat p := qs (nat p) @ [t])\<rparr>"
    using assms(1) by (auto simp: requeue_ready_def qs_def Let_def bind_eq_Some_conv)
  have p: "nat p < 64" using assms by simp
  have "mset (concat (map (qs(nat p := qs (nat p) @ [t])) [0..<64])) = add_mset t (mset (concat (map qs [0..<64])))"
    using mset_concat_upd [OF p, of qs "qs (nat p) @ [t]"] by simp
  also have "\<dots> = mset (concat (map (mlfqs_list k) [0..<64]))"
  proof -
    define N where "N = mset (remove1 t (mlfqs_list k (nat old)))"
    have "mset (mlfqs_list k (nat old)) = add_mset t N" using o(2) by (simp add: N_def)
    then have "add_mset t (mset (concat (map qs [0..<64]))) + N = mset (concat (map (mlfqs_list k) [0..<64])) + N"
      using mset_concat_upd [OF o(1), of "mlfqs_list k" "remove1 t (mlfqs_list k (nat old))", folded qs_def N_def] by simp
    then show ?thesis by (rule add_right_imp_eq)
  qed
  finally show ?thesis by (simp add: same_view_def k' readyq_def)
qed

lemma cap_priority_range: "0 \<le> cap_priority p" "cap_priority p \<le> 63"
  by (simp_all add: cap_priority_def)

lemma thread_refresh_priority_view:
  assumes "thread_refresh_priority t k = Some k'"
  shows "same_view k k'"
proof -
  obtain th p k1 where p: "p = cap_priority (s32 (63 - nice (th :: thread) * 2 - TO_INT (recent_cpu th sdiv 4)))"
    and k1: "upd_thread t (priority_update (\<lambda>_. p)) k = Some k1"
    and k': "requeue_ready t (priority th) p k1 = Some k' \<or> k' = k1"
    using assms by (auto simp: thread_refresh_priority_def Let_def bind_eq_Some_conv split: if_splits)
  have "same_view k k1" using k1 by (rule upd_thread_view) (simp add: tview_def)
  moreover have "same_view k1 k'" using k' requeue_view [of t "priority th" p k1 k'] cap_priority_range p by auto
  ultimately show ?thesis by (rule same_view_trans)
qed

lemma thread_refresh_recent_cpu_view: "thread_refresh_recent_cpu t k = Some k' \<Longrightarrow> same_view k k'"
  by (auto simp: thread_refresh_recent_cpu_def Let_def bind_eq_Some_conv tview_def intro: upd_thread_view)

lemma view_inv: "kinv L k \<Longrightarrow> same_view k k' \<Longrightarrow> kinv L k'"
  using same_view_kinv by blast

lemma mlfqs_tick_inv:
  assumes inv: "kinv L k" and m: "mlfqs_tick t k = Some k'"
  shows "kinv L k'"
proof -
  obtain k1 k2 k3 where k1: "upd_thread t (recent_cpu_update (\<lambda>c. s64 (FADD_I c 1))) k = Some k1"
    and k2: "(if ticks k1 mod 100 = 0 then do {
              k \<leftarrow> thread_set_load_avg k1;
              foreach_threads (unless_idle thread_refresh_recent_cpu) (all_list k) k }
            else Some k1) = Some k2"
    and k3: "(if ticks k2 mod int 4 = 0
            then foreach_threads (unless_idle thread_refresh_priority) (all_list k2) k2
            else Some k2) = Some k3"
    and k': "intr_yield_on_return k3 = Some k'"
    using m by (auto simp: mlfqs_tick_def bind_eq_Some_conv)
  have each: "kinv L b" if "kinv L a" "unless_idle f t a = Some b" "\<And>t a b. f t a = Some b \<Longrightarrow> same_view a b" for f t a b
    using that view_inv by (auto simp: unless_idle_def split: if_splits)
  have i1: "kinv L k1" by (rule view_inv [OF inv upd_thread_view [OF k1]]) (simp add: tview_def)
  have "kinv L k2"
  proof (cases "ticks k1 mod 100 = 0")
    case True
    then obtain k1' where a: "thread_set_load_avg k1 = Some k1'"
      and b: "foreach_threads (unless_idle thread_refresh_recent_cpu) (all_list k1') k1' = Some k2"
      using k2 by (auto simp: bind_eq_Some_conv)
    have "same_view k1 k1'" using a by (auto simp: thread_set_load_avg_def bind_eq_Some_conv)
    then have i: "kinv L k1'" using i1 view_inv by blast
    show ?thesis
      by (rule foreach_threads_inv [OF _ i b]) (erule (1) each, erule thread_refresh_recent_cpu_view)
  next
    case False
    then show ?thesis using k2 i1 by simp
  qed
  then have "kinv L k3"
    using k3 foreach_threads_inv [of L "unless_idle thread_refresh_priority" k2 "all_list k2" k3]
      each [of _ thread_refresh_priority] thread_refresh_priority_view
    by (auto split: if_splits)
  moreover have "same_view k3 k'" using k' by (auto simp: intr_yield_on_return_def bind_eq_Some_conv)
  ultimately show ?thesis by (rule view_inv)
qed

lemma thread_tick_inv:
  assumes inv: "kinv L k" and m: "thread_tick k = Some k'"
  shows "kinv L k'"
proof -
  obtain t k1 k2 k3 where k1: "k1 = (if t = idle_thread k then k\<lparr>idle_ticks := idle_ticks k + 1\<rparr>
              else k\<lparr>kernel_ticks := kernel_ticks k + 1\<rparr>)"
    and k2: "thread_foreach wake_threads k1 = Some k2"
    and k3: "(if thread_mlfqs k2 then mlfqs_tick t k2 else Some k2) = Some k3"
    and k': "(if thread_ticks k3 + 1 \<ge> 4 then intr_yield_on_return (k3\<lparr>thread_ticks := thread_ticks k3 + 1\<rparr>)
      else Some (k3\<lparr>thread_ticks := thread_ticks k3 + 1\<rparr>)) = Some k'"
    using m unfolding thread_tick_def Let_def by (auto simp: bind_eq_Some_conv)
  have "same_view k k1" by (simp add: k1)
  then have i1: "kinv L k1" using inv view_inv by blast
  have "foreach_threads wake_threads (all_list k1) k1 = Some k2" using k2 by (auto simp: thread_foreach_def bind_eq_Some_conv)
  then have i2: "kinv L k2" using foreach_threads_inv [of L wake_threads k1 "all_list k1" k2] wake_threads_inv i1 by blast
  then have i3: "kinv L k3" using k3 mlfqs_tick_inv by (auto split: if_splits)
  have "same_view k3 k'"
    using k' by (auto simp: intr_yield_on_return_def bind_eq_Some_conv same_view_def split: if_splits)
  then show ?thesis using i3 view_inv by blast
qed

lemma timer_event_inv:
  assumes inv: "kinv L k" and m: "intr_handler_ext timer_interrupt k = Some k'"
  shows "kinv L k'"
proof -
  obtain k1 k2 where k1: "thread_tick (k\<lparr>if_flag := False, in_external_intr := True, yield_on_return := False, ticks := ticks k + 1\<rparr>) = Some k1"
    and k2: "push_frame K_iret (k1\<lparr>in_external_intr := False\<rparr>) = Some k2"
    and k': "k' = k2 \<or> thread_yield k2 = Some k'"
    using m by (auto simp: intr_handler_ext_def timer_interrupt_def intr_disable_def Let_def bind_eq_Some_conv split: if_splits)
  have "same_view k (k\<lparr>if_flag := False, in_external_intr := True, yield_on_return := False, ticks := ticks k + 1\<rparr>)"
    by (simp add: same_view_def)
  then have "kinv L k1" using inv view_inv thread_tick_inv [OF _ k1] by blast
  then have "kinv L (k1\<lparr>in_external_intr := False\<rparr>)" using view_inv same_view_fields(2) by blast
  then have "kinv L k2" by (rule push_plain_inv [OF _ k2]) (simp_all add: idle_frames_def)
  then show ?thesis using k' thread_yield_inv by blast
qed

lemma timer_sleep_inv:
  assumes inv: "kinv L k" and idle: "running k \<noteq> idle_thread k" and m: "timer_sleep n k = Some k'"
  shows "kinv L k'"
proof (cases "n > 0")
  case False
  then show ?thesis using inv m by (auto simp: timer_sleep_def bind_eq_Some_conv)
next
  case True
  obtain th where th: "threads k (running k) = Some th" using running_thread [OF inv] by blast
  have eq: "th\<lparr>sleep_ticks := n, frames := F\<rparr> = th\<lparr>frames := F, sleep_ticks := n\<rparr>" for F by simp
  have "thread_block (k\<lparr>if_flag := False,
      threads := (threads k)(running k \<mapsto> th\<lparr>frames := [K_set_level True] @ frames th, sleep_ticks := n\<rparr>)\<rparr>) = Some k'"
    using m True th
    by (auto simp: timer_sleep_def upd_thread_def push_frame_def intr_disable_def Let_def bind_eq_Some_conv eq
        dest!: thread_current_eq)
  from block_inv [OF inv th _ _ this] show ?thesis using idle by auto
qed

lemma thread_set_priority_inv:
  assumes inv: "kinv L k" and m: "thread_set_priority stray p k = Some k'"
  shows "kinv L k'"
proof -
  obtain k1 where k1: "upd_thread (running k) (\<lambda>th. th\<lparr>priority := p, priority_old := p\<rparr>) k = Some k1"
    and rest: "k' = k1 \<or> (\<exists>k2. reset_donate_priority k1 = Some k2 \<and> (k' = k2 \<or> thread_yield k2 = Some k'))"
    using m by (auto simp: thread_set_priority_def bind_eq_Some_conv split: if_splits dest!: thread_current_eq)
  have i1: "kinv L k1" by (rule view_inv [OF inv upd_thread_view [OF k1]]) (simp add: tview_def)
  then show ?thesis using rest view_inv reset_donate_priority_view thread_yield_inv by blast
qed

lemma thread_set_nice_inv:
  assumes inv: "kinv L k" and m: "thread_set_nice n k = Some k'"
  shows "kinv L k'"
proof -
  obtain k1 k2 k3 where k1: "upd_thread (running k) (nice_update (\<lambda>_. s8 n)) k = Some k1"
    and k2: "thread_refresh_recent_cpu (running k) k1 = Some k2" and k3: "thread_refresh_priority (running k) k2 = Some k3"
    and rest: "k' = k3 \<or> thread_yield k3 = Some k'"
    using m by (auto simp: thread_set_nice_def Let_def bind_eq_Some_conv split: if_splits dest!: thread_current_eq)
  have "same_view k k1" using k1 by (rule upd_thread_view) (simp add: tview_def)
  also have "same_view k1 k2" using k2 by (rule thread_refresh_recent_cpu_view)
  also have "same_view k2 k3" using k3 by (rule thread_refresh_priority_view)
  finally have "kinv L k3" using inv view_inv by blast
  then show ?thesis using rest thread_yield_inv by blast
qed

section \<open>The machine\<close>

text \<open>
  What a caller of the kernel has to respect: a lock's semaphore is only used through the
  lock, a new thread gets a page that is not in use, and the semaphore of a condition
  waiter is a fresh local variable.
\<close>

fun call_ok :: "addr set \<Rightarrow> kernel \<Rightarrow> call \<Rightarrow> bool" where
  "call_ok L k (Sema_down s) \<longleftrightarrow> s \<notin> lock_sema ` L"
| "call_ok L k (Sema_try_down s) \<longleftrightarrow> s \<notin> lock_sema ` L"
| "call_ok L k (Sema_up s) \<longleftrightarrow> s \<notin> lock_sema ` L"
| "call_ok L k (Lock_acquire l) \<longleftrightarrow> l \<in> L"
| "call_ok L k (Lock_try_acquire l) \<longleftrightarrow> l \<in> L"
| "call_ok L k (Lock_release l) \<longleftrightarrow> l \<in> L"
| "call_ok L k (Cond_wait w c l) \<longleftrightarrow>
     l \<in> L \<and> waiter_sema w \<notin> lock_sema ` L \<and> waiters (semas k (waiter_sema w)) = []"
| "call_ok L k (Thread_start page s) \<longleftrightarrow> False"
| "call_ok L k (Thread_create page nm p fn) \<longleftrightarrow> fn = K_body \<and> (page = NULL \<or> threads k page = None)"
| "call_ok L k _ \<longleftrightarrow> True"

inductive kstep :: "addr set \<Rightarrow> kernel \<Rightarrow> kernel \<Rightarrow> bool" for L where
  call: "call_ok L k c \<Longrightarrow> kexec (Call c) k = Some k' \<Longrightarrow> kstep L k k'"
| resume: "kexec Resume k = Some k' \<Longrightarrow> kstep L k k'"
| tick: "kexec Tick k = Some k' \<Longrightarrow> kstep L k k'"

inductive_cases kstepE [elim]: "kstep L k k'"

lemma in_body_not_idle:
  assumes "kinv L k" "in_body k"
  shows "running k \<noteq> idle_thread k" "threads k (running k) = Some th \<Longrightarrow> frames th = [K_body]"
proof -
  obtain th0 where th: "threads k (running k) = Some th0" "stack_ok L (frames th0)"
    "running k = idle_thread k \<longrightarrow> set (frames th0) \<subseteq> idle_frames" using running_thread [OF assms(1)] by blast
  then have b: "frames th0 \<noteq> []" "hd (frames th0) = K_body" using assms(2) by (auto simp: in_body_def)
  then obtain r where r: "frames th0 = K_body # r" by (cases "frames th0") auto
  then show "threads k (running k) = Some th \<Longrightarrow> frames th = [K_body]" using th by simp
  show "running k \<noteq> idle_thread k" using th(3) r by (auto simp: idle_frames_def)
qed

lemma run_call_inv:
  assumes inv: "kinv L k" and b: "in_body k" and ok: "call_ok L k c" and r: "run_call c k = Some k'"
  shows "kinv L k'"
proof -
  note i = in_body_not_idle [OF inv b]
  show ?thesis
  proof (cases c)
    case Thread_exit
    have "set (frames th) \<subseteq> {K_body}" if "threads k (running k) = Some th" for th using i(2) [OF that] by simp
    then show ?thesis using thread_exit_inv [OF inv _ i(1)] r Thread_exit by simp
  next
    case (Thread_create page nm p fn)
    then show ?thesis using r ok thread_create_inv [OF inv i(1)] by auto
  qed (use r ok inv i(1) in \<open>auto intro: sema_down_inv sema_up_inv sema_try_down_inv lock_acquire_inv lock_try_acquire_inv
      lock_release_inv cond_wait_inv cond_signal_inv cond_broadcast_inv thread_yield_inv thread_set_priority_inv
      thread_set_nice_inv timer_sleep_inv\<close>)
qed

lemma pop_plain_inv:
  assumes inv: "kinv L k" and th: "threads k (running k) = Some th" "frames th = fr # frs" and p: "plain fr"
  shows "kinv L (k\<lparr>threads := (threads k)(running k \<mapsto> th\<lparr>frames := frs\<rparr>)\<rparr>)"
proof -
  obtain th0 where "threads k (running k) = Some th0" "stack_ok L (frames th0)"
    "running k = idle_thread k \<longrightarrow> set (frames th0) \<subseteq> idle_frames" using running_thread [OF inv] by blast
  then show ?thesis using th p by (intro plain_change_inv [OF inv th(1)]) auto
qed

lemma idle_pop:
  assumes inv: "kinv L k" and th: "threads k (running k) = Some th" "frames th = fr # frs"
  shows "fr \<in> idle_frames \<or> running k \<noteq> idle_thread k"
  using running_thread [OF inv] th by auto

lemma idle_block_inv:
  assumes inv: "kinv L k" and b: "run_idle_block k = Some k'"
  shows "kinv L k'"
proof -
  obtain th where th: "threads k (running k) = Some th" "sleep_ticks th = 0" using running_thread [OF inv] by blast
  have "thread_block (k\<lparr>if_flag := False,
      threads := (threads k)(running k \<mapsto> th\<lparr>frames := [K_idle_hlt] @ frames th, sleep_ticks := 0\<rparr>)\<rparr>) = Some k'"
  proof -
    have "th\<lparr>frames := F, sleep_ticks := 0\<rparr> = th\<lparr>frames := F\<rparr>" for F using th(2) by simp
    then show ?thesis using b th(1) by (auto simp: run_idle_block_def push_frame_def upd_thread_def intr_disable_def bind_eq_Some_conv)
  qed
  from block_inv [OF inv th(1) _ _ this] show ?thesis by (auto simp: idle_frames_def)
qed

lemma resume_inv:
  assumes inv: "kinv L k" and r: "kexec Resume k = Some k'"
  shows "kinv L k'"
proof -
  obtain th where th1: "threads k (running k) = Some th" using running_thread [OF inv] by blast
  then obtain fr frs where th2: "frames th = fr # frs" using r by (cases "frames th") (simp_all add: pop_frame_def)
  have run: "run_frame fr (k\<lparr>threads := (threads k)(running k \<mapsto> th\<lparr>frames := frs\<rparr>)\<rparr>) = Some k'"
    using r th1 th2 by (simp add: pop_frame_def)
  note th = th1 th2
  obtain th0 where "threads k (running k) = Some th0" "stack_ok L (frames th0)" using running_thread [OF inv] by blast
  then have stk: "stack_ok L (fr # frs)" using th by simp
  let ?kp = "k\<lparr>threads := (threads k)(running k \<mapsto> th\<lparr>frames := frs\<rparr>)\<rparr>"
  have idle: "running k \<noteq> idle_thread k" if "fr \<notin> idle_frames" using idle_pop [OF inv th] that by blast
  have pop: "kinv L ?kp" if "plain fr" by (rule pop_plain_inv [OF inv th that])
  show ?thesis
  proof (cases fr)
    case K_body
    then have i: "running k \<noteq> idle_thread k" and e: "frs = []" using idle stk by (auto simp: idle_frames_def)
    show ?thesis
      by (rule thread_exit_inv [of L ?kp]) (use pop K_body run i e in auto)
  next
    case (K_sema_down s lv)
    then show ?thesis using resume_sema_down_inv [OF inv th(1)] th(2) idle run by (auto simp: idle_frames_def)
  next
    case (K_lock_down l)
    then show ?thesis using lock_acquire_down_inv [OF inv th(1)] th(2) idle run stk by (auto simp: idle_frames_def)
  next
    case (K_lock_held l)
    then show ?thesis using lock_acquire_held_inv [OF inv th(1)] th(2) idle run stk by (auto simp: idle_frames_def)
  next
    case (K_try_held l)
    then show ?thesis using lock_try_acquire_held_inv [OF inv th(1)] th(2) idle run stk by (auto simp: idle_frames_def)
  next
    case (K_lock_up l)
    then show ?thesis using lock_release_up_inv [OF inv th(1)] th(2) idle run stk by (auto simp: idle_frames_def)
  next
    case (K_tid_take t fn)
    then show ?thesis using allocate_tid_take_inv [OF inv th(1)] th(2) idle run stk by (auto simp: idle_frames_def)
  next
    case (K_tid_got t i fn)
    then have "fn = Some K_body" using stk by simp
    then show ?thesis using K_tid_got thread_create_rest_inv [OF inv th(1)] th(2) idle run by (auto simp: idle_frames_def)
  next
    case K_iret
    then have "k' = ?kp\<lparr>if_flag := True\<rparr>" using run by simp
    then show ?thesis using view_inv [OF pop same_view_fields(1)] K_iret by simp
  next
    case K_kernel_thread
    then have "k' = ?kp\<lparr>if_flag := True\<rparr>" using run by (auto simp: intr_enable_def bind_eq_Some_conv)
    then show ?thesis using view_inv [OF pop same_view_fields(1)] K_kernel_thread by simp
  next
    case K_idle_block
    then show ?thesis using idle_block_inv [of L ?kp] pop run by simp
  next
    case K_idle_hlt
    have "kinv L (?kp\<lparr>if_flag := True\<rparr>)" using view_inv [OF pop same_view_fields(1)] K_idle_hlt by simp
    then show ?thesis using run K_idle_hlt push_plain_inv [of L "?kp\<lparr>if_flag := True\<rparr>" K_idle_block k']
      by (simp add: run_idle_hlt_def idle_frames_def)
  next
    case (K_cond_down w)
    then show ?thesis using sema_down_inv [of L ?kp "waiter_sema w" k'] pop run stk idle by (simp add: idle_frames_def)
  next
    case (K_set_level lv)
    then show ?thesis using intr_set_level_inv [of L ?kp lv k'] pop run by simp
  next
    case (K_lock_donate l)
    then show ?thesis using lock_acquire_donate_inv [of L ?kp l k'] pop run stk idle by (simp add: idle_frames_def)
  next
    case (K_lock_unlist l)
    then show ?thesis using lock_release_unlist_inv [of L ?kp l k'] pop run by simp
  next
    case (K_lock_acquire l)
    then show ?thesis using lock_acquire_inv [of L ?kp l k'] pop run stk idle by (simp add: idle_frames_def)
  next
    case (K_cond_broadcast c l)
    then show ?thesis using cond_broadcast_inv [of L ?kp c l k'] pop run stk idle by (simp add: idle_frames_def)
  qed (use stk in simp_all)
qed

lemma kstep_inv:
  assumes "kstep L k k'" "kinv L k"
  shows "kinv L k'"
  using assms(1)
proof cases
  case (call c)
  then show ?thesis using run_call_inv [OF assms(2), of c k'] by (auto simp: bind_eq_Some_conv)
next
  case resume
  then show ?thesis using assms(2) resume_inv by blast
next
  case tick
  then show ?thesis using timer_event_inv [OF assms(2)] by (auto simp: bind_eq_Some_conv)
qed

inductive reachable :: "addr set \<Rightarrow> kernel \<Rightarrow> kernel \<Rightarrow> bool" for L k0 where
  start: "reachable L k0 k0"
| step: "reachable L k0 k \<Longrightarrow> kstep L k k' \<Longrightarrow> reachable L k0 k'"

lemma reachable_inv: "reachable L k0 k \<Longrightarrow> kinv L k0 \<Longrightarrow> kinv L k"
  by (induction rule: reachable.induct) (auto intro: kstep_inv)

end
