(* ===== verification/Donation.thy ===== *)
theory Donation
  imports Kernel_Machine
begin

text \<open>
  Priority donation (\<open>reset_donate_priority\<close> of \<open>threads/thread.c\<close>): the recursive
  recomputation always ends, changes nothing but priorities, and computes the least
  assignment of priorities in which every lock holder has at least the priority of each
  thread that waits for the lock.
\<close>

section \<open>States that differ in priorities only\<close>

definition with_prios :: "(addr \<Rightarrow> int) \<Rightarrow> kernel \<Rightarrow> kernel" where
  "with_prios f k = k\<lparr>threads := (\<lambda>t. map_option (\<lambda>th. th\<lparr>priority := f t\<rparr>) (threads k t))\<rparr>"

lemma with_prios_simps [simp]:
  "semas (with_prios f k) = semas k" "holder (with_prios f k) = holder k" "lock_list (with_prios f k) = lock_list k"
  "alive (with_prios f k) t = alive k t" "if_flag (with_prios f k) = if_flag k"
  by (simp_all add: with_prios_def alive_def)

lemma with_prios_thread: "threads (with_prios f k) t = map_option (\<lambda>th. th\<lparr>priority := f t\<rparr>) (threads k t)"
  by (simp add: with_prios_def)

lemma prio_with_prios: "alive k t \<Longrightarrow> prio (with_prios f k) t = f t"
  by (auto simp: alive_def with_prios_thread)

lemma with_prios_self: "with_prios (prio k) k = k"
proof -
  have "(\<lambda>t. map_option (\<lambda>th. th\<lparr>priority := prio k t\<rparr>) (threads k t)) = threads k"
  proof
    fix t
    show "map_option (\<lambda>th. th\<lparr>priority := prio k t\<rparr>) (threads k t) = threads k t"
      by (cases "threads k t") simp_all
  qed
  then show ?thesis by (simp add: with_prios_def)
qed

lemma upd_priority_with_prios:
  assumes "alive k h"
  shows "upd_thread h (priority_update (\<lambda>_. p)) (with_prios f k) = Some (with_prios (f(h := p)) k)"
proof -
  obtain th where th: "threads k h = Some th" using assms by (auto simp: alive_def)
  have "(\<lambda>t. map_option (\<lambda>th. th\<lparr>priority := f t\<rparr>) (threads k t))(h \<mapsto> th\<lparr>priority := p\<rparr>) =
      (\<lambda>t. map_option (\<lambda>th. th\<lparr>priority := (f(h := p)) t\<rparr>) (threads k t))"
    using th by (auto simp: fun_eq_iff)
  then show ?thesis using th by (simp add: upd_thread_def with_prios_def)
qed

section \<open>The specification\<close>

definition lock_waiters :: "kernel \<Rightarrow> addr \<Rightarrow> addr list" where
  "lock_waiters k l = waiters (semas k (lock_sema l))"

text \<open>Every listed lock is held by a live thread and only live threads wait for it.\<close>

definition locks_held :: "kernel \<Rightarrow> bool" where
  "locks_held k \<longleftrightarrow>
     finite (dom (threads k)) \<and>
     (\<forall>l\<in>set (lock_list k). holder k l \<noteq> NULL \<and> alive k (holder k l) \<and> list_all (alive k) (lock_waiters k l) \<and>
        sema_value (semas k (lock_sema l)) = 0)"

definition donated :: "kernel \<Rightarrow> addr list \<Rightarrow> (addr \<Rightarrow> int) \<Rightarrow> bool" where
  "donated k ls f \<longleftrightarrow> (\<forall>l\<in>set ls. \<forall>t\<in>set (lock_waiters k l). f t \<le> f (holder k l))"

section \<open>The loop\<close>

lemma max_from_prio:
  "max_from (less_priority k) x ys \<in> set (x # ys)"
  "\<forall>t\<in>set (x # ys). prio k t \<le> prio k (max_from (less_priority k) x ys)"
  by (induction ys arbitrary: x) (auto simp: less_priority_def, fastforce+)

lemma waiters_max_priority_spec:
  assumes "list_all (alive k) (lock_waiters k l)" "sema_value (semas k (lock_sema l)) = 0"
  shows "\<exists>p. waiters_max_priority (with_prios f k) l = Some p \<and>
    (lock_waiters k l = [] \<longrightarrow> p = 0) \<and>
    (\<forall>t\<in>set (lock_waiters k l). f t \<le> p) \<and> (lock_waiters k l \<noteq> [] \<longrightarrow> p \<in> f ` set (lock_waiters k l))"
proof (cases "lock_waiters k l")
  case Nil
  then show ?thesis using assms(2) by (simp add: waiters_max_priority_def lock_waiters_def)
next
  case (Cons x ys)
  let ?k = "with_prios f k"
  let ?m = "max_from (less_priority ?k) x ys"
  have al: "alive k t" if "t \<in> set (x # ys)" for t using assms(1) Cons that by (auto simp: list_all_iff)
  have p: "prio ?k t = f t" if "t \<in> set (x # ys)" for t using al [OF that] by (rule prio_with_prios)
  have "waiters_max_priority ?k l = Some (prio ?k ?m)"
    using Cons al by (auto simp: waiters_max_priority_def lock_waiters_def list_all_iff)
  moreover have "prio ?k ?m = f ?m" using max_from_prio(1) by (rule p)
  moreover have "\<forall>t\<in>set (x # ys). f t \<le> f ?m"
    using max_from_prio(2) [of x ys ?k] p max_from_prio(1) [of ?k x ys] by metis
  ultimately show ?thesis using Cons max_from_prio(1) [of ?k x ys] by auto
qed

text \<open>One iteration, as an equation on the priorities.\<close>

lemma reset_donate_step:
  assumes "locks_held k" "l \<in> set (lock_list k)" "0 \<le> f (holder k l)"
  shows "donated k [l] f \<and> reset_donate_loop (l # ls) (with_prios f k) = reset_donate_loop ls (with_prios f k) \<or>
    (\<exists>t\<in>set (lock_waiters k l). f (holder k l) < f t \<and> (\<forall>u\<in>set (lock_waiters k l). f u \<le> f t) \<and>
      reset_donate_loop (l # ls) (with_prios f k) =
        Option.bind (reset_donate_loop (lock_list k) (with_prios (f(holder k l := f t)) k)) (reset_donate_loop ls))"
proof -
  have h: "holder k l \<noteq> NULL" "alive k (holder k l)" "list_all (alive k) (lock_waiters k l)" "sema_value (semas k (lock_sema l)) = 0"
    using assms(1,2) by (auto simp: locks_held_def)
  obtain p where p: "waiters_max_priority (with_prios f k) l = Some p" "lock_waiters k l = [] \<longrightarrow> p = 0"
    "\<forall>t\<in>set (lock_waiters k l). f t \<le> p" "lock_waiters k l \<noteq> [] \<longrightarrow> p \<in> f ` set (lock_waiters k l)"
    using waiters_max_priority_spec [OF h(3,4), of f] by blast
  obtain th where th: "threads k (holder k l) = Some th" using h(2) by (auto simp: alive_def)
  have unf: "reset_donate_loop (l # ls) (with_prios f k) =
      (if p > f (holder k l) then Option.bind (reset_donate_loop (lock_list k) (with_prios (f(holder k l := p)) k)) (reset_donate_loop ls)
       else reset_donate_loop ls (with_prios f k))"
    by (subst reset_donate_loop.simps)
      (use p(1) h th in \<open>simp add: with_prios_thread upd_priority_with_prios\<close>)
  show ?thesis
  proof (cases "p > f (holder k l)")
    case True
    then have "lock_waiters k l \<noteq> []" using p(2) assms(3) by auto
    then obtain t where "t \<in> set (lock_waiters k l)" "p = f t" using p(4) by blast
    then show ?thesis using True p(3) unf by auto
  next
    case False
    then have "donated k [l] f" using p(3) by (force simp: donated_def)
    then show ?thesis using False unf by simp
  qed
qed

lemma donated_loop:
  assumes "locks_held k" "set ls \<subseteq> set (lock_list k)" "donated k ls f" "\<forall>t. 0 \<le> f t"
  shows "reset_donate_loop ls (with_prios f k) = Some (with_prios f k)"
  using assms(2,3)
proof (induction ls)
  case Nil
  then show ?case by (subst reset_donate_loop.simps) simp
next
  case (Cons l ls)
  have "\<not> (\<exists>t\<in>set (lock_waiters k l). f (holder k l) < f t)" using Cons.prems by (auto simp: donated_def)
  then have "reset_donate_loop (l # ls) (with_prios f k) = reset_donate_loop ls (with_prios f k)"
    using reset_donate_step [OF assms(1), of l f ls] Cons.prems assms(4) by auto
  then show ?case using Cons by (simp add: donated_def)
qed

section \<open>Termination and the least solution\<close>

text \<open>
  The sum of the distances of all priorities to an upper bound goes down with every
  recursive call, since the raised holder was below one of its waiters.
\<close>

definition headroom :: "kernel \<Rightarrow> int \<Rightarrow> (addr \<Rightarrow> int) \<Rightarrow> nat" where
  "headroom k M f = (\<Sum>t\<in>dom (threads k). nat (M - f t))"

lemma headroom_less:
  assumes "finite (dom (threads k))" "alive k h" "f h < p" "p \<le> M"
  shows "headroom k M (f(h := p)) < headroom k M f"
  unfolding headroom_def using assms
  by (intro sum_strict_mono_ex1) (auto simp: alive_def)

definition least_above :: "kernel \<Rightarrow> (addr \<Rightarrow> int) \<Rightarrow> (addr \<Rightarrow> int) \<Rightarrow> bool" where
  "least_above k f f' \<longleftrightarrow>
     (\<forall>t. f t \<le> f' t) \<and> (\<forall>g. (\<forall>t. f t \<le> g t) \<and> donated k (lock_list k) g \<longrightarrow> (\<forall>t. f' t \<le> g t))"

lemma least_above_refl: "least_above k f f"
  by (simp add: least_above_def)

lemma least_above_raise:
  assumes "l \<in> set (lock_list k)" "t \<in> set (lock_waiters k l)" "f (holder k l) < f t"
    and "least_above k (f(holder k l := f t)) f'"
  shows "least_above k f f'"
proof -
  have 1: "f u \<le> f' u" for u
    using assms(3,4) order_trans [of "f u" "(f(holder k l := f t)) u" "f' u"]
    by (auto simp: least_above_def split: if_splits)
  have 2: "f' u \<le> g u" if g: "\<forall>t. f t \<le> g t" "donated k (lock_list k) g" for g u
  proof -
    have "g t \<le> g (holder k l)" using g(2) assms(1,2) by (simp add: donated_def)
    then have "f t \<le> g (holder k l)" using g(1) order_trans by blast
    then have "\<forall>u. (f(holder k l := f t)) u \<le> g u" using g(1) by simp
    then show ?thesis using assms(4) g(2) by (auto simp: least_above_def)
  qed
  show ?thesis using 1 2 by (simp add: least_above_def)
qed

lemma reset_donate_loop_total:
  assumes "locks_held k" "\<forall>t. 0 \<le> f t" "\<forall>t. f t \<le> M" "set ls \<subseteq> set (lock_list k)"
  shows "\<exists>f'. reset_donate_loop ls (with_prios f k) = Some (with_prios f' k) \<and> least_above k f f' \<and>
    (\<forall>t. f' t \<le> M) \<and> (f' = f \<and> donated k ls f \<or> donated k (lock_list k) f')"
  using assms(2-4)
proof (induction "headroom k M f" arbitrary: f ls rule: less_induct)
  case less
  note outer = less.hyps and f = less.prems(1,2)
  show ?case using less.prems(3)
  proof (induction ls)
    case Nil
    have "reset_donate_loop [] (with_prios f k) = Some (with_prios f k)"
      by (subst reset_donate_loop.simps) simp
    then show ?case using f least_above_refl by (auto simp: donated_def)
  next
    case (Cons l ls)
    then have l: "l \<in> set (lock_list k)" and ls: "set ls \<subseteq> set (lock_list k)" by auto
    let ?h = "holder k l"
    consider (same) "donated k [l] f" "reset_donate_loop (l # ls) (with_prios f k) = reset_donate_loop ls (with_prios f k)"
      | (raise) t where "t \<in> set (lock_waiters k l)" "f ?h < f t"
        "reset_donate_loop (l # ls) (with_prios f k) =
         Option.bind (reset_donate_loop (lock_list k) (with_prios (f(?h := f t)) k)) (reset_donate_loop ls)"
      using reset_donate_step [OF assms(1) l, of f ls] f(1) by blast
    then show ?case
    proof cases
      case same
      then show ?thesis using Cons.IH [OF ls] by (auto simp: donated_def)
    next
      case (raise t)
      let ?f = "f(?h := f t)"
      have "headroom k M ?f < headroom k M f"
        using assms(1) l raise(2) f by (intro headroom_less) (auto simp: locks_held_def)
      from outer [OF this, of "lock_list k"] f have
        "\<exists>f'. reset_donate_loop (lock_list k) (with_prios ?f k) = Some (with_prios f' k) \<and> least_above k ?f f' \<and>
          (\<forall>t. f' t \<le> M) \<and> (f' = ?f \<and> donated k (lock_list k) ?f \<or> donated k (lock_list k) f')" by simp
      then obtain f' where
        f': "reset_donate_loop (lock_list k) (with_prios ?f k) = Some (with_prios f' k)" "least_above k ?f f'"
          "\<forall>t. f' t \<le> M" "donated k (lock_list k) f'"
        by blast
      have ge: "least_above k f f'" using least_above_raise [OF l raise(1,2) f'(2)] .
      then have "\<forall>t. 0 \<le> f' t" using f(1) order_trans unfolding least_above_def by blast
      moreover have "donated k ls f'" using f'(4) ls by (auto simp: donated_def)
      ultimately have "reset_donate_loop ls (with_prios f' k) = Some (with_prios f' k)"
        using donated_loop [OF assms(1) ls] by blast
      then show ?thesis using raise(3) f' ge by auto
    qed
  qed
qed

definition live_prio :: "kernel \<Rightarrow> addr \<Rightarrow> int" where
  "live_prio k t = (if alive k t then prio k t else 0)"

lemma with_live_prio: "with_prios (live_prio k) k = k"
proof -
  have "with_prios (live_prio k) k = with_prios (prio k) k"
    by (auto simp: with_prios_def live_prio_def alive_def fun_eq_iff map_option_case split: option.split)
  then show ?thesis by (simp add: with_prios_self)
qed

lemma intr_disable_with_prios: "intr_disable (with_prios f k) = with_prios f (intr_disable k)"
  by (simp add: intr_disable_def with_prios_def)

lemma reset_donate_priority_loop:
  assumes "locks_held k" "\<forall>t. alive k t \<longrightarrow> 0 \<le> prio k t" "if_flag k \<longrightarrow> \<not> in_external_intr k"
  shows "\<exists>f. reset_donate_priority k = Some (with_prios f k) \<and> donated k (lock_list k) f \<and> least_above k (live_prio k) f"
proof -
  let ?k = "intr_disable k" and ?f = "live_prio k"
  have same: "lock_waiters ?k = lock_waiters k" "holder ?k = holder k" "lock_list ?k = lock_list k" "live_prio ?k = ?f"
    by (simp_all add: intr_disable_def lock_waiters_def live_prio_def alive_def fun_eq_iff)
  have d: "donated ?k = donated k" "least_above ?k = least_above k"
    by (simp_all add: donated_def least_above_def same fun_eq_iff)
  have lh: "locks_held ?k" using assms(1) by (simp add: locks_held_def intr_disable_def lock_waiters_def alive_def list_all_iff)
  define M where "M = Max (insert 0 (?f ` dom (threads k)))"
  have fin: "finite (dom (threads k))" using assms(1) by (simp add: locks_held_def)
  have M: "?f t \<le> M" for t
    unfolding M_def using fin by (cases "alive k t") (auto simp: alive_def live_prio_def intro!: Max_ge)
  have nn: "0 \<le> ?f t" for t using assms(2) by (simp add: live_prio_def)
  from reset_donate_loop_total [OF lh, of ?f M "lock_list k"] M nn obtain f where
    f: "reset_donate_loop (lock_list k) (with_prios ?f ?k) = Some (with_prios f ?k)"
      "least_above k ?f f" "donated k (lock_list k) f"
    unfolding same d by auto
  have "intr_set_level (if_flag k) (with_prios f ?k) = Some (with_prios f k)"
    using assms(3) by (cases "if_flag k")
      (simp_all add: intr_set_level_def intr_disable_def intr_enable_def with_prios_def)
  then show ?thesis using f with_live_prio [of ?k, unfolded same]
    by (auto simp: reset_donate_priority_def Let_def)
qed

section \<open>A listed lock without a holder\<close>

text \<open>
  No run of the loop over a list that has a lock with the null pointer as its holder ends
  regularly: holders do not change on the way, and the loop reads the priority of each.
\<close>

lemma reset_donate_loop_holders:
  assumes "reset_donate_loop ls k = Some k'"
  shows "holder k' = holder k \<and> (\<forall>l\<in>set ls. holder k l \<noteq> NULL)"
proof (rule reset_donate_loop.raw_induct [where P = "\<lambda>ls k k'. holder k' = holder k \<and> (\<forall>l\<in>set ls. holder k l \<noteq> NULL)", OF _ assms])
  fix loop ls k k'
  assume IH: "\<And>ls k k'. loop ls k = Some k' \<Longrightarrow> holder k' = holder k \<and> (\<forall>l\<in>set ls. holder k l \<noteq> NULL)"
    and body: "(case ls of [] \<Rightarrow> Some k
     | l # ls \<Rightarrow> do {
         max_priority \<leftarrow> waiters_max_priority k l;
         kassert (holder k l \<noteq> NULL);
         h \<leftarrow> threads k (holder k l);
         if priority h < max_priority then do {
           k \<leftarrow> upd_thread (holder k l) (priority_update (\<lambda>_. max_priority)) k;
           k \<leftarrow> loop (lock_list k) k;
           loop ls k }
         else loop ls k }) = Some k'"
  show "holder k' = holder k \<and> (\<forall>l\<in>set ls. holder k l \<noteq> NULL)"
    using body
    by (auto split: list.splits if_splits simp: bind_eq_Some_conv upd_thread_def dest!: IH)
qed

end
