(* ===== verification/Kernel_Boot.thy ===== *)
theory Kernel_Boot
  imports Donation
begin

text \<open>
  Concrete runs of the kernel machine: booting, and the contention of two threads for a lock
  that \<open>main\<close> holds. The runs are evaluated in the logic; the states they reach satisfy the
  kernel invariant, so that the theorems about reachable states apply to them.
\<close>

lemmas kernel_defs = thread_init_def lock_init_def blank_kernel_def sema_init_def upd_sema_def init_thread_def
  upd_thread_def push_frame_def allocate_tid_def lock_acquire_def lock_held_by_current_thread_def
  thread_current_def is_thread_def lock_initial_state_def append_lock_list_def intr_disable_def
  intr_set_level_def intr_enable_def pop_frame_def lock_acquire_donate_def lock_acquire_down_def
  sema_down_def sema_down_loop_def lock_acquire_held_def allocate_tid_take_def lock_release_def
  lock_release_up_def sema_up_def sema_wake_def lock_release_unlist_def remove_lock_list_def
  thread_start_def thread_create_def thread_create_rest_def alloc_frame_def thread_unblock_def
  enqueue_ready_def thread_start_rest_def thread_block_def schedule_def next_thread_to_run_def
  thread_schedule_tail_def run_idle_def thread_yield_def in_body_def less_priority_def alive_def

lemma reset_donate_loop_Nil: "reset_donate_loop [] k = Some k"
  by (subst reset_donate_loop.simps) simp

lemma reset_donate_loop_Cons:
  "reset_donate_loop (l # ls) k = do {
     p \<leftarrow> waiters_max_priority k l;
     kassert (holder k l \<noteq> NULL);
     h \<leftarrow> threads k (holder k l);
     if p > priority h then do {
       k \<leftarrow> upd_thread (holder k l) (priority_update (\<lambda>_. p)) k;
       k \<leftarrow> reset_donate_loop (lock_list k) k;
       reset_donate_loop ls k }
     else reset_donate_loop ls k }"
  by (subst reset_donate_loop.simps) simp

lemmas donate_defs = reset_donate_priority_def reset_donate_loop_Nil reset_donate_loop_Cons waiters_max_priority_def

lemma krun_append: "krun (es @ fs) k = Option.bind (krun es k) (krun fs)"
  by (induction es arbitrary: k) (simp_all split: bind_splits)

section \<open>Booting\<close>

text \<open>\<open>main\<close> has the page at 4096, the idle thread the one at 8192; \<open>tid_lock\<close> is at 64.\<close>

definition a_thread :: "int \<Rightarrow> thread_status \<Rightarrow> string \<Rightarrow> addr \<Rightarrow> int \<Rightarrow> frame list \<Rightarrow> thread" where
  "a_thread i st nm stk pri frs =
     \<lparr>tid = i, status = st, name = nm, stack = stk, priority = pri, priority_old = pri, all_locks = [],
      sleep_ticks = 0, nice = 0, recent_cpu = 0, magic = THREAD_MAGIC, frames = frs\<rparr>"

definition booted :: kernel where
  "booted = (blank_kernel False 4096 64)\<lparr>
     threads := [4096 \<mapsto> a_thread 1 THREAD_RUNNING ''main'' 8192 31 [K_body],
                 8192 \<mapsto> a_thread 2 THREAD_READY ''idle'' 12244 0 [K_set_level False, K_set_level True, K_idle_block]],
     semas := (\<lambda>_. \<lparr>sema_value = 0, waiters = []\<rparr>)(68 := \<lparr>sema_value = 1, waiters = []\<rparr>),
     all_list := [4096, 8192], idle_thread := 8192, next_tid := 3, if_flag := True\<rparr>"

definition boot_events :: "event list" where
  "boot_events =
     [Resume, Resume, Resume, Resume, Resume, Resume, Resume] @ Call (Thread_start 8192 128) #
     [Resume, Resume, Resume, Resume, Resume, Resume, Resume, Resume, Resume, Resume, Resume]"

lemma boot_run: "Option.bind (thread_init False 4096 64) (krun boot_events) = Some (booted)"
  by (simp add: kernel_defs boot_events_def booted_def a_thread_def Let_def)
    (simp add: fun_eq_iff)

lemma kinv_booted: "kinv {64} booted"
  unfolding kinv_def
proof
  have dom: "dom (threads booted) = {4096, 8192}" by (auto simp: booted_def)
  show "kinv0 {64} booted"
  proof (rule kinv0I)
    show "ready_ok booted" unfolding ready_ok_def
      by (auto simp: ready_set_def booted_def a_thread_def blank_kernel_def readyq_def split: if_splits)
    show "mutex_ok {64} booted"
      by (simp add: mutex_ok_def tokens_def fcount_def dom) (simp add: booted_def a_thread_def blank_kernel_def)
    show "create_ok booted" unfolding create_ok_def
      by (simp add: fcount_def dom) (auto simp: booted_def a_thread_def blank_kernel_def split: if_splits)
    show "stacks_ok {64} booted" "all_ok booted" "idle_ok booted"
      by (auto simp: kinv_parts idle_frames_def booted_def a_thread_def blank_kernel_def split: if_splits)
  qed (auto simp: kinv_parts booted_def a_thread_def blank_kernel_def alive_def wake_ok_def split: if_splits)
qed (simp add: booted_def a_thread_def blank_kernel_def)

section \<open>Two threads wait for a lock that the third holds\<close>

text \<open>\<open>main\<close> initialises the lock at 256 and creates two threads of its own priority.\<close>

definition with_lock :: kernel where
  "with_lock = booted\<lparr>semas := (semas booted)(260 := \<lparr>sema_value = 1, waiters = []\<rparr>)\<rparr>"

lemma with_lock: "lock_init 256 booted = Some with_lock"
  by (simp add: lock_init_def sema_init_def upd_sema_def booted_def blank_kernel_def with_lock_def fun_eq_iff)

definition contention_events :: "event list" where
  "contention_events =
     Call (Thread_create 12288 ''a'' 31 K_body) # [Resume, Resume, Resume, Resume, Resume, Resume, Resume] @
     Call (Thread_create 16384 ''b'' 31 K_body) # [Resume, Resume, Resume, Resume, Resume, Resume, Resume] @
     Call (Lock_acquire 256) # [Resume, Resume, Resume] @
     [Call Thread_yield, Resume] @
     Call (Lock_acquire 256) # [Resume, Resume, Resume] @
     Call (Lock_acquire 256) # [Resume, Resume, Resume]"

definition contended :: kernel where
  "contended = with_lock\<lparr>
     threads := [4096 \<mapsto> (a_thread 1 THREAD_RUNNING ''main'' 8192 31 [K_body])\<lparr>all_locks := [256]\<rparr>,
                 8192 \<mapsto> a_thread 2 THREAD_READY ''idle'' 12244 0 [K_set_level False, K_set_level True, K_idle_block],
                 12288 \<mapsto> a_thread 3 THREAD_BLOCKED ''a'' 16340 31 [K_sema_down 260 True, K_lock_held 256, K_body],
                 16384 \<mapsto> a_thread 4 THREAD_BLOCKED ''b'' 20436 31 [K_sema_down 260 True, K_lock_held 256, K_body]],
     semas := (semas with_lock)(260 := \<lparr>sema_value = 0, waiters = [12288, 16384]\<rparr>),
     holder := (\<lambda>_. NULL)(256 := 4096), lock_list := [256],
     all_list := [4096, 8192, 12288, 16384], next_tid := 5\<rparr>"

lemma contention_run: "krun contention_events with_lock = Some contended"
  by (simp add: kernel_defs donate_defs contention_events_def contended_def with_lock_def booted_def a_thread_def Let_def)
    (simp add: fun_eq_iff)

lemmas state_defs = contended_def with_lock_def booted_def a_thread_def blank_kernel_def

lemma kinv_contended: "kinv {64, 256} contended"
  unfolding kinv_def
proof
  have dom: "dom (threads contended) = {4096, 8192, 12288, 16384}" by (auto simp: contended_def)
  show "kinv0 {64, 256} contended"
  proof (rule kinv0I)
    show "ready_ok contended" unfolding ready_ok_def
      by (auto simp: ready_set_def state_defs readyq_def split: if_splits)
    show "mutex_ok {64, 256} contended"
      by (simp add: mutex_ok_def tokens_def fcount_def dom) (simp add: state_defs)
    show "wake_ok contended" by (simp add: wake_ok_def fcount_def dom) (simp add: state_defs)
    show "create_ok contended" unfolding create_ok_def
      by (simp add: fcount_def dom) (auto simp: state_defs split: if_splits)
    show "stacks_ok {64, 256} contended" "all_ok contended" "idle_ok contended" "waiters_ok contended"
      by (auto simp: kinv_parts idle_frames_def state_defs split: if_splits)
  qed (auto simp: kinv_parts state_defs alive_def split: if_splits)
qed (simp add: state_defs)

text \<open>
  \<open>main\<close> releases the lock. The first waiter is made ready; the lock stays on \<open>lock_list\<close>,
  because the second one still waits, and has no holder until the first waiter runs.
\<close>

definition handed_over :: kernel where
  "handed_over = contended\<lparr>
     threads := (threads contended)(4096 \<mapsto> a_thread 1 THREAD_RUNNING ''main'' 8192 31 [K_body],
                 12288 \<mapsto> a_thread 3 THREAD_READY ''a'' 16340 31 [K_sema_down 260 True, K_lock_held 256, K_body]),
     semas := (semas contended)(260 := \<lparr>sema_value = 1, waiters = [16384]\<rparr>),
     holder := (\<lambda>_. NULL), ready_list := [12288]\<rparr>"

lemma release_run: "krun [Call (Lock_release 256), Resume, Resume] contended = Some handed_over"
  by (simp add: kernel_defs donate_defs handed_over_def state_defs Let_def max_donate_priority.simps)
    (simp add: fun_eq_iff)

lemma handed_over_reachable: "reachable {64, 256} contended handed_over"
proof -
  obtain k1 k2 where k: "kexec (Call (Lock_release 256)) contended = Some k1" "kexec Resume k1 = Some k2" "kexec Resume k2 = Some handed_over"
    using release_run by (simp only: krun.simps bind_eq_Some_conv) blast
  have "kstep {64, 256} contended k1" using k(1) by (rule kstep.call [rotated]) simp
  then have "reachable {64, 256} contended k1" by (rule reachable.step [OF reachable.start])
  then have "reachable {64, 256} contended k2" using kstep.resume [OF k(2)] by (rule reachable.step)
  then show ?thesis using kstep.resume [OF k(3)] by (rule reachable.step)
qed

end
