(* ===== verification/Kernel_Props.thy ===== *)
theory Kernel_Props
  imports Kernel_Boot
begin

text \<open>
  What the thread system promises: facts about every state the kernel machine reaches, the
  choice of the next thread, sleeping, donation, and the two defects of \<open>lock_list\<close>.
\<close>

section \<open>Reachable states\<close>

lemma running_unique:
  assumes "kinv L k"
  shows "map_option status (threads k t) = Some THREAD_RUNNING \<longleftrightarrow> t = running k"
  using assms kinv0D(3) [of L k] by (auto simp: kinv_def run_ok_def)

lemma readyq_ready_set:
  assumes "kinv L k"
  shows "set (readyq k) = ready_set k" "distinct (readyq k)"
proof -
  have m: "mset (readyq k) = mset_set (ready_set k)" and fin: "finite (ready_set k)"
    using assms kinv0D(4) [of L k] by (simp_all add: kinv_def ready_ok_def)
  then show s: "set (readyq k) = ready_set k" by (metis finite_set_mset_mset_set set_mset_mset)
  show "distinct (readyq k)"
    using m fin s by (metis count_mset_set(1,3) distinct_count_atmost_1 of_bool_def set_mset_mset)
qed

text \<open>
  C2: In every state the kernel machine reaches, exactly one thread runs, no thread is queued
  twice, and the ready queues hold exactly the ready threads other than the idle thread.
\<close>

theorem scheduler_consistent:
  assumes "kinv L k0" "reachable L k0 k"
  shows "(\<forall>t. map_option status (threads k t) = Some THREAD_RUNNING \<longleftrightarrow> t = running k) \<and>
    distinct (readyq k) \<and>
    set (readyq k) = {t. t \<noteq> idle_thread k \<and> map_option status (threads k t) = Some THREAD_READY}"
proof -
  have inv: "kinv L k" using reachable_inv [OF assms(2,1)] .
  then have "set (readyq k) = {t. t \<noteq> idle_thread k \<and> map_option status (threads k t) = Some THREAD_READY}"
    by (auto simp: readyq_ready_set ready_set_def)
  then show ?thesis using running_unique [OF inv] readyq_ready_set(2) [OF inv] by simp
qed

theorem scheduler_consistent_witness:
  "kinv {64, 256} contended \<and> reachable {64, 256} contended handed_over \<and> readyq handed_over = [12288] \<and>
   set (readyq handed_over) =
     {t. t \<noteq> idle_thread handed_over \<and> map_option status (threads handed_over t) = Some THREAD_READY}"
  using scheduler_consistent [OF kinv_contended handed_over_reachable] kinv_contended handed_over_reachable
  by (simp add: readyq_def handed_over_def state_defs)

text \<open>
  C4: Mutual exclusion. Of a free semaphore, a recorded holder, a thread that has the semaphore
  and is about to record itself, and a thread that is about to give the semaphore back, a
  reachable state has exactly one for each lock.
\<close>

theorem lock_mutual_exclusion:
  assumes "kinv L k0" "reachable L k0 k" "l \<in> L"
  shows "unat (sema_value (semas k (lock_sema l))) + of_bool (holder k l \<noteq> NULL) +
    (fcount (takes l) (threads k) - fcount (waits (lock_sema l)) (threads k)) +
    fcount ((=) (K_lock_up l)) (threads k) = (1 :: nat)"
proof -
  have "kinv0 L k" using reachable_inv [OF assms(2,1)] by (simp add: kinv_def)
  from token_unique [OF this assms(3)] show ?thesis by (simp add: token_sum_def)
qed

theorem lock_mutual_exclusion_witness:
  "holder handed_over 256 = NULL \<and>
   unat (sema_value (semas handed_over 260)) + of_bool (holder handed_over 256 \<noteq> NULL) +
    (fcount (takes 256) (threads handed_over) - fcount (waits 260) (threads handed_over)) +
    fcount ((=) (K_lock_up 256)) (threads handed_over) = (1 :: nat)"
  using lock_mutual_exclusion [OF kinv_contended handed_over_reachable, of 256]
  by (simp add: handed_over_def)

text \<open>
  C6: No wakeup is lost. While threads sleep on a semaphore in a reachable state, its value and
  the sleepers together are at most the \<open>sema_down\<close> calls in progress; so when every such
  call is asleep, the value is zero.
\<close>

theorem no_lost_wakeup:
  assumes "kinv L k0" "reachable L k0 k" "waiters (semas k s) \<noteq> []"
  shows "unat (sema_value (semas k s)) + length (waiters (semas k s)) \<le> fcount (waits s) (threads k) \<and>
    (fcount (waits s) (threads k) = length (waiters (semas k s)) \<longrightarrow> sema_value (semas k s) = 0)"
proof -
  have "wake_ok k" using reachable_inv [OF assms(2,1)] by (simp add: kinv_def kinv0_def)
  then have "unat (sema_value (semas k s)) + length (waiters (semas k s)) \<le> fcount (waits s) (threads k)"
    using assms(3) by (simp add: wake_ok_def)
  then show ?thesis by (auto simp: unat_eq_0 [symmetric])
qed

theorem no_lost_wakeup_witness:
  "sema_value (semas handed_over 260) = 1 \<and> waiters (semas handed_over 260) = [16384] \<and> 2 \<le> fcount (waits 260) (threads handed_over)"
proof -
  have w: "waiters (semas handed_over 260) = [16384]" "sema_value (semas handed_over 260) = 1" by (simp_all add: handed_over_def)
  then show ?thesis using no_lost_wakeup [OF kinv_contended handed_over_reachable, of 260] by simp
qed

section \<open>Choosing a thread\<close>

lemma strict_weak_less_priority: "strict_weak (less_priority k)"
  by (auto simp: strict_weak_def less_priority_def)

text \<open>
  C17: Without the feedback queue, the scheduler takes the first of the threads with the highest
  priority out of a nonempty ready list: all queued before it have lower, all behind it no
  higher priority.
\<close>

theorem next_thread_highest:
  assumes "\<not> thread_mlfqs k" "list_all (alive k) (ready_list k)" "ready_list k \<noteq> []"
  shows "\<exists>as t bs. ready_list k = as @ t # bs \<and> (\<forall>a\<in>set as. prio k a < prio k t) \<and> (\<forall>b\<in>set bs. prio k b \<le> prio k t) \<and>
    next_thread_to_run k = Some (t, k\<lparr>ready_list := as @ bs\<rparr>)"
proof -
  obtain x ys where q: "ready_list k = x # ys" using assms(3) by (cases "ready_list k") auto
  define mx where "mx = max_from (less_priority k) x ys"
  obtain as bs where d: "x # ys = as @ mx # bs" "\<forall>a\<in>set as. less_priority k a mx" "\<forall>b\<in>set bs. \<not> less_priority k mx b"
    using max_from_first [OF strict_weak_less_priority [of k], of x ys] unfolding mx_def by blast
  have na: "mx \<notin> set as" using d(2) by (auto simp: less_priority_def)
  have "remove1 mx (ready_list k) = as @ bs" using na by (simp add: q d(1) remove1_append)
  then have "next_thread_to_run k = Some (mx, k\<lparr>ready_list := as @ bs\<rparr>)"
    using assms q by (simp add: next_thread_to_run_def mx_def)
  moreover have "\<forall>a\<in>set as. prio k a < prio k mx" "\<forall>b\<in>set bs. prio k b \<le> prio k mx"
    using d(2,3) by (simp_all add: less_priority_def not_less)
  moreover have "ready_list k = as @ mx # bs" using q d(1) by simp
  ultimately show ?thesis by blast
qed

theorem next_thread_highest_witness:
  "\<exists>as t bs. ready_list handed_over = as @ t # bs \<and>
    next_thread_to_run handed_over = Some (t, handed_over\<lparr>ready_list := as @ bs\<rparr>)"
proof -
  have "\<not> thread_mlfqs handed_over" "list_all (alive handed_over) (ready_list handed_over)" "ready_list handed_over \<noteq> []"
    by (simp_all add: handed_over_def state_defs alive_def)
  from next_thread_highest [OF this] show ?thesis by blast
qed

section \<open>Sleeping\<close>

definition wake_one :: "thread \<Rightarrow> thread" where
  "wake_one th =
     (if status th = THREAD_BLOCKED \<and> sleep_ticks th > 0
      then th\<lparr>sleep_ticks := sleep_ticks th - 1, status := (if sleep_ticks th = 1 then THREAD_READY else THREAD_BLOCKED)\<rparr>
      else th)"

definition due :: "kernel \<Rightarrow> addr \<Rightarrow> bool" where
  "due k t \<longleftrightarrow> (case threads k t of None \<Rightarrow> False | Some th \<Rightarrow> status th = THREAD_BLOCKED \<and> sleep_ticks th = 1)"

text \<open>
  The threads that are due join the ready list, or with the multi-level feedback queues the
  queue of their priority.
\<close>

definition woken :: "addr list \<Rightarrow> kernel \<Rightarrow> kernel" where
  "woken ts k = k\<lparr>
     threads := (\<lambda>t. if t \<in> set ts then map_option wake_one (threads k t) else threads k t),
     ready_list := ready_list k @ (if thread_mlfqs k then [] else filter (due k) ts),
     mlfqs_list := (\<lambda>p. mlfqs_list k p @ (if thread_mlfqs k then filter (\<lambda>t. due k t \<and> nat (prio k t) = p) ts else []))\<rparr>"

definition has_level :: "kernel \<Rightarrow> addr \<Rightarrow> bool" where
  "has_level k t \<longleftrightarrow> thread_mlfqs k \<longrightarrow> PRI_MIN \<le> prio k t \<and> prio k t \<le> PRI_MAX"

lemma wake_threads_one:
  assumes "\<not> if_flag k" "is_thread k t" "due k t \<longrightarrow> has_level k t"
  shows "wake_threads t k = Some (woken [t] k)"
proof -
  obtain th where th: "threads k t = Some th" "magic th = THREAD_MAGIC" "t \<noteq> NULL"
    using assms(2) by (auto simp: is_thread_def split: option.splits)
  have upd: "(\<lambda>u. if u = t then map_option wake_one (threads k u) else threads k u) = (threads k)(t \<mapsto> wake_one th)"
    using th by auto
  consider "\<not> (status th = THREAD_BLOCKED \<and> sleep_ticks th > 0)"
    | "status th = THREAD_BLOCKED" "sleep_ticks th = 1" | "status th = THREAD_BLOCKED" "sleep_ticks th > 1" by linarith
  then show ?thesis
  proof cases
    case 1
    then have "(threads k)(t \<mapsto> wake_one th) = threads k" using th by (auto simp: wake_one_def)
    moreover have "\<not> due k t" using 1 th by (auto simp: due_def)
    ultimately show ?thesis using 1 th assms(2) by (auto simp: wake_threads_def woken_def upd)
  next
    case 2
    have e: "k\<lparr>ready_list := r, if_flag := False, threads := T\<rparr> = k\<lparr>threads := T, ready_list := r\<rparr>"
      "k\<lparr>mlfqs_list := q, if_flag := False, threads := T\<rparr> = k\<lparr>threads := T, mlfqs_list := q\<rparr>" for r q T
      using assms(1) by (cases k; simp)+
    have z: "sleep_ticks_update (\<lambda>n. n - 1) th = th\<lparr>sleep_ticks := 0\<rparr>" using 2 by (cases th) simp
    have q: "(\<lambda>p. mlfqs_list k p @ (if nat (priority th) = p then [t] else []))
        = (mlfqs_list k)(nat (priority th) := mlfqs_list k (nat (priority th)) @ [t])" by auto
    have upd': "(\<lambda>u. if u = t then Some x else threads k u) = (threads k)(t \<mapsto> x)" for x by auto
    have "due k t" using 2 th by (simp add: due_def)
    then have "thread_mlfqs k \<longrightarrow> PRI_MIN \<le> priority th \<and> priority th \<le> PRI_MAX" using assms(3) th by (simp add: has_level_def)
    then show ?thesis using 2 th assms(1,2) \<open>due k t\<close>
      by (cases "thread_mlfqs k")
        (simp_all add: e z q wake_threads_def woken_def upd' wake_one_def upd_thread_def thread_unblock_def is_thread_def
          enqueue_ready_def intr_disable_def intr_set_level_def Let_def cong: if_cong)
  next
    case 3
    have z: "sleep_ticks_update (\<lambda>n. n - 1) th = th\<lparr>sleep_ticks := sleep_ticks th - 1, status := THREAD_BLOCKED\<rparr>"
      using 3 by (cases th) simp
    show ?thesis using 3 th assms
      by (simp add: z wake_threads_def woken_def upd due_def wake_one_def upd_thread_def)
  qed
qed

lemma woken_simps [simp]:
  "if_flag (woken ts k) = if_flag k" "thread_mlfqs (woken ts k) = thread_mlfqs k" "all_list (woken ts k) = all_list k"
  by (simp_all add: woken_def)

lemma woken_is_thread: "is_thread (woken ts k) t = is_thread k t"
  by (auto simp: woken_def is_thread_def wake_one_def split: option.split)

lemma woken_others: "u \<notin> set ts \<Longrightarrow> threads (woken ts k) u = threads k u"
  by (simp add: woken_def)

lemma woken_Cons:
  assumes "t \<notin> set ts"
  shows "woken ts (woken [t] k) = woken (t # ts) k"
proof -
  let ?k = "woken [t] k"
  have same: "threads ?k u = threads k u" if "u \<in> set ts" for u
    using that assms by (intro woken_others) auto
  have f: "filter (due ?k) ts = filter (due k) ts"
    "filter (\<lambda>u. due ?k u \<and> nat (prio ?k u) = p) ts = filter (\<lambda>u. due k u \<and> nat (prio k u) = p) ts" for p
    using same by (auto simp: due_def intro!: filter_cong)
  have "threads (woken ts ?k) = threads (woken (t # ts) k)" using assms by (auto simp: woken_def)
  moreover have "ready_list (woken ts ?k) = ready_list (woken (t # ts) k)"
    unfolding woken_def [of ts] f by (simp add: woken_def)
  moreover have "mlfqs_list (woken ts ?k) = mlfqs_list (woken (t # ts) k)"
    unfolding woken_def [of ts] f by (auto simp: woken_def)
  ultimately show ?thesis by (intro kernel.equality) (simp_all add: woken_def)
qed

lemma foreach_wake:
  assumes "\<not> if_flag k" "distinct ts" "\<forall>t\<in>set ts. is_thread k t \<and> (due k t \<longrightarrow> has_level k t)"
  shows "foreach_threads wake_threads ts k = Some (woken ts k)"
  using assms
proof (induction ts arbitrary: k)
  case Nil
  then show ?case by (simp add: woken_def)
next
  case (Cons t ts)
  have "threads (woken [t] k) u = threads k u" if "u \<in> set ts" for u
    using that Cons.prems(2) by (intro woken_others) auto
  then have "\<forall>u\<in>set ts. is_thread (woken [t] k) u \<and> (due (woken [t] k) u \<longrightarrow> has_level (woken [t] k) u)"
    using Cons.prems(3) by (simp add: woken_is_thread due_def has_level_def)
  then show ?case using wake_threads_one [of k t] Cons.IH [of "woken [t] k"] Cons.prems
    by (simp add: woken_Cons)
qed

text \<open>
  C19: The walk over all threads that \<open>thread_tick\<close> makes at each timer tick takes one tick off
  every sleeping thread and does nothing to the others. The threads whose count reaches zero,
  and only they, become ready. They are queued in the order of \<open>all_list\<close>: behind the ready list,
  or, with the multi-level feedback queues, each behind the queue of its priority, which has to
  be between 0 and 63. The statement is about this walk, not about the rest of the interrupt.
\<close>

theorem wake_threads_exact:
  assumes "\<not> if_flag k" "distinct (all_list k)" "\<forall>t\<in>set (all_list k). is_thread k t \<and> (due k t \<longrightarrow> has_level k t)"
  shows "thread_foreach wake_threads k = Some (woken (all_list k) k)"
  using foreach_wake [OF assms] assms(1) by (simp add: thread_foreach_def)

text \<open>In the witness thread 12288 has one tick left and thread 16384 three, with either scheduler.\<close>

definition sleepers :: "bool \<Rightarrow> kernel" where
  "sleepers mlfqs = booted\<lparr>
     threads := (threads booted)(
       12288 \<mapsto> (a_thread 3 THREAD_BLOCKED ''a'' 16340 31 [K_body])\<lparr>sleep_ticks := 1\<rparr>,
       16384 \<mapsto> (a_thread 4 THREAD_BLOCKED ''b'' 20436 31 [K_body])\<lparr>sleep_ticks := 3\<rparr>),
     all_list := [4096, 8192, 12288, 16384], if_flag := False, thread_mlfqs := mlfqs, ready_list := [], mlfqs_list := (\<lambda>_. [])\<rparr>"

theorem wake_threads_exact_witness:
  "(\<exists>k. thread_foreach wake_threads (sleepers False) = Some k \<and> ready_list k = [12288]
     \<and> map_option (\<lambda>th. (status th, sleep_ticks th)) (threads k 12288) = Some (THREAD_READY, 0)
     \<and> map_option (\<lambda>th. (status th, sleep_ticks th)) (threads k 16384) = Some (THREAD_BLOCKED, 2))
   \<and> (\<exists>k. thread_foreach wake_threads (sleepers True) = Some k \<and> ready_list k = [] \<and> mlfqs_list k 31 = [12288] \<and> mlfqs_list k 30 = [])"
proof -
  have h: "\<not> if_flag (sleepers b)" "distinct (all_list (sleepers b))"
    "\<forall>t\<in>set (all_list (sleepers b)). is_thread (sleepers b) t \<and> (due (sleepers b) t \<longrightarrow> has_level (sleepers b) t)" for b
    by (simp_all add: sleepers_def state_defs is_thread_def due_def has_level_def)
  from wake_threads_exact [OF h] show ?thesis
    by (simp add: woken_def wake_one_def due_def sleepers_def state_defs)
qed

section \<open>Donation\<close>

text \<open>
  C8: When every listed lock has a live holder, recomputing the donations ends, changes nothing
  but priorities, and leaves the least priorities that are at least the old ones and give
  every holder at least the priority of each of its waiters, through any chain of locks.
\<close>

theorem reset_donate_priority_least:
  assumes "locks_held k" "\<forall>t. alive k t \<longrightarrow> 0 \<le> prio k t" "if_flag k \<longrightarrow> \<not> in_external_intr k"
  shows "\<exists>f. reset_donate_priority k = Some (with_prios f k) \<and> donated k (lock_list k) f \<and> least_above k (live_prio k) f"
  using assms by (rule reset_donate_priority_loop)

text \<open>In the witness the second waiter has priority 40, which \<open>main\<close> gets.\<close>

definition urgent :: kernel where
  "urgent = contended\<lparr>threads := (threads contended)(16384 \<mapsto> a_thread 4 THREAD_BLOCKED ''b'' 20436 40 [K_sema_down 260 True, K_lock_held 256, K_body])\<rparr>"

theorem reset_donate_priority_least_witness:
  "\<exists>f. reset_donate_priority urgent = Some (with_prios f urgent) \<and> 40 \<le> f 4096"
proof -
  have d: "dom (threads urgent) = {4096, 8192, 12288, 16384}" by (auto simp: urgent_def contended_def)
  have "locks_held urgent" unfolding locks_held_def d
    by (simp add: lock_waiters_def urgent_def state_defs alive_def)
  moreover have "\<forall>t. alive urgent t \<longrightarrow> 0 \<le> prio urgent t" by (simp add: urgent_def state_defs alive_def)
  moreover have "if_flag urgent \<longrightarrow> \<not> in_external_intr urgent" by (simp add: urgent_def state_defs)
  ultimately obtain f where f: "reset_donate_priority urgent = Some (with_prios f urgent)"
    "donated urgent (lock_list urgent) f" "least_above urgent (live_prio urgent) f"
    using reset_donate_priority_least [of urgent] by blast
  have "f 16384 \<le> f 4096" using f(2) by (simp add: donated_def lock_waiters_def urgent_def state_defs)
  moreover have "live_prio urgent 16384 \<le> f 16384" using f(3) by (simp add: least_above_def)
  moreover have "live_prio urgent 16384 = 40" by (simp add: live_prio_def alive_def urgent_def a_thread_def)
  ultimately show ?thesis using f(1) by auto
qed

section \<open>Defects of the list of contended locks\<close>

text \<open>
  C38: While a lock on \<open>lock_list\<close> has no holder, recomputing the donations dereferences the
  null pointer. This happens: after \<open>main\<close> gives up a lock that two threads wait for, and before
  the first of them runs, \<open>main\<close> cannot set its priority.
\<close>

theorem reset_donate_null_holder:
  "(\<forall>(k :: kernel) l. l \<in> set (lock_list k) \<and> holder k l = NULL \<longrightarrow> reset_donate_priority k = None) \<and>
   krun [Call (Lock_release 256), Resume, Resume] contended = Some handed_over \<and>
   krun [Call (Thread_set_priority stray 20)] handed_over = None"
proof (intro conjI allI impI)
  fix k :: kernel and l assume l: "l \<in> set (lock_list k) \<and> holder k l = NULL"
  have "reset_donate_loop (lock_list k) (intr_disable k) = None"
    using reset_donate_loop_holders [of "lock_list k" "intr_disable k"] l
    by (cases "reset_donate_loop (lock_list k) (intr_disable k)") (auto simp: intr_disable_def)
  then show "reset_donate_priority k = None" by (simp add: reset_donate_priority_def)
next
  show "krun [Call (Thread_set_priority stray 20)] handed_over = None"
    by (simp add: thread_set_priority_def handed_over_def state_defs kernel_defs donate_defs Let_def)
qed (rule release_run)

theorem reset_donate_null_holder_witness:
  "256 \<in> set (lock_list handed_over) \<and> holder handed_over 256 = NULL \<and> reset_donate_priority handed_over = None"
proof -
  have "256 \<in> set (lock_list handed_over) \<and> holder handed_over 256 = NULL" by (simp add: handed_over_def state_defs)
  then show ?thesis using reset_donate_null_holder [of 0] by blast
qed

definition second_holder_events :: "event list" where
  "second_holder_events =
     [Call Thread_yield, Resume, Resume, Call (Lock_release 256), Resume, Resume,
      Call Thread_yield, Resume, Call Thread_yield, Resume, Resume]"

text \<open>
  A lock is taken off \<open>lock_list\<close> as soon as the last waiter has been made ready, before that
  waiter has it: in the run below the second waiter holds the lock and the lock is not listed, so
  no donation reaches it, and its own release removes the lock from the list once more, which
  is outside the contract of \<open>list_remove\<close>.
\<close>

lemma lock_removed_twice:
  "\<exists>k. krun second_holder_events handed_over = Some k \<and> running k = 16384 \<and> holder k 256 = 16384 \<and> 256 \<notin> set (lock_list k) \<and>
     krun [Call (Lock_release 256), Resume] k \<noteq> None \<and> krun [Call (Lock_release 256), Resume, Resume] k = None"
  by (simp add: kernel_defs donate_defs second_holder_events_def handed_over_def state_defs Let_def max_donate_priority.simps)

end
