(* ===== verification/Khash.thy ===== *)
theory Khash
  imports Pintos_Prelude
begin

text \<open>
  Hash tables (\<open>lib/kernel/hash.c\<close>): an array of buckets, each a kernel list of elements. As in
  the other clients of \<open>lib/kernel/list.c\<close>, a bucket is the list of the addresses of its
  elements. The hash function and the comparison are parameters \<open>hsh\<close> and \<open>lt\<close>; \<open>mem\<close> says
  whether \<open>malloc\<close> finds memory for a new array of buckets.
\<close>

section \<open>The code\<close>

record hash =
  elem_cnt :: u32
  bucket_cnt :: u32
  buckets :: "addr list list"

type_synonym hash_hash_func = "addr \<Rightarrow> u32"
type_synonym hash_less_func = "addr \<Rightarrow> addr \<Rightarrow> bool"

definition find_bucket :: "hash_hash_func \<Rightarrow> hash \<Rightarrow> addr \<Rightarrow> nat option" where
  "find_bucket hsh h e =
     (let bucket_idx = unat (hsh e AND (bucket_cnt h - 1))
      in if bucket_idx < length (buckets h) then Some bucket_idx else None)"

definition find_elem :: "hash_less_func \<Rightarrow> hash \<Rightarrow> nat \<Rightarrow> addr \<Rightarrow> addr" where
  "find_elem lt h b e =
     (case find (\<lambda>hi. \<not> lt hi e \<and> \<not> lt e hi) (buckets h ! b) of None \<Rightarrow> NULL | Some hi \<Rightarrow> hi)"

definition insert_elem :: "hash \<Rightarrow> nat \<Rightarrow> addr \<Rightarrow> hash" where
  "insert_elem h b e = h\<lparr>elem_cnt := elem_cnt h + 1, buckets := (buckets h)[b := e # buckets h ! b]\<rparr>"

text \<open>\<open>list_remove\<close> unlinks the element from whichever bucket holds it.\<close>

definition remove_elem :: "hash \<Rightarrow> addr \<Rightarrow> hash" where
  "remove_elem h e = h\<lparr>elem_cnt := elem_cnt h - 1, buckets := map (remove1 e) (buckets h)\<rparr>"

definition turn_off_least_1bit :: "u32 \<Rightarrow> u32" where
  "turn_off_least_1bit x = x AND (x - 1)"

definition is_power_of_2 :: "u32 \<Rightarrow> bool" where
  "is_power_of_2 x \<longleftrightarrow> x \<noteq> 0 \<and> turn_off_least_1bit x = 0"

partial_function (option) round_to_power_of_2 :: "u32 \<Rightarrow> u32 option" where
  "round_to_power_of_2 x = (if is_power_of_2 x then Some x else round_to_power_of_2 (turn_off_least_1bit x))"

abbreviation (input) BEST_ELEMS_PER_BUCKET :: u32 where "BEST_ELEMS_PER_BUCKET \<equiv> 2"

definition ideal_bucket_cnt :: "hash \<Rightarrow> u32 option" where
  "ideal_bucket_cnt h =
     (let new_bucket_cnt = elem_cnt h div BEST_ELEMS_PER_BUCKET
      in round_to_power_of_2 (if new_bucket_cnt < 4 then 4 else new_bucket_cnt))"

fun move_elems :: "hash_hash_func \<Rightarrow> addr list \<Rightarrow> hash \<Rightarrow> hash option" where
  "move_elems hsh [] h = Some h"
| "move_elems hsh (e # es) h = do {
     b \<leftarrow> find_bucket hsh h e;
     move_elems hsh es (h\<lparr>buckets := (buckets h)[b := e # buckets h ! b]\<rparr>) }"

definition rehash :: "hash_hash_func \<Rightarrow> bool \<Rightarrow> hash \<Rightarrow> hash option" where
  "rehash hsh mem h = do {
     new_bucket_cnt \<leftarrow> ideal_bucket_cnt h;
     if new_bucket_cnt = bucket_cnt h \<or> \<not> mem then Some h
     else move_elems hsh (concat (buckets h))
            (h\<lparr>bucket_cnt := new_bucket_cnt, buckets := replicate (unat new_bucket_cnt) []\<rparr>) }"

definition hash_init :: "bool \<Rightarrow> hash option" where
  "hash_init mem = (if mem then Some \<lparr>elem_cnt = 0, bucket_cnt = 4, buckets = replicate 4 []\<rparr> else None)"

text \<open>The first component lists the elements given to the destructor, in order, if there is one.\<close>

definition hash_clear :: "bool \<Rightarrow> hash \<Rightarrow> addr list \<times> hash" where
  "hash_clear destructor h =
     (if destructor then concat (buckets h) else [], h\<lparr>buckets := map (\<lambda>_. []) (buckets h), elem_cnt := 0\<rparr>)"

definition hash_destroy :: "bool \<Rightarrow> hash \<Rightarrow> addr list" where
  "hash_destroy destructor h = (if destructor then fst (hash_clear destructor h) else [])"

definition hash_insert :: "hash_hash_func \<Rightarrow> hash_less_func \<Rightarrow> bool \<Rightarrow> hash \<Rightarrow> addr \<Rightarrow> (addr \<times> hash) option" where
  "hash_insert hsh lt mem h new = do {
     bucket \<leftarrow> find_bucket hsh h new;
     let old = find_elem lt h bucket new;
     let h = (if old = NULL then insert_elem h bucket new else h);
     h \<leftarrow> rehash hsh mem h;
     Some (old, h) }"

definition hash_replace :: "hash_hash_func \<Rightarrow> hash_less_func \<Rightarrow> bool \<Rightarrow> hash \<Rightarrow> addr \<Rightarrow> (addr \<times> hash) option" where
  "hash_replace hsh lt mem h new = do {
     bucket \<leftarrow> find_bucket hsh h new;
     let old = find_elem lt h bucket new;
     let h = (if old \<noteq> NULL then remove_elem h old else h);
     h \<leftarrow> rehash hsh mem (insert_elem h bucket new);
     Some (old, h) }"

definition hash_find :: "hash_hash_func \<Rightarrow> hash_less_func \<Rightarrow> hash \<Rightarrow> addr \<Rightarrow> addr option" where
  "hash_find hsh lt h e = do {
     bucket \<leftarrow> find_bucket hsh h e;
     Some (find_elem lt h bucket e) }"

definition hash_delete :: "hash_hash_func \<Rightarrow> hash_less_func \<Rightarrow> bool \<Rightarrow> hash \<Rightarrow> addr \<Rightarrow> (addr \<times> hash) option" where
  "hash_delete hsh lt mem h e = do {
     bucket \<leftarrow> find_bucket hsh h e;
     let found = find_elem lt h bucket e;
     if found \<noteq> NULL then do {
       h \<leftarrow> rehash hsh mem (remove_elem h found);
       Some (found, h) }
     else Some (found, h) }"

definition hash_size :: "hash \<Rightarrow> u32" where
  "hash_size h = elem_cnt h"

definition hash_empty :: "hash \<Rightarrow> bool" where
  "hash_empty h \<longleftrightarrow> elem_cnt h = 0"

text \<open>\<open>action\<close> is applied to every element, threading a state.\<close>

definition hash_apply :: "(addr \<Rightarrow> 's \<Rightarrow> 's) \<Rightarrow> hash \<Rightarrow> 's \<Rightarrow> 's" where
  "hash_apply action h s = fold (\<lambda>bucket s. fold action bucket s) (buckets h) s"

text \<open>
  An iterator is a bucket number and a position in the bucket: the elements of the bucket
  that are still ahead, the current one first; \<open>None\<close> is the null \<open>elem\<close> at the end.
\<close>

record hash_iterator =
  i_bucket :: nat
  i_elem :: "addr option"
  i_ahead :: "addr list"

definition hash_first :: "hash \<Rightarrow> hash_iterator option" where
  "hash_first h = (if buckets h = [] then None else Some \<lparr>i_bucket = 0, i_elem = None, i_ahead = buckets h ! 0\<rparr>)"

fun next_bucket :: "hash \<Rightarrow> nat \<Rightarrow> addr list list \<Rightarrow> hash_iterator" where
  "next_bucket h b [] = \<lparr>i_bucket = b, i_elem = None, i_ahead = []\<rparr>"
| "next_bucket h b (bucket # bs) =
     (case bucket of [] \<Rightarrow> next_bucket h (b + 1) bs | e # es \<Rightarrow> \<lparr>i_bucket = b, i_elem = Some e, i_ahead = es\<rparr>)"

definition hash_next :: "hash \<Rightarrow> hash_iterator \<Rightarrow> hash_iterator" where
  "hash_next h i =
     (case i_ahead i of
        e # es \<Rightarrow> i\<lparr>i_elem := Some e, i_ahead := es\<rparr>
      | [] \<Rightarrow> next_bucket h (i_bucket i + 1) (drop (i_bucket i + 1) (buckets h)))"

definition hash_cur :: "hash_iterator \<Rightarrow> addr option" where
  "hash_cur i = i_elem i"

fun hash_iterate :: "nat \<Rightarrow> hash \<Rightarrow> hash_iterator \<Rightarrow> addr list" where
  "hash_iterate 0 h i = []"
| "hash_iterate (Suc n) h i =
     (let i = hash_next h i in case hash_cur i of None \<Rightarrow> [] | Some e \<Rightarrow> e # hash_iterate n h i)"

section \<open>Sample hash functions\<close>

abbreviation (input) FNV_32_PRIME :: u32 where "FNV_32_PRIME \<equiv> 16777619"
abbreviation (input) FNV_32_BASIS :: u32 where "FNV_32_BASIS \<equiv> 2166136261"

definition hash_bytes :: "u8 list \<Rightarrow> u32" where
  "hash_bytes buf = foldl (\<lambda>h c. (h * FNV_32_PRIME) XOR ucast c) FNV_32_BASIS buf"

definition hash_string :: "u8 list \<Rightarrow> u32" where
  "hash_string s = foldl (\<lambda>h c. (h * FNV_32_PRIME) XOR ucast c) FNV_32_BASIS s"

definition hash_int :: "u32 \<Rightarrow> u32" where
  "hash_int i = hash_bytes (map (\<lambda>k. ucast (drop_bit (8 * k) i)) [0..<4])"

section \<open>The invariant\<close>

definition hidx :: "hash_hash_func \<Rightarrow> u32 \<Rightarrow> addr \<Rightarrow> nat" where
  "hidx hsh n e = unat (hsh e AND (n - 1))"

definition eqv :: "hash_less_func \<Rightarrow> addr \<Rightarrow> addr \<Rightarrow> bool" where
  "eqv lt a b \<longleftrightarrow> \<not> lt a b \<and> \<not> lt b a"

text \<open>What the documentation asks of the two functions: equal elements have equal hash values.\<close>

definition hash_funcs :: "hash_hash_func \<Rightarrow> hash_less_func \<Rightarrow> bool" where
  "hash_funcs hsh lt \<longleftrightarrow>
     (\<forall>a. eqv lt a a) \<and> (\<forall>a b c. eqv lt a b \<longrightarrow> eqv lt b c \<longrightarrow> eqv lt a c) \<and> (\<forall>a b. eqv lt a b \<longrightarrow> hsh a = hsh b)"

definition elems :: "hash \<Rightarrow> addr list" where
  "elems h = concat (buckets h)"

definition placed :: "hash_hash_func \<Rightarrow> hash \<Rightarrow> bool" where
  "placed hsh h \<longleftrightarrow>
     bucket_cnt h \<noteq> 0 \<and> length (buckets h) = unat (bucket_cnt h) \<and>
     (\<forall>i<length (buckets h). \<forall>e\<in>set (buckets h ! i). hidx hsh (bucket_cnt h) e = i)"

definition hash_ok :: "hash_hash_func \<Rightarrow> hash_less_func \<Rightarrow> hash \<Rightarrow> bool" where
  "hash_ok hsh lt h \<longleftrightarrow>
     placed hsh h \<and> distinct (elems h) \<and> NULL \<notin> set (elems h) \<and> elem_cnt h = of_nat (length (elems h)) \<and>
     (\<forall>a\<in>set (elems h). \<forall>b\<in>set (elems h). eqv lt a b \<longrightarrow> a = b)"

lemma eqv_sym: "eqv lt a b \<longleftrightarrow> eqv lt b a"
  by (auto simp: eqv_def)

lemma hidx_less:
  assumes "n \<noteq> 0"
  shows "hidx hsh n e < unat n"
proof -
  have "hsh e AND (n - 1) \<le> n - 1" by (rule word_and_le1)
  then have "unat (hsh e AND (n - 1)) \<le> unat (n - 1)" by (simp add: word_le_nat_alt)
  moreover have "unat (n - 1) = unat n - 1" "0 < unat n"
    using assms by (simp_all add: unat_minus_one unat_gt_0)
  ultimately show ?thesis unfolding hidx_def by linarith
qed

lemma find_bucket_placed: "placed hsh h \<Longrightarrow> find_bucket hsh h e = Some (hidx hsh (bucket_cnt h) e)"
  using hidx_less [of "bucket_cnt h" hsh e] by (simp add: placed_def find_bucket_def Let_def hidx_def)

lemma hidx_in_range: "placed hsh h \<Longrightarrow> hidx hsh (bucket_cnt h) e < length (buckets h)"
  using hidx_less [of "bucket_cnt h" hsh e] by (simp add: placed_def)

lemma in_bucket:
  assumes "placed hsh h" "e \<in> set (elems h)"
  shows "e \<in> set (buckets h ! hidx hsh (bucket_cnt h) e)"
  using assms by (auto simp: elems_def placed_def in_set_conv_nth [of _ "buckets h"])

lemma bucket_elems: "i < length (buckets h) \<Longrightarrow> e \<in> set (buckets h ! i) \<Longrightarrow> e \<in> set (elems h)"
  by (auto simp: elems_def)

lemma find_elem_spec:
  assumes "hash_ok hsh lt h" "hash_funcs hsh lt"
    and x_def: "x = find_elem lt h (hidx hsh (bucket_cnt h) e) e"
  shows "(x \<noteq> NULL \<longrightarrow> x \<in> set (elems h) \<and> eqv lt x e) \<and> (x = NULL \<longrightarrow> \<not> (\<exists>y\<in>set (elems h). eqv lt y e))"
proof -
  have p: "placed hsh h" and nn: "NULL \<notin> set (elems h)" using assms(1) by (auto simp: hash_ok_def)
  let ?b = "buckets h ! hidx hsh (bucket_cnt h) e"
  have sub: "y \<in> set (elems h)" if "y \<in> set ?b" for y using bucket_elems [OF hidx_in_range [OF p] that] .
  have inb: "y \<in> set ?b" if "y \<in> set (elems h)" "eqv lt y e" for y
  proof -
    have "hsh y = hsh e" using assms(2) that(2) by (simp add: hash_funcs_def)
    then show ?thesis using in_bucket [OF p that(1)] by (simp add: hidx_def)
  qed
  show ?thesis
  proof (cases "find (\<lambda>hi. \<not> lt hi e \<and> \<not> lt e hi) ?b")
    case None
    then have "\<forall>y\<in>set ?b. \<not> eqv lt y e" by (auto simp: find_None_iff eqv_def)
    then have "\<not> (\<exists>y\<in>set (elems h). eqv lt y e)" using inb by blast
    moreover have "x = NULL" using None by (simp add: x_def find_elem_def)
    ultimately show ?thesis by simp
  next
    case (Some y)
    then have "y \<in> set ?b" "eqv lt y e" by (auto simp: find_Some_iff eqv_def)
    moreover have "x = y" using Some by (simp add: x_def find_elem_def)
    ultimately show ?thesis using sub nn by auto
  qed
qed

section \<open>Rehashing\<close>

lemma mset_buckets_insert:
  "i < length bs \<Longrightarrow> mset (concat (bs[i := e # bs ! i])) = add_mset e (mset (concat bs))"
  by (induction bs arbitrary: i) (auto split: nat.splits simp: add.assoc)

lemma mset_buckets_remove:
  assumes "distinct (concat bs)" "e \<in> set (concat bs)"
  shows "mset (concat (map (remove1 e) bs)) = mset (concat bs) - {#e#}"
  using assms
proof (induction bs)
  case (Cons b bs)
  show ?case
  proof (cases "e \<in> set b")
    case True
    then have "e \<notin> set (concat bs)" using Cons.prems by auto
    then have "map (remove1 e) bs = bs" by (intro map_idI) (auto intro: remove1_idem)
    then show ?thesis using True by simp
  next
    case False
    then have "e \<in> set (concat bs)" "distinct (concat bs)" using Cons.prems by auto
    then have IH: "mset (concat (map (remove1 e) bs)) = mset (concat bs) - {#e#}" and sub: "{#e#} \<subseteq># mset (concat bs)"
      using Cons.IH by auto
    then show ?thesis using False multiset_diff_union_assoc [OF sub, of "mset b"] by (simp add: remove1_idem del: mset_concat)
  qed
qed simp

lemma placed_insert:
  assumes "placed hsh h"
  shows "placed hsh (h\<lparr>buckets := (buckets h)[hidx hsh (bucket_cnt h) e := e # buckets h ! hidx hsh (bucket_cnt h) e]\<rparr>)"
  using assms hidx_in_range [OF assms, of e] by (auto simp: placed_def nth_list_update)

lemma move_elems_spec:
  assumes "placed hsh h"
  shows "\<exists>h'. move_elems hsh es h = Some h' \<and> placed hsh h' \<and> elem_cnt h' = elem_cnt h \<and>
    mset (elems h') = mset es + mset (elems h)"
  using assms
proof (induction es arbitrary: h)
  case (Cons e es)
  let ?i = "hidx hsh (bucket_cnt h) e"
  let ?h = "h\<lparr>buckets := (buckets h)[?i := e # buckets h ! ?i]\<rparr>"
  have "mset (elems ?h) = add_mset e (mset (elems h))"
    using mset_buckets_insert [OF hidx_in_range [OF Cons.prems], of e] by (simp add: elems_def)
  then show ?case
    using Cons.IH [OF placed_insert [OF Cons.prems, of e]] find_bucket_placed [OF Cons.prems, of e] by auto
qed simp

lemma turn_off_less:
  assumes "x \<noteq> 0"
  shows "turn_off_least_1bit x < x"
proof -
  have "turn_off_least_1bit x \<le> x - 1" unfolding turn_off_least_1bit_def by (rule word_and_le1)
  also have "x - 1 < x" using assms by (simp add: word_less_nat_alt unat_minus_one unat_gt_0)
  finally show ?thesis .
qed

lemma round_to_power_of_2_spec:
  assumes "x \<noteq> 0"
  shows "\<exists>n. round_to_power_of_2 x = Some n \<and> is_power_of_2 n \<and> n \<le> x"
  using assms
proof (induction x rule: measure_induct_rule [where f = unat])
  case (less x)
  show ?case
  proof (cases "is_power_of_2 x")
    case True
    then show ?thesis by (subst round_to_power_of_2.simps) simp
  next
    case False
    then have "turn_off_least_1bit x \<noteq> 0" using less.prems by (simp add: is_power_of_2_def)
    then show ?thesis using less.IH [of "turn_off_least_1bit x"] turn_off_less [OF less.prems] False
      by (subst round_to_power_of_2.simps) (auto simp: word_less_nat_alt word_le_nat_alt)
  qed
qed

lemma rehash_spec:
  assumes "placed hsh h"
  shows "\<exists>h'. rehash hsh mem h = Some h' \<and> placed hsh h' \<and> elem_cnt h' = elem_cnt h \<and> mset (elems h') = mset (elems h)"
proof -
  have "(if elem_cnt h div 2 < 4 then 4 else elem_cnt h div 2) \<noteq> 0" by auto
  from round_to_power_of_2_spec [OF this] obtain n where n: "ideal_bucket_cnt h = Some n" "is_power_of_2 n"
    by (auto simp: ideal_bucket_cnt_def Let_def)
  let ?h = "h\<lparr>bucket_cnt := n, buckets := replicate (unat n) []\<rparr>"
  have "placed hsh ?h" using n(2) by (simp add: placed_def is_power_of_2_def)
  moreover have "elems ?h = []" by (simp add: elems_def)
  ultimately show ?thesis using n assms move_elems_spec [of hsh ?h "concat (buckets h)"]
    by (auto simp: rehash_def elems_def)
qed

section \<open>The operations\<close>

lemma placed_elem_cnt: "placed hsh (h\<lparr>elem_cnt := n\<rparr>) = placed hsh h"
  by (simp add: placed_def)

lemma hash_ok_mset:
  assumes "hash_ok hsh lt h" "placed hsh h'" "elem_cnt h' = elem_cnt h" "mset (elems h') = mset (elems h)"
  shows "hash_ok hsh lt h'" "set (elems h') = set (elems h)"
proof -
  show s: "set (elems h') = set (elems h)" using assms(4) by (rule mset_eq_setD)
  have "length (elems h') = length (elems h)" "distinct (elems h') = distinct (elems h)"
    using assms(4) by (rule mset_eq_length, rule mset_eq_imp_distinct_iff)
  then show "hash_ok hsh lt h'" using assms(1-3) s by (simp add: hash_ok_def)
qed

lemma rehash_ok:
  assumes "hash_ok hsh lt h"
  shows "\<exists>h'. rehash hsh mem h = Some h' \<and> hash_ok hsh lt h' \<and> set (elems h') = set (elems h)"
  using rehash_spec [of hsh h mem] hash_ok_mset [OF assms] assms unfolding hash_ok_def by blast

lemma insert_elem_ok:
  assumes "hash_ok hsh lt h" "hash_funcs hsh lt" "e \<noteq> NULL" "\<forall>y\<in>set (elems h). \<not> eqv lt y e"
  shows "hash_ok hsh lt (insert_elem h (hidx hsh (bucket_cnt h) e) e)"
    "set (elems (insert_elem h (hidx hsh (bucket_cnt h) e) e)) = insert e (set (elems h))"
proof -
  let ?i = "hidx hsh (bucket_cnt h) e" and ?h = "insert_elem h (hidx hsh (bucket_cnt h) e) e"
  have p: "placed hsh h" using assms(1) by (simp add: hash_ok_def)
  have "?h = (h\<lparr>buckets := (buckets h)[?i := e # buckets h ! ?i]\<rparr>)\<lparr>elem_cnt := elem_cnt h + 1\<rparr>"
    by (simp add: insert_elem_def)
  then have pl: "placed hsh ?h" using placed_insert [OF p, of e] by (simp only: placed_elem_cnt)
  have m: "mset (elems ?h) = mset (e # elems h)"
    using mset_buckets_insert [OF hidx_in_range [OF p], of e] by (simp add: elems_def insert_elem_def)
  then show s: "set (elems ?h) = insert e (set (elems h))" using mset_eq_setD [OF m] by simp
  have old: "distinct (elems h)" "NULL \<notin> set (elems h)" "elem_cnt h = of_nat (length (elems h))"
    "\<forall>a\<in>set (elems h). \<forall>b\<in>set (elems h). eqv lt a b \<longrightarrow> a = b"
    using assms(1) by (simp_all add: hash_ok_def)
  have "e \<notin> set (elems h)" using assms(2,4) by (auto simp: hash_funcs_def)
  then have 1: "distinct (elems ?h)" using old(1) mset_eq_imp_distinct_iff [OF m] by simp
  have "length (elems ?h) = Suc (length (elems h))" using mset_eq_length [OF m] by simp
  then have 2: "elem_cnt ?h = of_nat (length (elems ?h))" using old(3) by (simp add: insert_elem_def)
  have 3: "\<forall>a\<in>set (elems ?h). \<forall>b\<in>set (elems ?h). eqv lt a b \<longrightarrow> a = b"
    unfolding s using old(4) assms(4) eqv_sym [of lt e] by blast
  have 4: "NULL \<notin> set (elems ?h)" unfolding s using old(2) assms(3) by blast
  show "hash_ok hsh lt ?h" unfolding hash_ok_def using pl 1 2 3 4 by blast
qed

lemma remove_elem_ok:
  assumes "hash_ok hsh lt h" "e \<in> set (elems h)"
  shows "hash_ok hsh lt (remove_elem h e)" "set (elems (remove_elem h e)) = set (elems h) - {e}"
proof -
  let ?h = "remove_elem h e"
  have d: "distinct (elems h)" using assms(1) by (simp add: hash_ok_def)
  have "mset (elems ?h) = mset (elems h) - {#e#}"
    using mset_buckets_remove [of "buckets h" e] d assms(2) by (simp add: elems_def remove_elem_def)
  then have m: "mset (elems ?h) = mset (remove1 e (elems h))" by simp
  then show s: "set (elems ?h) = set (elems h) - {e}" using mset_eq_setD [OF m] d by simp
  have "distinct (elems ?h)" using mset_eq_imp_distinct_iff [OF m] d by simp
  moreover have "length (elems ?h) + 1 = length (elems h)"
    using mset_eq_length [OF m] assms(2) length_pos_if_in_set [OF assms(2)] by (simp add: length_remove1)
  then have "of_nat (length (elems ?h)) + 1 = (of_nat (length (elems h)) :: u32)" by (metis of_nat_1 of_nat_add)
  then have "elem_cnt ?h = of_nat (length (elems ?h))"
    using assms(1) by (simp add: remove_elem_def hash_ok_def eq_diff_eq [symmetric])
  moreover have "placed hsh ?h"
    using assms(1) subsetD [OF set_remove1_subset] by (fastforce simp: hash_ok_def placed_def remove_elem_def)
  ultimately show "hash_ok hsh lt ?h" using assms(1) s by (auto simp: hash_ok_def)
qed

section \<open>Dictionaries\<close>

text \<open>The contract of a table of elements with at most one of each class of equal ones.\<close>

locale dictionary =
  fixes ok :: "'t \<Rightarrow> bool" and members :: "'t \<Rightarrow> addr set" and same :: "addr \<Rightarrow> addr \<Rightarrow> bool"
    and lookup :: "'t \<Rightarrow> addr \<Rightarrow> addr option" and ins :: "'t \<Rightarrow> addr \<Rightarrow> (addr \<times> 't) option"
    and del :: "'t \<Rightarrow> addr \<Rightarrow> (addr \<times> 't) option"
  assumes same_refl: "ok t \<Longrightarrow> same e e"
    and same_sym: "ok t \<Longrightarrow> same a b \<Longrightarrow> same b a"
    and same_trans: "ok t \<Longrightarrow> same a b \<Longrightarrow> same b c \<Longrightarrow> same a c"
    and members_nonnull: "ok t \<Longrightarrow> NULL \<notin> members t"
    and members_unique: "ok t \<Longrightarrow> a \<in> members t \<Longrightarrow> b \<in> members t \<Longrightarrow> same a b \<Longrightarrow> a = b"
    and lookup_spec: "ok t \<Longrightarrow> \<exists>x. lookup t e = Some x \<and> (x \<noteq> NULL \<longrightarrow> x \<in> members t \<and> same x e) \<and>
      (x = NULL \<longrightarrow> \<not> (\<exists>y\<in>members t. same y e))"
    and ins_spec: "ok t \<Longrightarrow> e \<noteq> NULL \<Longrightarrow> lookup t e = Some x \<Longrightarrow>
      \<exists>t'. ins t e = Some (x, t') \<and> ok t' \<and> members t' = (if x = NULL then insert e (members t) else members t)"
    and del_spec: "ok t \<Longrightarrow> lookup t e = Some x \<Longrightarrow> \<exists>t'. del t e = Some (x, t') \<and> ok t' \<and> members t' = members t - {x}"
begin

lemma lookup_member:
  assumes "ok t" "y \<in> members t" "same y e"
  shows "lookup t e = Some y"
proof -
  obtain x where x: "lookup t e = Some x" "x \<noteq> NULL \<longrightarrow> x \<in> members t \<and> same x e"
    "x = NULL \<longrightarrow> \<not> (\<exists>y\<in>members t. same y e)" using lookup_spec [OF assms(1)] by blast
  then have "x \<in> members t" "same x e" using assms by auto
  then have "x = y" using members_unique [OF assms(1)] assms same_sym same_trans by metis
  then show ?thesis using x by simp
qed

lemma lookup_absent:
  assumes "ok t" "\<not> (\<exists>y\<in>members t. same y e)"
  shows "lookup t e = Some NULL"
  using lookup_spec [OF assms(1), of e] assms(2) by auto

lemma lookup_ins:
  assumes "ok t" "e \<noteq> NULL" "ins t e = Some (x, t')" "same d e"
  shows "lookup t' d = Some (if x = NULL then e else x)"
proof -
  obtain y where y: "lookup t e = Some y" "y \<noteq> NULL \<longrightarrow> y \<in> members t \<and> same y e" using lookup_spec [OF assms(1)] by blast
  then have t': "ok t'" "x = y" "members t' = (if x = NULL then insert e (members t) else members t)"
    using ins_spec [OF assms(1,2) y(1)] assms(3) by auto
  have sy: "same e d" using same_sym [OF assms(1) assms(4)] .
  show ?thesis
  proof (cases "x = NULL")
    case True
    then show ?thesis using t' lookup_member [OF t'(1) _ sy] by simp
  next
    case False
    then have "same x d" using y t'(2) same_trans [OF assms(1) _ sy] by auto
    then show ?thesis using False y t' lookup_member [OF t'(1), of x d] by auto
  qed
qed

lemma lookup_del:
  assumes "ok t" "del t e = Some (x, t')" "same d e"
  shows "lookup t' d = Some NULL"
proof -
  obtain y where y: "lookup t e = Some y" "y \<noteq> NULL \<longrightarrow> y \<in> members t \<and> same y e"
    "y = NULL \<longrightarrow> \<not> (\<exists>y\<in>members t. same y e)" using lookup_spec [OF assms(1)] by blast
  have t': "ok t'" "members t' = members t - {y}" using del_spec [OF assms(1) y(1)] assms(2) by auto
  have "z = y" if "z \<in> members t" "same z d" for z
  proof -
    have "same z e" using same_trans [OF assms(1) that(2) assms(3)] .
    then show ?thesis using y that members_unique [OF assms(1)] same_sym [OF assms(1)] same_trans [OF assms(1)] by metis
  qed
  then show ?thesis using t' by (intro lookup_absent) auto
qed

lemma lookup_unchanged:
  assumes "ok t" "ok t'" "\<And>y. same y d \<Longrightarrow> y \<in> members t' \<longleftrightarrow> y \<in> members t"
  shows "lookup t' d = lookup t d"
proof -
  obtain z where z: "lookup t d = Some z" "z \<noteq> NULL \<longrightarrow> z \<in> members t \<and> same z d"
    "z = NULL \<longrightarrow> \<not> (\<exists>y\<in>members t. same y d)" using lookup_spec [OF assms(1)] by blast
  show ?thesis
  proof (cases "z = NULL")
    case True
    then have "lookup t' d = Some NULL" using z assms by (intro lookup_absent) auto
    then show ?thesis using z True by simp
  next
    case False
    then have "lookup t' d = Some z" using z assms by (intro lookup_member) auto
    then show ?thesis using z by simp
  qed
qed

lemma ins_other:
  assumes "ok t" "e \<noteq> NULL" "ins t e = Some (x, t')" "\<not> same d e"
  shows "lookup t' d = lookup t d"
proof -
  obtain y where y: "lookup t e = Some y" using lookup_spec [OF assms(1)] by blast
  then have t': "ok t'" "members t' = members t \<or> members t' = insert e (members t)"
    using ins_spec [OF assms(1,2) y] assms(3) by (auto split: if_splits)
  have "\<not> same e d" using same_sym [OF assms(1)] assms(4) by blast
  then show ?thesis using t' by (intro lookup_unchanged [OF assms(1)]) auto
qed

lemma del_other:
  assumes "ok t" "del t e = Some (x, t')" "\<not> same d e"
  shows "lookup t' d = lookup t d"
proof -
  obtain y where y: "lookup t e = Some y" "y \<noteq> NULL \<longrightarrow> y \<in> members t \<and> same y e"
    using lookup_spec [OF assms(1)] by blast
  have t': "ok t'" "members t' = members t - {y}" using del_spec [OF assms(1) y(1)] assms(2) by auto
  have "z \<noteq> y" if z: "z \<in> members t" "same z d" for z
  proof
    assume zy: "z = y"
    then have "y \<noteq> NULL" using z(1) members_nonnull [OF assms(1)] by auto
    then have "same d z" "same z e" using zy y(2) z same_sym [OF assms(1)] by auto
    then show False using same_trans [OF assms(1)] assms(3) by blast
  qed
  then show ?thesis using t' by (intro lookup_unchanged [OF assms(1)]) auto
qed

end

interpretation ht: dictionary "\<lambda>h. hash_funcs hsh lt \<and> hash_ok hsh lt h" "\<lambda>h. set (elems h)" "eqv lt"
  "hash_find hsh lt" "hash_insert hsh lt mem" "hash_delete hsh lt mem" for hsh lt mem
proof (unfold_locales, goal_cases)
  case (1 t e)
  then show ?case by (simp add: hash_funcs_def)
next
  case (2 t a b)
  then show ?case by (simp add: eqv_sym)
next
  case (3 t a b c)
  then show ?case unfolding hash_funcs_def by blast
next
  case (4 t)
  then show ?case by (simp add: hash_ok_def)
next
  case (5 t a b)
  then show ?case by (simp add: hash_ok_def)
next
  case (6 t e)
  then have "placed hsh t" by (simp add: hash_ok_def)
  then show ?case using find_elem_spec [of hsh lt t _ e] 6 by (simp add: hash_find_def find_bucket_placed)
next
  case (7 t e x)
  let ?i = "hidx hsh (bucket_cnt t) e"
  have p: "placed hsh t" and ok: "hash_ok hsh lt t" and fu: "hash_funcs hsh lt" using 7 by (simp_all add: hash_ok_def)
  have x: "x = find_elem lt t ?i e" using 7(3) p by (simp add: hash_find_def find_bucket_placed)
  show ?case
  proof (cases "x = NULL")
    case True
    then have "\<forall>y\<in>set (elems t). \<not> eqv lt y e" using find_elem_spec [OF ok fu x] by blast
    note ie = insert_elem_ok [OF ok fu 7(2) this]
    show ?thesis using rehash_ok [OF ie(1), of mem] ie(2) True p x
      by (auto simp: hash_insert_def find_bucket_placed Let_def fu)
  next
    case False
    then show ?thesis using rehash_ok [OF ok, of mem] p x by (auto simp: hash_insert_def find_bucket_placed Let_def fu)
  qed
next
  case (8 t e x)
  let ?i = "hidx hsh (bucket_cnt t) e"
  have p: "placed hsh t" and ok: "hash_ok hsh lt t" and fu: "hash_funcs hsh lt" using 8 by (simp_all add: hash_ok_def)
  have x: "x = find_elem lt t ?i e" using 8(2) p by (simp add: hash_find_def find_bucket_placed)
  show ?case
  proof (cases "x = NULL")
    case True
    then show ?thesis using p x ok fu by (auto simp: hash_delete_def find_bucket_placed Let_def hash_ok_def)
  next
    case False
    then have "x \<in> set (elems t)" using find_elem_spec [OF ok fu x] by blast
    note re = remove_elem_ok [OF ok this]
    show ?thesis using rehash_ok [OF re(1), of mem] re(2) False p x
      by (auto simp: hash_delete_def find_bucket_placed Let_def fu)
  qed
qed

section \<open>Iteration\<close>

definition ahead :: "hash \<Rightarrow> hash_iterator \<Rightarrow> addr list" where
  "ahead h i = i_ahead i @ concat (drop (i_bucket i + 1) (buckets h))"

lemma next_bucket_spec:
  "case concat bs of
     [] \<Rightarrow> i_elem (next_bucket h b bs) = None
   | e # es \<Rightarrow> i_elem (next_bucket h b bs) = Some e \<and>
       i_ahead (next_bucket h b bs) @ concat (drop (i_bucket (next_bucket h b bs) + 1 - b) bs) = es \<and>
       b \<le> i_bucket (next_bucket h b bs)"
proof (induction bs arbitrary: b)
  case (Cons bucket bs)
  show ?case
  proof (cases bucket)
    case Nil
    have "concat (drop (Suc n - b) (bucket # bs)) = concat (drop (Suc n - Suc b) bs)" if "Suc b \<le> n" for n
      using that Nil by (simp add: Suc_diff_le)
    then show ?thesis using Cons.IH [of "b + 1"] Nil
      by (cases "concat bs") (auto simp del: concat_eq_Nil_conv)
  qed simp
qed simp

lemma hash_next_spec:
  "case ahead h i of
     [] \<Rightarrow> hash_cur (hash_next h i) = None
   | e # es \<Rightarrow> hash_cur (hash_next h i) = Some e \<and> ahead h (hash_next h i) = es"
proof (cases "i_ahead i")
  case Nil
  let ?b = "i_bucket i + 1"
  have "drop (n + 1) (buckets h) = drop (n + 1 - ?b) (drop ?b (buckets h))" if "?b \<le> n" for n
    using that by simp
  then show ?thesis using next_bucket_spec [where bs = "drop ?b (buckets h)" and h = h and b = ?b] Nil
    by (cases "concat (drop ?b (buckets h))")
      (auto simp: ahead_def hash_next_def hash_cur_def simp del: concat_eq_Nil_conv)
qed (simp add: ahead_def hash_next_def hash_cur_def)

lemma hash_iterate_ahead: "length (ahead h i) < n \<Longrightarrow> hash_iterate n h i = ahead h i"
proof (induction n arbitrary: i)
  case (Suc n)
  then show ?case using hash_next_spec [of h i] by (cases "ahead h i") (auto simp: Let_def)
qed simp

text \<open>
  C24: The hash table is a dictionary: after an insertion, looking up an equal element finds what
  was there before or else the new element, and other elements are found as before; after a
  deletion no equal element is found, and every other element is found as before. Both calls
  return what a lookup of the argument gave before. This holds whether or not \<open>malloc\<close> finds memory for the
  new buckets, and the calls always return.
\<close>

theorem hash_table_dictionary:
  assumes "hash_funcs hsh lt" "hash_ok hsh lt h" "e \<noteq> NULL"
  shows "(\<exists>old h'. hash_insert hsh lt mem h e = Some (old, h') \<and> hash_ok hsh lt h' \<and> hash_find hsh lt h e = Some old \<and>
      (\<forall>d. hash_find hsh lt h' d = (if eqv lt d e then Some (if old = NULL then e else old) else hash_find hsh lt h d))) \<and>
    (\<exists>old h'. hash_delete hsh lt mem h e = Some (old, h') \<and> hash_ok hsh lt h' \<and> hash_find hsh lt h e = Some old \<and>
      (\<forall>d. hash_find hsh lt h' d = (if eqv lt d e then Some NULL else hash_find hsh lt h d)))"
proof -
  have ok: "hash_funcs hsh lt \<and> hash_ok hsh lt h" using assms by simp
  obtain x where x: "hash_find hsh lt h e = Some x" using ht.lookup_spec [OF ok] by blast
  obtain h1 where h1: "hash_insert hsh lt mem h e = Some (x, h1)" "hash_ok hsh lt h1"
    using ht.ins_spec [OF ok assms(3) x] by blast
  obtain h2 where h2: "hash_delete hsh lt mem h e = Some (x, h2)" "hash_ok hsh lt h2"
    using ht.del_spec [OF ok x] by blast
  show ?thesis using x h1 h2 ht.lookup_ins [OF ok assms(3) h1(1)] ht.ins_other [OF ok assms(3) h1(1)] ht.lookup_del [OF ok h2(1)]
      ht.del_other [OF ok h2(1)]
    by auto
qed

text \<open>
  In the witness, elements are equal when they are the same address, hashed to itself, and the
  table holds the elements 4 and 6: deleting 6 leaves 4, inserting 40 keeps both.
\<close>

definition small_table :: hash where
  "small_table = \<lparr>elem_cnt = 2, bucket_cnt = 4, buckets = [[4], [], [6], []]\<rparr>"

lemma small_table_ok: "hash_ok (\<lambda>e. e) (<) small_table"
  by (auto simp: hash_ok_def placed_def small_table_def elems_def less_Suc_eq nth_Cons' eqv_def hidx_def)

theorem hash_table_dictionary_witness:
  "(\<exists>h'. hash_delete (\<lambda>e. e) (<) True small_table 6 = Some (6, h') \<and>
      hash_find (\<lambda>e. e) (<) h' 6 = Some NULL \<and> hash_find (\<lambda>e. e) (<) h' 4 = Some 4) \<and>
   (\<exists>h'. hash_insert (\<lambda>e. e) (<) True small_table 40 = Some (NULL, h') \<and>
      hash_find (\<lambda>e. e) (<) h' 40 = Some 40 \<and> hash_find (\<lambda>e. e) (<) h' 4 = Some 4 \<and> hash_find (\<lambda>e. e) (<) h' 6 = Some 6)"
proof -
  have "hash_funcs (\<lambda>e. e) (<)" by (auto simp: hash_funcs_def eqv_def)
  note dict = hash_table_dictionary [OF this small_table_ok, where mem = True]
  have finds: "hash_find (\<lambda>e. e) (<) small_table 6 = Some 6" "hash_find (\<lambda>e. e) (<) small_table 4 = Some 4"
    "hash_find (\<lambda>e. e) (<) small_table 40 = Some NULL"
    by (simp_all add: hash_find_def find_bucket_def find_elem_def small_table_def Let_def)
  show ?thesis using dict [of 6] dict [of 40] finds by (auto simp: eqv_def)
qed

text \<open>
  The iteration idiom, \<open>hash_first\<close> and then \<open>hash_next\<close> until it returns the null pointer,
  visits every element of the table exactly once, in the order in which \<open>hash_apply\<close> and the
  destructor calls of \<open>hash_clear\<close> do.
\<close>

lemma hash_iteration_complete:
  assumes "hash_ok hsh lt h" "hash_first h = Some i" "length (elems h) < n"
  shows "hash_iterate n h i = elems h \<and> distinct (elems h) \<and> hash_apply action h s = fold action (elems h) s \<and>
    fst (hash_clear True h) = elems h"
proof -
  have "ahead h i = elems h"
    using assms(2) by (cases "buckets h") (auto simp: hash_first_def ahead_def elems_def split: if_splits)
  moreover have "fold (\<lambda>bucket s. fold action bucket s) bs s = fold action (concat bs) s" for bs
    by (induction bs arbitrary: s) simp_all
  ultimately show ?thesis using assms hash_iterate_ahead [of h i n]
    by (simp add: hash_ok_def hash_apply_def elems_def hash_clear_def)
qed

lemma hash_iteration_complete_example:
  "hash_iterate 3 small_table \<lparr>i_bucket = 0, i_elem = None, i_ahead = [4]\<rparr> = [4, 6]"
proof -
  have "hash_first small_table = Some \<lparr>i_bucket = 0, i_elem = None, i_ahead = [4]\<rparr>"
    "elems small_table = [4, 6]"
    by (simp_all add: hash_first_def small_table_def elems_def)
  then show ?thesis using hash_iteration_complete [of "\<lambda>e. e" "(<)" small_table "\<lparr>i_bucket = 0, i_elem = None, i_ahead = [4]\<rparr>" 3 "\<lambda>_ s. s" "()"]
      small_table_ok by simp
qed

end
