(* ===== verification/Kstring.thy ===== *)
theory Kstring
  imports Pintos_Prelude
begin

text \<open>
  Memory blocks and strings (\<open>lib/string.c\<close>) over a flat memory of \<open>2 ^ 32\<close> bytes: pointers are
  32-bit words, \<open>p + 1\<close> the next byte. A loop that looks for a terminator has no bound of its
  own; it is partial, and the lemmas show that it ends on every terminated string.
\<close>

type_synonym memory = "addr \<Rightarrow> u8"

section \<open>Blocks\<close>

fun copy_up :: "memory \<Rightarrow> addr \<Rightarrow> addr \<Rightarrow> nat \<Rightarrow> memory" where
  "copy_up m dst src 0 = m"
| "copy_up m dst src (Suc n) = copy_up (m(dst := m src)) (dst + 1) (src + 1) n"

fun copy_down :: "memory \<Rightarrow> addr \<Rightarrow> addr \<Rightarrow> nat \<Rightarrow> memory" where
  "copy_down m dst src 0 = m"
| "copy_down m dst src (Suc n) = copy_down (m(dst - 1 := m (src - 1))) (dst - 1) (src - 1) n"

definition memcpy :: "memory \<Rightarrow> addr \<Rightarrow> addr \<Rightarrow> u32 \<Rightarrow> (addr \<times> memory) option" where
  "memcpy m dst src sz = do {
     kassert (dst \<noteq> NULL \<or> sz = 0);
     kassert (src \<noteq> NULL \<or> sz = 0);
     Some (dst, copy_up m dst src (unat sz)) }"

text \<open>The return value is \<open>dst\<close> after the loop has moved it.\<close>

definition memmove :: "memory \<Rightarrow> addr \<Rightarrow> addr \<Rightarrow> u32 \<Rightarrow> (addr \<times> memory) option" where
  "memmove m dst src sz = do {
     kassert (dst \<noteq> NULL \<or> sz = 0);
     kassert (src \<noteq> NULL \<or> sz = 0);
     if dst < src then Some (dst + sz, copy_up m dst src (unat sz))
     else Some (dst + sz - sz, copy_down m (dst + sz) (src + sz) (unat sz)) }"

fun memcmp_loop :: "memory \<Rightarrow> addr \<Rightarrow> addr \<Rightarrow> nat \<Rightarrow> int" where
  "memcmp_loop m a b 0 = 0"
| "memcmp_loop m a b (Suc n) =
     (if m a \<noteq> m b then (if m a > m b then 1 else - 1) else memcmp_loop m (a + 1) (b + 1) n)"

definition memcmp :: "memory \<Rightarrow> addr \<Rightarrow> addr \<Rightarrow> u32 \<Rightarrow> int option" where
  "memcmp m a b sz = do {
     kassert (a \<noteq> NULL \<or> sz = 0);
     kassert (b \<noteq> NULL \<or> sz = 0);
     Some (memcmp_loop m a b (unat sz)) }"

fun memchr_loop :: "memory \<Rightarrow> addr \<Rightarrow> u8 \<Rightarrow> nat \<Rightarrow> addr" where
  "memchr_loop m p ch 0 = NULL"
| "memchr_loop m p ch (Suc n) = (if m p = ch then p else memchr_loop m (p + 1) ch n)"

definition memchr :: "memory \<Rightarrow> addr \<Rightarrow> u8 \<Rightarrow> u32 \<Rightarrow> addr option" where
  "memchr m block ch sz = do {
     kassert (block \<noteq> NULL \<or> sz = 0);
     Some (memchr_loop m block ch (unat sz)) }"

fun fill_up :: "memory \<Rightarrow> addr \<Rightarrow> u8 \<Rightarrow> nat \<Rightarrow> memory" where
  "fill_up m dst v 0 = m"
| "fill_up m dst v (Suc n) = fill_up (m(dst := v)) (dst + 1) v n"

definition memset :: "memory \<Rightarrow> addr \<Rightarrow> u8 \<Rightarrow> u32 \<Rightarrow> (addr \<times> memory) option" where
  "memset m dst v sz = do {
     kassert (dst \<noteq> NULL \<or> sz = 0);
     Some (dst, fill_up m dst v (unat sz)) }"

section \<open>Strings\<close>

partial_function (option) strend :: "memory \<Rightarrow> addr \<Rightarrow> addr option" where
  "strend m p = (if m p = 0 then Some p else strend m (p + 1))"

definition strlen :: "memory \<Rightarrow> addr \<Rightarrow> u32 option" where
  "strlen m s = do { kassert (s \<noteq> NULL); p \<leftarrow> strend m s; Some (p - s) }"

partial_function (option) strnlen_loop :: "memory \<Rightarrow> addr \<Rightarrow> u32 \<Rightarrow> u32 \<Rightarrow> u32 option" where
  "strnlen_loop m s maxlen len =
     (if m (s + len) \<noteq> 0 \<and> len < maxlen then strnlen_loop m s maxlen (len + 1) else Some len)"

definition strnlen :: "memory \<Rightarrow> addr \<Rightarrow> u32 \<Rightarrow> u32 option" where
  "strnlen m s maxlen = strnlen_loop m s maxlen 0"

partial_function (option) strcmp_loop :: "memory \<Rightarrow> addr \<Rightarrow> addr \<Rightarrow> int option" where
  "strcmp_loop m a b =
     (if m a \<noteq> 0 \<and> m a = m b then strcmp_loop m (a + 1) (b + 1)
      else Some (if m a < m b then - 1 else if m a > m b then 1 else 0))"

definition strcmp :: "memory \<Rightarrow> addr \<Rightarrow> addr \<Rightarrow> int option" where
  "strcmp m a b = do { kassert (a \<noteq> NULL); kassert (b \<noteq> NULL); strcmp_loop m a b }"

partial_function (option) strchr_loop :: "memory \<Rightarrow> addr \<Rightarrow> u8 \<Rightarrow> addr option" where
  "strchr_loop m s c = (if m s = c then Some s else if m s = 0 then Some NULL else strchr_loop m (s + 1) c)"

definition strchr :: "memory \<Rightarrow> addr \<Rightarrow> u8 \<Rightarrow> addr option" where
  "strchr m s c = do { kassert (s \<noteq> NULL); strchr_loop m s c }"

text \<open>The common loop of \<open>strcspn\<close> and \<open>strspn\<close>: it stops at a character that is (not) in the set.\<close>

partial_function (option) span_loop :: "memory \<Rightarrow> addr \<Rightarrow> addr \<Rightarrow> bool \<Rightarrow> u32 \<Rightarrow> u32 option" where
  "span_loop m s stop inside len =
     (if m (s + len) = 0 then Some len
      else do {
        c \<leftarrow> strchr m stop (m (s + len));
        if (c \<noteq> NULL) = inside then span_loop m s stop inside (len + 1) else Some len })"

definition strcspn :: "memory \<Rightarrow> addr \<Rightarrow> addr \<Rightarrow> u32 option" where
  "strcspn m s stop = span_loop m s stop False 0"

definition strspn :: "memory \<Rightarrow> addr \<Rightarrow> addr \<Rightarrow> u32 option" where
  "strspn m s skip = span_loop m s skip True 0"

partial_function (option) strpbrk :: "memory \<Rightarrow> addr \<Rightarrow> addr \<Rightarrow> addr option" where
  "strpbrk m s stop =
     (if m s = 0 then Some NULL
      else do {
        c \<leftarrow> strchr m stop (m s);
        if c \<noteq> NULL then Some s else strpbrk m (s + 1) stop })"

partial_function (option) strrchr_loop :: "memory \<Rightarrow> addr \<Rightarrow> u8 \<Rightarrow> addr \<Rightarrow> addr option" where
  "strrchr_loop m s c p = (if m s = 0 then Some p else strrchr_loop m (s + 1) c (if m s = c then s else p))"

definition strrchr :: "memory \<Rightarrow> addr \<Rightarrow> u8 \<Rightarrow> addr option" where
  "strrchr m s c = strrchr_loop m s c NULL"

fun strstr_loop :: "memory \<Rightarrow> addr \<Rightarrow> addr \<Rightarrow> u32 \<Rightarrow> nat list \<Rightarrow> addr option" where
  "strstr_loop m haystack needle needle_len [] = Some NULL"
| "strstr_loop m haystack needle needle_len (i # is) = do {
     r \<leftarrow> memcmp m (haystack + of_nat i) needle needle_len;
     if r = 0 then Some (haystack + of_nat i) else strstr_loop m haystack needle needle_len is }"

definition strstr :: "memory \<Rightarrow> addr \<Rightarrow> addr \<Rightarrow> addr option" where
  "strstr m haystack needle = do {
     haystack_len \<leftarrow> strlen m haystack;
     needle_len \<leftarrow> strlen m needle;
     if haystack_len \<ge> needle_len
     then strstr_loop m haystack needle needle_len [0..<Suc (unat (haystack_len - needle_len))]
     else Some NULL }"

text \<open>\<open>strtok_r\<close>: the start position is \<open>s\<close> or, when that is null, \<open>save\<close>. The result is the token, the
  new save pointer and the memory, in which the delimiter after the token is overwritten.\<close>

partial_function (option) skip_delimiters :: "memory \<Rightarrow> addr \<Rightarrow> addr \<Rightarrow> addr option" where
  "skip_delimiters m delimiters s = do {
     c \<leftarrow> strchr m delimiters (m s);
     if c \<noteq> NULL \<and> m s \<noteq> 0 then skip_delimiters m delimiters (s + 1) else Some s }"

partial_function (option) skip_token :: "memory \<Rightarrow> addr \<Rightarrow> addr \<Rightarrow> addr option" where
  "skip_token m delimiters s = do {
     c \<leftarrow> strchr m delimiters (m s);
     if c = NULL then skip_token m delimiters (s + 1) else Some s }"

definition strtok_r :: "memory \<Rightarrow> addr \<Rightarrow> addr \<Rightarrow> addr \<Rightarrow> (addr \<times> addr \<times> memory) option" where
  "strtok_r m s delimiters save = do {
     kassert (delimiters \<noteq> NULL);
     let s = (if s = NULL then save else s);
     kassert (s \<noteq> NULL);
     token \<leftarrow> skip_delimiters m delimiters s;
     if m token = 0 then Some (NULL, token, m)
     else do {
       s \<leftarrow> skip_token m delimiters token;
       if m s \<noteq> 0 then Some (token, s + 1, m(s := 0)) else Some (token, s, m) } }"

definition strlcpy :: "memory \<Rightarrow> addr \<Rightarrow> addr \<Rightarrow> u32 \<Rightarrow> (u32 \<times> memory) option" where
  "strlcpy m dst src sz = do {
     kassert (dst \<noteq> NULL);
     kassert (src \<noteq> NULL);
     src_len \<leftarrow> strlen m src;
     if sz > 0 then do {
       let dst_len = (if src_len < sz - 1 then src_len else sz - 1);
       (_, m) \<leftarrow> memcpy m dst src dst_len;
       Some (src_len, m(dst + dst_len := 0)) }
     else Some (src_len, m) }"

definition strlcat :: "memory \<Rightarrow> addr \<Rightarrow> addr \<Rightarrow> u32 \<Rightarrow> (u32 \<times> memory) option" where
  "strlcat m dst src sz = do {
     kassert (dst \<noteq> NULL);
     kassert (src \<noteq> NULL);
     src_len \<leftarrow> strlen m src;
     dst_len \<leftarrow> strlen m dst;
     if sz > 0 \<and> dst_len < sz then do {
       let copy_cnt = (if src_len < sz - dst_len - 1 then src_len else sz - dst_len - 1);
       (_, m) \<leftarrow> memcpy m (dst + dst_len) src copy_cnt;
       Some (src_len + dst_len, m(dst + dst_len + copy_cnt := 0)) }
     else Some (src_len + dst_len, m) }"

section \<open>Copying\<close>

definition in_block :: "addr \<Rightarrow> nat \<Rightarrow> addr \<Rightarrow> bool" where
  "in_block p n x \<longleftrightarrow> unat p \<le> unat x \<and> unat x < unat p + n"

definition fits :: "addr \<Rightarrow> nat \<Rightarrow> bool" where
  "fits p n \<longleftrightarrow> unat p + n \<le> 2 ^ 32"

text \<open>Memory after the bytes at \<open>s\<close> have been moved to \<open>d\<close>.\<close>

definition moved :: "memory \<Rightarrow> addr \<Rightarrow> addr \<Rightarrow> nat \<Rightarrow> memory" where
  "moved m d s n = (\<lambda>x. if in_block d n x then m (s + (x - d)) else m x)"

lemma in_block_iff: "fits p n \<Longrightarrow> in_block p n x \<longleftrightarrow> (\<exists>k<n. x = p + of_nat k)"
proof
  assume f: "fits p n" and b: "in_block p n x"
  let ?k = "unat x - unat p"
  have "unat (p + of_nat ?k) = unat x" using b unsigned_less [of x] by (subst unat_add_of_nat) (auto simp: in_block_def)
  then have "x = p + of_nat ?k" by (metis word_unat_eq_iff)
  then show "\<exists>k<n. x = p + of_nat k" using b by (intro exI [of _ ?k]) (auto simp: in_block_def)
next
  assume f: "fits p n" and "\<exists>k<n. x = p + of_nat k"
  then obtain k where k: "k < n" "x = p + of_nat k" by blast
  then have "unat x = unat p + k" using f by (auto simp: fits_def intro: unat_add_of_nat)
  then show "in_block p n x" using k by (simp add: in_block_def)
qed

lemma moved_0: "moved m d s 0 = m"
  by (auto simp: moved_def in_block_def fun_eq_iff)

lemma copy_up_moved:
  assumes "fits d n" "fits s n" "unat d \<le> unat s \<or> unat s + n \<le> unat d"
  shows "copy_up m d s n = moved m d s n"
  using assms
proof (induction n arbitrary: m d s)
  case 0
  then show ?case by (simp add: moved_0)
next
  case (Suc n)
  have un: "unat (p + 1) = unat p + 1" if "fits p (Suc n)" "0 < n" for p
    using that unat_add_of_nat [of p 1] by (simp add: fits_def)
  have fit: "fits (p + 1) n" if p: "fits p (Suc n)" for p
  proof (cases "n = 0")
    case True
    have "unat (p + 1) < 2 ^ LENGTH(32)" by (rule unsigned_less)
    then show ?thesis using True by (simp add: fits_def)
  next
    case False
    then have "unat (p + 1) = unat p + 1" using un [OF p] by simp
    then show ?thesis using p unfolding fits_def by linarith
  qed
  note f = fit [OF Suc.prems(1)] fit [OF Suc.prems(2)]
  have o: "unat (d + 1) \<le> unat (s + 1) \<or> unat (s + 1) + n \<le> unat (d + 1)"
  proof (cases "n = 0")
    case True
    then show ?thesis by (simp only: add_0_right linear)
  next
    case False
    then have "unat (d + 1) = unat d + 1" "unat (s + 1) = unat s + 1" using un [OF Suc.prems(1)] un [OF Suc.prems(2)] by simp_all
    then show ?thesis using Suc.prems(3) by linarith
  qed
  have "copy_up m d s (Suc n) = moved (m(d := m s)) (d + 1) (s + 1) n" using Suc.IH [OF f o] by (simp add: fun_upd_def)
  also have "\<dots> = moved m d s (Suc n)"
  proof
    fix x
    have split: "in_block d (Suc n) x \<longleftrightarrow> x = d \<or> in_block (d + 1) n x" 
    proof -
      have "(\<exists>k<Suc n. x = d + of_nat k) \<longleftrightarrow> x = d \<or> (\<exists>k<n. x = d + 1 + of_nat k)"
        by (auto simp: less_Suc_eq_0_disj add.assoc)
      then show ?thesis using in_block_iff [OF Suc.prems(1)] in_block_iff [OF f(1)] by simp
    qed
    show "moved (m(d := m s)) (d + 1) (s + 1) n x = moved m d s (Suc n) x"
    proof (cases "in_block (d + 1) n x")
      case True
      then obtain k where k: "k < n" "x = d + 1 + of_nat k" using in_block_iff [OF f(1)] by blast
      have u: "unat (s + of_nat (Suc k)) = unat s + Suc k"
        using Suc.prems(2) k by (intro unat_add_of_nat) (simp add: fits_def)
      have "s + of_nat (Suc k) \<noteq> d" using u Suc.prems(3) k(1) by auto
      then show ?thesis using True k split by (simp add: moved_def algebra_simps)
    next
      case False
      then show ?thesis using split by (auto simp: moved_def)
    qed
  qed
  finally show ?case .
qed

lemma copy_down_moved:
  assumes "fits d n" "fits s n" "unat s \<le> unat d \<or> unat d + n \<le> unat s"
  shows "copy_down m (d + of_nat n) (s + of_nat n) n = moved m d s n"
  using assms
proof (induction n arbitrary: m)
  case 0
  then show ?case by (simp add: moved_0)
next
  case (Suc n)
  have f: "fits d n" "fits s n" using Suc.prems by (simp_all add: fits_def)
  let ?m = "m(d + of_nat n := m (s + of_nat n))"
  have "copy_down m (d + of_nat (Suc n)) (s + of_nat (Suc n)) (Suc n) = copy_down ?m (d + of_nat n) (s + of_nat n) n"
    by (simp add: algebra_simps)
  also have "\<dots> = moved ?m d s n" using Suc.IH [OF f] Suc.prems(3) by auto
  also have "\<dots> = moved m d s (Suc n)"
  proof
    fix x
    have split: "in_block d (Suc n) x \<longleftrightarrow> x = d + of_nat n \<or> in_block d n x"
      using in_block_iff [OF Suc.prems(1)] in_block_iff [OF f(1)] by (auto simp: less_Suc_eq)
    show "moved ?m d s n x = moved m d s (Suc n) x"
    proof (cases "in_block d n x")
      case True
      then obtain k where k: "k < n" "x = d + of_nat k" using in_block_iff [OF f(1)] by blast
      have "unat (s + of_nat k) = unat s + k" "unat (d + of_nat n) = unat d + n"
        using Suc.prems(1,2) k by (auto simp: fits_def intro!: unat_add_of_nat)
      then have "unat (s + of_nat k) \<noteq> unat (d + of_nat n)" using Suc.prems(3) k(1) by auto
      then have "s + of_nat k \<noteq> d + of_nat n" by metis
      then show ?thesis using True k split by (simp add: moved_def)
    next
      case False
      then show ?thesis using split by (auto simp: moved_def)
    qed
  qed
  finally show ?case .
qed

section \<open>Terminated strings\<close>

fun cstr :: "memory \<Rightarrow> addr \<Rightarrow> u8 list \<Rightarrow> bool" where
  "cstr m p [] \<longleftrightarrow> m p = 0"
| "cstr m p (c # s) \<longleftrightarrow> m p = c \<and> c \<noteq> 0 \<and> cstr m (p + 1) s"

text \<open>A string that does not start at the null pointer and does not run over the end of memory.\<close>

definition string_at :: "memory \<Rightarrow> addr \<Rightarrow> u8 list \<Rightarrow> bool" where
  "string_at m p s \<longleftrightarrow> p \<noteq> NULL \<and> fits p (Suc (length s)) \<and> cstr m p s"

lemma fits_step: "fits p (Suc (Suc n)) \<Longrightarrow> fits (p + 1) (Suc n) \<and> p + 1 \<noteq> NULL"
proof -
  assume f: "fits p (Suc (Suc n))"
  then have "unat (p + 1) = unat p + 1" using unat_add_of_nat [of p 1] by (simp add: fits_def)
  then show ?thesis using f by (auto simp: fits_def)
qed

lemma string_at_Cons: "string_at m p (c # s) \<Longrightarrow> m p = c \<and> c \<noteq> 0 \<and> string_at m (p + 1) s"
  using fits_step [of p "length s"] by (simp add: string_at_def)

lemma string_at_Nil: "string_at m p [] \<Longrightarrow> m p = 0 \<and> p \<noteq> NULL"
  by (simp add: string_at_def)

lemma string_at_nonnull [simp]: "string_at m p s \<Longrightarrow> p \<noteq> NULL"
  by (simp add: string_at_def)

lemma strend_string: "cstr m p s \<Longrightarrow> strend m p = Some (p + of_nat (length s))"
proof (induction s arbitrary: p)
  case (Cons c s)
  then show ?case by (subst strend.simps) (simp add: add.assoc)
qed (subst strend.simps, simp)

lemma strlen_string: "string_at m p s \<Longrightarrow> strlen m p = Some (of_nat (length s))"
  using strend_string [of m p s] by (simp add: strlen_def string_at_def)

lemma strchr_string:
  assumes "string_at m p s"
  shows "\<exists>r. strchr m p c = Some r \<and> (r \<noteq> NULL \<longleftrightarrow> c = 0 \<or> c \<in> set s)"
proof -
  have "\<exists>r. strchr_loop m p c = Some r \<and> (r \<noteq> NULL \<longleftrightarrow> c = 0 \<or> c \<in> set s)" using assms
  proof (induction s arbitrary: p)
    case Nil
    then show ?case using string_at_Nil [OF Nil] by (subst strchr_loop.simps) auto
  next
    case (Cons d s)
    show ?case
    proof (cases "d = c")
      case True
      then show ?thesis using string_at_Cons [OF Cons.prems] Cons.prems by (subst strchr_loop.simps) simp
    next
      case False
      then show ?thesis using string_at_Cons [OF Cons.prems] Cons.IH [of "p + 1"] by (subst strchr_loop.simps) auto
    qed
  qed
  then show ?thesis using assms by (simp add: strchr_def)
qed

section \<open>Tokens\<close>

lemma skip_delimiters_string:
  assumes "string_at m q ds" "string_at m p s"
  shows "skip_delimiters m q p = Some (p + of_nat (length (takeWhile (\<lambda>c. c \<in> set ds) s)))"
  using assms(2)
proof (induction s arbitrary: p)
  case Nil
  obtain r where "strchr m q (m p) = Some r" using strchr_string [OF assms(1)] by blast
  then show ?case using string_at_Nil [OF Nil] by (subst skip_delimiters.simps) simp
next
  case (Cons c s)
  note c = string_at_Cons [OF Cons.prems]
  obtain r where "strchr m q c = Some r" "r \<noteq> NULL \<longleftrightarrow> c \<in> set ds" using strchr_string [OF assms(1), of c] c by blast
  then show ?case using c Cons.IH [of "p + 1"] by (subst skip_delimiters.simps) (auto simp: add.assoc)
qed

lemma skip_token_string:
  assumes "string_at m q ds" "string_at m p s"
  shows "skip_token m q p = Some (p + of_nat (length (takeWhile (\<lambda>c. c \<notin> set ds) s)))"
  using assms(2)
proof (induction s arbitrary: p)
  case Nil
  obtain r where "strchr m q 0 = Some r" "r \<noteq> NULL" using strchr_string [OF assms(1), of 0] by blast
  then show ?case using string_at_Nil [OF Nil] by (subst skip_token.simps) simp
next
  case (Cons c s)
  note c = string_at_Cons [OF Cons.prems]
  obtain r where "strchr m q c = Some r" "r \<noteq> NULL \<longleftrightarrow> c \<in> set ds" using strchr_string [OF assms(1), of c] c by blast
  then show ?case using c Cons.IH [of "p + 1"] by (subst skip_token.simps) (auto simp: add.assoc)
qed

lemma string_at_append:
  "string_at m p (s @ t) \<Longrightarrow> string_at m (p + of_nat (length s)) t"
proof (induction s arbitrary: p)
  case (Cons c s)
  then have "string_at m (p + 1) (s @ t)" using string_at_Cons [of m p c "s @ t"] by simp
  then show ?case using Cons.IH [of "p + 1"] by (simp add: add.assoc)
qed simp

lemma cstr_nth:
  "cstr m p s \<longleftrightarrow> (\<forall>i<length s. m (p + of_nat i) = s ! i) \<and> 0 \<notin> set s \<and> m (p + of_nat (length s)) = 0"
proof (induction s arbitrary: p)
  case (Cons c s)
  have "(\<forall>i<length (c # s). m (p + of_nat i) = (c # s) ! i) \<longleftrightarrow> m p = c \<and> (\<forall>i<length s. m (p + 1 + of_nat i) = s ! i)"
    by (auto simp: less_Suc_eq_0_disj add.assoc)
  then show ?case using Cons by (auto simp: add.assoc)
qed simp

lemma offset_eq:
  assumes "fits p n" "j < n" "k < n"
  shows "p + of_nat j = p + (of_nat k :: addr) \<longleftrightarrow> j = k"
proof -
  have "unat (p + of_nat i) = unat p + i" if "i < n" for i
    using assms(1) that by (intro unat_add_of_nat) (simp add: fits_def)
  then show ?thesis using assms by (metis add_left_cancel)
qed

lemma string_at_cut:
  assumes "string_at m p (s @ c # t)"
  shows "string_at (m(p + of_nat (length s) := 0)) p s"
    "string_at (m(p + of_nat (length s) := 0)) (p + of_nat (length s) + 1) t"
proof -
  have f: "fits p (Suc (length (s @ c # t)))" and c: "cstr m p (s @ c # t)" using assms by (simp_all add: string_at_def)
  note off = offset_eq [OF f]
  have at: "m (p + of_nat i) = (s @ c # t) ! i" if "i < length (s @ c # t)" for i
    using c that unfolding cstr_nth by blast
  have z: "0 \<notin> set (s @ c # t)" "m (p + of_nat (length (s @ c # t))) = 0" using c unfolding cstr_nth by blast+
  have "m (p + of_nat i) = s ! i \<and> p + of_nat i \<noteq> p + of_nat (length s)" if "i < length s" for i
    using that at [of i] off [of i "length s"] by (simp add: nth_append)
  then have "cstr (m(p + of_nat (length s) := 0)) p s" using z(1) by (simp add: cstr_nth)
  then show "string_at (m(p + of_nat (length s) := 0)) p s" using assms f by (simp add: string_at_def fits_def)
  have e: "p + of_nat (length s) + 1 + of_nat i = p + of_nat (Suc (length s + i))" for i by (simp add: add.assoc)
  have "m (p + of_nat (Suc (length s + i))) = t ! i \<and> p + of_nat (Suc (length s + i)) \<noteq> p + of_nat (length s)"
    if "i < length t" for i
    using that at [of "Suc (length s + i)"] off [of "Suc (length s + i)" "length s"] by (simp add: nth_append)
  moreover have "m (p + of_nat (Suc (length s + length t))) = 0" using z(2) by simp
  moreover have "p + of_nat (Suc (length s + length t)) \<noteq> p + of_nat (length s)"
    using off [of "Suc (length s + length t)" "length s"] by simp
  ultimately have "cstr (m(p + of_nat (length s) := 0)) (p + of_nat (length s) + 1) t"
    unfolding cstr_nth e using z(1) by auto
  moreover have "string_at m (p + of_nat (length s) + 1) t"
    using string_at_append [of m p "s @ [c]" t] assms by (simp add: ac_simps)
  ultimately show "string_at (m(p + of_nat (length s) := 0)) (p + of_nat (length s) + 1) t"
    by (simp add: string_at_def)
qed

text \<open>
  C32: \<open>strtok_r\<close> on a terminated string skips delimiters; at the end of the string it returns
  the null pointer. Otherwise it returns the longest run of other characters as a terminated
  string of its own, which is not empty, leaves the save pointer at the rest of the string behind
  one delimiter, and changes nothing outside the string. It always returns.
\<close>

theorem strtok_r_token:
  assumes "string_at m p s" "string_at m q ds"
    and "rest = dropWhile (\<lambda>c. c \<in> set ds) s"
  shows "if rest = [] then strtok_r m p q save = Some (NULL, p + of_nat (length s), m)
    else \<exists>t save' m'. strtok_r m p q save = Some (t, save', m') \<and>
      takeWhile (\<lambda>c. c \<notin> set ds) rest \<noteq> [] \<and> string_at m' t (takeWhile (\<lambda>c. c \<notin> set ds) rest) \<and>
      string_at m' save' (tl (dropWhile (\<lambda>c. c \<notin> set ds) rest)) \<and>
      (\<forall>x. \<not> in_block p (length s) x \<longrightarrow> m' x = m x)"
proof -
  define a where "a = takeWhile (\<lambda>c. c \<in> set ds) s"
  let ?t = "p + of_nat (length a)"
  have s: "s = a @ rest" using assms(3) by (simp add: a_def)
  have skip: "skip_delimiters m q p = Some ?t" using skip_delimiters_string [OF assms(2,1)] by (simp add: a_def)
  have rest: "string_at m ?t rest" using string_at_append assms(1) s by simp
  show ?thesis
  proof (cases rest)
    case Nil
    then show ?thesis using skip rest assms(1,2) s string_at_Nil [of m ?t] by (simp add: strtok_r_def)
  next
    case (Cons c cs)
    define tok where "tok = takeWhile (\<lambda>c. c \<notin> set ds) rest"
    define aft where "aft = dropWhile (\<lambda>c. c \<notin> set ds) rest"
    have ra: "rest = tok @ aft" by (simp add: tok_def aft_def)
    have "c \<notin> set ds" using assms(3) Cons dropWhile_eq_Cons_conv [of "\<lambda>c. c \<in> set ds" s c cs] by simp
    then have ne: "tok \<noteq> []" using Cons by (simp add: tok_def)
    have c: "m ?t \<noteq> 0" using rest string_at_Cons Cons by blast
    have rn: "rest \<noteq> []" using Cons by simp
    let ?e = "?t + of_nat (length tok)"
    have tk: "skip_token m q ?t = Some ?e" using skip_token_string [OF assms(2) rest] by (simp add: tok_def)
    have st: "string_at m ?e aft" using string_at_append rest ra by simp
    show ?thesis
    proof (cases aft)
      case Nil
      then have "m ?e = 0" using st string_at_Nil by blast
      then have r: "strtok_r m p q save = Some (?t, ?e, m)" using skip c tk assms(1,2) by (simp add: strtok_r_def)
      have "string_at m ?t tok" "string_at m ?e (tl aft)" using rest st ra Nil by simp_all
      then show ?thesis using rn r ne unfolding tok_def [symmetric] aft_def [symmetric] by auto
    next
      case (Cons d us)
      then have d: "m ?e \<noteq> 0" using st string_at_Cons by blast
      note cut = string_at_cut [of m ?t tok d us]
      have "\<not> in_block p (length s) x \<Longrightarrow> x \<noteq> ?e" for x
      proof -
        have "in_block p (length s) ?e"
          using assms(1) s ra Cons in_block_iff [of p "length s"]
          by (auto simp: string_at_def fits_def add.assoc intro!: exI [of _ "length a + length tok"])
        then show "\<not> in_block p (length s) x \<Longrightarrow> x \<noteq> ?e" by blast
      qed
      then have same: "\<forall>x. \<not> in_block p (length s) x \<longrightarrow> (m(?e := 0)) x = m x" by auto
      have r: "strtok_r m p q save = Some (?t, ?e + 1, m(?e := 0))" using skip c tk d assms(1,2) by (simp add: strtok_r_def)
      have "string_at (m(?e := 0)) ?t tok" "string_at (m(?e := 0)) (?e + 1) (tl aft)" using cut rest ra Cons by simp_all
      then show ?thesis using rn r ne same unfolding tok_def [symmetric] aft_def [symmetric] by auto
    qed
  qed
qed

definition hello :: memory where
  "hello = (\<lambda>_. 0)(100 := 32, 101 := 97, 102 := 98, 103 := 32, 104 := 99, 200 := 32)"

theorem strtok_r_token_witness:
  "\<exists>t save' m'. strtok_r hello 100 200 NULL = Some (t, save', m') \<and> string_at m' t [97, 98] \<and> string_at m' save' [99]"
proof -
  have "string_at hello 100 [32, 97, 98, 32, 99]" "string_at hello 200 [32]"
    by (simp_all add: string_at_def fits_def hello_def)
  from strtok_r_token [OF this refl, of NULL] show ?thesis by auto
qed

section \<open>Moving and copying\<close>

text \<open>
  C31: \<open>memmove\<close> moves the bytes correctly however the two blocks overlap: afterwards the
  destination holds what the source held before, and nothing else has changed. The pointer it
  returns is the destination only when that does not lie below the source; otherwise it is the
  end of the destination.
\<close>

theorem memmove_correct:
  assumes "dst \<noteq> NULL" "src \<noteq> NULL" "fits dst (unat sz)" "fits src (unat sz)"
  shows "memmove m dst src sz = Some (if dst < src then dst + sz else dst, moved m dst src (unat sz))"
proof (cases "dst < src")
  case True
  then show ?thesis using assms copy_up_moved [of dst "unat sz" src m] by (simp add: memmove_def word_less_nat_alt)
next
  case False
  then show ?thesis using assms copy_down_moved [of dst "unat sz" src m] by (simp add: memmove_def word_less_nat_alt)
qed

theorem memmove_correct_witness:
  "memmove hello 100 101 4 = Some (104, moved hello 100 101 4)"
  using memmove_correct [of 100 101 4 hello] by (simp add: fits_def)

lemma moved_cstr:
  assumes "cstr m src s" "fits dst (Suc n)" "n \<le> length s"
  shows "cstr ((moved m dst src n)(dst + of_nat n := 0)) dst (take n s)"
proof -
  have f: "fits dst n" using assms(2) by (simp add: fits_def)
  have "moved m dst src n (dst + of_nat i) = s ! i" if "i < n" for i
  proof -
    have "in_block dst n (dst + of_nat i)" using that in_block_iff [OF f] by blast
    then show ?thesis using assms(1,3) that unfolding cstr_nth by (simp add: moved_def)
  qed
  moreover have "dst + of_nat i \<noteq> dst + of_nat n" if "i < n" for i
    using offset_eq [OF assms(2), of i n] that by simp
  moreover have "0 \<notin> set (take n s)" using assms(1) unfolding cstr_nth by (meson in_set_takeD)
  ultimately show ?thesis unfolding cstr_nth using assms(3) by simp
qed

text \<open>
  \<open>strlcpy\<close> into a buffer of \<open>size > 0\<close> bytes that does not overlap the source stores the
  longest prefix that fits together with its terminator, never writes outside the buffer, and
  returns the length of the source.
\<close>

lemma strlcpy_bounded:
  assumes "string_at m src s" "dst \<noteq> NULL" "0 < sz" "fits dst (unat sz)"
    and "unat dst + unat sz \<le> unat src \<or> unat src + length s < unat dst"
  shows "\<exists>m'. strlcpy m dst src sz = Some (of_nat (length s), m') \<and>
    string_at m' dst (take (unat sz - 1) s) \<and> (\<forall>x. \<not> in_block dst (unat sz) x \<longrightarrow> m' x = m x)"
proof -
  define n where "n = min (length s) (unat sz - 1)"
  have fs: "fits src (Suc (length s))" and src: "src \<noteq> NULL" and c: "cstr m src s" using assms(1) by (auto simp: string_at_def)
  have sz: "0 < unat sz" "unat (sz - 1) = unat sz - 1"
    using assms(3) unat_minus_one [of sz] word_gt_0 [of sz] by (simp_all add: unat_gt_0)
  have len: "unat (of_nat (length s) :: u32) = length s"
    using fs src unat_gt_0 [of src] by (intro unat_of_nat_u32) (auto simp: fits_def)
  define w where "w = (if of_nat (length s) < sz - 1 then of_nat (length s) else sz - 1 :: u32)"
  have w1: "unat w = n" using len sz by (auto simp: w_def n_def word_less_nat_alt min_def)
  then have "w = of_nat n" by (simp add: w1 [symmetric])
  note w = w1 this
  have fd: "fits dst (Suc n)" "fits dst n" "fits src n" using assms(4) fs sz(1) by (auto simp: fits_def n_def)
  have "unat dst \<le> unat src \<or> unat src + n \<le> unat dst" using assms(5) by (auto simp: n_def)
  then have cp: "copy_up m dst src (unat w) = moved m dst src n"
    using copy_up_moved [OF fd(2,3)] w(1) by simp
  let ?m = "(moved m dst src n)(dst + of_nat n := 0)"
  have "strlcpy m dst src sz = Some (of_nat (length s), ?m)"
    using assms(2,3) src strlen_string [OF assms(1)] cp w by (simp add: strlcpy_def memcpy_def w_def [symmetric] Let_def)
  moreover have "cstr ?m dst (take n s)" using moved_cstr [OF c fd(1)] by (simp add: n_def)
  moreover have "take n s = take (unat sz - 1) s" by (auto simp: n_def min_def)
  moreover have "?m x = m x" if "\<not> in_block dst (unat sz) x" for x
  proof -
    have nz: "n < unat sz" using sz(1) by (auto simp: n_def)
    then have "\<not> in_block dst n x" using that by (auto simp: in_block_def)
    moreover have "x \<noteq> dst + of_nat n" using that in_block_iff [OF assms(4), of x] nz by blast
    ultimately have "\<not> in_block dst n x" "x \<noteq> dst + of_nat n" .
    then show ?thesis by (simp add: moved_def)
  qed
  moreover have "fits dst (Suc (length (take (unat sz - 1) s)))" using fd(1) by (simp add: n_def)
  ultimately show ?thesis using assms(2) by (auto simp: string_at_def)
qed

lemma strlcpy_bounded_example:
  "\<exists>m'. strlcpy hello 300 100 4 = Some (5, m') \<and> string_at m' 300 [32, 97, 98]"
proof -
  have "string_at hello 100 [32, 97, 98, 32, 99]" by (simp add: string_at_def fits_def hello_def)
  from strlcpy_bounded [OF this, of 300 4] show ?thesis by (auto simp: fits_def)
qed

end
