(* ===== verification/Stdlib.thy ===== *)
theory Stdlib
  imports Pintos_Prelude
begin

text \<open>
  \<open>lib/stdlib.c\<close>: \<open>atoi\<close>, heap sort and binary search. An array is the list of its elements,
  each the list of its \<open>size\<close> bytes; indexes are natural numbers, 1-based in the heap code as in
  the source, and an index outside the array is \<open>None\<close>. \<open>compare\<close> is a parameter.
\<close>

type_synonym bytes = "u8 list"

section \<open>Heap sort\<close>

text \<open>\<open>do_swap\<close> exchanges the two elements byte by byte.\<close>

fun do_swap_loop :: "nat \<Rightarrow> nat \<Rightarrow> nat list \<Rightarrow> bytes list \<Rightarrow> bytes list option" where
  "do_swap_loop a b [] xs = Some xs"
| "do_swap_loop a b (i # is) xs =
     (if i < length (xs ! a) \<and> i < length (xs ! b) then do {
        let t = xs ! a ! i;
        let xs = xs[a := (xs ! a)[i := xs ! b ! i]];
        let xs = xs[b := (xs ! b)[i := t]];
        do_swap_loop a b is xs }
      else None)"

definition do_swap :: "bytes list \<Rightarrow> nat \<Rightarrow> nat \<Rightarrow> nat \<Rightarrow> bytes list option" where
  "do_swap xs a_idx b_idx sz =
     (if 1 \<le> a_idx \<and> a_idx \<le> length xs \<and> 1 \<le> b_idx \<and> b_idx \<le> length xs
      then do_swap_loop (a_idx - 1) (b_idx - 1) [0..<sz] xs else None)"

definition do_compare :: "(bytes \<Rightarrow> bytes \<Rightarrow> int) \<Rightarrow> bytes list \<Rightarrow> nat \<Rightarrow> nat \<Rightarrow> int option" where
  "do_compare compare xs a_idx b_idx =
     (if 1 \<le> a_idx \<and> a_idx \<le> length xs \<and> 1 \<le> b_idx \<and> b_idx \<le> length xs
      then Some (compare (xs ! (a_idx - 1)) (xs ! (b_idx - 1))) else None)"

text \<open>The index of the largest among \<open>i\<close> and its children.\<close>

definition heap_max :: "(bytes \<Rightarrow> bytes \<Rightarrow> int) \<Rightarrow> bytes list \<Rightarrow> nat \<Rightarrow> nat \<Rightarrow> nat option" where
  "heap_max compare xs i cnt = do {
     let left = 2 * i;
     let right = 2 * i + 1;
     mx \<leftarrow> (if left \<le> cnt then do { c \<leftarrow> do_compare compare xs left i; Some (if c > 0 then left else i) }
            else Some i);
     if right \<le> cnt then do { c \<leftarrow> do_compare compare xs right mx; Some (if c > 0 then right else mx) }
     else Some mx }"

lemma heap_max_cases:
  assumes "heap_max compare xs i cnt = Some mx"
  shows "mx = i \<or> (mx = 2 * i \<or> mx = 2 * i + 1) \<and> mx \<le> cnt"
  using assms by (auto simp: heap_max_def Let_def bind_eq_Some_conv split: if_splits)

function heapify :: "(bytes \<Rightarrow> bytes \<Rightarrow> int) \<Rightarrow> bytes list \<Rightarrow> nat \<Rightarrow> nat \<Rightarrow> nat \<Rightarrow> bytes list option" where
  "heapify compare xs i cnt sz =
     (case heap_max compare xs i cnt of
        None \<Rightarrow> None
      | Some mx \<Rightarrow>
          if mx = i then Some xs
          else (case do_swap xs i mx sz of
                  None \<Rightarrow> None
                | Some ys \<Rightarrow> heapify compare ys mx cnt sz))"
  by pat_completeness auto
termination
proof (relation "measure (\<lambda>(compare, xs, i, cnt, sz). cnt - i)", goal_cases)
  case (2 compare xs i cnt sz mx ys)
  then show ?case using heap_max_cases [of compare xs i cnt mx] by auto
qed simp

declare heapify.simps [simp del]

fun build_heap :: "(bytes \<Rightarrow> bytes \<Rightarrow> int) \<Rightarrow> bytes list \<Rightarrow> nat \<Rightarrow> nat \<Rightarrow> nat \<Rightarrow> bytes list option" where
  "build_heap compare xs 0 cnt sz = Some xs"
| "build_heap compare xs (Suc i) cnt sz = do {
     xs \<leftarrow> heapify compare xs (Suc i) cnt sz;
     build_heap compare xs i cnt sz }"

fun sort_heap :: "(bytes \<Rightarrow> bytes \<Rightarrow> int) \<Rightarrow> bytes list \<Rightarrow> nat \<Rightarrow> nat \<Rightarrow> bytes list option" where
  "sort_heap compare xs i sz =
     (if i > 1 then do {
        xs \<leftarrow> do_swap xs 1 i sz;
        xs \<leftarrow> heapify compare xs 1 (i - 1) sz;
        sort_heap compare xs (i - 1) sz }
      else Some xs)"

declare sort_heap.simps [simp del]

definition sort_arr :: "bytes list \<Rightarrow> nat \<Rightarrow> nat \<Rightarrow> (bytes \<Rightarrow> bytes \<Rightarrow> int) \<Rightarrow> bytes list option" where
  "sort_arr xs cnt sz compare = do {
     kassert (sz > 0);
     xs \<leftarrow> build_heap compare xs (cnt div 2) cnt sz;
     sort_heap compare xs cnt sz }"

definition qsort :: "bytes list \<Rightarrow> nat \<Rightarrow> nat \<Rightarrow> (bytes \<Rightarrow> bytes \<Rightarrow> int) \<Rightarrow> bytes list option" where
  "qsort xs cnt sz compare = sort_arr xs cnt sz compare"

section \<open>Binary search\<close>

text \<open>\<open>first\<close> and \<open>last\<close> are the element offsets of the two pointers; a hit is its offset.\<close>

function binary_search_loop :: "(bytes \<Rightarrow> bytes \<Rightarrow> int) \<Rightarrow> bytes \<Rightarrow> bytes list \<Rightarrow> nat \<Rightarrow> nat \<Rightarrow> nat option" where
  "binary_search_loop compare key xs first lst =
     (if first < lst then
        let middle = first + (lst - first) div 2;
            cmp = compare key (xs ! middle)
        in if cmp < 0 then binary_search_loop compare key xs first middle
           else if cmp > 0 then binary_search_loop compare key xs (middle + 1) lst
           else Some middle
      else None)"
  by pat_completeness auto
termination
  by (relation "measure (\<lambda>(compare, key, xs, first, lst). lst - first)") auto

declare binary_search_loop.simps [simp del]

definition binary_search :: "bytes \<Rightarrow> bytes list \<Rightarrow> nat \<Rightarrow> (bytes \<Rightarrow> bytes \<Rightarrow> int) \<Rightarrow> nat option" where
  "binary_search key xs cnt compare = binary_search_loop compare key xs 0 cnt"

definition bsearch :: "bytes \<Rightarrow> bytes list \<Rightarrow> nat \<Rightarrow> (bytes \<Rightarrow> bytes \<Rightarrow> int) \<Rightarrow> nat option" where
  "bsearch key xs cnt compare = binary_search key xs cnt compare"

section \<open>Decimal numbers\<close>

definition isspace :: "u8 \<Rightarrow> bool" where
  "isspace c \<longleftrightarrow> c \<in> {32, 12, 10, 13, 9, 11}"

definition isdigit :: "u8 \<Rightarrow> bool" where
  "isdigit c \<longleftrightarrow> 48 \<le> c \<and> c \<le> 57"

text \<open>A C string is the list of its bytes up to the terminator; \<open>value\<close> is a 32-bit word.\<close>

fun skip_spaces :: "bytes \<Rightarrow> bytes" where
  "skip_spaces [] = []"
| "skip_spaces (c # cs) = (if isspace c then skip_spaces cs else c # cs)"

fun parse_digits :: "u32 \<Rightarrow> bytes \<Rightarrow> u32" where
  "parse_digits v [] = v"
| "parse_digits v (c # cs) = (if isdigit c then parse_digits (v * 10 - (ucast c - 48)) cs else v)"

definition atoi :: "bytes \<Rightarrow> u32" where
  "atoi s =
     (let s = skip_spaces s;
          negative = (s \<noteq> [] \<and> hd s = 45);
          s = (if s \<noteq> [] \<and> (hd s = 43 \<or> hd s = 45) then tl s else s);
          v = parse_digits 0 s
      in if \<not> negative then - v else v)"

section \<open>Swapping\<close>

definition el :: "bytes list \<Rightarrow> nat \<Rightarrow> bytes" where
  "el xs i = xs ! (i - 1)"

definition swapped :: "bytes list \<Rightarrow> nat \<Rightarrow> nat \<Rightarrow> bytes list" where
  "swapped xs a b = xs[a - 1 := el xs b, b - 1 := el xs a]"

text \<open>After the first \<open>n\<close> bytes, the elements have exchanged their prefixes of that length.\<close>

lemma do_swap_loop_prefix:
  assumes "a < length xs" "b < length xs" "a \<noteq> b" "length (xs ! a) = sz" "length (xs ! b) = sz" "n \<le> sz"
    and that: "A = xs ! a" "B = xs ! b"
  shows "do_swap_loop a b [n..<sz] (xs[a := take n B @ drop n A, b := take n A @ drop n B]) = Some (xs[a := B, b := A])"
  using assms(6)
proof (induction "sz - n" arbitrary: n)
  case 0
  then show ?case using assms that by simp
next
  case (Suc k)
  then have n: "n < sz" by simp
  have up: "[n..<sz] = n # [Suc n..<sz]" using n by (rule upt_conv_Cons)
  have len: "length A = sz" "length B = sz" using assms that by simp_all
  let ?xs = "xs[a := take n B @ drop n A, b := take n A @ drop n B]"
  have "?xs ! a = take n B @ drop n A" "?xs ! b = take n A @ drop n B" using assms(1-3) by simp_all
  moreover have "(take n B @ drop n A)[n := B ! n] = take (Suc n) B @ drop (Suc n) A"
    "(take n A @ drop n B)[n := A ! n] = take (Suc n) A @ drop (Suc n) B"
    using n len by (simp_all add: list_eq_iff_nth_eq nth_append nth_list_update)
  moreover have "(take n B @ drop n A) ! n = A ! n" "(take n A @ drop n B) ! n = B ! n"
    using n len by (simp_all add: nth_append)
  moreover have "xs[a := u, b := v, a := w, b := z] = xs[a := w, b := z]" for u v w z
    by (rule nth_equalityI) (use assms(1-3) in \<open>auto simp: nth_list_update\<close>)
  ultimately have "do_swap_loop a b [n..<sz] ?xs =
      do_swap_loop a b [Suc n..<sz] (xs[a := take (Suc n) B @ drop (Suc n) A, b := take (Suc n) A @ drop (Suc n) B])"
    using assms(1-3) n len by (simp add: up Let_def)
  then show ?case using Suc by simp
qed

lemma do_swap_loop_same:
  assumes "a < length xs" "\<forall>i\<in>set is. i < length (xs ! a)"
  shows "do_swap_loop a a is xs = Some xs"
  using assms by (induction "is") (simp_all add: Let_def)

lemma do_swap_spec:
  assumes "1 \<le> a" "a \<le> length xs" "1 \<le> b" "b \<le> length xs" "\<forall>x\<in>set xs. length x = sz"
  shows "do_swap xs a b sz = Some (swapped xs a b)"
proof (cases "a = b")
  case True
  then show ?thesis using assms do_swap_loop_same [of "a - 1" xs "[0..<sz]"]
    by (simp add: do_swap_def swapped_def el_def)
next
  case False
  have "length (xs ! (a - 1)) = sz" "length (xs ! (b - 1)) = sz" using assms by simp_all
  then show ?thesis using assms False do_swap_loop_prefix [of "a - 1" xs "b - 1" sz 0 "xs ! (a - 1)" "xs ! (b - 1)"]
    by (simp add: do_swap_def swapped_def el_def)
qed

lemma swapped_props:
  assumes "1 \<le> a" "a \<le> length xs" "1 \<le> b" "b \<le> length xs"
  shows "length (swapped xs a b) = length xs" "mset (swapped xs a b) = mset xs"
    "1 \<le> j \<Longrightarrow> el (swapped xs a b) j = (if j = a then el xs b else if j = b then el xs a else el xs j)"
proof -
  show "length (swapped xs a b) = length xs" by (simp add: swapped_def)
  show "mset (swapped xs a b) = mset xs" using assms by (simp add: swapped_def el_def mset_swap)
  show "el (swapped xs a b) j = (if j = a then el xs b else if j = b then el xs a else el xs j)" if "1 \<le> j"
    using assms that by (auto simp: swapped_def el_def nth_list_update)
qed

section \<open>Heaps\<close>

text \<open>What a comparison function in the style of \<open>strcmp\<close> promises.\<close>

definition compare_ok :: "(bytes \<Rightarrow> bytes \<Rightarrow> int) \<Rightarrow> bool" where
  "compare_ok compare \<longleftrightarrow>
     (\<forall>a b. compare a b > 0 \<longleftrightarrow> compare b a < 0) \<and> (\<forall>a b c. compare a b \<le> 0 \<longrightarrow> compare b c \<le> 0 \<longrightarrow> compare a c \<le> 0)"

definition child :: "nat \<Rightarrow> nat \<Rightarrow> bool" where
  "child j c \<longleftrightarrow> c = 2 * j \<or> c = 2 * j + 1"

definition dominates :: "(bytes \<Rightarrow> bytes \<Rightarrow> int) \<Rightarrow> bytes list \<Rightarrow> nat \<Rightarrow> nat \<Rightarrow> bool" where
  "dominates compare xs n j \<longleftrightarrow> (\<forall>c. child j c \<and> c \<le> n \<longrightarrow> compare (el xs c) (el xs j) \<le> 0)"

definition heap_from :: "(bytes \<Rightarrow> bytes \<Rightarrow> int) \<Rightarrow> bytes list \<Rightarrow> nat \<Rightarrow> nat \<Rightarrow> bool" where
  "heap_from compare xs base n \<longleftrightarrow> (\<forall>j\<ge>base. dominates compare xs n j)"

text \<open>The heap property with the exception of node \<open>i\<close>, whose children its parent dominates.\<close>

definition heap_but :: "(bytes \<Rightarrow> bytes \<Rightarrow> int) \<Rightarrow> bytes list \<Rightarrow> nat \<Rightarrow> nat \<Rightarrow> nat \<Rightarrow> bool" where
  "heap_but compare xs base i n \<longleftrightarrow>
     (\<forall>j\<ge>base. j \<noteq> i \<longrightarrow> dominates compare xs n j) \<and>
     (\<forall>j\<ge>base. \<forall>c. child j i \<and> child i c \<and> c \<le> n \<longrightarrow> compare (el xs c) (el xs j) \<le> 0)"

lemma compare_okD:
  assumes "compare_ok compare"
  shows "compare a b > 0 \<longleftrightarrow> compare b a < 0" "compare a b \<le> 0 \<Longrightarrow> compare b c \<le> 0 \<Longrightarrow> compare a c \<le> 0"
    "compare a a \<le> 0" "\<not> compare a b > 0 \<Longrightarrow> compare a b \<le> 0" "compare a b > 0 \<Longrightarrow> compare b a \<le> 0"
proof -
  show sym: "compare a b > 0 \<longleftrightarrow> compare b a < 0" for a b using assms by (simp add: compare_ok_def)
  show "compare a b \<le> 0 \<Longrightarrow> compare b c \<le> 0 \<Longrightarrow> compare a c \<le> 0" using assms unfolding compare_ok_def by blast
  show "compare a a \<le> 0" using sym [of a a] by linarith
  show "\<not> compare a b > 0 \<Longrightarrow> compare a b \<le> 0" by simp
  show "compare a b > 0 \<Longrightarrow> compare b a \<le> 0" using sym by simp
qed

lemma heap_max_spec:
  assumes "compare_ok compare" "1 \<le> i" "i \<le> n" "n \<le> length xs"
  shows "\<exists>mx. heap_max compare xs i n = Some mx \<and> (mx = i \<or> child i mx \<and> mx \<le> n) \<and>
    compare (el xs i) (el xs mx) \<le> 0 \<and> (\<forall>c. child i c \<and> c \<le> n \<longrightarrow> compare (el xs c) (el xs mx) \<le> 0)"
proof -
  note ok = compare_okD [OF assms(1)]
  have dc: "do_compare compare xs a b = Some (compare (el xs a) (el xs b))" if "1 \<le> a" "a \<le> n" "1 \<le> b" "b \<le> n" for a b
    using that assms(4) by (simp add: do_compare_def el_def)
  define m1 where "m1 = (if 2 * i \<le> n \<and> compare (el xs (2 * i)) (el xs i) > 0 then 2 * i else i)"
  define m2 where "m2 = (if 2 * i + 1 \<le> n \<and> compare (el xs (2 * i + 1)) (el xs m1) > 0 then 2 * i + 1 else m1)"
  have m1: "1 \<le> m1" "m1 \<le> n" "m1 = i \<or> m1 = 2 * i" using assms by (auto simp: m1_def)
  have e: "heap_max compare xs i n = Some m2"
    using assms m1 by (auto simp: heap_max_def Let_def dc m1_def m2_def)
  have g1: "compare (el xs i) (el xs m1) \<le> 0" "2 * i \<le> n \<Longrightarrow> compare (el xs (2 * i)) (el xs m1) \<le> 0"
    using ok by (auto simp: m1_def)
  have g2: "compare (el xs m1) (el xs m2) \<le> 0" "2 * i + 1 \<le> n \<Longrightarrow> compare (el xs (2 * i + 1)) (el xs m2) \<le> 0"
    using ok by (auto simp: m2_def)
  have "m2 = i \<or> child i m2 \<and> m2 \<le> n" using m1 by (auto simp: m2_def child_def)
  moreover have "compare (el xs i) (el xs m2) \<le> 0" using g1(1) g2(1) ok(2) by blast
  moreover have "compare (el xs c) (el xs m2) \<le> 0" if "child i c" "c \<le> n" for c
    using that g1(2) g2 ok(2) by (auto simp: child_def)
  ultimately show ?thesis using e by blast
qed

lemma child_facts:
  "child i c \<Longrightarrow> 1 \<le> i \<Longrightarrow> i < c" "child i c \<Longrightarrow> child j c \<Longrightarrow> i = j"
  by (auto simp: child_def)

lemma heap_but_swap:
  assumes "compare_ok compare" "1 \<le> base" "base \<le> i" "n \<le> length xs" "heap_but compare xs base i n"
    and mx: "child i mx" "mx \<le> n" "compare (el xs i) (el xs mx) \<le> 0"
      "\<forall>c. child i c \<and> c \<le> n \<longrightarrow> compare (el xs c) (el xs mx) \<le> 0"
  shows "heap_but compare (swapped xs i mx) base mx n"
proof -
  have i: "1 \<le> i" "i < mx" "i \<le> length xs" "1 \<le> mx" "mx \<le> length xs"
    using assms child_facts(1) [OF mx(1)] by simp_all
  have e: "el (swapped xs i mx) j = (if j = i then el xs mx else if j = mx then el xs i else el xs j)" if "1 \<le> j" for j
    using swapped_props(3) [OF i(1,3,4,5) that] .
  have "compare (el (swapped xs i mx) c) (el (swapped xs i mx) j) \<le> 0"
    if j: "base \<le> j" "j \<noteq> mx" and c: "child j c" "c \<le> n" for j c
  proof -
    have j1: "1 \<le> j" "j < c" using j assms(2) child_facts(1) [OF c(1)] by simp_all
    show ?thesis
    proof (cases "j = i")
      case True
      then show ?thesis using mx c j1 e by simp
    next
      case False
      then have "c \<noteq> mx" using child_facts(2) [OF c(1)] mx(1) by blast
      then show ?thesis
        using False j c j1 e mx assms(5) unfolding heap_but_def dominates_def by auto
    qed
  qed
  moreover have "compare (el (swapped xs i mx) c) (el (swapped xs i mx) j) \<le> 0"
    if "base \<le> j" "child j mx" "child mx c" "c \<le> n" for j c
  proof -
    have "j = i" "mx < c" using child_facts(2) [OF that(2) mx(1)] child_facts(1) [OF that(3) i(4)] by simp_all
    then show ?thesis using e i assms(3,5) that(3,4) by (auto simp: heap_but_def dominates_def)
  qed
  ultimately show ?thesis by (auto simp: heap_but_def dominates_def)
qed

lemma heapify_spec:
  assumes "compare_ok compare" "1 \<le> base" "base \<le> i" "i \<le> n" "n \<le> length xs" "\<forall>x\<in>set xs. length x = sz"
    "heap_but compare xs base i n"
  shows "\<exists>ys. heapify compare xs i n sz = Some ys \<and> heap_from compare ys base n \<and> mset ys = mset xs \<and>
    (\<forall>j>n. el ys j = el xs j)"
  using assms
proof (induction compare xs i n sz rule: heapify.induct)
  case (1 compare xs i n sz)
  obtain mx where mx: "heap_max compare xs i n = Some mx" "mx = i \<or> child i mx \<and> mx \<le> n"
    "compare (el xs i) (el xs mx) \<le> 0" "\<forall>c. child i c \<and> c \<le> n \<longrightarrow> compare (el xs c) (el xs mx) \<le> 0"
    using heap_max_spec [of compare i n xs] 1 by auto
  show ?case
  proof (cases "mx = i")
    case True
    then have "heap_from compare xs base n"
      using mx(4) "1.prems"(7) by (auto simp: heap_from_def heap_but_def dominates_def)
    then show ?thesis using mx(1) True by (simp add: heapify.simps [of compare xs i n sz])
  next
    case False
    then have c: "child i mx" "mx \<le> n" using mx(2) by auto
    have i: "1 \<le> i" "i < mx" "1 \<le> mx" using "1.prems" child_facts(1) [OF c(1)] by simp_all
    let ?ys = "swapped xs i mx"
    have sw: "do_swap xs i mx sz = Some ?ys" using "1.prems" c i by (intro do_swap_spec) auto
    note p = swapped_props [of i xs mx]
    have "set ?ys = set xs" using p(2) "1.prems" i c by (metis mset_eq_setD le_trans)
    then have "\<exists>ys. heapify compare ?ys mx n sz = Some ys \<and> heap_from compare ys base n \<and> mset ys = mset ?ys \<and>
        (\<forall>j>n. el ys j = el ?ys j)"
      using "1.IH" [OF mx(1) False sw] "1.prems" c i p(1) heap_but_swap [of compare base i n xs mx] mx(3,4) by simp
    moreover have "el ?ys j = el xs j" if "j > n" for j using p(3) [of j] "1.prems" i c that by simp
    ultimately show ?thesis using mx(1) False sw p(2) "1.prems" i c
      by (simp add: heapify.simps [of compare xs i n sz])
  qed
qed

lemma build_heap_spec:
  assumes "compare_ok compare" "k \<le> n" "n \<le> length xs" "\<forall>x\<in>set xs. length x = sz" "heap_from compare xs (Suc k) n"
  shows "\<exists>ys. build_heap compare xs k n sz = Some ys \<and> heap_from compare ys 1 n \<and> mset ys = mset xs \<and> (\<forall>j>n. el ys j = el xs j)"
  using assms(2-)
proof (induction k arbitrary: xs)
  case (Suc k)
  have "heap_but compare xs (Suc k) (Suc k) n"
    using Suc.prems(4) by (auto simp: heap_but_def heap_from_def dest: child_facts(1))
  then obtain ys where ys: "heapify compare xs (Suc k) n sz = Some ys" "heap_from compare ys (Suc k) n" "mset ys = mset xs"
    "\<forall>j>n. el ys j = el xs j"
    using heapify_spec [OF assms(1), of "Suc k" "Suc k" n xs sz] Suc.prems by auto
  have "length ys = length xs" "set ys = set xs" using ys(3) by (metis mset_eq_length, metis mset_eq_setD)
  then show ?case using Suc.IH [of ys] ys Suc.prems by auto
qed simp

lemma heap_root_max:
  assumes "compare_ok compare" "heap_from compare xs 1 n" "1 \<le> j" "j \<le> n"
  shows "compare (el xs j) (el xs 1) \<le> 0"
  using assms(3,4)
proof (induction j rule: less_induct)
  case (less j)
  show ?case
  proof (cases "j = 1")
    case True
    then show ?thesis using compare_okD(3) [OF assms(1)] by simp
  next
    case False
    then have p: "child (j div 2) j" "1 \<le> j div 2" "j div 2 < j" using less.prems by (auto simp: child_def)
    then have "compare (el xs j) (el xs (j div 2)) \<le> 0"
      using assms(2) less.prems by (auto simp: heap_from_def dominates_def)
    moreover have "compare (el xs (j div 2)) (el xs 1) \<le> 0" using less.IH [of "j div 2"] p less.prems by simp
    ultimately show ?thesis by (rule compare_okD(2) [OF assms(1)])
  qed
qed

lemma drop_eq_el:
  assumes "length ys = length xs" "\<forall>j>n. el ys j = el xs j"
  shows "drop n ys = drop n xs"
proof (rule nth_equalityI)
  fix i assume i: "i < length (drop n ys)"
  have "el ys (Suc (n + i)) = el xs (Suc (n + i))" using assms(2) by simp
  then show "drop n ys ! i = drop n xs ! i" using i assms(1) by (simp add: el_def)
qed (simp add: assms(1))

lemma prefix_elements:
  assumes "mset ys = mset xs" "\<forall>j>n. el ys j = el xs j" "n \<le> length xs" "1 \<le> j" "j \<le> n"
  shows "\<exists>k\<ge>1. k \<le> n \<and> el ys j = el xs k"
proof -
  have len: "length ys = length xs" using assms(1) by (rule mset_eq_length)
  have "drop n ys = drop n xs"
    using len assms(2) by (rule drop_eq_el)
  then have "mset (take n ys) = mset (take n xs)"
    using assms(1) by (metis append_take_drop_id add_right_imp_eq mset_append)
  moreover have "el ys j \<in> set (take n ys)" using assms(3-5) len by (simp add: el_def in_set_conv_nth) (use assms(3-5) in \<open>intro exI [of _ "j - 1"], auto\<close>)
  ultimately have "el ys j \<in> set (take n xs)" by (metis mset_eq_setD)
  then obtain k where "k < n" "el ys j = xs ! k" using assms(3) by (auto simp: in_set_conv_nth)
  then show ?thesis by (intro exI [of _ "Suc k"]) (simp add: el_def)
qed

definition sorted_part :: "(bytes \<Rightarrow> bytes \<Rightarrow> int) \<Rightarrow> bytes list \<Rightarrow> nat \<Rightarrow> nat \<Rightarrow> bool" where
  "sorted_part compare xs i cnt \<longleftrightarrow>
     (\<forall>j k. 1 \<le> j \<and> j < k \<and> i < k \<and> k \<le> cnt \<longrightarrow> compare (el xs j) (el xs k) \<le> 0)"

lemma sort_heap_step:
  assumes "compare_ok compare" "1 < i" "i \<le> cnt" "cnt \<le> length xs" "\<forall>x\<in>set xs. length x = sz"
    "heap_from compare xs 1 i" "sorted_part compare xs i cnt"
  shows "\<exists>ys. Option.bind (do_swap xs 1 i sz) (\<lambda>xs. heapify compare xs 1 (i - 1) sz) = Some ys \<and>
    heap_from compare ys 1 (i - 1) \<and> sorted_part compare ys (i - 1) cnt \<and> mset ys = mset xs \<and> (\<forall>j>cnt. el ys j = el xs j)"
proof -
  let ?xs = "swapped xs 1 i"
  have b: "(1 :: nat) \<le> 1" "1 \<le> length xs" "1 \<le> i" "i \<le> length xs" using assms by simp_all
  note p = swapped_props [OF b]
  have sw: "do_swap xs 1 i sz = Some ?xs" using b assms(5) by (intro do_swap_spec) auto
  have e: "el ?xs j = (if j = 1 then el xs i else if j = i then el xs 1 else el xs j)" if "1 \<le> j" for j using p(3) that .
  have "compare (el ?xs c) (el ?xs j) \<le> 0" if c: "1 \<le> j" "j \<noteq> 1" "child j c" "c \<le> i - 1" for j c
  proof -
    have "j < c" using child_facts(1) [OF c(3,1)] .
    then have "el ?xs c = el xs c" "el ?xs j = el xs j" using e [of c] e [of j] c assms(2) by auto
    then show ?thesis using assms(6) c by (auto simp: heap_from_def dominates_def)
  qed
  then have "heap_but compare ?xs 1 1 (i - 1)"
    by (auto simp: heap_but_def dominates_def dest: child_facts(1))
  moreover have "set ?xs = set xs" using p(2) by (rule mset_eq_setD)
  moreover have i1: "1 \<le> i - 1" using assms(2) by simp
  moreover have "i - 1 \<le> length ?xs" using assms(3,4) p(1) by simp
  ultimately obtain ys where ys: "heapify compare ?xs 1 (i - 1) sz = Some ys" "heap_from compare ys 1 (i - 1)"
    "mset ys = mset ?xs" "\<forall>j>i - 1. el ys j = el ?xs j"
    using heapify_spec [OF assms(1) order_refl order_refl i1, of ?xs sz] assms(3-5) p(1) by auto
  have suffix: "el ys k = (if k = i then el xs 1 else el xs k)" if "i - 1 < k" for k
    using ys(4) that assms(2) e [of k] by auto
  have pre: "\<exists>k\<ge>1. k \<le> i \<and> el ys j = el xs k" if j: "1 \<le> j" "j < i" for j
  proof -
    have j': "j \<le> i - 1" and len: "i - 1 \<le> length ?xs" using j assms(3,4) p(1) by auto
    obtain k where k: "1 \<le> k" "k \<le> i - 1" "el ys j = el ?xs k"
      using prefix_elements [OF ys(3,4) len j(1) j'] by blast
    then have "el ys j = el xs (if k = 1 then i else k)" using e [OF k(1)] assms(2) by auto
    then show ?thesis using k assms(2) by (intro exI [of _ "if k = 1 then i else k"]) auto
  qed
  have "compare (el ys j) (el ys k) \<le> 0" if jk: "1 \<le> j" "j < k" "i - 1 < k" "k \<le> cnt" for j k
  proof (cases "k = i")
    case True
    then obtain l where "1 \<le> l" "l \<le> i" "el ys j = el xs l" using pre [of j] jk by auto
    then show ?thesis using heap_root_max [OF assms(1,6), of l] suffix [of k] True jk by simp
  next
    case False
    then have k: "i < k" "el ys k = el xs k" using jk suffix [of k] by auto
    have "\<exists>l\<ge>1. l < k \<and> el ys j = el xs l"
    proof (cases "j < i")
      case True
      then show ?thesis using pre [of j] jk k by fastforce
    next
      case False
      then have "el ys j = el xs (if j = i then 1 else j)" using suffix [of j] jk assms(2) by auto
      then show ?thesis using jk k assms(2) by (intro exI [of _ "if j = i then 1 else j"]) auto
    qed
    then show ?thesis using assms(7) k jk by (auto simp: sorted_part_def)
  qed
  then have "sorted_part compare ys (i - 1) cnt" by (auto simp: sorted_part_def)
  moreover have "\<forall>j>cnt. el ys j = el xs j" using suffix assms(3) by auto
  ultimately show ?thesis using sw ys(1-3) p(2) by simp
qed

lemma sort_heap_spec:
  assumes "compare_ok compare" "i \<le> cnt" "cnt \<le> length xs" "\<forall>x\<in>set xs. length x = sz"
    "heap_from compare xs 1 i" "sorted_part compare xs i cnt"
  shows "\<exists>ys. sort_heap compare xs i sz = Some ys \<and> sorted_part compare ys 1 cnt \<and> mset ys = mset xs \<and> (\<forall>j>cnt. el ys j = el xs j)"
  using assms(2-)
proof (induction i arbitrary: xs rule: less_induct)
  case (less i)
  show ?case
  proof (cases "1 < i")
    case False
    then have "sorted_part compare xs 1 cnt" using less.prems(5) by (auto simp: sorted_part_def)
    then show ?thesis using False by (simp add: sort_heap.simps [of compare xs i sz])
  next
    case True
    obtain ys where ys: "Option.bind (do_swap xs 1 i sz) (\<lambda>xs. heapify compare xs 1 (i - 1) sz) = Some ys"
      "heap_from compare ys 1 (i - 1)" "sorted_part compare ys (i - 1) cnt" "mset ys = mset xs" "\<forall>j>cnt. el ys j = el xs j"
      using sort_heap_step [OF assms(1) True less.prems] by blast
    have "length ys = length xs" "set ys = set xs" using ys(4) by (metis mset_eq_length, metis mset_eq_setD)
    then have "\<exists>zs. sort_heap compare ys (i - 1) sz = Some zs \<and> sorted_part compare zs 1 cnt \<and> mset zs = mset ys \<and>
        (\<forall>j>cnt. el zs j = el ys j)"
      using less.prems True by (intro less.IH ys(2,3)) auto
    then obtain zs where "sort_heap compare ys (i - 1) sz = Some zs" "sorted_part compare zs 1 cnt" "mset zs = mset ys"
      "\<forall>j>cnt. el zs j = el ys j" by blast
    then show ?thesis using True ys by (auto simp: sort_heap.simps [of compare xs i sz] bind_eq_Some_conv)
  qed
qed

text \<open>
  C27: Heap sort returns for every comparison that is a total preorder, permutes the array,
  leaves everything behind the first \<open>cnt\<close> elements alone and puts these in order.
\<close>

theorem sort_correct:
  assumes "compare_ok compare" "cnt \<le> length xs" "\<forall>x\<in>set xs. length x = sz" "0 < sz"
  shows "\<exists>ys. sort_arr xs cnt sz compare = Some ys \<and> mset ys = mset xs \<and> drop cnt ys = drop cnt xs \<and>
    sorted_wrt (\<lambda>a b. compare a b \<le> 0) (take cnt ys)"
proof -
  have "heap_from compare xs (Suc (cnt div 2)) cnt" by (auto simp: heap_from_def dominates_def child_def)
  then obtain xs1 where x1: "build_heap compare xs (cnt div 2) cnt sz = Some xs1" "heap_from compare xs1 1 cnt"
    "mset xs1 = mset xs" "\<forall>j>cnt. el xs1 j = el xs j"
    using build_heap_spec [OF assms(1), of "cnt div 2" cnt xs sz] assms(2,3) by auto
  have l1: "length xs1 = length xs" "set xs1 = set xs" using x1(3) by (metis mset_eq_length, metis mset_eq_setD)
  then obtain ys where ys: "sort_heap compare xs1 cnt sz = Some ys" "sorted_part compare ys 1 cnt" "mset ys = mset xs1"
    "\<forall>j>cnt. el ys j = el xs1 j"
    using sort_heap_spec [OF assms(1), of cnt cnt xs1 sz] x1(2) assms(2,3) by (auto simp: sorted_part_def)
  have len: "length ys = length xs" using ys(3) l1 by (metis mset_eq_length)
  have "drop cnt ys = drop cnt xs"
    using ys(4) x1(4) by (intro drop_eq_el [OF len]) simp
  moreover have "sorted_wrt (\<lambda>a b. compare a b \<le> 0) (take cnt ys)"
    unfolding sorted_wrt_iff_nth_less
  proof (intro allI impI)
    fix i j assume ij: "i < j" "j < length (take cnt ys)"
    then have "compare (el ys (Suc i)) (el ys (Suc j)) \<le> 0" using ys(2) assms(2) len by (auto simp: sorted_part_def)
    then show "compare (take cnt ys ! i) (take cnt ys ! j) \<le> 0" using ij by (simp add: el_def)
  qed
  ultimately show ?thesis using x1 ys assms(4) by (simp add: sort_arr_def)
qed

text \<open>In the witness, one-byte elements are compared as unsigned numbers.\<close>

definition compare_byte :: "bytes \<Rightarrow> bytes \<Rightarrow> int" where
  "compare_byte a b = int (unat (hd a)) - int (unat (hd b))"

lemma compare_byte_ok: "compare_ok compare_byte"
  by (auto simp: compare_ok_def compare_byte_def)

theorem sort_correct_witness:
  "\<exists>ys. sort_arr [[3], [1], [2]] 3 1 compare_byte = Some ys \<and> sorted_wrt (\<lambda>a b. compare_byte a b \<le> 0) (take 3 ys)"
  using sort_correct [OF compare_byte_ok, of 3 "[[3], [1], [2]]" 1] by auto

section \<open>Binary search\<close>

lemma binary_search_hit:
  "binary_search_loop compare key xs a b = Some i \<Longrightarrow> a \<le> i \<and> i < b \<and> compare key (xs ! i) = 0"
proof (induction compare key xs a b rule: binary_search_loop.induct)
  case (1 compare key xs a b)
  show ?case
    using "1.prems" "1.IH"(1) [OF _ refl refl] "1.IH"(2) [OF _ refl refl]
    by (subst (asm) binary_search_loop.simps) (fastforce simp: Let_def split: if_splits)
qed

lemma binary_search_miss:
  assumes "compare_ok compare" "sorted_wrt (\<lambda>x y. compare x y \<le> 0) xs" "b \<le> length xs"
    "binary_search_loop compare key xs a b = None" "a \<le> i" "i < b"
  shows "compare key (xs ! i) \<noteq> 0"
  using assms
proof (induction compare key xs a b rule: binary_search_loop.induct)
  case (1 compare key xs a b)
  define m where "m = a + (b - a) div 2"
  have ab: "a < b" and m: "a \<le> m" "m < b" using "1.prems"(5,6) by (auto simp: m_def)
  note ok = compare_okD [OF "1.prems"(1)]
  have mono: "compare (xs ! u) (xs ! v) \<le> 0" if "u \<le> v" "v < length xs" for u v
    using "1.prems"(2) that ok(3) by (cases "u = v") (auto simp: sorted_wrt_iff_nth_less)
  have unf: "binary_search_loop compare key xs a b =
      (if compare key (xs ! m) < 0 then binary_search_loop compare key xs a m
       else if compare key (xs ! m) > 0 then binary_search_loop compare key xs (m + 1) b else Some m)"
    using ab by (subst binary_search_loop.simps) (simp add: m_def Let_def)
  consider (lo) "compare key (xs ! m) < 0" "binary_search_loop compare key xs a m = None"
    | (hi) "compare key (xs ! m) > 0" "binary_search_loop compare key xs (m + 1) b = None"
    using "1.prems"(4) unf by (auto split: if_splits)
  then show ?case
  proof cases
    case lo
    show ?thesis
    proof (cases "i < m")
      case True
      then show ?thesis using "1.IH"(1) [OF ab m_def refl] lo "1.prems" m by auto
    next
      case False
      then have "compare (xs ! m) (xs ! i) \<le> 0" using mono "1.prems" by auto
      moreover have "compare (xs ! m) key > 0" using lo ok(1) by simp
      ultimately show ?thesis using ok(1,2,4,5) by (metis less_irrefl not_less order_refl)
    qed
  next
    case hi
    show ?thesis
    proof (cases "m < i")
      case True
      then show ?thesis using "1.IH"(2) [OF ab m_def refl] hi "1.prems" by auto
    next
      case False
      then have "compare (xs ! i) (xs ! m) \<le> 0" using mono m "1.prems" by auto
      then show ?thesis using hi ok(1,2,4,5) by (metis less_irrefl not_less order_refl)
    qed
  qed
qed

text \<open>
  On a sorted array, binary search returns the position of an element that compares equal
  to the key if there is one, and the null pointer otherwise.
\<close>

lemma binary_search_correct:
  assumes "compare_ok compare" "sorted_wrt (\<lambda>x y. compare x y \<le> 0) xs"
  shows "case binary_search key xs (length xs) compare of
      Some i \<Rightarrow> i < length xs \<and> compare key (xs ! i) = 0
    | None \<Rightarrow> \<forall>x\<in>set xs. compare key x \<noteq> 0"
  using binary_search_hit [of compare key xs 0 "length xs"]
    binary_search_miss [OF assms order_refl, of key 0]
  by (auto simp: binary_search_def in_set_conv_nth split: option.split)

lemma binary_search_correct_example:
  "case binary_search [2] [[1], [2], [3]] (length [[1], [2], [3 :: u8]]) compare_byte of
      Some i \<Rightarrow> i < length [[1], [2], [3 :: u8]] \<and> compare_byte [2] ([[1], [2], [3]] ! i) = 0
    | None \<Rightarrow> \<forall>x\<in>set [[1], [2], [3]]. compare_byte [2] x \<noteq> 0"
  by (rule binary_search_correct [OF compare_byte_ok]) (simp add: compare_byte_def)

section \<open>Decimal numbers\<close>

fun digits_value :: "int \<Rightarrow> bytes \<Rightarrow> int" where
  "digits_value v [] = v"
| "digits_value v (c # cs) = digits_value (v * 10 + (uint c - 48)) cs"

lemma parse_digits_value:
  "parse_digits (of_int (- v)) ds = of_int (- digits_value v (takeWhile isdigit ds))"
proof (induction ds arbitrary: v)
  case (Cons c ds)
  have "of_int (- v) * 10 - (ucast c - 48) = (of_int (- (v * 10 + (uint c - 48))) :: u32)"
    by (simp add: algebra_simps)
  then show ?case using Cons [of "v * 10 + (uint c - 48)"]
    by (simp only: parse_digits.simps takeWhile.simps digits_value.simps split: if_split) simp
qed simp

lemma digit_not_space: "isdigit c \<Longrightarrow> \<not> isspace c \<and> c \<noteq> 43 \<and> c \<noteq> 45"
  by (auto simp: isdigit_def isspace_def word_le_nat_alt)

lemma skip_spaces_append: "\<forall>c\<in>set ws. isspace c \<Longrightarrow> skip_spaces (ws @ s) = skip_spaces s"
  by (induction ws) auto

lemma atoi_digits:
  assumes "\<forall>c\<in>set ws. isspace c" "ds \<noteq> []" "\<forall>c\<in>set ds. isdigit c" "rest = [] \<or> \<not> isdigit (hd rest)"
  shows "atoi (ws @ ds @ rest) = of_int (digits_value 0 ds) \<and>
    atoi (ws @ 43 # ds @ rest) = of_int (digits_value 0 ds) \<and>
    atoi (ws @ 45 # ds @ rest) = of_int (- digits_value 0 ds)"
proof -
  have tw: "takeWhile isdigit (ds @ rest) = ds" using assms(3,4) by (cases rest) auto
  obtain d dr where ds: "ds = d # dr" using assms(2) by (cases ds) auto
  have d: "\<not> isspace d" "d \<noteq> 43" "d \<noteq> 45" using assms(3) digit_not_space [of d] by (auto simp: ds)
  have pd: "parse_digits 0 (ds @ rest) = of_int (- digits_value 0 ds)"
    using parse_digits_value [of 0 "ds @ rest"] tw by simp
  have ns: "\<not> isspace 43" "\<not> isspace 45" by (simp_all add: isspace_def)
  have "atoi (ws @ ds @ rest) = of_int (digits_value 0 ds)"
    using d pd by (simp add: atoi_def skip_spaces_append [OF assms(1)] ds)
  then show ?thesis using ns pd by (simp add: atoi_def skip_spaces_append [OF assms(1)])
qed

end
