(* ===== verification/Kstdio.thy ===== *)
theory Kstdio
  imports Kstring Stdlib
begin

text \<open>
  Formatted output (\<open>lib/stdio.c\<close>). The characters given to the output function are collected
  in a list. The variable arguments are the 32-bit words on the caller's stack, 64-bit values
  taking two, low word first; \<open>%s\<close> reads memory. A format is the list of its characters without
  the terminator. \<open>None\<close> is undefined behaviour: a missing argument, a write outside the digit
  buffer, or reading the format behind its terminator.
\<close>

section \<open>Conversions\<close>

datatype int_type = CHAR_T | SHORT_T | INT_T | INTMAX_T | LONG_T | LONGLONG_T | PTRDIFFT_T | SIZET_T

record printf_conversion =
  MINUS :: bool
  PLUS :: bool
  SPACE :: bool
  POUND :: bool
  ZERO :: bool
  GROUP :: bool
  width :: int
  precision :: int
  ctype :: int_type

record integer_base =
  base :: nat
  digits :: "u8 list"
  x_char :: u8
  group :: nat

definition base_d :: integer_base where
  "base_d = \<lparr>base = 10, digits = str8 ''0123456789'', x_char = 0, group = 3\<rparr>"

definition base_o :: integer_base where
  "base_o = \<lparr>base = 8, digits = str8 ''01234567'', x_char = 0, group = 3\<rparr>"

definition base_x :: integer_base where
  "base_x = \<lparr>base = 16, digits = str8 ''0123456789abcdef'', x_char = chr8 CHR ''x'', group = 4\<rparr>"

definition base_X :: integer_base where
  "base_X = \<lparr>base = 16, digits = str8 ''0123456789ABCDEF'', x_char = chr8 CHR ''X'', group = 4\<rparr>"

section \<open>Parsing a conversion\<close>

type_synonym va_list = "u32 list"

fun va_word :: "va_list \<Rightarrow> (u32 \<times> va_list) option" where
  "va_word [] = None"
| "va_word (w # ws) = Some (w, ws)"

fun va_dword :: "va_list \<Rightarrow> (u64 \<times> va_list) option" where
  "va_dword (lo # hi # ws) = Some (push_bit 32 (ucast hi) OR ucast lo, ws)"
| "va_dword ws = None"

fun parse_flags :: "u8 list \<Rightarrow> printf_conversion \<Rightarrow> printf_conversion \<times> u8 list" where
  "parse_flags [] c = (c, [])"
| "parse_flags (ch # fmt) c =
     (if ch = chr8 CHR ''-'' then parse_flags fmt (c\<lparr>MINUS := True\<rparr>)
      else if ch = chr8 CHR ''+'' then parse_flags fmt (c\<lparr>PLUS := True\<rparr>)
      else if ch = chr8 CHR '' '' then parse_flags fmt (c\<lparr>SPACE := True\<rparr>)
      else if ch = chr8 CHR ''#'' then parse_flags fmt (c\<lparr>POUND := True\<rparr>)
      else if ch = chr8 CHR ''0'' then parse_flags fmt (c\<lparr>ZERO := True\<rparr>)
      else if ch = 39 then parse_flags fmt (c\<lparr>GROUP := True\<rparr>)
      else (c, ch # fmt))"

definition settle_flags :: "printf_conversion \<Rightarrow> printf_conversion" where
  "settle_flags c =
     (let c = (if MINUS c then c\<lparr>ZERO := False\<rparr> else c)
      in if PLUS c then c\<lparr>SPACE := False\<rparr> else c)"

fun parse_number :: "int \<Rightarrow> u8 list \<Rightarrow> int \<times> u8 list" where
  "parse_number v [] = (v, [])"
| "parse_number v (ch # fmt) =
     (if isdigit ch then parse_number (s32 (v * 10 + uint ch - 48)) fmt else (v, ch # fmt))"

text \<open>A number or, for \<open>*\<close>, the next argument.\<close>

definition parse_star :: "u8 list \<Rightarrow> va_list \<Rightarrow> (int \<times> u8 list \<times> va_list) option" where
  "parse_star fmt args =
     (case fmt of
        [] \<Rightarrow> Some (0, [], args)
      | ch # fmt' \<Rightarrow>
          if ch = chr8 CHR ''*'' then map_option (\<lambda>(w, args). (sint w, fmt', args)) (va_word args)
          else let (v, fmt) = parse_number 0 fmt in Some (v, fmt, args))"

definition parse_type :: "u8 list \<Rightarrow> int_type \<times> u8 list" where
  "parse_type fmt =
     (case fmt of
        [] \<Rightarrow> (INT_T, [])
      | ch # fmt' \<Rightarrow>
          if ch = chr8 CHR ''h'' then
            (case fmt' of [] \<Rightarrow> (SHORT_T, [])
             | ch' # fmt'' \<Rightarrow> if ch' = chr8 CHR ''h'' then (CHAR_T, fmt'') else (SHORT_T, fmt'))
          else if ch = chr8 CHR ''j'' then (INTMAX_T, fmt')
          else if ch = chr8 CHR ''l'' then
            (case fmt' of [] \<Rightarrow> (LONG_T, [])
             | ch' # fmt'' \<Rightarrow> if ch' = chr8 CHR ''l'' then (LONGLONG_T, fmt'') else (LONG_T, fmt'))
          else if ch = chr8 CHR ''t'' then (PTRDIFFT_T, fmt')
          else if ch = chr8 CHR ''z'' then (SIZET_T, fmt')
          else (INT_T, fmt))"

definition parse_conversion :: "u8 list \<Rightarrow> va_list \<Rightarrow> (printf_conversion \<times> u8 list \<times> va_list) option" where
  "parse_conversion fmt args = do {
     let (c, fmt) = parse_flags fmt
       \<lparr>MINUS = False, PLUS = False, SPACE = False, POUND = False, ZERO = False, GROUP = False,
        width = 0, precision = - 1, ctype = INT_T\<rparr>;
     let c = settle_flags c;
     (w, fmt, args) \<leftarrow> parse_star fmt args;
     let c = (if w < 0 then c\<lparr>width := s32 (- w), MINUS := True\<rparr> else c\<lparr>width := w\<rparr>);
     (p, fmt, args) \<leftarrow> (case fmt of
         [] \<Rightarrow> Some (- 1, fmt, args)
       | ch # fmt' \<Rightarrow> if ch = chr8 CHR ''.'' then parse_star fmt' args else Some (- 1, fmt, args));
     let c = c\<lparr>precision := (if p < 0 then - 1 else p)\<rparr>;
     let c = (if precision c \<ge> 0 then c\<lparr>ZERO := False\<rparr> else c);
     let (ty, fmt) = parse_type fmt;
     Some (c\<lparr>ctype := ty\<rparr>, fmt, args) }"

section \<open>Integers and strings\<close>

abbreviation (input) BUF_SIZE :: nat where "BUF_SIZE \<equiv> 64"

text \<open>\<open>buf[64]\<close> as the list of the characters written so far; \<open>cp - buf\<close> is its length.\<close>

definition put :: "u8 \<Rightarrow> u8 list \<Rightarrow> u8 list option" where
  "put ch buf = (if length buf < BUF_SIZE then Some (buf @ [ch]) else None)"

function digits_loop :: "integer_base \<Rightarrow> bool \<Rightarrow> nat \<Rightarrow> nat \<Rightarrow> u8 list \<Rightarrow> u8 list option" where
  "digits_loop b grp digit_cnt v buf =
     (if v > 0 \<and> base b > 1 then
        case (if grp \<and> digit_cnt > 0 \<and> digit_cnt mod group b = 0 then put (chr8 CHR '','') buf else Some buf) of
          None \<Rightarrow> None
        | Some buf \<Rightarrow>
            (case put (digits b ! (v mod base b)) buf of
               None \<Rightarrow> None
             | Some buf \<Rightarrow> digits_loop b grp (digit_cnt + 1) (v div base b) buf)
      else Some buf)"
  by pat_completeness auto
termination
  by (relation "measure (\<lambda>(b, grp, digit_cnt, v, buf). v)") auto

declare digits_loop.simps [simp del]

definition pad_precision :: "int \<Rightarrow> u8 list \<Rightarrow> u8 list" where
  "pad_precision p buf = buf @ replicate (nat (min p (int BUF_SIZE - 1) - int (length buf))) (chr8 CHR ''0'')"

definition output_dup :: "u8 \<Rightarrow> nat \<Rightarrow> u8 list" where
  "output_dup ch cnt = replicate cnt ch"

definition format_integer :: "nat \<Rightarrow> bool \<Rightarrow> bool \<Rightarrow> integer_base \<Rightarrow> printf_conversion \<Rightarrow> u8 list option" where
  "format_integer v is_signed negative b c = do {
     let sign = (if is_signed then
                   if PLUS c then (if negative then chr8 CHR ''-'' else chr8 CHR ''+'')
                   else if SPACE c then (if negative then chr8 CHR ''-'' else chr8 CHR '' '')
                   else if negative then chr8 CHR ''-'' else 0
                 else 0);
     let x = (if POUND c \<and> v \<noteq> 0 then x_char b else 0);
     buf \<leftarrow> digits_loop b (GROUP c) 0 v [];
     let buf = pad_precision (if precision c < 0 then 1 else precision c) buf;
     buf \<leftarrow> (if POUND c \<and> base b = 8 \<and> (buf = [] \<or> last buf \<noteq> chr8 CHR ''0'') then put (chr8 CHR ''0'') buf
            else Some buf);
     let pad_cnt = nat (width c - int (length buf) - (if x \<noteq> 0 then 2 else 0) - (if sign \<noteq> 0 then 1 else 0));
     Some ((if \<not> MINUS c \<and> \<not> ZERO c then output_dup (chr8 CHR '' '') pad_cnt else [])
       @ (if sign \<noteq> 0 then [sign] else [])
       @ (if x \<noteq> 0 then [chr8 CHR ''0'', x] else [])
       @ (if ZERO c then output_dup (chr8 CHR ''0'') pad_cnt else [])
       @ rev buf
       @ (if MINUS c then output_dup (chr8 CHR '' '') pad_cnt else [])) }"

definition format_string :: "u8 list \<Rightarrow> printf_conversion \<Rightarrow> u8 list" where
  "format_string s c =
     (let pad = (if width c > int (length s) then nat (width c - int (length s)) else 0)
      in (if \<not> MINUS c then output_dup (chr8 CHR '' '') pad else []) @ s @
         (if MINUS c then output_dup (chr8 CHR '' '') pad else []))"

section \<open>The interpreter of formats\<close>

fun signed_arg :: "int_type \<Rightarrow> va_list \<Rightarrow> (int \<times> va_list) option" where
  "signed_arg CHAR_T args = map_option (apfst (\<lambda>w. sint (ucast w :: u8))) (va_word args)"
| "signed_arg SHORT_T args = map_option (apfst (\<lambda>w. sint (ucast w :: 16 word))) (va_word args)"
| "signed_arg INT_T args = map_option (apfst sint) (va_word args)"
| "signed_arg INTMAX_T args = map_option (apfst sint) (va_dword args)"
| "signed_arg LONG_T args = map_option (apfst sint) (va_word args)"
| "signed_arg LONGLONG_T args = map_option (apfst sint) (va_dword args)"
| "signed_arg PTRDIFFT_T args = map_option (apfst sint) (va_word args)"
| "signed_arg SIZET_T args =
     map_option (apfst (\<lambda>w. if uint w > 4294967295 div 2 then uint w - 4294967295 - 1 else uint w)) (va_word args)"

fun unsigned_arg :: "int_type \<Rightarrow> va_list \<Rightarrow> (nat \<times> va_list) option" where
  "unsigned_arg CHAR_T args = map_option (apfst (\<lambda>w. unat (ucast w :: u8))) (va_word args)"
| "unsigned_arg SHORT_T args = map_option (apfst (\<lambda>w. unat (ucast w :: 16 word))) (va_word args)"
| "unsigned_arg INT_T args = map_option (apfst unat) (va_word args)"
| "unsigned_arg INTMAX_T args = map_option (apfst unat) (va_dword args)"
| "unsigned_arg LONG_T args = map_option (apfst unat) (va_word args)"
| "unsigned_arg LONGLONG_T args = map_option (apfst unat) (va_dword args)"
| "unsigned_arg PTRDIFFT_T args = map_option (apfst (\<lambda>w. unat ((scast w :: u64) AND 4294967295))) (va_word args)"
| "unsigned_arg SIZET_T args = map_option (apfst unat) (va_word args)"

definition string_arg :: "memory \<Rightarrow> u32 \<Rightarrow> printf_conversion \<Rightarrow> u8 list option" where
  "string_arg m s c =
     (if s = NULL then
        Some (take (if precision c = - 1 then 6 else nat (precision c)) (str8 ''(null)''))
      else do {
        len \<leftarrow> strnlen m s (of_int (precision c));
        Some (map (\<lambda>i. m (s + of_nat i)) [0..<unat len]) })"

definition do_conversion :: "memory \<Rightarrow> u8 \<Rightarrow> printf_conversion \<Rightarrow> va_list \<Rightarrow> (u8 list \<times> va_list) option" where
  "do_conversion m k c args =
     (if k \<in> set (str8 ''di'') then do {
        (v, args) \<leftarrow> signed_arg (ctype c) args;
        out \<leftarrow> format_integer (nat \<bar>v\<bar>) True (v < 0) base_d c;
        Some (out, args) }
      else if k \<in> set (str8 ''ouxX'') then do {
        (v, args) \<leftarrow> unsigned_arg (ctype c) args;
        let b = (if k = chr8 CHR ''o'' then base_o else if k = chr8 CHR ''u'' then base_d
                 else if k = chr8 CHR ''x'' then base_x else base_X);
        out \<leftarrow> format_integer v False False b c;
        Some (out, args) }
      else if k = chr8 CHR ''c'' then do {
        (w, args) \<leftarrow> va_word args;
        Some (format_string [ucast w] c, args) }
      else if k = chr8 CHR ''s'' then do {
        (s, args) \<leftarrow> va_word args;
        str \<leftarrow> string_arg m s c;
        Some (format_string str c, args) }
      else if k = chr8 CHR ''p'' then do {
        (p, args) \<leftarrow> va_word args;
        out \<leftarrow> format_integer (unat p) False False base_x
                 (c\<lparr>MINUS := False, PLUS := False, SPACE := False, POUND := True, ZERO := False, GROUP := False\<rparr>);
        Some (out, args) }
      else if k \<in> set (str8 ''feEgGn'') then Some (str8 ''<<no %'' @ [k] @ str8 '' in kernel>>'', args)
      else Some (str8 ''<<no %'' @ [k] @ str8 '' conversion>>'', args))"

lemma parse_flags_length: "length (snd (parse_flags fmt c)) \<le> length fmt"
  by (induction fmt c rule: parse_flags.induct) (auto intro: le_SucI)

lemma parse_number_length: "length (snd (parse_number v fmt)) \<le> length fmt"
  by (induction v fmt rule: parse_number.induct) (auto intro: le_SucI)

lemma parse_star_length: "parse_star fmt args = Some (v, fmt', args') \<Longrightarrow> length fmt' \<le> length fmt"
  using parse_number_length [of 0 fmt]
  by (auto simp: parse_star_def split: list.splits if_splits prod.splits)

lemma parse_type_length: "length (snd (parse_type fmt)) \<le> length fmt"
  by (auto simp: parse_type_def split: list.split)

lemma parse_conversion_length:
  assumes "parse_conversion fmt args = Some (c, fmt', args')"
  shows "length fmt' \<le> length fmt"
proof -
  obtain c1 f1 where f1: "parse_flags fmt \<lparr>MINUS = False, PLUS = False, SPACE = False, POUND = False, ZERO = False,
      GROUP = False, width = 0, precision = - 1, ctype = INT_T\<rparr> = (c1, f1)" by fastforce
  obtain w f2 a2 where f2: "parse_star f1 args = Some (w, f2, a2)"
    using assms f1 by (auto simp: parse_conversion_def Let_def bind_eq_Some_conv)
  let ?prec = "case f2 of [] \<Rightarrow> Some (- 1, f2, a2)
       | ch # fmt' \<Rightarrow> if ch = chr8 CHR ''.'' then parse_star fmt' a2 else Some (- 1, f2, a2)"
  obtain x where x: "?prec = Some x"
    using assms f1 f2 by (auto simp: parse_conversion_def Let_def bind_eq_Some_conv)
  obtain p f3 a3 where x3: "x = (p, f3, a3)" by (cases x)
  then have f3: "?prec = Some (p, f3, a3)" using x by simp
  obtain ty f4 where "parse_type f3 = (ty, f4)" by fastforce
  moreover from this have "f4 = fmt'" using assms f1 f2 f3 by (simp add: parse_conversion_def Let_def)
  ultimately have f4: "fmt' = snd (parse_type f3)" by simp
  have "length f1 \<le> length fmt" using parse_flags_length [of fmt] f1 by (metis snd_conv)
  moreover have "length f2 \<le> length f1" using parse_star_length [OF f2] .
  moreover have "length f3 \<le> length f2"
    using f3 by (auto split: list.splits if_splits dest: parse_star_length)
  moreover have "length fmt' \<le> length f3" using parse_type_length f4 by simp
  ultimately show ?thesis by linarith
qed

function vprintf :: "memory \<Rightarrow> u8 list \<Rightarrow> va_list \<Rightarrow> u8 list option" where
  "vprintf m [] args = Some []"
| "vprintf m (ch # fmt) args =
     (if ch \<noteq> chr8 CHR ''%'' then map_option ((#) ch) (vprintf m fmt args)
      else if fmt \<noteq> [] \<and> hd fmt = chr8 CHR ''%'' then map_option ((#) (chr8 CHR ''%'')) (vprintf m (tl fmt) args)
      else
        (case parse_conversion fmt args of
           None \<Rightarrow> None
         | Some (c, fmt2, args2) \<Rightarrow>
             if fmt2 = [] then None
             else
               (case do_conversion m (hd fmt2) c args2 of
                  None \<Rightarrow> None
                | Some (out, args3) \<Rightarrow> map_option ((@) out) (vprintf m (tl fmt2) args3))))"
  by pat_completeness auto
termination
proof (relation "measure (\<lambda>(m, fmt, args). length fmt)", goal_cases)
  case (4 m ch fmt args x c y fmt2 args2 z out args3)
  then show ?case using parse_conversion_length [of fmt args c fmt2 args2] by (cases fmt2) auto
qed auto

text \<open>
  \<open>vsnprintf\<close> stores the characters that fit, then the terminator; the result is the whole
  length and the bytes stored.
\<close>

definition vsnprintf :: "memory \<Rightarrow> nat \<Rightarrow> u8 list \<Rightarrow> va_list \<Rightarrow> (nat \<times> u8 list) option" where
  "vsnprintf m buf_size fmt args =
     map_option (\<lambda>out. (length out, if buf_size > 0 then take (buf_size - 1) out @ [0] else [])) (vprintf m fmt args)"

definition snprintf :: "memory \<Rightarrow> nat \<Rightarrow> u8 list \<Rightarrow> va_list \<Rightarrow> (nat \<times> u8 list) option" where
  "snprintf m buf_size fmt args = vsnprintf m buf_size fmt args"

section \<open>Printing in other forms\<close>

definition isprint :: "u8 \<Rightarrow> bool" where
  "isprint c \<longleftrightarrow> 32 \<le> c \<and> c < 127"

fun human_readable :: "u64 \<Rightarrow> string list \<Rightarrow> u64 \<times> string" where
  "human_readable sz [] = (sz, [])"
| "human_readable sz [f] = (sz, f)"
| "human_readable sz (f # g # fs) = (if sz \<ge> 1024 then human_readable (sz div 1024) (g # fs) else (sz, f))"

definition print_human_readable_size :: "memory \<Rightarrow> u64 \<Rightarrow> u8 list option" where
  "print_human_readable_size m sz =
     (if sz = 1 then Some (str8 ''1 byte'')
      else let (v, f) = human_readable sz [''bytes'', ''kB'', ''MB'', ''GB'', ''TB''] in do {
        out \<leftarrow> vprintf m (str8 ''%llu '') [ucast v, ucast (drop_bit 32 v)];
        Some (out @ str8 f) })"

text \<open>One line of \<open>hex_dump\<close> for the bytes \<open>bs\<close>, which start at offset \<open>ofs mod 16\<close> of the line.\<close>

definition hex_line :: "memory \<Rightarrow> u32 \<Rightarrow> u8 list \<Rightarrow> bool \<Rightarrow> u8 list option" where
  "hex_line m ofs bs ascii = do {
     let start = unat (ofs mod 16);
     let finish = start + length bs;
     addr \<leftarrow> vprintf m (str8 ''%08jx  '') [ofs div 16 * 16, 0];
     hex \<leftarrow> those (map (\<lambda>i. vprintf m (str8 ''%02hhx%c'')
              [ucast (bs ! (i - start)), if i = 16 div 2 - 1 then 45 else 32]) [start..<finish]);
     let blank = (\<lambda>n. concat (replicate n (str8 ''   '')));
     let text = (if ascii then
         blank (16 - finish) @ str8 ''|'' @ replicate start 32 @
         map (\<lambda>b. if isprint b then b else chr8 CHR ''.'') bs @ replicate (16 - finish) 32 @ str8 ''|''
       else []);
     Some (addr @ blank start @ concat hex @ text @ [10]) }"

function hex_dump :: "memory \<Rightarrow> u32 \<Rightarrow> u8 list \<Rightarrow> bool \<Rightarrow> u8 list option" where
  "hex_dump m ofs bs ascii =
     (if bs = [] then Some []
      else let n = min (16 - unat (ofs mod 16)) (length bs) in
        case hex_line m ofs (take n bs) ascii of
          None \<Rightarrow> None
        | Some l \<Rightarrow> map_option ((@) l) (hex_dump m (ofs + of_nat n) (drop n bs) ascii))"
  by pat_completeness auto
termination
proof (relation "measure (\<lambda>(m, ofs, bs, ascii). length bs)", goal_cases)
  case (2 m ofs bs ascii n l)
  have "unat (ofs mod 16) < 16" by (simp add: unat_mod)
  then show ?case using 2 by (cases bs) auto
qed simp

section \<open>The digit buffer\<close>

lemma digits_loop_fits:
  assumes "v < 8 ^ k" "8 \<le> base b" "length buf + 2 * k \<le> 64"
  shows "\<exists>r. digits_loop b grp n v buf = Some r \<and> length r \<le> length buf + 2 * k"
  using assms
proof (induction k arbitrary: v buf n)
  case 0
  then show ?case by (simp add: digits_loop.simps)
next
  case (Suc k)
  show ?case
  proof (cases "v = 0")
    case True
    then show ?thesis by (simp add: digits_loop.simps)
  next
    case False
    let ?comma = "grp \<and> n > 0 \<and> n mod group b = 0"
    define buf1 where "buf1 = (if ?comma then buf @ [chr8 CHR '','', digits b ! (v mod base b)] else buf @ [digits b ! (v mod base b)])"
    have "v div base b < 8 ^ k"
    proof -
      have "v div base b \<le> v div 8" using Suc.prems(2) by (intro div_le_mono2) auto
      also have "\<dots> < 8 ^ k" using Suc.prems(1) by (simp add: less_mult_imp_div_less mult.commute)
      finally show ?thesis .
    qed
    moreover have l: "length buf1 + 2 * k \<le> 64" using Suc.prems(3) by (simp add: buf1_def)
    ultimately obtain r where r: "digits_loop b grp (n + 1) (v div base b) buf1 = Some r" "length r \<le> length buf1 + 2 * k"
      using Suc.IH [of "v div base b" buf1 "n + 1"] Suc.prems(2) by blast
    have "digits_loop b grp n v buf = digits_loop b grp (n + 1) (v div base b) buf1"
      using False Suc.prems(2,3) by (subst digits_loop.simps) (auto simp: put_def buf1_def)
    then show ?thesis using r Suc.prems(3) by (auto simp: buf1_def split: if_splits)
  qed
qed

lemma pad_precision_length: "length buf \<le> 63 \<Longrightarrow> length (pad_precision p buf) \<le> 63"
  by (simp add: pad_precision_def)

definition the_bases :: "integer_base set" where
  "the_bases = {base_d, base_o, base_x, base_X}"

text \<open>
  Whatever the flags, width and precision, formatting a 64-bit integer in one of the four
  bases stays inside the 64-byte digit buffer and returns.
\<close>

lemma format_integer_in_bounds:
  assumes "v < 2 ^ 64" "b \<in> the_bases"
  shows "\<exists>out. format_integer v is_signed negative b c = Some out"
proof -
  have b: "8 \<le> base b" using assms(2) by (auto simp: the_bases_def base_d_def base_o_def base_x_def base_X_def)
  have "v < 8 ^ 22" using assms(1) by (simp add: order_less_trans)
  then obtain r where r: "digits_loop b (GROUP c) 0 v [] = Some r" "length r \<le> 44"
    using digits_loop_fits [of v 22 b "[]"] b by auto
  have "length (pad_precision p r) < 64" for p using r(2) pad_precision_length [of r p] by simp
  then have "\<exists>buf. (if Q then put ch (pad_precision p r) else Some (pad_precision p r)) = Some buf" for ch p Q
    by (simp add: put_def)
  then obtain buf where e: "(if POUND c \<and> base b = 8 \<and> (pad_precision (if precision c < 0 then 1 else precision c) r = [] \<or>
      last (pad_precision (if precision c < 0 then 1 else precision c) r) \<noteq> chr8 CHR ''0'')
      then put (chr8 CHR ''0'') (pad_precision (if precision c < 0 then 1 else precision c) r)
      else Some (pad_precision (if precision c < 0 then 1 else precision c) r)) = Some buf" by blast
  show ?thesis unfolding format_integer_def Let_def r(1) Option.bind.bind_lunit e by simp
qed

lemma format_integer_in_bounds_example:
  "\<exists>out. format_integer 18446744073709551615 False False base_o
     \<lparr>MINUS = False, PLUS = False, SPACE = False, POUND = True, ZERO = False, GROUP = True,
      width = 200, precision = 100, ctype = LONGLONG_T\<rparr> = Some out"
  by (rule format_integer_in_bounds) (simp_all add: the_bases_def)

section \<open>Digits\<close>

definition radix_value :: "int \<Rightarrow> int \<Rightarrow> u8 list \<Rightarrow> int" where
  "radix_value B v cs = foldl (\<lambda>v c. v * B + (uint c - 48)) v cs"

lemma digits_value_radix: "digits_value v cs = radix_value 10 v cs"
  by (induction v cs rule: digits_value.induct) (simp_all add: radix_value_def)

definition plain_base :: "integer_base \<Rightarrow> bool" where
  "plain_base b \<longleftrightarrow> 8 \<le> base b \<and> base b \<le> 10 \<and> (\<forall>d<base b. digits b ! d = of_nat (48 + d))"

lemma plain_bases: "plain_base base_d" "plain_base base_o"
  by (auto simp: plain_base_def base_d_def base_o_def less_Suc_eq numeral_eq_Suc)

definition is_numeral :: "integer_base \<Rightarrow> u8 list \<Rightarrow> bool" where
  "is_numeral b cs \<longleftrightarrow> (\<forall>c\<in>set cs. 48 \<le> uint c \<and> uint c < 48 + int (base b))"

lemma digit_char:
  assumes "plain_base b" "d < base b"
  shows "uint (digits b ! d) = 48 + int d"
proof -
  have "digits b ! d = of_nat (48 + d)" "48 + d < 256" using assms by (auto simp: plain_base_def)
  then show ?thesis by (simp add: uint_nat unat_of_nat take_bit_nat_eq_self del: of_nat_add)
qed

lemma digits_loop_value:
  assumes "plain_base b" "v < 8 ^ k" "length buf + 2 * k \<le> 64"
  shows "\<exists>ds. digits_loop b False n v buf = Some (buf @ ds) \<and> radix_value (int (base b)) 0 (rev ds) = int v \<and>
    is_numeral b ds \<and> (ds = [] \<longleftrightarrow> v = 0) \<and> (\<forall>j. v < base b ^ j \<longrightarrow> length ds \<le> j)"
  using assms(2,3)
proof (induction k arbitrary: v buf n)
  case 0
  then show ?case by (simp add: digits_loop.simps is_numeral_def radix_value_def)
next
  case (Suc k)
  have b: "8 \<le> base b" using assms(1) by (simp add: plain_base_def)
  show ?case
  proof (cases "v = 0")
    case True
    then show ?thesis by (simp add: digits_loop.simps is_numeral_def radix_value_def)
  next
    case False
    let ?d = "digits b ! (v mod base b)"
    have "v div base b \<le> v div 8" using b by (intro div_le_mono2) auto
    also have "\<dots> < 8 ^ k" using Suc.prems(1) by (simp add: less_mult_imp_div_less mult.commute)
    finally obtain ds where ds: "digits_loop b False (n + 1) (v div base b) (buf @ [?d]) = Some (buf @ [?d] @ ds)"
      "radix_value (int (base b)) 0 (rev ds) = int (v div base b)" "is_numeral b ds" "ds = [] \<longleftrightarrow> v div base b = 0"
      "\<forall>j. v div base b < base b ^ j \<longrightarrow> length ds \<le> j"
      using Suc.IH [of "v div base b" "buf @ [?d]" "n + 1"] Suc.prems(2) by auto
    have u: "uint ?d = 48 + int (v mod base b)" using b by (intro digit_char [OF assms(1)]) simp
    have "digits_loop b False n v buf = Some (buf @ ?d # ds)"
      using False b ds(1) Suc.prems(2) by (subst digits_loop.simps) (simp add: put_def)
    moreover have "radix_value (int (base b)) 0 (rev (?d # ds)) = int v"
    proof -
      have "radix_value (int (base b)) 0 (rev (?d # ds)) = int (v div base b) * int (base b) + int (v mod base b)"
        using ds(2) u by (simp add: radix_value_def)
      also have "\<dots> = int v" by (metis div_mult_mod_eq of_nat_add of_nat_mult)
      finally show ?thesis .
    qed
    moreover have "is_numeral b (?d # ds)" using ds(3) u b by (simp add: is_numeral_def zmod_int [symmetric])
    moreover have "length (?d # ds) \<le> j" if "v < base b ^ j" for j
    proof (cases j)
      case (Suc i)
      then have "v div base b < base b ^ i" using that by (simp add: less_mult_imp_div_less mult.commute)
      then show ?thesis using ds(5) Suc by simp
    qed (use that False in simp)
    ultimately show ?thesis using False by blast
  qed
qed

definition plain_conversion :: "bool \<Rightarrow> int \<Rightarrow> printf_conversion" where
  "plain_conversion z w = \<lparr>MINUS = False, PLUS = False, SPACE = False, POUND = False, ZERO = z, GROUP = False,
      width = w, precision = - 1, ctype = INT_T\<rparr>"

text \<open>Without flags other than \<open>0\<close>, an integer is its sign and its digits, padded on the left.\<close>

lemma format_integer_plain:
  assumes "plain_base b" "v < 2 ^ 64"
  shows "\<exists>ds. radix_value (int (base b)) 0 ds = int v \<and> is_numeral b ds \<and> ds \<noteq> [] \<and>
    (\<forall>j. 0 < j \<and> v < base b ^ j \<longrightarrow> length ds \<le> j) \<and>
    (\<forall>z w neg. format_integer v True neg b (plain_conversion z w) =
      Some (replicate (nat (if z then 0 else w - int (length ds) - (if neg then 1 else 0))) 32 @ (if neg then [45] else []) @
        replicate (nat (if z then w - int (length ds) - (if neg then 1 else 0) else 0)) 48 @ ds)) \<and>
    (\<forall>z w neg. format_integer v False neg b (plain_conversion z w) =
      Some (replicate (nat (if z then 0 else w - int (length ds))) 32 @ replicate (nat (if z then w - int (length ds) else 0)) 48 @ ds))"
proof -
  have "v < 8 ^ 22" using assms(2) by (simp add: order_less_trans)
  then obtain rs where rs: "digits_loop b False 0 v [] = Some rs" "radix_value (int (base b)) 0 (rev rs) = int v"
    "is_numeral b rs" "rs = [] \<longleftrightarrow> v = 0" "\<forall>j. v < base b ^ j \<longrightarrow> length rs \<le> j"
    using digits_loop_value [OF assms(1), of v 22 "[]" 0] by auto
  define ds where "ds = (if rs = [] then [48] else rev rs)"
  have p: "rev (pad_precision 1 rs) = ds" and l: "length (pad_precision 1 rs) = length ds"
    by (auto simp: pad_precision_def ds_def Suc_le_eq)
  have "radix_value (int (base b)) 0 ds = int v" using rs by (auto simp: ds_def radix_value_def)
  moreover have "is_numeral b ds" using rs(3) assms(1) by (auto simp: ds_def is_numeral_def plain_base_def)
  moreover have "0 < j \<and> v < base b ^ j \<longrightarrow> length ds \<le> j" for j using rs(5) by (auto simp: ds_def)
  moreover have "ds \<noteq> []" by (simp add: ds_def)
  ultimately show ?thesis
    by (intro exI [of _ ds]) (simp add: format_integer_def Let_def plain_conversion_def rs(1) p l output_dup_def)
qed

lemma parse_d: "parse_conversion (str8 ''d'') args = Some (plain_conversion False 0, str8 ''d'', args)"
  by (simp add: parse_conversion_def settle_flags_def parse_star_def parse_type_def plain_conversion_def isdigit_def Let_def
    word_le_nat_alt)

text \<open>
  C28: Printing a signed 32-bit integer with \<open>%d\<close> and reading the characters back with \<open>atoi\<close>
  gives the same integer.
\<close>

theorem print_atoi_roundtrip:
  "\<exists>out. vprintf m (str8 ''%d'') [w] = Some out \<and> atoi out = w"
proof -
  let ?v = "nat \<bar>sint w\<bar>"
  have bnd: "?v < 2 ^ 64" using sint_greater_eq [of w] sint_less [of w] by simp
  obtain ds where ds: "radix_value 10 0 ds = int ?v" "is_numeral base_d ds" "ds \<noteq> []"
    "\<forall>z w neg. format_integer ?v True neg base_d (plain_conversion z w) =
      Some (replicate (nat (if z then 0 else w - int (length ds) - (if neg then 1 else 0))) 32 @ (if neg then [45] else []) @
        replicate (nat (if z then w - int (length ds) - (if neg then 1 else 0) else 0)) 48 @ ds)"
    using format_integer_plain [OF plain_bases(1) bnd] by (auto simp: base_d_def)
  have dig: "\<forall>c\<in>set ds. isdigit c"
    using ds(2) by (auto simp: is_numeral_def base_d_def isdigit_def word_le_def)
  have "vprintf m (str8 ''%d'') [w] = Some ((if sint w < 0 then [45] else []) @ ds)"
    using parse_d [of "[w]"] ds(3,4) by (simp add: do_conversion_def plain_conversion_def)
  moreover have "atoi ((if sint w < 0 then [45] else []) @ ds) = w"
  proof -
    have "atoi ds = of_int (int ?v)" "atoi (45 # ds) = of_int (- int ?v)"
      using atoi_digits [of "[]" ds "[]"] dig ds(1,3) by (simp_all add: digits_value_radix)
    then show ?thesis by (cases "sint w < 0") simp_all
  qed
  ultimately show ?thesis by blast
qed

text \<open>
  A format that ends in a lone \<open>%\<close> makes the interpreter read on behind the terminator: the
  conversion character it looks at is the terminator, and the loop then steps over it.
\<close>

lemma vprintf_trailing_percent:
  assumes "chr8 CHR ''%'' \<notin> set pre"
  shows "vprintf m (pre @ [chr8 CHR ''%'']) args = None"
  using assms
proof (induction pre)
  case Nil
  then show ?case by (simp add: parse_conversion_def parse_star_def parse_type_def Let_def)
qed simp

lemma vprintf_trailing_percent_example: "vprintf (\<lambda>_. 0) (str8 ''100'' @ [chr8 CHR ''%'']) [] = None"
  by (rule vprintf_trailing_percent) simp

end
