(* ===== verification/Ustar.thy ===== *)
theory Ustar
  imports Kstdio
begin

text \<open>
  Archive headers in ustar format (\<open>lib/ustar.c\<close>). A C string is the list of its characters
  without the terminator, a header the list of its 512 bytes. A header that has been composed is
  parsed back to the name, type and size it was made from.
\<close>

section \<open>Composing\<close>

datatype ustar_type = USTAR_REGULAR | USTAR_DIRECTORY | USTAR_EOF

fun type_byte :: "ustar_type \<Rightarrow> u8" where
  "type_byte USTAR_REGULAR = chr8 CHR ''0''"
| "type_byte USTAR_DIRECTORY = chr8 CHR ''5''"
| "type_byte USTAR_EOF = - 1"

record ustar_header =
  h_name :: "u8 list"
  h_mode :: "u8 list"
  h_uid :: "u8 list"
  h_gid :: "u8 list"
  h_size :: "u8 list"
  h_mtime :: "u8 list"
  h_chksum :: "u8 list"
  h_typeflag :: u8
  h_linkname :: "u8 list"
  h_magic :: "u8 list"
  h_version :: "u8 list"
  h_uname :: "u8 list"
  h_gname :: "u8 list"
  h_devmajor :: "u8 list"
  h_devminor :: "u8 list"
  h_prefix :: "u8 list"
  h_padding :: "u8 list"

definition zero_header :: ustar_header where
  "zero_header =
     \<lparr>h_name = replicate 100 0, h_mode = replicate 8 0, h_uid = replicate 8 0, h_gid = replicate 8 0,
      h_size = replicate 12 0, h_mtime = replicate 12 0, h_chksum = replicate 8 0, h_typeflag = 0,
      h_linkname = replicate 100 0, h_magic = replicate 6 0, h_version = replicate 2 0,
      h_uname = replicate 32 0, h_gname = replicate 32 0, h_devmajor = replicate 8 0,
      h_devminor = replicate 8 0, h_prefix = replicate 155 0, h_padding = replicate 12 0\<rparr>"

definition header_bytes :: "ustar_header \<Rightarrow> u8 list" where
  "header_bytes h =
     h_name h @ h_mode h @ h_uid h @ h_gid h @ h_size h @ h_mtime h @ h_chksum h @ [h_typeflag h] @
     h_linkname h @ h_magic h @ h_version h @ h_uname h @ h_gname h @ h_devmajor h @ h_devminor h @
     h_prefix h @ h_padding h"

text \<open>The layout the other way round.\<close>

definition parse_bytes :: "u8 list \<Rightarrow> ustar_header" where
  "parse_bytes bs =
     \<lparr>h_name = take 100 bs, h_mode = take 8 (drop 100 bs), h_uid = take 8 (drop 108 bs),
      h_gid = take 8 (drop 116 bs), h_size = take 12 (drop 124 bs), h_mtime = take 12 (drop 136 bs),
      h_chksum = take 8 (drop 148 bs), h_typeflag = bs ! 156, h_linkname = take 100 (drop 157 bs),
      h_magic = take 6 (drop 257 bs), h_version = take 2 (drop 263 bs), h_uname = take 32 (drop 265 bs),
      h_gname = take 32 (drop 297 bs), h_devmajor = take 8 (drop 329 bs), h_devminor = take 8 (drop 337 bs),
      h_prefix = take 155 (drop 345 bs), h_padding = drop 500 bs\<rparr>"

text \<open>The checksum counts its own field, bytes 148 to 155, as spaces.\<close>

definition calculate_chksum :: "u8 list \<Rightarrow> u32" where
  "calculate_chksum header =
     fold (\<lambda>i chksum. chksum + (if 148 \<le> i \<and> i < 156 then 32 else ucast (header ! i))) [0..<512] 0"

function strip_prefixes :: "u8 list \<Rightarrow> u8 list" where
  "strip_prefixes s =
     (if s \<noteq> [] \<and> (hd s = chr8 CHR ''/'' \<or> take 2 s = str8 ''./'' \<or> take 3 s = str8 ''../'')
      then strip_prefixes (tl (dropWhile (\<lambda>c. c \<noteq> chr8 CHR ''/'') s))
      else s)"
  by pat_completeness auto
termination
proof (relation "measure length", goal_cases)
  case (2 s)
  then show ?case using length_dropWhile_le [of "\<lambda>c. c \<noteq> chr8 CHR ''/''" s] by (cases s) auto
qed simp

declare strip_prefixes.simps [simp del]

definition strip_antisocial_prefixes :: "u8 list \<Rightarrow> u8 list" where
  "strip_antisocial_prefixes file_name =
     (let s = strip_prefixes file_name in if s = [] \<or> s = str8 ''..'' then str8 ''.'' else s)"

text \<open>\<open>strlcpy\<close> into a field; the rest of the field keeps its contents.\<close>

definition into_field :: "u8 list \<Rightarrow> u8 list \<Rightarrow> u8 list" where
  "into_field s field =
     (let n = min (length s) (length field - 1) in take n s @ [0] @ drop (n + 1) field)"

text \<open>\<open>snprintf\<close> of one number into a field.\<close>

definition printf_field :: "string \<Rightarrow> u32 \<Rightarrow> u8 list \<Rightarrow> u8 list option" where
  "printf_field fmt v field =
     map_option (\<lambda>(_, out). out @ drop (length out) field) (snprintf (\<lambda>_. 0) (length field) (str8 fmt) [v])"

text \<open>The outer option is the assertion on \<open>type\<close>, the inner one the result \<open>false\<close>.\<close>

definition ustar_make_header :: "u8 list \<Rightarrow> ustar_type \<Rightarrow> int \<Rightarrow> u8 list option option" where
  "ustar_make_header file_name type sz = do {
     kassert (type = USTAR_REGULAR \<or> type = USTAR_DIRECTORY);
     let file_name = strip_antisocial_prefixes file_name;
     if length file_name > 99 then Some None
     else do {
       let h = zero_header\<lparr>h_name := into_field file_name (h_name zero_header)\<rparr>;
       mode \<leftarrow> printf_field ''%07o'' (if type = USTAR_REGULAR then 420 else 493) (h_mode h);
       sizef \<leftarrow> printf_field ''%011o'' (of_int sz) (h_size h);
       mtime \<leftarrow> printf_field ''%011o'' 1136102400 (h_mtime h);
       let h = h\<lparr>h_mode := mode, h_uid := into_field (str8 ''0000000'') (h_uid h),
                 h_gid := into_field (str8 ''0000000'') (h_gid h), h_size := sizef, h_mtime := mtime,
                 h_typeflag := type_byte type, h_magic := into_field (str8 ''ustar'') (h_magic h),
                 h_version := str8 ''00'', h_gname := into_field (str8 ''root'') (h_gname h),
                 h_uname := into_field (str8 ''root'') (h_uname h)\<rparr>;
       chksum \<leftarrow> printf_field ''%07o'' (calculate_chksum (header_bytes h)) (h_chksum h);
       Some (Some (header_bytes (h\<lparr>h_chksum := chksum\<rparr>))) } }"

section \<open>Parsing\<close>

text \<open>\<open>ofs\<close> counts the characters before \<open>cs\<close>; \<open>ULONG_MAX / 8\<close> is 536870911.\<close>

fun parse_octal_loop :: "nat \<Rightarrow> u8 list \<Rightarrow> nat \<Rightarrow> nat option" where
  "parse_octal_loop ofs [] v = None"
| "parse_octal_loop ofs (c # cs) v =
     (if chr8 CHR ''0'' \<le> c \<and> c \<le> chr8 CHR ''7'' then
        (if v > 536870911 then None else parse_octal_loop (ofs + 1) cs (unat c - 48 + v * 8))
      else if c = chr8 CHR '' '' \<or> c = 0 then (if ofs > 0 then Some v else None)
      else None)"

definition parse_octal_field :: "u8 list \<Rightarrow> nat option" where
  "parse_octal_field s = parse_octal_loop 0 s 0"

definition is_all_zeros :: "u8 list \<Rightarrow> bool" where
  "is_all_zeros block = list_all (\<lambda>b. b = 0) block"

definition ustar_parse_header :: "u8 list \<Rightarrow> string + (u8 list option \<times> ustar_type \<times> int)" where
  "ustar_parse_header header =
     (if is_all_zeros header then Inr (None, USTAR_EOF, 0)
      else
        let h = parse_bytes header in
        if h_magic h \<noteq> str8 ''ustar'' @ [0] then Inl ''not a ustar archive''
        else if h_version h ! 0 \<noteq> chr8 CHR ''0'' \<or> h_version h ! 1 \<noteq> chr8 CHR ''0'' then Inl ''invalid ustar version''
        else case parse_octal_field (h_chksum h) of
          None \<Rightarrow> Inl ''corrupt chksum field''
        | Some chksum \<Rightarrow>
            if of_nat chksum \<noteq> calculate_chksum header then Inl ''checksum mismatch''
            else if h_name h ! 99 \<noteq> 0 \<or> h_prefix h ! 0 \<noteq> 0 then Inl ''file name too long''
            else if h_typeflag h \<noteq> type_byte USTAR_REGULAR \<and> h_typeflag h \<noteq> type_byte USTAR_DIRECTORY
            then Inl ''unimplemented file type''
            else
              let name = strip_antisocial_prefixes (takeWhile (\<lambda>c. c \<noteq> 0) (h_name h)) in
              if h_typeflag h = type_byte USTAR_REGULAR then
                (case parse_octal_field (h_size h) of
                   None \<Rightarrow> Inl ''corrupt file size field''
                 | Some size_ul \<Rightarrow>
                     if size_ul > 2147483647 then Inl ''file too large''
                     else Inr (Some name, USTAR_REGULAR, int size_ul))
              else Inr (Some name, USTAR_DIRECTORY, 0))"

section \<open>Octal fields\<close>

definition octal :: "u8 list \<Rightarrow> bool" where
  "octal cs \<longleftrightarrow> is_numeral base_o cs"

lemma radix_value_ge:
  assumes "octal cs" "0 \<le> v"
  shows "v * 8 ^ length cs \<le> radix_value 8 v cs"
  using assms
proof (induction cs arbitrary: v)
  case (Cons c cs)
  have c: "48 \<le> uint c" "octal cs" using Cons.prems(1) by (auto simp: octal_def is_numeral_def)
  then have "(v * 8 + (uint c - 48)) * 8 ^ length cs \<le> radix_value 8 (v * 8 + (uint c - 48)) cs"
    using Cons.prems(2) by (intro Cons.IH) auto
  moreover have "v * 8 * 8 ^ length cs \<le> (v * 8 + (uint c - 48)) * 8 ^ length cs"
    using c by (intro mult_right_mono) auto
  ultimately have "v * 8 * 8 ^ length cs \<le> radix_value 8 (v * 8 + (uint c - 48)) cs" by (rule order_trans [rotated])
  then show ?case by (simp add: radix_value_def mult.assoc)
qed (simp add: radix_value_def)

lemma parse_octal_loop_digits:
  assumes "octal ds" "radix_value 8 (int v) ds < 2 ^ 32" "0 < ofs + length ds"
  shows "parse_octal_loop ofs (ds @ 0 # rest) v = Some (nat (radix_value 8 (int v) ds))"
  using assms
proof (induction ds arbitrary: v ofs)
  case Nil
  then show ?case by (simp add: radix_value_def word_le_nat_alt)
next
  case (Cons c ds)
  have c: "48 \<le> uint c" "uint c < 56" and ds: "octal ds"
    using Cons.prems(1) by (auto simp: octal_def is_numeral_def base_o_def)
  have dig: "48 \<le> c \<and> c \<le> 55" using c by (simp add: word_le_def)
  have "int v * 8 ^ length (c # ds) < 2 ^ 32"
    using radix_value_ge [OF Cons.prems(1), of "int v"] Cons.prems(2) by simp
  moreover have "int v * 8 \<le> int v * 8 ^ length (c # ds)" by (intro mult_left_mono) simp_all
  ultimately have v: "v \<le> 536870911" by simp
  have "int 48 \<le> int (unat c)" using c by simp
  then have "48 \<le> unat c" by (simp only: of_nat_le_iff)
  then have e: "int (unat c - 48 + v * 8) = int v * 8 + (uint c - 48)" by (simp add: of_nat_diff)
  have r: "radix_value 8 (int v) (c # ds) = radix_value 8 (int (unat c - 48 + v * 8)) ds"
    by (simp only: e radix_value_def foldl.simps)
  have "parse_octal_loop (ofs + 1) (ds @ 0 # rest) (unat c - 48 + v * 8) =
      Some (nat (radix_value 8 (int (unat c - 48 + v * 8)) ds))"
    using Cons.prems(2) ds r by (intro Cons.IH) simp_all
  then show ?case using dig v r by simp
qed

lemma octal_replicate: "radix_value 8 0 (replicate n 48 @ ds) = radix_value 8 0 ds"
  by (induction n) (simp_all add: radix_value_def)

lemma parse_07o: "parse_conversion (str8 ''07o'') args = Some (plain_conversion True 7, str8 ''o'', args)"
  by (simp add: parse_conversion_def settle_flags_def parse_star_def parse_type_def plain_conversion_def isdigit_def Let_def
    word_le_nat_alt)

lemma parse_011o: "parse_conversion (str8 ''011o'') args = Some (plain_conversion True 11, str8 ''o'', args)"
  by (simp add: parse_conversion_def settle_flags_def parse_star_def parse_type_def plain_conversion_def isdigit_def Let_def
    word_le_nat_alt)

lemma printf_octal:
  assumes "unat v < 8 ^ w" "0 < w" "w < 22"
    and "parse_conversion fmt [v] = Some (plain_conversion True (int w), str8 ''o'', [v])" "fmt \<noteq> []" "hd fmt \<noteq> chr8 CHR ''%''"
  shows "\<exists>ds. vprintf m (chr8 CHR ''%'' # fmt) [v] = Some ds \<and> length ds = w \<and> octal ds \<and> radix_value 8 0 ds = int (unat v)"
proof -
  have "unat v < 2 ^ LENGTH(32)" by (rule unsigned_less)
  then have "unat v < 2 ^ 64" by simp
  then obtain ds where ds: "radix_value 8 0 ds = int (unat v)" "is_numeral base_o ds" "ds \<noteq> []"
    "\<forall>j. 0 < j \<and> unat v < 8 ^ j \<longrightarrow> length ds \<le> j"
    "\<forall>z w neg. format_integer (unat v) False neg base_o (plain_conversion z w) =
      Some (replicate (nat (if z then 0 else w - int (length ds))) 32 @ replicate (nat (if z then w - int (length ds) else 0)) 48 @ ds)"
    using format_integer_plain [OF plain_bases(2), of "unat v"] by (auto simp: base_o_def)
  have l: "length ds \<le> w" using ds(4) assms(1,2) by blast
  let ?out = "replicate (w - length ds) 48 @ ds"
  have f: "format_integer (unat v) False False base_o (plain_conversion True (int w)) = Some ?out"
    using ds(5) l by (simp add: nat_diff_distrib)
  have "do_conversion m (chr8 CHR ''o'') (plain_conversion True (int w)) [v] = Some (?out, [])"
    using f by (simp add: do_conversion_def plain_conversion_def)
  then have "vprintf m (chr8 CHR ''%'' # fmt) [v] = Some ?out"
    using assms(4-6) by simp
  moreover have "octal ?out" using ds(2) by (auto simp: octal_def is_numeral_def base_o_def)
  ultimately show ?thesis using l ds(1) octal_replicate by auto
qed

lemma printf_field_octal:
  assumes "\<exists>ds. vprintf (\<lambda>_. 0) (str8 fmt) [v] = Some ds \<and> length ds = w \<and> octal ds \<and> radix_value 8 0 ds = int (unat v)"
    "length field = Suc w"
  shows "\<exists>ds. printf_field fmt v field = Some (ds @ [0]) \<and> length ds = w \<and> octal ds \<and> radix_value 8 0 ds = int (unat v)"
  using assms by (auto simp: printf_field_def snprintf_def vsnprintf_def)

lemma field_07o:
  assumes "unat v < 8 ^ 7" "length field = 8"
  shows "\<exists>ds. printf_field ''%07o'' v field = Some (ds @ [0]) \<and> length ds = 7 \<and> octal ds \<and> radix_value 8 0 ds = int (unat v)"
  using printf_octal [of v 7 "str8 ''07o''" "\<lambda>_. 0"] parse_07o assms by (intro printf_field_octal) simp_all

lemma field_011o:
  assumes "length field = 12"
  shows "\<exists>ds. printf_field ''%011o'' v field = Some (ds @ [0]) \<and> length ds = 11 \<and> octal ds \<and> radix_value 8 0 ds = int (unat v)"
proof -
  have "unat v < 2 ^ LENGTH(32)" by (rule unsigned_less)
  then have "unat v < 8 ^ 11" by simp
  then show ?thesis
    using printf_octal [of v 11 "str8 ''011o''" "\<lambda>_. 0"] parse_011o assms by (intro printf_field_octal) simp_all
qed

lemma parse_octal_field_digits:
  assumes "octal ds" "ds \<noteq> []" "radix_value 8 0 ds = int (unat (v :: u32))"
  shows "parse_octal_field (ds @ [0]) = Some (unat v)"
proof -
  have "uint v < 2 ^ LENGTH(32)" by (rule unsigned_less)
  then show ?thesis using parse_octal_loop_digits [of ds 0 0 "[]"] assms by (simp add: parse_octal_field_def)
qed

section \<open>The layout\<close>

definition well_sized :: "ustar_header \<Rightarrow> bool" where
  "well_sized h \<longleftrightarrow>
     length (h_name h) = 100 \<and> length (h_mode h) = 8 \<and> length (h_uid h) = 8 \<and> length (h_gid h) = 8 \<and>
     length (h_size h) = 12 \<and> length (h_mtime h) = 12 \<and> length (h_chksum h) = 8 \<and> length (h_linkname h) = 100 \<and>
     length (h_magic h) = 6 \<and> length (h_version h) = 2 \<and> length (h_uname h) = 32 \<and> length (h_gname h) = 32 \<and>
     length (h_devmajor h) = 8 \<and> length (h_devminor h) = 8 \<and> length (h_prefix h) = 155 \<and> length (h_padding h) = 12"

lemma parse_header_bytes: "well_sized h \<Longrightarrow> parse_bytes (header_bytes h) = h"
  by (cases h) (simp add: well_sized_def parse_bytes_def header_bytes_def nth_append)

lemma header_bytes_length: "well_sized h \<Longrightarrow> length (header_bytes h) = 512"
  by (simp add: well_sized_def header_bytes_def)

lemma chksum_field_ignored:
  assumes "well_sized h" "length c = 8"
  shows "calculate_chksum (header_bytes (h\<lparr>h_chksum := c\<rparr>)) = calculate_chksum (header_bytes h)"
proof -
  have "header_bytes (h\<lparr>h_chksum := c\<rparr>) ! i = header_bytes h ! i" if "\<not> (148 \<le> i \<and> i < 156)" for i
    using that assms by (auto simp: well_sized_def header_bytes_def nth_append)
  then show ?thesis unfolding calculate_chksum_def by (intro fold_cong) (auto simp: fun_eq_iff)
qed

lemma chksum_bound: "unat (calculate_chksum bs) < 8 ^ 7"
proof -
  have "\<exists>n. fold (\<lambda>i chksum. chksum + (if 148 \<le> i \<and> i < 156 then 32 else ucast (bs ! i))) xs (of_nat a :: u32) = of_nat n \<and>
      n \<le> a + 255 * length xs" for xs a
  proof (induction xs arbitrary: a)
    case (Cons i xs)
    define d where "d = (if 148 \<le> i \<and> i < 156 then 32 else unat (bs ! i))"
    have "unat (bs ! i) < 2 ^ LENGTH(8)" by (rule unsigned_less)
    then have d: "d \<le> 255" by (simp add: d_def)
    have "of_nat a + (if 148 \<le> i \<and> i < 156 then 32 else ucast (bs ! i)) = (of_nat (a + d) :: u32)"
      by (simp add: d_def)
    then show ?case using Cons.IH [of "a + d"] d by (auto intro: order_trans)
  qed auto
  from this [of "[0..<512]" 0] obtain n where n: "calculate_chksum bs = of_nat n" "n \<le> 130560"
    by (auto simp: calculate_chksum_def)
  then have "unat (of_nat n :: u32) = n" by (intro unat_of_nat_u32) simp
  then show ?thesis using n by simp
qed

lemma strip_prefixes_fixed:
  "\<not> (strip_prefixes s \<noteq> [] \<and> (hd (strip_prefixes s) = chr8 CHR ''/'' \<or> take 2 (strip_prefixes s) = str8 ''./'' \<or>
     take 3 (strip_prefixes s) = str8 ''../''))"
proof (induction s rule: strip_prefixes.induct)
  case (1 s)
  then show ?case by (cases "s \<noteq> [] \<and> (hd s = chr8 CHR ''/'' \<or> take 2 s = str8 ''./'' \<or> take 3 s = str8 ''../'')")
    (simp_all add: strip_prefixes.simps [of s])
qed

lemma strip_idem: "strip_antisocial_prefixes (strip_antisocial_prefixes s) = strip_antisocial_prefixes s"
proof -
  have "strip_prefixes (strip_prefixes s) = strip_prefixes s"
    using strip_prefixes_fixed [of s] by (subst strip_prefixes.simps) auto
  moreover have "strip_prefixes (str8 ''.'') = str8 ''.''" by (subst strip_prefixes.simps) simp
  ultimately show ?thesis by (simp add: strip_antisocial_prefixes_def Let_def)
qed

lemma strip_prefixes_subset: "set (strip_prefixes s) \<subseteq> set s"
proof (induction s rule: strip_prefixes.induct)
  case (1 s)
  have "set (tl xs) \<subseteq> set xs" for xs :: "u8 list" by (cases xs) auto
  then have "set (tl (dropWhile P s)) \<subseteq> set s" for P using set_dropWhileD by fastforce
  then show ?case using 1 by (subst strip_prefixes.simps) auto
qed

lemma strip_no_null: "0 \<notin> set s \<Longrightarrow> 0 \<notin> set (strip_antisocial_prefixes s)"
  using strip_prefixes_subset [of s] by (auto simp: strip_antisocial_prefixes_def Let_def)

lemma into_field_name:
  assumes "length s \<le> 99" "0 \<notin> set s"
  shows "length (into_field s (replicate 100 0)) = 100" "into_field s (replicate 100 0) ! 99 = 0"
    "takeWhile (\<lambda>c. c \<noteq> 0) (into_field s (replicate 100 0)) = s"
proof -
  have e: "into_field s (replicate 100 0) = s @ replicate (100 - length s) 0"
  proof -
    have "100 - length s = Suc (99 - length s)" using assms(1) by simp
    then show ?thesis using assms(1) by (simp add: into_field_def Let_def)
  qed
  show "length (into_field s (replicate 100 0)) = 100" "into_field s (replicate 100 0) ! 99 = 0"
    using assms(1) by (simp_all add: e nth_append)
  show "takeWhile (\<lambda>c. c \<noteq> 0) (into_field s (replicate 100 0)) = s"
  proof -
    have "takeWhile (\<lambda>c. c \<noteq> 0) (replicate n 0 :: u8 list) = []" for n by (cases n) simp_all
    then show ?thesis unfolding e by (subst takeWhile_append2) (use assms(2) in auto)
  qed
qed

text \<open>
  C29: A header composed for a regular file or directory parses back without error to the
  stripped name, the type and, for a file, the size. Composing refuses only names of more than
  99 characters.
\<close>

theorem ustar_roundtrip:
  assumes "0 \<notin> set name" "type = USTAR_REGULAR \<or> type = USTAR_DIRECTORY" "0 \<le> sz" "sz < 2 ^ 31"
    "length (strip_antisocial_prefixes name) \<le> 99"
  shows "\<exists>header. ustar_make_header name type sz = Some (Some header) \<and> length header = 512 \<and>
    ustar_parse_header header =
      Inr (Some (strip_antisocial_prefixes name), type, if type = USTAR_REGULAR then sz else 0)"
proof -
  let ?n = "strip_antisocial_prefixes name"
  have n: "0 \<notin> set ?n" using strip_no_null assms(1) by blast
  note name = into_field_name [OF assms(5) n]
  have "unat (if type = USTAR_REGULAR then 420 else 493 :: u32) < 8 ^ 7" by simp
  then obtain mode where mode: "printf_field ''%07o'' (if type = USTAR_REGULAR then 420 else 493) (replicate 8 0) = Some (mode @ [0])"
    "length mode = 7" using field_07o [of "if type = USTAR_REGULAR then 420 else 493" "replicate 8 0"] by auto
  obtain size where size: "printf_field ''%011o'' (of_int sz) (replicate 12 0) = Some (size @ [0])" "length size = 11"
    "octal size" "radix_value 8 0 size = int (unat (of_int sz :: u32))" using field_011o [of "replicate 12 0" "of_int sz"] by auto
  obtain mtime where mtime: "printf_field ''%011o'' 1136102400 (replicate 12 0) = Some (mtime @ [0])" "length mtime = 11"
    using field_011o [of "replicate 12 0" 1136102400] by auto
  define h where "h = zero_header\<lparr>h_name := into_field ?n (replicate 100 0), h_mode := mode @ [0],
    h_uid := into_field (str8 ''0000000'') (replicate 8 0), h_gid := into_field (str8 ''0000000'') (replicate 8 0),
    h_size := size @ [0], h_mtime := mtime @ [0], h_typeflag := type_byte type,
    h_magic := into_field (str8 ''ustar'') (replicate 6 0), h_version := str8 ''00'',
    h_gname := into_field (str8 ''root'') (replicate 32 0), h_uname := into_field (str8 ''root'') (replicate 32 0)\<rparr>"
  let ?sum = "calculate_chksum (header_bytes h)"
  obtain ck where ck: "printf_field ''%07o'' ?sum (replicate 8 0) = Some (ck @ [0])" "length ck = 7" "octal ck"
    "radix_value 8 0 ck = int (unat ?sum)" using field_07o [OF chksum_bound, of "replicate 8 0"] by auto
  define g where "g = h\<lparr>h_chksum := ck @ [0]\<rparr>"
  have fl: "length (into_field s f) = length f" if "length s < length f" for s f
    using that by (simp add: into_field_def Let_def)
  have ws: "well_sized h" using name(1) mode(2) size(2) mtime(2)
    by (simp add: well_sized_def h_def zero_header_def fl)
  then have wg: "well_sized g" using ck(2) by (simp add: well_sized_def g_def)
  have make: "ustar_make_header name type sz = Some (Some (header_bytes g))"
    using assms(2,5) mode(1) size(1) mtime(1) ck(1)
    by (simp add: ustar_make_header_def Let_def zero_header_def h_def g_def)
  have sum: "calculate_chksum (header_bytes g) = ?sum" using chksum_field_ignored [OF ws] ck(2) by (simp add: g_def)
  have parts: "h_magic g = str8 ''ustar'' @ [0]" "h_version g = str8 ''00''" "h_chksum g = ck @ [0]" "h_size g = size @ [0]"
    "h_name g = into_field ?n (replicate 100 0)" "h_prefix g ! 0 = 0" "h_typeflag g = type_byte type"
    by (simp_all add: g_def h_def zero_header_def into_field_def)
  have pc: "parse_octal_field (ck @ [0]) = Some (unat ?sum)" using ck by (intro parse_octal_field_digits) auto
  have ps: "parse_octal_field (size @ [0]) = Some (unat (of_int sz :: u32))" using size by (intro parse_octal_field_digits) auto
  have sz: "unat (of_int sz :: u32) = nat sz" using assms(3,4)
    by (simp only: unat_eq_nat_uint uint_word_of_int_eq take_bit_int_eq_self) (simp add: take_bit_int_eq_self)
  have nz: "\<not> is_all_zeros (header_bytes g)"
    using assms(2) parts(7) by (auto simp: is_all_zeros_def header_bytes_def list_all_iff)
  have "ustar_parse_header (header_bytes g) =
      Inr (Some ?n, type, if type = USTAR_REGULAR then sz else 0)"
    using nz assms(2-4) sum pc ps sz name strip_idem [of name]
    by (auto simp: ustar_parse_header_def Let_def parse_header_bytes [OF wg] parts)
  then show ?thesis using make header_bytes_length [OF wg] by blast
qed

theorem ustar_roundtrip_witness:
  "\<exists>header. ustar_make_header (str8 ''/bin/sh'') USTAR_REGULAR 100 = Some (Some header) \<and>
    ustar_parse_header header = Inr (Some (str8 ''bin/sh''), USTAR_REGULAR, 100)"
proof -
  have "strip_prefixes [98, 105, 110, 47, 115, 104] = [98, 105, 110, 47, 115, 104]"
    by (subst strip_prefixes.simps) simp
  then have "strip_prefixes [47, 98, 105, 110, 47, 115, 104] = [98, 105, 110, 47, 115, 104]"
    by (subst strip_prefixes.simps) simp
  then have s: "strip_antisocial_prefixes (str8 ''/bin/sh'') = str8 ''bin/sh''"
    by (simp add: strip_antisocial_prefixes_def)
  then show ?thesis using ustar_roundtrip [of "str8 ''/bin/sh''" USTAR_REGULAR 100] by auto
qed

end
