(* ===== verification/Block.thy ===== *)
theory Block
  imports Stdlib
begin

text \<open>
  Block devices (\<open>devices/block.c\<close>) as the file system uses them: a device has a type, a size
  in sectors and counts its transfers. The driver behind \<open>ops\<close> is represented by the contents
  of the device, one list of bytes per sector: a write is seen by the reads that follow it.
\<close>

abbreviation (input) BLOCK_SECTOR_SIZE :: nat where "BLOCK_SECTOR_SIZE \<equiv> 512"

type_synonym block_sector_t = u32

datatype block_type =
  BLOCK_KERNEL | BLOCK_FILESYS | BLOCK_SCRATCH | BLOCK_SWAP | BLOCK_RAW | BLOCK_FOREIGN

record block =
  btype :: block_type
  bsize :: block_sector_t
  read_cnt :: u64
  write_cnt :: u64
  contents :: "block_sector_t \<Rightarrow> bytes"

definition check_sector :: "block \<Rightarrow> block_sector_t \<Rightarrow> unit option" where
  "check_sector b s = kassert (s < bsize b)"

definition block_read :: "block \<Rightarrow> block_sector_t \<Rightarrow> (bytes \<times> block) option" where
  "block_read b s = do {
     check_sector b s;
     Some (contents b s, b\<lparr>read_cnt := read_cnt b + 1\<rparr>) }"

definition block_write :: "block \<Rightarrow> block_sector_t \<Rightarrow> bytes \<Rightarrow> block option" where
  "block_write b s data = do {
     check_sector b s;
     kassert (btype b \<noteq> BLOCK_FOREIGN);
     Some (b\<lparr>contents := (contents b)(s := data), write_cnt := write_cnt b + 1\<rparr>) }"

definition block_size :: "block \<Rightarrow> block_sector_t" where
  "block_size b = bsize b"

end
