(* ===== verification/Cache.thy ===== *)
theory Cache
  imports Block
begin

text \<open>
  The buffer cache (\<open>filesys/cache.c\<close>): 64 sector buffers with delayed writes, found through a
  hash table keyed by sector and recycled from the front of a list of free buffers. The
  sectors of the free map and of the root directory stay pinned once they are loaded.

  A file system operation runs here from its start to its end without another thread in
  between. A lock that such a run finds taken, or an event it waits for that nobody is left to
  signal, is \<open>None\<close>. The hash table is a map from sectors to buffers. Buffers are numbered by
  their \<open>seq\<close>. The cache is a record that the states of the higher layers extend.
\<close>

section \<open>The code\<close>

abbreviation (input) BUFFER_CACHE_SIZE :: nat where "BUFFER_CACHE_SIZE \<equiv> 64"
abbreviation (input) CACHE_DELAYED :: u32 where "CACHE_DELAYED \<equiv> 1"
abbreviation (input) CACHE_BUSY :: u32 where "CACHE_BUSY \<equiv> 2"
abbreviation (input) FREE_MAP_SECTOR :: block_sector_t where "FREE_MAP_SECTOR \<equiv> 0"
abbreviation (input) ROOT_DIR_SECTOR :: block_sector_t where "ROOT_DIR_SECTOR \<equiv> 1"
abbreviation (input) BLOCK_ERROR :: block_sector_t where "BLOCK_ERROR \<equiv> - 1"

record cache_entry =
  sector :: block_sector_t
  cstatus :: u32
  lock_shared :: int
  cdata :: bytes

record cache =
  fs_device :: block
  buffers :: "nat \<Rightarrow> cache_entry"
  buffer_cache :: "block_sector_t \<Rightarrow> nat option"
  list_lru :: "nat list"
  sema_lru :: nat

definition upd_buffer :: "nat \<Rightarrow> (cache_entry \<Rightarrow> cache_entry) \<Rightarrow> 'z cache_scheme \<Rightarrow> 'z cache_scheme" where
  "upd_buffer b f c = c\<lparr>buffers := (buffers c)(b := f (buffers c b))\<rparr>"

definition cache_init :: "block \<Rightarrow> 'z cache_scheme \<Rightarrow> 'z cache_scheme" where
  "cache_init dev c =
     c\<lparr>fs_device := dev,
       buffers := (\<lambda>_. \<lparr>sector = BLOCK_ERROR, cstatus = 0, lock_shared = 0, cdata = replicate BLOCK_SECTOR_SIZE 0\<rparr>),
       buffer_cache := Map.empty, list_lru := [0..<BUFFER_CACHE_SIZE], sema_lru := 0\<rparr>"

definition cache_lookup :: "block_sector_t \<Rightarrow> 'z cache_scheme \<Rightarrow> nat option" where
  "cache_lookup s c = buffer_cache c s"

definition buffer_is_delayed :: "cache_entry \<Rightarrow> bool" where
  "buffer_is_delayed e = (cstatus e AND CACHE_DELAYED \<noteq> 0)"

definition buffer_set_delayed :: "bool \<Rightarrow> cache_entry \<Rightarrow> cache_entry" where
  "buffer_set_delayed flag e =
     (if flag then e\<lparr>cstatus := cstatus e OR CACHE_DELAYED\<rparr>
      else e\<lparr>cstatus := cstatus e AND NOT CACHE_DELAYED\<rparr>)"

definition buffer_is_busy :: "cache_entry \<Rightarrow> bool" where
  "buffer_is_busy e = (cstatus e AND CACHE_BUSY \<noteq> 0)"

definition buffer_set_busy :: "bool \<Rightarrow> cache_entry \<Rightarrow> cache_entry" where
  "buffer_set_busy flag e =
     (if flag then e\<lparr>cstatus := cstatus e OR CACHE_BUSY\<rparr>
      else e\<lparr>cstatus := cstatus e AND NOT CACHE_BUSY\<rparr>)"

text \<open>The readers-writers lock of a buffer: the number of readers, or \<open>-1\<close> for a writer.\<close>

definition acquire_shared :: "nat \<Rightarrow> 'z cache_scheme \<Rightarrow> 'z cache_scheme option" where
  "acquire_shared b c = do {
     kassert (\<not> lock_shared (buffers c b) < 0);
     Some (upd_buffer b (lock_shared_update (\<lambda>i. i + 1)) c) }"

definition acquire_exclusive :: "nat \<Rightarrow> 'z cache_scheme \<Rightarrow> 'z cache_scheme option" where
  "acquire_exclusive b c = do {
     kassert (lock_shared (buffers c b) = 0);
     Some (upd_buffer b (lock_shared_update (\<lambda>_. - 1)) c) }"

definition release_shared :: "nat \<Rightarrow> 'z cache_scheme \<Rightarrow> 'z cache_scheme" where
  "release_shared b c = upd_buffer b (lock_shared_update (\<lambda>i. i - 1)) c"

definition release_exclusive :: "nat \<Rightarrow> 'z cache_scheme \<Rightarrow> 'z cache_scheme" where
  "release_exclusive b c = upd_buffer b (lock_shared_update (\<lambda>_. 0)) c"

definition cache_flush_buffer :: "nat \<Rightarrow> 'z cache_scheme \<Rightarrow> 'z cache_scheme option" where
  "cache_flush_buffer b c = do {
     dev \<leftarrow> block_write (fs_device c) (sector (buffers c b)) (cdata (buffers c b));
     Some (upd_buffer b (buffer_set_delayed False) (c\<lparr>fs_device := dev\<rparr>)) }"

text \<open>The three calls around every flush: the buffer is written under its shared lock.\<close>

definition flush_shared :: "nat \<Rightarrow> 'z cache_scheme \<Rightarrow> 'z cache_scheme option" where
  "flush_shared b c = do {
     c \<leftarrow> acquire_shared b c;
     c \<leftarrow> cache_flush_buffer b c;
     Some (release_shared b c) }"

definition flush_if_delayed :: "nat \<Rightarrow> 'z cache_scheme \<Rightarrow> 'z cache_scheme option" where
  "flush_if_delayed b c = (if buffer_is_delayed (buffers c b) then flush_shared b c else Some c)"

text \<open>
  Insertion leaves an entry with an equal key in place; deletion removes the entry with the
  key of the given buffer.
\<close>

definition hash_insert_buffer :: "nat \<Rightarrow> 'z cache_scheme \<Rightarrow> 'z cache_scheme" where
  "hash_insert_buffer b c =
     (case buffer_cache c (sector (buffers c b)) of
        Some _ \<Rightarrow> c
      | None \<Rightarrow> c\<lparr>buffer_cache := (buffer_cache c)(sector (buffers c b) := Some b)\<rparr>)"

definition hash_delete_buffer :: "nat \<Rightarrow> 'z cache_scheme \<Rightarrow> 'z cache_scheme" where
  "hash_delete_buffer b c = c\<lparr>buffer_cache := (buffer_cache c)(sector (buffers c b) := None)\<rparr>"

partial_function (option) cache_get_block ::
  "block_sector_t \<Rightarrow> 'z cache_scheme \<Rightarrow> (nat \<times> 'z cache_scheme) option" where
  "cache_get_block s c =
     (case cache_lookup s c of
        Some b \<Rightarrow> do {
          c \<leftarrow> acquire_exclusive b c;
          if sector (buffers c b) \<noteq> s then cache_get_block s (release_exclusive b c)
          else if s > ROOT_DIR_SECTOR then do {
            kassert (b \<in> set (list_lru c));
            Some (b, c\<lparr>list_lru := remove1 b (list_lru c)\<rparr>) }
          else Some (b, c) }
      | None \<Rightarrow>
          (case list_lru c of
             [] \<Rightarrow> do {
               kassert (sema_lru c > 0);
               cache_get_block s (c\<lparr>sema_lru := sema_lru c - 1\<rparr>) }
           | b # bs \<Rightarrow> do {
               c \<leftarrow> flush_if_delayed b (c\<lparr>list_lru := bs\<rparr>);
               c \<leftarrow> acquire_exclusive b c;
               Some (b, hash_delete_buffer b c) }))"

definition cache_release :: "nat \<Rightarrow> 'z cache_scheme \<Rightarrow> 'z cache_scheme" where
  "cache_release b c =
     release_exclusive b
       (if sector (buffers c b) > ROOT_DIR_SECTOR
        then c\<lparr>list_lru := list_lru c @ [b], sema_lru := sema_lru c + 1\<rparr> else c)"

definition cache_block_read :: "block_sector_t \<Rightarrow> 'z cache_scheme \<Rightarrow> (bytes \<times> 'z cache_scheme) option" where
  "cache_block_read s c = do {
     (b, c) \<leftarrow> cache_get_block s c;
     c \<leftarrow> (if sector (buffers c b) \<noteq> s then do {
             let c = hash_insert_buffer b (upd_buffer b (sector_update (\<lambda>_. s)) c);
             (d, dev) \<leftarrow> block_read (fs_device c) s;
             Some (upd_buffer b (cdata_update (\<lambda>_. d)) (c\<lparr>fs_device := dev\<rparr>)) }
           else Some c);
     c \<leftarrow> acquire_shared b (cache_release b c);
     Some (cdata (buffers c b), release_shared b c) }"

definition cache_block_write :: "block_sector_t \<Rightarrow> bytes \<Rightarrow> 'z cache_scheme \<Rightarrow> 'z cache_scheme option" where
  "cache_block_write s d c = do {
     (b, c) \<leftarrow> cache_get_block s c;
     let c = upd_buffer b (\<lambda>e. e\<lparr>sector := s, cdata := d\<rparr>) c;
     if sector (buffers c b) \<noteq> BLOCK_ERROR
     then Some (cache_release b (upd_buffer b (buffer_set_delayed True) (hash_insert_buffer b c)))
     else Some c }"

fun flush_loop :: "nat list \<Rightarrow> 'z cache_scheme \<Rightarrow> 'z cache_scheme option" where
  "flush_loop [] c = Some c"
| "flush_loop (b # bs) c = do { c \<leftarrow> flush_if_delayed b c; flush_loop bs c }"

text \<open>The iteration over the hash table visits the buffers that it holds.\<close>

definition cache_flush_cache :: "'z cache_scheme \<Rightarrow> 'z cache_scheme option" where
  "cache_flush_cache c =
     flush_loop [b \<leftarrow> [0..<BUFFER_CACHE_SIZE]. buffer_cache c (sector (buffers c b)) = Some b] c"

section \<open>The contract: a store of sectors\<close>

text \<open>What a sector holds, seen through the cache.\<close>

definition sectors :: "'z cache_scheme \<Rightarrow> block_sector_t \<Rightarrow> bytes" where
  "sectors c s = (case buffer_cache c s of Some b \<Rightarrow> cdata (buffers c b) | None \<Rightarrow> contents (fs_device c) s)"

definition device_size :: "'z cache_scheme \<Rightarrow> block_sector_t" where
  "device_size c = bsize (fs_device c)"

definition hashed :: "'z cache_scheme \<Rightarrow> nat \<Rightarrow> bool" where
  "hashed c b \<longleftrightarrow> buffer_cache c (sector (buffers c b)) = Some b"

text \<open>
  The invariant between operations. A buffer that the hash table does not hold has never been
  used; a buffer without a delayed write agrees with the device; the list of free buffers
  holds every buffer but the pinned ones.
\<close>

definition cache_core :: "'z cache_scheme \<Rightarrow> bool" where
  "cache_core c \<longleftrightarrow>
     btype (fs_device c) \<noteq> BLOCK_FOREIGN
     \<and> (\<forall>s b. buffer_cache c s = Some b \<longrightarrow>
          b < BUFFER_CACHE_SIZE \<and> sector (buffers c b) = s \<and> s < bsize (fs_device c)
          \<and> (\<not> buffer_is_delayed (buffers c b) \<longrightarrow> cdata (buffers c b) = contents (fs_device c) s))
     \<and> (\<forall>b < BUFFER_CACHE_SIZE. lock_shared (buffers c b) = 0)
     \<and> (\<forall>b < BUFFER_CACHE_SIZE. \<not> hashed c b \<longrightarrow>
          sector (buffers c b) = BLOCK_ERROR \<and> \<not> buffer_is_delayed (buffers c b))"

definition cache_ok :: "'z cache_scheme \<Rightarrow> bool" where
  "cache_ok c \<longleftrightarrow>
     cache_core c \<and> distinct (list_lru c)
     \<and> set (list_lru c) =
         {b. b < BUFFER_CACHE_SIZE \<and> \<not> (hashed c b \<and> sector (buffers c b) \<le> ROOT_DIR_SECTOR)}"

lemma sector_not_error: "(s :: u32) < n \<Longrightarrow> s \<noteq> - 1"
  using word_order.extremum [of n] by auto

lemma le_1_iff: "(s :: u32) \<le> 1 \<longleftrightarrow> s = 0 \<or> s = 1"
  by (auto simp: word_le_nat_alt word_unat_eq_iff le_Suc_eq)

lemma lock_shared_same [simp]: "lock_shared_update (\<lambda>i. i) e = e"
  by (cases e) simp

lemma lock_shared_zero: "lock_shared e = 0 \<Longrightarrow> e\<lparr>lock_shared := 0\<rparr> = e"
  by (cases e) simp

lemma buffers_same [simp]: "c\<lparr>buffers := buffers c\<rparr> = c"
  by (cases c) simp

lemma core_hit:
  assumes "cache_core c" "buffer_cache c s = Some b"
  shows "b < 64" "sector (buffers c b) = s" "s < bsize (fs_device c)" "hashed c b" "lock_shared (buffers c b) = 0"
    "\<not> buffer_is_delayed (buffers c b) \<Longrightarrow> cdata (buffers c b) = contents (fs_device c) s"
  using assms unfolding cache_core_def hashed_def by blast+

lemma lru_not_empty:
  assumes "cache_ok c"
  shows "list_lru c \<noteq> []"
proof
  assume "list_lru c = []"
  then have pinned: "hashed c b \<and> sector (buffers c b) \<le> 1" if "b < 64" for b
    using assms that by (auto simp: cache_ok_def)
  have "sector (buffers c b) = 0 \<or> sector (buffers c b) = 1" if "b < 64" for b
    using pinned [OF that] by (simp add: le_1_iff)
  from this [of 0] this [of 1] this [of 2] pinned [of 0] pinned [of 1] pinned [of 2]
  show False by (auto simp: hashed_def)
qed

lemma flush_if_delayed_ok:
  assumes "cache_core c" "b < 64"
  obtains c' where "flush_if_delayed b c = Some c'" "cache_core c'" "sectors c' = sectors c"
    "device_size c' = device_size c" "\<not> buffer_is_delayed (buffers c' b)"
    "\<And>b'. sector (buffers c' b') = sector (buffers c b')"
    "\<And>b'. b' \<noteq> b \<Longrightarrow> buffers c' b' = buffers c b'"
    "buffer_cache c' = buffer_cache c" "list_lru c' = list_lru c" "cache.more c' = cache.more c"
proof (cases "buffer_is_delayed (buffers c b)")
  case False
  then show ?thesis using that [of c] assms by (simp add: flush_if_delayed_def)
next
  case True
  let ?e = "buffers c b" and ?dev = "fs_device c"
  have h: "buffer_cache c (sector ?e) = Some b"
    using True assms unfolding cache_core_def hashed_def by blast
  note hit = core_hit [OF assms(1) h]
  define c' where "c' = c\<lparr>fs_device := ?dev\<lparr>contents := (contents ?dev)(sector ?e := cdata ?e), write_cnt := write_cnt ?dev + 1\<rparr>,
    buffers := (buffers c)(b := ?e\<lparr>cstatus := cstatus ?e AND NOT 1\<rparr>)\<rparr>"
  have nt: "btype ?dev \<noteq> BLOCK_FOREIGN" using assms(1) by (simp add: cache_core_def)
  have "flush_if_delayed b c = Some c'"
    using True hit nt
    by (simp add: flush_if_delayed_def flush_shared_def acquire_shared_def cache_flush_buffer_def block_write_def
        check_sector_def release_shared_def upd_buffer_def buffer_set_delayed_def c'_def o_def)
  moreover have nd: "\<not> buffer_is_delayed (buffers c' b)"
    by (simp add: c'_def buffer_is_delayed_def and.assoc)
  moreover have same: "buffer_cache c' = buffer_cache c" "list_lru c' = list_lru c" "cache.more c' = cache.more c"
    "device_size c' = device_size c" "\<And>b'. b' \<noteq> b \<Longrightarrow> buffers c' b' = buffers c b'"
    "\<And>b'. sector (buffers c' b') = sector (buffers c b')"
    by (simp_all add: c'_def device_size_def)
  moreover have data: "cdata (buffers c' b') = cdata (buffers c b')" for b' by (simp add: c'_def)
  have "sectors c' = sectors c"
    using h by (auto simp: sectors_def fun_eq_iff same data split: option.split) (auto simp: c'_def)
  moreover have "cache_core c'"
    unfolding cache_core_def hashed_def same
  proof (intro conjI allI impI)
    show "btype (fs_device c') \<noteq> BLOCK_FOREIGN" using nt by (simp add: c'_def)
  next
    fix s x assume x: "buffer_cache c s = Some x"
    note hx = core_hit [OF assms(1) x]
    show "x < 64" "sector (buffers c x) = s" "s < bsize (fs_device c')"
      using hx by (simp_all add: c'_def)
    assume "\<not> buffer_is_delayed (buffers c' x)"
    then show "cdata (buffers c' x) = contents (fs_device c') s"
      using hx h x by (cases "x = b") (auto simp: c'_def)
  next
    fix x :: nat assume "x < 64"
    then show "lock_shared (buffers c' x) = 0" using assms(1) by (simp add: c'_def cache_core_def)
    assume "buffer_cache c (sector (buffers c x)) \<noteq> Some x"
    then show "sector (buffers c x) = - 1" "\<not> buffer_is_delayed (buffers c' x)"
      using assms(1) \<open>x < 64\<close> nd by (cases "x = b"; simp add: cache_core_def hashed_def same)+
  qed
  ultimately show ?thesis using that by blast
qed

text \<open>
  The three ways to get a buffer: the sector is cached, or the first free buffer is emptied
  and reused.
\<close>

lemma cache_get_block_hit:
  assumes "cache_ok c" "buffer_cache c s = Some b"
  shows "cache_get_block s c =
    Some (b, upd_buffer b (lock_shared_update (\<lambda>_. - 1))
      (if s > 1 then c\<lparr>list_lru := remove1 b (list_lru c)\<rparr> else c))"
proof -
  note hit = core_hit [OF _ assms(2)]
  have "cache_core c" using assms(1) by (simp add: cache_ok_def)
  note hit = hit [OF this]
  have "b \<in> set (list_lru c)" if "s > 1"
    using assms that hit by (auto simp: cache_ok_def)
  then show ?thesis using hit assms(2)
    by (subst cache_get_block.simps) (auto simp: cache_lookup_def acquire_exclusive_def upd_buffer_def)
qed

lemma cache_get_block_miss:
  assumes "cache_ok c" "buffer_cache c s = None"
  obtains b bs c' where "list_lru c = b # bs" "flush_if_delayed b (c\<lparr>list_lru := bs\<rparr>) = Some c'"
    "cache_get_block s c = Some (b, hash_delete_buffer b (upd_buffer b (lock_shared_update (\<lambda>_. - 1)) c'))"
    "cache_core c'" "sectors c' = sectors c" "device_size c' = device_size c" "b < 64"
    "\<not> buffer_is_delayed (buffers c' b)" "lock_shared (buffers c' b) = 0"
    "buffer_cache c' = buffer_cache c" "list_lru c' = bs" "cache.more c' = cache.more c"
    "\<And>b'. sector (buffers c' b') = sector (buffers c b')"
proof -
  obtain b bs where l: "list_lru c = b # bs" using lru_not_empty [OF assms(1)] by (cases "list_lru c") auto
  let ?c = "c\<lparr>list_lru := bs\<rparr>"
  have b: "b < 64" using assms(1) l by (auto simp: cache_ok_def)
  have "cache_core ?c" using assms(1) by (simp add: cache_ok_def cache_core_def hashed_def)
  from flush_if_delayed_ok [OF this b] obtain c' where c':
    "flush_if_delayed b ?c = Some c'" "cache_core c'" "sectors c' = sectors ?c"
    "device_size c' = device_size ?c" "\<not> buffer_is_delayed (buffers c' b)"
    "\<And>b'. sector (buffers c' b') = sector (buffers ?c b')"
    "buffer_cache c' = buffer_cache ?c" "list_lru c' = list_lru ?c" "cache.more c' = cache.more ?c"
    by metis
  have lock: "lock_shared (buffers c' b) = 0" using c'(2) b by (simp add: cache_core_def)
  have "cache_get_block s c = Some (b, hash_delete_buffer b (upd_buffer b (lock_shared_update (\<lambda>_. - 1)) c'))"
    using assms(2) l c'(1) lock by (subst cache_get_block.simps) (simp add: cache_lookup_def acquire_exclusive_def)
  moreover have "sectors ?c = sectors c" "device_size ?c = device_size c" by (simp_all add: sectors_def fun_eq_iff device_size_def split: option.split)
  ultimately show ?thesis using that [OF l c'(1)] c' b lock by simp
qed

definition installed ::
  "nat \<Rightarrow> cache_entry \<Rightarrow> block \<Rightarrow> nat \<Rightarrow> 'z cache_scheme \<Rightarrow> 'z cache_scheme" where
  "installed b e dev n c =
     c\<lparr>fs_device := dev, buffers := (buffers c)(b := e),
       buffer_cache := (buffer_cache c)(sector (buffers c b) := None, sector e := Some b),
       list_lru := list_lru c @ (if sector e > 1 then [b] else []), sema_lru := n\<rparr>"

lemma installed_ok:
  assumes core: "cache_core c" and b: "b < 64" and new: "buffer_cache c (sector e) = None"
    and clean: "\<not> buffer_is_delayed (buffers c b)"
    and lru: "distinct (b # list_lru c)"
      "set (b # list_lru c) = {x. x < 64 \<and> \<not> (hashed c x \<and> sector (buffers c x) \<le> 1)}"
    and dev: "contents dev = contents (fs_device c)" "bsize dev = bsize (fs_device c)" "btype dev = btype (fs_device c)"
    and e: "sector e < bsize dev" "lock_shared e = 0" "buffer_is_delayed e \<or> cdata e = contents dev (sector e)"
  shows "cache_ok (installed b e dev n c)" "sectors (installed b e dev n c) = (sectors c)(sector e := cdata e)"
proof -
  let ?i = "installed b e dev n c"
  have bc: "buffer_cache ?i x = (if x = sector e then Some b else if x = sector (buffers c b) then None else buffer_cache c x)" for x
    by (simp add: installed_def)
  have bf: "buffers ?i x = (if x = b then e else buffers c x)" for x by (simp add: installed_def)
  have dv: "fs_device ?i = dev" by (simp add: installed_def)
  have nx: "x \<noteq> b" if "buffer_cache ?i s = Some x" "s \<noteq> sector e" for s x
    using that core_hit(2) [OF core, of s x] by (auto simp: bc split: if_splits)
  have hb: "hashed ?i b" by (simp add: hashed_def bc bf)
  have hx: "hashed ?i x \<longleftrightarrow> hashed c x" if "x \<noteq> b" "x < 64" for x
  proof
    assume "hashed ?i x" then show "hashed c x" using that by (auto simp: hashed_def bc bf split: if_splits)
  next
    assume h: "hashed c x"
    then have "sector (buffers c x) \<noteq> sector e" using new by (auto simp: hashed_def)
    moreover have "sector (buffers c x) \<noteq> sector (buffers c b)"
    proof
      assume eq: "sector (buffers c x) = sector (buffers c b)"
      then have "\<not> hashed c b" using h that by (auto simp: hashed_def)
      then have "sector (buffers c b) = - 1" using core b by (simp add: cache_core_def)
      moreover have "sector (buffers c x) < bsize (fs_device c)" using h core_hit(3) [OF core] by (simp add: hashed_def)
      ultimately show False using eq sector_not_error by metis
    qed
    ultimately show "hashed ?i x" using h that by (simp add: hashed_def bc bf)
  qed
  have "cache_core ?i"
    unfolding cache_core_def dv
  proof (intro conjI allI impI)
    show "btype dev \<noteq> BLOCK_FOREIGN" using core dev by (simp add: cache_core_def)
  next
    fix s x assume x: "buffer_cache ?i s = Some x"
    have "x = b \<and> s = sector e \<or> x \<noteq> b \<and> buffer_cache c s = Some x"
      using x nx [OF x] by (auto simp: bc split: if_splits)
    then show "x < 64" "sector (buffers ?i x) = s" "s < bsize dev"
      "\<not> buffer_is_delayed (buffers ?i x) \<Longrightarrow> cdata (buffers ?i x) = contents dev s"
      using b e dev core_hit [OF core, of s x] by (auto simp: bf)
  next
    fix x :: nat assume x: "x < 64"
    then show "lock_shared (buffers ?i x) = 0" using core e by (simp add: cache_core_def bf)
    assume h: "\<not> hashed ?i x"
    then have "x \<noteq> b" using hb by auto
    moreover then have "\<not> hashed c x" using hx x h by blast
    ultimately show "sector (buffers ?i x) = - 1" "\<not> buffer_is_delayed (buffers ?i x)"
      using core x by (simp_all add: cache_core_def bf)
  qed
  moreover have "list_lru ?i = list_lru c @ (if sector e > 1 then [b] else [])" by (simp add: installed_def)
  then have "distinct (list_lru ?i)" "set (list_lru ?i) = set (list_lru c) \<union> (if sector e > 1 then {b} else {})"
    using lru by simp_all
  moreover have "set (list_lru c) = {x. x < 64 \<and> x \<noteq> b \<and> \<not> (hashed c x \<and> sector (buffers c x) \<le> 1)}"
    using lru by auto
  then have "set (list_lru c) \<union> (if sector e > 1 then {b} else {}) = {x. x < 64 \<and> \<not> (hashed ?i x \<and> sector (buffers ?i x) \<le> 1)}"
    using hb hx b by (auto simp: bf not_le)
  ultimately show "cache_ok ?i" by (simp add: cache_ok_def)
  have "sectors c (sector (buffers c b)) = contents dev (sector (buffers c b))"
  proof (cases "hashed c b")
    case True
    then show ?thesis using core_hit(6) [OF core, of _ b] clean dev by (simp add: sectors_def hashed_def)
  next
    case False
    then have "sector (buffers c b) = - 1" using core b by (simp add: cache_core_def)
    then have "buffer_cache c (sector (buffers c b)) = None"
      using core_hit(3) [OF core, of "- 1"] sector_not_error by (cases "buffer_cache c (- 1)") auto
    then show ?thesis using dev by (simp add: sectors_def)
  qed
  note old = this
  show "sectors ?i = (sectors c)(sector e := cdata e)"
  proof
    fix x
    have "x = sector (buffers c b)" if "buffer_cache c x = Some b" using core_hit(2) [OF core that] by simp
    then show "sectors ?i x = ((sectors c)(sector e := cdata e)) x"
      using old dev by (cases "buffer_cache c x") (auto simp: sectors_def bc bf dv)
  qed
qed

lemma moved_back_ok:
  fixes n :: nat
  assumes "cache_ok c" "buffer_cache c s = Some b" "sector e = s" "lock_shared e = 0"
    and "buffer_is_delayed e \<or> cdata e = contents (fs_device c) s"
  defines "c' \<equiv> c\<lparr>buffers := (buffers c)(b := e), list_lru := if s > 1 then remove1 b (list_lru c) @ [b] else list_lru c,
    sema_lru := n\<rparr>"
  shows "cache_ok c'" "sectors c' = (sectors c)(s := cdata e)"
proof -
  have core: "cache_core c" using assms(1) by (simp add: cache_ok_def)
  note hit = core_hit [OF core assms(2)]
  have bf: "buffers c' x = (if x = b then e else buffers c x)" for x by (simp add: c'_def)
  have same: "buffer_cache c' = buffer_cache c" "fs_device c' = fs_device c" by (simp_all add: c'_def)
  have hs: "hashed c' x = hashed c x" for x using hit assms(3) by (auto simp: hashed_def same bf)
  have uniq: "x = s" if "buffer_cache c x = Some b" for x using core_hit(2) [OF core that] hit by simp
  have "cache_core c'"
    unfolding cache_core_def hs same
  proof (intro conjI allI impI)
    fix x y assume y: "buffer_cache c x = Some y"
    note hy = core_hit [OF core y]
    show "y < 64" "sector (buffers c' y) = x" "x < bsize (fs_device c)"
      "\<not> buffer_is_delayed (buffers c' y) \<Longrightarrow> cdata (buffers c' y) = contents (fs_device c) x"
      using hy y uniq assms(3,5) by (auto simp: bf)
  qed (use core hit assms(3,4) in \<open>auto simp: cache_core_def bf\<close>)
  moreover have lru: "distinct (list_lru c)" "b \<in> set (list_lru c)" if "s > 1"
    using assms(1) hit that unfolding cache_ok_def by (blast, simp)
  have "distinct (list_lru c')" "set (list_lru c') = set (list_lru c)"
    using lru assms(1) by (auto simp: c'_def cache_ok_def)
  moreover have "sector (buffers c' x) = sector (buffers c x)" for x using assms(3) hit by (simp add: bf)
  ultimately show "cache_ok c'" using assms(1) by (simp add: cache_ok_def hs)
  show "sectors c' = (sectors c)(s := cdata e)"
  proof
    fix x
    show "sectors c' x = ((sectors c)(s := cdata e)) x"
      using assms(2) uniq [of x] by (cases "buffer_cache c x") (auto simp: sectors_def same bf)
  qed
qed

text \<open>
  Reading and writing through the cache, as operations on the store of sectors; no other part
  of the state of the file system changes.
\<close>

lemma cache_block_read_ok:
  assumes "cache_ok c" "s < device_size c"
  obtains c' where "cache_block_read s c = Some (sectors c s, c')" "cache_ok c'" "sectors c' = sectors c"
    "device_size c' = device_size c" "cache.more c' = cache.more c"
proof (cases "buffer_cache c s")
  case (Some b)
  have core: "cache_core c" using assms(1) by (simp add: cache_ok_def)
  note hit = core_hit [OF core Some]
  let ?c = "c\<lparr>buffers := (buffers c)(b := buffers c b), list_lru := if s > 1 then remove1 b (list_lru c) @ [b] else list_lru c,
    sema_lru := if s > 1 then sema_lru c + 1 else sema_lru c\<rparr>"
  have "cache_block_read s c = Some (sectors c s, ?c)"
    using hit Some
    by (simp add: cache_block_read_def cache_get_block_hit [OF assms(1) Some] cache_release_def acquire_shared_def
        release_shared_def release_exclusive_def upd_buffer_def sectors_def o_def lock_shared_zero)
  moreover have "buffer_is_delayed (buffers c b) \<or> cdata (buffers c b) = contents (fs_device c) s" using hit by blast
  note ok = moved_back_ok [OF assms(1) Some hit(2,5) this]
  have "(sectors c)(s := cdata (buffers c b)) = sectors c" using Some by (simp add: fun_eq_iff sectors_def)
  ultimately show ?thesis using that ok by (simp add: device_size_def)
next
  case None
  from cache_get_block_miss [OF assms(1) None] obtain b bs c1 where m: "list_lru c = b # bs"
    "cache_get_block s c = Some (b, hash_delete_buffer b (upd_buffer b (lock_shared_update (\<lambda>_. - 1)) c1))"
    "cache_core c1" "sectors c1 = sectors c" "device_size c1 = device_size c" "b < 64"
    "\<not> buffer_is_delayed (buffers c1 b)" "lock_shared (buffers c1 b) = 0"
    "buffer_cache c1 = buffer_cache c" "list_lru c1 = bs" "cache.more c1 = cache.more c"
    "\<And>b'. sector (buffers c1 b') = sector (buffers c b')"
    by metis
  have ne: "sector (buffers c1 b) \<noteq> s"
  proof
    assume eq: "sector (buffers c1 b) = s"
    then have "\<not> hashed c1 b" using None m by (simp add: hashed_def)
    then show False using m eq assms(2) sector_not_error [of s] by (simp add: cache_core_def)
  qed
  let ?dev = "fs_device c1" 
  let ?e = "(buffers c1 b)\<lparr>sector := s, cdata := contents ?dev s, lock_shared := 0\<rparr>"
  let ?d = "?dev\<lparr>read_cnt := read_cnt ?dev + 1\<rparr>"
  let ?c = "installed b ?e ?d (if s > 1 then sema_lru c1 + 1 else sema_lru c1) c1"
  have v: "sectors c1 s = contents ?dev s" using None m(9) by (simp add: sectors_def)
  have "cache_block_read s c = Some (sectors c s, ?c)"
    using ne assms(2) m(5) None m(9) v m(4)
    by (simp add: cache_block_read_def m(2) cache_release_def acquire_shared_def release_shared_def release_exclusive_def
        upd_buffer_def hash_insert_buffer_def hash_delete_buffer_def block_read_def check_sector_def installed_def device_size_def o_def)
  moreover have hs: "hashed c1 x = hashed c x" for x using m by (simp add: hashed_def)
  have "distinct (b # list_lru c1)"
    "set (b # list_lru c1) = {x. x < 64 \<and> \<not> (hashed c1 x \<and> sector (buffers c1 x) \<le> 1)}"
    using assms(1) m by (simp_all add: cache_ok_def hs)
  then have "cache_ok ?c" "sectors ?c = (sectors c1)(s := contents ?dev s)"
    using installed_ok [where c = c1 and b = b and e = ?e and dev = ?d] m assms(2) None v
    by (simp_all add: device_size_def)
  moreover have "device_size ?c = device_size c" "cache.more ?c = cache.more c" using m by (simp_all add: device_size_def installed_def)
  ultimately show ?thesis using that m(4) v by (simp add: fun_upd_idem_iff)
qed

lemma cache_block_write_ok:
  assumes "cache_ok c" "s < device_size c"
  obtains c' where "cache_block_write s d c = Some c'" "cache_ok c'" "sectors c' = (sectors c)(s := d)"
    "device_size c' = device_size c" "cache.more c' = cache.more c"
proof (cases "buffer_cache c s")
  case (Some b)
  have core: "cache_core c" using assms(1) by (simp add: cache_ok_def)
  note hit = core_hit [OF core Some]
  let ?e = "(buffers c b)\<lparr>cdata := d, cstatus := cstatus (buffers c b) OR 1\<rparr>"
  let ?c = "c\<lparr>buffers := (buffers c)(b := ?e), list_lru := if s > 1 then remove1 b (list_lru c) @ [b] else list_lru c,
    sema_lru := if s > 1 then sema_lru c + 1 else sema_lru c\<rparr>"
  have e: "(buffers c b)\<lparr>lock_shared := 0, sector := s, cdata := d, cstatus := x\<rparr> = (buffers c b)\<lparr>cdata := d, cstatus := x\<rparr>" for x
    using hit by (cases "buffers c b") simp
  have "cache_block_write s d c = Some ?c"
    using hit Some sector_not_error [OF assms(2)]
    by (simp add: cache_block_write_def cache_get_block_hit [OF assms(1) Some] cache_release_def hash_insert_buffer_def
        release_exclusive_def upd_buffer_def buffer_set_delayed_def o_def)
      (auto intro!: cache.equality cache_entry.equality)
  moreover have "sector ?e = s" "lock_shared ?e = 0" "buffer_is_delayed ?e"
    using hit by (simp_all add: buffer_is_delayed_def bit.conj_disj_distrib2)
  note ok = moved_back_ok [OF assms(1) Some this(1,2) disjI1 [OF this(3)]]
  ultimately show ?thesis using that ok by (simp add: device_size_def)
next
  case None
  from cache_get_block_miss [OF assms(1) None] obtain b bs c1 where m: "list_lru c = b # bs"
    "cache_get_block s c = Some (b, hash_delete_buffer b (upd_buffer b (lock_shared_update (\<lambda>_. - 1)) c1))"
    "cache_core c1" "sectors c1 = sectors c" "device_size c1 = device_size c" "b < 64"
    "\<not> buffer_is_delayed (buffers c1 b)" "lock_shared (buffers c1 b) = 0"
    "buffer_cache c1 = buffer_cache c" "list_lru c1 = bs" "cache.more c1 = cache.more c"
    "\<And>b'. sector (buffers c1 b') = sector (buffers c b')"
    by metis
  let ?e = "(buffers c1 b)\<lparr>sector := s, cdata := d, cstatus := cstatus (buffers c1 b) OR 1, lock_shared := 0\<rparr>"
  let ?c = "installed b ?e (fs_device c1) (if s > 1 then sema_lru c1 + 1 else sema_lru c1) c1"
  have "cache_block_write s d c = Some ?c"
    using None m(9) sector_not_error [OF assms(2)]
    by (simp add: cache_block_write_def m(2) cache_release_def release_exclusive_def buffer_set_delayed_def
        upd_buffer_def hash_insert_buffer_def hash_delete_buffer_def installed_def o_def)
  moreover have hs: "hashed c1 x = hashed c x" for x using m by (simp add: hashed_def)
  have "distinct (b # list_lru c1)"
    "set (b # list_lru c1) = {x. x < 64 \<and> \<not> (hashed c1 x \<and> sector (buffers c1 x) \<le> 1)}"
    using assms(1) m by (simp_all add: cache_ok_def hs)
  moreover have "buffer_is_delayed ?e" by (simp add: buffer_is_delayed_def bit.conj_disj_distrib2)
  ultimately have "cache_ok ?c" "sectors ?c = (sectors c1)(s := d)"
    using installed_ok [where c = c1 and b = b and e = ?e and dev = "fs_device c1"] m assms(2) None
    by (simp_all add: device_size_def)
  moreover have "device_size ?c = device_size c" "cache.more ?c = cache.more c" using m by (simp_all add: device_size_def installed_def)
  ultimately show ?thesis using that \<open>cache_block_write s d c = Some ?c\<close> m(4) by simp
qed

lemma flush_loop_ok:
  assumes "cache_core c" "\<forall>b\<in>set bs. b < 64"
  shows "\<exists>c'. flush_loop bs c = Some c' \<and> cache_core c' \<and> sectors c' = sectors c \<and> device_size c' = device_size c
    \<and> (\<forall>b\<in>set bs. \<not> buffer_is_delayed (buffers c' b)) \<and> (\<forall>b. sector (buffers c' b) = sector (buffers c b))
    \<and> (\<forall>b. b \<notin> set bs \<longrightarrow> buffers c' b = buffers c b)
    \<and> buffer_cache c' = buffer_cache c \<and> list_lru c' = list_lru c \<and> cache.more c' = cache.more c"
  using assms
proof (induction bs arbitrary: c)
  case (Cons b bs)
  then have "b < 64" by simp
  from flush_if_delayed_ok [OF Cons.prems(1) this] obtain c1 where c1:
    "flush_if_delayed b c = Some c1" "cache_core c1" "sectors c1 = sectors c" "device_size c1 = device_size c"
    "\<not> buffer_is_delayed (buffers c1 b)" "\<And>b'. sector (buffers c1 b') = sector (buffers c b')"
    "\<And>b'. b' \<noteq> b \<Longrightarrow> buffers c1 b' = buffers c b'"
    "buffer_cache c1 = buffer_cache c" "list_lru c1 = list_lru c" "cache.more c1 = cache.more c"
    by metis
  from Cons.IH [OF c1(2)] Cons.prems(2) obtain c' where c': "flush_loop bs c1 = Some c'" "cache_core c'" "sectors c' = sectors c1"
    "device_size c' = device_size c1" "\<forall>b\<in>set bs. \<not> buffer_is_delayed (buffers c' b)"
    "\<forall>b. sector (buffers c' b) = sector (buffers c1 b)" "\<forall>b. b \<notin> set bs \<longrightarrow> buffers c' b = buffers c1 b"
    "buffer_cache c' = buffer_cache c1" "list_lru c' = list_lru c1" "cache.more c' = cache.more c1"
    by auto
  have "\<not> buffer_is_delayed (buffers c' b)" using c'(5,7) c1(5) by (cases "b \<in> set bs") auto
  then show ?case using c1 c' by auto
qed simp

lemma cache_flush_cache_ok:
  assumes "cache_ok c"
  obtains c' where "cache_flush_cache c = Some c'" "cache_ok c'" "sectors c' = sectors c"
    "device_size c' = device_size c" "cache.more c' = cache.more c"
    "contents (fs_device c') = sectors c"
proof -
  let ?bs = "[b \<leftarrow> [0..<64]. buffer_cache c (sector (buffers c b)) = Some b]"
  have core: "cache_core c" using assms by (simp add: cache_ok_def)
  obtain c' where c': "flush_loop ?bs c = Some c'" "cache_core c'" "sectors c' = sectors c" "device_size c' = device_size c"
    "\<forall>b\<in>set ?bs. \<not> buffer_is_delayed (buffers c' b)" "\<forall>b. sector (buffers c' b) = sector (buffers c b)"
    "buffer_cache c' = buffer_cache c" "list_lru c' = list_lru c" "cache.more c' = cache.more c"
    using flush_loop_ok [OF core, of ?bs] by auto
  have "hashed c' x = hashed c x" for x using c' by (simp add: hashed_def)
  then have ok: "cache_ok c'" using assms c' by (simp add: cache_ok_def)
  have "contents (fs_device c') = sectors c'"
  proof
    fix s
    show "contents (fs_device c') s = sectors c' s"
    proof (cases "buffer_cache c' s")
      case (Some b)
      note hit = core_hit [OF c'(2) Some]
      then have "b \<in> set ?bs" using Some c' by simp
      then show ?thesis using hit(6) c'(5) Some by (simp add: sectors_def)
    qed (simp add: sectors_def)
  qed
  then show ?thesis using that [of c'] ok c' by (simp add: cache_flush_cache_def)
qed

section \<open>Clients of the store\<close>

text \<open>
  The interface the higher layers rely on: reading returns what the store holds, writing
  changes one sector, flushing makes the device hold the store; none of them touches the rest
  of the state.
\<close>

datatype block_op = Read block_sector_t | Write block_sector_t bytes | Flush

fun in_range :: "block_sector_t \<Rightarrow> block_op \<Rightarrow> bool" where
  "in_range n (Read s) = (s < n)"
| "in_range n (Write s d) = (s < n)"
| "in_range n Flush = True"

text \<open>The specification: the results of the reads, and the final store.\<close>

fun store_run :: "block_op list \<Rightarrow> (block_sector_t \<Rightarrow> bytes) \<Rightarrow> bytes list \<times> (block_sector_t \<Rightarrow> bytes)" where
  "store_run [] m = ([], m)"
| "store_run (Read s # ops) m = (let (ds, m') = store_run ops m in (m s # ds, m'))"
| "store_run (Write s d # ops) m = store_run ops (m(s := d))"
| "store_run (Flush # ops) m = store_run ops m"

fun block_run ::
  "(block_sector_t \<Rightarrow> 's \<Rightarrow> (bytes \<times> 's) option) \<Rightarrow> (block_sector_t \<Rightarrow> bytes \<Rightarrow> 's \<Rightarrow> 's option) \<Rightarrow> ('s \<Rightarrow> 's option)
   \<Rightarrow> block_op list \<Rightarrow> 's \<Rightarrow> (bytes list \<times> 's) option" where
  "block_run rd wr fl [] c = Some ([], c)"
| "block_run rd wr fl (Read s # ops) c = do {
     (d, c) \<leftarrow> rd s c;
     (ds, c) \<leftarrow> block_run rd wr fl ops c;
     Some (d # ds, c) }"
| "block_run rd wr fl (Write s d # ops) c = do { c \<leftarrow> wr s d c; block_run rd wr fl ops c }"
| "block_run rd wr fl (Flush # ops) c = do { c \<leftarrow> fl c; block_run rd wr fl ops c }"

lemma block_run_append:
  "block_run rd wr fl (xs @ ys) c = do {
     (ds, c) \<leftarrow> block_run rd wr fl xs c;
     (es, c) \<leftarrow> block_run rd wr fl ys c;
     Some (ds @ es, c) }"
  by (induction rd wr fl xs c rule: block_run.induct) (auto split: Option.bind_splits prod.splits)

locale block_store =
  fixes ok :: "'s \<Rightarrow> bool" and store :: "'s \<Rightarrow> block_sector_t \<Rightarrow> bytes" and size :: "'s \<Rightarrow> block_sector_t"
    and others :: "'s \<Rightarrow> 'r" and device :: "'s \<Rightarrow> block_sector_t \<Rightarrow> bytes"
    and rd :: "block_sector_t \<Rightarrow> 's \<Rightarrow> (bytes \<times> 's) option"
    and wr :: "block_sector_t \<Rightarrow> bytes \<Rightarrow> 's \<Rightarrow> 's option"
    and fl :: "'s \<Rightarrow> 's option"
  assumes rd: "ok c \<Longrightarrow> s < size c \<Longrightarrow>
      \<exists>c'. rd s c = Some (store c s, c') \<and> ok c' \<and> store c' = store c \<and> size c' = size c \<and> others c' = others c"
    and wr: "ok c \<Longrightarrow> s < size c \<Longrightarrow>
      \<exists>c'. wr s d c = Some c' \<and> ok c' \<and> store c' = (store c)(s := d) \<and> size c' = size c \<and> others c' = others c"
    and fl: "ok c \<Longrightarrow>
      \<exists>c'. fl c = Some c' \<and> ok c' \<and> store c' = store c \<and> device c' = store c \<and> size c' = size c \<and> others c' = others c"
begin

lemma run_refines:
  assumes "ok c" "\<forall>op\<in>set ops. in_range (size c) op"
  shows "\<exists>c'. block_run rd wr fl ops c = Some (fst (store_run ops (store c)), c') \<and> ok c'
    \<and> store c' = snd (store_run ops (store c)) \<and> size c' = size c \<and> others c' = others c"
  using assms
proof (induction ops arbitrary: c)
  case (Cons op ops)
  show ?case
  proof (cases op)
    case (Read s)
    with Cons.prems obtain c1 where c1: "rd s c = Some (store c s, c1)" "ok c1" "store c1 = store c" "size c1 = size c"
      "others c1 = others c" using rd by fastforce
    then show ?thesis using Cons.IH [OF c1(2)] Cons.prems Read by (fastforce split: prod.split)
  next
    case (Write s d)
    with Cons.prems obtain c1 where c1: "wr s d c = Some c1" "ok c1" "store c1 = (store c)(s := d)" "size c1 = size c"
      "others c1 = others c" using wr by fastforce
    then show ?thesis using Cons.IH [OF c1(2)] Cons.prems Write by fastforce
  next
    case Flush
    with Cons.prems obtain c1 where c1: "fl c = Some c1" "ok c1" "store c1 = store c" "size c1 = size c"
      "others c1 = others c" using fl by fastforce
    then show ?thesis using Cons.IH [OF c1(2)] Cons.prems Flush by fastforce
  qed
qed simp

lemma run_durable:
  assumes "ok c" "\<forall>op\<in>set ops. in_range (size c) op"
  shows "\<exists>c'. block_run rd wr fl (ops @ [Flush]) c = Some (fst (store_run ops (store c)), c')
    \<and> device c' = snd (store_run ops (store c))"
proof -
  from run_refines [OF assms] obtain c1 where "block_run rd wr fl ops c = Some (fst (store_run ops (store c)), c1)" "ok c1"
    "store c1 = snd (store_run ops (store c))" by blast
  then show ?thesis using fl [of c1] by (auto simp: block_run_append)
qed

end

interpretation bc: block_store cache_ok sectors device_size cache.more "\<lambda>c. contents (fs_device c)"
  cache_block_read cache_block_write cache_flush_cache
proof
  fix c :: "'z cache_scheme" and s d
  assume ok: "cache_ok c"
  show "\<exists>c'. cache_flush_cache c = Some c' \<and> cache_ok c' \<and> sectors c' = sectors c \<and> contents (fs_device c') = sectors c
    \<and> device_size c' = device_size c \<and> cache.more c' = cache.more c"
    using cache_flush_cache_ok [OF ok] by metis
  assume s: "s < device_size c"
  show "\<exists>c'. cache_block_read s c = Some (sectors c s, c') \<and> cache_ok c' \<and> sectors c' = sectors c
    \<and> device_size c' = device_size c \<and> cache.more c' = cache.more c"
    using cache_block_read_ok [OF ok s] by metis
  show "\<exists>c'. cache_block_write s d c = Some c' \<and> cache_ok c' \<and> sectors c' = (sectors c)(s := d)
    \<and> device_size c' = device_size c \<and> cache.more c' = cache.more c"
    using cache_block_write_ok [OF ok s] by metis
qed

lemma cache_init_ok:
  assumes "btype dev \<noteq> BLOCK_FOREIGN"
  shows "cache_ok (cache_init dev c)" "sectors (cache_init dev c) = contents dev" "device_size (cache_init dev c) = bsize dev"
    "cache.more (cache_init dev c) = cache.more c"
  using assms by (auto simp: cache_ok_def cache_core_def cache_init_def hashed_def buffer_is_delayed_def sectors_def device_size_def)

text \<open>
  C12: Whatever sequence of sector reads, sector writes and flushes runs on a freshly initialised
  cache, every read returns what the plain array of sectors would return, no operation panics
  or waits, and after a final flush the device holds exactly that array.
\<close>

theorem cache_refines_store:
  assumes "btype dev \<noteq> BLOCK_FOREIGN" "\<forall>op\<in>set ops. in_range (bsize dev) op"
  shows "\<exists>c'. block_run cache_block_read cache_block_write cache_flush_cache (ops @ [Flush]) (cache_init dev c) =
      Some (fst (store_run ops (contents dev)), c')
    \<and> contents (fs_device c') = snd (store_run ops (contents dev))"
  using bc.run_durable [OF cache_init_ok(1) [OF assms(1)], of ops c] cache_init_ok(2,3) [OF assms(1), of c] assms(2)
  by simp

definition demo_disk :: block where
  "demo_disk = \<lparr>btype = BLOCK_FILESYS, bsize = 128, read_cnt = 0, write_cnt = 0, contents = (\<lambda>_. [])\<rparr>"

definition no_cache :: cache where
  "no_cache = \<lparr>fs_device = demo_disk, buffers = (\<lambda>_. \<lparr>sector = 0, cstatus = 0, lock_shared = 0, cdata = []\<rparr>),
     buffer_cache = Map.empty, list_lru = [], sema_lru = 0\<rparr>"

text \<open>A hundred sectors, more than there are buffers, are written and the first is read back.\<close>

definition demo_ops :: "block_op list" where
  "demo_ops = map (\<lambda>i. Write (of_nat i) [of_nat i]) [1..<101] @ [Read 1]"

theorem cache_refines_store_witness:
  "btype demo_disk \<noteq> BLOCK_FOREIGN \<and> list_all (in_range (bsize demo_disk)) demo_ops
   \<and> block_run cache_block_read cache_block_write cache_flush_cache (demo_ops @ [Flush]) (cache_init demo_disk no_cache) \<noteq> None"
proof -
  have "of_nat i < (128 :: u32)" if "i < 101" for i
    using that by (simp add: word_less_nat_alt unat_of_nat take_bit_nat_eq_self)
  then have "\<forall>op\<in>set demo_ops. in_range (bsize demo_disk) op" by (auto simp: demo_ops_def demo_disk_def)
  moreover have "btype demo_disk \<noteq> BLOCK_FOREIGN" by (simp add: demo_disk_def)
  ultimately show ?thesis using cache_refines_store [of demo_disk demo_ops no_cache] by (auto simp: list_all_iff)
qed

end
