(* ===== verification/Disk_Format.thy ===== *)
theory Disk_Format
  imports Block
begin

text \<open>
  The layout of the file system's data in a sector: little-endian words, arrays of words (an
  index block of 128 slots), and the inode of \<open>filesys/inode.c\<close> (\<open>struct inode_disk\<close>); with the
  round trips between the two.
\<close>

section \<open>The layout\<close>

definition bytes_of_word :: "u32 \<Rightarrow> bytes" where
  "bytes_of_word w = [ucast w, ucast (drop_bit 8 w), ucast (drop_bit 16 w), ucast (drop_bit 24 w)]"

definition word_of_bytes :: "u8 \<Rightarrow> u8 \<Rightarrow> u8 \<Rightarrow> u8 \<Rightarrow> u32" where
  "word_of_bytes a b c d =
     ucast a OR push_bit 8 (ucast b) OR push_bit 16 (ucast c) OR push_bit 24 (ucast d)"

definition bytes_of :: "u32 list \<Rightarrow> bytes" where
  "bytes_of ws = concat (map bytes_of_word ws)"

fun words_of :: "bytes \<Rightarrow> u32 list" where
  "words_of (a # b # c # d # bs) = word_of_bytes a b c d # words_of bs"
| "words_of _ = []"

record inode_disk =
  dlength :: int
  magic :: u32
  is_dir :: u32
  dblock :: "block_sector_t list"

definition bytes_of_inode :: "inode_disk \<Rightarrow> bytes" where
  "bytes_of_inode d = bytes_of (word_of_int (dlength d) # magic d # is_dir d # dblock d)"

definition inode_of_bytes :: "bytes \<Rightarrow> inode_disk" where
  "inode_of_bytes bs =
     (let ws = words_of bs
      in \<lparr>dlength = sint (ws ! 0), magic = ws ! 1, is_dir = ws ! 2, dblock = drop 3 ws\<rparr>)"

section \<open>Round trips\<close>

lemma word_of_bytes_of_word: "word_of_bytes (ucast w) (ucast (drop_bit 8 w)) (ucast (drop_bit 16 w)) (ucast (drop_bit 24 w)) = w"
proof (rule bit_word_eqI)
  fix n assume "n < LENGTH(32)"
  then consider "n < 8" | "8 \<le> n" "n < 16" | "16 \<le> n" "n < 24" | "24 \<le> n" "n < 32" by fastforce
  then show "bit (word_of_bytes (ucast w) (ucast (drop_bit 8 w)) (ucast (drop_bit 16 w)) (ucast (drop_bit 24 w))) n = bit w n"
    by cases (auto simp: word_of_bytes_def bit_simps)
qed

lemma bytes_of_word_of_bytes: "bytes_of_word (word_of_bytes a b c d) = [a, b, c, d]"
  unfolding word_of_bytes_def bytes_of_word_def
  apply (intro list.inject [THEN iffD2] conjI refl)
  by (rule bit_word_eqI; auto simp: bit_simps dest: bit_imp_le_length)+

lemma bytes_of_Nil [simp]: "bytes_of [] = []"
  by (simp add: bytes_of_def)

lemma bytes_of_Cons: "bytes_of (w # ws) = bytes_of_word w @ bytes_of ws"
  by (simp add: bytes_of_def)

lemma length_bytes_of [simp]: "length (bytes_of ws) = 4 * length ws"
  by (induction ws) (simp_all add: bytes_of_Cons bytes_of_word_def)

lemma words_of_bytes_of [simp]: "words_of (bytes_of ws) = ws"
  by (induction ws) (simp_all add: bytes_of_Cons bytes_of_word_def word_of_bytes_of_word)

lemma length_words_of: "length (words_of bs) = length bs div 4"
  by (induction bs rule: words_of.induct) auto

lemma bytes_of_words_of: "length bs mod 4 = 0 \<Longrightarrow> bytes_of (words_of bs) = bs"
  by (induction bs rule: words_of.induct) (auto simp: bytes_of_Cons bytes_of_word_of_bytes mod_Suc split: if_splits)

lemma length_bytes_of_inode [simp]: "length (bytes_of_inode d) = 12 + 4 * length (dblock d)"
  by (simp add: bytes_of_inode_def)

lemma sint_word_of_int_u32: "- 2147483648 \<le> n \<Longrightarrow> n < 2147483648 \<Longrightarrow> sint (word_of_int n :: u32) = n"
  by (simp add: sint_uint signed_take_bit_int_eq_self unsigned_of_int signed_take_bit_take_bit)

lemma inode_of_bytes_of_inode:
  assumes "- 2147483648 \<le> dlength d" "dlength d < 2147483648"
  shows "inode_of_bytes (bytes_of_inode d) = d"
  using sint_word_of_int_u32 [OF assms]
  by (simp add: inode_of_bytes_def bytes_of_inode_def Let_def numeral_3_eq_3)

lemma inode_of_bytes_fields:
  assumes "length bs = 512"
  shows "length (dblock (inode_of_bytes bs)) = 125"
    "- 2147483648 \<le> dlength (inode_of_bytes bs)" "dlength (inode_of_bytes bs) < 2147483648"
  using assms sint_ge [of "words_of bs ! 0"] sint_lt [of "words_of bs ! 0"]
  by (simp_all add: inode_of_bytes_def Let_def length_words_of)

lemma bytes_of_inode_of_bytes:
  assumes "length bs = 512"
  shows "bytes_of_inode (inode_of_bytes bs) = bs"
proof -
  let ?ws = "words_of bs"
  have "length ?ws = Suc (Suc (Suc 125))" using assms by (simp add: length_words_of)
  then obtain a b c r where "?ws = a # b # c # r" unfolding length_Suc_conv by blast
  then have "bytes_of_inode (inode_of_bytes bs) = bytes_of ?ws"
    by (simp add: bytes_of_inode_def inode_of_bytes_def Let_def numeral_3_eq_3)
  then show ?thesis using assms by (simp add: bytes_of_words_of)
qed

end
