(* ===== verification/Bitmap.thy ===== *)
theory Bitmap
  imports Pintos_Prelude
begin

text \<open>
  Bitmaps (\<open>lib/kernel/bitmap.c\<close>): the bit operations on an array of 32-bit elements, and
  that they implement an array of bits. An index beyond the array, like a failed assertion,
  is \<open>None\<close>. All sizes are 32-bit words, so that the sums in the assertions wrap as in C.
\<close>

section \<open>The code\<close>

abbreviation (input) ELEM_BITS :: u32 where "ELEM_BITS \<equiv> 32"
abbreviation (input) BITMAP_ERROR :: u32 where "BITMAP_ERROR \<equiv> - 1"

record bitmap =
  bit_cnt :: u32
  bits :: "u32 list"

definition elem_idx :: "u32 \<Rightarrow> u32" where
  "elem_idx bit_idx = bit_idx div ELEM_BITS"

definition bit_mask :: "u32 \<Rightarrow> u32" where
  "bit_mask bit_idx = push_bit (unat (bit_idx mod ELEM_BITS)) 1"

definition elem_cnt :: "u32 \<Rightarrow> u32" where
  "elem_cnt n = (n + ELEM_BITS - 1) div ELEM_BITS"

definition byte_cnt :: "u32 \<Rightarrow> u32" where
  "byte_cnt n = 4 * elem_cnt n"

definition last_mask :: "bitmap \<Rightarrow> u32" where
  "last_mask b =
     (let last_bits = bit_cnt b mod ELEM_BITS
      in if last_bits \<noteq> 0 then push_bit (unat last_bits) 1 - 1 else - 1)"

definition get_elem :: "bitmap \<Rightarrow> u32 \<Rightarrow> u32 option" where
  "get_elem b idx = (if unat idx < length (bits b) then Some (bits b ! unat idx) else None)"

definition set_elem :: "bitmap \<Rightarrow> u32 \<Rightarrow> u32 \<Rightarrow> bitmap option" where
  "set_elem b idx v =
     (if unat idx < length (bits b) then Some (b\<lparr>bits := (bits b)[unat idx := v]\<rparr>) else None)"

definition bitmap_mark :: "bitmap \<Rightarrow> u32 \<Rightarrow> bitmap option" where
  "bitmap_mark b bit_idx = do {
     let idx = elem_idx bit_idx;
     e \<leftarrow> get_elem b idx;
     set_elem b idx (e OR bit_mask bit_idx) }"

definition bitmap_reset :: "bitmap \<Rightarrow> u32 \<Rightarrow> bitmap option" where
  "bitmap_reset b bit_idx = do {
     let idx = elem_idx bit_idx;
     e \<leftarrow> get_elem b idx;
     set_elem b idx (e AND NOT (bit_mask bit_idx)) }"

definition bitmap_flip :: "bitmap \<Rightarrow> u32 \<Rightarrow> bitmap option" where
  "bitmap_flip b bit_idx = do {
     let idx = elem_idx bit_idx;
     e \<leftarrow> get_elem b idx;
     set_elem b idx (e XOR bit_mask bit_idx) }"

definition bitmap_set :: "bitmap \<Rightarrow> u32 \<Rightarrow> bool \<Rightarrow> bitmap option" where
  "bitmap_set b idx v = do {
     kassert (idx < bit_cnt b);
     if v then bitmap_mark b idx else bitmap_reset b idx }"

definition bitmap_test :: "bitmap \<Rightarrow> u32 \<Rightarrow> bool option" where
  "bitmap_test b idx = do {
     kassert (idx < bit_cnt b);
     e \<leftarrow> get_elem b (elem_idx idx);
     Some ((e AND bit_mask idx) \<noteq> 0) }"

definition bitmap_size :: "bitmap \<Rightarrow> u32" where
  "bitmap_size b = bit_cnt b"

text \<open>The counting loops run over \<open>i = 0, \<dots>, cnt - 1\<close>.\<close>

fun set_multiple_loop :: "bitmap \<Rightarrow> u32 \<Rightarrow> bool \<Rightarrow> nat list \<Rightarrow> bitmap option" where
  "set_multiple_loop b start v [] = Some b"
| "set_multiple_loop b start v (i # is) = do {
     b \<leftarrow> bitmap_set b (start + of_nat i) v;
     set_multiple_loop b start v is }"

definition bitmap_set_multiple :: "bitmap \<Rightarrow> u32 \<Rightarrow> u32 \<Rightarrow> bool \<Rightarrow> bitmap option" where
  "bitmap_set_multiple b start cnt v = do {
     kassert (start \<le> bit_cnt b);
     kassert (start + cnt \<le> bit_cnt b);
     set_multiple_loop b start v [0..<unat cnt] }"

definition bitmap_set_all :: "bitmap \<Rightarrow> bool \<Rightarrow> bitmap option" where
  "bitmap_set_all b v = bitmap_set_multiple b 0 (bitmap_size b) v"

fun count_loop :: "bitmap \<Rightarrow> u32 \<Rightarrow> bool \<Rightarrow> u32 \<Rightarrow> nat list \<Rightarrow> u32 option" where
  "count_loop b start v value_cnt [] = Some value_cnt"
| "count_loop b start v value_cnt (i # is) = do {
     x \<leftarrow> bitmap_test b (start + of_nat i);
     count_loop b start v (if x = v then value_cnt + 1 else value_cnt) is }"

definition bitmap_count :: "bitmap \<Rightarrow> u32 \<Rightarrow> u32 \<Rightarrow> bool \<Rightarrow> u32 option" where
  "bitmap_count b start cnt v = do {
     kassert (start \<le> bit_cnt b);
     kassert (start + cnt \<le> bit_cnt b);
     count_loop b start v 0 [0..<unat cnt] }"

fun contains_loop :: "bitmap \<Rightarrow> u32 \<Rightarrow> bool \<Rightarrow> nat list \<Rightarrow> bool option" where
  "contains_loop b start v [] = Some False"
| "contains_loop b start v (i # is) = do {
     x \<leftarrow> bitmap_test b (start + of_nat i);
     if x = v then Some True else contains_loop b start v is }"

definition bitmap_contains :: "bitmap \<Rightarrow> u32 \<Rightarrow> u32 \<Rightarrow> bool \<Rightarrow> bool option" where
  "bitmap_contains b start cnt v = do {
     kassert (start \<le> bit_cnt b);
     kassert (start + cnt \<le> bit_cnt b);
     contains_loop b start v [0..<unat cnt] }"

definition bitmap_any :: "bitmap \<Rightarrow> u32 \<Rightarrow> u32 \<Rightarrow> bool option" where
  "bitmap_any b start cnt = bitmap_contains b start cnt True"

definition bitmap_none :: "bitmap \<Rightarrow> u32 \<Rightarrow> u32 \<Rightarrow> bool option" where
  "bitmap_none b start cnt = map_option Not (bitmap_contains b start cnt True)"

definition bitmap_all :: "bitmap \<Rightarrow> u32 \<Rightarrow> u32 \<Rightarrow> bool option" where
  "bitmap_all b start cnt = map_option Not (bitmap_contains b start cnt False)"

fun scan_loop :: "bitmap \<Rightarrow> u32 \<Rightarrow> bool \<Rightarrow> nat list \<Rightarrow> u32 option" where
  "scan_loop b cnt v [] = Some BITMAP_ERROR"
| "scan_loop b cnt v (i # is) = do {
     c \<leftarrow> bitmap_contains b (of_nat i) cnt (\<not> v);
     if \<not> c then Some (of_nat i) else scan_loop b cnt v is }"

definition bitmap_scan :: "bitmap \<Rightarrow> u32 \<Rightarrow> u32 \<Rightarrow> bool \<Rightarrow> u32 option" where
  "bitmap_scan b start cnt v = do {
     kassert (start \<le> bit_cnt b);
     if cnt \<le> bit_cnt b then scan_loop b cnt v [unat start..<Suc (unat (bit_cnt b - cnt))]
     else Some BITMAP_ERROR }"

definition bitmap_scan_and_flip :: "bitmap \<Rightarrow> u32 \<Rightarrow> u32 \<Rightarrow> bool \<Rightarrow> (u32 \<times> bitmap) option" where
  "bitmap_scan_and_flip b start cnt v = do {
     idx \<leftarrow> bitmap_scan b start cnt v;
     if idx \<noteq> BITMAP_ERROR then do {
       b \<leftarrow> bitmap_set_multiple b idx cnt (\<not> v);
       Some (idx, b) }
     else Some (idx, b) }"

text \<open>
  Creation. \<open>raw\<close> is what the two calls of \<open>malloc\<close> return, the second as the contents of the
  memory it found; the outer \<open>None\<close> is a panic, the inner one the null pointer.
\<close>

definition bitmap_create :: "u32 \<Rightarrow> bool \<Rightarrow> u32 list option \<Rightarrow> bitmap option option" where
  "bitmap_create n have_struct raw =
     (if \<not> have_struct then Some None
      else case raw of
        Some es \<Rightarrow> map_option Some (bitmap_set_all \<lparr>bit_cnt = n, bits = es\<rparr> False)
      | None \<Rightarrow> if n = 0 then map_option Some (bitmap_set_all \<lparr>bit_cnt = n, bits = []\<rparr> False) else Some None)"

definition bitmap_buf_size :: "u32 \<Rightarrow> u32" where
  "bitmap_buf_size n = 8 + byte_cnt n"

definition bitmap_create_in_buf :: "u32 \<Rightarrow> u32 list \<Rightarrow> u32 \<Rightarrow> bitmap option" where
  "bitmap_create_in_buf n mem block_size = do {
     kassert (block_size \<ge> bitmap_buf_size n);
     bitmap_set_all \<lparr>bit_cnt = n, bits = mem\<rparr> False }"

definition bitmap_file_size :: "bitmap \<Rightarrow> u32" where
  "bitmap_file_size b = byte_cnt (bit_cnt b)"

section \<open>The array of bits\<close>

definition bitv :: "bitmap \<Rightarrow> nat \<Rightarrow> bool" where
  "bitv b i = bit (bits b ! (i div 32)) (i mod 32)"

definition size_of :: "bitmap \<Rightarrow> nat" where
  "size_of b = unat (bit_cnt b)"

definition bitmap_ok :: "bitmap \<Rightarrow> bool" where
  "bitmap_ok b \<longleftrightarrow> length (bits b) = (size_of b + 31) div 32"

lemma unat_elem_idx [simp]: "unat (elem_idx i) = unat i div 32"
  by (simp add: elem_idx_def unat_div_distrib)

lemma bit_mask_bit: "bit (bit_mask i) j \<longleftrightarrow> j = unat i mod 32"
proof -
  have "unat i mod 32 < LENGTH(32)" by simp
  then show ?thesis by (auto simp: bit_mask_def unat_mod bit_exp_iff)
qed

lemma in_range: "bitmap_ok b \<Longrightarrow> i < size_of b \<Longrightarrow> i div 32 < length (bits b)"
  by (simp add: bitmap_ok_def)

text \<open>All single-bit updates have this form.\<close>

lemma bit_update:
  assumes "bitmap_ok b" "i < size_of b"
    and "\<And>j. j < 32 \<Longrightarrow> bit e j = (if j = i mod 32 then v else bit (bits b ! (i div 32)) j)"
  shows "bitmap_ok (b\<lparr>bits := (bits b)[i div 32 := e]\<rparr>)"
    "bitv (b\<lparr>bits := (bits b)[i div 32 := e]\<rparr>) j = (if j = i then v else bitv b j)"
proof -
  show "bitmap_ok (b\<lparr>bits := (bits b)[i div 32 := e]\<rparr>)" using assms(1) by (simp add: bitmap_ok_def size_of_def)
  have "j = i \<longleftrightarrow> j div 32 = i div 32 \<and> j mod 32 = i mod 32" by (metis div_mult_mod_eq)
  then show "bitv (b\<lparr>bits := (bits b)[i div 32 := e]\<rparr>) j = (if j = i then v else bitv b j)"
    using assms(3) [of "j mod 32"] in_range [OF assms(1,2)] by (auto simp: bitv_def nth_list_update)
qed

definition upd_bit :: "bitmap \<Rightarrow> nat \<Rightarrow> bool \<Rightarrow> bitmap \<Rightarrow> bool" where
  "upd_bit b i v b' \<longleftrightarrow> bitmap_ok b' \<and> bit_cnt b' = bit_cnt b \<and> (\<forall>j. bitv b' j = (if j = i then v else bitv b j))"

lemma bitmap_mark_spec:
  assumes "bitmap_ok b" "unat i < size_of b"
  shows "\<exists>b'. bitmap_mark b i = Some b' \<and> upd_bit b (unat i) True b'"
  using in_range [OF assms] bit_update [OF assms, of "bits b ! (unat i div 32) OR bit_mask i" True]
  by (auto simp: bitmap_mark_def get_elem_def set_elem_def Let_def upd_bit_def bit_or_iff bit_mask_bit)

lemma bitmap_reset_spec:
  assumes "bitmap_ok b" "unat i < size_of b"
  shows "\<exists>b'. bitmap_reset b i = Some b' \<and> upd_bit b (unat i) False b'"
  using in_range [OF assms] bit_update [OF assms, of "bits b ! (unat i div 32) AND NOT (bit_mask i)" False]
  by (auto simp: bitmap_reset_def get_elem_def set_elem_def Let_def upd_bit_def bit_and_iff bit_not_iff bit_mask_bit)

lemma bitmap_flip_spec:
  assumes "bitmap_ok b" "unat i < size_of b"
  shows "\<exists>b'. bitmap_flip b i = Some b' \<and> upd_bit b (unat i) (\<not> bitv b (unat i)) b'"
  using in_range [OF assms] bit_update [OF assms, of "bits b ! (unat i div 32) XOR bit_mask i" "\<not> bitv b (unat i)"]
  by (auto simp: bitmap_flip_def get_elem_def set_elem_def Let_def upd_bit_def bit_xor_iff bit_mask_bit bitv_def)

lemma bitmap_set_spec:
  assumes "bitmap_ok b" "unat i < size_of b"
  shows "\<exists>b'. bitmap_set b i v = Some b' \<and> upd_bit b (unat i) v b'"
  using assms bitmap_mark_spec [OF assms] bitmap_reset_spec [OF assms]
  by (cases v) (auto simp: bitmap_set_def size_of_def word_less_nat_alt)

lemma bitmap_test_spec:
  assumes "bitmap_ok b" "unat i < size_of b"
  shows "bitmap_test b i = Some (bitv b (unat i))"
proof -
  have "(e AND bit_mask i \<noteq> 0) = bit e (unat i mod 32)" for e
  proof -
    have "e AND bit_mask i \<noteq> 0 \<longleftrightarrow> (\<exists>n. bit (e AND bit_mask i) n)" using bit_word_eqI [of "e AND bit_mask i" 0] by auto
    also have "\<dots> = bit e (unat i mod 32)" by (auto simp: bit_and_iff bit_mask_bit)
    finally show ?thesis .
  qed
  then show ?thesis using in_range [OF assms] assms(2)
    by (simp add: bitmap_test_def get_elem_def bitv_def size_of_def word_less_nat_alt)
qed

section \<open>Ranges\<close>

lemma size_of_bound: "size_of b < 2 ^ 32"
  using unsigned_less [of "bit_cnt b"] by (simp add: size_of_def)

lemma range_asserts:
  assumes "unat start + unat cnt \<le> size_of b"
  shows "start \<le> bit_cnt b" "start + cnt \<le> bit_cnt b"
proof -
  show "start \<le> bit_cnt b" using assms by (simp add: word_le_nat_alt size_of_def)
  have "unat (start + cnt) = unat start + unat cnt"
    using assms size_of_bound [of b] by (simp add: unat_word_ariths)
  then show "start + cnt \<le> bit_cnt b" using assms by (simp add: word_le_nat_alt size_of_def)
qed

lemma set_multiple_loop_spec:
  assumes "bitmap_ok b" "\<forall>i\<in>set is. unat start + i < size_of b"
  shows "\<exists>b'. set_multiple_loop b start v is = Some b' \<and> bitmap_ok b' \<and> bit_cnt b' = bit_cnt b \<and>
    (\<forall>j. bitv b' j = (if \<exists>i\<in>set is. j = unat start + i then v else bitv b j))"
  using assms
proof (induction "is" arbitrary: b)
  case (Cons i "is")
  have u: "unat (start + of_nat i) = unat start + i"
    using Cons.prems(2) size_of_bound [of b] by (intro unat_add_of_nat) (simp add: order_less_trans)
  obtain b1 where b1: "bitmap_set b (start + of_nat i) v = Some b1" "upd_bit b (unat start + i) v b1"
    using bitmap_set_spec [of b "start + of_nat i" v] Cons.prems u by auto
  have "\<forall>i\<in>set is. unat start + i < size_of b1" using Cons.prems(2) b1(2) by (simp add: upd_bit_def size_of_def)
  then obtain b' where b': "set_multiple_loop b1 start v is = Some b'" "bitmap_ok b'" "bit_cnt b' = bit_cnt b1"
    "\<forall>j. bitv b' j = (if \<exists>i\<in>set is. j = unat start + i then v else bitv b1 j)"
    using Cons.IH [of b1] b1(2) by (auto simp: upd_bit_def)
  then show ?case using b1 by (auto simp: upd_bit_def)
qed simp

lemma bitmap_set_multiple_spec:
  assumes "bitmap_ok b" "unat start + unat cnt \<le> size_of b"
  shows "\<exists>b'. bitmap_set_multiple b start cnt v = Some b' \<and> bitmap_ok b' \<and> bit_cnt b' = bit_cnt b \<and>
    (\<forall>j. bitv b' j = (if unat start \<le> j \<and> j < unat start + unat cnt then v else bitv b j))"
proof -
  have "(\<exists>i\<in>set [0..<unat cnt]. j = unat start + i) \<longleftrightarrow> unat start \<le> j \<and> j < unat start + unat cnt" for j
    by (auto intro: bexI [of _ "j - unat start"])
  then show ?thesis
    using set_multiple_loop_spec [OF assms(1), of "[0..<unat cnt]" start v] range_asserts [OF assms(2)] assms(2)
    by (simp add: bitmap_set_multiple_def)
qed

lemma test_in_loop:
  assumes "bitmap_ok b" "unat start + i < size_of b"
  shows "bitmap_test b (start + of_nat i) = Some (bitv b (unat start + i))"
proof -
  have "unat (start + of_nat i) = unat start + i"
    using assms(2) size_of_bound [of b] by (intro unat_add_of_nat) simp
  then show ?thesis using bitmap_test_spec [OF assms(1), of "start + of_nat i"] assms(2) by simp
qed

lemma count_loop_spec:
  assumes "bitmap_ok b" "\<forall>i\<in>set is. unat start + i < size_of b"
  shows "count_loop b start v n is = Some (n + of_nat (length (filter (\<lambda>i. bitv b (unat start + i) = v) is)))"
  using assms by (induction "is" arbitrary: n) (auto simp: test_in_loop)

lemma contains_loop_spec:
  assumes "bitmap_ok b" "\<forall>i\<in>set is. unat start + i < size_of b"
  shows "contains_loop b start v is = Some (\<exists>i\<in>set is. bitv b (unat start + i) = v)"
  using assms by (induction "is") (auto simp: test_in_loop)

lemma bitmap_contains_spec:
  assumes "bitmap_ok b" "unat start + unat cnt \<le> size_of b"
  shows "bitmap_contains b start cnt v = Some (\<exists>j. unat start \<le> j \<and> j < unat start + unat cnt \<and> bitv b j = v)"
proof -
  have "(\<exists>i\<in>set [0..<unat cnt]. bitv b (unat start + i) = v) \<longleftrightarrow>
      (\<exists>j. unat start \<le> j \<and> j < unat start + unat cnt \<and> bitv b j = v)"
    (is "?l \<longleftrightarrow> ?r")
  proof
    assume ?r
    then obtain j where "unat start \<le> j" "j < unat start + unat cnt" "bitv b j = v" by blast
    then show ?l by (intro bexI [of _ "j - unat start"]) auto
  next
    assume ?l
    then obtain i where "i < unat cnt" "bitv b (unat start + i) = v" by auto
    then show ?r by (intro exI [of _ "unat start + i"]) auto
  qed
  then show ?thesis
    using contains_loop_spec [OF assms(1), of "[0..<unat cnt]" start v] range_asserts [OF assms(2)] assms(2)
    by (simp add: bitmap_contains_def)
qed

lemma bitmap_count_spec:
  assumes "bitmap_ok b" "unat start + unat cnt \<le> size_of b"
  shows "bitmap_count b start cnt v = Some (of_nat (card {j. unat start \<le> j \<and> j < unat start + unat cnt \<and> bitv b j = v}))"
proof -
  have "{j. unat start \<le> j \<and> j < unat start + unat cnt \<and> bitv b j = v} =
      (+) (unat start) ` {i. i < unat cnt \<and> bitv b (unat start + i) = v}"
  proof (intro equalityI subsetI)
    fix j assume "j \<in> {j. unat start \<le> j \<and> j < unat start + unat cnt \<and> bitv b j = v}"
    then show "j \<in> (+) (unat start) ` {i. i < unat cnt \<and> bitv b (unat start + i) = v}"
      by (intro image_eqI [of _ _ "j - unat start"]) auto
  qed auto
  then have "card {j. unat start \<le> j \<and> j < unat start + unat cnt \<and> bitv b j = v} =
      card {i. i < unat cnt \<and> bitv b (unat start + i) = v}"
    by (simp add: card_image)
  moreover have "length (filter (\<lambda>i. bitv b (unat start + i) = v) [0..<unat cnt]) =
      card {i. i < unat cnt \<and> bitv b (unat start + i) = v}"
    by (simp add: length_filter_conv_card cong: conj_cong)
  ultimately show ?thesis
    using count_loop_spec [OF assms(1), of "[0..<unat cnt]" start v 0] range_asserts [OF assms(2)] assms(2)
    by (simp add: bitmap_count_def)
qed

section \<open>Searching\<close>

definition run_of :: "bitmap \<Rightarrow> nat \<Rightarrow> nat \<Rightarrow> bool \<Rightarrow> bool" where
  "run_of b i n v \<longleftrightarrow> i + n \<le> size_of b \<and> (\<forall>j. i \<le> j \<and> j < i + n \<longrightarrow> bitv b j = v)"

lemma scan_loop_spec:
  assumes "bitmap_ok b" "\<forall>i\<in>set is. i + unat cnt \<le> size_of b"
  shows "scan_loop b cnt v is =
    Some (case find (\<lambda>i. run_of b i (unat cnt) v) is of None \<Rightarrow> BITMAP_ERROR | Some i \<Rightarrow> of_nat i)"
  using assms(2)
proof (induction "is")
  case (Cons i "is")
  have "i < 2 ^ 32" using Cons.prems size_of_bound [of b] by (simp add: order_le_less_trans [of i])
  then have u: "unat (of_nat i :: u32) = i" by (rule unat_of_nat_u32)
  have "bitmap_contains b (of_nat i) cnt (\<not> v) = Some (\<not> run_of b i (unat cnt) v)"
    using bitmap_contains_spec [OF assms(1), of "of_nat i" cnt "\<not> v"] Cons.prems unfolding u
    by (auto simp: run_of_def)
  then show ?case using Cons by auto
qed simp

lemma find_upt_least:
  "find P [m..<n] = (if \<exists>i. m \<le> i \<and> i < n \<and> P i then Some (LEAST i. m \<le> i \<and> P i) else None)"
proof (cases "\<exists>i. m \<le> i \<and> i < n \<and> P i")
  case True
  then obtain i where i: "m \<le> i" "i < n" "P i" by blast
  define l where "l = (LEAST i. m \<le> i \<and> P i)"
  have l: "m \<le> l" "P l" using LeastI [of "\<lambda>i. m \<le> i \<and> P i" i] i by (simp_all add: l_def)
  have li: "l \<le> i" using Least_le [of "\<lambda>i. m \<le> i \<and> P i" i] i by (simp add: l_def)
  have least: "\<not> P j" if "m \<le> j" "j < l" for j
    using not_less_Least [of j "\<lambda>i. m \<le> i \<and> P i"] that by (simp add: l_def)
  have "find P [m..<n] = Some l"
    unfolding find_Some_iff using l li least i by (intro exI [of _ "l - m"]) auto
  then show ?thesis using True by (simp add: l_def)
qed (auto simp: find_None_iff)

lemma bitmap_scan_spec:
  assumes "bitmap_ok b" "unat start \<le> size_of b"
  shows "bitmap_scan b start cnt v =
    Some (if \<exists>i\<ge>unat start. run_of b i (unat cnt) v
          then of_nat (LEAST i. unat start \<le> i \<and> run_of b i (unat cnt) v) else BITMAP_ERROR)"
proof -
  have s: "start \<le> bit_cnt b" using assms(2) by (simp add: word_le_nat_alt size_of_def)
  show ?thesis
  proof (cases "cnt \<le> bit_cnt b")
    case True
    then have c: "unat cnt \<le> size_of b" and l: "unat (bit_cnt b - cnt) = size_of b - unat cnt"
      by (simp_all add: word_le_nat_alt size_of_def unat_sub)
    have "(\<exists>i. unat start \<le> i \<and> i < Suc (size_of b - unat cnt) \<and> run_of b i (unat cnt) v) \<longleftrightarrow>
        (\<exists>i\<ge>unat start. run_of b i (unat cnt) v)"
      by (auto simp: run_of_def)
    moreover have "scan_loop b cnt v [unat start..<Suc (size_of b - unat cnt)] =
        Some (case find (\<lambda>i. run_of b i (unat cnt) v) [unat start..<Suc (size_of b - unat cnt)] of
                None \<Rightarrow> BITMAP_ERROR | Some i \<Rightarrow> of_nat i)"
      by (rule scan_loop_spec [OF assms(1)]) (use c in auto)
    ultimately show ?thesis unfolding bitmap_scan_def l find_upt_least using s True
      by (auto simp del: upt_Suc)
  next
    case False
    then have "\<not> run_of b i (unat cnt) v" for i by (simp add: run_of_def word_le_nat_alt size_of_def)
    then show ?thesis using s False by (simp add: bitmap_scan_def)
  qed
qed

text \<open>The outcome of \<open>bitmap_scan_and_flip\<close> for at least one bit.\<close>

definition flipped :: "bitmap \<Rightarrow> nat \<Rightarrow> nat \<Rightarrow> bool \<Rightarrow> bitmap \<Rightarrow> bool" where
  "flipped b i n v b' \<longleftrightarrow> bitmap_ok b' \<and> bit_cnt b' = bit_cnt b \<and>
     (\<forall>j. bitv b' j = (if i \<le> j \<and> j < i + n then v else bitv b j))"

lemma bitmap_scan_and_flip_none:
  assumes "bitmap_ok b" "unat start \<le> size_of b" "\<not> (\<exists>i\<ge>unat start. run_of b i (unat cnt) v)"
  shows "bitmap_scan_and_flip b start cnt v = Some (BITMAP_ERROR, b)"
  using bitmap_scan_spec [OF assms(1,2), of cnt v] assms(3) by (simp add: bitmap_scan_and_flip_def)

lemma bitmap_scan_and_flip_some:
  assumes "bitmap_ok b" "unat start \<le> size_of b" "0 < unat cnt" "\<exists>i\<ge>unat start. run_of b i (unat cnt) v"
  shows "\<exists>i b'. bitmap_scan_and_flip b start cnt v = Some (of_nat i, b') \<and> unat (of_nat i :: u32) = i \<and>
    (of_nat i :: u32) \<noteq> BITMAP_ERROR \<and> unat start \<le> i \<and> run_of b i (unat cnt) v \<and>
    (\<forall>j. unat start \<le> j \<and> j < i \<longrightarrow> \<not> run_of b j (unat cnt) v) \<and> flipped b i (unat cnt) (\<not> v) b'"
proof -
  let ?P = "\<lambda>i. unat start \<le> i \<and> run_of b i (unat cnt) v"
  define i where "i = (LEAST i. ?P i)"
  have i: "unat start \<le> i" "run_of b i (unat cnt) v" using LeastI_ex [of ?P] assms(4) by (auto simp: i_def)
  have least: "\<not> run_of b j (unat cnt) v" if "unat start \<le> j" "j < i" for j
    using not_less_Least [of j ?P] that by (simp add: i_def)
  have bnd: "i + unat cnt \<le> size_of b" using i(2) by (simp add: run_of_def)
  then have lt: "i < 2 ^ 32 - 1" using assms(3) size_of_bound [of b] by linarith
  then have u: "unat (of_nat i :: u32) = i" by (intro unat_of_nat_u32) simp
  have ne: "(of_nat i :: u32) \<noteq> - 1"
  proof
    assume "(of_nat i :: u32) = - 1"
    then have "unat (of_nat i :: u32) = unat (- 1 :: u32)" by simp
    then show False using lt u by (simp add: unsigned_minus_1_eq_mask mask_eq_exp_minus_1)
  qed
  have "bitmap_scan b start cnt v = Some (of_nat i)"
    using bitmap_scan_spec [OF assms(1,2), of cnt v] assms(4) by (simp add: i_def)
  moreover obtain b' where "bitmap_set_multiple b (of_nat i) cnt (\<not> v) = Some b'" "flipped b i (unat cnt) (\<not> v) b'"
    using bitmap_set_multiple_spec [OF assms(1), of "of_nat i" cnt "\<not> v"] bnd unfolding u by (auto simp: flipped_def)
  ultimately have "bitmap_scan_and_flip b start cnt v = Some (of_nat i, b')"
    using ne by (simp add: bitmap_scan_and_flip_def)
  then show ?thesis using u ne i least \<open>flipped b i (unat cnt) (\<not> v) b'\<close> by blast
qed

section \<open>Creation\<close>

lemma elem_cnt_spec:
  assumes "unat n \<le> 2 ^ 32 - 32"
  shows "unat (elem_cnt n) = (unat n + 31) div 32"
proof -
  have "n + 32 - 1 = n + 31" by simp
  moreover have "unat (n + 31) = unat n + 31" using assms by (simp add: unat_word_ariths)
  ultimately show ?thesis by (simp only: elem_cnt_def unat_div_distrib) simp
qed

lemma bitmap_set_all_spec:
  assumes "bitmap_ok b"
  shows "\<exists>b'. bitmap_set_all b v = Some b' \<and> bitmap_ok b' \<and> bit_cnt b' = bit_cnt b \<and> (\<forall>j. j < size_of b \<longrightarrow> bitv b' j = v)"
  using bitmap_set_multiple_spec [OF assms, of 0 "bit_cnt b" v]
  by (auto simp: bitmap_set_all_def bitmap_size_def size_of_def)

lemma bitmap_create_spec:
  assumes "unat n \<le> 2 ^ 32 - 32" "\<And>es. raw = Some es \<Longrightarrow> length es = unat (elem_cnt n)"
  shows "bitmap_create n have_struct raw = Some None \<or>
    (\<exists>b. bitmap_create n have_struct raw = Some (Some b) \<and> bitmap_ok b \<and> bit_cnt b = n \<and> (\<forall>j<unat n. \<not> bitv b j))"
proof (cases raw)
  case None
  then show ?thesis using bitmap_set_all_spec [of "\<lparr>bit_cnt = 0, bits = []\<rparr>" False]
    by (auto simp: bitmap_create_def bitmap_ok_def size_of_def)
next
  case (Some es)
  then have "bitmap_ok \<lparr>bit_cnt = n, bits = es\<rparr>"
    using assms elem_cnt_spec [OF assms(1)] by (simp add: bitmap_ok_def size_of_def)
  then show ?thesis using Some bitmap_set_all_spec [of "\<lparr>bit_cnt = n, bits = es\<rparr>" False]
    by (auto simp: bitmap_create_def size_of_def)
qed

lemma bitmap_create_in_buf_spec:
  assumes "unat n \<le> 2 ^ 32 - 32" "length mem = unat (elem_cnt n)" "bitmap_buf_size n \<le> block_size"
  shows "\<exists>b. bitmap_create_in_buf n mem block_size = Some b \<and> bitmap_ok b \<and> bit_cnt b = n \<and> (\<forall>j<unat n. \<not> bitv b j)"
  using bitmap_set_all_spec [of "\<lparr>bit_cnt = n, bits = mem\<rparr>" False] assms elem_cnt_spec [OF assms(1)]
  by (auto simp: bitmap_create_in_buf_def bitmap_ok_def size_of_def)

text \<open>
  C22: Searching for \<open>cnt > 0\<close> equal bits finds the first such group at or after \<open>start\<close>, flips
  exactly its bits and returns its index; if there is none, nothing changes and the result is
  \<open>BITMAP_ERROR\<close>. No assertion fails and no access is out of range.
\<close>

theorem bitmap_scan_and_flip_correct:
  assumes "bitmap_ok b" "unat start \<le> size_of b" "0 < unat cnt"
  shows "(\<nexists>i. unat start \<le> i \<and> run_of b i (unat cnt) v) \<and> bitmap_scan_and_flip b start cnt v = Some (BITMAP_ERROR, b) \<or>
    (\<exists>i b'. bitmap_scan_and_flip b start cnt v = Some (of_nat i, b') \<and> (of_nat i :: u32) \<noteq> BITMAP_ERROR \<and>
      unat start \<le> i \<and> run_of b i (unat cnt) v \<and> (\<forall>j. unat start \<le> j \<and> j < i \<longrightarrow> \<not> run_of b j (unat cnt) v) \<and>
      flipped b i (unat cnt) (\<not> v) b')"
  using bitmap_scan_and_flip_none [OF assms(1,2)] bitmap_scan_and_flip_some [OF assms] by blast

definition half_full :: bitmap where
  "half_full = \<lparr>bit_cnt = 40, bits = [0x0000ffff, 0]\<rparr>"

theorem bitmap_scan_and_flip_correct_witness:
  "bitmap_ok half_full \<and> bitmap_scan_and_flip half_full 0 3 False \<noteq> None"
proof -
  have "bitmap_ok half_full" by (simp add: bitmap_ok_def half_full_def size_of_def)
  then show ?thesis using bitmap_scan_and_flip_correct [of half_full 0 3 False] by auto
qed

end
