(* ===== verification/Inode.thy ===== *)
theory Inode
  imports Cache Disk_Format Bitmap
begin

text \<open>
  Inodes and the free map (\<open>filesys/inode.c\<close>, \<open>filesys/free-map.c\<close>, \<open>filesys/file.c\<close>): the code.

  An inode maps the sectors of a file to sectors of the device: 123 slots in the inode itself,
  128 in an indirect sector and 128 times 128 behind a doubly indirect one. A slot that holds
  \<open>BLOCK_ERROR\<close> lies outside the file; a slot that holds 0 is a hole, which the first access
  fills with a new sector of zeros. In-memory inodes are numbered; \<open>inodes\<close> maps the number of
  a freed one to \<open>None\<close>. The memory allocator appears as the list of its coming answers:
  \<open>allocs\<close>, after which every request succeeds.

  Allocating a sector writes the free map to its file, which may itself have to fill a hole.
  The definitions take that write as their argument \<open>wm\<close>; \<open>free_map_write\<close> closes the circle,
  for as many nested writes as its first argument says, the room on the kernel stack.
\<close>

abbreviation (input) INODE_MAGIC :: u32 where "INODE_MAGIC \<equiv> 0x494e4f44"
abbreviation (input) BLOCKS_NUM :: nat where "BLOCKS_NUM \<equiv> 125"
abbreviation (input) INDIRECT_BEGIN :: nat where "INDIRECT_BEGIN \<equiv> 123"
abbreviation (input) DIRECT_BLK_LEN :: nat where "DIRECT_BLK_LEN \<equiv> 123"
abbreviation (input) BLOCK_SLOTS :: nat where "BLOCK_SLOTS \<equiv> 128"
abbreviation (input) DBL_INDIRECT_BEGIN :: nat where "DBL_INDIRECT_BEGIN \<equiv> 251"
abbreviation (input) INDIRECT_BLK :: nat where "INDIRECT_BLK \<equiv> 123"
abbreviation (input) DBL_INDIRECT_BLK :: nat where "DBL_INDIRECT_BLK \<equiv> 124"
abbreviation (input) MAX_FILE_SECTOR :: nat where "MAX_FILE_SECTOR \<equiv> 16635"

section \<open>State\<close>

record inode =
  isector :: block_sector_t
  open_cnt :: int
  removed :: bool
  deny_write_cnt :: int
  lock_inode :: bool
  idata :: inode_disk

record dir =
  dinode :: nat
  dpos :: int

record file_t =
  finode :: nat
  fpos :: int
  deny_write :: bool
  fdir :: "dir option"

record fs = cache +
  inodes :: "nat \<Rightarrow> inode option"
  open_inodes :: "nat list"
  next_inode :: nat
  free_map :: bitmap
  free_map_file :: "file_t option"
  cur_dir :: "dir option"
  allocs :: "bool list"

definition upd_inode :: "nat \<Rightarrow> (inode \<Rightarrow> inode) \<Rightarrow> fs \<Rightarrow> fs" where
  "upd_inode i f s = s\<lparr>inodes := (inodes s)(i := map_option f (inodes s i))\<rparr>"

definition kalloc :: "fs \<Rightarrow> bool \<times> fs" where
  "kalloc s = (case allocs s of [] \<Rightarrow> (True, s) | a # as \<Rightarrow> (a, s\<lparr>allocs := as\<rparr>))"

text \<open>An allocation whose result is used without a check.\<close>

definition must_alloc :: "fs \<Rightarrow> fs option" where
  "must_alloc s = do { let (a, s) = kalloc s; kassert a; Some s }"

section \<open>The free map\<close>

type_synonym write_map = "fs \<Rightarrow> (bool \<times> fs) option"

definition free_map_init :: "bitmap option \<Rightarrow> fs \<Rightarrow> fs option" where
  "free_map_init created s = do {
     bm \<leftarrow> created;
     bm \<leftarrow> bitmap_mark bm FREE_MAP_SECTOR;
     bm \<leftarrow> bitmap_mark bm ROOT_DIR_SECTOR;
     Some (s\<lparr>free_map := bm\<rparr>) }"

definition free_map_allocate :: "write_map \<Rightarrow> u32 \<Rightarrow> fs \<Rightarrow> (block_sector_t option \<times> fs) option" where
  "free_map_allocate wm cnt s = do {
     (sec, bm) \<leftarrow> bitmap_scan_and_flip (free_map s) 0 cnt False;
     let s = s\<lparr>free_map := bm\<rparr>;
     if sec \<noteq> BITMAP_ERROR \<and> free_map_file s \<noteq> None then do {
       (written, s) \<leftarrow> wm s;
       if written then Some (Some sec, s)
       else do {
         bm \<leftarrow> bitmap_set_multiple (free_map s) sec cnt False;
         Some (None, s\<lparr>free_map := bm\<rparr>) } }
     else Some (if sec \<noteq> BITMAP_ERROR then Some sec else None, s) }"

definition free_map_release :: "write_map \<Rightarrow> block_sector_t \<Rightarrow> u32 \<Rightarrow> fs \<Rightarrow> fs option" where
  "free_map_release wm sec cnt s = do {
     a \<leftarrow> bitmap_all (free_map s) sec cnt;
     kassert a;
     bm \<leftarrow> bitmap_set_multiple (free_map s) sec cnt False;
     (_, s) \<leftarrow> wm (s\<lparr>free_map := bm\<rparr>);
     Some s }"

section \<open>From offsets to sectors\<close>

definition bytes_to_sectors :: "int \<Rightarrow> nat" where
  "bytes_to_sectors n = nat ((n + 511) div 512)"

definition inode_alloc_zeros ::
  "write_map \<Rightarrow> block_sector_t \<Rightarrow> fs \<Rightarrow> (block_sector_t \<times> block_sector_t \<times> fs) option" where
  "inode_alloc_zeros wm sec s = do {
     (r, s) \<leftarrow> free_map_allocate wm 1 s;
     case r of
       Some sec \<Rightarrow> do {
         s \<leftarrow> cache_block_write sec (replicate BLOCK_SECTOR_SIZE 0) s;
         Some (sec, sec, s) }
     | None \<Rightarrow> Some (BLOCK_ERROR, sec, s) }"

text \<open>
  The sector behind a slot, whose hole is filled first; \<open>put\<close> stores the block that contains
  the slot after the slot was set. When no sector is free, the slot is set to \<open>BLOCK_ERROR\<close>
  but the variable that the caller returns keeps its old value 0.
\<close>

definition fill_slot ::
  "write_map \<Rightarrow> block_sector_t \<Rightarrow> (block_sector_t \<Rightarrow> fs \<Rightarrow> fs option) \<Rightarrow> fs \<Rightarrow> (block_sector_t \<times> fs) option" where
  "fill_slot wm sec put s =
     (if sec = 0 then do {
        (r, sec, s) \<leftarrow> inode_alloc_zeros wm sec s;
        s \<leftarrow> put r s;
        Some (sec, s) }
      else Some (sec, s))"

definition put_slot :: "block_sector_t \<Rightarrow> u32 list \<Rightarrow> nat \<Rightarrow> block_sector_t \<Rightarrow> fs \<Rightarrow> fs option" where
  "put_slot blk ws k r s = cache_block_write blk (bytes_of (ws[k := r])) s"

definition byte_to_sector :: "write_map \<Rightarrow> nat \<Rightarrow> int \<Rightarrow> fs \<Rightarrow> (block_sector_t \<times> fs) option" where
  "byte_to_sector wm i pos s = do {
     nd \<leftarrow> inodes s i;
     let pos_sector = nat (pos div 512);
     s \<leftarrow> must_alloc s;
     (d, s) \<leftarrow> cache_block_read (isector nd) s;
     let inode_block = inode_of_bytes d;
     if pos_sector < INDIRECT_BEGIN then
       fill_slot wm (dblock inode_block ! pos_sector)
         (\<lambda>r. cache_block_write (isector nd)
                (bytes_of_inode (inode_block\<lparr>dblock := (dblock inode_block)[pos_sector := r]\<rparr>))) s
     else if pos_sector < DBL_INDIRECT_BEGIN then do {
       let sec = dblock inode_block ! INDIRECT_BLK;
       if sec \<noteq> BLOCK_ERROR then do {
         s \<leftarrow> must_alloc s;
         (d, s) \<leftarrow> cache_block_read sec s;
         let indirect = words_of d;
         fill_slot wm (indirect ! (pos_sector - INDIRECT_BEGIN))
           (put_slot (dblock inode_block ! INDIRECT_BLK) indirect (pos_sector - DIRECT_BLK_LEN)) s }
       else Some (sec, s) }
     else if pos_sector < MAX_FILE_SECTOR then do {
       let indirect_idx = (pos_sector - DBL_INDIRECT_BEGIN) div BLOCK_SLOTS;
       let dbl_indirect_idx = (pos_sector - DBL_INDIRECT_BEGIN) mod BLOCK_SLOTS;
       let sec = dblock inode_block ! DBL_INDIRECT_BLK;
       if sec \<noteq> BLOCK_ERROR then do {
         s \<leftarrow> must_alloc s;
         (d, s) \<leftarrow> cache_block_read sec s;
         let indirect = words_of d;
         let sec = indirect ! indirect_idx;
         if sec \<noteq> BLOCK_ERROR then do {
           s \<leftarrow> must_alloc s;
           (d, s) \<leftarrow> cache_block_read sec s;
           let dbl_indirect = words_of d;
           fill_slot wm (dbl_indirect ! dbl_indirect_idx)
             (put_slot (indirect ! indirect_idx) dbl_indirect dbl_indirect_idx) s }
         else Some (sec, s) }
       else Some (sec, s) }
     else None }"

text \<open>
  Marking a sector of the file as a hole; missing index sectors are allocated. An index sector
  is read if there is one, and else starts out with all slots outside the file.
\<close>

definition no_blocks :: "u32 list" where
  "no_blocks = replicate BLOCK_SLOTS BLOCK_ERROR"

definition mark_slot :: "nat \<Rightarrow> u32 list \<Rightarrow> u32 list" where
  "mark_slot k ws = (if ws ! k = BLOCK_ERROR then ws[k := 0] else ws)"

definition write_inode :: "nat \<Rightarrow> fs \<Rightarrow> fs option" where
  "write_inode i s = do {
     nd \<leftarrow> inodes s i;
     cache_block_write (isector nd) (bytes_of_inode (idata nd)) s }"

definition set_block :: "nat \<Rightarrow> nat \<Rightarrow> block_sector_t \<Rightarrow> fs \<Rightarrow> fs" where
  "set_block i k sec s =
     upd_inode i (idata_update (\<lambda>d. d\<lparr>dblock := (dblock d)[k := sec]\<rparr>)) s"

definition index_block :: "write_map \<Rightarrow> nat \<Rightarrow> nat \<Rightarrow> fs \<Rightarrow> ((block_sector_t \<times> u32 list) option \<times> fs) option" where
  "index_block wm i k s = do {
     nd \<leftarrow> inodes s i;
     let sec = dblock (idata nd) ! k;
     if sec \<noteq> BLOCK_ERROR then do {
       (d, s) \<leftarrow> cache_block_read sec s;
       Some (Some (sec, words_of d), s) }
     else do {
       (r, s) \<leftarrow> free_map_allocate wm 1 s;
       case r of
         None \<Rightarrow> Some (None, s)
       | Some sec \<Rightarrow> do {
           s \<leftarrow> write_inode i (set_block i k sec s);
           Some (Some (sec, no_blocks), s) } } }"

definition inode_expand_sector :: "write_map \<Rightarrow> nat \<Rightarrow> nat \<Rightarrow> fs \<Rightarrow> (bool \<times> fs) option" where
  "inode_expand_sector wm i pos_sector s =
     (if pos_sector < INDIRECT_BEGIN then do {
        nd \<leftarrow> inodes s i;
        let s = (if dblock (idata nd) ! pos_sector = BLOCK_ERROR then set_block i pos_sector 0 s else s);
        s \<leftarrow> write_inode i s;
        Some (True, s) }
      else if pos_sector < DBL_INDIRECT_BEGIN then do {
        (r, s) \<leftarrow> index_block wm i INDIRECT_BLK s;
        case r of
          None \<Rightarrow> Some (False, s)
        | Some (sec, indirect) \<Rightarrow> do {
            s \<leftarrow> cache_block_write sec (bytes_of (mark_slot (pos_sector - DIRECT_BLK_LEN) indirect)) s;
            Some (True, s) } }
      else if pos_sector < MAX_FILE_SECTOR then do {
        let indirect_idx = (pos_sector - DBL_INDIRECT_BEGIN) div BLOCK_SLOTS;
        let dbl_indirect_idx = (pos_sector - DBL_INDIRECT_BEGIN) mod BLOCK_SLOTS;
        (r, s) \<leftarrow> index_block wm i DBL_INDIRECT_BLK s;
        case r of
          None \<Rightarrow> Some (False, s)
        | Some (sec, indirect) \<Rightarrow>
            if indirect ! indirect_idx \<noteq> BLOCK_ERROR then do {
              (d, s) \<leftarrow> cache_block_read (indirect ! indirect_idx) s;
              s \<leftarrow> cache_block_write (indirect ! indirect_idx) (bytes_of (mark_slot dbl_indirect_idx (words_of d))) s;
              Some (True, s) }
            else do {
              (r, s) \<leftarrow> free_map_allocate wm 1 s;
              case r of
                None \<Rightarrow> Some (False, s)
              | Some sec2 \<Rightarrow> do {
                  s \<leftarrow> cache_block_write sec (bytes_of (indirect[indirect_idx := sec2])) s;
                  s \<leftarrow> cache_block_write sec2 (bytes_of (mark_slot dbl_indirect_idx no_blocks)) s;
                  Some (True, s) } } }
      else Some (False, s))"

section \<open>Opening and closing inodes\<close>

definition inode_init :: "fs \<Rightarrow> fs" where
  "inode_init s = s\<lparr>open_inodes := []\<rparr>"

definition inode_reopen :: "nat option \<Rightarrow> fs \<Rightarrow> fs" where
  "inode_reopen io s = (case io of Some i \<Rightarrow> upd_inode i (open_cnt_update (\<lambda>n. n + 1)) s | None \<Rightarrow> s)"

definition has_sector :: "fs \<Rightarrow> block_sector_t \<Rightarrow> nat \<Rightarrow> bool" where
  "has_sector s sec i = (case inodes s i of Some nd \<Rightarrow> isector nd = sec | None \<Rightarrow> False)"

definition inode_open :: "block_sector_t \<Rightarrow> fs \<Rightarrow> (nat option \<times> fs) option" where
  "inode_open sec s =
     (case find (has_sector s sec) (open_inodes s) of
        Some i \<Rightarrow> Some (Some i, inode_reopen (Some i) s)
      | None \<Rightarrow>
          let (a, s) = kalloc s in
          if \<not> a then Some (None, s)
          else do {
            let i = next_inode s;
            (d, s) \<leftarrow> cache_block_read sec (s\<lparr>open_inodes := i # open_inodes s, next_inode := i + 1\<rparr>);
            Some (Some i,
              s\<lparr>inodes := (inodes s)(i \<mapsto>
                \<lparr>isector = sec, open_cnt = 1, removed = False, deny_write_cnt = 0, lock_inode = False,
                 idata = inode_of_bytes d\<rparr>)\<rparr>) })"

definition inode_get_inumber :: "nat \<Rightarrow> fs \<Rightarrow> block_sector_t option" where
  "inode_get_inumber i s = map_option isector (inodes s i)"

definition inode_length :: "nat \<Rightarrow> fs \<Rightarrow> int option" where
  "inode_length i s = map_option (\<lambda>nd. dlength (idata nd)) (inodes s i)"

definition inode_open_cnt :: "nat \<Rightarrow> fs \<Rightarrow> int option" where
  "inode_open_cnt i s = map_option open_cnt (inodes s i)"

definition inode_is_dir :: "nat option \<Rightarrow> fs \<Rightarrow> bool option" where
  "inode_is_dir io s =
     (case io of Some i \<Rightarrow> map_option (\<lambda>nd. is_dir (idata nd) \<noteq> 0) (inodes s i) | None \<Rightarrow> Some False)"

definition flush_sector :: "block_sector_t \<Rightarrow> fs \<Rightarrow> fs option" where
  "flush_sector sec s = (case cache_lookup sec s of Some b \<Rightarrow> flush_if_delayed b s | None \<Rightarrow> Some s)"

fun inode_flush_loop :: "write_map \<Rightarrow> nat \<Rightarrow> nat list \<Rightarrow> fs \<Rightarrow> fs option" where
  "inode_flush_loop wm i [] s = Some s"
| "inode_flush_loop wm i (k # ks) s = do {
     (sec, s) \<leftarrow> byte_to_sector wm i (int k * 512) s;
     s \<leftarrow> flush_sector sec s;
     inode_flush_loop wm i ks s }"

definition inode_flush :: "write_map \<Rightarrow> nat \<Rightarrow> fs \<Rightarrow> fs option" where
  "inode_flush wm i s = do {
     nd \<leftarrow> inodes s i;
     s \<leftarrow> flush_sector (isector nd) s;
     nd \<leftarrow> inodes s i;
     inode_flush_loop wm i [0..<bytes_to_sectors (dlength (idata nd))] s }"

text \<open>
  Releasing the sectors of a removed file. The two local index blocks start out
  uninitialised; using one in that state, or outside its 128 slots, is undefined.
\<close>

fun release_direct :: "write_map \<Rightarrow> block_sector_t list \<Rightarrow> nat list \<Rightarrow> fs \<Rightarrow> fs option" where
  "release_direct wm blocks [] s = Some s"
| "release_direct wm blocks (k # ks) s = do {
     s \<leftarrow> (if blocks ! k \<noteq> 0 then free_map_release wm (blocks ! k) 1 s else Some s);
     release_direct wm blocks ks s }"

definition slot :: "u32 list option \<Rightarrow> nat \<Rightarrow> block_sector_t option" where
  "slot ind k = (case ind of Some ws \<Rightarrow> if k < length ws then Some (ws ! k) else None | None \<Rightarrow> None)"

definition read_index :: "block_sector_t \<Rightarrow> fs \<Rightarrow> (u32 list option \<times> fs) option" where
  "read_index sec s = do { (d, s) \<leftarrow> cache_block_read sec s; Some (Some (words_of d), s) }"

fun release_indirect ::
  "write_map \<Rightarrow> block_sector_t list \<Rightarrow> u32 list option \<Rightarrow> nat list \<Rightarrow> fs \<Rightarrow> (u32 list option \<times> fs) option" where
  "release_indirect wm blocks indirect [] s = Some (indirect, s)"
| "release_indirect wm blocks indirect (k # ks) s = do {
     (indirect, s) \<leftarrow>
       (if k = INDIRECT_BLK \<and> blocks ! k \<noteq> BLOCK_ERROR then read_index (blocks ! INDIRECT_BLK) s
        else Some (indirect, s));
     sec \<leftarrow> slot indirect k;
     s \<leftarrow> (if sec \<noteq> 0 then free_map_release wm sec 1 s else Some s);
     release_indirect wm blocks indirect ks s }"

fun release_dbl_indirect ::
  "write_map \<Rightarrow> block_sector_t list \<Rightarrow> u32 list option \<Rightarrow> u32 list option \<Rightarrow> nat list \<Rightarrow> fs \<Rightarrow>
   (u32 list option \<times> fs) option" where
  "release_dbl_indirect wm blocks indirect dbl [] s = Some (indirect, s)"
| "release_dbl_indirect wm blocks indirect dbl (k # ks) s = do {
     let indirect_idx = (k - DBL_INDIRECT_BEGIN) div BLOCK_SLOTS;
     let dbl_indirect_idx = (k - DBL_INDIRECT_BEGIN) mod BLOCK_SLOTS;
     (indirect, s) \<leftarrow>
       (if k = DBL_INDIRECT_BLK \<and> blocks ! k \<noteq> BLOCK_ERROR then read_index (blocks ! DBL_INDIRECT_BLK) s
        else Some (indirect, s));
     (dbl, s) \<leftarrow>
       (if indirect_idx = 0 then do {
          sec \<leftarrow> slot indirect indirect_idx;
          if sec \<noteq> BLOCK_ERROR then read_index sec s else Some (dbl, s) }
        else Some (dbl, s));
     sec \<leftarrow> slot dbl dbl_indirect_idx;
     s \<leftarrow> (if sec \<noteq> 0 then free_map_release wm sec 1 s else Some s);
     s \<leftarrow> (if dbl_indirect_idx = BLOCK_SLOTS - 1 then do {
             sec \<leftarrow> slot indirect indirect_idx;
             free_map_release wm sec 1 s }
           else Some s);
     release_dbl_indirect wm blocks indirect dbl ks s }"

definition inode_release :: "write_map \<Rightarrow> nat \<Rightarrow> fs \<Rightarrow> fs option" where
  "inode_release wm i s = do {
     nd \<leftarrow> inodes s i;
     let sectors = bytes_to_sectors (dlength (idata nd));
     let blocks = dblock (idata nd);
     s \<leftarrow> free_map_release wm (isector nd) 1 s;
     s \<leftarrow> release_direct wm blocks [0..<min sectors INDIRECT_BEGIN] s;
     (indirect, s) \<leftarrow> release_indirect wm blocks None [INDIRECT_BEGIN..<min sectors DBL_INDIRECT_BEGIN] s;
     let dbl_indirect_min = min sectors MAX_FILE_SECTOR;
     (indirect, s) \<leftarrow> release_dbl_indirect wm blocks indirect None [DBL_INDIRECT_BEGIN..<dbl_indirect_min] s;
     if dbl_indirect_min \<ge> DBL_INDIRECT_BEGIN then do {
       sec \<leftarrow> slot indirect ((dbl_indirect_min - 1 - DBL_INDIRECT_BEGIN) div BLOCK_SLOTS);
       s \<leftarrow> free_map_release wm sec 1 s;
       free_map_release wm (blocks ! DBL_INDIRECT_BLK) 1 s }
     else Some s }"

definition inode_close :: "write_map \<Rightarrow> nat option \<Rightarrow> fs \<Rightarrow> fs option" where
  "inode_close wm io s =
     (case io of
        None \<Rightarrow> Some s
      | Some i \<Rightarrow> do {
          s \<leftarrow> inode_flush wm i s;
          let s = upd_inode i (open_cnt_update (\<lambda>n. n - 1)) s;
          nd \<leftarrow> inodes s i;
          if open_cnt nd = 0 then do {
            let s = s\<lparr>open_inodes := remove1 i (open_inodes s)\<rparr>;
            s \<leftarrow> (if removed nd then inode_release wm i s else Some s);
            Some (s\<lparr>inodes := (inodes s)(i := None)\<rparr>) }
          else Some s })"

definition inode_remove :: "nat \<Rightarrow> fs \<Rightarrow> fs option" where
  "inode_remove i s = do { nd \<leftarrow> inodes s i; Some (upd_inode i (removed_update (\<lambda>_. True)) s) }"

definition inode_lock :: "nat \<Rightarrow> fs \<Rightarrow> fs option" where
  "inode_lock i s = do {
     nd \<leftarrow> inodes s i;
     kassert (\<not> lock_inode nd);
     Some (upd_inode i (lock_inode_update (\<lambda>_. True)) s) }"

definition inode_unlock :: "nat \<Rightarrow> fs \<Rightarrow> fs option" where
  "inode_unlock i s = do {
     nd \<leftarrow> inodes s i;
     kassert (lock_inode nd);
     Some (upd_inode i (lock_inode_update (\<lambda>_. False)) s) }"

definition inode_deny_write :: "nat \<Rightarrow> fs \<Rightarrow> fs option" where
  "inode_deny_write i s = do {
     nd \<leftarrow> inodes s i;
     kassert (deny_write_cnt nd + 1 \<le> open_cnt nd);
     Some (upd_inode i (deny_write_cnt_update (\<lambda>n. n + 1)) s) }"

definition inode_allow_write :: "nat \<Rightarrow> fs \<Rightarrow> fs option" where
  "inode_allow_write i s = do {
     nd \<leftarrow> inodes s i;
     kassert (deny_write_cnt nd > 0);
     kassert (deny_write_cnt nd \<le> open_cnt nd);
     Some (upd_inode i (deny_write_cnt_update (\<lambda>n. n - 1)) s) }"

fun expand_sectors :: "write_map \<Rightarrow> nat \<Rightarrow> nat list \<Rightarrow> fs \<Rightarrow> (bool \<times> fs) option" where
  "expand_sectors wm i [] s = Some (True, s)"
| "expand_sectors wm i (k # ks) s = do {
     (success, s) \<leftarrow> inode_expand_sector wm i k s;
     if success then expand_sectors wm i ks s else Some (False, s) }"

definition inode_create :: "write_map \<Rightarrow> block_sector_t \<Rightarrow> int \<Rightarrow> bool \<Rightarrow> fs \<Rightarrow> (bool \<times> fs) option" where
  "inode_create wm sec len dir s = do {
     kassert (len \<ge> 0);
     let (a, s) = kalloc s;
     if a then do {
       let sectors = bytes_to_sectors len;
       s \<leftarrow> cache_block_write sec
              (bytes_of_inode \<lparr>dlength = len, magic = INODE_MAGIC, is_dir = if dir then 1 else 0,
                 dblock = replicate BLOCKS_NUM BLOCK_ERROR\<rparr>) s;
       if sectors > 0 then do {
         (io, s) \<leftarrow> inode_open sec s;
         i \<leftarrow> io;
         (success, s) \<leftarrow> expand_sectors wm i [0..<sectors] s;
         if success then do { s \<leftarrow> inode_close wm (Some i) s; Some (True, s) }
         else Some (False, s) }
       else Some (True, s) }
     else Some (False, s) }"

section \<open>Reading and writing\<close>

text \<open>
  Bytes of one sector that the next step of a loop transfers. The offsets of a file are not
  negative: the transfer of a negative one would leave the sector buffer, so it is undefined.
\<close>

definition chunk_size :: "int \<Rightarrow> int \<Rightarrow> int \<Rightarrow> int" where
  "chunk_size len offset sz =
     (let inode_left = len - offset;
          sector_left = 512 - offset mod 512;
          min_left = (if inode_left < sector_left then inode_left else sector_left)
      in if sz < min_left then sz else min_left)"

text \<open>The bounce buffer is allocated when it is first needed.\<close>

definition get_bounce :: "bool \<Rightarrow> fs \<Rightarrow> bool \<times> fs" where
  "get_bounce bounce s = (if bounce then (True, s) else kalloc s)"

function inode_read_loop :: "write_map \<Rightarrow> nat \<Rightarrow> int \<Rightarrow> int \<Rightarrow> bool \<Rightarrow> bytes \<Rightarrow> fs \<Rightarrow> (bytes \<times> fs) option" where
  "inode_read_loop wm i sz offset bounce buffer s =
     (if sz > 0 then do {
        kassert (0 \<le> offset);
        (sector_idx, s) \<leftarrow> byte_to_sector wm i offset s;
        if sector_idx = BLOCK_ERROR then Some (buffer, s)
        else do {
          len \<leftarrow> inode_length i s;
          let chunk = chunk_size len offset sz;
          if chunk \<le> 0 then Some (buffer, s)
          else if offset mod 512 = 0 \<and> chunk = 512 then do {
            (d, s) \<leftarrow> cache_block_read sector_idx s;
            inode_read_loop wm i (sz - chunk) (offset + chunk) bounce (buffer @ d) s }
          else do {
            let (a, s) = get_bounce bounce s;
            if \<not> a then Some (buffer, s)
            else do {
              (d, s) \<leftarrow> cache_block_read sector_idx s;
              inode_read_loop wm i (sz - chunk) (offset + chunk) True
                (buffer @ take (nat chunk) (drop (nat (offset mod 512)) d)) s } } } }
      else Some (buffer, s))"
  by pat_completeness auto
termination by (relation "measure (\<lambda>(wm, i, sz, _). nat sz)") auto

declare inode_read_loop.simps [simp del]

text \<open>The bytes read; their number is what the function returns.\<close>

definition inode_read_at :: "write_map \<Rightarrow> nat \<Rightarrow> int \<Rightarrow> int \<Rightarrow> fs \<Rightarrow> (bytes \<times> fs) option" where
  "inode_read_at wm i sz offset s = inode_read_loop wm i sz offset False [] s"

text \<open>Overwriting bytes of a sector from a given position.\<close>

definition patch :: "bytes \<Rightarrow> nat \<Rightarrow> bytes \<Rightarrow> bytes" where
  "patch d k bs = take k d @ bs @ drop (k + length bs) d"

text \<open>
  Growing a file with zeros. A whole sector is only marked as a hole; the sector read for a
  partial one comes from the device, not through the cache.
\<close>

function inode_expand_zero_loop ::
  "write_map \<Rightarrow> nat \<Rightarrow> int \<Rightarrow> int \<Rightarrow> bool \<Rightarrow> int \<Rightarrow> fs \<Rightarrow> (int \<times> int \<times> fs) option" where
  "inode_expand_zero_loop wm i sz offset bounce bytes_written s =
     (if sz > 0 then do {
        kassert (0 \<le> offset);
        (sector_idx, s) \<leftarrow> byte_to_sector wm i offset s;
        (marked, s) \<leftarrow> (if sector_idx = BLOCK_ERROR then inode_expand_sector wm i (nat (offset div 512)) s
                         else Some (True, s));
        if \<not> marked then Some (offset, bytes_written, s)
        else do {
          let sector_idx = (if sector_idx = BLOCK_ERROR then 0 else sector_idx);
          len \<leftarrow> inode_length i s;
          let chunk = chunk_size len offset sz;
          if chunk \<le> 0 then Some (offset, bytes_written, s)
          else if offset mod 512 = 0 \<and> chunk = 512 then
            inode_expand_zero_loop wm i (sz - chunk) (offset + chunk) bounce (bytes_written + chunk) s
          else do {
            (sector_idx, s) \<leftarrow> (if sector_idx = 0 then byte_to_sector wm i offset s else Some (sector_idx, s));
            let (a, s) = get_bounce bounce s;
            if \<not> a then Some (offset, bytes_written, s)
            else do {
              (d, s) \<leftarrow> (if offset mod 512 > 0 \<or> chunk < 512 - offset mod 512 then do {
                            (d, dev) \<leftarrow> block_read (fs_device s) sector_idx;
                            Some (d, s\<lparr>fs_device := dev\<rparr>) }
                          else Some (replicate BLOCK_SECTOR_SIZE 0, s));
              s \<leftarrow> cache_block_write sector_idx (patch d (nat (offset mod 512)) (replicate (nat chunk) 0)) s;
              inode_expand_zero_loop wm i (sz - chunk) (offset + chunk) True (bytes_written + chunk) s } } } }
      else Some (offset, bytes_written, s))"
  by pat_completeness auto
termination by (relation "measure (\<lambda>(wm, i, sz, _). nat sz)") auto

declare inode_expand_zero_loop.simps [simp del]

definition set_length :: "nat \<Rightarrow> int \<Rightarrow> fs \<Rightarrow> fs" where
  "set_length i n s = upd_inode i (idata_update (dlength_update (\<lambda>_. n))) s"

definition inode_expand_zero :: "write_map \<Rightarrow> nat \<Rightarrow> int \<Rightarrow> int \<Rightarrow> fs \<Rightarrow> (int \<times> fs) option" where
  "inode_expand_zero wm i sz offset s = do {
     nd \<leftarrow> inodes s i;
     if deny_write_cnt nd \<noteq> 0 then Some (0, s)
     else do {
       s \<leftarrow> write_inode i (set_length i (offset + sz) s);
       (offset, bytes_written, s) \<leftarrow> inode_expand_zero_loop wm i sz offset False 0 s;
       Some (bytes_written, set_length i offset s) } }"

text \<open>
  The loop of \<open>inode_write_at\<close>. A sector outside the file is added to it, filled, and the
  in-memory inode read again. The caller's buffer is a function of the state, because the
  bitmap of free sectors changes while it is being written if its own file has a hole.
\<close>

definition sector_to_write :: "write_map \<Rightarrow> nat \<Rightarrow> int \<Rightarrow> fs \<Rightarrow> (block_sector_t option \<times> fs) option" where
  "sector_to_write wm i offset s = do {
     (sector_idx, s) \<leftarrow> byte_to_sector wm i offset s;
     if sector_idx = BLOCK_ERROR then do {
       (success, s) \<leftarrow> inode_expand_sector wm i (nat (offset div 512)) s;
       if success then do {
         (sector_idx, s) \<leftarrow> byte_to_sector wm i offset s;
         nd \<leftarrow> inodes s i;
         (d, s) \<leftarrow> cache_block_read (isector nd) s;
         Some (Some sector_idx, upd_inode i (idata_update (\<lambda>_. inode_of_bytes d)) s) }
       else Some (None, s) }
     else Some (Some sector_idx, s) }"

function inode_write_loop ::
  "write_map \<Rightarrow> nat \<Rightarrow> (fs \<Rightarrow> bytes) \<Rightarrow> int \<Rightarrow> int \<Rightarrow> bool \<Rightarrow> int \<Rightarrow> fs \<Rightarrow> (int \<times> fs) option" where
  "inode_write_loop wm i buffer sz offset bounce bytes_written s =
     (if sz > 0 then do {
        kassert (0 \<le> offset);
        (found, s) \<leftarrow> sector_to_write wm i offset s;
        case found of
          None \<Rightarrow> Some (bytes_written, s)
        | Some sector_idx \<Rightarrow> do {
            len \<leftarrow> inode_length i s;
            let chunk = chunk_size len offset sz;
            if chunk \<le> 0 then Some (bytes_written, s)
            else if offset mod 512 = 0 \<and> chunk = 512 then do {
              s \<leftarrow> cache_block_write sector_idx (take 512 (drop (nat bytes_written) (buffer s))) s;
              inode_write_loop wm i buffer (sz - chunk) (offset + chunk) bounce (bytes_written + chunk) s }
            else do {
              let (a, s) = get_bounce bounce s;
              if \<not> a then Some (bytes_written, s)
              else do {
                (d, s) \<leftarrow> (if offset mod 512 > 0 \<or> chunk < 512 - offset mod 512 then cache_block_read sector_idx s
                            else Some (replicate BLOCK_SECTOR_SIZE 0, s));
                s \<leftarrow> cache_block_write sector_idx (patch d (nat (offset mod 512)) (take (nat chunk) (drop (nat bytes_written) (buffer s)))) s;
                inode_write_loop wm i buffer (sz - chunk) (offset + chunk) True
                  (bytes_written + chunk) s } } } }
      else Some (bytes_written, s))"
  by pat_completeness auto
termination by (relation "measure (\<lambda>(wm, i, buffer, sz, _). nat sz)") auto

declare inode_write_loop.simps [simp del]

text \<open>Sums of offsets beyond the signed 32-bit range are undefined.\<close>

definition off_ok :: "int \<Rightarrow> bool" where
  "off_ok n \<longleftrightarrow> - 2147483648 \<le> n \<and> n < 2147483648"

definition inode_write_at :: "write_map \<Rightarrow> nat \<Rightarrow> (fs \<Rightarrow> bytes) \<Rightarrow> int \<Rightarrow> int \<Rightarrow> fs \<Rightarrow> (int \<times> fs) option" where
  "inode_write_at wm i buffer sz offset s = do {
     nd \<leftarrow> inodes s i;
     let inode_size = dlength (idata nd);
     if deny_write_cnt nd \<noteq> 0 then Some (0, s)
     else do {
       kassert (off_ok (offset + sz));
       s \<leftarrow> (if offset > inode_size then do {
               s \<leftarrow> inode_lock i s;
               (_, s) \<leftarrow> inode_expand_zero wm i (offset + sz - inode_size) inode_size s;
               inode_unlock i s }
             else Some s);
       len \<leftarrow> inode_length i s;
       s \<leftarrow> (if offset + sz > len then do {
               s \<leftarrow> inode_lock i s;
               s \<leftarrow> write_inode i (set_length i (offset + sz) s);
               inode_unlock i s }
             else Some s);
       (bytes_written, s) \<leftarrow> inode_write_loop wm i buffer sz offset False 0 s;
       s \<leftarrow> inode_lock i s;
       s \<leftarrow> write_inode i s;
       s \<leftarrow> inode_unlock i s;
       Some (bytes_written, s) } }"

section \<open>The file of the free map\<close>

text \<open>
  Writing the bitmap that the state holds, and reading one from a file. The file of the free
  map has no holes when it is read, so that the read itself leaves the bitmap alone.
\<close>

definition bitmap_write :: "write_map \<Rightarrow> (fs \<Rightarrow> bitmap) \<Rightarrow> file_t \<Rightarrow> fs \<Rightarrow> (bool \<times> fs) option" where
  "bitmap_write wm b f s = do {
     let sz = uint (byte_cnt (bit_cnt (b s)));
     (n, s) \<leftarrow> inode_write_at wm (finode f) (\<lambda>s. bytes_of (bits (b s))) sz 0 s;
     Some (n = sz, s) }"

definition bitmap_read :: "write_map \<Rightarrow> bitmap \<Rightarrow> file_t \<Rightarrow> fs \<Rightarrow> (bool \<times> bitmap \<times> fs) option" where
  "bitmap_read wm b f s =
     (if bit_cnt b > 0 then do {
        let sz = uint (byte_cnt (bit_cnt b));
        (d, s) \<leftarrow> inode_read_at wm (finode f) sz 0 s;
        let ws = words_of (d @ drop (length d) (bytes_of (bits b)));
        let k = unat (elem_cnt (bit_cnt b) - 1);
        let b' = b\<lparr>bits := ws[k := ws ! k AND last_mask b]\<rparr>;
        Some (int (length d) = sz, b', s) }
      else Some (True, b, s))"

primrec free_map_write :: "nat \<Rightarrow> write_map" where
  "free_map_write 0 s = None"
| "free_map_write (Suc depth) s = do {
     f \<leftarrow> free_map_file s;
     bitmap_write (free_map_write depth) free_map f s }"

declare free_map_write.simps [simp del]

end
