(* ===== verification/Inode_Read.thy ===== *)
theory Inode_Read
  imports Inode
begin

text \<open>
  Files without holes as arrays of bytes: which sectors an inode maps, what its contents are,
  and that \<open>byte_to_sector\<close> and the loop of \<open>inode_read_at\<close> find them.
\<close>

section \<open>Steps of the store\<close>

definition stored :: "fs \<Rightarrow> (block_sector_t \<Rightarrow> bytes) \<Rightarrow> fs \<Rightarrow> bool" where
  "stored s m s' \<longleftrightarrow> cache_ok s' \<and> sectors s' = m \<and> device_size s' = device_size s \<and> cache.more s' = cache.more s"

lemma more_fields:
  assumes "cache.more s' = cache.more (s :: fs)"
  shows "inodes s' = inodes s" "open_inodes s' = open_inodes s" "next_inode s' = next_inode s"
    "free_map s' = free_map s" "free_map_file s' = free_map_file s" "cur_dir s' = cur_dir s" "allocs s' = allocs s"
  using assms by (cases s; cases s'; simp)+

lemma stored_fields:
  assumes "stored s m s'"
  shows "inodes s' = inodes s" "open_inodes s' = open_inodes s" "next_inode s' = next_inode s"
    "free_map s' = free_map s" "free_map_file s' = free_map_file s" "cur_dir s' = cur_dir s" "allocs s' = allocs s"
    "cache_ok s'" "sectors s' = m" "device_size s' = device_size s"
  using assms more_fields [of s' s] by (simp_all add: stored_def)

lemma stored_refl: "cache_ok s \<Longrightarrow> stored s (sectors s) s"
  by (simp add: stored_def)

lemma stored_trans: "stored s m s' \<Longrightarrow> stored s' m' s'' \<Longrightarrow> stored s m' s''"
  by (simp add: stored_def)

lemma read_step:
  assumes "cache_ok s" "x < device_size s"
  obtains s' where "cache_block_read x s = Some (sectors s x, s')" "stored s (sectors s) s'"
  using bc.rd [OF assms] by (auto simp: stored_def)

lemma write_step:
  assumes "cache_ok s" "x < device_size s"
  obtains s' where "cache_block_write x d s = Some s'" "stored s ((sectors s)(x := d)) s'"
  using bc.wr [OF assms] by (auto simp: stored_def)

lemma kalloc_Nil [simp]: "allocs s = [] \<Longrightarrow> kalloc s = (True, s)"
  by (simp add: kalloc_def)

lemma must_alloc_Nil [simp]: "allocs s = [] \<Longrightarrow> must_alloc s = Some s"
  by (simp add: must_alloc_def)

lemma get_bounce_Nil [simp]: "allocs s = [] \<Longrightarrow> get_bounce b s = (True, s)"
  by (simp add: get_bounce_def)

section \<open>The sectors of a file\<close>

text \<open>
  The slot of a sector of the file in a store \<open>m\<close> of \<open>n\<close> sectors, \<open>None\<close> if the way to it
  leaves the device.
\<close>

definition lookup_sector :: "(block_sector_t \<Rightarrow> bytes) \<Rightarrow> block_sector_t \<Rightarrow> inode_disk \<Rightarrow> nat \<Rightarrow> block_sector_t option" where
  "lookup_sector m n d k =
     (if k < 123 then Some (dblock d ! k)
      else if k < 251 then do {
        let x = dblock d ! 123;
        if x = - 1 then Some x
        else do { kassert (x < n); Some (words_of (m x) ! (k - 123)) } }
      else if k < 16635 then do {
        let x = dblock d ! 124;
        if x = - 1 then Some x
        else do {
          kassert (x < n);
          let y = words_of (m x) ! ((k - 251) div 128);
          if y = - 1 then Some y
          else do { kassert (y < n); Some (words_of (m y) ! ((k - 251) mod 128)) } } }
      else None)"

definition disk_inode :: "fs \<Rightarrow> inode \<Rightarrow> inode_disk" where
  "disk_inode s nd = inode_of_bytes (sectors s (isector nd))"

lemma byte_to_sector_lookup:
  assumes ok: "cache_ok s" "allocs s = []" "inodes s i = Some nd" "isector nd < device_size s"
    and x: "lookup_sector (sectors s) (device_size s) (disk_inode s nd) (nat (pos div 512)) = Some x" "x \<noteq> 0"
  shows "\<exists>s'. byte_to_sector wm i pos s = Some (x, s') \<and> stored s (sectors s) s'"
proof -
  define k q r where defs: "k = nat (pos div 512)" "q = (k - 251) div 128" "r = (k - 251) mod 128"
  note folds = defs [symmetric]
  let ?d = "disk_inode s nd"
  note x = x [folded defs(1)]
  obtain s1 where s1: "cache_block_read (isector nd) s = Some (sectors s (isector nd), s1)" "stored s (sectors s) s1"
    using read_step [OF ok(1,4)] .
  note f1 = stored_fields [OF s1(2)]
  note b = byte_to_sector_def [of wm i pos s] ok(2,3) s1(1) disk_inode_def [of s nd, symmetric] folds
  consider "k < 123" | "\<not> k < 123" "k < 251" | "\<not> k < 251" "k < 16635"
    using x(1) by (fastforce simp: lookup_sector_def folds split: if_splits)
  then show ?thesis
  proof cases
    case 1
    then show ?thesis using x s1(2) by (auto simp: b lookup_sector_def fill_slot_def Let_def)
  next
    case 2
    let ?x = "dblock ?d ! 123"
    show ?thesis
    proof (cases "?x = - 1")
      case True
      then show ?thesis using x 2 s1(2) by (simp add: b lookup_sector_def)
    next
      case False
      then have "?x < device_size s1" using x 2 f1 by (auto simp: lookup_sector_def folds Let_def bind_eq_Some_conv)
      from read_step [OF f1(8) this] obtain s2 where
        s2: "cache_block_read ?x s1 = Some (sectors s1 ?x, s2)" "stored s1 (sectors s1) s2" .
      show ?thesis using x 2 False s2(1) stored_trans [OF s1(2) s2(2)] f1 ok(2) \<open>?x < device_size s1\<close>
        by (auto simp: b lookup_sector_def fill_slot_def Let_def)
    qed
  next
    case 3
    let ?x = "dblock ?d ! 124"
    show ?thesis
    proof (cases "?x = - 1")
      case True
      then show ?thesis using x 3 s1(2) by (simp add: b lookup_sector_def)
    next
      case False
      then have xl: "?x < device_size s" using x 3 by (simp add: lookup_sector_def folds Let_def bind_eq_Some_conv)
      then have "?x < device_size s1" using f1(10) by simp
      from read_step [OF f1(8) this] obtain s2 where
        s2: "cache_block_read ?x s1 = Some (sectors s1 ?x, s2)" "stored s1 (sectors s1) s2" .
      note f2 = stored_fields [OF s2(2)]
      let ?y = "words_of (sectors s ?x) ! q"
      show ?thesis
      proof (cases "?y = - 1")
        case True
        then have "x = - 1" using x 3 False xl by (simp add: lookup_sector_def folds Let_def)
        then show ?thesis using 3 False True s2(1) stored_trans [OF s1(2) s2(2)] f1(7,9) ok(2)
          by (simp add: b Let_def)
      next
        case y: False
        then have y': "?y < device_size s" "words_of (sectors s ?y) ! r = x"
          using x 3 False xl by (simp_all add: lookup_sector_def folds Let_def bind_eq_Some_conv)
        then have "?y < device_size s2" using f1(10) f2(10) by simp
        from read_step [OF f2(8) this] obtain s3 where
          s3: "cache_block_read ?y s2 = Some (sectors s2 ?y, s3)" "stored s2 (sectors s2) s3" .
        show ?thesis using x(2) 3 False y y'(2) s2(1) s3(1) stored_trans [OF stored_trans [OF s1(2) s2(2)] s3(2)]
            f1(7,9) f2(7,9) ok(2)
          by (simp add: b fill_slot_def Let_def)
      qed
    qed
  qed
qed

section \<open>Files as arrays of bytes\<close>

text \<open>A file without holes: exactly the sectors that its length needs are mapped.\<close>

definition mapped :: "(block_sector_t \<Rightarrow> bytes) \<Rightarrow> block_sector_t \<Rightarrow> inode_disk \<Rightarrow> nat \<Rightarrow> bool" where
  "mapped m n d k \<longleftrightarrow> (\<exists>x. lookup_sector m n d k = Some x \<and> x \<noteq> 0 \<and> x < n)"

definition file_ok :: "(block_sector_t \<Rightarrow> bytes) \<Rightarrow> block_sector_t \<Rightarrow> inode_disk \<Rightarrow> bool" where
  "file_ok m n d \<longleftrightarrow>
     0 \<le> dlength d \<and> dlength d < 16635 * 512 \<and> length (dblock d) = 125
     \<and> (\<forall>k < 16635. if k < bytes_to_sectors (dlength d) then mapped m n d k else lookup_sector m n d k = Some (- 1))"

definition data_sector :: "(block_sector_t \<Rightarrow> bytes) \<Rightarrow> block_sector_t \<Rightarrow> inode_disk \<Rightarrow> nat \<Rightarrow> block_sector_t" where
  "data_sector m n d k = the (lookup_sector m n d k)"

definition file_byte :: "(block_sector_t \<Rightarrow> bytes) \<Rightarrow> block_sector_t \<Rightarrow> inode_disk \<Rightarrow> nat \<Rightarrow> u8" where
  "file_byte m n d p = m (data_sector m n d (p div 512)) ! (p mod 512)"

definition file_bytes :: "(block_sector_t \<Rightarrow> bytes) \<Rightarrow> block_sector_t \<Rightarrow> inode_disk \<Rightarrow> bytes" where
  "file_bytes m n d = map (file_byte m n d) [0..<nat (dlength d)]"

text \<open>An open inode whose in-memory copy agrees with the device.\<close>

definition open_file :: "fs \<Rightarrow> nat \<Rightarrow> inode \<Rightarrow> bool" where
  "open_file s i nd \<longleftrightarrow>
     cache_ok s \<and> allocs s = [] \<and> inodes s i = Some nd \<and> isector nd < device_size s
     \<and> (\<forall>x < device_size s. length (sectors s x) = 512)
     \<and> idata nd = disk_inode s nd \<and> file_ok (sectors s) (device_size s) (idata nd)"

definition contents_of :: "fs \<Rightarrow> inode \<Rightarrow> bytes" where
  "contents_of s nd = file_bytes (sectors s) (device_size s) (idata nd)"

lemma open_file_stored: "open_file s i nd \<Longrightarrow> stored s (sectors s) s' \<Longrightarrow> open_file s' i nd"
  unfolding open_file_def disk_inode_def by (elim conjE) (simp add: stored_fields)

lemma contents_of_stored: "stored s (sectors s) s' \<Longrightarrow> contents_of s' nd = contents_of s nd"
  by (simp add: contents_of_def stored_fields)

lemma length_file_bytes [simp]: "length (file_bytes m n d) = nat (dlength d)"
  by (simp add: file_bytes_def)

lemma sectors_of_offset: "0 \<le> offset \<Longrightarrow> offset < len \<Longrightarrow> nat (offset div 512) < bytes_to_sectors len"
  unfolding bytes_to_sectors_def by (subst nat_less_eq_zless) (simp, linarith)

lemma div_mod_within:
  assumes "o1 mod (512 :: nat) + j < 512"
  shows "(o1 + j) div 512 = o1 div 512" "(o1 + j) mod 512 = o1 mod 512 + j"
proof -
  have "j < 512" using assms by simp
  then show "(o1 + j) div 512 = o1 div 512" using assms by (simp add: div_add1_eq [of o1 j 512])
  show "(o1 + j) mod 512 = o1 mod 512 + j" using assms mod_less [of "o1 mod 512 + j" 512] by (simp only: mod_add_left_eq)
qed

lemma piece_of_file:
  assumes "p + c \<le> nat (dlength d)" "p mod 512 + c \<le> 512" "length (m (data_sector m n d (p div 512))) = 512"
  shows "take c (drop p (file_bytes m n d)) = take c (drop (p mod 512) (m (data_sector m n d (p div 512))))"
proof (rule nth_equalityI)
  show "length (take c (drop p (file_bytes m n d))) = length (take c (drop (p mod 512) (m (data_sector m n d (p div 512)))))"
    using assms by simp
next
  fix j assume "j < length (take c (drop p (file_bytes m n d)))"
  then have "j < c" by simp
  then show "take c (drop p (file_bytes m n d)) ! j = take c (drop (p mod 512) (m (data_sector m n d (p div 512)))) ! j"
    using assms div_mod_within [of p j] by (simp add: file_bytes_def file_byte_def)
qed

lemma chunk_size_bounds:
  assumes "0 \<le> offset" "offset < len" "0 < sz"
  shows "0 < chunk_size len offset sz" "chunk_size len offset sz \<le> sz" "chunk_size len offset sz \<le> len - offset"
    "chunk_size len offset sz \<le> 512 - offset mod 512"
  using assms pos_mod_bound [of 512 offset] by (auto simp: chunk_size_def Let_def)

lemma chunk_size_end: "len \<le> offset \<Longrightarrow> chunk_size len offset sz \<le> 0"
  by (auto simp: chunk_size_def Let_def)

lemma open_fileD:
  assumes "open_file s i nd"
  shows "cache_ok s" "allocs s = []" "inodes s i = Some nd" "isector nd < device_size s"
    "x < device_size s \<Longrightarrow> length (sectors s x) = 512"
    "idata nd = disk_inode s nd" "file_ok (sectors s) (device_size s) (disk_inode s nd)"
    "0 \<le> dlength (idata nd)" "dlength (idata nd) < 16635 * 512"
  using assms unfolding open_file_def by (elim conjE; simp add: file_ok_def)+

text \<open>The sector at an offset: the file's own one, or none behind its end.\<close>

lemma sector_at_offset:
  assumes f: "open_file s i nd" and "0 \<le> offset" "offset < 16635 * 512"
  defines "x \<equiv> data_sector (sectors s) (device_size s) (idata nd) (nat (offset div 512))"
  obtains s' where "byte_to_sector wm i offset s = Some (x, s')" "stored s (sectors s) s'"
    "offset < dlength (idata nd) \<Longrightarrow> x \<noteq> - 1 \<and> x < device_size s"
proof -
  note fD = open_fileD [OF f]
  define k where "k = nat (offset div 512)"
  have "offset div 512 < 16635" using assms(3) by linarith
  then have k: "k < 16635" using assms(2) by (simp add: k_def nat_less_iff)
  have r: "if k < bytes_to_sectors (dlength (idata nd)) then mapped (sectors s) (device_size s) (idata nd) k
    else lookup_sector (sectors s) (device_size s) (idata nd) k = Some (- 1)"
    using fD(7) k unfolding file_ok_def fD(6) by blast
  then have l: "lookup_sector (sectors s) (device_size s) (idata nd) k = Some x" "x \<noteq> 0"
    unfolding x_def data_sector_def mapped_def k_def by (auto split: if_splits)
  from byte_to_sector_lookup [OF fD(1-4), of offset x wm] l obtain s' where
    "byte_to_sector wm i offset s = Some (x, s')" "stored s (sectors s) s'"
    by (auto simp: fD(6) k_def)
  moreover have "x < device_size s" if "offset < dlength (idata nd)"
    using r l(1) sectors_of_offset [OF assms(2) that] by (auto simp: k_def mapped_def)
  ultimately show ?thesis using that sector_not_error by blast
qed

lemma inode_read_loop_ok:
  assumes "open_file s i nd" "0 \<le> offset" "offset < 16635 * 512"
  shows "\<exists>s'. inode_read_loop wm i sz offset b buf s = Some (buf @ take (nat sz) (drop (nat offset) (contents_of s nd)), s')
    \<and> stored s (sectors s) s'"
  using assms
proof (induction "nat sz" arbitrary: sz offset b buf s rule: less_induct)
  case less
  note fD = open_fileD [OF less.prems(1)]
  let ?len = "dlength (idata nd)" and ?x = "data_sector (sectors s) (device_size s) (idata nd) (nat (offset div 512))"
  show ?case
  proof (cases "sz > 0")
    case False
    then show ?thesis using fD(1) by (subst inode_read_loop.simps) (simp add: stored_refl)
  next
    case pos: True
    obtain s1 where s1: "byte_to_sector wm i offset s = Some (?x, s1)" "stored s (sectors s) s1"
      "offset < ?len \<Longrightarrow> ?x \<noteq> - 1 \<and> ?x < device_size s"
      using sector_at_offset [OF less.prems, where wm = wm] by blast
    have f1: "open_file s1 i nd" using open_file_stored [OF less.prems(1) s1(2)] .
    have len1: "inode_length i s1 = Some ?len" using open_fileD(3) [OF f1] by (simp add: inode_length_def)
    show ?thesis
    proof (cases "offset < ?len")
      case False
      then have "drop (nat offset) (contents_of s nd) = []" using less.prems(2) fD(8) by (simp add: contents_of_def)
      then show ?thesis using pos less.prems(2) s1(1,2) False chunk_size_end [of ?len offset sz]
        by (subst inode_read_loop.simps) (simp add: len1)
    next
      case True
      let ?c = "chunk_size ?len offset sz"
      note c = chunk_size_bounds [OF less.prems(2) True pos]
      have "?x < device_size s1" using s1(3) [OF True] stored_fields(10) [OF s1(2)] by simp
      from read_step [OF open_fileD(1) [OF f1] this] obtain s2 where
        s2: "cache_block_read ?x s1 = Some (sectors s1 ?x, s2)" "stored s1 (sectors s1) s2" .
      have st2: "stored s (sectors s) s2" using stored_trans [OF s1(2)] s2(2) stored_fields(9) [OF s1(2)] by simp
      let ?d = "take (nat ?c) (drop (nat (offset mod 512)) (sectors s ?x))"
      have l512: "length (sectors s ?x) = 512" using fD(5) s1(3) [OF True] by blast
      have nm: "nat offset mod 512 = nat (offset mod 512)" "nat offset div 512 = nat (offset div 512)"
        using less.prems(2) by (simp_all add: nat_mod_distrib nat_div_distrib)
      have bounds: "nat offset + nat ?c \<le> nat ?len" "nat offset mod 512 + nat ?c \<le> 512"
        using c less.prems(2) nm(1) pos_mod_sign [of 512 offset] by linarith+
      have d: "?d = take (nat ?c) (drop (nat offset) (contents_of s nd))"
        using piece_of_file [OF bounds, of "sectors s" "device_size s"] l512 unfolding nm contents_of_def by simp
      have "nat (sz - ?c) < nat sz" "0 \<le> offset + ?c" "offset + ?c < 16635 * 512" using c pos less.prems(2) fD(9) by linarith+
      note IH = less.hyps [OF this(1) open_file_stored [OF less.prems(1) st2] this(2,3)]
      let ?b = "if offset mod 512 = 0 \<and> ?c = 512 then b else True"
      have "take (nat 512) (drop 0 (sectors s ?x)) = sectors s ?x" using l512 by simp
      then have "inode_read_loop wm i sz offset b buf s = inode_read_loop wm i (sz - ?c) (offset + ?c) ?b (buf @ ?d) s2"
        using pos less.prems(2) s1(1) s1(3) [OF True] c(1) s2(1) stored_fields(9) [OF s1(2)] open_fileD(2) [OF f1]
        by (subst inode_read_loop.simps) (simp add: len1 Let_def)
      moreover have "?d @ take (nat (sz - ?c)) (drop (nat (offset + ?c)) (contents_of s nd)) =
          take (nat sz) (drop (nat offset) (contents_of s nd))"
        using d take_add [of "nat ?c" "nat (sz - ?c)" "drop (nat offset) (contents_of s nd)"] c less.prems(2)
        by (simp add: nat_diff_distrib nat_add_distrib add.commute)
      ultimately show ?thesis using IH [of ?b "buf @ ?d"] contents_of_stored [OF st2] stored_trans [OF st2] stored_fields(9) [OF st2]
        by auto
    qed
  qed
qed

end
