(* ===== verification/Inode_Write.thy ===== *)
theory Inode_Write
  imports Inode_Read
begin

text \<open>
  Writing inside a file: the loop of \<open>inode_write_at\<close> overwrites the bytes it is given and
  nothing else, as long as the sectors of the file do not overlap.
\<close>

section \<open>Layout\<close>

definition index_sectors :: "(block_sector_t \<Rightarrow> bytes) \<Rightarrow> inode_disk \<Rightarrow> block_sector_t set" where
  "index_sectors m d =
     {x. x \<noteq> - 1 \<and> (x = dblock d ! 123 \<or> x = dblock d ! 124
          \<or> dblock d ! 124 \<noteq> - 1 \<and> (\<exists>j < 128. x = words_of (m (dblock d ! 124)) ! j))}"

definition data_sectors :: "(block_sector_t \<Rightarrow> bytes) \<Rightarrow> block_sector_t \<Rightarrow> inode_disk \<Rightarrow> block_sector_t set" where
  "data_sectors m n d = data_sector m n d ` {..<bytes_to_sectors (dlength d)}"

definition layout_ok :: "(block_sector_t \<Rightarrow> bytes) \<Rightarrow> block_sector_t \<Rightarrow> block_sector_t \<Rightarrow> inode_disk \<Rightarrow> bool" where
  "layout_ok m n sec d \<longleftrightarrow>
     inj_on (data_sector m n d) {..<bytes_to_sectors (dlength d)}
     \<and> data_sectors m n d \<inter> insert sec (index_sectors m d) = {}"

lemma lookup_sector_cong:
  assumes "\<And>x. x \<in> index_sectors m d \<Longrightarrow> m' x = m x"
  shows "lookup_sector m' n d k = lookup_sector m n d k"
proof -
  define q r where "q = (k - 251) div 128" "r = (k - 251) mod 128"
  note folds = this [symmetric]
  consider "k < 123" | "\<not> k < 123" "k < 251" | "\<not> k < 251" "k < 16635" | "\<not> k < 16635" by linarith
  then show ?thesis
  proof cases
    case 2
    then show ?thesis using assms [of "dblock d ! 123"] by (simp add: lookup_sector_def index_sectors_def Let_def)
  next
    case 3
    then have q: "q < 128" by (simp add: q_r_def less_mult_imp_div_less)
    show ?thesis
    proof (cases "dblock d ! 124 = - 1")
      case False
      have a: "m' (dblock d ! 124) = m (dblock d ! 124)" using assms [of "dblock d ! 124"] False by (simp add: index_sectors_def)
      let ?y = "words_of (m (dblock d ! 124)) ! q"
      have "m' ?y = m ?y" if "?y \<noteq> - 1" using assms [of ?y] that False q unfolding index_sectors_def by blast
      then show ?thesis using 3 a by (cases "?y = - 1") (simp_all add: lookup_sector_def Let_def folds)
    qed (use 3 in \<open>simp add: lookup_sector_def Let_def\<close>)
  qed (simp_all add: lookup_sector_def)
qed

text \<open>What a write of \<open>bs\<close> at position \<open>p\<close> does to the store.\<close>

definition overwritten ::
  "(block_sector_t \<Rightarrow> bytes) \<Rightarrow> block_sector_t \<Rightarrow> inode_disk \<Rightarrow> nat \<Rightarrow> bytes \<Rightarrow> (block_sector_t \<Rightarrow> bytes) \<Rightarrow> bool" where
  "overwritten m n d p bs m' \<longleftrightarrow>
     (\<forall>x. x \<notin> data_sectors m n d \<longrightarrow> m' x = m x)
     \<and> (\<forall>x. length (m' x) = length (m x))
     \<and> file_bytes m' n d = patch (file_bytes m n d) p bs"

lemma patch_Nil [simp]: "patch d k [] = d"
  by (simp add: patch_def)

lemma length_patch: "k + length bs \<le> length d \<Longrightarrow> length (patch d k bs) = length d"
  by (simp add: patch_def)

lemma nth_patch:
  assumes "k + length bs \<le> length d" "j < length d"
  shows "patch d k bs ! j = (if k \<le> j \<and> j < k + length bs then bs ! (j - k) else d ! j)"
  using assms by (auto simp: patch_def nth_append min_def)

lemma patch_append:
  assumes "k + length as + length bs \<le> length d"
  shows "patch (patch d k as) (k + length as) bs = patch d k (as @ bs)"
  using assms by (intro nth_equalityI) (auto simp: nth_patch length_patch nth_append)

lemma overwritten_refl: "overwritten m n d p [] m"
  by (simp add: overwritten_def)

lemma index_sectors_cong:
  assumes "\<And>x. x \<in> index_sectors m d \<Longrightarrow> m' x = m x"
  shows "index_sectors m' d = index_sectors m d"
proof (cases "dblock d ! 124 = - 1")
  case False
  then have "m' (dblock d ! 124) = m (dblock d ! 124)" using assms [of "dblock d ! 124"] by (simp add: index_sectors_def)
  then show ?thesis by (simp add: index_sectors_def)
qed (simp add: index_sectors_def)

lemma overwritten_layout:
  assumes "overwritten m n d p bs m'" "layout_ok m n sec d"
  shows "lookup_sector m' n d = lookup_sector m n d" "data_sector m' n d = data_sector m n d"
    "data_sectors m' n d = data_sectors m n d" "index_sectors m' d = index_sectors m d" "m' sec = m sec"
    "layout_ok m' n sec d"
proof -
  have same: "m' x = m x" if "x \<in> insert sec (index_sectors m d)" for x
    using assms that unfolding overwritten_def layout_ok_def by blast
  show lk: "lookup_sector m' n d = lookup_sector m n d"
    by (rule ext, rule lookup_sector_cong) (simp add: same)
  show ix: "index_sectors m' d = index_sectors m d" by (rule index_sectors_cong) (simp add: same)
  from lk show ds: "data_sector m' n d = data_sector m n d" by (simp add: data_sector_def fun_eq_iff)
  then show dss: "data_sectors m' n d = data_sectors m n d" by (simp add: data_sectors_def)
  show "m' sec = m sec" using same by simp
  show "layout_ok m' n sec d" using assms(2) by (simp add: layout_ok_def dss ds ix)
qed

lemma overwritten_trans:
  assumes "overwritten m n d p as m'" "overwritten m' n d (p + length as) bs m''" "layout_ok m n sec d"
    and "p + length as + length bs \<le> nat (dlength d)"
  shows "overwritten m n d p (as @ bs) m''"
proof -
  have "data_sectors m' n d = data_sectors m n d" using overwritten_layout [OF assms(1,3)] by blast
  then show ?thesis using assms patch_append [of p as bs "file_bytes m n d"] by (simp add: overwritten_def)
qed

text \<open>One sector: the bytes of the file from \<open>p\<close> on that lie in the sector of \<open>p\<close>.\<close>

lemma overwritten_sector:
  assumes lay: "layout_ok m n sec d" and p: "p + length bs \<le> nat (dlength d)" "p mod 512 + length bs \<le> 512"
    and x: "x = data_sector m n d (p div 512)" "length (m x) = 512" and ne: "bs \<noteq> []"
    and d': "d' = patch (m x) (p mod 512) bs"
  shows "overwritten m n d p bs (m(x := d'))"
proof -
  let ?m = "m(x := d')"
  have sectors: "q div 512 < bytes_to_sectors (dlength d)" if "q < nat (dlength d)" for q
    using sectors_of_offset [of "int q" "dlength d"] that by (simp add: nat_div_distrib)
  have "p < nat (dlength d)" using p(1) ne by (cases bs) auto
  then have xd: "x \<in> data_sectors m n d" using sectors by (auto simp: data_sectors_def x)
  then have "?m y = m y" if "y \<in> index_sectors m d" for y using lay that by (auto simp: layout_ok_def)
  then have ds: "data_sector ?m n d = data_sector m n d"
    using lookup_sector_cong [of m d ?m n] by (simp add: data_sector_def fun_eq_iff)
  have len: "length d' = 512" using p(2) x(2) by (simp add: d' length_patch)
  have byte: "file_byte ?m n d q = patch (file_bytes m n d) p bs ! q" if q: "q < nat (dlength d)" for q
  proof (cases "q div 512 = p div 512")
    case True
    then have "q = p div 512 * 512 + q mod 512" "p = p div 512 * 512 + p mod 512" by (metis div_mult_mod_eq)+
    then have iff: "p \<le> q \<longleftrightarrow> p mod 512 \<le> q mod 512" "q - p = q mod 512 - p mod 512"
      "q < p + length bs \<longleftrightarrow> q mod 512 < p mod 512 + length bs" by linarith+
    have "file_byte ?m n d q = d' ! (q mod 512)" using True by (simp add: file_byte_def ds x(1) [symmetric])
    also have "\<dots> = (if p \<le> q \<and> q < p + length bs then bs ! (q - p) else file_byte m n d q)"
      using p(2) x True iff unfolding d' by (subst nth_patch) (simp_all add: file_byte_def)
    finally show ?thesis using p(1) q by (subst nth_patch) (simp_all add: file_bytes_def)
  next
    case False
    then have "data_sector m n d (q div 512) \<noteq> x"
      using lay sectors [OF q] sectors [OF \<open>p < nat (dlength d)\<close>] by (auto simp: layout_ok_def x inj_on_def)
    moreover have "\<not> (p \<le> q \<and> q < p + length bs)"
    proof
      assume "p \<le> q \<and> q < p + length bs"
      moreover from this have "p mod 512 + (q - p) < 512" using p(2) by linarith
      ultimately show False using False div_mod_within(1) [of p "q - p"] by simp
    qed
    ultimately show ?thesis using p(1) q by (subst nth_patch) (auto simp: file_byte_def ds file_bytes_def)
  qed
  have "file_bytes ?m n d = patch (file_bytes m n d) p bs"
    using byte p(1) by (intro nth_equalityI) (simp_all add: length_patch, simp add: file_bytes_def)
  then show ?thesis using xd len x(2) by (auto simp: overwritten_def)
qed

section \<open>The loop\<close>

text \<open>The caller's buffer holds \<open>bs\<close> and does not depend on the cache.\<close>

definition steady :: "(fs \<Rightarrow> bytes) \<Rightarrow> fs \<Rightarrow> bytes \<Rightarrow> bool" where
  "steady buffer s bs \<longleftrightarrow> (\<forall>s'. cache.more s' = cache.more s \<longrightarrow> buffer s' = bs)"

lemma steadyD: "steady buffer s bs \<Longrightarrow> cache.more s' = cache.more s \<Longrightarrow> buffer s' = bs"
  by (simp add: steady_def)

lemma steady_const [simp]: "steady (\<lambda>_. bs) s bs"
  by (simp add: steady_def)

lemma open_file_overwritten:
  assumes "open_file s i nd" "layout_ok (sectors s) (device_size s) (isector nd) (idata nd)"
    and "overwritten (sectors s) (device_size s) (idata nd) p bs m'" "stored s m' s'"
  shows "open_file s' i nd" "layout_ok (sectors s') (device_size s') (isector nd) (idata nd)"
    "contents_of s' nd = patch (contents_of s nd) p bs"
proof -
  note fD = open_fileD [OF assms(1)] and ow = overwritten_layout [OF assms(3,2)] and st = stored_fields [OF assms(4)]
  have len: "length (m' x) = length (sectors s x)" for x using assms(3) by (simp add: overwritten_def)
  have "disk_inode s' nd = disk_inode s nd" using ow(5) st by (simp add: disk_inode_def)
  moreover have "file_ok m' (device_size s) (idata nd)"
    using fD(7) unfolding fD(6) [symmetric] file_ok_def mapped_def ow(1) .
  ultimately show "open_file s' i nd" using fD(2-6) st len by (simp add: open_file_def)
  show "layout_ok (sectors s') (device_size s') (isector nd) (idata nd)" using ow(6) st by simp
  show "contents_of s' nd = patch (contents_of s nd) p bs" using assms(3) st by (simp add: contents_of_def overwritten_def)
qed

lemma sector_to_write_found:
  assumes f: "open_file s i nd" and "0 \<le> offset" "offset < dlength (idata nd)"
  defines "x \<equiv> data_sector (sectors s) (device_size s) (idata nd) (nat (offset div 512))"
  obtains s' where "sector_to_write wm i offset s = Some (Some x, s')" "stored s (sectors s) s'" "x < device_size s"
proof -
  have "offset < 16635 * 512" using open_fileD(9) [OF f] assms(3) by simp
  from sector_at_offset [OF f assms(2) this, of wm] obtain s' where
    "byte_to_sector wm i offset s = Some (x, s')" "stored s (sectors s) s'" "x \<noteq> - 1 \<and> x < device_size s"
    using assms(3) unfolding x_def by blast
  then show ?thesis using that by (simp add: sector_to_write_def)
qed

text \<open>One round of the loop, once the sector to write is known.\<close>

lemma inode_write_chunk:
  fixes w :: int
  assumes s1: "sector_to_write wm i offset s = Some (Some x, s1)" "inode_length i s1 = Some len" "cache_ok s1" "allocs s1 = []"
    and x: "x < device_size s1" "length (sectors s1 x) = 512"
    and off: "0 \<le> offset" "0 < sz" and buf: "steady buffer s1 bs"
  defines "c \<equiv> chunk_size len offset sz"
  defines "as \<equiv> take (nat c) (drop (nat w) bs)"
  assumes c: "0 < c" "c \<le> 512 - offset mod 512" "length as = nat c"
  obtains s' b' where
    "inode_write_loop wm i buffer sz offset b w s = inode_write_loop wm i buffer (sz - c) (offset + c) b' (w + c) s'"
    "stored s1 ((sectors s1)(x := patch (sectors s1 x) (nat (offset mod 512)) as)) s'"
proof -
  let ?d = "patch (sectors s1 x) (nat (offset mod 512)) as"
  show ?thesis
  proof (cases "offset mod 512 = 0 \<and> c = 512")
    case True
    from write_step [OF s1(3) x(1)] obtain s2 where
      s2: "cache_block_write x as s1 = Some s2" "stored s1 ((sectors s1)(x := as)) s2" .
    have "as = ?d" using True c(3) x(2) by (simp add: patch_def)
    then have "stored s1 ((sectors s1)(x := ?d)) s2" using s2(2) by simp
    moreover have "inode_write_loop wm i buffer sz offset b w s = inode_write_loop wm i buffer (sz - c) (offset + c) b (w + c) s2"
      using off s1(1,2) True s2(1) steadyD [OF buf refl]
      by (subst inode_write_loop.simps) (simp add: c_def [symmetric] as_def)
    ultimately show ?thesis using that by blast
  next
    case False
    have part: "offset mod 512 > 0 \<or> c < 512 - offset mod 512" using False c(2) pos_mod_sign [of 512 offset] by linarith
    from read_step [OF s1(3) x(1)] obtain s2 where
      s2: "cache_block_read x s1 = Some (sectors s1 x, s2)" "stored s1 (sectors s1) s2" .
    note f2 = stored_fields [OF s2(2)]
    have more2: "cache.more s2 = cache.more s1" using s2(2) by (simp add: stored_def)
    have "x < device_size s2" using x(1) f2(10) by simp
    from write_step [OF f2(8) this] obtain s3 where
      s3: "cache_block_write x ?d s2 = Some s3" "stored s2 ((sectors s2)(x := ?d)) s3" .
    have "stored s1 ((sectors s1)(x := ?d)) s3" using stored_trans [OF s2(2) s3(2)] f2(9) by simp
    moreover have "inode_write_loop wm i buffer sz offset b w s = inode_write_loop wm i buffer (sz - c) (offset + c) True (w + c) s3"
      using off s1(1,2,4) False c(1) part s2(1) s3(1) steadyD [OF buf more2]
      by (cases "offset mod 512 = 0"; subst inode_write_loop.simps; simp add: c_def [symmetric] as_def Let_def)
    ultimately show ?thesis using that by blast
  qed
qed

lemma inode_write_loop_step:
  assumes f: "open_file s i nd" and lay: "layout_ok (sectors s) (device_size s) (isector nd) (idata nd)"
    and off: "0 \<le> offset" "0 < sz" "offset + sz \<le> dlength (idata nd)"
    and buf: "steady buffer s bs" and w: "0 \<le> w" "nat w + nat sz \<le> length bs"
  defines "c \<equiv> chunk_size (dlength (idata nd)) offset sz"
  defines "as \<equiv> take (nat c) (drop (nat w) bs)"
  obtains s' b' m' where
    "inode_write_loop wm i buffer sz offset b w s = inode_write_loop wm i buffer (sz - c) (offset + c) b' (w + c) s'"
    "stored s m' s'" "overwritten (sectors s) (device_size s) (idata nd) (nat offset) as m'"
proof -
  note fD = open_fileD [OF f]
  let ?len = "dlength (idata nd)"
  have lt: "offset < ?len" using off by simp
  define x where "x = data_sector (sectors s) (device_size s) (idata nd) (nat (offset div 512))"
  note c = chunk_size_bounds [OF off(1) lt off(2), folded c_def]
  obtain s1 where s1: "sector_to_write wm i offset s = Some (Some x, s1)" "stored s (sectors s) s1" "x < device_size s"
    using sector_to_write_found [OF f off(1) lt] unfolding x_def by blast
  note f1 = stored_fields [OF s1(2)]
  have las: "length as = nat c" using w c by (simp add: as_def)
  have l512: "length (sectors s x) = 512" using fD(5) s1(3) by blast
  have *: "inode_length i s1 = Some ?len" "allocs s1 = []" "x < device_size s1" "length (sectors s1 x) = 512" "steady buffer s1 bs"
    using fD(2,3) f1(1,7,9,10) s1(2,3) l512 buf by (simp_all add: inode_length_def steady_def stored_def)
  obtain s' b' where s': "inode_write_loop wm i buffer sz offset b w s =
      inode_write_loop wm i buffer (sz - c) (offset + c) b' (w + c) s'"
    "stored s1 ((sectors s1)(x := patch (sectors s1 x) (nat (offset mod 512)) as)) s'"
    using inode_write_chunk [OF s1(1) *(1) f1(8) *(2,3,4) off(1,2) *(5), where w = w and b = b, folded c_def, folded as_def,
        OF c(1,4) las] .
  have nm: "nat offset mod 512 = nat (offset mod 512)" "nat offset div 512 = nat (offset div 512)"
    using off(1) by (simp_all add: nat_mod_distrib nat_div_distrib)
  have "overwritten (sectors s) (device_size s) (idata nd) (nat offset) as
      ((sectors s)(x := patch (sectors s x) (nat (offset mod 512)) as))"
  proof (rule overwritten_sector [OF lay])
    show "nat offset + length as \<le> nat ?len" "nat offset mod 512 + length as \<le> 512"
      using las c off(1) nm(1) pos_mod_sign [of 512 offset] by linarith+
    show "as \<noteq> []" using las c(1) by auto
  qed (simp_all add: x_def nm l512 [unfolded x_def])
  then show ?thesis using that [OF s'(1)] stored_trans [OF s1(2) s'(2)] f1(9) by simp
qed

lemma inode_write_loop_ok:
  assumes "open_file s i nd" "layout_ok (sectors s) (device_size s) (isector nd) (idata nd)"
    and "0 \<le> offset" "0 \<le> sz" "offset + sz \<le> dlength (idata nd)"
    and "steady buffer s bs" "0 \<le> w" "nat w + nat sz \<le> length bs"
  shows "\<exists>m' s'. inode_write_loop wm i buffer sz offset b w s = Some (w + sz, s') \<and> stored s m' s'
    \<and> overwritten (sectors s) (device_size s) (idata nd) (nat offset) (take (nat sz) (drop (nat w) bs)) m'"
  using assms
proof (induction "nat sz" arbitrary: sz offset b w s rule: less_induct)
  case less
  note prems = less.prems
  show ?case
  proof (cases "sz = 0")
    case True
    then show ?thesis using stored_refl [OF open_fileD(1) [OF prems(1)]] overwritten_refl
      by (subst inode_write_loop.simps) auto
  next
    case False
    then have pos: "0 < sz" "offset < dlength (idata nd)" using prems(4,5) by auto
    define c where "c = chunk_size (dlength (idata nd)) offset sz"
    define as where "as = take (nat c) (drop (nat w) bs)"
    note c = chunk_size_bounds [OF prems(3) pos(2,1), folded c_def]
    obtain s1 b' m1 where s1:
      "inode_write_loop wm i buffer sz offset b w s = inode_write_loop wm i buffer (sz - c) (offset + c) b' (w + c) s1"
      "stored s m1 s1" "overwritten (sectors s) (device_size s) (idata nd) (nat offset) as m1"
      using inode_write_loop_step [OF prems(1,2,3) pos(1) prems(5) prems(6,7,8), where wm = wm and b = b, folded c_def, folded as_def] by blast
    note f1 = open_file_overwritten [OF prems(1,2) s1(3,2)] and st1 = stored_fields [OF s1(2)]
    have more1: "cache.more s1 = cache.more s" using s1(2) by (simp add: stored_def)
    have *: "nat (sz - c) < nat sz" "0 \<le> offset + c" "0 \<le> sz - c" "offset + c + (sz - c) \<le> dlength (idata nd)"
      "0 \<le> w + c" "nat (w + c) + nat (sz - c) \<le> length bs"
      using c prems(3,4,5,7,8) by linarith+
    have buf: "steady buffer s1 bs" using prems(6) more1 by (simp add: steady_def)
    from less.hyps [OF *(1) f1(1,2) *(2,3,4) buf *(5,6), of b'] obtain m' s' where s':
      "inode_write_loop wm i buffer (sz - c) (offset + c) b' (w + c) s1 = Some (w + c + (sz - c), s')" "stored s1 m' s'"
      "overwritten m1 (device_size s) (idata nd) (nat (offset + c)) (take (nat (sz - c)) (drop (nat (w + c)) bs)) m'"
      using st1 by auto
    let ?bs = "take (nat (sz - c)) (drop (nat (w + c)) bs)"
    have las: "length as = nat c" using prems(7,8) c by (simp add: as_def)
    have "nat (offset + c) = nat offset + length as" using las prems(3) c by simp
    moreover have "nat offset + length as + length ?bs \<le> nat (dlength (idata nd))" using las prems(3,5) c by simp
    ultimately have "overwritten (sectors s) (device_size s) (idata nd) (nat offset) (as @ ?bs) m'"
      using overwritten_trans [OF s1(3) _ prems(2)] s'(3) by simp
    moreover have "as @ ?bs = take (nat sz) (drop (nat w) bs)"
      using take_add [of "nat c" "nat (sz - c)" "drop (nat w) bs"] c prems(7)
      by (simp add: as_def nat_diff_distrib nat_add_distrib add.commute)
    ultimately show ?thesis using s1(1) s'(1) stored_trans [OF s1(2) s'(2)] by auto
  qed
qed

section \<open>The whole write\<close>

lemma sectors_upd_inode [simp]:
  "cache_ok (upd_inode i f s) = cache_ok s" "sectors (upd_inode i f s) = sectors s"
  "device_size (upd_inode i f s) = device_size s" "allocs (upd_inode i f s) = allocs s"
  "inodes (upd_inode i f s) = (inodes s)(i := map_option f (inodes s i))"
  "free_map (upd_inode i f s) = free_map s" "free_map_file (upd_inode i f s) = free_map_file s"
  "open_inodes (upd_inode i f s) = open_inodes s" "next_inode (upd_inode i f s) = next_inode s"
  "cur_dir (upd_inode i f s) = cur_dir s"
  by (simp_all add: upd_inode_def cache_ok_def cache_core_def hashed_def sectors_def device_size_def fun_eq_iff
      split: option.split)

lemma more_eqI:
  assumes "inodes s' = inodes s" "open_inodes s' = open_inodes s" "next_inode s' = next_inode s"
    "free_map s' = free_map s" "free_map_file s' = free_map_file s" "cur_dir s' = cur_dir s" "allocs s' = allocs s"
  shows "cache.more s' = cache.more (s :: fs)"
  using assms by (cases s; cases s') simp

text \<open>Writing the in-memory inode back under its lock.\<close>

lemma write_back:
  assumes "cache_ok s" "inodes s i = Some nd" "\<not> lock_inode nd" "isector nd < device_size s"
  obtains s' where "do { s \<leftarrow> inode_lock i s; s \<leftarrow> write_inode i s; inode_unlock i s } = Some s'"
    "stored s ((sectors s)(isector nd := bytes_of_inode (idata nd))) s'"
proof -
  let ?l = "upd_inode i (lock_inode_update (\<lambda>_. True)) s"
  obtain s1 where s1: "cache_block_write (isector nd) (bytes_of_inode (idata nd)) ?l = Some s1"
    "stored ?l ((sectors ?l)(isector nd := bytes_of_inode (idata nd))) s1"
    using write_step [of ?l "isector nd"] assms by auto
  note st = stored_fields [OF s1(2)]
  let ?u = "upd_inode i (lock_inode_update (\<lambda>_. False)) s1"
  have "inode_lock i s = Some ?l" "write_inode i ?l = Some s1" "inode_unlock i s1 = Some ?u"
    using assms s1(1) st by (simp_all add: inode_lock_def write_inode_def inode_unlock_def)
  moreover have "nd\<lparr>lock_inode := False\<rparr> = nd" using assms(3) by (cases nd) simp
  then have "cache.more ?u = cache.more s" using assms st by (intro more_eqI) (auto simp: fun_eq_iff o_def)
  then have "stored s ((sectors s)(isector nd := bytes_of_inode (idata nd))) ?u"
    using st by (simp add: stored_def)
  ultimately show ?thesis using that by simp
qed

lemma inode_write_at_ok:
  assumes f: "open_file s i nd" and lay: "layout_ok (sectors s) (device_size s) (isector nd) (idata nd)"
    and off: "0 \<le> offset" "0 \<le> sz" "offset + sz \<le> dlength (idata nd)"
    and buf: "steady buffer s bs" "nat sz \<le> length bs"
    and nd: "deny_write_cnt nd = 0" "\<not> lock_inode nd"
  shows "\<exists>m' s'. inode_write_at wm i buffer sz offset s = Some (sz, s') \<and> stored s m' s'
    \<and> overwritten (sectors s) (device_size s) (idata nd) (nat offset) (take (nat sz) bs) m'"
proof -
  note fD = open_fileD [OF f]
  obtain m1 s1 where s1: "inode_write_loop wm i buffer sz offset False 0 s = Some (sz, s1)" "stored s m1 s1"
    "overwritten (sectors s) (device_size s) (idata nd) (nat offset) (take (nat sz) bs) m1"
    using inode_write_loop_ok [OF f lay off buf(1), where wm = wm and b = False and w = 0] buf(2) by auto
  note st1 = stored_fields [OF s1(2)]
  have "inodes s1 i = Some nd" "isector nd < device_size s1" using fD(3,4) st1 by simp_all
  from write_back [OF st1(8) this(1) nd(2) this(2)] obtain s2 where s2:
    "do { s \<leftarrow> inode_lock i s1; s \<leftarrow> write_inode i s; inode_unlock i s } = Some s2"
    "stored s1 ((sectors s1)(isector nd := bytes_of_inode (idata nd))) s2" .
  have "sectors s1 (isector nd) = sectors s (isector nd)" using overwritten_layout(5) [OF s1(3) lay] st1(9) by simp
  moreover have "bytes_of_inode (idata nd) = sectors s (isector nd)"
    using bytes_of_inode_of_bytes [OF fD(5) [OF fD(4)]] fD(6) by (simp add: disk_inode_def)
  ultimately have "stored s m1 s2" using stored_trans [OF s1(2) s2(2)] st1(9) by (simp add: fun_upd_idem)
  moreover have "off_ok (offset + sz)" using off fD(9) by (simp add: off_ok_def)
  then have "inode_write_at wm i buffer sz offset s =
      do { s \<leftarrow> inode_lock i s1; s \<leftarrow> write_inode i s; s \<leftarrow> inode_unlock i s; Some (sz, s) }"
    using fD(3) nd(1) off s1(1) by (simp add: inode_write_at_def inode_length_def)
  then have "inode_write_at wm i buffer sz offset s = Some (sz, s2)"
    using s2(1) by (auto simp: bind_eq_Some_conv)
  ultimately show ?thesis using s1(3) by blast
qed

end
