(* ===== verification/Free_Map.thy ===== *)
theory Free_Map
  imports Inode_Write
begin

text \<open>
  The free map (\<open>filesys/free-map.c\<close>) and its file: allocation takes the first free sector,
  changes nothing else but the bitmap, and leaves the file with the new bitmap in it. One
  nested write is enough, because the file has no holes.
\<close>

definition used :: "fs \<Rightarrow> block_sector_t \<Rightarrow> bool" where
  "used s x = bitv (free_map s) (unat x)"

definition map_file :: "fs \<Rightarrow> file_t \<Rightarrow> inode \<Rightarrow> bool" where
  "map_file s f mnd \<longleftrightarrow>
     free_map_file s = Some f \<and> open_file s (finode f) mnd
     \<and> layout_ok (sectors s) (device_size s) (isector mnd) (idata mnd)
     \<and> deny_write_cnt mnd = 0 \<and> \<not> lock_inode mnd
     \<and> bitmap_ok (free_map s) \<and> bit_cnt (free_map s) = device_size s
     \<and> 4 * length (bits (free_map s)) \<le> nat (dlength (idata mnd))"

text \<open>Where the free map is kept: the sectors that writing it changes.\<close>

abbreviation map_sectors :: "fs \<Rightarrow> inode \<Rightarrow> block_sector_t set" where
  "map_sectors s mnd \<equiv> data_sectors (sectors s) (device_size s) (idata mnd)"

lemma map_fileD:
  assumes "map_file s f mnd"
  shows "free_map_file s = Some f" "open_file s (finode f) mnd"
    "layout_ok (sectors s) (device_size s) (isector mnd) (idata mnd)"
    "deny_write_cnt mnd = 0" "\<not> lock_inode mnd" "bitmap_ok (free_map s)" "bit_cnt (free_map s) = device_size s"
    "4 * length (bits (free_map s)) \<le> nat (dlength (idata mnd))"
  using assms by (simp_all add: map_file_def)

lemma map_file_size:
  assumes "map_file s f mnd"
  shows "uint (byte_cnt (bit_cnt (free_map s))) = int (4 * length (bits (free_map s)))"
proof -
  let ?b = "free_map s"
  have len: "length (bits ?b) = (unat (bit_cnt ?b) + 31) div 32"
    using map_fileD(6) [OF assms] by (simp add: bitmap_ok_def size_of_def)
  have "4 * length (bits ?b) < 16635 * 512"
    using map_fileD(8) [OF assms] open_fileD(9) [OF map_fileD(2) [OF assms]] by linarith
  then have small: "length (bits ?b) < 2129280" by simp
  then have "unat (bit_cnt ?b) \<le> 2 ^ 32 - 32" using len by simp
  then have e: "unat (elem_cnt (bit_cnt ?b)) = length (bits ?b)" using elem_cnt_spec len by simp
  have "unat (byte_cnt (bit_cnt ?b)) = 4 * length (bits ?b)"
    using small unfolding byte_cnt_def by (simp add: unat_word_ariths e)
  then show ?thesis by (metis uint_nat)
qed

lemma free_map_write_ok:
  assumes "map_file s f mnd"
  shows "\<exists>m' s'. free_map_write (Suc depth) s = Some (True, s') \<and> stored s m' s'
    \<and> overwritten (sectors s) (device_size s) (idata mnd) 0 (bytes_of (bits (free_map s))) m'"
proof -
  note mf = map_fileD [OF assms]
  let ?sz = "uint (byte_cnt (bit_cnt (free_map s)))" and ?bs = "bytes_of (bits (free_map s))"
  have sz: "?sz = int (4 * length (bits (free_map s)))" using map_file_size [OF assms] .
  have "steady (\<lambda>s. bytes_of (bits (free_map s))) s ?bs"
    unfolding steady_def by (auto dest: more_fields(4))
  moreover have "0 + ?sz \<le> dlength (idata mnd)" "nat ?sz \<le> length ?bs" "0 \<le> ?sz" "take (nat ?sz) ?bs = ?bs"
    using sz mf(8) open_fileD(8) [OF mf(2)] by simp_all
  ultimately obtain m' s' where
    "inode_write_at (free_map_write depth) (finode f) (\<lambda>s. bytes_of (bits (free_map s))) ?sz 0 s = Some (?sz, s')"
    "stored s m' s'" "overwritten (sectors s) (device_size s) (idata mnd) 0 ?bs m'"
    using inode_write_at_ok [OF mf(2,3) order.refl _ _ _ _ mf(4,5), of ?sz] by fastforce
  then show ?thesis using mf(1) by (auto simp: free_map_write.simps bitmap_write_def Let_def)
qed

text \<open>The outcome of a successful allocation of one sector.\<close>

definition allocated :: "fs \<Rightarrow> inode \<Rightarrow> block_sector_t \<Rightarrow> fs \<Rightarrow> bool" where
  "allocated s mnd x s' \<longleftrightarrow>
     x < device_size s \<and> \<not> used s x \<and> (\<forall>y < x. used s y)
     \<and> flipped (free_map s) (unat x) 1 True (free_map s')
     \<and> stored (s\<lparr>free_map := free_map s'\<rparr>) (sectors s') s'
     \<and> overwritten (sectors s) (device_size s) (idata mnd) 0 (bytes_of (bits (free_map s'))) (sectors s')"

lemma free_map_upd [simp]:
  "cache_ok (s\<lparr>free_map := b\<rparr>) = cache_ok (s :: fs)" "sectors (s\<lparr>free_map := b\<rparr>) = sectors s"
  "device_size (s\<lparr>free_map := b\<rparr>) = device_size s"
  by (simp_all add: cache_ok_def cache_core_def hashed_def sectors_def device_size_def fun_eq_iff split: option.split)

lemma open_file_free_map [simp]: "open_file (s\<lparr>free_map := b\<rparr>) i nd = open_file s i nd"
  by (simp add: open_file_def disk_inode_def)

lemma map_file_flipped:
  assumes "map_file s f mnd" "bitmap_ok b" "bit_cnt b = bit_cnt (free_map s)"
  shows "map_file (s\<lparr>free_map := b\<rparr>) f mnd"
proof -
  have "length (bits b) = length (bits (free_map s))"
    using assms map_fileD(6) [OF assms(1)] by (simp add: bitmap_ok_def size_of_def)
  then show ?thesis using assms unfolding map_file_def by simp
qed

lemma map_file_overwritten:
  assumes "map_file s f mnd" "overwritten (sectors s) (device_size s) (idata mnd) p bs m'" "stored s m' s'"
  shows "map_file s' f mnd" "map_sectors s' mnd = map_sectors s mnd"
proof -
  note mf = map_fileD [OF assms(1)] and st = stored_fields [OF assms(3)]
  show "map_file s' f mnd"
    using mf open_file_overwritten [OF mf(2,3) assms(2,3)] st by (simp add: map_file_def)
  show "map_sectors s' mnd = map_sectors s mnd"
    using overwritten_layout(3) [OF assms(2) mf(3)] st by simp
qed

lemma run_of_1: "run_of b i (Suc 0) v \<longleftrightarrow> i < size_of b \<and> bitv b i = v"
  unfolding run_of_def by (auto simp: less_Suc_eq_le le_antisym)

lemma free_map_allocate_ok:
  assumes mf: "map_file s f mnd" and free: "\<exists>x < device_size s. \<not> used s x"
  obtains x s' where "free_map_allocate (free_map_write (Suc depth)) 1 s = Some (Some x, s')"
    "allocated s mnd x s'" "map_file s' f mnd" "map_sectors s' mnd = map_sectors s mnd"
proof -
  note mfD = map_fileD [OF mf]
  have "\<exists>i\<ge>unat (0 :: u32). run_of (free_map s) i (unat (1 :: u32)) False"
    using free mfD(7) by (auto simp: run_of_1 used_def size_of_def word_less_nat_alt)
  from bitmap_scan_and_flip_some [OF mfD(6) _ _ this] obtain i b' where i:
    "bitmap_scan_and_flip (free_map s) 0 1 False = Some (of_nat i, b')" "unat (of_nat i :: u32) = i"
    "(of_nat i :: u32) \<noteq> - 1" "run_of (free_map s) i (Suc 0) False"
    "\<forall>j < i. \<not> run_of (free_map s) j (Suc 0) False" "flipped (free_map s) i (Suc 0) True b'"
    by auto
  let ?s = "s\<lparr>free_map := b'\<rparr>" and ?x = "of_nat i :: u32"
  have mf1: "map_file ?s f mnd" using map_file_flipped [OF mf] i(6) by (simp add: flipped_def)
  obtain m' s' where s': "free_map_write (Suc depth) ?s = Some (True, s')" "stored ?s m' s'"
    "overwritten (sectors ?s) (device_size ?s) (idata mnd) 0 (bytes_of (bits (free_map ?s))) m'"
    using free_map_write_ok [OF mf1] by blast
  have "free_map_allocate (free_map_write (Suc depth)) 1 s = Some (Some ?x, s')"
    using i(1,3) s'(1) mfD(1) by (simp add: free_map_allocate_def)
  moreover have "?x < device_size s" "\<not> used s ?x" "\<forall>y < ?x. used s y"
    using i(2,4,5) mfD(7) by (auto simp: run_of_1 used_def size_of_def word_less_nat_alt)
  then have "allocated s mnd ?x s'"
    using s' i(2,6) stored_fields [OF s'(2)] by (simp add: allocated_def)
  moreover have "map_file s' f mnd" "map_sectors s' mnd = map_sectors s mnd"
    using map_file_overwritten [OF mf1 s'(3,2)] by simp_all
  ultimately show ?thesis using that by blast
qed

lemma free_map_allocate_full:
  assumes mf: "map_file s f mnd" and "\<forall>x < device_size s. used s x"
  shows "free_map_allocate wm 1 s = Some (None, s)"
proof -
  note mfD = map_fileD [OF mf]
  have "\<not> (\<exists>i\<ge>unat (0 :: u32). run_of (free_map s) i (unat (1 :: u32)) False)"
  proof
    assume "\<exists>i\<ge>unat (0 :: u32). run_of (free_map s) i (unat (1 :: u32)) False"
    then obtain i where i: "i < unat (device_size s)" "\<not> bitv (free_map s) i"
      using mfD(7) by (auto simp: run_of_1 size_of_def)
    moreover have "unat (device_size s) < 2 ^ LENGTH(32)" by (rule unsigned_less)
    ultimately have "unat (of_nat i :: u32) = i" by (intro unat_of_nat_u32) simp
    then show False using i assms(2) by (auto simp: used_def word_less_nat_alt dest: spec [of _ "of_nat i"])
  qed
  from bitmap_scan_and_flip_none [OF mfD(6) _ this] have "bitmap_scan_and_flip (free_map s) 0 1 False = Some (- 1, free_map s)"
    by simp
  then show ?thesis by (simp add: free_map_allocate_def)
qed

end
