(* ===== verification/Inode_Holes.thy ===== *)
theory Inode_Holes
  imports Free_Map
begin

text \<open>
  Holes: the first access to a sector that is only marked allocates it. The in-memory copy of
  the inode does not learn of the new sector, so that the write-back at the end of
  \<open>inode_write_at\<close> turns the sector into a hole again and the bytes just written are lost.
\<close>

section \<open>Files that a step leaves alone\<close>

definition owned :: "fs \<Rightarrow> inode \<Rightarrow> block_sector_t set" where
  "owned s nd = insert (isector nd)
     (index_sectors (sectors s) (idata nd) \<union> data_sectors (sectors s) (device_size s) (idata nd))"

lemma open_file_frame:
  assumes f: "open_file s i nd" and s': "cache_ok s'" "device_size s' = device_size s" "allocs s' = []" "inodes s' i = Some nd"
    and same: "\<And>x. x \<in> owned s nd \<Longrightarrow> sectors s' x = sectors s x" and len: "\<And>x. x < device_size s \<Longrightarrow> length (sectors s' x) = 512"
  shows "open_file s' i nd" "owned s' nd = owned s nd" "contents_of s' nd = contents_of s nd"
    "layout_ok (sectors s) (device_size s) (isector nd) (idata nd) \<Longrightarrow> layout_ok (sectors s') (device_size s') (isector nd) (idata nd)"
    "data_sectors (sectors s') (device_size s') (idata nd) = data_sectors (sectors s) (device_size s) (idata nd)"
proof -
  note fD = open_fileD [OF f]
  let ?m = "sectors s" and ?m' = "sectors s'" and ?n = "device_size s" and ?d = "idata nd"
  have ix: "?m' x = ?m x" if "x \<in> index_sectors ?m ?d" for x using same that by (simp add: owned_def)
  have lk: "lookup_sector ?m' ?n ?d = lookup_sector ?m ?n ?d" by (rule ext, rule lookup_sector_cong) (rule ix)
  have ixs: "index_sectors ?m' ?d = index_sectors ?m ?d" by (rule index_sectors_cong) (rule ix)
  have ds: "data_sector ?m' ?n ?d = data_sector ?m ?n ?d" using lk by (simp add: data_sector_def fun_eq_iff)
  show dss: "data_sectors (sectors s') (device_size s') ?d = data_sectors ?m ?n ?d" by (simp add: data_sectors_def ds s')
  show "owned s' nd = owned s nd" using dss by (simp add: owned_def ixs s')
  have "?m' (isector nd) = ?m (isector nd)" using same by (simp add: owned_def)
  moreover have "file_ok ?m' ?n ?d" using fD(7) unfolding fD(6) [symmetric] file_ok_def mapped_def lk .
  ultimately show "open_file s' i nd" using fD(4,6) s' len by (simp add: open_file_def disk_inode_def)
  show "layout_ok ?m' (device_size s') (isector nd) ?d" if "layout_ok ?m ?n (isector nd) ?d"
    using that dss by (simp add: layout_ok_def ds ixs s')
  have "file_byte ?m' ?n ?d p = file_byte ?m ?n ?d p" if "p < nat (dlength ?d)" for p
  proof -
    have "p div 512 < bytes_to_sectors (dlength ?d)"
      using sectors_of_offset [of "int p" "dlength ?d"] that by (simp add: nat_div_distrib)
    then have "data_sector ?m ?n ?d (p div 512) \<in> owned s nd" by (simp add: owned_def data_sectors_def)
    then show ?thesis using same by (simp add: file_byte_def ds)
  qed
  then show "contents_of s' nd = contents_of s nd" by (simp add: contents_of_def file_bytes_def s')
qed

lemma map_file_frame:
  assumes mf: "map_file s f mnd" and s': "cache_ok s'" "device_size s' = device_size s" "allocs s' = []"
      "inodes s' (finode f) = Some mnd" "free_map_file s' = Some f"
    and b: "bitmap_ok (free_map s')" "bit_cnt (free_map s') = bit_cnt (free_map s)"
    and same: "\<And>x. x \<in> owned s mnd \<Longrightarrow> sectors s' x = sectors s x" and len: "\<And>x. x < device_size s \<Longrightarrow> length (sectors s' x) = 512"
  shows "map_file s' f mnd" "owned s' mnd = owned s mnd"
proof -
  note mfD = map_fileD [OF mf]
  note fr = open_file_frame [OF mfD(2) s'(1-4) same len]
  have "length (bits (free_map s')) = length (bits (free_map s))"
    using b mfD(6) by (simp add: bitmap_ok_def size_of_def)
  then show "map_file s' f mnd" using fr(1,4) mfD(3-8) s' b by (simp add: map_file_def)
  show "owned s' mnd = owned s mnd" by (rule fr(2))
qed

lemma map_file_stored:
  assumes "map_file s f mnd" "stored s (sectors s) s'"
  shows "map_file s' f mnd"
  using map_fileD [OF assms(1)] open_file_stored [OF map_fileD(2) [OF assms(1)] assms(2)] stored_fields [OF assms(2)]
  by (simp add: map_file_def)

lemma allocatedD:
  assumes "allocated s mnd x s'"
  shows "x < device_size s" "\<not> used s x" "\<forall>y < x. used s y" "flipped (free_map s) (unat x) 1 True (free_map s')"
    "stored (s\<lparr>free_map := free_map s'\<rparr>) (sectors s') s'"
    "overwritten (sectors s) (device_size s) (idata mnd) 0 (bytes_of (bits (free_map s'))) (sectors s')"
  using assms by (simp_all add: allocated_def)

lemma allocated_stored:
  assumes "stored s (sectors s) s0" "allocated s0 mnd x s'"
  shows "allocated s mnd x s'"
proof -
  note st0 = stored_fields [OF assms(1)] and al = allocatedD [OF assms(2)]
  have "cache.more (s0\<lparr>free_map := free_map s'\<rparr>) = cache.more (s\<lparr>free_map := free_map s'\<rparr>)"
    using st0 by (intro more_eqI) simp_all
  then have "stored (s\<lparr>free_map := free_map s'\<rparr>) (sectors s') s'" using al(5) st0 by (simp add: stored_def)
  then show ?thesis using al st0 by (simp add: allocated_def used_def)
qed

text \<open>An allocation, as far as the rest of the state can see it.\<close>

lemma allocated_fields:
  assumes "allocated s mnd x s'"
  shows "inodes s' = inodes s" "open_inodes s' = open_inodes s" "next_inode s' = next_inode s"
    "free_map_file s' = free_map_file s" "cur_dir s' = cur_dir s" "allocs s' = allocs s"
    "cache_ok s'" "device_size s' = device_size s" "used s' y \<longleftrightarrow> used s y \<or> y = x"
    "y \<notin> map_sectors s mnd \<Longrightarrow> sectors s' y = sectors s y" "length (sectors s' y) = length (sectors s y)"
proof -
  note st = stored_fields [OF allocatedD(5) [OF assms]]
  show "inodes s' = inodes s" "open_inodes s' = open_inodes s" "next_inode s' = next_inode s"
    "free_map_file s' = free_map_file s" "cur_dir s' = cur_dir s" "allocs s' = allocs s"
    "cache_ok s'" "device_size s' = device_size s"
    using st by simp_all
  show "used s' y \<longleftrightarrow> used s y \<or> y = x"
    using allocatedD(4) [OF assms] by (auto simp: used_def flipped_def word_unat_eq_iff)
  show "y \<notin> map_sectors s mnd \<Longrightarrow> sectors s' y = sectors s y" "length (sectors s' y) = length (sectors s y)"
    using allocatedD(6) [OF assms] by (simp_all add: overwritten_def)
qed

section \<open>Filling a hole\<close>

definition zeros :: bytes where
  "zeros = replicate 512 0"

lemma length_zeros [simp]: "length zeros = 512"
  by (simp add: zeros_def)

lemma byte_to_sector_hole:
  assumes mf: "map_file s f mnd" and nd: "inodes s i = Some nd" "isector nd < device_size s"
    and k: "k = nat (pos div 512)" "k < 123" "dblock (disk_inode s nd) ! k = 0"
    and free: "\<exists>x < device_size s. \<not> used s x"
  obtains x s1 s' where "byte_to_sector (free_map_write (Suc depth)) i pos s = Some (x, s')"
    "allocated s mnd x s1" "map_file s1 f mnd"
    "stored s1 ((sectors s1)(x := zeros,
       isector nd := bytes_of_inode ((disk_inode s nd)\<lparr>dblock := (dblock (disk_inode s nd))[k := x]\<rparr>))) s'"
proof -
  let ?wm = "free_map_write (Suc depth)" and ?d = "disk_inode s nd"
  note fD = open_fileD [OF map_fileD(2) [OF mf]]
  obtain s0 where s0: "cache_block_read (isector nd) s = Some (sectors s (isector nd), s0)" "stored s (sectors s) s0"
    using read_step [OF fD(1) nd(2)] .
  note st0 = stored_fields [OF s0(2)]
  have mf0: "map_file s0 f mnd" using map_file_stored [OF mf s0(2)] .
  have "\<exists>x < device_size s0. \<not> used s0 x" using free st0 by (simp add: used_def)
  from free_map_allocate_ok [OF mf0 this, of depth] obtain x s1 where s1:
    "free_map_allocate ?wm 1 s0 = Some (Some x, s1)" "allocated s0 mnd x s1" "map_file s1 f mnd" by blast
  have al: "allocated s mnd x s1"
    using allocated_stored [OF s0(2) s1(2)] .
  note st1 = allocated_fields [OF al]
  have x: "x < device_size s1" using allocatedD(1) [OF al] st1(8) by simp
  obtain s2 where s2: "cache_block_write x zeros s1 = Some s2" "stored s1 ((sectors s1)(x := zeros)) s2"
    using write_step [OF st1(7) x] .
  note st2 = stored_fields [OF s2(2)]
  have "isector nd < device_size s2" using nd(2) st1(8) st2(10) by simp
  from write_step [OF st2(8) this] obtain s3 where s3:
    "cache_block_write (isector nd) (bytes_of_inode (?d\<lparr>dblock := (dblock ?d)[k := x]\<rparr>)) s2 = Some s3"
    "stored s2 ((sectors s2)(isector nd := bytes_of_inode (?d\<lparr>dblock := (dblock ?d)[k := x]\<rparr>))) s3" .
  have "byte_to_sector ?wm i pos s = Some (x, s3)"
    using nd(1) fD(2) s0(1) k s1(1) s2(1) s3(1)
    by (simp add: byte_to_sector_def fill_slot_def inode_alloc_zeros_def disk_inode_def zeros_def)
  moreover have "stored s1 ((sectors s1)(x := zeros, isector nd := bytes_of_inode (?d\<lparr>dblock := (dblock ?d)[k := x]\<rparr>))) s3"
    using stored_trans [OF s2(2) s3(2)] st2(9) by simp
  ultimately show ?thesis using that al s1(3) by blast
qed

text \<open>
  An open inode next to the free map: none of the sectors of the free map's file is its own,
  and all are marked as used.
\<close>

definition beside_map :: "fs \<Rightarrow> file_t \<Rightarrow> inode \<Rightarrow> nat \<Rightarrow> inode \<Rightarrow> bool" where
  "beside_map s f mnd i nd \<longleftrightarrow>
     map_file s f mnd \<and> i \<noteq> finode f \<and> inodes s i = Some nd \<and> isector nd < device_size s
     \<and> deny_write_cnt nd = 0 \<and> \<not> lock_inode nd
     \<and> isector nd \<notin> owned s mnd \<and> used s (isector nd) \<and> used s 0 \<and> (\<forall>x \<in> owned s mnd. used s x)"

lemma beside_mapD:
  assumes "beside_map s f mnd i nd"
  shows "map_file s f mnd" "i \<noteq> finode f" "inodes s i = Some nd" "isector nd < device_size s"
    "deny_write_cnt nd = 0" "\<not> lock_inode nd" "isector nd \<notin> owned s mnd" "used s (isector nd)" "used s 0"
    "x \<in> owned s mnd \<Longrightarrow> used s x"
    "cache_ok s" "allocs s = []" "y < device_size s \<Longrightarrow> length (sectors s y) = 512"
proof -
  show mf: "map_file s f mnd" and "i \<noteq> finode f" "inodes s i = Some nd" "isector nd < device_size s"
    "deny_write_cnt nd = 0" "\<not> lock_inode nd" "isector nd \<notin> owned s mnd" "used s (isector nd)" "used s 0"
    "x \<in> owned s mnd \<Longrightarrow> used s x"
    using assms by (simp_all add: beside_map_def)
  show "cache_ok s" "allocs s = []" "y < device_size s \<Longrightarrow> length (sectors s y) = 512"
    using open_fileD [OF map_fileD(2) [OF mf]] by simp_all
qed

text \<open>A step that only changes the inode's own sectors, free ones and its in-memory copy.\<close>

lemma beside_map_frame:
  assumes b: "beside_map s f mnd i nd" and s': "cache_ok s'" "device_size s' = device_size s" "allocs s' = allocs s"
      "inodes s' = (inodes s)(i := Some nd')" "free_map_file s' = free_map_file s" "free_map s' = free_map s"
    and nd': "isector nd' = isector nd" "deny_write_cnt nd' = deny_write_cnt nd" "lock_inode nd' = lock_inode nd"
    and same: "\<And>x. x \<in> owned s mnd \<Longrightarrow> sectors s' x = sectors s x" and len: "\<And>x. length (sectors s' x) = length (sectors s x)"
  shows "beside_map s' f mnd i nd'" "owned s' mnd = owned s mnd" "map_sectors s' mnd = map_sectors s mnd"
proof -
  note bD = beside_mapD [OF b] and mfD = map_fileD [OF beside_mapD(1) [OF b]]
  have in_f: "inodes s' (finode f) = Some mnd" using bD(2) s'(4) open_fileD(3) [OF mfD(2)] by simp
  have al: "allocs s' = []" using bD(12) s'(3) by simp
  have l512: "length (sectors s' x) = 512" if "x < device_size s" for x using bD(13) [OF that] len by simp
  have fmf: "free_map_file s' = Some f" "bitmap_ok (free_map s')" "bit_cnt (free_map s') = bit_cnt (free_map s)"
    using mfD(1,6) s'(5,6) by simp_all
  note fr = map_file_frame [OF bD(1) s'(1,2) al in_f fmf(1-3) same l512]
  show "owned s' mnd = owned s mnd" by (rule fr(2))
  show "map_sectors s' mnd = map_sectors s mnd" by (rule open_file_frame(5) [OF mfD(2) s'(1,2) al in_f same l512])
  show "beside_map s' f mnd i nd'"
    using fr bD(2,4-10) s' nd' by (simp add: beside_map_def used_def)
qed

lemma beside_map_allocated:
  assumes b: "beside_map s f mnd i nd" and al: "allocated s mnd x s'" and mf: "map_file s' f mnd"
  shows "beside_map s' f mnd i nd" "owned s' mnd = owned s mnd" "map_sectors s' mnd = map_sectors s mnd"
proof -
  note bD = beside_mapD [OF b] and mfD = map_fileD [OF beside_mapD(1) [OF b]] and a = allocated_fields [OF al]
  note ow = overwritten_layout [OF allocatedD(6) [OF al] mfD(3)]
  show "owned s' mnd = owned s mnd" "map_sectors s' mnd = map_sectors s mnd"
    using ow(3,4) a(8) by (simp_all add: owned_def)
  then show "beside_map s' f mnd i nd" using bD mf a by (simp add: beside_map_def)
qed

text \<open>What filling a direct hole does.\<close>

lemma fill_hole:
  assumes b: "beside_map s f mnd i nd" and k: "k = nat (pos div 512)" "k < 123" "dblock (disk_inode s nd) ! k = 0"
    and free: "\<exists>x < device_size s. \<not> used s x"
  obtains x s' where "byte_to_sector (free_map_write (Suc depth)) i pos s = Some (x, s')"
    "x < device_size s" "\<not> used s x" "\<And>y. used s' y \<longleftrightarrow> used s y \<or> y = x"
    "beside_map s' f mnd i nd" "owned s' mnd = owned s mnd" "map_sectors s' mnd = map_sectors s mnd"
    "inodes s' = inodes s" "device_size s' = device_size s" "sectors s' x = zeros"
    "disk_inode s' nd = (disk_inode s nd)\<lparr>dblock := (dblock (disk_inode s nd))[k := x]\<rparr>"
    "\<And>y. y \<noteq> x \<Longrightarrow> y \<noteq> isector nd \<Longrightarrow> y \<notin> map_sectors s mnd \<Longrightarrow> sectors s' y = sectors s y"
    "open_inodes s' = open_inodes s" "next_inode s' = next_inode s" "free_map_file s' = free_map_file s" "cur_dir s' = cur_dir s"
proof -
  note bD = beside_mapD [OF b]
  let ?d = "disk_inode s nd" and ?D = "(disk_inode s nd)\<lparr>dblock := (dblock (disk_inode s nd))[k := x]\<rparr>"
  obtain x s1 s' where s': "byte_to_sector (free_map_write (Suc depth)) i pos s = Some (x, s')"
    "allocated s mnd x s1" "map_file s1 f mnd"
    "stored s1 ((sectors s1)(x := zeros, isector nd := bytes_of_inode (?d\<lparr>dblock := (dblock ?d)[k := x]\<rparr>))) s'"
    using byte_to_sector_hole [OF bD(1,3,4) k free] .
  note a = allocated_fields [OF s'(2)] and aD = allocatedD [OF s'(2)] and st = stored_fields [OF s'(4)]
  note b1 = beside_map_allocated [OF b s'(2,3)]
  have ne: "x \<noteq> isector nd" using bD(8) aD(2) by auto
  have d: "length (bytes_of_inode (?d\<lparr>dblock := (dblock ?d)[k := x]\<rparr>)) = 512"
    "inode_of_bytes (bytes_of_inode (?d\<lparr>dblock := (dblock ?d)[k := x]\<rparr>)) = ?d\<lparr>dblock := (dblock ?d)[k := x]\<rparr>"
    using inode_of_bytes_fields [OF bD(13) [OF bD(4)]] by (simp_all add: disk_inode_def inode_of_bytes_of_inode)
  have lx: "length (sectors s1 x) = 512" "length (sectors s1 (isector nd)) = 512" using a(11) bD(4,13) aD(1) by simp_all
  have "sectors s' y = sectors s1 y" if "y \<in> owned s1 mnd" for y
    using that st(9) b1(2) bD(7) bD(10) [of y] aD(2) by auto
  moreover have "length (sectors s' y) = length (sectors s1 y)" for y using st(9) d(1) lx by simp
  moreover have "inodes s' = (inodes s1)(i := Some nd)" using st(1) a(1) bD(3) by (simp add: fun_upd_idem)
  ultimately have b': "beside_map s' f mnd i nd" "owned s' mnd = owned s1 mnd" "map_sectors s' mnd = map_sectors s1 mnd"
    using beside_map_frame [OF b1(1) st(8,10,7) _ st(5,4)] by auto
  show ?thesis
  proof (rule that [OF s'(1) aD(1,2) _ b'(1)])
    show "sectors s' x = zeros" using st(9) ne by simp
    show "disk_inode s' nd = ?d\<lparr>dblock := (dblock ?d)[k := x]\<rparr>" using st(9) d(2) by (simp add: disk_inode_def [of s'])
    show "sectors s' y = sectors s y" if "y \<noteq> x" "y \<noteq> isector nd" "y \<notin> map_sectors s mnd" for y
      using that st(9) a(10) by simp
    show "used s' y \<longleftrightarrow> used s y \<or> y = x" for y using a(9) st(4) by (simp add: used_def)
  qed (use b'(2,3) b1(2,3) st a in simp_all)
qed

end
