(* ===== verification/Inode_Grow.thy ===== *)
theory Inode_Grow
  imports Inode_Holes
begin

text \<open>
  Growth: writing at the end of a file adds sectors to it. The file stays within the 123
  sectors that its inode maps directly.
\<close>

section \<open>Files with direct sectors only\<close>

text \<open>\<open>K\<close> sectors are mapped; the inode agrees with the device.\<close>

definition growing :: "fs \<Rightarrow> file_t \<Rightarrow> inode \<Rightarrow> nat \<Rightarrow> inode \<Rightarrow> nat \<Rightarrow> bool" where
  "growing s f mnd i nd K \<longleftrightarrow>
     beside_map s f mnd i nd \<and> idata nd = disk_inode s nd \<and> K \<le> 123
     \<and> (\<forall>k < K. dblock (idata nd) ! k \<noteq> 0 \<and> dblock (idata nd) ! k < device_size s \<and> used s (dblock (idata nd) ! k)
          \<and> dblock (idata nd) ! k \<notin> owned s mnd \<and> dblock (idata nd) ! k \<noteq> isector nd)
     \<and> (\<forall>k. K \<le> k \<and> k < 125 \<longrightarrow> dblock (idata nd) ! k = - 1)
     \<and> (\<forall>k < K. \<forall>l < K. dblock (idata nd) ! k = dblock (idata nd) ! l \<longrightarrow> k = l)"

lemma growingD:
  assumes "growing s f mnd i nd K"
  shows "beside_map s f mnd i nd" "idata nd = disk_inode s nd" "K \<le> 123" "length (dblock (idata nd)) = 125"
    "k < K \<Longrightarrow> dblock (idata nd) ! k \<noteq> 0" "k < K \<Longrightarrow> dblock (idata nd) ! k < device_size s"
    "k < K \<Longrightarrow> used s (dblock (idata nd) ! k)" "k < K \<Longrightarrow> dblock (idata nd) ! k \<notin> owned s mnd"
    "k < K \<Longrightarrow> dblock (idata nd) ! k \<noteq> isector nd" "K \<le> k \<Longrightarrow> k < 125 \<Longrightarrow> dblock (idata nd) ! k = - 1"
    "k < K \<Longrightarrow> l < K \<Longrightarrow> dblock (idata nd) ! k = dblock (idata nd) ! l \<Longrightarrow> k = l"
proof -
  show b: "beside_map s f mnd i nd" and d: "idata nd = disk_inode s nd" and "K \<le> 123"
    "k < K \<Longrightarrow> dblock (idata nd) ! k \<noteq> 0" "k < K \<Longrightarrow> dblock (idata nd) ! k < device_size s"
    "k < K \<Longrightarrow> used s (dblock (idata nd) ! k)" "k < K \<Longrightarrow> dblock (idata nd) ! k \<notin> owned s mnd"
    "k < K \<Longrightarrow> dblock (idata nd) ! k \<noteq> isector nd" "K \<le> k \<Longrightarrow> k < 125 \<Longrightarrow> dblock (idata nd) ! k = - 1"
    "k < K \<Longrightarrow> l < K \<Longrightarrow> dblock (idata nd) ! k = dblock (idata nd) ! l \<Longrightarrow> k = l"
    using assms unfolding growing_def by blast+
  show "length (dblock (idata nd)) = 125"
    using inode_of_bytes_fields(1) [OF beside_mapD(13) [OF b beside_mapD(4) [OF b]]] d by (simp add: disk_inode_def)
qed

lemma growing_lookup:
  assumes "growing s f mnd i nd K"
  shows "lookup_sector (sectors s) (device_size s) (idata nd) k =
    (if k < 123 then Some (dblock (idata nd) ! k) else if k < 16635 then Some (- 1) else None)"
  using growingD(3,10) [OF assms] by (auto simp: lookup_sector_def)

text \<open>Such a file is an array of bytes in the sense of the general case.\<close>

lemma growing_file:
  assumes g: "growing s f mnd i nd K" and len: "0 \<le> dlength (idata nd)" "bytes_to_sectors (dlength (idata nd)) = K"
  shows "open_file s i nd" "layout_ok (sectors s) (device_size s) (isector nd) (idata nd)"
    "owned s nd = insert (isector nd) ((\<lambda>k. dblock (idata nd) ! k) ` {..<K})" "owned s nd \<inter> owned s mnd = {}"
proof -
  note gD = growingD [OF g] and bD = beside_mapD [OF growingD(1) [OF g]]
  have lk: "lookup_sector (sectors s) (device_size s) (idata nd) k = Some (dblock (idata nd) ! k)" if "k < K" for k
    using growing_lookup [OF g] that gD(3) by simp
  have "mapped (sectors s) (device_size s) (idata nd) k" if "k < K" for k
    using lk [OF that] gD(5,6) that by (simp add: mapped_def)
  moreover have "lookup_sector (sectors s) (device_size s) (idata nd) k = Some (- 1)" if "K \<le> k" "k < 16635" for k
    using growing_lookup [OF g, of k] that gD(10) [of k] by auto
  moreover have "(dlength (idata nd) + 511) div 512 \<le> 123" using len gD(3) by (simp add: bytes_to_sectors_def)
  then have "dlength (idata nd) < 16635 * 512" by linarith
  ultimately have "file_ok (sectors s) (device_size s) (idata nd)" using len gD(4) by (simp add: file_ok_def)
  then show "open_file s i nd" using bD(3,4,11,12,13) gD(2) by (simp add: open_file_def)
  have ds: "data_sector (sectors s) (device_size s) (idata nd) k = dblock (idata nd) ! k" if "k < K" for k
    using lk [OF that] by (simp add: data_sector_def)
  have dss: "data_sectors (sectors s) (device_size s) (idata nd) = (\<lambda>k. dblock (idata nd) ! k) ` {..<K}"
    unfolding data_sectors_def len(2) using ds by (intro image_cong) simp_all
  have ix: "index_sectors (sectors s) (idata nd) = {}" using gD(3) gD(10) [of 123] gD(10) [of 124] by (simp add: index_sectors_def)
  show "layout_ok (sectors s) (device_size s) (isector nd) (idata nd)"
    unfolding layout_ok_def dss ix len(2)
  proof
    show "inj_on (data_sector (sectors s) (device_size s) (idata nd)) {..<K}" using gD(11) ds by (auto simp: inj_on_def)
    show "(\<lambda>k. dblock (idata nd) ! k) ` {..<K} \<inter> insert (isector nd) {} = {}" using gD(9) by blast
  qed
  show o: "owned s nd = insert (isector nd) ((\<lambda>k. dblock (idata nd) ! k) ` {..<K})" by (simp add: owned_def dss ix)
  show "owned s nd \<inter> owned s mnd = {}" unfolding o using gD(8) bD(7) by auto
qed

section \<open>A new sector\<close>

lemma inode_expand_direct:
  assumes b: "beside_map s f mnd i nd" and d: "idata nd = disk_inode s nd" "dblock (idata nd) ! k = - 1" and k: "k < 123"
  defines "nd' \<equiv> nd\<lparr>idata := (idata nd)\<lparr>dblock := (dblock (idata nd))[k := 0]\<rparr>\<rparr>"
  obtains s' where "inode_expand_sector wm i k s = Some (True, s')" "beside_map s' f mnd i nd'" "disk_inode s' nd' = idata nd'"
    "owned s' mnd = owned s mnd" "map_sectors s' mnd = map_sectors s mnd" "free_map s' = free_map s"
    "inodes s' = (inodes s)(i := Some nd')" "device_size s' = device_size s"
    "\<And>y. y \<noteq> isector nd \<Longrightarrow> sectors s' y = sectors s y"
    "open_inodes s' = open_inodes s" "next_inode s' = next_inode s" "free_map_file s' = free_map_file s" "cur_dir s' = cur_dir s"
proof -
  note bD = beside_mapD [OF b]
  let ?b = "set_block i k 0 s"
  have nd': "isector nd' = isector nd" "deny_write_cnt nd' = deny_write_cnt nd" "lock_inode nd' = lock_inode nd" by (simp_all add: nd'_def)
  have in1: "inodes ?b = (inodes s)(i := Some nd')" using bD(3) by (cases nd) (simp add: set_block_def nd'_def)
  have "cache_ok ?b" "isector nd' < device_size ?b" using bD(4,11) by (simp_all add: set_block_def nd'_def)
  from write_step [OF this] obtain s' where s': "cache_block_write (isector nd') (bytes_of_inode (idata nd')) ?b = Some s'"
    "stored ?b ((sectors ?b)(isector nd' := bytes_of_inode (idata nd'))) s'" .
  note st = stored_fields [OF s'(2)]
  have enc: "length (bytes_of_inode (idata nd')) = 512" "inode_of_bytes (bytes_of_inode (idata nd')) = idata nd'"
    using inode_of_bytes_fields [OF bD(13) [OF bD(4)]] d(1) by (simp_all add: nd'_def disk_inode_def inode_of_bytes_of_inode)
  have m: "sectors s' = (sectors s)(isector nd := bytes_of_inode (idata nd'))" using st(9) nd'(1) by (simp add: set_block_def)
  have fr: "device_size s' = device_size s" "allocs s' = allocs s" "inodes s' = (inodes s)(i := Some nd')"
    "free_map_file s' = free_map_file s" "free_map s' = free_map s"
    using st in1 by (simp_all add: set_block_def)
  have same: "sectors s' y = sectors s y" if "y \<in> owned s mnd" for y using that m bD(7) by auto
  have len: "length (sectors s' y) = length (sectors s y)" for y using m enc(1) bD(13) [OF bD(4)] by simp
  have "inode_expand_sector wm i k s = Some (True, s')"
    using k bD(3) d(2) s'(1) in1 by (simp add: inode_expand_sector_def write_inode_def)
  from that [OF this beside_map_frame(1) [OF b st(8) fr(1-5) nd' same len] _ beside_map_frame(2,3) [OF b st(8) fr(1-5) nd' same len] fr(5,3,1)]
  show ?thesis using m enc(2) st(2,3,5,6) nd'(1) by (simp add: disk_inode_def set_block_def)
qed

lemma sector_to_write_new:
  assumes g: "growing s f mnd i nd K" and K: "K < 123" "nat (offset div 512) = K" and free: "\<exists>x < device_size s. \<not> used s x"
  obtains x s' where "sector_to_write (free_map_write (Suc depth)) i offset s = Some (Some x, s')"
    "\<not> used s x" "x < device_size s" "\<And>y. used s' y \<longleftrightarrow> used s y \<or> y = x"
    "growing s' f mnd i (nd\<lparr>idata := (idata nd)\<lparr>dblock := (dblock (idata nd))[K := x]\<rparr>\<rparr>) (Suc K)"
    "owned s' mnd = owned s mnd" "map_sectors s' mnd = map_sectors s mnd" "device_size s' = device_size s"
    "\<And>j. j \<noteq> i \<Longrightarrow> inodes s' j = inodes s j"
    "\<And>y. y \<noteq> x \<Longrightarrow> y \<noteq> isector nd \<Longrightarrow> y \<notin> map_sectors s mnd \<Longrightarrow> sectors s' y = sectors s y"
    "open_inodes s' = open_inodes s" "next_inode s' = next_inode s" "free_map_file s' = free_map_file s" "cur_dir s' = cur_dir s"
proof -
  let ?wm = "free_map_write (Suc depth)" and ?d = "idata nd"
  note gD = growingD [OF g] and bD = beside_mapD [OF growingD(1) [OF g]]
  have slot: "dblock ?d ! K = - 1" using gD(10) K by simp
  have "lookup_sector (sectors s) (device_size s) (disk_inode s nd) (nat (offset div 512)) = Some (- 1)"
    using growing_lookup [OF g, of K] K slot gD(2) by simp
  from byte_to_sector_lookup [OF bD(11,12,3,4) this, of ?wm] obtain s0 where
    s0: "byte_to_sector ?wm i offset s = Some (- 1, s0)" "stored s (sectors s) s0" by auto
  note st0 = stored_fields [OF s0(2)]
  have b0: "beside_map s0 f mnd i nd" "owned s0 mnd = owned s mnd" "map_sectors s0 mnd = map_sectors s mnd"
    using beside_map_frame [OF gD(1) st0(8,10,7) _ st0(5,4), of nd] st0(1,9) bD(3) by (auto simp: fun_upd_idem)
  have d0: "?d = disk_inode s0 nd" using gD(2) st0(9) by (simp add: disk_inode_def)
  define nd1 where "nd1 = nd\<lparr>idata := ?d\<lparr>dblock := (dblock ?d)[K := 0]\<rparr>\<rparr>"
  obtain s1 where s1: "inode_expand_sector ?wm i K s0 = Some (True, s1)" "beside_map s1 f mnd i nd1" "disk_inode s1 nd1 = idata nd1"
    "owned s1 mnd = owned s0 mnd" "map_sectors s1 mnd = map_sectors s0 mnd" "free_map s1 = free_map s0"
    "inodes s1 = (inodes s0)(i := Some nd1)" "device_size s1 = device_size s0"
    "\<And>y. y \<noteq> isector nd \<Longrightarrow> sectors s1 y = sectors s0 y"
    "open_inodes s1 = open_inodes s0" "next_inode s1 = next_inode s0" "free_map_file s1 = free_map_file s0" "cur_dir s1 = cur_dir s0"
    using inode_expand_direct [OF b0(1) d0 slot K(1), of ?wm] unfolding nd1_def by blast
  have hole: "dblock (disk_inode s1 nd1) ! K = 0" using s1(3) gD(4) K(1) by (simp add: nd1_def)
  have u1: "used s1 y = used s y" for y using s1(6) st0(4) by (simp add: used_def)
  have "\<exists>x < device_size s1. \<not> used s1 x" using free u1 s1(8) st0(10) by simp
  then obtain x s2 where s2: "byte_to_sector ?wm i offset s1 = Some (x, s2)"
    "x < device_size s1" "\<not> used s1 x" "\<And>y. used s2 y \<longleftrightarrow> used s1 y \<or> y = x"
    "beside_map s2 f mnd i nd1" "owned s2 mnd = owned s1 mnd" "map_sectors s2 mnd = map_sectors s1 mnd"
    "inodes s2 = inodes s1" "device_size s2 = device_size s1" "sectors s2 x = zeros"
    "disk_inode s2 nd1 = (disk_inode s1 nd1)\<lparr>dblock := (dblock (disk_inode s1 nd1))[K := x]\<rparr>"
    "\<And>y. y \<noteq> x \<Longrightarrow> y \<noteq> isector nd1 \<Longrightarrow> y \<notin> map_sectors s1 mnd \<Longrightarrow> sectors s2 y = sectors s1 y"
    "open_inodes s2 = open_inodes s1" "next_inode s2 = next_inode s1" "free_map_file s2 = free_map_file s1" "cur_dir s2 = cur_dir s1"
    using fill_hole [OF s1(2) K(2) [symmetric] K(1) hole] by metis
  note b2 = beside_mapD [OF s2(5)]
  from read_step [OF b2(11,4)] obtain s3 where s3: "cache_block_read (isector nd1) s2 = Some (sectors s2 (isector nd1), s3)"
    "stored s2 (sectors s2) s3" .
  note st3 = stored_fields [OF s3(2)]
  let ?nd = "nd\<lparr>idata := ?d\<lparr>dblock := (dblock ?d)[K := x]\<rparr>\<rparr>"
  define s4 where "s4 = upd_inode i (idata_update (\<lambda>_. disk_inode s2 nd1)) s3"
  have d2: "disk_inode s2 nd1 = idata ?nd" using s2(11) s1(3) by (simp add: nd1_def)
  have "sector_to_write ?wm i offset s = Some (Some x, s4)"
    using s0(1) s1(1) s2(1) s3(1) b2(3) K(2) by (simp add: sector_to_write_def s4_def disk_inode_def)
  moreover have in4: "inodes s4 = (inodes s2)(i := Some ?nd)" using b2(3) st3(1) d2 by (simp add: s4_def nd1_def)
  have fr4: "cache_ok s4" "device_size s4 = device_size s2" "allocs s4 = allocs s2" "free_map_file s4 = free_map_file s2"
    "free_map s4 = free_map s2" "sectors s4 = sectors s2"
    using st3 by (simp_all add: s4_def)
  have b4: "beside_map s4 f mnd i ?nd" "owned s4 mnd = owned s2 mnd" "map_sectors s4 mnd = map_sectors s2 mnd"
    using beside_map_frame [OF s2(5) fr4(1,2,3) in4 fr4(4,5)] fr4(6) by (simp_all add: nd1_def)
  have u4: "used s4 y \<longleftrightarrow> used s y \<or> y = x" for y using s2(4) u1 fr4(5) by (simp add: used_def)
  have own: "owned s4 mnd = owned s mnd" "map_sectors s4 mnd = map_sectors s mnd" "device_size s4 = device_size s"
    using b4(2,3) s2(6,7,9) s1(4,5,8) b0(2,3) fr4(2) st0(10) by simp_all
  have xn: "\<not> used s x" "x < device_size s" using s2(2,3) u1 s1(8) st0(10) by simp_all
  have "growing s4 f mnd i ?nd (Suc K)"
    unfolding growing_def
  proof (intro conjI allI impI)
    show "beside_map s4 f mnd i ?nd" by (rule b4(1))
    show "idata ?nd = disk_inode s4 ?nd" using d2 fr4(6) by (simp add: disk_inode_def nd1_def)
    show "Suc K \<le> 123" using K(1) by simp
    fix k assume k: "k < Suc K"
    show "dblock (idata ?nd) ! k \<noteq> 0" "dblock (idata ?nd) ! k < device_size s4" "used s4 (dblock (idata ?nd) ! k)"
      "dblock (idata ?nd) ! k \<notin> owned s4 mnd" "dblock (idata ?nd) ! k \<noteq> isector ?nd"
      using k gD(4-9) K(1) xn bD(8,9,10) own u4 by (cases "k = K"; auto simp: nth_list_update)+
    fix l assume l: "l < Suc K"
    assume eq: "dblock (idata ?nd) ! k = dblock (idata ?nd) ! l"
    have "x \<noteq> dblock ?d ! j" if "j < K" for j using gD(7) [OF that] xn(1) by auto
    then show "k = l" using eq k l gD(4) gD(11) [of k l] K(1)
      by (cases "k = K"; cases "l = K") (auto simp: nth_list_update less_Suc_eq)
  next
    fix k assume "Suc K \<le> k \<and> k < 125"
    then show "dblock (idata ?nd) ! k = - 1" using gD(10) [of k] by simp
  qed
  moreover have "inodes s4 j = inodes s j" if "j \<noteq> i" for j using that in4 s2(8) s1(7) st0(1) by simp
  moreover have "sectors s4 y = sectors s y" if "y \<noteq> x" "y \<noteq> isector nd" "y \<notin> map_sectors s mnd" for y
    using that fr4(6) s2(12) [of y] s1(5,9) b0(3) st0(9) by (simp add: nd1_def)
  moreover have "open_inodes s4 = open_inodes s" "next_inode s4 = next_inode s" "free_map_file s4 = free_map_file s" "cur_dir s4 = cur_dir s"
    using st3 s2(13-16) s1(10-13) st0 by (simp_all add: s4_def)
  ultimately show ?thesis using that [OF _ xn u4 _ own] by blast
qed

section \<open>The loop\<close>

definition gbyte :: "fs \<Rightarrow> inode \<Rightarrow> nat \<Rightarrow> u8" where
  "gbyte s nd p = sectors s (dblock (idata nd) ! (p div 512)) ! (p mod 512)"

definition free_cnt :: "fs \<Rightarrow> nat" where
  "free_cnt s = card {x. x < device_size s \<and> \<not> used s x}"

lemma free_cnt_pos: "0 < free_cnt s \<longleftrightarrow> (\<exists>x < device_size s. \<not> used s x)"
  unfolding free_cnt_def by (subst card_gt_0_iff) auto

lemma free_cnt_taken:
  assumes "\<not> used s x" "x < device_size s" "\<And>y. used s' y \<longleftrightarrow> used s y \<or> y = x" "device_size s' = device_size s"
  shows "free_cnt s = Suc (free_cnt s')"
proof -
  have "{y. y < device_size s \<and> \<not> used s y} = insert x {y. y < device_size s' \<and> \<not> used s' y}"
    using assms by auto
  moreover have "x \<notin> {y. y < device_size s' \<and> \<not> used s' y}" using assms(3) by simp
  ultimately show ?thesis by (simp add: free_cnt_def)
qed

text \<open>
  What growing a file with \<open>K\<close> sectors leaves alone: the other inodes, and every used sector
  that is neither the file's nor holds the free map.
\<close>

definition only_grew :: "fs \<Rightarrow> inode \<Rightarrow> nat \<Rightarrow> inode \<Rightarrow> nat \<Rightarrow> fs \<Rightarrow> inode \<Rightarrow> bool" where
  "only_grew s mnd i nd K s' nd' \<longleftrightarrow>
     (\<exists>b. nd' = nd\<lparr>idata := (idata nd)\<lparr>dblock := b\<rparr>\<rparr> \<and> (\<forall>k < K. b ! k = dblock (idata nd) ! k))
     \<and> (\<forall>y. used s y \<longrightarrow> used s' y) \<and> (\<forall>j. j \<noteq> i \<longrightarrow> inodes s' j = inodes s j)
     \<and> (\<forall>y. used s y \<and> y \<notin> map_sectors s mnd \<and> y \<noteq> isector nd \<and> (\<forall>k < K. y \<noteq> dblock (idata nd) ! k) \<longrightarrow>
          sectors s' y = sectors s y)
     \<and> owned s' mnd = owned s mnd \<and> map_sectors s' mnd = map_sectors s mnd \<and> device_size s' = device_size s
     \<and> open_inodes s' = open_inodes s \<and> next_inode s' = next_inode s \<and> free_map_file s' = free_map_file s \<and> cur_dir s' = cur_dir s"

lemma only_grewD:
  assumes "only_grew s mnd i nd K s' nd'"
  shows "used s y \<Longrightarrow> used s' y" "j \<noteq> i \<Longrightarrow> inodes s' j = inodes s j"
    "used s y \<Longrightarrow> y \<notin> map_sectors s mnd \<Longrightarrow> y \<noteq> isector nd \<Longrightarrow> (\<And>k. k < K \<Longrightarrow> y \<noteq> dblock (idata nd) ! k) \<Longrightarrow>
       sectors s' y = sectors s y"
    "owned s' mnd = owned s mnd" "map_sectors s' mnd = map_sectors s mnd" "device_size s' = device_size s"
    "open_inodes s' = open_inodes s" "next_inode s' = next_inode s" "free_map_file s' = free_map_file s" "cur_dir s' = cur_dir s"
  using assms unfolding only_grew_def by blast+

lemma only_grew_refl: "only_grew s mnd i nd K s nd"
  unfolding only_grew_def by (intro conjI exI [of _ "dblock (idata nd)"]) simp_all

lemma only_grew_trans:
  assumes "only_grew s mnd i nd K s1 nd1" "only_grew s1 mnd i nd1 K1 s2 nd2" "K \<le> K1"
    and new: "\<And>k. K \<le> k \<Longrightarrow> k < K1 \<Longrightarrow> \<not> used s (dblock (idata nd1) ! k)"
  shows "only_grew s mnd i nd K s2 nd2"
proof -
  obtain b1 where b1: "nd1 = nd\<lparr>idata := (idata nd)\<lparr>dblock := b1\<rparr>\<rparr>" "\<And>k. k < K \<Longrightarrow> b1 ! k = dblock (idata nd) ! k"
    using assms(1) unfolding only_grew_def by blast
  obtain b2 where b2: "nd2 = nd1\<lparr>idata := (idata nd1)\<lparr>dblock := b2\<rparr>\<rparr>" "\<And>k. k < K1 \<Longrightarrow> b2 ! k = dblock (idata nd1) ! k"
    using assms(2) unfolding only_grew_def by blast
  have "nd2 = nd\<lparr>idata := (idata nd)\<lparr>dblock := b2\<rparr>\<rparr>" using b1(1) b2(1) by simp
  moreover have "b2 ! k = dblock (idata nd) ! k" if "k < K" for k using b1 b2(2) that assms(3) by simp
  moreover have "sectors s2 y = sectors s y"
    if y: "used s y" "y \<notin> map_sectors s mnd" "y \<noteq> isector nd" "\<forall>k < K. y \<noteq> dblock (idata nd) ! k" for y
  proof -
    have "y \<noteq> dblock (idata nd1) ! k" if "k < K1" for k
      using that y(1,4) new [of k] b1 by (cases "k < K") auto
    moreover have "isector nd1 = isector nd" using b1(1) by simp
    ultimately have "sectors s2 y = sectors s1 y" using assms(1,2) y unfolding only_grew_def by metis
    also have "sectors s1 y = sectors s y" using assms(1) y unfolding only_grew_def by blast
    finally show ?thesis .
  qed
  ultimately show ?thesis using assms(1,2) unfolding only_grew_def by auto
qed

lemma growing_data_write:
  assumes g: "growing s f mnd i nd K" and k: "k < K" and st: "stored s ((sectors s)(dblock (idata nd) ! k := d)) s'" and d: "length d = 512"
  shows "growing s' f mnd i nd K" "only_grew s mnd i nd K s' nd" "free_cnt s' = free_cnt s"
proof -
  note gD = growingD [OF g] and bD = beside_mapD [OF growingD(1) [OF g]] and stD = stored_fields [OF st]
  let ?x = "dblock (idata nd) ! k"
  have l: "length (sectors s ?x) = 512" using bD(13) gD(6) [OF k] by blast
  have in': "inodes s' = (inodes s)(i := Some nd)" using stD(1) bD(3) by (simp add: fun_upd_idem)
  have same: "sectors s' y = sectors s y" if "y \<in> owned s mnd" for y using that stD(9) gD(8) [OF k] by auto
  have len: "length (sectors s' y) = length (sectors s y)" for y using stD(9) d l by simp
  have fr: "beside_map s' f mnd i nd" "owned s' mnd = owned s mnd" "map_sectors s' mnd = map_sectors s mnd"
    using beside_map_frame [OF gD(1) stD(8,10,7) in' stD(5,4) refl refl refl] same len by blast+
  have u: "used s' y = used s y" for y using stD(4) by (simp add: used_def)
  have di: "disk_inode s' nd = disk_inode s nd" using stD(9) gD(9) [OF k] by (simp add: disk_inode_def)
  show "growing s' f mnd i nd K"
    using g fr(1) unfolding growing_def fr(2) stD(10) u di by blast
  show "only_grew s mnd i nd K s' nd"
    unfolding only_grew_def using fr(2,3) stD u k
    by (intro conjI exI [of _ "dblock (idata nd)"]) auto
  show "free_cnt s' = free_cnt s" using u stD(10) by (simp add: free_cnt_def)
qed

lemma gbyte_patched:
  assumes g: "growing s f mnd i nd K" and k: "p div 512 < K" and st: "sectors s' = (sectors s)(dblock (idata nd) ! (p div 512) := patch d (p mod 512) as)"
    and d: "length d = 512" "p mod 512 + length as \<le> 512" "as \<noteq> []" "p \<le> 512 * K"
  shows "j < length as \<Longrightarrow> gbyte s' nd (p + j) = as ! j"
    "q < p \<Longrightarrow> d = sectors s (dblock (idata nd) ! (p div 512)) \<Longrightarrow> gbyte s' nd q = gbyte s nd q"
proof -
  show "gbyte s' nd (p + j) = as ! j" if "j < length as"
    using that d div_mod_within [of p j] by (simp add: gbyte_def st nth_patch)
  assume q: "q < p" and dd: "d = sectors s (dblock (idata nd) ! (p div 512))"
  show "gbyte s' nd q = gbyte s nd q"
  proof (cases "q div 512 = p div 512")
    case True
    then have "q mod 512 < p mod 512" using q by (metis div_mult_mod_eq add_less_cancel_left)
    then show ?thesis using True d dd by (simp add: gbyte_def st nth_patch)
  next
    case False
    have "q div 512 < K" using q d(4) by (simp add: div_le_mono less_mult_imp_div_less) 
    then have "dblock (idata nd) ! (q div 512) \<noteq> dblock (idata nd) ! (p div 512)"
      using False k growingD(11) [OF g, of "q div 512" "p div 512"] by blast
    then show ?thesis by (simp add: gbyte_def st)
  qed
qed

lemma chunk_within:
  assumes "c \<le> 512 - offset mod (512 :: int)"
  shows "offset + c \<le> 512 * (offset div 512 + 1)"
proof -
  have "512 * (offset div 512 + 1) = offset - offset mod 512 + 512"
    by (simp only: distrib_left minus_mod_eq_mult_div mult_1_right)
  then show ?thesis using assms by simp
qed

text \<open>One round of the loop, in a sector of the file or in a new one.\<close>

lemma sector_to_write_growing:
  assumes g: "growing s f mnd i nd K" and off: "0 \<le> offset" "offset \<le> 512 * int K" "offset < 123 * 512"
    and free: "512 * int K = offset \<Longrightarrow> 0 < free_cnt s"
  defines "k \<equiv> nat (offset div 512)"
  obtains x s' nd' where "sector_to_write (free_map_write (Suc depth)) i offset s = Some (Some x, s')"
    "growing s' f mnd i nd' (max K (Suc k))" "only_grew s mnd i nd K s' nd'" "dblock (idata nd') ! k = x"
    "free_cnt s' = free_cnt s - (max K (Suc k) - K)" "max K (Suc k) - K \<le> free_cnt s"
    "\<And>q. q < nat offset \<Longrightarrow> gbyte s' nd' q = gbyte s nd q"
    "\<And>j. K \<le> j \<Longrightarrow> j < max K (Suc k) \<Longrightarrow> \<not> used s (dblock (idata nd') ! j)"
proof (cases "k < K")
  case True
  note gD = growingD [OF g] and bD = beside_mapD [OF growingD(1) [OF g]]
  have "lookup_sector (sectors s) (device_size s) (disk_inode s nd) (nat (offset div 512)) = Some (dblock (idata nd) ! k)"
    using growing_lookup [OF g, of k] True gD(2,3) by (simp add: k_def)
  from byte_to_sector_lookup [OF bD(11,12,3,4) this gD(5) [OF True]] obtain s0 where
    s0: "byte_to_sector (free_map_write (Suc depth)) i offset s = Some (dblock (idata nd) ! k, s0)" "stored s (sectors s) s0" by auto
  have "dblock (idata nd) ! k \<noteq> - 1" using sector_not_error [OF gD(6) [OF True]] .
  then have "sector_to_write (free_map_write (Suc depth)) i offset s = Some (Some (dblock (idata nd) ! k), s0)"
    using s0(1) by (simp add: sector_to_write_def)
  moreover have st: "stored s ((sectors s)(dblock (idata nd) ! k := sectors s (dblock (idata nd) ! k))) s0" using s0(2) by simp
  note w = growing_data_write [OF g True st bD(13) [OF gD(6) [OF True]]]
  moreover have "max K (Suc k) = K" using True by simp
  moreover have "gbyte s0 nd q = gbyte s nd q" for q using stored_fields(9) [OF s0(2)] by (simp add: gbyte_def)
  ultimately show ?thesis using that by simp
next
  case False
  have "offset div 512 = int K"
  proof -
    have "int K \<le> offset div 512" using False off(1) by (simp add: k_def nat_less_iff)
    then show ?thesis using off(2) by linarith
  qed
  then have K: "k = K" "512 * int K = offset" "K < 123" using off by (auto simp: k_def)
  have "\<exists>x < device_size s. \<not> used s x" using free [OF K(2)] by (simp add: free_cnt_pos)
  from sector_to_write_new [OF g K(3) K(1) [unfolded k_def] this, of depth] obtain x s' where s':
    "sector_to_write (free_map_write (Suc depth)) i offset s = Some (Some x, s')"
    "\<not> used s x" "x < device_size s" "\<And>y. used s' y \<longleftrightarrow> used s y \<or> y = x"
    "growing s' f mnd i (nd\<lparr>idata := (idata nd)\<lparr>dblock := (dblock (idata nd))[K := x]\<rparr>\<rparr>) (Suc K)"
    "owned s' mnd = owned s mnd" "map_sectors s' mnd = map_sectors s mnd" "device_size s' = device_size s"
    "\<And>j. j \<noteq> i \<Longrightarrow> inodes s' j = inodes s j"
    "\<And>y. y \<noteq> x \<Longrightarrow> y \<noteq> isector nd \<Longrightarrow> y \<notin> map_sectors s mnd \<Longrightarrow> sectors s' y = sectors s y"
    "open_inodes s' = open_inodes s" "next_inode s' = next_inode s" "free_map_file s' = free_map_file s" "cur_dir s' = cur_dir s"
    by metis
  let ?nd = "nd\<lparr>idata := (idata nd)\<lparr>dblock := (dblock (idata nd))[K := x]\<rparr>\<rparr>"
  note gD = growingD [OF g]
  have m: "max K (Suc k) = Suc K" using K(1) by simp
  have "only_grew s mnd i nd K s' ?nd"
    unfolding only_grew_def
  proof (intro conjI allI impI exI [of _ "(dblock (idata nd))[K := x]"])
    fix y assume "used s y \<and> y \<notin> map_sectors s mnd \<and> y \<noteq> isector nd \<and> (\<forall>k < K. y \<noteq> dblock (idata nd) ! k)"
    then show "sectors s' y = sectors s y" using s'(2,10) by metis
  qed (use s'(4,6-9,11-14) in simp_all)
  moreover have fc: "free_cnt s = Suc (free_cnt s')" using free_cnt_taken [OF s'(2,3,4,8)] .
  moreover have "gbyte s' ?nd q = gbyte s nd q" if "q < nat offset" for q
  proof -
    have q: "q div 512 < K" using that K(2) by (auto simp: less_mult_imp_div_less)
    let ?y = "dblock (idata nd) ! (q div 512)"
    have "?y \<noteq> x" "?y \<noteq> isector nd" "?y \<notin> map_sectors s mnd"
      using gD(7,8,9) [OF q] s'(2) by (auto simp: owned_def)
    then show ?thesis using s'(10) q gD(4) by (simp add: gbyte_def)
  qed
  moreover have "dblock (idata ?nd) ! k = x" using gD(4) K(1,3) by simp
  moreover have "\<not> used s (dblock (idata ?nd) ! j)" if "K \<le> j" "j < max K (Suc k)" for j
    using that m gD(4) K(3) s'(2) by (simp add: le_less_Suc_eq)
  ultimately show ?thesis using that [OF s'(1)] s'(5) m by simp
qed

lemma grow_step:
  assumes g: "growing s f mnd i nd K" and off: "0 \<le> offset" "offset \<le> 512 * int K" "0 < sz" "offset + sz \<le> dlength (idata nd)"
      "offset + sz \<le> 123 * 512"
    and free: "512 * int K = offset \<Longrightarrow> 0 < free_cnt s" and w: "0 \<le> w" "nat w + nat sz \<le> length bs"
  defines "c \<equiv> chunk_size (dlength (idata nd)) offset sz"
  defines "K' \<equiv> max K (Suc (nat (offset div 512)))"
  obtains s' b' nd' where
    "inode_write_loop (free_map_write (Suc depth)) i (\<lambda>_. bs) sz offset b w s =
       inode_write_loop (free_map_write (Suc depth)) i (\<lambda>_. bs) (sz - c) (offset + c) b' (w + c) s'"
    "growing s' f mnd i nd' K'" "only_grew s mnd i nd K s' nd'"
    "free_cnt s' = free_cnt s - (K' - K)" "K' - K \<le> free_cnt s"
    "\<And>q. q < nat offset \<Longrightarrow> gbyte s' nd' q = gbyte s nd q" "\<And>j. j < nat c \<Longrightarrow> gbyte s' nd' (nat offset + j) = bs ! (nat w + j)"
    "\<And>j. K \<le> j \<Longrightarrow> j < K' \<Longrightarrow> \<not> used s (dblock (idata nd') ! j)"
proof -
  let ?wm = "free_map_write (Suc depth)" and ?len = "dlength (idata nd)" and ?k = "nat (offset div 512)"
  have lt: "offset < 123 * 512" "offset < ?len" using off by simp_all
  note c = chunk_size_bounds [OF off(1) lt(2) off(3), folded c_def]
  obtain x s1 nd' where s1: "sector_to_write ?wm i offset s = Some (Some x, s1)"
    "growing s1 f mnd i nd' K'" "only_grew s mnd i nd K s1 nd'" "dblock (idata nd') ! ?k = x"
    "free_cnt s1 = free_cnt s - (K' - K)" "K' - K \<le> free_cnt s"
    "\<And>q. q < nat offset \<Longrightarrow> gbyte s1 nd' q = gbyte s nd q"
    "\<And>j. K \<le> j \<Longrightarrow> j < K' \<Longrightarrow> \<not> used s (dblock (idata nd') ! j)"
    using sector_to_write_growing [OF g off(1,2) lt(1) free, of depth] unfolding K'_def by metis
  note gD1 = growingD [OF s1(2)] and bD1 = beside_mapD [OF growingD(1) [OF s1(2)]]
  have kK: "?k < K'" by (simp add: K'_def)
  have "dlength (idata nd') = ?len" using s1(3) by (auto simp: only_grew_def)
  then have il: "inode_length i s1 = Some ?len" using bD1(3) by (simp add: inode_length_def)
  have x1: "x < device_size s1" "length (sectors s1 x) = 512" using gD1(6) [OF kK] bD1(13) s1(4) by simp_all
  let ?as = "take (nat c) (drop (nat w) bs)"
  have las: "length ?as = nat c" using w c by simp
  from inode_write_chunk [OF s1(1) il bD1(11,12) x1 off(1,3) steady_const, where w = w and b = b, folded c_def, OF c(1,4) las]
  obtain s' b' where s': "inode_write_loop ?wm i (\<lambda>_. bs) sz offset b w s =
      inode_write_loop ?wm i (\<lambda>_. bs) (sz - c) (offset + c) b' (w + c) s'"
    "stored s1 ((sectors s1)(x := patch (sectors s1 x) (nat (offset mod 512)) ?as)) s'" .
  have nm: "nat offset mod 512 = nat (offset mod 512)" "nat offset div 512 = ?k"
    using off(1) by (simp_all add: nat_mod_distrib nat_div_distrib)
  have fit: "nat offset mod 512 + length ?as \<le> 512" using las c off(1) nm(1) pos_mod_sign [of 512 offset] by linarith
  have "length (patch (sectors s1 x) (nat (offset mod 512)) ?as) = 512" using fit nm(1) x1(2) by (simp add: length_patch)
  note gw = growing_data_write [OF s1(2) kK, unfolded s1(4), OF s'(2) this]
  have st: "sectors s' = (sectors s1)(dblock (idata nd') ! (nat offset div 512) := patch (sectors s1 x) (nat offset mod 512) ?as)"
    unfolding nm s1(4) using stored_fields(9) [OF s'(2)] .
  have ne: "?as \<noteq> []" using las c(1) by auto
  have "nat offset \<le> 512 * K" "K \<le> K'" using off(2) by (simp_all add: K'_def nat_le_iff)
  then have le: "nat offset \<le> 512 * K'" by linarith
  note gb = gbyte_patched [OF s1(2) _ st x1(2) fit ne le, unfolded nm(2), OF kK]
  have dd: "sectors s1 x = sectors s1 (dblock (idata nd') ! ?k)" using s1(4) by simp
  have gold: "gbyte s' nd' q = gbyte s nd q" if "q < nat offset" for q using gb(2) [OF that dd] s1(7) [OF that] by simp
  have gnew: "gbyte s' nd' (nat offset + j) = bs ! (nat w + j)" if "j < nat c" for j
    using gb(1) [of j, unfolded las, OF that] that w c(2) by simp
  have fc: "free_cnt s' = free_cnt s - (K' - K)" using gw(3) s1(5) by simp
  have og: "only_grew s mnd i nd K s' nd'"
    using only_grew_trans [OF s1(3) gw(2) _ s1(8)] by (simp add: K'_def)
  show ?thesis by (rule that [OF s'(1) gw(1) og fc s1(6) gold gnew s1(8)])
qed

lemma grow_loop:
  assumes "growing s f mnd i nd K" "0 \<le> offset" "offset \<le> 512 * int K" "0 \<le> sz" "offset + sz \<le> dlength (idata nd)"
    "offset + sz \<le> 123 * 512" "bytes_to_sectors (offset + sz) \<le> K + free_cnt s" "0 \<le> w" "nat w + nat sz \<le> length bs"
  shows "\<exists>s' nd'. inode_write_loop (free_map_write (Suc depth)) i (\<lambda>_. bs) sz offset b w s = Some (w + sz, s')
    \<and> growing s' f mnd i nd' (max K (bytes_to_sectors (offset + sz))) \<and> only_grew s mnd i nd K s' nd'
    \<and> (\<forall>q < nat offset. gbyte s' nd' q = gbyte s nd q) \<and> (\<forall>j < nat sz. gbyte s' nd' (nat offset + j) = bs ! (nat w + j))
    \<and> (\<forall>j. K \<le> j \<and> j < max K (bytes_to_sectors (offset + sz)) \<longrightarrow> \<not> used s (dblock (idata nd') ! j))"
  using assms
proof (induction "nat sz" arbitrary: sz offset b w s nd K rule: less_induct)
  case less
  note prems = less.prems
  show ?case
  proof (cases "sz = 0")
    case True
    have "bytes_to_sectors offset \<le> K" using prems(2,3) unfolding bytes_to_sectors_def by (simp add: nat_le_iff)
    then have "max K (bytes_to_sectors (offset + sz)) = K" using True by simp
    then show ?thesis using prems(1) True only_grew_refl by (subst inode_write_loop.simps) auto
  next
    case False
    then have pos: "0 < sz" using prems(4) by simp
    define c where "c = chunk_size (dlength (idata nd)) offset sz"
    define K1 where "K1 = max K (Suc (nat (offset div 512)))"
    have lt: "offset < dlength (idata nd)" using prems(5) pos by simp
    note c = chunk_size_bounds [OF prems(2) lt pos, folded c_def]
    have sec: "Suc (nat (offset div 512)) \<le> bytes_to_sectors (offset + sz)"
      using sectors_of_offset [of offset "offset + sz"] prems(2) pos by simp
    have free: "0 < free_cnt s" if "512 * int K = offset"
      using that sec prems(7) by (auto simp: nat_mult_distrib)
    obtain s1 b1 nd1 where s1:
      "inode_write_loop (free_map_write (Suc depth)) i (\<lambda>_. bs) sz offset b w s =
         inode_write_loop (free_map_write (Suc depth)) i (\<lambda>_. bs) (sz - c) (offset + c) b1 (w + c) s1"
      "growing s1 f mnd i nd1 K1" "only_grew s mnd i nd K s1 nd1"
      "free_cnt s1 = free_cnt s - (K1 - K)" "K1 - K \<le> free_cnt s"
      "\<And>q. q < nat offset \<Longrightarrow> gbyte s1 nd1 q = gbyte s nd q" "\<And>j. j < nat c \<Longrightarrow> gbyte s1 nd1 (nat offset + j) = bs ! (nat w + j)"
      "\<And>j. K \<le> j \<Longrightarrow> j < K1 \<Longrightarrow> \<not> used s (dblock (idata nd1) ! j)"
      using grow_step [OF prems(1,2,3) pos prems(5,6) free prems(8,9), where depth = depth and b = b, folded c_def, folded K1_def] by metis
    have len1: "dlength (idata nd1) = dlength (idata nd)" using s1(3) by (auto simp: only_grew_def)
    have K1: "K \<le> K1" "max K1 (bytes_to_sectors (offset + sz)) = max K (bytes_to_sectors (offset + sz))"
      using sec by (auto simp: K1_def)
    have "offset + c \<le> 512 * (offset div 512 + 1)" using chunk_within [OF c(4)] .
    also have "offset div 512 + 1 \<le> int K1"
    proof -
      have "Suc (nat (offset div 512)) \<le> K1" by (simp add: K1_def)
      then have "int (Suc (nat (offset div 512))) \<le> int K1" by (simp only: of_nat_le_iff)
      then show ?thesis using prems(2) by (simp add: pos_imp_zdiv_nonneg_iff)
    qed
    finally have off1: "offset + c \<le> 512 * int K1" by simp
    have *: "nat (sz - c) < nat sz" "0 \<le> offset + c" "0 \<le> sz - c" "offset + c + (sz - c) \<le> dlength (idata nd1)"
      "offset + c + (sz - c) \<le> 123 * 512" "bytes_to_sectors (offset + c + (sz - c)) \<le> K1 + free_cnt s1"
      "0 \<le> w + c" "nat (w + c) + nat (sz - c) \<le> length bs"
      using c prems(2,4-9) pos len1 s1(4,5) K1(1) by (simp_all add: nat_add_distrib)
    from less.hyps [OF *(1) s1(2) *(2) off1 *(3-8), of b1] obtain s' nd' where s':
      "inode_write_loop (free_map_write (Suc depth)) i (\<lambda>_. bs) (sz - c) (offset + c) b1 (w + c) s1 = Some (w + c + (sz - c), s')"
      "growing s' f mnd i nd' (max K1 (bytes_to_sectors (offset + sz)))" "only_grew s1 mnd i nd1 K1 s' nd'"
      "\<And>q. q < nat (offset + c) \<Longrightarrow> gbyte s' nd' q = gbyte s1 nd1 q"
      "\<And>j. j < nat (sz - c) \<Longrightarrow> gbyte s' nd' (nat (offset + c) + j) = bs ! (nat (w + c) + j)"
      "\<And>j. K1 \<le> j \<Longrightarrow> j < max K1 (bytes_to_sectors (offset + sz)) \<Longrightarrow> \<not> used s1 (dblock (idata nd') ! j)"
      by auto
    have noff: "nat (offset + c) = nat offset + nat c" "nat (w + c) = nat w + nat c" "nat (sz - c) = nat sz - nat c"
      using c prems(2,8) by (simp_all add: nat_add_distrib nat_diff_distrib)
    have "gbyte s' nd' q = gbyte s nd q" if "q < nat offset" for q using s'(4) [of q] s1(6) [OF that] that noff by simp
    moreover have "gbyte s' nd' (nat offset + j) = bs ! (nat w + j)" if "j < nat sz" for j
    proof (cases "j < nat c")
      case True
      then show ?thesis using s'(4) [of "nat offset + j"] s1(7) noff by simp
    next
      case False
      then have "j - nat c < nat (sz - c)" using diff_less_mono [OF that, of "nat c"] noff(3) by simp
      then show ?thesis using s'(5) [of "j - nat c"] False noff by simp
    qed
    moreover have "\<not> used s (dblock (idata nd') ! j)" if j: "K \<le> j" "j < max K (bytes_to_sectors (offset + sz))" for j
    proof (cases "j < K1")
      case True
      moreover have "dblock (idata nd') ! j = dblock (idata nd1) ! j" using s'(3) True by (auto simp: only_grew_def)
      ultimately show ?thesis using s1(8) j(1) by simp
    next
      case False
      then have "\<not> used s1 (dblock (idata nd') ! j)" using s'(6) [of j] j K1(2) by simp
      then show ?thesis using s1(3) by (auto simp: only_grew_def)
    qed
    ultimately show ?thesis
      using s1(1) s'(1,2) only_grew_trans [OF s1(3) s'(3) K1(1) s1(8)] K1(2) by auto
  qed
qed

section \<open>Writing at the end of a file\<close>

lemma growing_bytes:
  assumes "growing s f mnd i nd K" "0 \<le> dlength (idata nd)" "bytes_to_sectors (dlength (idata nd)) \<le> K" 
  shows "contents_of s nd = map (gbyte s nd) [0..<nat (dlength (idata nd))]"
proof -
  have "file_byte (sectors s) (device_size s) (idata nd) p = gbyte s nd p" if "p < nat (dlength (idata nd))" for p
  proof -
    have "p div 512 < bytes_to_sectors (dlength (idata nd))"
      using sectors_of_offset [of "int p" "dlength (idata nd)"] that by (simp add: nat_div_distrib)
    then have "p div 512 < 123" using assms(3) growingD(3) [OF assms(1)] by simp
    then show ?thesis using growing_lookup [OF assms(1), of "p div 512"] by (simp add: file_byte_def gbyte_def data_sector_def)
  qed
  then show ?thesis by (simp add: contents_of_def file_bytes_def)
qed

text \<open>The first step stores the new length.\<close>

lemma set_length_growing:
  assumes g: "growing s f mnd i nd K" and n: "0 \<le> n" "n < 2147483648"
  defines "nd' \<equiv> nd\<lparr>idata := (idata nd)\<lparr>dlength := n\<rparr>\<rparr>"
  obtains s' where "do { s \<leftarrow> inode_lock i s; s \<leftarrow> write_inode i (set_length i n s); inode_unlock i s } = Some s'"
    "growing s' f mnd i nd' K" "inodes s' = (inodes s)(i := Some nd')" "free_cnt s' = free_cnt s"
    "sectors s' = (sectors s)(isector nd := bytes_of_inode (idata nd'))" "free_map s' = free_map s"
    "owned s' mnd = owned s mnd" "map_sectors s' mnd = map_sectors s mnd" "device_size s' = device_size s"
    "open_inodes s' = open_inodes s" "next_inode s' = next_inode s" "free_map_file s' = free_map_file s" "cur_dir s' = cur_dir s"
proof -
  note gD = growingD [OF g] and bD = beside_mapD [OF growingD(1) [OF g]]
  let ?l = "set_length i n (upd_inode i (lock_inode_update (\<lambda>_. True)) s)"
  have in1: "inodes ?l i = Some (nd'\<lparr>lock_inode := True\<rparr>)" using bD(3) by (cases nd) (simp add: set_length_def nd'_def)
  have "cache_ok ?l" "isector nd < device_size ?l" using bD(4,11) by (simp_all add: set_length_def)
  from write_step [OF this] obtain s1 where s1: "cache_block_write (isector nd) (bytes_of_inode (idata nd')) ?l = Some s1"
    "stored ?l ((sectors ?l)(isector nd := bytes_of_inode (idata nd'))) s1" .
  note st = stored_fields [OF s1(2)]
  define s' where "s' = upd_inode i (lock_inode_update (\<lambda>_. False)) s1"
  have fr: "cache_ok s'" "device_size s' = device_size s" "allocs s' = allocs s" "free_map_file s' = free_map_file s"
    "free_map s' = free_map s" "open_inodes s' = open_inodes s" "next_inode s' = next_inode s" "cur_dir s' = cur_dir s"
    using st by (simp_all add: s'_def set_length_def)
  have m: "sectors s' = (sectors s)(isector nd := bytes_of_inode (idata nd'))" using st(9) by (simp add: s'_def set_length_def)
  have "nd'\<lparr>lock_inode := False\<rparr> = nd'" using bD(6) by (cases nd) (simp add: nd'_def)
  then have in': "inodes s' = (inodes s)(i := Some nd')"
    using st(1) in1 bD(3) by (auto simp: s'_def fun_eq_iff set_length_def)
  have "do { s \<leftarrow> inode_lock i s; s \<leftarrow> write_inode i (set_length i n s); inode_unlock i s } = Some s'"
    using bD(3,6) in1 s1(1) st(1) by (simp add: inode_lock_def write_inode_def inode_unlock_def s'_def nd'_def)
  moreover have enc: "length (bytes_of_inode (idata nd')) = 512" "inode_of_bytes (bytes_of_inode (idata nd')) = idata nd'"
    using n gD(4) by (simp_all add: nd'_def inode_of_bytes_of_inode)
  have nd': "isector nd' = isector nd" "deny_write_cnt nd' = deny_write_cnt nd" "lock_inode nd' = lock_inode nd" by (simp_all add: nd'_def)
  have same: "sectors s' y = sectors s y" if "y \<in> owned s mnd" for y using that m bD(7) by auto
  have len: "length (sectors s' y) = length (sectors s y)" for y using m enc(1) bD(13) [OF bD(4)] by simp
  have b': "beside_map s' f mnd i nd'" "owned s' mnd = owned s mnd" "map_sectors s' mnd = map_sectors s mnd"
    using beside_map_frame [OF gD(1) fr(1,2,3) in' fr(4,5) nd'] same len by blast+
  have u: "used s' y = used s y" for y using fr(5) by (simp add: used_def)
  have di: "idata nd' = disk_inode s' nd'" using m enc(2) nd'(1) by (simp add: disk_inode_def)
  have db: "dblock (idata nd') = dblock (idata nd)" by (simp add: nd'_def)
  have "growing s' f mnd i nd' K"
    using g b'(1) di unfolding growing_def b'(2) fr(2) u db nd'(1) by blast
  moreover have "free_cnt s' = free_cnt s" using u fr(2) by (simp add: free_cnt_def)
  ultimately show ?thesis using that in' m b'(2,3) fr by blast
qed

lemma inode_append:
  assumes g: "growing s f mnd i nd K" and K: "bytes_to_sectors (dlength (idata nd)) = K" "0 \<le> dlength (idata nd)"
    and off: "0 \<le> offset" "offset \<le> dlength (idata nd)" "dlength (idata nd) < offset + sz" "offset + sz \<le> 123 * 512"
    and free: "bytes_to_sectors (offset + sz) \<le> K + free_cnt s" and bs: "length bs = nat sz"
  shows "\<exists>s' nd'. inode_write_at (free_map_write (Suc depth)) i (\<lambda>_. bs) sz offset s = Some (sz, s')
    \<and> growing s' f mnd i nd' (bytes_to_sectors (offset + sz)) \<and> dlength (idata nd') = offset + sz
    \<and> contents_of s' nd' = take (nat offset) (contents_of s nd) @ bs
    \<and> only_grew s mnd i nd K s' (nd'\<lparr>idata := (idata nd')\<lparr>dlength := dlength (idata nd)\<rparr>\<rparr>)"
proof -
  let ?wm = "free_map_write (Suc depth)" and ?n = "offset + sz"
  note gD = growingD [OF g] and bD = beside_mapD [OF growingD(1) [OF g]]
  define nd1 where "nd1 = nd\<lparr>idata := (idata nd)\<lparr>dlength := ?n\<rparr>\<rparr>"
  have n: "0 \<le> ?n" "?n < 2147483648" using off by simp_all
  obtain s1 where s1: "do { s \<leftarrow> inode_lock i s; s \<leftarrow> write_inode i (set_length i ?n s); inode_unlock i s } = Some s1"
    "growing s1 f mnd i nd1 K" "inodes s1 = (inodes s)(i := Some nd1)" "free_cnt s1 = free_cnt s"
    "sectors s1 = (sectors s)(isector nd := bytes_of_inode (idata nd1))" "free_map s1 = free_map s"
    "owned s1 mnd = owned s mnd" "map_sectors s1 mnd = map_sectors s mnd" "device_size s1 = device_size s"
    "open_inodes s1 = open_inodes s" "next_inode s1 = next_inode s" "free_map_file s1 = free_map_file s" "cur_dir s1 = cur_dir s"
    using set_length_growing [OF g n, folded nd1_def] .
  have len1: "dlength (idata nd1) = ?n" by (simp add: nd1_def)
  have "dlength (idata nd) \<le> 512 * int K" using K unfolding bytes_to_sectors_def by auto
  then have offK: "offset \<le> 512 * int K" using off(2) by simp
  have mono: "K \<le> bytes_to_sectors ?n" using K off(3) unfolding bytes_to_sectors_def by (auto intro!: nat_mono zdiv_mono1)
  then have mx: "max K (bytes_to_sectors ?n) = bytes_to_sectors ?n" by simp
  have pos: "0 \<le> sz" using off by simp
  obtain s2 nd2 where s2: "inode_write_loop ?wm i (\<lambda>_. bs) sz offset False 0 s1 = Some (sz, s2)"
    "growing s2 f mnd i nd2 (bytes_to_sectors ?n)" "only_grew s1 mnd i nd1 K s2 nd2"
    "\<And>q. q < nat offset \<Longrightarrow> gbyte s2 nd2 q = gbyte s1 nd1 q" "\<And>j. j < nat sz \<Longrightarrow> gbyte s2 nd2 (nat offset + j) = bs ! j"
    using grow_loop [OF s1(2) off(1) offK pos, where w = 0 and bs = bs and depth = depth and b = False] len1 off(4) free s1(4) bs mx by auto
  note gD2 = growingD [OF s2(2)] and bD2 = beside_mapD [OF growingD(1) [OF s2(2)]]
  obtain s3 where s3: "do { s \<leftarrow> inode_lock i s2; s \<leftarrow> write_inode i s; inode_unlock i s } = Some s3"
    "stored s2 ((sectors s2)(isector nd2 := bytes_of_inode (idata nd2))) s3"
    using write_back [OF bD2(11,3,6,4)] .
  have "bytes_of_inode (idata nd2) = sectors s2 (isector nd2)"
    using bytes_of_inode_of_bytes [OF bD2(13) [OF bD2(4)]] gD2(2) by (simp add: disk_inode_def)
  then have st3: "stored s2 (sectors s2) s3" using s3(2) by simp
  note f3 = stored_fields [OF st3]
  have len2: "dlength (idata nd2) = ?n" using s2(3) len1 by (auto simp: only_grew_def)
  have in3: "inodes s3 = (inodes s2)(i := Some nd2)" using f3(1) bD2(3) by (simp add: fun_upd_idem)
  have b3: "beside_map s3 f mnd i nd2" "owned s3 mnd = owned s2 mnd" "map_sectors s3 mnd = map_sectors s2 mnd"
    using beside_map_frame [OF gD2(1) f3(8,10,7) in3 f3(5,4) refl refl refl] f3(9) by simp_all
  have u3: "used s3 y = used s2 y" for y using f3(4) by (simp add: used_def)
  have di3: "disk_inode s3 nd2 = disk_inode s2 nd2" using f3(9) by (simp add: disk_inode_def)
  have g3: "growing s3 f mnd i nd2 (bytes_to_sectors ?n)"
    using s2(2) b3(1) unfolding growing_def b3(2) f3(10) u3 di3 by blast
  have gb3: "gbyte s3 nd2 = gbyte s2 nd2" using f3(9) by (simp add: gbyte_def fun_eq_iff)
  have gold: "gbyte s1 nd1 q = gbyte s nd q" if "q < nat offset" for q
  proof -
    have "q div 512 < K" using that offK by (auto simp: less_mult_imp_div_less)
    then show ?thesis using s1(5) gD(9) by (simp add: gbyte_def nd1_def)
  qed
  have "contents_of s3 nd2 = map (gbyte s2 nd2) [0..<nat offset + nat sz]"
    using growing_bytes [OF g3] len2 n off(1) pos gb3 by (simp add: nat_add_distrib)
  also have "\<dots> = map (gbyte s nd) [0..<nat offset] @ bs"
  proof (rule nth_equalityI)
    fix p assume p: "p < length (map (gbyte s2 nd2) [0..<nat offset + nat sz])"
    show "map (gbyte s2 nd2) [0..<nat offset + nat sz] ! p = (map (gbyte s nd) [0..<nat offset] @ bs) ! p"
    proof (cases "p < nat offset")
      case True
      then show ?thesis using p s2(4) gold by (simp add: nth_append)
    next
      case False
      then have "p - nat offset < nat sz" using p by simp
      then show ?thesis using False p s2(5) [of "p - nat offset"] by (simp add: nth_append)
    qed
  qed (simp add: bs)
  also have "map (gbyte s nd) [0..<nat offset] = take (nat offset) (contents_of s nd)"
    using growing_bytes [OF g K(2)] K(1) off(2) by (simp add: take_map nat_mono min_absorb1)
  finally have con: "contents_of s3 nd2 = take (nat offset) (contents_of s nd) @ bs" .
  have "off_ok ?n" using n by (simp add: off_ok_def)
  moreover have il: "inode_length i s = Some (dlength (idata nd))" using bD(3) by (simp add: inode_length_def)
  ultimately have "inode_write_at ?wm i (\<lambda>_. bs) sz offset s = Some (sz, s3)"
    using bD(3,5) off s1(1) s2(1) s3(1)
    by (auto simp add: inode_write_at_def bind_eq_Some_conv)
  moreover have "only_grew s mnd i nd K s3 (nd2\<lparr>idata := (idata nd2)\<lparr>dlength := dlength (idata nd)\<rparr>\<rparr>)"
  proof -
    obtain b where b: "nd2 = nd1\<lparr>idata := (idata nd1)\<lparr>dblock := b\<rparr>\<rparr>" "\<forall>k < K. b ! k = dblock (idata nd1) ! k"
      using s2(3) unfolding only_grew_def by blast
    then have "nd2\<lparr>idata := (idata nd2)\<lparr>dlength := dlength (idata nd)\<rparr>\<rparr> = nd\<lparr>idata := (idata nd)\<lparr>dblock := b\<rparr>\<rparr>"
      by (simp add: nd1_def)
    moreover have u1: "used s1 y = used s y" for y using s1(6) by (simp add: used_def)
    moreover have nd1: "isector nd1 = isector nd" "dblock (idata nd1) = dblock (idata nd)" by (simp_all add: nd1_def)
    note og = only_grewD [OF s2(3)]
    have "sectors s3 y = sectors s y"
      if "used s y \<and> y \<notin> map_sectors s mnd \<and> y \<noteq> isector nd \<and> (\<forall>k < K. y \<noteq> dblock (idata nd) ! k)" for y
    proof -
      have "sectors s2 y = sectors s1 y" using that u1 nd1 s1(8) by (intro og(3)) simp_all
      then show ?thesis using that s1(5) f3(9) by simp
    qed
    moreover have "inodes s3 j = inodes s j" if "j \<noteq> i" for j using og(2) [OF that] that f3(1) s1(3) by simp
    moreover have "used s3 y" if "used s y" for y using og(1) [of y] that u1 u3 by simp
    ultimately show ?thesis
      unfolding only_grew_def using b(2) nd1 b3(2,3) f3(2,3,5,6,10) og(4-10) s1(7-13) by (intro conjI) auto
  qed
  ultimately show ?thesis using g3 con len2 by blast
qed

end
