(* ===== verification/Inode_Release.thy ===== *)
theory Inode_Release
  imports Inode_Grow
begin

text \<open>
  Removing files: \<open>free_map_release\<close> frees exactly one used sector, \<open>inode_release\<close> frees the
  sectors of a file whose inode maps them directly, and panics or runs out of an index block for
  every larger file.
\<close>

section \<open>Releasing a sector\<close>

definition released :: "fs \<Rightarrow> inode \<Rightarrow> block_sector_t \<Rightarrow> fs \<Rightarrow> bool" where
  "released s mnd x s' \<longleftrightarrow>
     flipped (free_map s) (unat x) 1 False (free_map s')
     \<and> stored (s\<lparr>free_map := free_map s'\<rparr>) (sectors s') s'
     \<and> overwritten (sectors s) (device_size s) (idata mnd) 0 (bytes_of (bits (free_map s'))) (sectors s')"

text \<open>What every step on the free map leaves alone.\<close>

definition kept :: "fs \<Rightarrow> fs \<Rightarrow> bool" where
  "kept s s' \<longleftrightarrow>
     inodes s' = inodes s \<and> open_inodes s' = open_inodes s \<and> next_inode s' = next_inode s
     \<and> cur_dir s' = cur_dir s \<and> device_size s' = device_size s"

lemma released_fields:
  assumes "released s mnd x s'"
  shows "inodes s' = inodes s" "free_map_file s' = free_map_file s" "allocs s' = allocs s" "cache_ok s'"
    "device_size s' = device_size s" "used s' y \<longleftrightarrow> used s y \<and> y \<noteq> x" "y \<notin> map_sectors s mnd \<Longrightarrow> sectors s' y = sectors s y"
    "kept s s'"
proof -
  have st: "stored (s\<lparr>free_map := free_map s'\<rparr>) (sectors s') s'" using assms by (simp add: released_def)
  show "inodes s' = inodes s" "free_map_file s' = free_map_file s" "allocs s' = allocs s" "cache_ok s'" "device_size s' = device_size s"
    "kept s s'"
    using stored_fields [OF st] by (simp_all add: kept_def)
  show "used s' y \<longleftrightarrow> used s y \<and> y \<noteq> x" using assms by (auto simp: released_def flipped_def used_def word_unat_eq_iff)
  show "y \<notin> map_sectors s mnd \<Longrightarrow> sectors s' y = sectors s y" using assms by (simp add: released_def overwritten_def)
qed

lemma free_map_release_ok:
  assumes mf: "map_file s f mnd" and x: "x < device_size s" "used s x"
  obtains s' where "free_map_release (free_map_write (Suc depth)) x 1 s = Some s'" "released s mnd x s'" "map_file s' f mnd"
    "map_sectors s' mnd = map_sectors s mnd"
proof -
  note mfD = map_fileD [OF mf]
  have r: "unat x + unat (1 :: u32) \<le> size_of (free_map s)" using x(1) mfD(7) by (simp add: size_of_def word_less_nat_alt)
  have "\<not> (\<exists>j. unat x \<le> j \<and> j < unat x + unat (1 :: u32) \<and> bitv (free_map s) j = False)"
    using x(2) by (auto simp: used_def less_Suc_eq le_antisym)
  then have all: "bitmap_all (free_map s) x 1 = Some True" using bitmap_contains_spec [OF mfD(6) r, of False] by (simp add: bitmap_all_def)
  obtain b where b: "bitmap_set_multiple (free_map s) x 1 False = Some b" "flipped (free_map s) (unat x) 1 False b"
    using bitmap_set_multiple_spec [OF mfD(6) r, of False] by (auto simp: flipped_def)
  let ?s = "s\<lparr>free_map := b\<rparr>"
  have mf1: "map_file ?s f mnd" using map_file_flipped [OF mf] b(2) by (simp add: flipped_def)
  obtain m' s' where s': "free_map_write (Suc depth) ?s = Some (True, s')" "stored ?s m' s'"
    "overwritten (sectors ?s) (device_size ?s) (idata mnd) 0 (bytes_of (bits (free_map ?s))) m'"
    using free_map_write_ok [OF mf1] by blast
  have "free_map_release (free_map_write (Suc depth)) x 1 s = Some s'"
    using all b(1) s'(1) by (simp add: free_map_release_def)
  moreover have "released s mnd x s'" using s' b(2) stored_fields [OF s'(2)] by (simp add: released_def)
  moreover have "map_file s' f mnd" "map_sectors s' mnd = map_sectors s mnd" using map_file_overwritten [OF mf1 s'(3,2)] by simp_all
  ultimately show ?thesis using that by blast
qed

lemma device_small:
  assumes "map_file s f mnd"
  shows "unat (device_size s) < 2 ^ 32 - 1"
  using map_fileD(6-8) [OF assms] open_fileD(9) [OF map_fileD(2) [OF assms]] by (simp add: bitmap_ok_def size_of_def)

lemma free_map_release_panics:
  assumes mf: "map_file s f mnd" and x: "\<not> (x < device_size s \<and> used s x)"
  shows "free_map_release wm x 1 s = None"
proof (cases "x < device_size s")
  case True
  note mfD = map_fileD [OF mf]
  have r: "unat x + unat (1 :: u32) \<le> size_of (free_map s)" using True mfD(7) by (simp add: size_of_def word_less_nat_alt)
  have "\<exists>j. unat x \<le> j \<and> j < unat x + unat (1 :: u32) \<and> bitv (free_map s) j = False"
    using x True by (auto simp: used_def)
  then have "bitmap_all (free_map s) x 1 = Some False" using bitmap_contains_spec [OF mfD(6) r, of False] by (simp add: bitmap_all_def)
  then show ?thesis by (simp add: free_map_release_def)
next
  case False
  have "\<not> (x \<le> device_size s \<and> x + 1 \<le> device_size s)"
  proof
    assume a: "x \<le> device_size s \<and> x + 1 \<le> device_size s"
    then have "x = device_size s" using False by simp
    then show False using a device_small [OF mf] by (simp add: word_le_nat_alt unat_word_ariths)
  qed
  then have "bitmap_contains (free_map s) x 1 False = None"
    using map_fileD(7) [OF mf] unfolding bitmap_contains_def by (cases "x \<le> device_size s") simp_all
  then show ?thesis by (simp add: free_map_release_def bitmap_all_def)
qed

section \<open>Releasing a small file\<close>

lemma release_direct_ok:
  assumes "map_file s f mnd" "distinct ks" "inj_on (\<lambda>k. blocks ! k) (set ks)"
    "\<forall>k\<in>set ks. blocks ! k \<noteq> 0 \<and> blocks ! k < device_size s \<and> used s (blocks ! k)"
  shows "\<exists>s'. release_direct (free_map_write (Suc depth)) blocks ks s = Some s' \<and> map_file s' f mnd
    \<and> map_sectors s' mnd = map_sectors s mnd \<and> kept s s'
    \<and> (\<forall>y. used s' y \<longleftrightarrow> used s y \<and> y \<notin> (\<lambda>k. blocks ! k) ` set ks)
    \<and> (\<forall>y. y \<notin> map_sectors s mnd \<longrightarrow> sectors s' y = sectors s y)"
  using assms
proof (induction ks arbitrary: s)
  case (Cons k ks)
  obtain s1 where s1: "free_map_release (free_map_write (Suc depth)) (blocks ! k) 1 s = Some s1" "released s mnd (blocks ! k) s1"
    "map_file s1 f mnd" "map_sectors s1 mnd = map_sectors s mnd"
    using free_map_release_ok [OF Cons.prems(1), of "blocks ! k"] Cons.prems(4) by auto
  note r = released_fields [OF s1(2)]
  have "blocks ! l \<noteq> blocks ! k" if "l \<in> set ks" for l using Cons.prems(2,3) that by (auto simp: inj_on_def)
  then have "\<forall>l\<in>set ks. blocks ! l \<noteq> 0 \<and> blocks ! l < device_size s1 \<and> used s1 (blocks ! l)"
    using Cons.prems(4) r(5,6) by simp
  then obtain s' where s': "release_direct (free_map_write (Suc depth)) blocks ks s1 = Some s'" "map_file s' f mnd"
    "map_sectors s' mnd = map_sectors s1 mnd" "kept s1 s'"
    "\<forall>y. used s' y \<longleftrightarrow> used s1 y \<and> y \<notin> (\<lambda>k. blocks ! k) ` set ks" "\<forall>y. y \<notin> map_sectors s1 mnd \<longrightarrow> sectors s' y = sectors s1 y"
    using Cons.IH [OF s1(3)] Cons.prems(2,3) by auto
  then show ?case using s1(1,4) r Cons.prems(4) by (auto simp: kept_def)
qed (simp add: kept_def)

lemma inode_release_direct:
  assumes g: "growing s f mnd i nd K" and K: "bytes_to_sectors (dlength (idata nd)) = K" "0 \<le> dlength (idata nd)"
  shows "\<exists>s'. inode_release (free_map_write (Suc depth)) i s = Some s' \<and> map_file s' f mnd \<and> kept s s'
    \<and> (\<forall>y. used s' y \<longleftrightarrow> used s y \<and> y \<notin> owned s nd)
    \<and> (\<forall>y. y \<notin> map_sectors s mnd \<longrightarrow> sectors s' y = sectors s y)"
proof -
  note gD = growingD [OF g] and bD = beside_mapD [OF growingD(1) [OF g]]
  obtain s1 where s1: "free_map_release (free_map_write (Suc depth)) (isector nd) 1 s = Some s1" "released s mnd (isector nd) s1"
    "map_file s1 f mnd" "map_sectors s1 mnd = map_sectors s mnd"
    using free_map_release_ok [OF bD(1,4,8)] .
  note r = released_fields [OF s1(2)]
  have "\<forall>k\<in>set [0..<K]. dblock (idata nd) ! k \<noteq> 0 \<and> dblock (idata nd) ! k < device_size s1 \<and> used s1 (dblock (idata nd) ! k)"
    using gD(5,6,7,9) r(5,6) by simp
  moreover have "inj_on (\<lambda>k. dblock (idata nd) ! k) (set [0..<K])" using gD(11) by (auto simp: inj_on_def)
  ultimately obtain s' where s': "release_direct (free_map_write (Suc depth)) (dblock (idata nd)) [0..<K] s1 = Some s'" "map_file s' f mnd" "kept s1 s'"
    "\<forall>y. used s' y \<longleftrightarrow> used s1 y \<and> y \<notin> (\<lambda>k. dblock (idata nd) ! k) ` {..<K}"
    "\<forall>y. y \<notin> map_sectors s1 mnd \<longrightarrow> sectors s' y = sectors s1 y"
    using release_direct_ok [OF s1(3), of "[0..<K]" "dblock (idata nd)" depth] by (auto simp: atLeast0LessThan)
  have own: "owned s nd = insert (isector nd) ((\<lambda>k. dblock (idata nd) ! k) ` {..<K})" using growing_file(3) [OF g K(2,1)] .
  have "inode_release (free_map_write (Suc depth)) i s = Some s'"
    using bD(3) K(1) s1(1) s'(1) gD(3) by (simp add: inode_release_def min_absorb1)
  then show ?thesis using s' r(6,7,8) s1(4) own by (auto simp: kept_def)
qed

section \<open>Larger files\<close>

lemma read_index_ok:
  assumes "map_file s f mnd" "x < device_size s"
  shows "\<exists>s'. read_index x s = Some (Some (words_of (sectors s x)), s') \<and> map_file s' f mnd"
proof -
  note fD = open_fileD [OF map_fileD(2) [OF assms(1)]]
  from read_step [OF fD(1) assms(2)] obtain s' where "cache_block_read x s = Some (sectors s x, s')" "stored s (sectors s) s'" .
  then show ?thesis using map_file_stored [OF assms(1)] by (auto simp: read_index_def)
qed

lemma free_map_release_cases:
  assumes "map_file s f mnd"
  shows "free_map_release (free_map_write (Suc depth)) x 1 s = None \<or>
    (\<exists>s'. free_map_release (free_map_write (Suc depth)) x 1 s = Some s' \<and> released s mnd x s' \<and> map_file s' f mnd
      \<and> map_sectors s' mnd = map_sectors s mnd)"
  using free_map_release_ok [OF assms] free_map_release_panics [OF assms] by metis

lemma release_direct_cases:
  assumes "map_file s f mnd"
  shows "release_direct (free_map_write (Suc depth)) blocks ks s = None \<or>
    (\<exists>s'. release_direct (free_map_write (Suc depth)) blocks ks s = Some s' \<and> map_file s' f mnd
      \<and> map_sectors s' mnd = map_sectors s mnd \<and> device_size s' = device_size s
      \<and> (\<forall>y. y \<notin> map_sectors s mnd \<longrightarrow> sectors s' y = sectors s y))"
  using assms
proof (induction ks arbitrary: s)
  case (Cons k ks)
  let ?wm = "free_map_write (Suc depth)"
  let ?r = "if blocks ! k \<noteq> 0 then free_map_release ?wm (blocks ! k) 1 s else Some s"
  have "?r = None \<or> (\<exists>s1. ?r = Some s1 \<and> map_file s1 f mnd \<and> map_sectors s1 mnd = map_sectors s mnd \<and> device_size s1 = device_size s
      \<and> (\<forall>y. y \<notin> map_sectors s mnd \<longrightarrow> sectors s1 y = sectors s y))"
    using free_map_release_cases [OF Cons.prems, of depth "blocks ! k"] released_fields(5,7) Cons.prems by auto
  then show ?case
  proof (elim disjE exE conjE)
    fix s1 assume s1: "?r = Some s1" "map_file s1 f mnd" "map_sectors s1 mnd = map_sectors s mnd" "device_size s1 = device_size s"
      "\<forall>y. y \<notin> map_sectors s mnd \<longrightarrow> sectors s1 y = sectors s y"
    then show ?thesis using Cons.IH [OF s1(2)] by auto
  qed simp
qed simp

lemma inode_release_large:
  assumes mf: "map_file s f mnd" and f: "open_file s i nd" 
    and big: "123 < bytes_to_sectors (dlength (idata nd))" "bytes_to_sectors (dlength (idata nd)) \<le> 246"
    and own: "dblock (idata nd) ! 123 \<notin> map_sectors s mnd"
  shows "slot (Some (words_of (sectors s (dblock (idata nd) ! 123)))) 123 = Some BLOCK_ERROR"
    "inode_release (free_map_write (Suc depth)) i s = None"
proof -
  let ?wm = "free_map_write (Suc depth)" and ?b = "dblock (idata nd)" and ?K = "bytes_to_sectors (dlength (idata nd))"
  note fD = open_fileD [OF f]
  let ?ks = "[123..<min ?K 251]"
  have fok: "if k < ?K then mapped (sectors s) (device_size s) (idata nd) k
      else lookup_sector (sectors s) (device_size s) (idata nd) k = Some (- 1)" if "k < 16635" for k
    using fD(7) that unfolding fD(6) [symmetric] file_ok_def by blast
  have "mapped (sectors s) (device_size s) (idata nd) 123" using fok [of 123] big by simp
  then have idx: "?b ! 123 \<noteq> - 1" "?b ! 123 < device_size s"
    using sector_not_error by (auto simp: mapped_def lookup_sector_def Let_def bind_eq_Some_conv split: if_splits)
  have "words_of (sectors s (?b ! 123)) ! 123 = - 1"
    using fok [of 246] big(2) idx by (simp add: lookup_sector_def)
  moreover have "length (words_of (sectors s (?b ! 123))) = 128" using fD(5) [OF idx(2)] by (simp add: length_words_of)
  ultimately show sl: "slot (Some (words_of (sectors s (?b ! 123)))) 123 = Some BLOCK_ERROR" by (simp add: slot_def)
  have ri: "release_indirect ?wm ?b None ?ks s2 = None"
    if s2: "map_file s2 f mnd" "sectors s2 (?b ! 123) = sectors s (?b ! 123)" "device_size s2 = device_size s" for s2
  proof -
    obtain s3 where "read_index (?b ! 123) s2 = Some (Some (words_of (sectors s (?b ! 123))), s3)" "map_file s3 f mnd"
      using read_index_ok [OF s2(1), of "?b ! 123"] idx(2) s2(2,3) by auto
    moreover have "free_map_release ?wm (- 1) 1 s3 = None" if "map_file s3 f mnd" for s3
      using free_map_release_panics [OF that] sector_not_error [of "- 1"] by blast
    moreover have "?ks = 123 # [124..<min ?K 251]" using big(1) by (simp add: upt_conv_Cons)
    ultimately show ?thesis using idx(1) sl by simp
  qed
  have "\<exists>s1. release_direct ?wm ?b [0..<min ?K 123] s' = Some s1 \<Longrightarrow>
      release_direct ?wm ?b [0..<min ?K 123] s' \<bind> (\<lambda>s. release_indirect ?wm ?b None ?ks s) = None"
    if s': "free_map_release ?wm (isector nd) 1 s = Some s'" for s'
  proof -
    assume "\<exists>s1. release_direct ?wm ?b [0..<min ?K 123] s' = Some s1"
    moreover have s'D: "map_file s' f mnd" "map_sectors s' mnd = map_sectors s mnd" "released s mnd (isector nd) s'"
      using free_map_release_cases [OF mf, of depth "isector nd"] s' by auto
    ultimately obtain s1 where s1: "release_direct ?wm ?b [0..<min ?K 123] s' = Some s1" "map_file s1 f mnd" "device_size s1 = device_size s'"
      "sectors s1 (?b ! 123) = sectors s' (?b ! 123)"
      using release_direct_cases [OF s'D(1), of depth ?b "[0..<min ?K 123]"] own s'D(2) by auto
    then show ?thesis using ri [OF s1(2)] released_fields(5,7) [OF s'D(3)] own by simp
  qed
  then show "inode_release ?wm i s = None" using fD(3)
    by (cases "free_map_release ?wm (isector nd) 1 s"; cases "release_direct ?wm ?b [0..<min ?K 123] (the (free_map_release ?wm (isector nd) 1 s))")
      (simp_all add: inode_release_def)
qed

end
