(* ===== verification/Fs_Example.thy ===== *)
theory Fs_Example
  imports Inode_Release
begin

text \<open>
  A small file system for the examples: a device of 256 sectors with the inode of the free map
  in sector 0, its bitmap in sector 2 and the inode of one open file in sector 3. The sectors 0
  to 159 are marked as used.
\<close>

definition map_disk :: inode_disk where
  "map_disk = \<lparr>dlength = 32, magic = INODE_MAGIC, is_dir = 0, dblock = 2 # replicate 124 (- 1)\<rparr>"

definition map_inode :: inode where
  "map_inode = \<lparr>isector = 0, open_cnt = 1, removed = False, deny_write_cnt = 0, lock_inode = False, idata = map_disk\<rparr>"

definition map_handle :: file_t where
  "map_handle = \<lparr>finode = 0, fpos = 0, deny_write = False, fdir = None\<rparr>"

definition demo_inode :: "inode_disk \<Rightarrow> inode" where
  "demo_inode d = \<lparr>isector = 3, open_cnt = 1, removed = False, deny_write_cnt = 0, lock_inode = False, idata = d\<rparr>"

definition demo_device :: "inode_disk \<Rightarrow> (block_sector_t \<Rightarrow> bytes) \<Rightarrow> block" where
  "demo_device d m = \<lparr>btype = BLOCK_FILESYS, bsize = 256, read_cnt = 0, write_cnt = 0,
     contents = m(0 := bytes_of_inode map_disk, 3 := bytes_of_inode d)\<rparr>"

definition demo_bitmap :: bitmap where
  "demo_bitmap = \<lparr>bit_cnt = 256, bits = replicate 5 (- 1) @ replicate 3 0\<rparr>"

definition demo :: "inode_disk \<Rightarrow> (block_sector_t \<Rightarrow> bytes) \<Rightarrow> fs" where
  "demo d m =
     cache_init (demo_device d m)
       \<lparr>fs_device = demo_device d m, buffers = (\<lambda>_. \<lparr>sector = 0, cstatus = 0, lock_shared = 0, cdata = []\<rparr>),
        buffer_cache = Map.empty, list_lru = [], sema_lru = 0,
        inodes = [0 \<mapsto> map_inode, 1 \<mapsto> demo_inode d], open_inodes = [1, 0], next_inode = 2,
        free_map = demo_bitmap, free_map_file = Some map_handle, cur_dir = Some \<lparr>dinode = 1, dpos = 0\<rparr>, allocs = []\<rparr>"

lemma demo_store:
  "cache_ok (demo d m)" "sectors (demo d m) = m(0 := bytes_of_inode map_disk, 3 := bytes_of_inode d)"
  "device_size (demo d m) = 256"
  using cache_init_ok [of "demo_device d m"] by (simp_all add: demo_def demo_device_def)

lemma demo_state:
  "inodes (demo d m) = [0 \<mapsto> map_inode, 1 \<mapsto> demo_inode d]" "allocs (demo d m) = []" "free_map (demo d m) = demo_bitmap"
  "free_map_file (demo d m) = Some map_handle"
  by (simp_all add: demo_def cache_init_def)

lemma demo_used: "used (demo d m) x \<longleftrightarrow> x < 160" if "x < 256"
proof -
  have "unat x < 256" using that by (simp add: word_less_nat_alt)
  then have "unat x div 32 < 8" "unat x div 32 < 5 \<longleftrightarrow> unat x < 160" by (simp_all add: less_mult_imp_div_less div_less_iff_less_mult)
  then show ?thesis
    by (simp add: used_def demo_state demo_bitmap_def bitv_def word_less_nat_alt nth_append)
qed

lemma map_disk_lookup:
  "lookup_sector mm n map_disk k = (if k = 0 then Some 2 else if k < 16635 then Some (- 1) else None)"
  by (auto simp: lookup_sector_def map_disk_def nth_Cons')

lemma map_disk_sectors:
  "bytes_to_sectors (dlength map_disk) = 1" "data_sectors mm n map_disk = {2}" "index_sectors mm map_disk = {}"
proof -
  show n: "bytes_to_sectors (dlength map_disk) = 1" by (simp add: map_disk_def bytes_to_sectors_def)
  show "data_sectors mm n map_disk = {2}" unfolding data_sectors_def n by (simp add: data_sector_def map_disk_lookup lessThan_Suc)
  show "index_sectors mm map_disk = {}" by (simp add: index_sectors_def map_disk_def nth_Cons')
qed

lemma demo_beside_map:
  assumes "length (dblock d) = 125" "- 2147483648 \<le> dlength d" "dlength d < 2147483648" "\<And>x. length (m x) = 512"
  shows "beside_map (demo d m) map_handle map_inode 1 (demo_inode d)" "disk_inode (demo d m) (demo_inode d) = d"
    "owned (demo d m) map_inode = {0, 2}" "map_sectors (demo d m) map_inode = {2}"
proof -
  have l3: "length (bytes_of_inode d) = 512" "length (bytes_of_inode map_disk) = 512" using assms(1) by (simp_all add: map_disk_def)
  have dm: "disk_inode (demo d m) map_inode = map_disk"
    by (simp add: disk_inode_def map_inode_def demo_store inode_of_bytes_of_inode) (simp add: map_disk_def inode_of_bytes_of_inode)
  show "disk_inode (demo d m) (demo_inode d) = d"
    using assms by (simp add: disk_inode_def demo_inode_def demo_store inode_of_bytes_of_inode)
  have fok: "file_ok (sectors (demo d m)) 256 map_disk"
    unfolding file_ok_def mapped_def map_disk_lookup by (auto simp: map_disk_def bytes_to_sectors_def)
  have of: "open_file (demo d m) 0 map_inode"
    using assms(4) l3 fok dm by (simp add: open_file_def demo_store demo_state map_inode_def)
  have lay: "layout_ok (sectors (demo d m)) 256 0 map_disk"
    by (simp add: layout_ok_def map_disk_sectors lessThan_Suc)
  show own: "owned (demo d m) map_inode = {0, 2}"
    by (auto simp: owned_def map_inode_def demo_store map_disk_sectors)
  show "map_sectors (demo d m) map_inode = {2}" by (simp add: map_inode_def demo_store map_disk_sectors)
  have "map_file (demo d m) map_handle map_inode"
    using of lay by (simp add: map_file_def demo_store demo_state map_handle_def map_inode_def demo_bitmap_def bitmap_ok_def size_of_def map_disk_def)
  then show "beside_map (demo d m) map_handle map_inode 1 (demo_inode d)"
    unfolding beside_map_def own by (simp add: demo_used demo_store demo_state map_handle_def demo_inode_def)
qed

text \<open>A file of 600 bytes in the sectors 4 and 5.\<close>

definition two_sectors :: inode_disk where
  "two_sectors = \<lparr>dlength = 600, magic = INODE_MAGIC, is_dir = 0, dblock = 4 # 5 # replicate 123 (- 1)\<rparr>"

definition blank :: "block_sector_t \<Rightarrow> bytes" where
  "blank x = zeros"

lemma demo_growing:
  "growing (demo two_sectors blank) map_handle map_inode 1 (demo_inode two_sectors) 2"
  "bytes_to_sectors (dlength two_sectors) = 2"
proof -
  let ?s = "demo two_sectors blank"
  note b = demo_beside_map [of two_sectors blank]
  have "growing ?s map_handle map_inode 1 (demo_inode two_sectors) 2"
    unfolding growing_def
    using b by (auto simp: demo_inode_def two_sectors_def blank_def demo_store demo_used nth_Cons' less_2_cases_iff)
  then show "growing ?s map_handle map_inode 1 (demo_inode two_sectors) 2" .
  show "bytes_to_sectors (dlength two_sectors) = 2" by (simp add: two_sectors_def bytes_to_sectors_def)
qed

lemma demo_open_file:
  "open_file (demo two_sectors blank) 1 (demo_inode two_sectors)"
  "layout_ok (sectors (demo two_sectors blank)) (device_size (demo two_sectors blank)) 3 two_sectors"
  using growing_file(1,2) [OF demo_growing(1)] demo_growing(2) by (simp_all add: demo_inode_def two_sectors_def)

lemma demo_free: "96 \<le> free_cnt (demo d m)"
proof -
  have "{x :: u32. x < 256 \<and> \<not> x < 160} = of_nat ` {160..<256}"
  proof (intro set_eqI iffI)
    fix x :: u32 assume "x \<in> {x. x < 256 \<and> \<not> x < 160}"
    then have "unat x \<in> {160..<256}" by (auto simp: word_less_nat_alt)
    moreover have "x = of_nat (unat x)" by simp
    ultimately show "x \<in> of_nat ` {160..<256}" by blast
  next
    fix x :: u32 assume "x \<in> of_nat ` {160..<256}"
    then obtain n where "x = of_nat n" "160 \<le> n" "n < 256" by auto
    then show "x \<in> {x. x < 256 \<and> \<not> x < 160}" by (simp add: word_less_nat_alt unat_of_nat take_bit_nat_eq_self)
  qed
  moreover have "inj_on (of_nat :: nat \<Rightarrow> u32) {160..<256}"
    by (auto simp: inj_on_def unat_of_nat_u32 dest!: arg_cong [of _ _ unat])
  moreover have "{x. x < device_size (demo d m) \<and> \<not> used (demo d m) x} = {x. x < 256 \<and> \<not> x < 160}"
    using demo_used by (auto simp: demo_store)
  ultimately show ?thesis by (simp add: free_cnt_def card_image)
qed

text \<open>A file of 124 sectors: the sectors 4 to 126, and sector 129 through the index block in sector 128.\<close>

definition large :: inode_disk where
  "large = \<lparr>dlength = 124 * 512, magic = INODE_MAGIC, is_dir = 0, dblock = map of_nat [4..<127] @ [128, - 1]\<rparr>"

definition large_disk :: "block_sector_t \<Rightarrow> bytes" where
  "large_disk = blank(128 := bytes_of (129 # replicate 127 (- 1)))"

lemma large_fields:
  "length (dblock large) = 125" "dlength large = 63488" "dblock large ! 123 = 128" "dblock large ! 124 = - 1"
  "k < 123 \<Longrightarrow> dblock large ! k = of_nat (k + 4)" "bytes_to_sectors (dlength large) = 124"
  by (simp_all add: large_def nth_append bytes_to_sectors_def add.commute del: upt_rec_numeral)

lemma large_lookup:
  "lookup_sector (sectors (demo large large_disk)) 256 large k =
     (if k < 123 then Some (of_nat (k + 4)) else if k = 123 then Some 129 else if k < 16635 then Some (- 1) else None)"
proof -
  have "sectors (demo large large_disk) 128 = bytes_of (129 # replicate 127 (- 1))"
    by (simp add: demo_store large_disk_def)
  then have w: "words_of (sectors (demo large large_disk) 128) = 129 # replicate 127 (- 1)"
    by (simp only: words_of_bytes_of)
  consider "k < 123" | "k = 123" | "123 < k" "k < 251" | "251 \<le> k" by linarith
  then show ?thesis by cases (simp_all add: lookup_sector_def large_fields w nth_Cons')
qed

lemma of_nat_sector: "k < 256 \<Longrightarrow> unat (of_nat k :: u32) = k"
  by (simp add: unat_of_nat take_bit_nat_eq_self)

lemma large_data_sector:
  "k < 124 \<Longrightarrow> unat (data_sector (sectors (demo large large_disk)) 256 large k) = (if k < 123 then k + 4 else 129)"
  using of_nat_sector [of "k + 4"] by (auto simp: data_sector_def large_lookup)

lemma demo_large:
  "map_file (demo large large_disk) map_handle map_inode" "open_file (demo large large_disk) 1 (demo_inode large)"
  "layout_ok (sectors (demo large large_disk)) (device_size (demo large large_disk)) 3 large"
proof -
  let ?s = "demo large large_disk"
  have l: "length (dblock large) = 125" "- 2147483648 \<le> dlength large" "dlength large < 2147483648" "\<And>x. length (large_disk x) = 512"
    by (simp_all add: large_fields large_disk_def blank_def)
  note b = demo_beside_map [OF l]
  show mf: "map_file ?s map_handle map_inode" using b(1) by (simp add: beside_map_def)
  have "mapped (sectors ?s) 256 large k" if "k < 124" for k
    using that of_nat_sector [of "k + 4"]
    by (auto simp: mapped_def large_lookup word_less_nat_alt unat_eq_0 [symmetric])
  then have "file_ok (sectors ?s) 256 large" unfolding file_ok_def large_fields(6) by (simp add: large_lookup large_fields)
  moreover have "\<forall>x < device_size ?s. length (sectors ?s x) = 512"
    using open_fileD(5) map_fileD(2) [OF mf] by blast
  ultimately show "open_file ?s 1 (demo_inode large)"
    using b(2) unfolding open_file_def by (simp add: demo_store demo_state demo_inode_def)
  have "inj_on (data_sector (sectors ?s) 256 large) {..<124}"
  proof (rule inj_onI)
    fix j k assume "j \<in> {..<124}" "k \<in> {..<124}" "data_sector (sectors ?s) 256 large j = data_sector (sectors ?s) 256 large k"
    then have "(if j < 123 then j + 4 else 129) = (if k < 123 then k + 4 else 129)" "j < 124" "k < 124"
      using large_data_sector [of j] large_data_sector [of k] by simp_all
    then show "j = k" by (simp split: if_splits)
  qed
  moreover have "data_sector (sectors ?s) 256 large k \<noteq> 3 \<and> data_sector (sectors ?s) 256 large k \<noteq> 128" if "k < 124" for k
  proof -
    have "unat (data_sector (sectors ?s) 256 large k) \<noteq> 3 \<and> unat (data_sector (sectors ?s) 256 large k) \<noteq> 128"
      using large_data_sector [OF that] by simp
    then show ?thesis by (elim conjE, intro conjI notI) simp_all
  qed
  moreover have "index_sectors (sectors ?s) large = {128}" by (auto simp: index_sectors_def large_fields)
  ultimately show "layout_ok (sectors ?s) (device_size ?s) 3 large"
    unfolding layout_ok_def data_sectors_def large_fields(6) demo_store(3) by auto
qed

end
