(* ===== verification/File_Props.thy ===== *)
theory File_Props
  imports Fs_Example
begin

text \<open>Properties of open files: reading back what was written, and what happens to holes.\<close>

lemma patch_zeros_read:
  "take c (drop k zeros) = replicate c 0" if "k + c \<le> 512"
  using that by (simp add: zeros_def min_def)

lemma chunk_size_whole: "offset mod 512 + sz \<le> 512 \<Longrightarrow> offset + sz \<le> len \<Longrightarrow> chunk_size len offset sz = sz"
  by (auto simp: chunk_size_def Let_def)

text \<open>A write into one sector of a file that is a hole, and a read of such a sector.\<close>

lemma hole_written:
  assumes b: "beside_map s f mnd i nd" and sync: "idata nd = disk_inode s nd"
    and k: "k < 123" "dblock (idata nd) ! k = 0"
    and off: "nat (offset div 512) = k" "0 \<le> offset" "0 < sz" "offset mod 512 + sz \<le> 512" "offset + sz \<le> dlength (idata nd)"
    and bs: "nat sz \<le> length bs" and free: "\<exists>x < device_size s. \<not> used s x"
  obtains x s' where "inode_write_at (free_map_write (Suc depth)) i (\<lambda>_. bs) sz offset s = Some (sz, s')"
    "x < device_size s" "\<And>y. used s' y \<longleftrightarrow> used s y \<or> y = x"
    "beside_map s' f mnd i nd" "disk_inode s' nd = idata nd" "device_size s' = device_size s" "owned s' mnd = owned s mnd"
proof -
  let ?wm = "free_map_write (Suc depth)" and ?len = "dlength (idata nd)"
  note bD = beside_mapD [OF b]
  obtain x s1 where s1: "byte_to_sector ?wm i offset s = Some (x, s1)"
    "x < device_size s" "\<not> used s x" "\<And>y. used s1 y \<longleftrightarrow> used s y \<or> y = x"
    "beside_map s1 f mnd i nd" "owned s1 mnd = owned s mnd" "inodes s1 = inodes s" "device_size s1 = device_size s"
    "sectors s1 x = zeros"
    using fill_hole [OF b off(1) [symmetric] k(1) k(2) [unfolded sync] free] by metis
  note b1 = beside_mapD [OF s1(5)]
  have stw: "sector_to_write ?wm i offset s = Some (Some x, s1)"
    using s1(1,2) sector_not_error [of x] by (simp add: sector_to_write_def)
  have il: "inode_length i s1 = Some ?len" using b1(3) by (simp add: inode_length_def)
  have c: "chunk_size ?len offset sz = sz" using off(4,5) by (rule chunk_size_whole)
  have x1: "x < device_size s1" "length (sectors s1 x) = 512" using s1(2,8,9) by simp_all
  have las: "length (take (nat sz) (drop (nat 0) bs)) = nat sz" using bs by simp
  have "sz \<le> 512 - offset mod 512" using off(4) by simp
  from inode_write_chunk [OF stw il b1(11,12) x1 off(2,3) steady_const, where w = 0 and b = False, unfolded c, OF off(3) this las]
  obtain s2 b' where s2: "inode_write_loop ?wm i (\<lambda>_. bs) sz offset False 0 s =
      inode_write_loop ?wm i (\<lambda>_. bs) (sz - sz) (offset + sz) b' (0 + sz) s2"
    "stored s1 ((sectors s1)(x := patch (sectors s1 x) (nat (offset mod 512)) (take (nat sz) (drop (nat 0) bs)))) s2" .
  note st2 = stored_fields [OF s2(2)]
  have loop: "inode_write_loop ?wm i (\<lambda>_. bs) sz offset False 0 s = Some (sz, s2)"
    unfolding s2(1) by (subst inode_write_loop.simps) simp
  have nd2: "inodes s2 i = Some nd" "isector nd < device_size s2" using st2(1,10) b1(3,4) by simp_all
  obtain s3 where s3: "do { s \<leftarrow> inode_lock i s2; s \<leftarrow> write_inode i s; inode_unlock i s } = Some s3"
    "stored s2 ((sectors s2)(isector nd := bytes_of_inode (idata nd))) s3"
    using write_back [OF st2(8) nd2(1) bD(6) nd2(2)] .
  note st3 = stored_fields [OF s3(2)]
  have "off_ok (offset + sz)"
    using off inode_of_bytes_fields(3) [OF bD(13) [OF bD(4)]] sync by (simp add: off_ok_def disk_inode_def)
  then have "inode_write_at ?wm i (\<lambda>_. bs) sz offset s =
      do { s \<leftarrow> inode_lock i s2; s \<leftarrow> write_inode i s; s \<leftarrow> inode_unlock i s; Some (sz, s) }"
    using bD(3,5) off loop by (simp add: inode_write_at_def inode_length_def)
  then have w: "inode_write_at ?wm i (\<lambda>_. bs) sz offset s = Some (sz, s3)"
    using s3(1) by (auto simp: bind_eq_Some_conv)
  have "length (bytes_of_inode (idata nd)) = 512" "inode_of_bytes (bytes_of_inode (idata nd)) = idata nd"
    using inode_of_bytes_fields [OF bD(13) [OF bD(4)]] sync by (simp_all add: disk_inode_def inode_of_bytes_of_inode)
  note enc = this
  have m3: "sectors s3 = (sectors s1)(x := patch zeros (nat (offset mod 512)) (take (nat sz) bs), isector nd := bytes_of_inode (idata nd))"
    using st3(9) st2(9) s1(9) by simp
  have "nat (offset mod 512) + nat sz \<le> 512" using off(3,4) pos_mod_sign [of 512 offset] by linarith
  then have "length (patch zeros (nat (offset mod 512)) (take (nat sz) bs)) = 512"
    using bs by (simp add: length_patch)
  then have len: "length (sectors s3 y) = length (sectors s1 y)" for y
    using m3 enc(1) x1(2) b1(13) [OF b1(4)] by simp
  have same: "sectors s3 y = sectors s1 y" if "y \<in> owned s1 mnd" for y
    using that m3 b1(7) bD(10) [of y] s1(3,6) by auto
  have in3: "inodes s3 = (inodes s1)(i := Some nd)" using st3(1) st2(1) b1(3) by (simp add: fun_upd_idem)
  have fr: "device_size s3 = device_size s1" "allocs s3 = allocs s1" "free_map_file s3 = free_map_file s1" "free_map s3 = free_map s1"
    using st3 st2 by simp_all
  note bs3 = beside_map_frame [OF s1(5) st3(8) fr(1,2) in3 fr(3,4) refl refl refl same len]
  show ?thesis
  proof (rule that [OF w s1(2) _ bs3(1)])
    show "disk_inode s3 nd = idata nd" using m3 enc(2) by (simp add: disk_inode_def)
    show "used s3 y \<longleftrightarrow> used s y \<or> y = x" for y using s1(4) fr(4) by (simp add: used_def)
  qed (use bs3(2) s1(6,8) fr(1) in simp_all)
qed

lemma hole_read:
  assumes b: "beside_map s f mnd i nd" and sync: "disk_inode s nd = idata nd"
    and k: "k < 123" "dblock (idata nd) ! k = 0"
    and off: "nat (offset div 512) = k" "0 \<le> offset" "0 < sz" "offset mod 512 + sz \<le> 512" "offset + sz \<le> dlength (idata nd)"
    and free: "\<exists>x < device_size s. \<not> used s x"
  shows "\<exists>s'. inode_read_at (free_map_write (Suc depth)) i sz offset s = Some (replicate (nat sz) 0, s')"
proof -
  let ?wm = "free_map_write (Suc depth)" and ?len = "dlength (idata nd)"
  obtain x s1 where s1: "byte_to_sector ?wm i offset s = Some (x, s1)" "x < device_size s"
    "beside_map s1 f mnd i nd" "device_size s1 = device_size s" "sectors s1 x = zeros"
    using fill_hole [OF b off(1) [symmetric] k(1) k(2) [folded sync] free] by metis
  note b1 = beside_mapD [OF s1(3)]
  have il: "inode_length i s1 = Some ?len" using b1(3) by (simp add: inode_length_def)
  have c: "chunk_size ?len offset sz = sz" using off(4,5) by (rule chunk_size_whole)
  have "x < device_size s1" using s1(2,4) by simp
  from read_step [OF b1(11) this] obtain s2 where s2: "cache_block_read x s1 = Some (zeros, s2)"
    using s1(5) by metis
  have "nat (offset mod 512) + nat sz \<le> 512" using off(3,4) pos_mod_sign [of 512 offset] by linarith
  then have "take (nat sz) (drop (nat (offset mod 512)) zeros) = replicate (nat sz) 0" by (rule patch_zeros_read)
  moreover have "inode_read_loop ?wm i 0 (offset + sz) bo buf s2 = Some (buf, s2)" for bo buf
    by (subst inode_read_loop.simps) simp
  moreover have "zeros = replicate (nat sz) 0" if "sz = 512" using that by (simp add: zeros_def)
  ultimately show ?thesis
    using off s1(1,2) sector_not_error [OF s1(2)] il c s2 b1(12)
    unfolding inode_read_at_def by (subst inode_read_loop.simps) (auto simp: Let_def)
qed

section \<open>Reading and writing\<close>

text \<open>
  C13: In a file without holes, \<open>inode_read_at\<close> at any offset up to the largest file size returns
  exactly the bytes of the file there, cut at its end; \<open>inode_write_at\<close> inside the file returns
  the number of bytes asked for, replaces exactly those bytes, and changes no other sector of
  the device; reading them back returns what was written.
\<close>

theorem file_read_write:
  assumes "open_file s i nd" "layout_ok (sectors s) (device_size s) (isector nd) (idata nd)"
    and "deny_write_cnt nd = 0" "\<not> lock_inode nd"
    and "0 \<le> offset" "0 \<le> sz" "offset + sz \<le> dlength (idata nd)" "length bs = nat sz"
    and "0 \<le> at" "at < 16635 * 512"
  shows "\<exists>s' s1 s2.
     inode_read_at wm i n at s = Some (take (nat n) (drop (nat at) (contents_of s nd)), s1)
     \<and> inode_write_at wm i (\<lambda>_. bs) sz offset s = Some (sz, s')
     \<and> contents_of s' nd = patch (contents_of s nd) (nat offset) bs
     \<and> (\<forall>x. x \<notin> data_sectors (sectors s) (device_size s) (idata nd) \<longrightarrow> sectors s' x = sectors s x)
     \<and> inode_read_at wm i sz offset s' = Some (bs, s2)"
proof -
  note fD = open_fileD [OF assms(1)]
  obtain s1 where r: "inode_read_at wm i n at s = Some (take (nat n) (drop (nat at) (contents_of s nd)), s1)"
    using inode_read_loop_ok [OF assms(1,9,10), of wm n False "[]"] by (auto simp: inode_read_at_def)
  obtain m' s' where w: "inode_write_at wm i (\<lambda>_. bs) sz offset s = Some (sz, s')" "stored s m' s'"
    "overwritten (sectors s) (device_size s) (idata nd) (nat offset) (take (nat sz) bs) m'"
    using inode_write_at_ok [OF assms(1,2,5,6,7) steady_const _ assms(3,4), of bs wm] assms(8) by auto
  note f' = open_file_overwritten [OF assms(1,2) w(3,2)]
  have c: "contents_of s' nd = patch (contents_of s nd) (nat offset) bs" using f'(3) assms(8) by simp
  have "offset < 16635 * 512" using fD(9) assms(6,7) by simp
  from inode_read_loop_ok [OF f'(1) assms(5) this, of wm sz False "[]"] obtain s2 where
    "inode_read_at wm i sz offset s' = Some (take (nat sz) (drop (nat offset) (contents_of s' nd)), s2)"
    by (auto simp: inode_read_at_def)
  moreover have "nat offset + nat sz \<le> length (contents_of s nd)" using assms(5-7) by (simp add: contents_of_def)
  then have "take (nat sz) (drop (nat offset) (contents_of s' nd)) = bs" using assms(8) by (simp add: c patch_def)
  ultimately show ?thesis using r w c stored_fields(9) [OF w(2)] by (auto simp: overwritten_def)
qed

theorem file_read_write_witness:
  "\<exists>s' s2. inode_write_at (\<lambda>_. None) 1 (\<lambda>_. [7, 8, 9]) 3 510 (demo two_sectors blank) = Some (3, s')
     \<and> inode_read_at (\<lambda>_. None) 1 3 510 s' = Some ([7, 8, 9], s2)"
proof -
  have "deny_write_cnt (demo_inode two_sectors) = 0" "\<not> lock_inode (demo_inode two_sectors)"
    "isector (demo_inode two_sectors) = 3" "idata (demo_inode two_sectors) = two_sectors" "dlength two_sectors = 600"
    by (simp_all add: demo_inode_def two_sectors_def)
  then show ?thesis
    using file_read_write [OF demo_open_file(1), of 510 3 "[7, 8, 9]" 0 "\<lambda>_. None" 0] demo_open_file(2) by auto
qed

text \<open>
  C14: Writing at or before the end of a file and beyond it, within the sectors that the inode
  maps directly and with enough free sectors left, writes everything: the file afterwards
  consists of its bytes up to the offset followed by the bytes written, has the new length, and
  is again in the state from which it can grow. All other inodes, and every used sector that is
  neither the file's nor part of the free map, keep their contents; one nested write of the free
  map is enough.
\<close>

theorem file_append:
  assumes "growing s f mnd i nd K" "bytes_to_sectors (dlength (idata nd)) = K" "0 \<le> dlength (idata nd)"
    and "0 \<le> offset" "offset \<le> dlength (idata nd)" "dlength (idata nd) < offset + sz" "offset + sz \<le> 123 * 512"
    and "bytes_to_sectors (offset + sz) \<le> K + free_cnt s" "length bs = nat sz"
  shows "\<exists>s' nd'. inode_write_at (free_map_write (Suc depth)) i (\<lambda>_. bs) sz offset s = Some (sz, s')
    \<and> growing s' f mnd i nd' (bytes_to_sectors (offset + sz)) \<and> dlength (idata nd') = offset + sz
    \<and> contents_of s' nd' = take (nat offset) (contents_of s nd) @ bs
    \<and> (\<forall>j. j \<noteq> i \<longrightarrow> inodes s' j = inodes s j)
    \<and> (\<forall>y. used s y \<and> y \<notin> owned s nd \<and> y \<notin> map_sectors s mnd \<longrightarrow> sectors s' y = sectors s y \<and> used s' y)"
proof -
  from inode_append [OF assms, of depth] obtain s' nd' where s':
    "inode_write_at (free_map_write (Suc depth)) i (\<lambda>_. bs) sz offset s = Some (sz, s')"
    "growing s' f mnd i nd' (bytes_to_sectors (offset + sz))" "dlength (idata nd') = offset + sz"
    "contents_of s' nd' = take (nat offset) (contents_of s nd) @ bs"
    "only_grew s mnd i nd K s' (nd'\<lparr>idata := (idata nd')\<lparr>dlength := dlength (idata nd)\<rparr>\<rparr>)"
    by blast
  note og = only_grewD [OF s'(5)]
  have "sectors s' y = sectors s y" if "used s y" "y \<notin> owned s nd" "y \<notin> map_sectors s mnd" for y
    using that growing_file(3) [OF assms(1,3,2)] by (intro og(3)) auto
  then show ?thesis using s'(1-4) og(1,2) by blast
qed

theorem file_append_witness:
  "\<exists>s' nd'. inode_write_at (free_map_write 1) 1 (\<lambda>_. replicate 1000 7) 1000 600 (demo two_sectors blank) = Some (1000, s')
     \<and> contents_of s' nd' = take 600 (contents_of (demo two_sectors blank) (demo_inode two_sectors)) @ replicate 1000 7"
proof -
  have "idata (demo_inode two_sectors) = two_sectors" "dlength two_sectors = 600"
    by (simp_all add: demo_inode_def two_sectors_def)
  moreover have "bytes_to_sectors 1600 = 4" by (simp add: bytes_to_sectors_def)
  ultimately show ?thesis
    using file_append [OF demo_growing(1), of 600 1000 "replicate 1000 7" 0] demo_growing(2) demo_free [of two_sectors blank]
    by auto
qed

text \<open>
  C37: Bytes written into a hole are lost. When the sector that holds the offset is only marked
  in the inode, as after a write beyond the end of the file, \<open>inode_write_at\<close> reports success,
  but a read of the same range then returns zeros: the write-back of the in-memory inode, which
  never learned of the new sector, turns it into a hole again.
\<close>

theorem write_into_hole_lost:
  assumes "beside_map s f mnd i nd" "idata nd = disk_inode s nd" "nat (offset div 512) < 123"
    and "dblock (idata nd) ! nat (offset div 512) = 0"
    and "0 \<le> offset" "0 < sz" "offset mod 512 + sz \<le> 512" "offset + sz \<le> dlength (idata nd)"
    and "nat sz \<le> length bs" "2 \<le> free_cnt s"
  shows "\<exists>s' s''. inode_write_at (free_map_write (Suc depth)) i (\<lambda>_. bs) sz offset s = Some (sz, s')
    \<and> inode_read_at (free_map_write (Suc depth)) i sz offset s' = Some (replicate (nat sz) 0, s'')"
proof -
  have free: "\<exists>x < device_size s. \<not> used s x" using assms(10) free_cnt_pos [of s] by simp
  obtain x s' where s': "inode_write_at (free_map_write (Suc depth)) i (\<lambda>_. bs) sz offset s = Some (sz, s')"
    "x < device_size s" "\<And>y. used s' y \<longleftrightarrow> used s y \<or> y = x"
    "beside_map s' f mnd i nd" "disk_inode s' nd = idata nd" "device_size s' = device_size s"
    using hole_written [OF assms(1,2,3,4) refl assms(5-9) free] by metis
  have "free_cnt s \<le> Suc (free_cnt s')"
  proof -
    have "{y. y < device_size s \<and> \<not> used s y} \<subseteq> insert x {y. y < device_size s' \<and> \<not> used s' y}" using s'(3,6) by auto
    then have "card {y. y < device_size s \<and> \<not> used s y} \<le> card (insert x {y. y < device_size s' \<and> \<not> used s' y})"
      by (intro card_mono) simp_all
    then show ?thesis unfolding free_cnt_def by (rule order_trans) (simp add: card_insert_le_m1 card_insert_if)
  qed
  then have "\<exists>x < device_size s'. \<not> used s' x" using assms(10) free_cnt_pos [of s'] by simp
  from hole_read [OF s'(4,5) assms(3,4) refl assms(5-8) this] s'(1) show ?thesis by blast
qed

definition sparse :: inode_disk where
  "sparse = \<lparr>dlength = 600, magic = INODE_MAGIC, is_dir = 0, dblock = 0 # 0 # replicate 123 (- 1)\<rparr>"

theorem write_into_hole_lost_witness:
  "\<exists>s' s''. inode_write_at (free_map_write 1) 1 (\<lambda>_. [7, 8, 9]) 3 20 (demo sparse blank) = Some (3, s')
     \<and> inode_read_at (free_map_write 1) 1 3 20 s' = Some ([0, 0, 0], s'')"
proof -
  have sp: "length (dblock sparse) = 125" "- 2147483648 \<le> dlength sparse" "dlength sparse < 2147483648"
    "dblock sparse ! 0 = 0" "dlength sparse = 600"
    by (simp_all add: sparse_def)
  have i: "idata (demo_inode sparse) = sparse" by (simp add: demo_inode_def)
  note b = demo_beside_map [OF sp(1-3), of blank]
  show ?thesis
    using write_into_hole_lost [OF b(1), of 20 3 "[7, 8, 9]" 0] b(2) sp i demo_free [of sparse blank]
    by (simp add: blank_def numeral_3_eq_3)
qed

section \<open>Removal\<close>

text \<open>
  C23: Removing a file whose sectors the inode maps directly marks exactly the sector of the inode
  and the sectors of the file as free, and leaves the contents of every sector outside the free
  map alone.
\<close>

theorem inode_release_exact:
  assumes "growing s f mnd i nd K" "bytes_to_sectors (dlength (idata nd)) = K" "0 \<le> dlength (idata nd)"
  shows "\<exists>s'. inode_release (free_map_write (Suc depth)) i s = Some s'
    \<and> (\<forall>y. used s' y \<longleftrightarrow> used s y \<and> y \<notin> owned s nd)
    \<and> (\<forall>y. y \<notin> map_sectors s mnd \<longrightarrow> sectors s' y = sectors s y)"
  using inode_release_direct [OF assms] by blast

theorem inode_release_exact_witness:
  "\<exists>s'. inode_release (free_map_write 1) 1 (demo two_sectors blank) = Some s'
     \<and> \<not> used s' 3 \<and> \<not> used s' 4 \<and> \<not> used s' 5 \<and> used s' 2"
proof -
  have i: "idata (demo_inode two_sectors) = two_sectors" "isector (demo_inode two_sectors) = 3" "0 \<le> dlength two_sectors"
    "dblock two_sectors = 4 # 5 # replicate 123 (- 1)"
    by (simp_all add: demo_inode_def two_sectors_def)
  have "owned (demo two_sectors blank) (demo_inode two_sectors) = {3, 4, 5}"
    using growing_file(3) [OF demo_growing(1)] demo_growing(2) i by (simp add: numeral_2_eq_2 lessThan_Suc insert_commute)
  moreover have "used (demo two_sectors blank) 2" by (simp add: demo_used)
  ultimately show ?thesis
    using inode_release_exact [OF demo_growing(1), of 0] demo_growing(2) i by auto
qed

text \<open>
  C39: A file of 124 to 246 sectors cannot be removed: releasing its sectors stops the kernel at
  a failed assertion. The loop over the indirect sectors uses the number of the sector within the
  file as an index into the index block, and the first slot it looks at, number 123, is one that
  a file of this size does not use: it holds \<open>BLOCK_ERROR\<close>, which is not a sector that the free map
  could release. About larger files nothing is said here: the same loop reads behind the end of
  the index block once the file has more than 250 sectors.
\<close>

theorem inode_release_large_panics:
  assumes "map_file s f mnd" "open_file s i nd"
    and "123 < bytes_to_sectors (dlength (idata nd))" "bytes_to_sectors (dlength (idata nd)) \<le> 246"
    and "dblock (idata nd) ! 123 \<notin> map_sectors s mnd"
  shows "slot (Some (words_of (sectors s (dblock (idata nd) ! 123)))) 123 = Some BLOCK_ERROR
    \<and> inode_release (free_map_write (Suc depth)) i s = None"
  using inode_release_large [OF assms] by blast

theorem inode_release_large_panics_witness:
  "open_file (demo large large_disk) 1 (demo_inode large)
     \<and> inode_release (free_map_write 1) 1 (demo large large_disk) = None"
proof -
  have i: "idata (demo_inode large) = large" by (simp add: demo_inode_def)
  have "map_sectors (demo large large_disk) map_inode = {2}" by (simp add: map_inode_def map_disk_sectors)
  then show ?thesis using inode_release_large_panics [OF demo_large(1,2), of 0] demo_large(2) i large_fields by simp
qed

end
