(* ===== verification/Directory.thy ===== *)
theory Directory
  imports Inode
begin

text \<open>
  Directories and file handles (\<open>filesys/directory.c\<close>, \<open>filesys/file.c\<close>, the file of
  \<open>filesys/free-map.c\<close>): the code.

  A directory is a file of entries of 20 bytes. Names are lists of characters without their
  terminator. A handle (\<open>struct dir\<close>, \<open>struct file\<close>) is a value: an operation that moves its
  position returns the new one. The argument \<open>junk\<close> of the operations that add an entry is what
  the stack holds where the entry is put; it ends up behind the terminator of a short name if
  the directory has no entry at all.
\<close>

abbreviation (input) NAME_MAX :: nat where "NAME_MAX \<equiv> 14"
abbreviation (input) ENTRY_SIZE :: nat where "ENTRY_SIZE \<equiv> 20"
abbreviation (input) DOT :: bytes where "DOT \<equiv> [46]"
abbreviation (input) DOTDOT :: bytes where "DOTDOT \<equiv> [46, 46]"
abbreviation (input) SLASH :: bytes where "SLASH \<equiv> [47]"

section \<open>Entries\<close>

record dir_entry =
  inode_sector :: block_sector_t
  ename :: bytes
  in_use :: bool

definition entry_of_bytes :: "bytes \<Rightarrow> dir_entry" where
  "entry_of_bytes d =
     \<lparr>inode_sector = word_of_bytes (d ! 0) (d ! 1) (d ! 2) (d ! 3), ename = take 15 (drop 4 d), in_use = d ! 19 \<noteq> 0\<rparr>"

definition bytes_of_entry :: "dir_entry \<Rightarrow> bytes" where
  "bytes_of_entry e = bytes_of_word (inode_sector e) @ ename e @ [if in_use e then 1 else 0]"

text \<open>Whether a name equals the string in an array; \<open>None\<close> if the comparison leaves the array.\<close>

fun str_eq :: "bytes \<Rightarrow> bytes \<Rightarrow> bool option" where
  "str_eq name [] = None"
| "str_eq [] (b # bs) = Some (b = 0)"
| "str_eq (a # as) (b # bs) = (if a = b then str_eq as bs else Some False)"

definition string_in :: "bytes \<Rightarrow> bytes option" where
  "string_in bs = (if 0 \<in> set bs then Some (takeWhile (\<lambda>b. b \<noteq> 0) bs) else None)"

definition put_name :: "bytes \<Rightarrow> bytes \<Rightarrow> bytes" where
  "put_name name old = name @ [0] @ drop (length name + 1) old"

text \<open>An entry that is in use and is neither of the two names that every directory has.\<close>

definition real_entry :: "dir_entry \<Rightarrow> bool option" where
  "real_entry e =
     (if in_use e then do {
        dot \<leftarrow> str_eq DOT (ename e);
        if dot then Some False
        else do { dotdot \<leftarrow> str_eq DOTDOT (ename e); Some (\<not> dotdot) } }
      else Some False)"

section \<open>Opening and closing directories\<close>

definition dir_open :: "write_map \<Rightarrow> nat option \<Rightarrow> fs \<Rightarrow> (dir option \<times> fs) option" where
  "dir_open wm io s = do {
     let (a, s) = kalloc s;
     case io of
       Some i \<Rightarrow>
         if a then Some (Some \<lparr>dinode = i, dpos = 0\<rparr>, s)
         else do { s \<leftarrow> inode_close wm (Some i) s; Some (None, s) }
     | None \<Rightarrow> Some (None, s) }"

definition dir_open_root :: "write_map \<Rightarrow> fs \<Rightarrow> (dir option \<times> fs) option" where
  "dir_open_root wm s = do {
     (io, s) \<leftarrow> inode_open ROOT_DIR_SECTOR s;
     dir_open wm io s }"

definition dir_reopen :: "write_map \<Rightarrow> dir option \<Rightarrow> fs \<Rightarrow> (dir option \<times> fs) option" where
  "dir_reopen wm d s = do {
     d \<leftarrow> d;
     dir_open wm (Some (dinode d)) (inode_reopen (Some (dinode d)) s) }"

definition dir_close :: "write_map \<Rightarrow> dir option \<Rightarrow> fs \<Rightarrow> fs option" where
  "dir_close wm d s = (case d of Some d \<Rightarrow> inode_close wm (Some (dinode d)) s | None \<Rightarrow> Some s)"

definition dir_get_inode :: "dir option \<Rightarrow> nat option" where
  "dir_get_inode d = map_option dinode d"

section \<open>Searching\<close>

partial_function (option) lookup_loop ::
  "write_map \<Rightarrow> nat \<Rightarrow> bytes \<Rightarrow> int \<Rightarrow> fs \<Rightarrow> ((dir_entry \<times> int) option \<times> fs) option" where
  "lookup_loop wm i name ofs s = do {
     (d, s) \<leftarrow> inode_read_at wm i 20 ofs s;
     if length d = ENTRY_SIZE then do {
       let e = entry_of_bytes d;
       found \<leftarrow> (if in_use e then str_eq name (ename e) else Some False);
       if found then Some (Some (e, ofs), s) else lookup_loop wm i name (ofs + 20) s }
     else Some (None, s) }"

definition lookup :: "write_map \<Rightarrow> dir option \<Rightarrow> bytes \<Rightarrow> fs \<Rightarrow> ((dir_entry \<times> int) option \<times> fs) option" where
  "lookup wm d name s = do { d \<leftarrow> d; lookup_loop wm (dinode d) name 0 s }"

definition dir_lookup :: "write_map \<Rightarrow> dir option \<Rightarrow> bytes \<Rightarrow> fs \<Rightarrow> (nat option \<times> fs) option" where
  "dir_lookup wm d name s = do {
     (r, s) \<leftarrow> lookup wm d name s;
     case r of Some (e, ofs) \<Rightarrow> inode_open (inode_sector e) s | None \<Rightarrow> Some (None, s) }"

section \<open>Adding and removing entries\<close>

text \<open>
  The search for a free slot keeps the entry it read last, over which a short read at the end
  of the file lays what it got.
\<close>

partial_function (option) free_slot_loop ::
  "write_map \<Rightarrow> nat \<Rightarrow> bytes \<Rightarrow> int \<Rightarrow> fs \<Rightarrow> (bytes \<times> int \<times> fs) option" where
  "free_slot_loop wm i e ofs s = do {
     (d, s) \<leftarrow> inode_read_at wm i 20 ofs s;
     let e = d @ drop (length d) e;
     if length d = ENTRY_SIZE then
       if in_use (entry_of_bytes e) then free_slot_loop wm i e (ofs + 20) s else Some (e, ofs, s)
     else Some (e, ofs, s) }"

definition dir_add ::
  "write_map \<Rightarrow> bytes \<Rightarrow> dir option \<Rightarrow> bytes \<Rightarrow> block_sector_t \<Rightarrow> fs \<Rightarrow> (bool \<times> fs) option" where
  "dir_add wm junk d name sec s = do {
     d \<leftarrow> d;
     if name = [] \<or> length name > NAME_MAX then Some (False, s)
     else do {
       (r, s) \<leftarrow> lookup wm (Some d) name s;
       if r \<noteq> None then Some (False, s)
       else do {
         (e, ofs, s) \<leftarrow> free_slot_loop wm (dinode d) junk 0 s;
         let e = \<lparr>inode_sector = sec, ename = put_name name (ename (entry_of_bytes e)), in_use = True\<rparr>;
         (n, s) \<leftarrow> inode_write_at wm (dinode d) (\<lambda>_. bytes_of_entry e) 20 ofs s;
         Some (n = 20, s) } } }"

partial_function (option) is_empty_loop :: "write_map \<Rightarrow> nat \<Rightarrow> int \<Rightarrow> fs \<Rightarrow> (bool \<times> fs) option" where
  "is_empty_loop wm i ofs s = do {
     (d, s) \<leftarrow> inode_read_at wm i 20 ofs s;
     if length d = ENTRY_SIZE then do {
       real \<leftarrow> real_entry (entry_of_bytes d);
       if real then Some (False, s) else is_empty_loop wm i (ofs + 20) s }
     else Some (True, s) }"

definition dir_is_empty :: "write_map \<Rightarrow> nat option \<Rightarrow> fs \<Rightarrow> (bool \<times> fs) option" where
  "dir_is_empty wm io s = do {
     is_d \<leftarrow> inode_is_dir io s;
     case io of
       Some i \<Rightarrow> if is_d then is_empty_loop wm i 0 s else Some (True, s)
     | None \<Rightarrow> Some (True, s) }"

text \<open>The checks of \<open>dir_remove\<close> on the inode it is about to remove.\<close>

definition may_remove :: "write_map \<Rightarrow> nat \<Rightarrow> fs \<Rightarrow> (bool \<times> fs) option" where
  "may_remove wm j s = do {
     cd \<leftarrow> cur_dir s;
     if j = dinode cd then Some (False, s)
     else do {
       is_d \<leftarrow> inode_is_dir (Some j) s;
       (empty, s) \<leftarrow> (if is_d then dir_is_empty wm (Some j) s else Some (True, s));
       if \<not> empty then Some (False, s)
       else do {
         cnt \<leftarrow> inode_open_cnt j s;
         Some (\<not> (is_d \<and> cnt > 1), s) } } }"

definition dir_remove :: "write_map \<Rightarrow> dir option \<Rightarrow> bytes \<Rightarrow> fs \<Rightarrow> (bool \<times> fs) option" where
  "dir_remove wm d name s = do {
     d \<leftarrow> d;
     (r, s) \<leftarrow> lookup wm (Some d) name s;
     case r of
       None \<Rightarrow> Some (False, s)
     | Some (e, ofs) \<Rightarrow> do {
         (io, s) \<leftarrow> inode_open (inode_sector e) s;
         case io of
           None \<Rightarrow> Some (False, s)
         | Some j \<Rightarrow> do {
             (ok, s) \<leftarrow> may_remove wm j s;
             (success, s) \<leftarrow>
               (if ok then do {
                  (n, s) \<leftarrow> inode_write_at wm (dinode d) (\<lambda>_. bytes_of_entry (e\<lparr>in_use := False\<rparr>)) 20 ofs s;
                  if n \<noteq> 20 then Some (False, s)
                  else do { s \<leftarrow> inode_remove j s; Some (True, s) } }
                else Some (False, s));
             s \<leftarrow> inode_close wm (Some j) s;
             Some (success, s) } } }"

section \<open>Listing\<close>

partial_function (option) dir_readdir :: "write_map \<Rightarrow> dir \<Rightarrow> fs \<Rightarrow> (bytes option \<times> dir \<times> fs) option" where
  "dir_readdir wm d s = do {
     (b, s) \<leftarrow> inode_read_at wm (dinode d) 20 (dpos d) s;
     if length b = ENTRY_SIZE then do {
       let d = d\<lparr>dpos := dpos d + 20\<rparr>;
       let e = entry_of_bytes b;
       if in_use e then do { name \<leftarrow> string_in (ename e); Some (Some name, d, s) }
       else dir_readdir wm d s }
     else Some (None, d, s) }"

partial_function (option) dir_listdir :: "write_map \<Rightarrow> dir \<Rightarrow> fs \<Rightarrow> (bytes option \<times> dir \<times> fs) option" where
  "dir_listdir wm d s = do {
     (b, s) \<leftarrow> inode_read_at wm (dinode d) 20 (dpos d) s;
     if length b = ENTRY_SIZE then do {
       let d = d\<lparr>dpos := dpos d + 20\<rparr>;
       let e = entry_of_bytes b;
       real \<leftarrow> real_entry e;
       if real then do { name \<leftarrow> string_in (ename e); Some (Some name, d, s) }
       else dir_listdir wm d s }
     else Some (None, d, s) }"

partial_function (option) entry_name_loop ::
  "write_map \<Rightarrow> nat \<Rightarrow> block_sector_t \<Rightarrow> int \<Rightarrow> fs \<Rightarrow> (bytes option \<times> fs) option" where
  "entry_name_loop wm i sec ofs s = do {
     (b, s) \<leftarrow> inode_read_at wm i 20 ofs s;
     if length b = ENTRY_SIZE then do {
       let e = entry_of_bytes b;
       real \<leftarrow> (if inode_sector e = sec then real_entry e else Some False);
       if real then do { name \<leftarrow> string_in (ename e); Some (Some name, s) }
       else entry_name_loop wm i sec (ofs + 20) s }
     else Some (None, s) }"

definition dir_entry_name :: "write_map \<Rightarrow> dir \<Rightarrow> nat \<Rightarrow> fs \<Rightarrow> (bytes option \<times> fs) option" where
  "dir_entry_name wm d j s = do {
     sec \<leftarrow> inode_get_inumber j s;
     entry_name_loop wm (dinode d) sec 0 s }"

definition dir_create ::
  "write_map \<Rightarrow> bytes \<Rightarrow> block_sector_t \<Rightarrow> nat \<Rightarrow> fs \<Rightarrow> (bool \<times> fs) option" where
  "dir_create wm junk sec entry_cnt s = do {
     let entry_cnt = (if entry_cnt < 2 then entry_cnt + 2 else entry_cnt);
     (created, s) \<leftarrow> inode_create wm sec (int entry_cnt * 20) True s;
     if \<not> created then Some (False, s)
     else if sec = ROOT_DIR_SECTOR then do {
       (io, s) \<leftarrow> inode_open sec s;
       (wd, s) \<leftarrow> dir_open wm io s;
       (a, s) \<leftarrow> dir_add wm junk wd DOT ROOT_DIR_SECTOR s;
       (b, s) \<leftarrow> (if a then dir_add wm junk wd DOTDOT ROOT_DIR_SECTOR s else Some (False, s));
       s \<leftarrow> dir_close wm wd s;
       Some (b, s) }
     else Some (True, s) }"

section \<open>File handles\<close>

definition file_open :: "write_map \<Rightarrow> nat option \<Rightarrow> fs \<Rightarrow> (file_t option \<times> fs) option" where
  "file_open wm io s = do {
     let (a, s) = kalloc s;
     case io of
       Some i \<Rightarrow>
         if a then do {
           is_d \<leftarrow> inode_is_dir io s;
           (d, s) \<leftarrow> (if is_d then dir_open wm io s else Some (None, s));
           Some (Some \<lparr>finode = i, fpos = 0, deny_write = False, fdir = d\<rparr>, s) }
         else do { s \<leftarrow> inode_close wm io s; Some (None, s) }
     | None \<Rightarrow> Some (None, s) }"

definition file_reopen :: "write_map \<Rightarrow> file_t \<Rightarrow> fs \<Rightarrow> (file_t option \<times> fs) option" where
  "file_reopen wm f s = file_open wm (Some (finode f)) (inode_reopen (Some (finode f)) s)"

definition file_deny_write :: "file_t \<Rightarrow> fs \<Rightarrow> (file_t \<times> fs) option" where
  "file_deny_write f s =
     (if \<not> deny_write f then do {
        s \<leftarrow> inode_deny_write (finode f) s;
        Some (f\<lparr>deny_write := True\<rparr>, s) }
      else Some (f, s))"

definition file_allow_write :: "file_t \<Rightarrow> fs \<Rightarrow> (file_t \<times> fs) option" where
  "file_allow_write f s =
     (if deny_write f then do {
        s \<leftarrow> inode_allow_write (finode f) s;
        Some (f\<lparr>deny_write := False\<rparr>, s) }
      else Some (f, s))"

definition file_close :: "write_map \<Rightarrow> file_t option \<Rightarrow> fs \<Rightarrow> fs option" where
  "file_close wm fo s =
     (case fo of
        Some f \<Rightarrow> do {
          (f, s) \<leftarrow> file_allow_write f s;
          inode_close wm (Some (finode f)) s }
      | None \<Rightarrow> Some s)"

definition file_get_inode :: "file_t \<Rightarrow> nat" where
  "file_get_inode f = finode f"

definition file_read :: "write_map \<Rightarrow> file_t \<Rightarrow> int \<Rightarrow> fs \<Rightarrow> (bytes \<times> file_t \<times> fs) option" where
  "file_read wm f sz s = do {
     (d, s) \<leftarrow> inode_read_at wm (finode f) sz (fpos f) s;
     Some (d, f\<lparr>fpos := fpos f + int (length d)\<rparr>, s) }"

definition file_read_at :: "write_map \<Rightarrow> file_t \<Rightarrow> int \<Rightarrow> int \<Rightarrow> fs \<Rightarrow> (bytes \<times> fs) option" where
  "file_read_at wm f sz ofs s = inode_read_at wm (finode f) sz ofs s"

definition file_write :: "write_map \<Rightarrow> file_t \<Rightarrow> bytes \<Rightarrow> int \<Rightarrow> fs \<Rightarrow> (int \<times> file_t \<times> fs) option" where
  "file_write wm f buffer sz s = do {
     (n, s) \<leftarrow> inode_write_at wm (finode f) (\<lambda>_. buffer) sz (fpos f) s;
     Some (n, f\<lparr>fpos := fpos f + n\<rparr>, s) }"

definition file_write_at :: "write_map \<Rightarrow> file_t \<Rightarrow> bytes \<Rightarrow> int \<Rightarrow> int \<Rightarrow> fs \<Rightarrow> (int \<times> fs) option" where
  "file_write_at wm f buffer sz ofs s = inode_write_at wm (finode f) (\<lambda>_. buffer) sz ofs s"

definition file_length :: "file_t option \<Rightarrow> fs \<Rightarrow> int option" where
  "file_length fo s = do { f \<leftarrow> fo; inode_length (finode f) s }"

definition file_seek :: "file_t option \<Rightarrow> int \<Rightarrow> file_t option" where
  "file_seek fo new_pos = do { f \<leftarrow> fo; kassert (new_pos \<ge> 0); Some (f\<lparr>fpos := new_pos\<rparr>) }"

definition file_tell :: "file_t option \<Rightarrow> int option" where
  "file_tell fo = map_option fpos fo"

section \<open>The file of the free map\<close>

definition free_map_open :: "write_map \<Rightarrow> fs \<Rightarrow> fs option" where
  "free_map_open wm s = do {
     (io, s) \<leftarrow> inode_open FREE_MAP_SECTOR s;
     (fo, s) \<leftarrow> file_open wm io s;
     f \<leftarrow> fo;
     (success, bm, s) \<leftarrow> bitmap_read wm (free_map s) f (s\<lparr>free_map_file := Some f\<rparr>);
     kassert success;
     Some (s\<lparr>free_map := bm\<rparr>) }"

definition free_map_close :: "write_map \<Rightarrow> fs \<Rightarrow> fs option" where
  "free_map_close wm s = file_close wm (free_map_file s) s"

definition free_map_create :: "write_map \<Rightarrow> fs \<Rightarrow> fs option" where
  "free_map_create wm s = do {
     (created, s) \<leftarrow> inode_create wm FREE_MAP_SECTOR (uint (bitmap_file_size (free_map s))) False s;
     kassert created;
     (io, s) \<leftarrow> inode_open FREE_MAP_SECTOR s;
     (fo, s) \<leftarrow> file_open wm io s;
     f \<leftarrow> fo;
     (written, s) \<leftarrow> bitmap_write wm free_map f (s\<lparr>free_map_file := Some f\<rparr>);
     kassert written;
     Some s }"

end
