(* ===== verification/Directory_Spec.thy ===== *)
theory Directory_Spec
  imports Directory Inode_Grow
begin

text \<open>
  Directories as finite maps from names to sectors: the entries of a directory file, what
  searching for a name and for a free slot return, and what adding an entry does to the map.
\<close>

section \<open>Entries\<close>

lemma entry_of_bytes_of_entry:
  assumes "length (ename e) = 15"
  shows "entry_of_bytes (bytes_of_entry e) = e" "length (bytes_of_entry e) = 20"
proof -
  show "length (bytes_of_entry e) = 20" using assms by (simp add: bytes_of_entry_def bytes_of_word_def)
  show "entry_of_bytes (bytes_of_entry e) = e"
    using assms by (cases e) (simp add: entry_of_bytes_def bytes_of_entry_def bytes_of_word_def word_of_bytes_of_word nth_append)
qed

lemma str_eq_string: "0 \<notin> set name \<Longrightarrow> 0 \<in> set bs \<Longrightarrow> str_eq name bs = Some (takeWhile (\<lambda>b. b \<noteq> 0) bs = name)"
  by (induction name bs rule: str_eq.induct) auto

lemma takeWhile_put_name: "0 \<notin> set name \<Longrightarrow> takeWhile (\<lambda>b. b \<noteq> 0) (put_name name old) = name"
  by (auto simp: put_name_def takeWhile_append)

lemma length_put_name: "length name \<le> 14 \<Longrightarrow> length old = 15 \<Longrightarrow> length (put_name name old) = 15"
  by (simp add: put_name_def)

definition name_of :: "dir_entry \<Rightarrow> bytes" where
  "name_of e = takeWhile (\<lambda>b. b \<noteq> 0) (ename e)"

definition nth_entry :: "bytes \<Rightarrow> nat \<Rightarrow> dir_entry" where
  "nth_entry c k = entry_of_bytes (take 20 (drop (20 * k) c))"

definition entries :: "bytes \<Rightarrow> dir_entry list" where
  "entries c = map (nth_entry c) [0..<length c div 20]"

text \<open>Whole entries only, every name terminated, no name in use twice.\<close>

definition dir_ok :: "bytes \<Rightarrow> bool" where
  "dir_ok c \<longleftrightarrow>
     length c mod 20 = 0
     \<and> (\<forall>e \<in> set (entries c). in_use e \<longrightarrow> 0 \<in> set (ename e))
     \<and> distinct (map name_of (filter in_use (entries c)))"

definition dir_map :: "dir_entry list \<Rightarrow> bytes \<Rightarrow> block_sector_t option" where
  "dir_map es name = map_option inode_sector (find (\<lambda>e. in_use e \<and> name_of e = name) es)"

lemma length_entries [simp]: "length (entries c) = length c div 20"
  by (simp add: entries_def)

lemma nth_entries [simp]: "k < length c div 20 \<Longrightarrow> entries c ! k = nth_entry c k"
  by (simp add: entries_def)

lemma length_ename: "20 * k + 20 \<le> length c \<Longrightarrow> length (ename (nth_entry c k)) = 15"
  by (simp add: nth_entry_def entry_of_bytes_def)

text \<open>Overwriting or appending an entry updates the list of entries.\<close>

lemma entries_patch:
  assumes "k < length c div 20" "length b = 20"
  shows "entries (patch c (20 * k) b) = (entries c)[k := entry_of_bytes b]"
proof -
  have k: "20 * k + 20 \<le> length c" using assms(1) by linarith
  have len: "length (patch c (20 * k) b) = length c" using k assms(2) by (simp add: length_patch)
  have "nth_entry (patch c (20 * k) b) j = (if j = k then entry_of_bytes b else nth_entry c j)" if "20 * j + 20 \<le> length c" for j
  proof -
    consider "j = k" | "20 * j + 20 \<le> 20 * k" | "20 * k + 20 \<le> 20 * j" by linarith
    then show ?thesis
    proof cases
      case 1 then show ?thesis using k assms(2) by (simp add: nth_entry_def patch_def)
    next
      case 2
      then have "take 20 (drop (20 * j) (patch c (20 * k) b)) = take 20 (drop (20 * j) c)"
        using k by (simp add: patch_def drop_take)
      then show ?thesis using 2 by (simp add: nth_entry_def)
    next
      case 3
      then have "drop (20 * j) (patch c (20 * k) b) = drop (20 * j) c"
        using k assms(2) that by (simp add: patch_def)
      then show ?thesis using 3 by (simp add: nth_entry_def)
    qed
  qed
  then show ?thesis using len by (intro nth_equalityI) (auto simp: nth_list_update)
qed

lemma entries_append:
  assumes "length c mod 20 = 0" "length b = 20"
  shows "entries (c @ b) = entries c @ [entry_of_bytes b]"
proof -
  define n where "n = length c div 20"
  have n: "length c = 20 * n" using assms(1) by (auto simp: n_def)
  have "nth_entry (c @ b) j = nth_entry c j" if "j < n" for j
  proof -
    have "20 * j + 20 \<le> length c" using that n by linarith
    then show ?thesis by (simp add: nth_entry_def)
  qed
  moreover have "nth_entry (c @ b) n = entry_of_bytes b" using n assms(2) by (simp add: nth_entry_def)
  ultimately show ?thesis using n assms(2) by (simp add: entries_def)
qed

section \<open>Searching\<close>

lemma read_entry:
  assumes f: "open_file s i nd" and k: "k \<le> length (contents_of s nd) div 20"
  obtains s' where "inode_read_at wm i 20 (int (20 * k)) s = Some (take 20 (drop (20 * k) (contents_of s nd)), s')"
    "stored s (sectors s) s'" "open_file s' i nd" "contents_of s' nd = contents_of s nd"
proof -
  have "length (contents_of s nd) = nat (dlength (idata nd))" by (simp add: contents_of_def)
  then have "int (20 * k) < 16635 * 512" using open_fileD(8,9) [OF f] k by linarith
  from inode_read_loop_ok [OF f _ this, of wm 20 False "[]"] obtain s' where
    "inode_read_at wm i 20 (int (20 * k)) s = Some (take 20 (drop (20 * k) (contents_of s nd)), s')" "stored s (sectors s) s'"
    by (auto simp: inode_read_at_def nat_mult_distrib)
  then show ?thesis using that open_file_stored [OF f] contents_of_stored by blast
qed

text \<open>The first entry from \<open>k\<close> on with a property, and its offset.\<close>

fun first_entry :: "(dir_entry \<Rightarrow> bool) \<Rightarrow> dir_entry list \<Rightarrow> nat \<Rightarrow> (dir_entry \<times> int) option" where
  "first_entry P [] k = None"
| "first_entry P (e # es) k = (if P e then Some (e, int (20 * k)) else first_entry P es (Suc k))"

lemma first_entry_Some:
  "first_entry P es k = Some (e, ofs) \<Longrightarrow>
   \<exists>j < length es. e = es ! j \<and> ofs = int (20 * (k + j)) \<and> P e \<and> (\<forall>l < j. \<not> P (es ! l))"
proof (induction es arbitrary: k)
  case (Cons x es)
  show ?case
  proof (cases "P x")
    case True then show ?thesis using Cons.prems by auto
  next
    case False
    then obtain j where "j < length es" "e = es ! j" "ofs = int (20 * (Suc k + j))" "P e" "\<forall>l < j. \<not> P (es ! l)"
      using Cons.IH [of "Suc k"] Cons.prems by auto
    then show ?thesis using False by (intro exI [of _ "Suc j"]) (auto simp: less_Suc_eq_0_disj)
  qed
qed simp

lemma first_entry_None: "first_entry P es k = None \<longleftrightarrow> (\<forall>e \<in> set es. \<not> P e)"
  by (induction es arbitrary: k) auto

lemma first_entry_find: "map_option fst (first_entry P es k) = find P es"
  by (induction es arbitrary: k) auto

lemma drop_entries:
  assumes "k < length c div 20"
  shows "drop k (entries c) = nth_entry c k # drop (Suc k) (entries c)"
  using assms by (simp add: Cons_nth_drop_Suc [symmetric])

lemma lookup_loop_ok:
  assumes "open_file s i nd" "dir_ok (contents_of s nd)" "0 \<notin> set name" "k \<le> length (contents_of s nd) div 20"
  shows "\<exists>s'. lookup_loop wm i name (int (20 * k)) s =
      Some (first_entry (\<lambda>e. in_use e \<and> name_of e = name) (drop k (entries (contents_of s nd))) k, s')
    \<and> stored s (sectors s) s'"
  using assms
proof (induction "length (contents_of s nd) div 20 - k" arbitrary: k s)
  case 0
  let ?c = "contents_of s nd"
  obtain s' where s': "inode_read_at wm i 20 (int (20 * k)) s = Some (take 20 (drop (20 * k) ?c), s')" "stored s (sectors s) s'"
    using read_entry [OF 0(2,5)] by blast
  have k: "k = length ?c div 20" using 0 by simp
  then have "length (take 20 (drop (20 * k) ?c)) \<noteq> 20" by simp
  then show ?case using s' k by (subst lookup_loop.simps) simp
next
  case (Suc n)
  let ?c = "contents_of s nd"
  have k: "k < length ?c div 20" "20 * k + 20 \<le> length ?c" using Suc.hyps(2) by linarith+
  have ofs: "int (20 * Suc k) = int (20 * k) + 20" by simp
  obtain s' where s': "inode_read_at wm i 20 (int (20 * k)) s = Some (take 20 (drop (20 * k) ?c), s')" "stored s (sectors s) s'"
    "open_file s' i nd" "contents_of s' nd = ?c"
    using read_entry [OF Suc.prems(1,4)] by blast
  have e: "entry_of_bytes (take 20 (drop (20 * k) ?c)) = nth_entry ?c k" by (simp add: nth_entry_def)
  have "nth_entry ?c k \<in> set (entries ?c)" using k(1) nth_mem [of k "entries ?c"] by simp
  then have "str_eq name (ename (nth_entry ?c k)) = Some (name_of (nth_entry ?c k) = name)" if "in_use (nth_entry ?c k)"
    using that Suc.prems(2,3) by (simp add: dir_ok_def name_of_def str_eq_string)
  moreover have "n = length (contents_of s' nd) div 20 - Suc k" "Suc k \<le> length (contents_of s' nd) div 20"
    using s'(4) Suc.hyps(2) k(1) by simp_all
  from Suc.hyps(1) [OF this(1) s'(3) _ Suc.prems(3) this(2)] Suc.prems(2)
  obtain s2 where s2: "lookup_loop wm i name (int (20 * Suc k)) s' =
      Some (first_entry (\<lambda>e. in_use e \<and> name_of e = name) (drop (Suc k) (entries ?c)) (Suc k), s2)" "stored s' (sectors s') s2"
    unfolding s'(4) by blast
  moreover have "stored s (sectors s) s2" using stored_trans [OF s'(2) s2(2)] stored_fields(9) [OF s'(2)] by simp
  ultimately show ?case
    using s'(1,2) k(2) by (subst lookup_loop.simps) (simp add: ofs e drop_entries [OF k(1)] Let_def del: of_nat_mult mult_Suc_right)
qed

lemma lookup_ok:
  assumes "open_file s (dinode d) nd" "dir_ok (contents_of s nd)" "0 \<notin> set name"
  shows "\<exists>s'. lookup wm (Some d) name s =
      Some (first_entry (\<lambda>e. in_use e \<and> name_of e = name) (entries (contents_of s nd)) 0, s') \<and> stored s (sectors s) s'"
  using lookup_loop_ok [OF assms, of 0 wm] by (simp add: lookup_def)

text \<open>The search for a free slot ends at the first entry not in use or at the end of the file.\<close>

lemma free_slot_loop_ok:
  assumes "open_file s i nd" "length (contents_of s nd) mod 20 = 0" "k \<le> length (contents_of s nd) div 20" "length e = 20"
  shows "\<exists>j e' s'. free_slot_loop wm i e (int (20 * k)) s = Some (e', int (20 * j), s')
    \<and> stored s (sectors s) s' \<and> length e' = 20 \<and> j \<le> length (contents_of s nd) div 20
    \<and> (j < length (contents_of s nd) div 20 \<longrightarrow> \<not> in_use (nth_entry (contents_of s nd) j))"
  using assms
proof (induction "length (contents_of s nd) div 20 - k" arbitrary: k s e)
  case 0
  let ?c = "contents_of s nd"
  obtain s' where s': "inode_read_at wm i 20 (int (20 * k)) s = Some (take 20 (drop (20 * k) ?c), s')" "stored s (sectors s) s'"
    using read_entry [OF 0(2,4)] by blast
  have "k = length ?c div 20" using 0 by simp
  moreover from this have "drop (20 * k) ?c = []" using 0(3) by auto
  ultimately show ?case using s' 0(5) by (subst free_slot_loop.simps) auto
next
  case (Suc n)
  let ?c = "contents_of s nd"
  have k: "k < length ?c div 20" "20 * k + 20 \<le> length ?c" using Suc.hyps(2) by linarith+
  have ofs: "int (20 * Suc k) = int (20 * k) + 20" by simp
  obtain s' where s': "inode_read_at wm i 20 (int (20 * k)) s = Some (take 20 (drop (20 * k) ?c), s')" "stored s (sectors s) s'"
    "open_file s' i nd" "contents_of s' nd = ?c"
    using read_entry [OF Suc.prems(1,3)] by blast
  let ?e = "take 20 (drop (20 * k) ?c)"
  have len: "length ?e = 20" using k(2) by simp
  show ?case
  proof (cases "in_use (nth_entry ?c k)")
    case False
    then show ?thesis using s'(1,2) len k(1) Suc.prems(4)
      by (subst free_slot_loop.simps) (auto simp: nth_entry_def intro!: exI [of _ k])
  next
    case True
    have "n = length (contents_of s' nd) div 20 - Suc k" "Suc k \<le> length (contents_of s' nd) div 20"
      using s'(4) Suc.hyps(2) k(1) by simp_all
    from Suc.hyps(1) [OF this(1) s'(3) _ this(2) len] Suc.prems(2)
    obtain j e' s2 where "free_slot_loop wm i ?e (int (20 * Suc k)) s' = Some (e', int (20 * j), s2)"
      "stored s' (sectors s') s2" "length e' = 20" "j \<le> length ?c div 20" "j < length ?c div 20 \<longrightarrow> \<not> in_use (nth_entry ?c j)"
      unfolding s'(4) by blast
    note s2 = this
    have st: "stored s (sectors s) s2" using stored_trans [OF s'(2) s2(2)] stored_fields(9) [OF s'(2)] by simp
    have "free_slot_loop wm i e (int (20 * k)) s = Some (e', int (20 * j), s2)"
      using True s'(1) len Suc.prems(4) s2(1) by (subst free_slot_loop.simps) (simp add: ofs nth_entry_def Let_def del: of_nat_mult mult_Suc_right)
    then show ?thesis using s2 st by blast
  qed
qed

section \<open>Writing anywhere in a small file\<close>

text \<open>Everything but one file and the free map is as before.\<close>

definition others_kept :: "fs \<Rightarrow> inode \<Rightarrow> nat \<Rightarrow> inode \<Rightarrow> fs \<Rightarrow> bool" where
  "others_kept s mnd i nd s' \<longleftrightarrow>
     (\<forall>j. j \<noteq> i \<longrightarrow> inodes s' j = inodes s j)
     \<and> (\<forall>y. used s y \<and> y \<notin> owned s nd \<and> y \<notin> map_sectors s mnd \<longrightarrow> sectors s' y = sectors s y \<and> used s' y)"

definition small_file :: "fs \<Rightarrow> file_t \<Rightarrow> inode \<Rightarrow> nat \<Rightarrow> inode \<Rightarrow> bool" where
  "small_file s f mnd i nd \<longleftrightarrow>
     growing s f mnd i nd (bytes_to_sectors (dlength (idata nd))) \<and> 0 \<le> dlength (idata nd)"

lemma small_fileD:
  assumes "small_file s f mnd i nd"
  shows "open_file s i nd" "layout_ok (sectors s) (device_size s) (isector nd) (idata nd)"
    "owned s nd = insert (isector nd) ((\<lambda>k. dblock (idata nd) ! k) ` {..<bytes_to_sectors (dlength (idata nd))})"
    "owned s nd \<inter> owned s mnd = {}" "beside_map s f mnd i nd"
proof -
  have g: "growing s f mnd i nd (bytes_to_sectors (dlength (idata nd)))" "0 \<le> dlength (idata nd)"
    using assms by (simp_all add: small_file_def)
  show "open_file s i nd" "layout_ok (sectors s) (device_size s) (isector nd) (idata nd)"
    "owned s nd = insert (isector nd) ((\<lambda>k. dblock (idata nd) ! k) ` {..<bytes_to_sectors (dlength (idata nd))})"
    "owned s nd \<inter> owned s mnd = {}"
    by (rule growing_file [OF g refl])+
  show "beside_map s f mnd i nd" by (rule growingD(1) [OF g(1)])
qed

lemma growing_overwritten:
  assumes sf: "small_file s f mnd i nd"
    and ow: "overwritten (sectors s) (device_size s) (idata nd) p bs m'" and st: "stored s m' s'"
  shows "small_file s' f mnd i nd" "others_kept s mnd i nd s'" "free_cnt s' = free_cnt s"
proof -
  note sD = small_fileD [OF sf] and stD = stored_fields [OF st] and bD = beside_mapD [OF small_fileD(5) [OF sf]]
  have same: "m' y = sectors s y" if "y \<notin> owned s nd" for y
    using ow that by (auto simp: overwritten_def owned_def)
  have in': "inodes s' = (inodes s)(i := Some nd)" using stD(1) bD(3) by (simp add: fun_upd_idem)
  have sm: "sectors s' y = sectors s y" if "y \<in> owned s mnd" for y using that stD(9) same sD(4) by auto
  have len: "length (sectors s' y) = length (sectors s y)" for y using stD(9) ow by (simp add: overwritten_def)
  have fr: "beside_map s' f mnd i nd" "owned s' mnd = owned s mnd"
    using beside_map_frame [OF sD(5) stD(8,10,7) in' stD(5,4) refl refl refl] sm len by blast+
  have u: "used s' y = used s y" for y using stD(4) by (simp add: used_def)
  have di: "disk_inode s' nd = disk_inode s nd"
    using overwritten_layout(5) [OF ow sD(2)] stD(9) by (simp add: disk_inode_def)
  have "growing s f mnd i nd (bytes_to_sectors (dlength (idata nd)))" using sf by (simp add: small_file_def)
  then have "growing s' f mnd i nd (bytes_to_sectors (dlength (idata nd)))"
    using fr(1) unfolding growing_def fr(2) stD(10) u di by blast
  then show "small_file s' f mnd i nd" using sf by (simp add: small_file_def)
  show "others_kept s mnd i nd s'" using stD(1,9) same u by (simp add: others_kept_def)
  show "free_cnt s' = free_cnt s" using u stD(10) by (simp add: free_cnt_def)
qed

text \<open>A write at or before the end replaces or appends.\<close>

lemma small_file_write:
  assumes sf: "small_file s f mnd i nd" and off: "0 \<le> offset" "offset \<le> dlength (idata nd)" "offset + sz \<le> 123 * 512" "0 \<le> sz"
    and free: "bytes_to_sectors (offset + sz) \<le> bytes_to_sectors (dlength (idata nd)) + free_cnt s" and bs: "length bs = nat sz"
  shows "\<exists>s' nd'. inode_write_at (free_map_write (Suc depth)) i (\<lambda>_. bs) sz offset s = Some (sz, s')
    \<and> small_file s' f mnd i nd' \<and> others_kept s mnd i nd s'
    \<and> dlength (idata nd') = max (dlength (idata nd)) (offset + sz)
    \<and> contents_of s' nd' = patch (contents_of s nd) (nat offset) bs"
proof (cases "offset + sz \<le> dlength (idata nd)")
  case True
  note sD = small_fileD [OF sf] and bD = beside_mapD [OF small_fileD(5) [OF sf]]
  obtain m' s' where w: "inode_write_at (free_map_write (Suc depth)) i (\<lambda>_. bs) sz offset s = Some (sz, s')" "stored s m' s'"
    "overwritten (sectors s) (device_size s) (idata nd) (nat offset) (take (nat sz) bs) m'"
    using inode_write_at_ok [OF sD(1,2) off(1,4) True steady_const _ bD(5,6), of bs "free_map_write (Suc depth)"] bs by auto
  show ?thesis
    using w(1) growing_overwritten(1,2) [OF sf w(3,2)] open_file_overwritten(3) [OF sD(1,2) w(3,2)] True bs
    by (intro exI [of _ s'] exI [of _ nd]) simp
next
  case False
  have g: "growing s f mnd i nd (bytes_to_sectors (dlength (idata nd)))" "0 \<le> dlength (idata nd)"
    using sf by (simp_all add: small_file_def)
  have f: "dlength (idata nd) < offset + sz" using False by simp
  from inode_append [OF g(1) refl g(2) off(1,2) f off(3) free bs, of depth] obtain s' nd' where s':
    "inode_write_at (free_map_write (Suc depth)) i (\<lambda>_. bs) sz offset s = Some (sz, s')"
    "growing s' f mnd i nd' (bytes_to_sectors (offset + sz))" "dlength (idata nd') = offset + sz"
    "contents_of s' nd' = take (nat offset) (contents_of s nd) @ bs"
    "only_grew s mnd i nd (bytes_to_sectors (dlength (idata nd))) s' (nd'\<lparr>idata := (idata nd')\<lparr>dlength := dlength (idata nd)\<rparr>\<rparr>)"
    by blast
  note og = only_grewD [OF s'(5)]
  have "sectors s' y = sectors s y" if "used s y" "y \<notin> owned s nd" "y \<notin> map_sectors s mnd" for y
    using that small_fileD(3) [OF sf] by (intro og(3)) auto
  then have "others_kept s mnd i nd s'" using og(1,2) by (simp add: others_kept_def)
  moreover have "small_file s' f mnd i nd'" using s'(2,3) g(2) f by (simp add: small_file_def)
  moreover have "drop (nat offset + nat sz) (contents_of s nd) = []"
    using f off by (simp add: contents_of_def)
  then have "contents_of s' nd' = patch (contents_of s nd) (nat offset) bs" using s'(4) bs by (simp add: patch_def)
  ultimately show ?thesis using s'(1,3) f by (intro exI [of _ s'] exI [of _ nd']) simp
qed

section \<open>Adding an entry\<close>

lemma find_conj: "find (\<lambda>e. P e \<and> Q e) es = find Q (filter P es)"
  by (induction es) auto

lemma dir_map_filter: "dir_map es name = map_option inode_sector (find (\<lambda>e. name_of e = name) (filter in_use es))"
  by (simp add: dir_map_def find_conj)

lemma dir_map_None: "dir_map es name = None \<longleftrightarrow> name \<notin> name_of ` set (filter in_use es)"
  by (auto simp: dir_map_def find_None_iff)

lemma find_insert:
  "find Q (xs @ e # ys) = (if Q e then (case find Q xs of None \<Rightarrow> Some e | r \<Rightarrow> r) else find Q (xs @ ys))"
  by (induction xs) auto

lemma entries_added:
  assumes es: "filter in_use es = filter in_use (xs @ ys)" and e: "in_use e" "dir_map es (name_of e) = None"
  shows "dir_map (xs @ e # ys) = (dir_map es)(name_of e \<mapsto> inode_sector e)"
    "distinct (map name_of (filter in_use es)) \<Longrightarrow> distinct (map name_of (filter in_use (xs @ e # ys)))"
proof -
  have new: "name_of e \<notin> name_of ` set (filter in_use (xs @ ys))" using e(2) es by (simp only: dir_map_None) simp
  then show "distinct (map name_of (filter in_use es)) \<Longrightarrow> distinct (map name_of (filter in_use (xs @ e # ys)))"
    using e(1) es by (simp add: image_Un)
  show "dir_map (xs @ e # ys) = (dir_map es)(name_of e \<mapsto> inode_sector e)"
  proof
    fix n
    have "name_of x \<noteq> name_of e" if "x \<in> set (filter in_use xs)" for x
    proof -
      have "x \<in> set (filter in_use (xs @ ys))" using that by simp
      then have "name_of x \<in> name_of ` set (filter in_use (xs @ ys))" by (rule imageI)
      then show ?thesis using new by metis
    qed
    then have "find (\<lambda>x. name_of x = name_of e) (filter in_use xs) = None" unfolding find_None_iff by blast
    then show "dir_map (xs @ e # ys) n = ((dir_map es)(name_of e \<mapsto> inode_sector e)) n"
      using e(1) es find_insert [of "\<lambda>x. name_of x = n" "filter in_use xs" e "filter in_use ys"]
      by (cases "n = name_of e") (simp_all add: dir_map_filter eq_commute [of "name_of e"])
  qed
qed

lemma dir_ok_put:
  assumes ok: "dir_ok c" and e: "in_use e" "0 \<in> set (ename e)" "length (ename e) = 15" "dir_map (entries c) (name_of e) = None"
    and j: "j \<le> length c div 20" "j < length c div 20 \<longrightarrow> \<not> in_use (nth_entry c j)"
  shows "dir_ok (patch c (20 * j) (bytes_of_entry e))"
    "dir_map (entries (patch c (20 * j) (bytes_of_entry e))) = (dir_map (entries c))(name_of e \<mapsto> inode_sector e)"
proof -
  let ?c = "patch c (20 * j) (bytes_of_entry e)" and ?es = "entries c"
  note eb = entry_of_bytes_of_entry [OF e(3)]
  have m: "length c mod 20 = 0" using ok by (simp add: dir_ok_def)
  obtain xs ys where es: "entries ?c = xs @ e # ys" "filter in_use ?es = filter in_use (xs @ ys)" "set xs \<union> set ys \<subseteq> set ?es"
    "length ?c mod 20 = 0"
  proof (cases "j < length c div 20")
    case True
    then have jl: "j < length ?es" "\<not> in_use (?es ! j)" using j(2) by simp_all
    have "entries ?c = ?es[j := e]" using entries_patch [OF True eb(2)] eb(1) by simp
    then have "entries ?c = take j ?es @ e # drop (Suc j) ?es" using jl(1) by (simp add: upd_conv_take_nth_drop)
    moreover have "filter in_use ?es = filter in_use (take j ?es @ drop (Suc j) ?es)"
      by (subst id_take_nth_drop [OF jl(1)]) (simp add: jl(2))
    moreover have "set (take j ?es) \<union> set (drop (Suc j) ?es) \<subseteq> set ?es" by (auto dest: in_set_takeD in_set_dropD)
    moreover have "length ?c mod 20 = 0" using True m eb(2) by (subst length_patch) linarith+
    ultimately show ?thesis by (rule that)
  next
    case False
    then have "20 * j = length c" using j(1) m by auto
    then have "?c = c @ bytes_of_entry e" by (simp add: patch_def)
    then show ?thesis using that [of ?es "[]"] entries_append [OF m eb(2)] eb m by simp
  qed
  note add = entries_added [OF es(2) e(1,4)]
  show "dir_map (entries ?c) = (dir_map ?es)(name_of e \<mapsto> inode_sector e)" using add(1) es(1) by simp
  have "distinct (map name_of (filter in_use (entries ?c)))" using add(2) ok es(1) by (simp add: dir_ok_def)
  moreover have "\<forall>x \<in> set (entries ?c). in_use x \<longrightarrow> 0 \<in> set (ename x)" using ok e(2) es(1,3) by (auto simp: dir_ok_def)
  ultimately show "dir_ok ?c" using es(4) by (simp add: dir_ok_def)
qed

text \<open>The whole of \<open>dir_add\<close> on a directory with enough room on the device.\<close>

definition valid_name :: "bytes \<Rightarrow> bool" where
  "valid_name name \<longleftrightarrow> name \<noteq> [] \<and> length name \<le> 14 \<and> 0 \<notin> set name"

lemma stored_small_file:
  assumes "small_file s f mnd i nd" "stored s (sectors s) s'"
  shows "small_file s' f mnd i nd" "contents_of s' nd = contents_of s nd" "free_cnt s' = free_cnt s" "owned s' nd = owned s nd"
proof -
  have "overwritten (sectors s) (device_size s) (idata nd) 0 [] (sectors s)" by (rule overwritten_refl)
  note g = growing_overwritten [OF assms(1) this assms(2)]
  show "small_file s' f mnd i nd" "free_cnt s' = free_cnt s" by (fact g)+
  show "contents_of s' nd = contents_of s nd" by (rule contents_of_stored [OF assms(2)])
  show "owned s' nd = owned s nd" using stored_fields [OF assms(2)] by (simp add: owned_def)
qed

lemma others_kept_stored:
  assumes "stored s (sectors s) s1" "others_kept s1 mnd i nd s'"
  shows "others_kept s mnd i nd s'"
  using assms(2) stored_fields [OF assms(1)] by (simp add: others_kept_def owned_def used_def)

lemma dir_add_new:
  assumes sf: "small_file s f mnd (dinode d) nd" and ok: "dir_ok (contents_of s nd)" and name: "valid_name name"
    and new: "dir_map (entries (contents_of s nd)) name = None" and junk: "length junk = 20"
    and room: "dlength (idata nd) + 20 \<le> 123 * 512" "0 < free_cnt s"
  shows "\<exists>s' nd'. dir_add (free_map_write (Suc depth)) junk (Some d) name sec s = Some (True, s')
    \<and> small_file s' f mnd (dinode d) nd' \<and> others_kept s mnd (dinode d) nd s' \<and> dir_ok (contents_of s' nd')
    \<and> dir_map (entries (contents_of s' nd')) = (dir_map (entries (contents_of s nd)))(name \<mapsto> sec)"
proof -
  let ?wm = "free_map_write (Suc depth)" and ?c = "contents_of s nd" and ?i = "dinode d"
  have n0: "0 \<notin> set name" "name \<noteq> []" "length name \<le> 14" using name by (simp_all add: valid_name_def)
  obtain s1 where s1: "lookup ?wm (Some d) name s = Some (None, s1)" "stored s (sectors s) s1"
    using lookup_ok [OF small_fileD(1) [OF sf] ok n0(1), of ?wm] new first_entry_None
    by (auto simp: dir_map_None name_of_def image_iff) (metis (mono_tags, lifting))
  note sf1 = stored_small_file [OF sf s1(2)]
  have m: "length ?c mod 20 = 0" using ok by (simp add: dir_ok_def)
  obtain j e s2 where s2: "free_slot_loop ?wm ?i junk 0 s1 = Some (e, int (20 * j), s2)" "stored s1 (sectors s1) s2" "length e = 20"
    "j \<le> length ?c div 20" "j < length ?c div 20 \<longrightarrow> \<not> in_use (nth_entry ?c j)"
    using free_slot_loop_ok [OF small_fileD(1) [OF sf1(1)], of 0 junk ?wm] m junk unfolding sf1(2) by auto
  note sf2 = stored_small_file [OF sf1(1) s2(2)]
  define e' where "e' = \<lparr>inode_sector = sec, ename = put_name name (ename (entry_of_bytes e)), in_use = True\<rparr>"
  have "length (ename (entry_of_bytes e)) = 15" using s2(3) by (simp add: entry_of_bytes_def)
  then have e': "in_use e'" "0 \<in> set (ename e')" "length (ename e') = 15" "name_of e' = name" "inode_sector e' = sec"
    using n0 length_put_name takeWhile_put_name by (simp_all add: e'_def name_of_def put_name_def)
  have lc: "length ?c = nat (dlength (idata nd))" by (simp add: contents_of_def)
  have len: "0 \<le> dlength (idata nd)" using sf by (simp add: small_file_def)
  have j: "int (20 * j) \<le> dlength (idata nd)" using s2(4) lc len by linarith
  have free: "bytes_to_sectors (int (20 * j) + 20) \<le> bytes_to_sectors (dlength (idata nd)) + free_cnt s2"
    using j room(2) sf1(3) sf2(3) unfolding bytes_to_sectors_def by linarith
  obtain s' nd' where s': "inode_write_at ?wm ?i (\<lambda>_. bytes_of_entry e') 20 (int (20 * j)) s2 = Some (20, s')"
    "small_file s' f mnd ?i nd'" "others_kept s2 mnd ?i nd s'" "contents_of s' nd' = patch ?c (20 * j) (bytes_of_entry e')"
    using small_file_write [OF sf2(1) _ j _ _ free, of "bytes_of_entry e'" depth] entry_of_bytes_of_entry(2) [OF e'(3)] j room(1) sf1(2) sf2(2)
    by (auto simp: nat_mult_distrib)
  have "dir_add ?wm junk (Some d) name sec s = Some (True, s')"
    using s1(1) s2(1) s'(1) n0 by (simp add: dir_add_def e'_def)
  moreover have "others_kept s mnd ?i nd s'" using others_kept_stored s1(2) s2(2) s'(3) by blast
  ultimately show ?thesis using s'(2,4) dir_ok_put [OF ok e'(1-3) _ s2(4,5)] new e'(4,5) by auto
qed

lemma dir_add_taken:
  assumes "open_file s (dinode d) nd" "dir_ok (contents_of s nd)"
    and "\<not> valid_name name \<and> 0 \<notin> set name \<or> valid_name name \<and> dir_map (entries (contents_of s nd)) name \<noteq> None"
  shows "\<exists>s'. dir_add wm junk (Some d) name sec s = Some (False, s') \<and> stored s (sectors s) s'"
proof (cases "name = [] \<or> length name > 14")
  case True
  then show ?thesis using open_fileD(1) [OF assms(1)] by (simp add: dir_add_def stored_refl)
next
  case False
  have n0: "0 \<notin> set name" "dir_map (entries (contents_of s nd)) name \<noteq> None"
    using assms(3) False by (auto simp: valid_name_def)
  then have "first_entry (\<lambda>e. in_use e \<and> name_of e = name) (entries (contents_of s nd)) 0 \<noteq> None"
    unfolding first_entry_None by (auto simp: dir_map_None)
  then show ?thesis using lookup_ok [OF assms(1,2) n0(1), of wm] False by (auto simp: dir_add_def)
qed

end
