(* ===== verification/Directory_Remove.thy ===== *)
theory Directory_Remove
  imports Directory_Spec Inode_Release
begin

text \<open>
  Removing a file through its directory: opening and closing inodes, flushing them, and that
  \<open>dir_remove\<close> takes the name out of the directory and returns the file's sectors.
\<close>

section \<open>Flushing\<close>

lemma flush_sector_ok:
  assumes "cache_ok s"
  obtains s' where "flush_sector x s = Some s'" "stored s (sectors s) s'"
proof (cases "buffer_cache s x")
  case None
  then show ?thesis using that [of s] assms by (simp add: flush_sector_def cache_lookup_def stored_refl)
next
  case (Some b)
  have core: "cache_core s" using assms by (simp add: cache_ok_def)
  obtain s' where s': "flush_if_delayed b s = Some s'" "cache_core s'" "sectors s' = sectors s" "device_size s' = device_size s"
    "\<And>b'. sector (buffers s' b') = sector (buffers s b')" "buffer_cache s' = buffer_cache s" "list_lru s' = list_lru s"
    "cache.more s' = cache.more s"
    using flush_if_delayed_ok [OF core core_hit(1) [OF core Some]] by metis
  have "cache_ok s'" using assms s' by (simp add: cache_ok_def hashed_def)
  then show ?thesis using that [of s'] s' Some by (simp add: flush_sector_def cache_lookup_def stored_def)
qed

lemma inode_flush_loop_ok:
  assumes "open_file s i nd" "\<forall>k \<in> set ks. k < bytes_to_sectors (dlength (idata nd))"
  shows "\<exists>s'. inode_flush_loop wm i ks s = Some s' \<and> stored s (sectors s) s'"
  using assms
proof (induction ks arbitrary: s)
  case Nil
  then show ?case using stored_refl open_fileD(1) by auto
next
  case (Cons k ks)
  note fD = open_fileD [OF Cons.prems(1)]
  have "k < bytes_to_sectors (dlength (idata nd))" using Cons.prems(2) by simp
  then have "int k * 512 < 16635 * 512" using fD(8,9) unfolding bytes_to_sectors_def by linarith
  then obtain x s1 where s1: "byte_to_sector wm i (int k * 512) s = Some (x, s1)" "stored s (sectors s) s1"
    using sector_at_offset [OF Cons.prems(1) _ _, of "int k * 512" wm] by (metis of_nat_0_le_iff zero_le_mult_iff zero_le_numeral)
  obtain s2 where s2: "flush_sector x s1 = Some s2" "stored s1 (sectors s1) s2"
    using flush_sector_ok stored_fields(8) [OF s1(2)] by blast
  have st: "stored s (sectors s) s2" using stored_trans [OF s1(2) s2(2)] stored_fields(9) [OF s1(2)] by simp
  obtain s' where s': "inode_flush_loop wm i ks s2 = Some s'" "stored s2 (sectors s2) s'"
    using Cons.IH [OF open_file_stored [OF Cons.prems(1) st]] Cons.prems(2) by auto
  then have "stored s (sectors s) s'" using stored_trans [OF st s'(2)] stored_fields(9) [OF st] by simp
  then show ?case using s1(1) s2(1) s'(1) by simp
qed

lemma inode_flush_ok:
  assumes "open_file s i nd"
  obtains s' where "inode_flush wm i s = Some s'" "stored s (sectors s) s'"
proof -
  note fD = open_fileD [OF assms]
  obtain s1 where s1: "flush_sector (isector nd) s = Some s1" "stored s (sectors s) s1"
    using flush_sector_ok [OF fD(1)] by blast
  note f1 = open_file_stored [OF assms s1(2)]
  obtain s' where s': "inode_flush_loop wm i [0..<bytes_to_sectors (dlength (idata nd))] s1 = Some s'" "stored s1 (sectors s1) s'"
    using inode_flush_loop_ok [OF f1, of "[0..<bytes_to_sectors (dlength (idata nd))]" wm] by auto
  have "stored s (sectors s) s'" using stored_trans [OF s1(2) s'(2)] stored_fields(9) [OF s1(2)] by simp
  moreover have "inode_flush wm i s = Some s'"
    using fD(3) s1(1) s'(1) open_fileD(3) [OF f1] by (simp add: inode_flush_def)
  ultimately show ?thesis using that by blast
qed

section \<open>Files that other operations leave alone\<close>

text \<open>
  A small file stays one when the inode's counters change, as long as its sector, the free map
  and the file of the free map stay.
\<close>

definition same_file :: "inode \<Rightarrow> inode \<Rightarrow> bool" where
  "same_file nd nd' \<longleftrightarrow>
     isector nd' = isector nd \<and> idata nd' = idata nd \<and> deny_write_cnt nd' = deny_write_cnt nd \<and> lock_inode nd' = lock_inode nd"

lemma same_file_refl [simp]: "same_file nd nd" by (simp add: same_file_def)

lemma small_file_frame:
  assumes sf: "small_file s f mnd i nd" and s': "cache_ok s'" "device_size s' = device_size s" "allocs s' = []"
      "inodes s' i = Some nd'" "inodes s' (finode f) = Some mnd" "free_map_file s' = Some f" "free_map s' = free_map s"
    and nd': "same_file nd nd'"
    and same: "\<And>x. x \<in> owned s mnd \<Longrightarrow> sectors s' x = sectors s x" "sectors s' (isector nd) = sectors s (isector nd)"
    and len: "\<And>x. length (sectors s' x) = length (sectors s x)"
  shows "small_file s' f mnd i nd'" "owned s' mnd = owned s mnd"
proof -
  let ?K = "bytes_to_sectors (dlength (idata nd))"
  note sD = small_fileD [OF sf] and bD = beside_mapD [OF small_fileD(5) [OF sf]] and mfD = map_fileD [OF beside_mapD(1) [OF small_fileD(5) [OF sf]]]
  have g: "growing s f mnd i nd ?K" "0 \<le> dlength (idata nd)" using sf by (simp_all add: small_file_def)
  have l: "length (sectors s' x) = 512" if "x < device_size s" for x using bD(13) [OF that] len by simp
  have fm: "bitmap_ok (free_map s')" "bit_cnt (free_map s') = bit_cnt (free_map s)" using mfD(6) s'(7) by simp_all
  note fr = map_file_frame [OF bD(1) s'(1,2,3,5,6) fm same(1) l]
  show own: "owned s' mnd = owned s mnd" by (rule fr(2))
  have n: "isector nd' = isector nd" "idata nd' = idata nd" "deny_write_cnt nd' = deny_write_cnt nd" "lock_inode nd' = lock_inode nd"
    using nd' by (simp_all add: same_file_def)
  have u: "used s' y = used s y" for y using s'(7) by (simp add: used_def)
  have di: "disk_inode s' nd' = disk_inode s nd" using same(2) n by (simp add: disk_inode_def)
  have "beside_map s' f mnd i nd'" using fr(1) s' bD(2,4-10) own n u by (simp add: beside_map_def)
  then have "growing s' f mnd i nd' ?K"
    using g(1) unfolding growing_def own s'(2) u di n by blast
  then show "small_file s' f mnd i nd'" using g(2) n by (simp add: small_file_def)
qed

section \<open>Closing a removed file\<close>

lemma same_store [simp]:
  "cache_ok (s\<lparr>open_inodes := os\<rparr>) = cache_ok s" "sectors (s\<lparr>open_inodes := os\<rparr>) = sectors s"
  "device_size (s\<lparr>open_inodes := os\<rparr>) = device_size s"
  "cache_ok (s\<lparr>inodes := ns\<rparr>) = cache_ok s" "sectors (s\<lparr>inodes := ns\<rparr>) = sectors s" "device_size (s\<lparr>inodes := ns\<rparr>) = device_size s"
  "cache_ok (s\<lparr>next_inode := n\<rparr>) = cache_ok s" "sectors (s\<lparr>next_inode := n\<rparr>) = sectors s" "device_size (s\<lparr>next_inode := n\<rparr>) = device_size s"
  by (simp_all add: cache_ok_def cache_core_def hashed_def sectors_def device_size_def fun_eq_iff split: option.split)

lemma inode_close_removed:
  assumes sf: "small_file s f mnd i nd" and nd: "open_cnt nd = 1" "removed nd"
  shows "\<exists>s'. inode_close (free_map_write (Suc depth)) (Some i) s = Some s'
    \<and> map_file s' f mnd \<and> inodes s' = (inodes s)(i := None) \<and> open_inodes s' = remove1 i (open_inodes s)
    \<and> cur_dir s' = cur_dir s \<and> device_size s' = device_size s
    \<and> (\<forall>y. used s' y \<longleftrightarrow> used s y \<and> y \<notin> owned s nd)
    \<and> (\<forall>y. y \<notin> map_sectors s mnd \<longrightarrow> sectors s' y = sectors s y)"
proof -
  let ?wm = "free_map_write (Suc depth)" and ?nd = "nd\<lparr>open_cnt := 0\<rparr>"
  note sD = small_fileD [OF sf]
  obtain s1 where s1: "inode_flush ?wm i s = Some s1" "stored s (sectors s) s1" using inode_flush_ok [OF sD(1)] by blast
  note st = stored_fields [OF s1(2)] and bD = beside_mapD [OF sD(5)]
  let ?s2 = "(upd_inode i (open_cnt_update (\<lambda>n. n - 1)) s1)\<lparr>open_inodes := remove1 i (open_inodes s1)\<rparr>"
  have nd1: "open_cnt_update (\<lambda>n. n - 1) nd = ?nd" using nd(1) by (cases nd) simp
  have c2: "cache_ok ?s2" "sectors ?s2 = sectors s" "device_size ?s2 = device_size s" "allocs ?s2 = []" "free_map ?s2 = free_map s"
    "free_map_file ?s2 = Some f" "inodes ?s2 = (inodes s)(i \<mapsto> ?nd)" "cur_dir ?s2 = cur_dir s" "open_inodes ?s2 = remove1 i (open_inodes s)"
    using st bD(3,12) nd1 map_fileD(1) [OF bD(1)] by simp_all
  have sm: "same_file nd ?nd" by (simp add: same_file_def)
  have mn: "inodes ?s2 (finode f) = Some mnd" using c2(7) bD(2) open_fileD(3) [OF map_fileD(2) [OF bD(1)]] by simp
  have in2: "inodes ?s2 i = Some ?nd" using c2(7) by simp
  have sf2: "small_file ?s2 f mnd i ?nd"
    using small_file_frame(1) [OF sf c2(1,3,4) in2 mn c2(6,5) sm] c2(2) by simp
  have own: "owned ?s2 ?nd = owned s nd" "map_sectors ?s2 mnd = map_sectors s mnd" using c2(2,3) by (simp_all add: owned_def)
  have u: "used ?s2 y = used s y" for y using c2(5) by (simp add: used_def)
  have g: "growing ?s2 f mnd i ?nd (bytes_to_sectors (dlength (idata ?nd)))" "0 \<le> dlength (idata ?nd)"
    using sf2 by (simp_all add: small_file_def)
  from inode_release_direct [OF g(1) refl g(2), of depth] obtain s3 where s3:
    "inode_release ?wm i ?s2 = Some s3" "map_file s3 f mnd" "kept ?s2 s3"
    "\<forall>y. used s3 y \<longleftrightarrow> used ?s2 y \<and> y \<notin> owned ?s2 ?nd" "\<forall>y. y \<notin> map_sectors ?s2 mnd \<longrightarrow> sectors s3 y = sectors ?s2 y"
    by blast
  let ?s' = "s3\<lparr>inodes := (inodes s3)(i := None)\<rparr>"
  have "inode_close ?wm (Some i) s = Some ?s'"
    using s1(1) s3(1) st(1) bD(3) nd1 nd(2) by (simp add: inode_close_def Let_def)
  moreover have "map_file ?s' f mnd"
    using s3(2) bD(2) unfolding map_file_def open_file_def disk_inode_def by auto
  moreover have "inodes ?s' = (inodes s)(i := None)" "open_inodes ?s' = remove1 i (open_inodes s)" "cur_dir ?s' = cur_dir s"
    "device_size s3 = device_size s"
    using s3(3) c2 unfolding kept_def by simp_all
  moreover have "used ?s' y = used s3 y" for y by (simp add: used_def)
  ultimately show ?thesis using s3(4,5) own u c2(2) by (intro exI [of _ ?s']) simp
qed

section \<open>Opening an inode\<close>

definition fresh_inode :: "fs \<Rightarrow> block_sector_t \<Rightarrow> inode" where
  "fresh_inode s sec =
     \<lparr>isector = sec, open_cnt = 1, removed = False, deny_write_cnt = 0, lock_inode = False, idata = inode_of_bytes (sectors s sec)\<rparr>"

lemma inode_open_new:
  assumes "cache_ok s" "allocs s = []" "sec < device_size s" "find (has_sector s sec) (open_inodes s) = None"
  obtains s' where "inode_open sec s = Some (Some (next_inode s), s')" "cache_ok s'" "sectors s' = sectors s"
    "device_size s' = device_size s" "allocs s' = []" "inodes s' = (inodes s)(next_inode s \<mapsto> fresh_inode s sec)"
    "open_inodes s' = next_inode s # open_inodes s" "free_map s' = free_map s" "free_map_file s' = free_map_file s" "cur_dir s' = cur_dir s"
proof -
  let ?s1 = "s\<lparr>open_inodes := next_inode s # open_inodes s, next_inode := next_inode s + 1\<rparr>"
  obtain s2 where s2: "cache_block_read sec ?s1 = Some (sectors s sec, s2)" "stored ?s1 (sectors ?s1) s2"
    using read_step [of ?s1 sec] assms(1,3) by auto
  note st = stored_fields [OF s2(2)]
  let ?s' = "s2\<lparr>inodes := (inodes s2)(next_inode s \<mapsto> fresh_inode s sec)\<rparr>"
  have "inode_open sec s = Some (Some (next_inode s), ?s')"
    using assms s2(1) by (simp add: inode_open_def fresh_inode_def Let_def)
  then show ?thesis using that [of ?s'] st assms(2) by simp
qed

section \<open>Erasing an entry\<close>

lemma dir_ok_erase:
  assumes ok: "dir_ok c" and j: "j < length c div 20" and e: "in_use (nth_entry c j)"
  defines "b \<equiv> bytes_of_entry ((nth_entry c j)\<lparr>in_use := False\<rparr>)"
  shows "dir_ok (patch c (20 * j) b)"
    "dir_map (entries (patch c (20 * j) b)) = (dir_map (entries c))(name_of (nth_entry c j) := None)" "length b = 20"
proof -
  let ?e = "nth_entry c j" and ?e' = "(nth_entry c j)\<lparr>in_use := False\<rparr>" and ?es = "entries c"
  have l: "20 * j + 20 \<le> length c" using j by linarith
  have eb: "entry_of_bytes b = ?e'" "length b = 20"
    using entry_of_bytes_of_entry [of ?e'] length_ename [OF l] by (simp_all add: b_def)
  show "length b = 20" by (fact eb)
  let ?xs = "take j ?es" and ?ys = "drop (Suc j) ?es"
  have es: "?es = ?xs @ ?e # ?ys" using id_take_nth_drop [of j ?es] j by simp
  have es': "entries (patch c (20 * j) b) = ?xs @ ?e' # ?ys"
    using entries_patch [OF j eb(2)] eb(1) j by (simp add: upd_conv_take_nth_drop)
  have flt: "filter in_use (?xs @ ?e' # ?ys) = filter in_use (?xs @ ?ys)" by simp
  have d: "distinct (map name_of (filter in_use ?es))" using ok by (simp add: dir_ok_def)
  have d': "distinct (map name_of (filter in_use (?xs @ ?e # ?ys)))" using d es by simp
  have none: "dir_map (?xs @ ?e' # ?ys) (name_of ?e) = None"
    using d' e unfolding dir_map_None flt by (auto simp: image_iff)
  have "dir_map (?xs @ ?e # ?ys) = (dir_map (?xs @ ?e' # ?ys))(name_of ?e \<mapsto> inode_sector ?e)"
    by (rule entries_added(1) [OF flt e none])
  then show "dir_map (entries (patch c (20 * j) b)) = (dir_map ?es)(name_of ?e := None)"
    using es es' none by (metis fun_upd_triv fun_upd_upd)
  have "distinct (map name_of (filter in_use (?xs @ ?ys)))" using d' e by auto
  moreover have "set ?xs \<union> set ?ys \<subseteq> set ?es" by (auto dest: in_set_takeD in_set_dropD)
  moreover have "length (patch c (20 * j) b) = length c" using l eb(2) by (simp add: length_patch)
  ultimately show "dir_ok (patch c (20 * j) b)"
    using ok unfolding dir_ok_def es' flt by auto
qed

section \<open>Removing a file\<close>

text \<open>
  The file whose inode is in a sector, not open yet, regular, and sharing no sector with the
  directory: what \<open>inode_open\<close> would make of it is a small file.
\<close>

definition closed_file :: "fs \<Rightarrow> file_t \<Rightarrow> inode \<Rightarrow> inode \<Rightarrow> block_sector_t \<Rightarrow> bool" where
  "closed_file s f mnd nd sec \<longleftrightarrow>
     find (has_sector s sec) (open_inodes s) = None \<and> inodes s (next_inode s) = None
     \<and> small_file (s\<lparr>inodes := (inodes s)(next_inode s \<mapsto> fresh_inode s sec)\<rparr>) f mnd (next_inode s) (fresh_inode s sec)
     \<and> is_dir (idata (fresh_inode s sec)) = 0
     \<and> owned s (fresh_inode s sec) \<inter> owned s nd = {}
     \<and> (\<exists>cd. cur_dir s = Some cd \<and> dinode cd \<noteq> next_inode s)"

lemma owned_cong: "sectors s' = sectors s \<Longrightarrow> device_size s' = device_size s \<Longrightarrow> owned s' nd = owned s nd"
  by (simp add: owned_def)

text \<open>The state after the lookup and the opening of the file.\<close>

lemma dir_remove_opened:
  assumes sf: "small_file s f mnd i nd" and cf: "closed_file s f mnd nd sec" and st: "stored s (sectors s) s1"
  obtains s2 where "inode_open sec s1 = Some (Some (next_inode s), s2)" "small_file s2 f mnd i nd"
    "small_file s2 f mnd (next_inode s) (fresh_inode s sec)" "sectors s2 = sectors s" "device_size s2 = device_size s"
    "inodes s2 = (inodes s)(next_inode s \<mapsto> fresh_inode s sec)" "open_inodes s2 = next_inode s # open_inodes s"
    "free_map s2 = free_map s" "cur_dir s2 = cur_dir s" "i \<noteq> next_inode s"
proof -
  note stD = stored_fields [OF st] and bD = beside_mapD [OF small_fileD(5) [OF sf]]
  let ?j = "next_inode s" and ?n2 = "fresh_inode s sec"
  let ?sj = "s\<lparr>inodes := (inodes s)(?j \<mapsto> ?n2)\<rparr>"
  have cD: "find (has_sector s sec) (open_inodes s) = None" "inodes s ?j = None" "small_file ?sj f mnd ?j ?n2"
    using cf by (simp_all add: closed_file_def)
  have ne: "i \<noteq> ?j" "finode f \<noteq> ?j" using bD(3) cD(2) open_fileD(3) [OF map_fileD(2) [OF bD(1)]] by auto
  have lt: "sec < device_size s" using beside_mapD(4) [OF small_fileD(5) [OF cD(3)]] by (simp add: fresh_inode_def)
  have f1: "find (has_sector s1 sec) (open_inodes s1) = None"
    using cD(1) stD(1,2) by (simp add: has_sector_def [abs_def])
  have fr: "fresh_inode s1 sec = ?n2" using stD(9) by (simp add: fresh_inode_def)
  have al: "allocs s1 = []" "sec < device_size s1" using stD(7,10) bD(12) lt by simp_all
  obtain s2 where s2: "inode_open sec s1 = Some (Some ?j, s2)" "cache_ok s2" "sectors s2 = sectors s"
    "device_size s2 = device_size s" "allocs s2 = []" "inodes s2 = (inodes s)(?j \<mapsto> ?n2)"
    "open_inodes s2 = ?j # open_inodes s" "free_map s2 = free_map s" "free_map_file s2 = free_map_file s" "cur_dir s2 = cur_dir s"
    using inode_open_new [OF stD(8) al f1] unfolding fr stD by metis
  have fm: "free_map_file s2 = Some f" using s2(9) map_fileD(1) [OF bD(1)] by simp
  have mn: "inodes s2 (finode f) = Some mnd" using s2(6) ne open_fileD(3) [OF map_fileD(2) [OF bD(1)]] by simp
  have i2: "inodes s2 i = Some nd" "inodes s2 ?j = Some ?n2" using s2(6) ne bD(3) by simp_all
  have "small_file s2 f mnd i nd"
    using small_file_frame(1) [OF sf s2(2,4,5) i2(1) mn fm s2(8) same_file_refl] s2(3) by simp
  moreover have "small_file s2 f mnd ?j ?n2"
    using small_file_frame(1) [OF cD(3) s2(2) _ s2(5) i2(2) mn fm _ same_file_refl] s2(3,4,8) by simp
  ultimately show ?thesis using that s2 ne by blast
qed

lemma may_remove_file:
  assumes "inodes s j = Some nd" "is_dir (idata nd) = 0" "cur_dir s = Some cd" "j \<noteq> dinode cd"
  shows "may_remove wm j s = Some (True, s)"
  using assms by (simp add: may_remove_def inode_is_dir_def inode_open_cnt_def)

text \<open>After the entry is erased, the file is marked and closed for the last time.\<close>

lemma close_marked:
  assumes sf: "small_file s f mnd j nd" and nd: "open_cnt nd = 1"
  shows "\<exists>s'. do { s \<leftarrow> inode_remove j s; inode_close (free_map_write (Suc depth)) (Some j) s } = Some s'
    \<and> map_file s' f mnd \<and> inodes s' = (inodes s)(j := None) \<and> open_inodes s' = remove1 j (open_inodes s)
    \<and> cur_dir s' = cur_dir s \<and> device_size s' = device_size s
    \<and> (\<forall>y. used s' y \<longleftrightarrow> used s y \<and> y \<notin> owned s nd)
    \<and> (\<forall>y. y \<notin> map_sectors s mnd \<longrightarrow> sectors s' y = sectors s y)"
proof -
  note bD = beside_mapD [OF small_fileD(5) [OF sf]]
  let ?nd = "nd\<lparr>removed := True\<rparr>"
  define s1 where "s1 = upd_inode j (removed_update (\<lambda>_. True)) s"
  have s1: "cache_ok s1" "device_size s1 = device_size s" "allocs s1 = []" "inodes s1 = (inodes s)(j \<mapsto> ?nd)"
    "free_map_file s1 = Some f" "free_map s1 = free_map s" "sectors s1 = sectors s" "open_inodes s1 = open_inodes s" "cur_dir s1 = cur_dir s"
    using bD(3,11,12) map_fileD(1) [OF bD(1)] by (simp_all add: s1_def)
  have mn: "inodes s1 (finode f) = Some mnd" "inodes s1 j = Some ?nd"
    using s1(4) bD(2) open_fileD(3) [OF map_fileD(2) [OF bD(1)]] by simp_all
  have sm: "same_file nd ?nd" by (simp add: same_file_def)
  have "small_file s1 f mnd j ?nd"
    using small_file_frame(1) [OF sf s1(1-3) mn(2,1) s1(5,6) sm] s1(7) by simp
  from inode_close_removed [OF this, of depth] nd
  obtain s' where "inode_close (free_map_write (Suc depth)) (Some j) s1 = Some s'" "map_file s' f mnd" "inodes s' = (inodes s1)(j := None)"
    "open_inodes s' = remove1 j (open_inodes s1)" "cur_dir s' = cur_dir s1" "device_size s' = device_size s1"
    "\<forall>y. used s' y \<longleftrightarrow> used s1 y \<and> y \<notin> owned s1 ?nd" "\<forall>y. y \<notin> map_sectors s1 mnd \<longrightarrow> sectors s' y = sectors s1 y"
    by auto
  moreover have "inode_remove j s = Some s1" using bD(3) by (simp add: inode_remove_def s1_def)
  moreover have "owned s1 ?nd = owned s nd" "used s1 = used s" using s1(2,6,7) by (simp_all add: owned_def used_def [abs_def])
  ultimately show ?thesis using s1 by (intro exI [of _ s']) simp
qed

text \<open>Erasing the entry of the directory leaves the opened file alone.\<close>

lemma erase_entry:
  assumes sf: "small_file s f mnd i nd" and tf: "small_file s f mnd j nd2" and ne: "i \<noteq> j"
    and dj: "owned s nd2 \<inter> owned s nd = {}" and ofs: "0 \<le> ofs" "ofs + 20 \<le> dlength (idata nd)" and b: "length b = 20"
  obtains s' where "inode_write_at wm i (\<lambda>_. b) 20 ofs s = Some (20, s')" "small_file s' f mnd i nd" "small_file s' f mnd j nd2"
    "contents_of s' nd = patch (contents_of s nd) (nat ofs) b" "inodes s' = inodes s" "open_inodes s' = open_inodes s"
    "cur_dir s' = cur_dir s" "device_size s' = device_size s" "used s' = used s" "owned s' nd2 = owned s nd2" "owned s' nd = owned s nd"
    "map_sectors s' mnd = map_sectors s mnd" "owned s' mnd = owned s mnd"
    "\<And>y. y \<notin> owned s nd \<Longrightarrow> sectors s' y = sectors s y"
proof -
  note sD = small_fileD [OF sf] and bD = beside_mapD [OF small_fileD(5) [OF sf]] and tD = small_fileD [OF tf] and btD = beside_mapD [OF small_fileD(5) [OF tf]]
  note mfD = map_fileD [OF bD(1)]
  obtain m' s' where w: "inode_write_at wm i (\<lambda>_. b) 20 ofs s = Some (20, s')" "stored s m' s'"
    "overwritten (sectors s) (device_size s) (idata nd) (nat ofs) b m'"
    using inode_write_at_ok [OF sD(1,2) ofs(1) _ ofs(2) steady_const _ bD(5,6), of b wm] b by auto
  note st = stored_fields [OF w(2)]
  have same: "sectors s' y = sectors s y" if "y \<notin> owned s nd" for y
    using w(3) that st(9) by (auto simp: overwritten_def owned_def)
  have len: "length (sectors s' y) = length (sectors s y)" for y using w(3) st(9) by (simp add: overwritten_def)
  have s2: "sectors s' y = sectors s y" if "y \<in> owned s nd2" for y using same that dj by blast
  have sm: "sectors s' y = sectors s y" if "y \<in> owned s mnd" for y using same that sD(4) by blast
  have al: "allocs s' = []" "free_map_file s' = Some f" "inodes s' (finode f) = Some mnd" "inodes s' j = Some nd2"
    using st(1,5,7) bD(12) mfD(1) open_fileD(3) [OF mfD(2)] btD(3) by simp_all
  have l: "length (sectors s' x) = 512" if "x < device_size s" for x using bD(13) [OF that] len by simp
  have is2: "sectors s' (isector nd2) = sectors s (isector nd2)" using s2 by (simp add: owned_def)
  have "small_file s' f mnd j nd2"
    using small_file_frame(1) [OF tf st(8,10) al(1,4,3,2) st(4) same_file_refl sm is2 len] by blast
  moreover have "owned s' nd2 = owned s nd2" using open_file_frame(2) [OF tD(1) st(8,10) al(1,4) s2 l] by blast
  moreover have "map_sectors s' mnd = map_sectors s mnd" "owned s' mnd = owned s mnd"
    using open_file_frame(5,2) [OF mfD(2) st(8,10) al(1,3) sm l] by blast+
  moreover have "owned s' nd = owned s nd" using overwritten_layout(3,4) [OF w(3) sD(2)] st(9,10) by (simp add: owned_def)
  moreover have "used s' = used s" using st(4) by (simp add: used_def [abs_def])
  moreover note growing_overwritten(1) [OF sf w(3,2)] open_file_overwritten(3) [OF sD(1,2) w(3,2)]
  ultimately show ?thesis using that [of s'] w(1) st(1,2,6,10) same by blast
qed

lemma dir_remove_ok:
  assumes sf: "small_file s f mnd (dinode d) nd" and ok: "dir_ok (contents_of s nd)" and n0: "0 \<notin> set name"
    and found: "dir_map (entries (contents_of s nd)) name = Some sec" and cf: "closed_file s f mnd nd sec"
  shows "\<exists>s'. dir_remove (free_map_write (Suc depth)) (Some d) name s = Some (True, s')
    \<and> open_file s' (dinode d) nd \<and> dir_ok (contents_of s' nd)
    \<and> dir_map (entries (contents_of s' nd)) = (dir_map (entries (contents_of s nd)))(name := None)
    \<and> (\<forall>y. used s' y \<longleftrightarrow> used s y \<and> y \<notin> owned s (fresh_inode s sec))
    \<and> inodes s' = inodes s \<and> open_inodes s' = open_inodes s
    \<and> (\<forall>y. y \<notin> owned s nd \<and> y \<notin> map_sectors s mnd \<longrightarrow> sectors s' y = sectors s y)"
proof -
  let ?wm = "free_map_write (Suc depth)" and ?c = "contents_of s nd" and ?i = "dinode d" and ?j = "next_inode s" and ?n2 = "fresh_inode s sec"
  let ?P = "\<lambda>e. in_use e \<and> name_of e = name"
  obtain e ofs where fe: "first_entry ?P (entries ?c) 0 = Some (e, ofs)" "inode_sector e = sec"
    using found first_entry_find [of ?P "entries ?c" 0] by (auto simp: dir_map_def)
  from first_entry_Some [OF fe(1)] obtain k where k: "k < length ?c div 20" "e = nth_entry ?c k" "ofs = int (20 * k)" "?P e" by auto
  obtain s1 where s1: "lookup ?wm (Some d) name s = Some (Some (e, ofs), s1)" "stored s (sectors s) s1"
    using lookup_ok [OF small_fileD(1) [OF sf] ok n0, of ?wm] fe(1) by auto
  obtain s2 where s2: "inode_open sec s1 = Some (Some ?j, s2)" "small_file s2 f mnd ?i nd" "small_file s2 f mnd ?j ?n2"
    "sectors s2 = sectors s" "device_size s2 = device_size s" "inodes s2 = (inodes s)(?j \<mapsto> ?n2)"
    "open_inodes s2 = ?j # open_inodes s" "free_map s2 = free_map s" "cur_dir s2 = cur_dir s" "?i \<noteq> ?j"
    using dir_remove_opened [OF sf cf s1(2)] .
  have own2: "owned s2 x = owned s x" for x by (rule owned_cong [OF s2(4,5)])
  have c2: "contents_of s2 nd = ?c" using s2(4,5) by (simp add: contents_of_def)
  obtain cd where cd: "cur_dir s2 = Some cd" "?j \<noteq> dinode cd" using cf s2(9) by (auto simp: closed_file_def)
  have reg: "is_dir (idata ?n2) = 0" "owned s ?n2 \<inter> owned s nd = {}" "inodes s ?j = None" using cf by (simp_all add: closed_file_def)
  have mr: "may_remove ?wm ?j s2 = Some (True, s2)" using may_remove_file [OF _ reg(1) cd] s2(6) by simp
  note er = dir_ok_erase [OF ok k(1), folded k(2)]
  have ofs: "0 \<le> ofs" "ofs + 20 \<le> dlength (idata nd)" "nat ofs = 20 * k"
  proof -
    have "length ?c = nat (dlength (idata nd))" by (simp add: contents_of_def)
    then show "ofs + 20 \<le> dlength (idata nd)" using k(1,3) by linarith
  qed (simp_all add: k(3) nat_mult_distrib)
  have dj: "owned s2 ?n2 \<inter> owned s2 nd = {}" using reg(2) own2 by simp
  obtain s3 where s3: "inode_write_at ?wm ?i (\<lambda>_. bytes_of_entry (e\<lparr>in_use := False\<rparr>)) 20 ofs s2 = Some (20, s3)"
    "small_file s3 f mnd ?i nd" "small_file s3 f mnd ?j ?n2" "contents_of s3 nd = patch ?c (20 * k) (bytes_of_entry (e\<lparr>in_use := False\<rparr>))"
    "inodes s3 = inodes s2" "open_inodes s3 = open_inodes s2" "used s3 = used s2" "owned s3 ?n2 = owned s2 ?n2"
    "owned s3 nd = owned s2 nd" "map_sectors s3 mnd = map_sectors s2 mnd" "device_size s3 = device_size s2"
    "\<And>y. y \<notin> owned s2 nd \<Longrightarrow> sectors s3 y = sectors s2 y"
    using erase_entry [OF s2(2,3,10) dj ofs(1,2) er(3), of ?wm] k(4) unfolding c2 ofs(3) by metis
  have "open_cnt ?n2 = 1" by (simp add: fresh_inode_def)
  from close_marked [OF s3(3) this, of depth] obtain s' where s':
    "do { s \<leftarrow> inode_remove ?j s3; inode_close ?wm (Some ?j) s } = Some s'" "map_file s' f mnd" "inodes s' = (inodes s3)(?j := None)"
    "open_inodes s' = remove1 ?j (open_inodes s3)" "device_size s' = device_size s3"
    "\<forall>y. used s' y \<longleftrightarrow> used s3 y \<and> y \<notin> owned s3 ?n2" "\<forall>y. y \<notin> map_sectors s3 mnd \<longrightarrow> sectors s' y = sectors s3 y"
    by blast
  then obtain s4 where s4: "inode_remove ?j s3 = Some s4" "inode_close ?wm (Some ?j) s4 = Some s'" by (auto simp: bind_eq_Some_conv)
  have run: "dir_remove ?wm (Some d) name s = Some (True, s')"
    using s1(1) s2(1) mr s3(1) s4 fe(2) by (simp add: dir_remove_def)
  note mf' = open_fileD [OF map_fileD(2) [OF s'(2)]]
  have sub: "map_sectors s3 mnd \<subseteq> owned s3 mnd" by (auto simp: owned_def)
  have keep: "sectors s' y = sectors s3 y" if "y \<in> owned s3 nd" for y
    using s'(7) that sub small_fileD(4) [OF s3(2)] by blast
  have in': "inodes s' ?i = Some nd" using s'(3) s3(5) s2(6,10) beside_mapD(3) [OF small_fileD(5) [OF sf]] by simp
  have l: "length (sectors s' x) = 512" if "x < device_size s3" for x using mf'(5) that s'(5) by simp
  have fr: "open_file s' ?i nd" "contents_of s' nd = contents_of s3 nd"
    using open_file_frame(1,3) [OF small_fileD(1) [OF s3(2)] mf'(1) s'(5) mf'(2) in' keep l] by blast+
  have u: "used s2 = used s" using s2(8) by (simp add: used_def [abs_def])
  have rest: "inodes s' = inodes s" "open_inodes s' = open_inodes s" using s'(3,4) s3(5,6) s2(6,7) reg(3) by (auto simp: fun_eq_iff)
  have mp: "map_sectors s3 mnd = map_sectors s mnd" using s3(10) s2(4,5) by simp
  have sec: "sectors s' y = sectors s y" if "y \<notin> owned s nd" "y \<notin> map_sectors s mnd" for y
    using that s'(7) s3(12) s2(4) mp own2 by simp
  have fin: "used s' y \<longleftrightarrow> used s y \<and> y \<notin> owned s ?n2" for y using s'(6) s3(7,8) u own2 by simp
  show ?thesis using run fr er(1,2) k(4) s3(4) rest sec fin by auto
qed

end
