(* ===== verification/Directory_Props.thy ===== *)
theory Directory_Props
  imports Directory_Remove Fs_Example
begin

text \<open>The properties of directories, with an example on a small file system.\<close>

section \<open>Looking up a name\<close>

lemma lookup_sector_of:
  assumes "open_file s (dinode d) nd" "dir_ok (contents_of s nd)" "0 \<notin> set n"
  shows "\<exists>r s'. lookup wm (Some d) n s = Some (r, s')
    \<and> map_option (\<lambda>(e, ofs). inode_sector e) r = dir_map (entries (contents_of s nd)) n"
proof -
  let ?r = "first_entry (\<lambda>e. in_use e \<and> name_of e = n) (entries (contents_of s nd)) 0"
  have "map_option (\<lambda>(e, ofs). inode_sector e) ?r = map_option inode_sector (map_option fst ?r)"
    by (cases ?r) auto
  then show ?thesis using lookup_ok [OF assms, of wm] by (auto simp: dir_map_def first_entry_find)
qed

section \<open>Examples\<close>

lemma two_sectors_lookup: "k < 2 \<Longrightarrow> data_sector mm n two_sectors k = (if k = 0 then 4 else 5)"
  by (auto simp: data_sector_def lookup_sector_def two_sectors_def less_2_cases_iff)

lemma demo_contents:
  assumes "length b \<le> 512" "m 4 = b @ replicate (512 - length b) 0" "m 5 = zeros"
  shows "contents_of (demo two_sectors m) (demo_inode two_sectors) = patch (replicate 600 0) 0 b"
proof -
  have len: "dlength two_sectors = 600" "idata (demo_inode two_sectors) = two_sectors" by (simp_all add: two_sectors_def demo_inode_def)
  have "file_byte (sectors (demo two_sectors m)) (device_size (demo two_sectors m)) two_sectors p = patch (replicate 600 0) 0 b ! p"
    if p: "p < 600" for p
  proof (cases "p < 512")
    case True
    then show ?thesis using assms
      by (simp add: file_byte_def two_sectors_lookup demo_store patch_def nth_append)
  next
    case False
    define q where "q = p - 512"
    have q: "p = q + 512" "q < 88" using False p by (simp_all add: q_def)
    have "p div 512 = 1" "p mod 512 = q" using q by simp_all
    then show ?thesis using assms q
      by (simp add: file_byte_def two_sectors_lookup demo_store patch_def nth_append zeros_def)
  qed
  then show ?thesis using assms(1) len by (intro nth_equalityI) (simp_all add: contents_of_def file_bytes_def length_patch)
qed

lemma nth_entry_zeros: "k < 30 \<Longrightarrow> \<not> in_use (nth_entry (replicate 600 0) k)"
  by (simp add: nth_entry_def entry_of_bytes_def)

lemma empty_dir: "dir_ok (replicate 600 0)" "dir_map (entries (replicate 600 0)) = Map.empty"
proof -
  have "\<not> in_use e" if "e \<in> set (entries (replicate 600 0))" for e
    using that nth_entry_zeros by (auto simp: entries_def)
  then have "filter in_use (entries (replicate 600 0)) = []" by (simp add: filter_empty_conv)
  then show "dir_ok (replicate 600 0)" "dir_map (entries (replicate 600 0)) = Map.empty"
    by (auto simp: dir_ok_def dir_map_filter fun_eq_iff filter_empty_conv)
qed

lemma demo_small_file:
  assumes "\<And>x. length (m x) = 512"
  shows "small_file (demo two_sectors m) map_handle map_inode 1 (demo_inode two_sectors)"
proof -
  have t: "length (dblock two_sectors) = 125" "- 2147483648 \<le> dlength two_sectors" "dlength two_sectors < 2147483648"
    by (simp_all add: two_sectors_def)
  note b = demo_beside_map [OF t assms]
  have "growing (demo two_sectors m) map_handle map_inode 1 (demo_inode two_sectors) 2"
    unfolding growing_def
    using b by (auto simp: demo_inode_def two_sectors_def demo_store demo_used nth_Cons' less_2_cases_iff)
  then show ?thesis using demo_growing(2) by (simp add: small_file_def demo_inode_def) (simp add: two_sectors_def)
qed

text \<open>
  A directory of 30 slots whose first one names a file of 600 bytes: its inode is in sector 6, its data in
  sectors 7 and 8.
\<close>

definition file_entry :: dir_entry where
  "file_entry = \<lparr>inode_sector = 6, ename = put_name [97] (replicate 15 0), in_use = True\<rparr>"

definition file_disk :: inode_disk where
  "file_disk = \<lparr>dlength = 600, magic = INODE_MAGIC, is_dir = 0, dblock = 7 # 8 # replicate 123 (- 1)\<rparr>"

definition dir_disk :: "block_sector_t \<Rightarrow> bytes" where
  "dir_disk = blank(4 := bytes_of_entry file_entry @ replicate 492 0, 6 := bytes_of_inode file_disk)"

lemma file_entry_fields:
  "in_use file_entry" "0 \<in> set (ename file_entry)" "length (ename file_entry) = 15" "name_of file_entry = [97]" "inode_sector file_entry = 6"
  by (simp_all add: file_entry_def put_name_def name_of_def)

lemma length_dir_disk: "length (dir_disk x) = 512"
  using entry_of_bytes_of_entry(2) [OF file_entry_fields(3)] by (simp add: dir_disk_def blank_def file_disk_def)

lemma dir_disk_contents:
  "contents_of (demo two_sectors dir_disk) (demo_inode two_sectors) = patch (replicate 600 0) 0 (bytes_of_entry file_entry)"
  using demo_contents [of "bytes_of_entry file_entry" dir_disk] entry_of_bytes_of_entry(2) [OF file_entry_fields(3)]
  by (simp add: dir_disk_def blank_def)

lemma dir_disk_dir:
  "dir_ok (contents_of (demo two_sectors dir_disk) (demo_inode two_sectors))"
  "dir_map (entries (contents_of (demo two_sectors dir_disk) (demo_inode two_sectors))) = [[97] \<mapsto> 6]"
  using dir_ok_put [OF empty_dir(1) file_entry_fields(1-3), of 0] empty_dir(2) nth_entry_zeros [of 0] file_entry_fields(4,5)
  unfolding dir_disk_contents by simp_all

lemma dir_disk_file:
  "closed_file (demo two_sectors dir_disk) map_handle map_inode (demo_inode two_sectors) 6"
  "owned (demo two_sectors dir_disk) (fresh_inode (demo two_sectors dir_disk) 6) = {6, 7, 8}"
proof -
  let ?s = "demo two_sectors dir_disk"
  let ?n = "fresh_inode ?s 6"
  let ?s' = "?s\<lparr>inodes := (inodes ?s)(next_inode ?s \<mapsto> ?n)\<rparr>"
  note sf = demo_small_file [of dir_disk, OF length_dir_disk]
  note bD = beside_mapD [OF small_fileD(5) [OF sf]]
  have d6: "dir_disk 6 = bytes_of_inode file_disk" by (simp add: dir_disk_def)
  have "inode_of_bytes (dir_disk 6) = file_disk"
    unfolding d6 by (rule inode_of_bytes_of_inode) (simp_all add: file_disk_def)
  then have n: "?n = \<lparr>isector = 6, open_cnt = 1, removed = False, deny_write_cnt = 0, lock_inode = False, idata = file_disk\<rparr>"
    by (simp add: fresh_inode_def demo_store)
  have st: "inodes ?s = [0 \<mapsto> map_inode, 1 \<mapsto> demo_inode two_sectors]" "next_inode ?s = 2" "open_inodes ?s = [1, 0]" "cur_dir ?s = Some \<lparr>dinode = 1, dpos = 0\<rparr>"
    by (simp_all add: demo_def cache_init_def)
  have z: "bytes_to_sectors (dlength file_disk) = 2" by (simp add: file_disk_def bytes_to_sectors_def)
  have b: "dblock file_disk ! 0 = 7" "dblock file_disk ! Suc 0 = 8" "2 \<le> k \<Longrightarrow> k < 125 \<Longrightarrow> dblock file_disk ! k = - 1"
    "length (dblock file_disk) = 125" for k
    by (simp_all add: file_disk_def nth_Cons')
  have "data_sectors m d file_disk = {7, 8}" for m d
    unfolding data_sectors_def z by (simp add: data_sector_def lookup_sector_def b numeral_2_eq_2 lessThan_Suc insert_commute)
  moreover have "index_sectors m file_disk = {}" for m by (simp add: index_sectors_def b)
  ultimately have own: "owned ?s ?n = {6, 7, 8}" unfolding owned_def n by simp
  then show "owned ?s ?n = {6, 7, 8}" .
  have om: "owned ?s map_inode = {0, 2}"
    using demo_beside_map(3) [of two_sectors dir_disk] length_dir_disk by (simp add: two_sectors_def)
  have o1: "owned ?s (demo_inode two_sectors) = {3, 4, 5}"
    using small_fileD(3) [OF sf] demo_growing(2)
    by (simp add: demo_inode_def lessThan_Suc numeral_2_eq_2) (auto simp: two_sectors_def)
  have mf: "map_file ?s' map_handle map_inode"
    using bD(1) st unfolding map_file_def open_file_def disk_inode_def by (auto simp: map_handle_def)
  have "beside_map ?s' map_handle map_inode 2 ?n"
    using mf om st demo_used [of 6 two_sectors dir_disk] bD(9,10) n
    by (simp add: beside_map_def owned_def used_def demo_store map_handle_def)
  moreover have "idata ?n = disk_inode ?s' ?n" by (simp add: disk_inode_def fresh_inode_def)
  moreover have "owned ?s' map_inode = {0, 2}" using om by (simp add: owned_def)
  ultimately have "small_file ?s' map_handle map_inode 2 ?n"
    using z n b demo_used [of 7 two_sectors dir_disk] demo_used [of 8 two_sectors dir_disk]
    by (simp add: small_file_def growing_def less_2_cases_iff all_conj_distrib used_def demo_store) (auto simp: file_disk_def)
  moreover have "find (has_sector ?s 6) (open_inodes ?s) = None"
    using st by (simp add: has_sector_def map_inode_def demo_inode_def)
  ultimately show "closed_file ?s map_handle map_inode (demo_inode two_sectors) 6"
    using st own o1 n by (simp add: closed_file_def file_disk_def)
qed

section \<open>Properties\<close>

text \<open>
  C15: Adding a name to a well-formed directory. A name that is empty, longer than 14 characters
  or already in the directory is refused, and the inodes, the free map and every sector stay as
  they were. Any other name is added when the directory has room within its 123 direct sectors
  and a sector of the device is free: the directory stays well-formed, its map from names to
  inode sectors gains exactly the new name, every later lookup answers according to that map, and
  no other file changes.
\<close>

theorem directory_add:
  assumes "small_file s f mnd (dinode d) nd" "dir_ok (contents_of s nd)" "0 \<notin> set name" "length junk = 20"
  shows "(name = [] \<or> 14 < length name \<or> dir_map (entries (contents_of s nd)) name \<noteq> None \<longrightarrow>
      (\<exists>s'. dir_add (free_map_write (Suc depth)) junk (Some d) name sec s = Some (False, s')
        \<and> small_file s' f mnd (dinode d) nd \<and> sectors s' = sectors s \<and> inodes s' = inodes s \<and> free_map s' = free_map s))
    \<and> (valid_name name \<and> dir_map (entries (contents_of s nd)) name = None
        \<and> dlength (idata nd) + 20 \<le> 123 * 512 \<and> 0 < free_cnt s \<longrightarrow>
      (\<exists>s' nd'. dir_add (free_map_write (Suc depth)) junk (Some d) name sec s = Some (True, s')
        \<and> small_file s' f mnd (dinode d) nd' \<and> others_kept s mnd (dinode d) nd s' \<and> dir_ok (contents_of s' nd')
        \<and> (\<forall>n. 0 \<notin> set n \<longrightarrow>
            (\<exists>r s''. lookup wm (Some d) n s' = Some (r, s'')
              \<and> map_option (\<lambda>(e, ofs). inode_sector e) r = ((dir_map (entries (contents_of s nd)))(name \<mapsto> sec)) n))))"
proof (intro conjI impI)
  assume "name = [] \<or> 14 < length name \<or> dir_map (entries (contents_of s nd)) name \<noteq> None"
  then have "\<not> valid_name name \<and> 0 \<notin> set name \<or> valid_name name \<and> dir_map (entries (contents_of s nd)) name \<noteq> None"
    using assms(3) by (auto simp: valid_name_def)
  from dir_add_taken [OF small_fileD(1) [OF assms(1)] assms(2) this, of "free_map_write (Suc depth)" junk sec]
  obtain s' where s': "dir_add (free_map_write (Suc depth)) junk (Some d) name sec s = Some (False, s')" "stored s (sectors s) s'"
    by blast
  then show "\<exists>s'. dir_add (free_map_write (Suc depth)) junk (Some d) name sec s = Some (False, s')
      \<and> small_file s' f mnd (dinode d) nd \<and> sectors s' = sectors s \<and> inodes s' = inodes s \<and> free_map s' = free_map s"
    using stored_small_file(1) [OF assms(1) s'(2)] stored_fields [OF s'(2)] by blast
next
  assume new: "valid_name name \<and> dir_map (entries (contents_of s nd)) name = None
    \<and> dlength (idata nd) + 20 \<le> 123 * 512 \<and> 0 < free_cnt s"
  then have "valid_name name" "dir_map (entries (contents_of s nd)) name = None"
    "dlength (idata nd) + 20 \<le> 123 * 512" "0 < free_cnt s" by simp_all
  from dir_add_new [OF assms(1,2) this(1,2) assms(4) this(3,4), of depth sec] obtain s' nd' where s':
    "dir_add (free_map_write (Suc depth)) junk (Some d) name sec s = Some (True, s')"
    "small_file s' f mnd (dinode d) nd'" "others_kept s mnd (dinode d) nd s'" "dir_ok (contents_of s' nd')"
    "dir_map (entries (contents_of s' nd')) = (dir_map (entries (contents_of s nd)))(name \<mapsto> sec)"
    by blast
  have "\<forall>n. 0 \<notin> set n \<longrightarrow> (\<exists>r s''. lookup wm (Some d) n s' = Some (r, s'')
      \<and> map_option (\<lambda>(e, ofs). inode_sector e) r = ((dir_map (entries (contents_of s nd)))(name \<mapsto> sec)) n)"
    using lookup_sector_of [OF small_fileD(1) [OF s'(2)] s'(4), of _ wm] unfolding s'(5) by blast
  then show "\<exists>s' nd'. dir_add (free_map_write (Suc depth)) junk (Some d) name sec s = Some (True, s')
      \<and> small_file s' f mnd (dinode d) nd' \<and> others_kept s mnd (dinode d) nd s' \<and> dir_ok (contents_of s' nd')
      \<and> (\<forall>n. 0 \<notin> set n \<longrightarrow> (\<exists>r s''. lookup wm (Some d) n s' = Some (r, s'')
          \<and> map_option (\<lambda>(e, ofs). inode_sector e) r = ((dir_map (entries (contents_of s nd)))(name \<mapsto> sec)) n))"
    using s'(1-4) by blast
qed

theorem directory_add_witness:
  "(\<exists>s' r s''. dir_add (free_map_write 1) (replicate 20 0) (Some \<lparr>dinode = 1, dpos = 0\<rparr>) [98] 9 (demo two_sectors dir_disk) = Some (True, s')
     \<and> lookup (free_map_write 1) (Some \<lparr>dinode = 1, dpos = 0\<rparr>) [98] s' = Some (r, s'') \<and> map_option (\<lambda>(e, ofs). inode_sector e) r = Some 9)
   \<and> (\<exists>s'. dir_add (free_map_write 1) (replicate 20 0) (Some \<lparr>dinode = 1, dpos = 0\<rparr>) [97] 9 (demo two_sectors dir_disk) = Some (False, s')
     \<and> sectors s' = sectors (demo two_sectors dir_disk))"
proof -
  let ?s = "demo two_sectors dir_disk" and ?d = "\<lparr>dinode = 1, dpos = 0\<rparr>"
  have sf: "small_file ?s map_handle map_inode (dinode ?d) (demo_inode two_sectors)"
    using demo_small_file [of dir_disk, OF length_dir_disk] by simp
  have h: "valid_name [98]" "dir_map (entries (contents_of ?s (demo_inode two_sectors))) [98] = None"
    "dlength (idata (demo_inode two_sectors)) + 20 \<le> 123 * 512" "0 < free_cnt ?s" "0 \<notin> set [98 :: u8]"
    "0 \<notin> set [97 :: u8]" "dir_map (entries (contents_of ?s (demo_inode two_sectors))) [97] \<noteq> None" "length (replicate 20 0 :: bytes) = 20"
    using dir_disk_dir(2) demo_free [of two_sectors dir_disk] by (simp_all add: valid_name_def demo_inode_def two_sectors_def)
  show ?thesis
    using directory_add [OF sf dir_disk_dir(1) h(5,8), of 0 9 "free_map_write 1"]
      directory_add [OF sf dir_disk_dir(1) h(6,8), of 0 9 "free_map_write 1"] h(1-5,7) by fastforce
qed

text \<open>
  C16: Removing a name that a well-formed directory maps to a regular file which is not open, has
  no holes and lies in at most 123 sectors, those the inode lists directly,
  succeeds: the name, and no other, disappears from the directory; exactly the sectors of the
  file, its inode included, become free; the open inodes are as before; and no sector outside
  the directory and the free map changes.
\<close>

theorem directory_remove:
  assumes "small_file s f mnd (dinode d) nd" "dir_ok (contents_of s nd)" "0 \<notin> set name"
    and "dir_map (entries (contents_of s nd)) name = Some sec" "closed_file s f mnd nd sec"
  shows "\<exists>s'. dir_remove (free_map_write (Suc depth)) (Some d) name s = Some (True, s')
    \<and> open_file s' (dinode d) nd \<and> dir_ok (contents_of s' nd)
    \<and> dir_map (entries (contents_of s' nd)) = (dir_map (entries (contents_of s nd)))(name := None)
    \<and> (\<forall>y. used s' y \<longleftrightarrow> used s y \<and> y \<notin> owned s (fresh_inode s sec))
    \<and> inodes s' = inodes s \<and> open_inodes s' = open_inodes s
    \<and> (\<forall>y. y \<notin> owned s nd \<and> y \<notin> map_sectors s mnd \<longrightarrow> sectors s' y = sectors s y)"
  using dir_remove_ok [OF assms] .

theorem directory_remove_witness:
  "\<exists>s'. dir_remove (free_map_write 1) (Some \<lparr>dinode = 1, dpos = 0\<rparr>) [97] (demo two_sectors dir_disk) = Some (True, s')
     \<and> dir_map (entries (contents_of s' (demo_inode two_sectors))) = Map.empty
     \<and> \<not> used s' 6 \<and> \<not> used s' 7 \<and> \<not> used s' 8 \<and> used s' 4"
proof -
  let ?s = "demo two_sectors dir_disk" and ?d = "\<lparr>dinode = 1, dpos = 0\<rparr>"
  have sf: "small_file ?s map_handle map_inode (dinode ?d) (demo_inode two_sectors)"
    using demo_small_file [of dir_disk, OF length_dir_disk] by simp
  have "dir_map (entries (contents_of ?s (demo_inode two_sectors))) [97] = Some 6" "0 \<notin> set [97 :: u8]"
    using dir_disk_dir(2) by simp_all
  from directory_remove [OF sf dir_disk_dir(1) this(2,1) dir_disk_file(1), of 0] show ?thesis
    using dir_disk_dir(2) dir_disk_file(2) demo_used [of 4 two_sectors dir_disk] by auto
qed

end
