(* ===== verification/Filesys.thy ===== *)
theory Filesys
  imports Directory Ustar
begin

text \<open>
  Path names and the operations of the file system on them (\<open>inode_open_path\<close> of
  \<open>filesys/inode.c\<close>, \<open>filesys/filesys.c\<close>), and the utilities that run on the kernel command line
  (\<open>filesys/fsutil.c\<close>): the code. Messages on the console are left out; a listing or a dump is
  the list of the lines or blocks it prints.
\<close>

section \<open>Path names\<close>

text \<open>
  The next token of a path and what is left behind the delimiter after it, as \<open>strtok_r\<close>
  returns them with the delimiters slash and backslash.
\<close>

definition is_delim :: "u8 \<Rightarrow> bool" where
  "is_delim c \<longleftrightarrow> c = 47 \<or> c = 92"

definition next_token :: "bytes \<Rightarrow> (bytes \<times> bytes) option" where
  "next_token p =
     (let t = dropWhile is_delim p
      in if t = [] then None
         else Some (takeWhile (\<lambda>c. \<not> is_delim c) t, drop 1 (dropWhile (\<lambda>c. \<not> is_delim c) t)))"

lemma next_token_shorter: "next_token p = Some (token, rest) \<Longrightarrow> length rest < length p"
proof -
  assume n: "next_token p = Some (token, rest)"
  define t where "t = dropWhile is_delim p"
  have "t \<noteq> []" "rest = drop 1 (dropWhile (\<lambda>c. \<not> is_delim c) t)" using n by (auto simp: next_token_def Let_def t_def split: if_splits)
  moreover have "length t \<le> length p" by (simp add: t_def length_dropWhile_le)
  moreover have "length (dropWhile (\<lambda>c. \<not> is_delim c) t) \<le> length t" by (rule length_dropWhile_le)
  ultimately show ?thesis by (cases t) auto
qed

text \<open>
  The walk along a path. \<open>cap\<close> is the size of the caller's buffer for the last token, which the
  copy does not respect. The result holds the error flag and the variables \<open>inode\<close>,
  \<open>file_name\<close> and \<open>working_dir\<close>.
\<close>

function path_loop ::
  "write_map \<Rightarrow> nat \<Rightarrow> bytes \<Rightarrow> bytes \<Rightarrow> nat option \<Rightarrow> dir option \<Rightarrow> fs \<Rightarrow>
   (bool \<times> nat option \<times> bytes \<times> dir option \<times> fs) option" where
  "path_loop wm cap path file_name io wd s =
     (case next_token path of
        None \<Rightarrow> Some (False, io, file_name, wd, s)
      | Some (token, rest) \<Rightarrow>
          if rest = [] then do {
            kassert (length token + 1 \<le> cap);
            path_loop wm cap rest token io wd s }
          else do {
            (io, s) \<leftarrow> dir_lookup wm wd token s;
            if io = None then Some (True, io, file_name, wd, s)
            else do {
              is_d \<leftarrow> inode_is_dir io s;
              if is_d then do {
                s \<leftarrow> dir_close wm wd s;
                (wd, s) \<leftarrow> dir_open wm io s;
                path_loop wm cap rest file_name io wd s }
              else Some (True, io, file_name, wd, s) } })"
  by pat_completeness auto
termination
  by (relation "measure (\<lambda>(wm, cap, path, _). length path)") (auto dest: next_token_shorter)

declare path_loop.simps [simp del]

definition inode_open_path :: "write_map \<Rightarrow> nat \<Rightarrow> bytes \<Rightarrow> fs \<Rightarrow> (nat option \<times> bytes \<times> fs) option" where
  "inode_open_path wm cap path_name s = do {
     let (a, s) = kalloc s;
     if path_name = [] then Some (None, [], s)
     else if path_name = SLASH then do {
       (io, s) \<leftarrow> inode_open ROOT_DIR_SECTOR s;
       Some (io, [], s) }
     else do {
       kassert a;
       (wd, s) \<leftarrow> (if hd path_name = 47 then dir_open_root wm s else dir_reopen wm (cur_dir s) s);
       (error, io, file_name, wd, s) \<leftarrow> path_loop wm cap path_name [] None wd s;
       (io, s) \<leftarrow> (if \<not> error then dir_lookup wm wd DOT s else Some (io, s));
       s \<leftarrow> dir_close wm wd s;
       Some (io, file_name, s) } }"

section \<open>The file system\<close>

definition do_format :: "write_map \<Rightarrow> bytes \<Rightarrow> fs \<Rightarrow> fs option" where
  "do_format wm junk s = do {
     s \<leftarrow> free_map_create wm s;
     (success, s) \<leftarrow> dir_create wm junk ROOT_DIR_SECTOR 16 s;
     kassert success;
     free_map_close wm s }"

text \<open>
  The device with the role of the file system, and what the memory for the bitmap holds before
  it is cleared, are arguments.
\<close>

definition filesys_init :: "write_map \<Rightarrow> bytes \<Rightarrow> u32 list \<Rightarrow> block option \<Rightarrow> bool \<Rightarrow> fs \<Rightarrow> fs option" where
  "filesys_init wm junk raw dev format s = do {
     dev \<leftarrow> dev;
     let (a, s) = kalloc (inode_init (s\<lparr>fs_device := dev\<rparr>));
     let (b, s) = kalloc s;
     created \<leftarrow> bitmap_create (block_size dev) a (if b then Some raw else None);
     s \<leftarrow> free_map_init created s;
     s \<leftarrow> (if format then do_format wm junk s else Some s);
     free_map_open wm s }"

definition filesys_done :: "write_map \<Rightarrow> fs \<Rightarrow> fs option" where
  "filesys_done wm s = do {
     s \<leftarrow> cache_flush_cache s;
     free_map_close wm s }"

text \<open>
  The common part of creating a file and a directory: a sector for the inode, the inode, and
  the entry in the directory; on failure only the sector of the inode is given back. The
  result also holds that sector.
\<close>

definition create_in ::
  "write_map \<Rightarrow> bytes \<Rightarrow> (block_sector_t \<Rightarrow> fs \<Rightarrow> (bool \<times> fs) option) \<Rightarrow> dir option \<Rightarrow> bytes \<Rightarrow> fs \<Rightarrow>
   (bool \<times> block_sector_t \<times> fs) option" where
  "create_in wm junk create d file_name s =
     (case d of
        None \<Rightarrow> Some (False, 0, s)
      | Some _ \<Rightarrow> do {
          (r, s) \<leftarrow> free_map_allocate wm 1 s;
          case r of
            None \<Rightarrow> Some (False, 0, s)
          | Some sec \<Rightarrow> do {
              (created, s) \<leftarrow> create sec s;
              (success, s) \<leftarrow> (if created then dir_add wm junk d file_name sec s else Some (False, s));
              s \<leftarrow> (if \<not> success \<and> sec \<noteq> 0 then free_map_release wm sec 1 s else Some s);
              Some (success, sec, s) } })"

definition filesys_create :: "write_map \<Rightarrow> bytes \<Rightarrow> bytes \<Rightarrow> int \<Rightarrow> fs \<Rightarrow> (bool \<times> fs) option" where
  "filesys_create wm junk name initial_size s = do {
     s \<leftarrow> must_alloc s;
     (io, file_name, s) \<leftarrow> inode_open_path wm (length name + 1) name s;
     if io = None \<and> file_name = [] then Some (False, s)
     else do {
       (d, s) \<leftarrow> dir_open wm io s;
       (success, _, s) \<leftarrow> create_in wm junk (\<lambda>sec. inode_create wm sec initial_size False) d file_name s;
       s \<leftarrow> dir_close wm d s;
       Some (success, s) } }"

definition filesys_mkdir :: "write_map \<Rightarrow> bytes \<Rightarrow> bytes \<Rightarrow> fs \<Rightarrow> (bool \<times> fs) option" where
  "filesys_mkdir wm junk name s = do {
     (io, dir_name, s) \<leftarrow> inode_open_path wm (NAME_MAX + 1) name s;
     if io = None \<and> dir_name = [] then Some (False, s)
     else do {
       (d, s) \<leftarrow> dir_open wm io s;
       (success, sec, s) \<leftarrow> create_in wm junk (\<lambda>sec. dir_create wm junk sec 2) d dir_name s;
       (success, s) \<leftarrow>
         (if success then do {
            (sio, s) \<leftarrow> inode_open sec s;
            (subdir, s) \<leftarrow> dir_open wm sio s;
            (a, s) \<leftarrow> (if subdir \<noteq> None then dir_add wm junk subdir DOT sec s else Some (False, s));
            (b, s) \<leftarrow>
              (if a then do {
                 parent \<leftarrow> dir_get_inode d;
                 psec \<leftarrow> inode_get_inumber parent s;
                 dir_add wm junk subdir DOTDOT psec s }
               else Some (False, s));
            s \<leftarrow> dir_close wm subdir s;
            Some (b, s) }
          else Some (False, s));
       s \<leftarrow> dir_close wm d s;
       Some (success, s) } }"

definition filesys_open :: "write_map \<Rightarrow> bytes \<Rightarrow> fs \<Rightarrow> (file_t option \<times> fs) option" where
  "filesys_open wm name s = do {
     s \<leftarrow> must_alloc s;
     (io_path, file_name, s) \<leftarrow> inode_open_path wm (length name + 1) name s;
     case io_path of
       None \<Rightarrow> Some (None, s)
     | Some _ \<Rightarrow> do {
         (wd, s) \<leftarrow> dir_open wm io_path s;
         let entry = (if file_name = [] then DOT else file_name);
         (io, s) \<leftarrow> dir_lookup wm wd entry s;
         (f, s) \<leftarrow> (if io \<noteq> None then file_open wm io s else Some (None, s));
         s \<leftarrow> dir_close wm wd s;
         Some (f, s) } }"

definition filesys_remove :: "write_map \<Rightarrow> bytes \<Rightarrow> fs \<Rightarrow> (bool \<times> fs) option" where
  "filesys_remove wm name s =
     (if name = SLASH then Some (False, s)
      else do {
        s \<leftarrow> must_alloc s;
        (io_path, file_name, s) \<leftarrow> inode_open_path wm (length name + 1) name s;
        case io_path of
          None \<Rightarrow> Some (False, s)
        | Some _ \<Rightarrow> do {
            (d, s) \<leftarrow> dir_open wm io_path s;
            (success, s) \<leftarrow> dir_remove wm d (if file_name = [] then DOT else file_name) s;
            s \<leftarrow> dir_close wm d s;
            Some (success, s) } })"

section \<open>Utilities\<close>

partial_function (option) ls_loop :: "write_map \<Rightarrow> dir \<Rightarrow> fs \<Rightarrow> (bytes list \<times> fs) option" where
  "ls_loop wm d s = do {
     (name, d, s) \<leftarrow> dir_readdir wm d s;
     case name of
       None \<Rightarrow> Some ([], s)
     | Some n \<Rightarrow> do { (ns, s) \<leftarrow> ls_loop wm d s; Some (n # ns, s) } }"

definition fsutil_ls :: "write_map \<Rightarrow> fs \<Rightarrow> (bytes list \<times> fs) option" where
  "fsutil_ls wm s = do {
     (d, s) \<leftarrow> dir_open_root wm s;
     d \<leftarrow> d;
     ls_loop wm d s }"

partial_function (option) cat_loop :: "write_map \<Rightarrow> file_t \<Rightarrow> fs \<Rightarrow> ((int \<times> bytes) list \<times> file_t \<times> fs) option" where
  "cat_loop wm f s = do {
     let pos = fpos f;
     (b, f, s) \<leftarrow> file_read wm f 4096 s;
     if b = [] then Some ([], f, s)
     else do { (ds, f, s) \<leftarrow> cat_loop wm f s; Some ((pos, b) # ds, f, s) } }"

definition fsutil_cat :: "write_map \<Rightarrow> bytes \<Rightarrow> fs \<Rightarrow> ((int \<times> bytes) list \<times> fs) option" where
  "fsutil_cat wm file_name s = do {
     (fo, s) \<leftarrow> filesys_open wm file_name s;
     f \<leftarrow> fo;
     s \<leftarrow> must_alloc s;
     (ds, f, s) \<leftarrow> cat_loop wm f s;
     s \<leftarrow> file_close wm (Some f) s;
     Some (ds, s) }"

definition fsutil_rm :: "write_map \<Rightarrow> bytes \<Rightarrow> fs \<Rightarrow> fs option" where
  "fsutil_rm wm file_name s = do {
     (success, s) \<leftarrow> filesys_remove wm file_name s;
     kassert success;
     Some s }"

text \<open>
  Copying from and to an archive on the scratch device. The position on that device survives
  from call to call, one for each direction.
\<close>

function copy_in :: "write_map \<Rightarrow> file_t \<Rightarrow> int \<Rightarrow> block_sector_t \<Rightarrow> block \<Rightarrow> fs \<Rightarrow> (file_t \<times> block_sector_t \<times> block \<times> fs) option" where
  "copy_in wm dst sz sec src s =
     (if sz > 0 then do {
        let chunk = (if sz > 512 then 512 else sz);
        (data, src) \<leftarrow> block_read src sec;
        (n, dst, s) \<leftarrow> file_write wm dst data chunk s;
        kassert (n = chunk);
        copy_in wm dst (sz - chunk) (sec + 1) src s }
      else Some (dst, sec, src, s))"
  by pat_completeness auto
termination by (relation "measure (\<lambda>(wm, dst, sz, _). nat sz)") auto

partial_function (option) extract_loop ::
  "write_map \<Rightarrow> bytes \<Rightarrow> block_sector_t \<Rightarrow> block \<Rightarrow> fs \<Rightarrow> (block_sector_t \<times> block \<times> fs) option" where
  "extract_loop wm junk sec src s = do {
     (header, src) \<leftarrow> block_read src sec;
     case ustar_parse_header header of
       Inl _ \<Rightarrow> None
     | Inr (file_name, type, sz) \<Rightarrow>
         (case type of
            USTAR_EOF \<Rightarrow> Some (sec + 1, src, s)
          | USTAR_DIRECTORY \<Rightarrow> extract_loop wm junk (sec + 1) src s
          | USTAR_REGULAR \<Rightarrow> do {
              name \<leftarrow> file_name;
              (created, s) \<leftarrow> filesys_create wm junk name sz s;
              kassert created;
              (fo, s) \<leftarrow> filesys_open wm name s;
              dst \<leftarrow> fo;
              (dst, sec, src, s) \<leftarrow> copy_in wm dst sz (sec + 1) src s;
              s \<leftarrow> file_close wm (Some dst) s;
              extract_loop wm junk sec src s }) }"

definition fsutil_extract ::
  "write_map \<Rightarrow> bytes \<Rightarrow> block_sector_t \<Rightarrow> block option \<Rightarrow> fs \<Rightarrow> (block_sector_t \<times> block \<times> fs) option" where
  "fsutil_extract wm junk sec src s = do {
     s \<leftarrow> must_alloc s;
     s \<leftarrow> must_alloc s;
     src \<leftarrow> src;
     (sec, src, s) \<leftarrow> extract_loop wm junk sec src s;
     src \<leftarrow> block_write src 0 (replicate BLOCK_SECTOR_SIZE 0);
     src \<leftarrow> block_write src 1 (replicate BLOCK_SECTOR_SIZE 0);
     Some (sec, src, s) }"

function copy_out :: "write_map \<Rightarrow> file_t \<Rightarrow> int \<Rightarrow> block_sector_t \<Rightarrow> block \<Rightarrow> fs \<Rightarrow> (file_t \<times> block_sector_t \<times> block \<times> fs) option" where
  "copy_out wm src sz sec dst s =
     (if sz > 0 then do {
        let chunk = (if sz > 512 then 512 else sz);
        kassert (sec < block_size dst);
        (d, src, s) \<leftarrow> file_read wm src chunk s;
        kassert (int (length d) = chunk);
        dst \<leftarrow> block_write dst sec (d @ replicate (512 - length d) 0);
        copy_out wm src (sz - chunk) (sec + 1) dst s }
      else Some (src, sec, dst, s))"
  by pat_completeness auto
termination by (relation "measure (\<lambda>(wm, src, sz, _). nat sz)") auto

declare copy_in.simps [simp del] and copy_out.simps [simp del]

text \<open>
  The end of the archive: the second block is read from one byte behind the start of the
  buffer, so that its last byte \<open>beyond\<close> lies outside, and goes to the same sector.
\<close>

definition fsutil_append ::
  "write_map \<Rightarrow> u8 \<Rightarrow> bytes \<Rightarrow> block_sector_t \<Rightarrow> block option \<Rightarrow> fs \<Rightarrow> (block_sector_t \<times> block \<times> fs) option" where
  "fsutil_append wm beyond file_name sec dst s = do {
     s \<leftarrow> must_alloc s;
     (fo, s) \<leftarrow> filesys_open wm file_name s;
     src \<leftarrow> fo;
     sz \<leftarrow> file_length (Some src) s;
     dst \<leftarrow> dst;
     header \<leftarrow> ustar_make_header file_name USTAR_REGULAR sz;
     header \<leftarrow> header;
     dst \<leftarrow> block_write dst sec header;
     (src, sec, dst, s) \<leftarrow> copy_out wm src sz (sec + 1) dst s;
     dst \<leftarrow> block_write dst sec (replicate 512 0);
     dst \<leftarrow> block_write dst sec (replicate 511 0 @ [beyond]);
     s \<leftarrow> file_close wm (Some src) s;
     Some (sec, dst, s) }"

end
