(* ===== verification/Intq.thy ===== *)
theory Intq
  imports Fifo Kernel_Boot
begin

text \<open>
  The queue between interrupt handlers and threads (\<open>devices/intq.c\<close>), the input buffer that is
  one (\<open>devices/input.c\<close>) and the keyboard driver that fills it (\<open>devices/kbd.c\<close>).

  A call that finds the queue full or empty would wait for another thread or handler, which is
  outside this model: it is \<open>None\<close>. The ring buffer implements a first-in first-out queue of 63
  bytes.
\<close>

section \<open>Interrupt queues\<close>

abbreviation (input) INTQ_BUFSIZE :: nat where "INTQ_BUFSIZE \<equiv> 64"

record intq =
  not_full :: addr
  not_empty :: addr
  buf :: "u8 list"
  head :: nat
  tail :: nat

definition intq_init :: "intq \<Rightarrow> intq" where
  "intq_init q = q\<lparr>not_full := NULL, not_empty := NULL, head := 0, tail := 0\<rparr>"

definition next_pos :: "nat \<Rightarrow> nat" where
  "next_pos pos = (pos + 1) mod INTQ_BUFSIZE"

definition intq_empty :: "intq \<Rightarrow> kernel \<Rightarrow> bool option" where
  "intq_empty q k = do { kassert (\<not> if_flag k); Some (head q = tail q) }"

definition intq_full :: "intq \<Rightarrow> kernel \<Rightarrow> bool option" where
  "intq_full q k = do { kassert (\<not> if_flag k); Some (next_pos (head q) = tail q) }"

definition signal_not_full :: "intq \<Rightarrow> kernel \<Rightarrow> (intq \<times> kernel) option" where
  "signal_not_full q k = do {
     full \<leftarrow> intq_full q k;
     kassert (\<not> full);
     if not_full q \<noteq> NULL then do {
       k \<leftarrow> thread_unblock (not_full q) k;
       Some (q\<lparr>not_full := NULL\<rparr>, k) }
     else Some (q, k) }"

definition signal_not_empty :: "intq \<Rightarrow> kernel \<Rightarrow> (intq \<times> kernel) option" where
  "signal_not_empty q k = do {
     empty \<leftarrow> intq_empty q k;
     kassert (\<not> empty);
     if not_empty q \<noteq> NULL then do {
       k \<leftarrow> thread_unblock (not_empty q) k;
       Some (q\<lparr>not_empty := NULL\<rparr>, k) }
     else Some (q, k) }"

definition intq_getc :: "intq \<times> kernel \<Rightarrow> (u8 \<times> intq \<times> kernel) option" where
  "intq_getc = (\<lambda>(q, k). do {
     empty \<leftarrow> intq_empty q k;
     kassert (\<not> empty);
     let byte = buf q ! tail q;
     (q, k) \<leftarrow> signal_not_full (q\<lparr>tail := next_pos (tail q)\<rparr>) k;
     Some (byte, q, k) })"

definition intq_putc :: "intq \<times> kernel \<Rightarrow> u8 \<Rightarrow> (intq \<times> kernel) option" where
  "intq_putc = (\<lambda>(q, k) byte. do {
     full \<leftarrow> intq_full q k;
     kassert (\<not> full);
     signal_not_empty (q\<lparr>buf := (buf q)[head q := byte], head := next_pos (head q)\<rparr>) k })"

section \<open>The ring as a queue\<close>

text \<open>The bytes from \<open>tail\<close> to \<open>head\<close>, around the end of the buffer.\<close>

definition ring :: "intq \<Rightarrow> u8 list" where
  "ring q = map (\<lambda>i. buf q ! ((tail q + i) mod 64)) [0..<(head q + 64 - tail q) mod 64]"

definition ring_ok :: "intq \<Rightarrow> bool" where
  "ring_ok q \<longleftrightarrow> length (buf q) = 64 \<and> head q < 64 \<and> tail q < 64"

definition rings :: "intq \<times> kernel \<Rightarrow> u8 list \<Rightarrow> bool" where
  "rings = (\<lambda>(q, k) xs. ring_ok q \<and> \<not> if_flag k \<and> not_full q = NULL \<and> not_empty q = NULL \<and> ring q = xs)"

lemma next_pos_cases: "p < 64 \<Longrightarrow> next_pos p = (if p = 63 then 0 else p + 1)"
  by (auto simp: next_pos_def)

lemma length_ring: "length (ring q) = (head q + 64 - tail q) mod 64"
  by (simp add: ring_def)

text \<open>The number of bytes, without the modulus.\<close>

lemma ring_count: "(h :: nat) < 64 \<Longrightarrow> t < 64 \<Longrightarrow> (h + 64 - t) mod 64 = (if t \<le> h then h - t else h + 64 - t)"
  by (auto simp: mod_if)

lemma ring_index:
  fixes h t i :: nat
  assumes "h < 64" "t < 64" "i < (if t \<le> h then h - t else h + 64 - t)"
  shows "(t + i) mod 64 \<noteq> h"
proof (cases "t + i < 64")
  case True
  then show ?thesis using assms by (auto split: if_splits)
next
  case False
  moreover have "t + i - 64 < 64" using assms by (auto split: if_splits)
  ultimately have "(t + i) mod 64 = t + i - 64" by (simp add: le_mod_geq)
  then show ?thesis using assms False by (auto split: if_splits)
qed

lemma ring_empty: "ring_ok q \<Longrightarrow> ring q = [] \<longleftrightarrow> head q = tail q"
  by (auto simp: length_ring ring_ok_def ring_count simp flip: length_0_conv)

lemma ring_full: "ring_ok q \<Longrightarrow> length (ring q) = 63 \<longleftrightarrow> next_pos (head q) = tail q"
  by (auto simp: length_ring ring_ok_def ring_count next_pos_cases)

lemma ring_put:
  assumes "ring_ok q" "next_pos (head q) \<noteq> tail q"
  shows "ring (q\<lparr>buf := (buf q)[head q := b], head := next_pos (head q)\<rparr>) = ring q @ [b]"
    "ring_ok (q\<lparr>buf := (buf q)[head q := b], head := next_pos (head q)\<rparr>)"
proof -
  have q: "length (buf q) = 64" "head q < 64" "tail q < 64" using assms(1) by (simp_all add: ring_ok_def)
  let ?n = "(head q + 64 - tail q) mod 64"
  have n: "(next_pos (head q) + 64 - tail q) mod 64 = Suc ?n"
    using q assms(2) by (auto simp: next_pos_cases ring_count split: if_splits)
  have h: "(tail q + ?n) mod 64 = head q" using q by (auto simp: ring_count mod_if)
  have "head q \<noteq> (tail q + i) mod 64" if "i < ?n" for i
    using ring_index [OF q(2,3)] that unfolding ring_count [OF q(2,3)] by metis
  then show "ring (q\<lparr>buf := (buf q)[head q := b], head := next_pos (head q)\<rparr>) = ring q @ [b]"
    using q h by (simp add: ring_def n)
  show "ring_ok (q\<lparr>buf := (buf q)[head q := b], head := next_pos (head q)\<rparr>)"
    using q by (simp add: ring_ok_def next_pos_def)
qed

lemma ring_get:
  assumes "ring_ok q" "head q \<noteq> tail q"
  shows "ring q = buf q ! tail q # ring (q\<lparr>tail := next_pos (tail q)\<rparr>)" "ring_ok (q\<lparr>tail := next_pos (tail q)\<rparr>)"
    "next_pos (head q) \<noteq> next_pos (tail q)"
proof -
  have q: "length (buf q) = 64" "head q < 64" "tail q < 64" using assms(1) by (simp_all add: ring_ok_def)
  let ?n = "(head q + 64 - tail q) mod 64"
  have n: "?n = Suc ((head q + 64 - next_pos (tail q)) mod 64)"
    using q assms(2) by (auto simp: next_pos_cases ring_count split: if_splits)
  have "(tail q + Suc i) mod 64 = (next_pos (tail q) + i) mod 64" for i by (simp add: next_pos_def mod_add_left_eq)
  then show "ring q = buf q ! tail q # ring (q\<lparr>tail := next_pos (tail q)\<rparr>)"
    using q unfolding ring_def by (simp add: n map_upt_Suc del: upt_Suc)
  show "ring_ok (q\<lparr>tail := next_pos (tail q)\<rparr>)" using q by (simp add: ring_ok_def next_pos_def)
  show "next_pos (head q) \<noteq> next_pos (tail q)" using q assms(2) by (auto simp: next_pos_cases)
qed

interpretation iq: fifo rings "\<lambda>xs e. length xs < 63" intq_putc intq_getc
proof
  fix qk :: "intq \<times> kernel" and xs e assume r: "rings qk xs" and room: "length xs < 63"
  obtain q k where qk: "qk = (q, k)" by fastforce
  have q: "ring_ok q" "\<not> if_flag k" "not_full q = NULL" "not_empty q = NULL" "ring q = xs" using r by (simp_all add: rings_def qk)
  have nf: "next_pos (head q) \<noteq> tail q" using ring_full [OF q(1)] room q(5) by auto
  note p = ring_put [OF q(1) nf, of e]
  have "next_pos (head q) \<noteq> tail (q\<lparr>buf := (buf q)[head q := e], head := next_pos (head q)\<rparr>)" using nf by simp
  then show "\<exists>qk'. intq_putc qk e = Some qk' \<and> rings qk' (xs @ [e])"
    using p q nf by (simp add: qk intq_putc_def intq_full_def signal_not_empty_def intq_empty_def rings_def)
next
  fix qk :: "intq \<times> kernel" and x xs assume r: "rings qk (x # xs)"
  obtain q k where qk: "qk = (q, k)" by fastforce
  have q: "ring_ok q" "\<not> if_flag k" "not_full q = NULL" "not_empty q = NULL" "ring q = x # xs" using r by (simp_all add: rings_def qk)
  have ne: "head q \<noteq> tail q" using ring_empty [OF q(1)] q(5) by auto
  note g = ring_get [OF q(1) ne]
  show "\<exists>qk'. intq_getc qk = Some (x, qk') \<and> rings qk' xs"
    using g q ne by (simp add: qk intq_getc_def intq_empty_def signal_not_full_def intq_full_def rings_def)
qed

section \<open>The input buffer\<close>

text \<open>Telling the serial port about room in the buffer is input and output, and left out.\<close>

definition input_init :: "intq \<Rightarrow> intq" where
  "input_init buffer = intq_init buffer"

definition input_putc :: "u8 \<Rightarrow> intq \<times> kernel \<Rightarrow> (intq \<times> kernel) option" where
  "input_putc key = (\<lambda>(buffer, k). do {
     kassert (\<not> if_flag k);
     full \<leftarrow> intq_full buffer k;
     kassert (\<not> full);
     intq_putc (buffer, k) key })"

definition input_getc :: "intq \<times> kernel \<Rightarrow> (u8 \<times> intq \<times> kernel) option" where
  "input_getc = (\<lambda>(buffer, k). do {
     let old_level = if_flag k;
     (key, buffer, k) \<leftarrow> intq_getc (buffer, intr_disable k);
     k \<leftarrow> intr_set_level old_level k;
     Some (key, buffer, k) })"

definition input_full :: "intq \<times> kernel \<Rightarrow> bool option" where
  "input_full = (\<lambda>(buffer, k). do { kassert (\<not> if_flag k); intq_full buffer k })"

section \<open>The keyboard\<close>

record kbd =
  left_shift :: bool
  right_shift :: bool
  left_alt :: bool
  right_alt :: bool
  left_ctrl :: bool
  right_ctrl :: bool
  caps_lock :: bool
  key_cnt :: int

record keymap =
  first_scancode :: u32
  chars :: "u8 list"

abbreviation (input) km :: "u32 \<Rightarrow> u8 list \<Rightarrow> keymap" where
  "km c cs \<equiv> \<lparr>first_scancode = c, chars = cs\<rparr>"

definition invariant_keymap :: "keymap list" where
  "invariant_keymap =
     [km 0x01 [27], km 0x0e [8], km 0x0f (9 # str8 ''QWERTYUIOP''), km 0x1c [13], km 0x1e (str8 ''ASDFGHJKL''),
      km 0x2c (str8 ''ZXCVBNM''), km 0x37 (str8 ''*''), km 0x39 (str8 '' ''), km 0x53 [127]]"

definition unshifted_keymap :: "keymap list" where
  "unshifted_keymap =
     [km 0x02 (str8 ''1234567890-=''), km 0x1a (str8 ''[]''), km 0x27 [59, 39, 96], km 0x2b [92], km 0x33 (str8 '',./'')]"

definition shifted_keymap :: "keymap list" where
  "shifted_keymap =
     [km 0x02 (str8 ''!@#$%^&*()_+''), km 0x1a (str8 ''{}''), km 0x27 [58, 34, 126], km 0x2b (str8 ''|''), km 0x33 (str8 ''<>?'')]"

fun map_key :: "keymap list \<Rightarrow> u32 \<Rightarrow> u8 option" where
  "map_key [] scancode = None"
| "map_key (k # ks) scancode =
     (if scancode \<ge> first_scancode k \<and> scancode < first_scancode k + of_nat (length (chars k))
      then Some (chars k ! unat (scancode - first_scancode k))
      else map_key ks scancode)"

definition tolower :: "u8 \<Rightarrow> u8" where
  "tolower c = (if 65 \<le> c \<and> c \<le> 90 then c - 65 + 97 else c)"

definition lookup_key :: "bool \<Rightarrow> u32 \<Rightarrow> u8 option" where
  "lookup_key shift code =
     (case map_key invariant_keymap code of
        Some c \<Rightarrow> Some c
      | None \<Rightarrow> if \<not> shift then map_key unshifted_keymap code else map_key shifted_keymap code)"

text \<open>The character for a key that is pressed, from the state of the other keys.\<close>

definition key_char :: "bool \<Rightarrow> bool \<Rightarrow> bool \<Rightarrow> bool \<Rightarrow> u8 \<Rightarrow> u8" where
  "key_char shift ctrl alt caps c =
     (let c = (if ctrl \<and> c \<ge> 0x40 \<and> c < 0x60 then c - 0x40
               else if shift = caps then tolower c else c)
      in if alt then c + 0x80 else c)"

definition shift_key :: "u32 \<Rightarrow> bool \<Rightarrow> kbd \<Rightarrow> kbd" where
  "shift_key code down st =
     (if code = 0x2a then st\<lparr>left_shift := down\<rparr>
      else if code = 0x36 then st\<lparr>right_shift := down\<rparr>
      else if code = 0x38 then st\<lparr>left_alt := down\<rparr>
      else if code = 0xe038 then st\<lparr>right_alt := down\<rparr>
      else if code = 0x1d then st\<lparr>left_ctrl := down\<rparr>
      else if code = 0xe01d then st\<lparr>right_ctrl := down\<rparr>
      else st)"

text \<open>
  One interrupt. The arguments are the byte in the data register and the one that follows a
  prefix. A reboot is \<open>None\<close>.
\<close>

definition keyboard_interrupt :: "u8 \<Rightarrow> u8 \<Rightarrow> kbd \<Rightarrow> intq \<times> kernel \<Rightarrow> (kbd \<times> intq \<times> kernel) option" where
  "keyboard_interrupt b1 b2 st qk = do {
     let shift = (left_shift st \<or> right_shift st);
     let alt = (left_alt st \<or> right_alt st);
     let ctrl = (left_ctrl st \<or> right_ctrl st);
     let code = (if b1 = 0xe0 then push_bit 8 (ucast b1) OR ucast b2 else ucast b1 :: u32);
     let release = (code AND 0x80 \<noteq> 0);
     let code = code AND NOT 0x80;
     if code = 0x3a then Some (if \<not> release then st\<lparr>caps_lock := \<not> caps_lock st\<rparr> else st, qk)
     else case lookup_key shift code of
       Some c \<Rightarrow>
         if \<not> release then do {
           kassert (\<not> (c = 0x7f \<and> ctrl \<and> alt));
           full \<leftarrow> input_full qk;
           if \<not> full then do {
             qk \<leftarrow> input_putc (key_char shift ctrl alt (caps_lock st) c) qk;
             Some (st\<lparr>key_cnt := s64 (key_cnt st + 1)\<rparr>, qk) }
           else Some (st, qk) }
         else Some (st, qk)
     | None \<Rightarrow> Some (shift_key code (\<not> release) st, qk) }"

section \<open>Properties\<close>

text \<open>
  C26: An interrupt queue is a first-in first-out queue of 63 bytes: any sequence of insertions
  and removals that never overfills or underruns such a queue runs on a freshly initialised
  ring without waiting and returns the bytes in the order of insertion.
\<close>

theorem intq_refines_fifo:
  assumes "length (buf q) = 64" "\<not> if_flag k"
    and "spec_queue (\<lambda>xs e. length xs < 63) [] ops = Some (outs, ys)"
  shows "\<exists>qk. run_queue intq_putc intq_getc (intq_init q, k) ops = Some (outs, qk) \<and> rings qk ys"
proof (rule iq.run_refines_spec [OF _ assms(3)])
  show "rings (intq_init q, k) []"
    using assms(1,2) by (simp add: rings_def intq_init_def ring_ok_def ring_def)
qed

definition blank_queue :: intq where
  "blank_queue = \<lparr>not_full = NULL, not_empty = NULL, buf = replicate 64 0, head = 5, tail = 7\<rparr>"

definition off_kernel :: kernel where
  "off_kernel = booted\<lparr>if_flag := False\<rparr>"

theorem intq_refines_fifo_witness:
  "\<exists>qk. run_queue intq_putc intq_getc (intq_init blank_queue, off_kernel) [Enq 1, Enq 2, Deq, Enq 3, Deq, Deq] = Some ([1, 2, 3], qk)"
  using intq_refines_fifo [of blank_queue off_kernel "[Enq 1, Enq 2, Deq, Enq 3, Deq, Deq]" "[1, 2, 3]" "[]"]
  by (auto simp: blank_queue_def off_kernel_def)

lemma map_key_mem: "map_key ks code = Some c \<Longrightarrow> (\<forall>k \<in> set ks. length (chars k) < 200 \<and> (\<forall>x \<in> set (chars k). P x)) \<Longrightarrow> P c"
proof (induction ks)
  case (Cons k ks)
  show ?case
  proof (cases "code \<ge> first_scancode k \<and> code < first_scancode k + of_nat (length (chars k))")
    case True
    let ?n = "of_nat (length (chars k)) :: u32"
    have l: "length (chars k) < 200" using Cons.prems(2) by simp
    then have "unat ?n = length (chars k)" by (simp add: unat_of_nat take_bit_nat_eq_self)
    moreover have "unat (code - first_scancode k) = unat code - unat (first_scancode k)" using True by (simp add: unat_sub)
    moreover have "unat (first_scancode k + ?n) \<le> unat (first_scancode k) + unat ?n" by (simp add: unat_word_ariths)
    moreover have "unat code < unat (first_scancode k + ?n)" "unat (first_scancode k) \<le> unat code"
      using True by (simp_all add: word_less_nat_alt word_le_nat_alt)
    ultimately have "unat (code - first_scancode k) < length (chars k)" by linarith
    then show ?thesis using True Cons.prems by auto
  next
    case False
    then show ?thesis using Cons by auto
  qed
qed simp

lemma keymaps_ascii:
  "list_all (\<lambda>k. length (chars k) < 200 \<and> list_all (\<lambda>x. x < 128) (chars k)) (invariant_keymap @ unshifted_keymap @ shifted_keymap)"
  unfolding invariant_keymap_def unshifted_keymap_def shifted_keymap_def by simp

lemma lookup_key_ascii: "lookup_key shift code = Some c \<Longrightarrow> c < 128"
proof -
  assume "lookup_key shift code = Some c"
  then obtain ks where ks: "map_key ks code = Some c" "set ks \<subseteq> set (invariant_keymap @ unshifted_keymap @ shifted_keymap)"
    by (auto simp: lookup_key_def split: option.splits if_splits)
  show ?thesis
    by (rule map_key_mem [OF ks(1)]) (use keymaps_ascii ks(2) in \<open>auto simp: list_all_iff\<close>)
qed

lemma key_char_alt: "c < 128 \<Longrightarrow> 0x80 \<le> key_char shift ctrl alt caps c \<longleftrightarrow> alt"
proof -
  assume c: "c < 128"
  let ?d = "if ctrl \<and> c \<ge> 0x40 \<and> c < 0x60 then c - 0x40 else if shift = caps then tolower c else c"
  have n: "unat c < 128" using c by (simp add: word_less_nat_alt)
  have "unat (c - 0x40) < 128" if "c \<ge> 0x40" using that n by (simp add: unat_sub word_le_nat_alt)
  moreover have "unat (tolower c) < 128"
    using n by (auto simp: tolower_def word_le_nat_alt unat_word_ariths)
  ultimately have d: "unat ?d < 128" using n by auto
  have "unat (?d + 0x80) = unat ?d + 128" using d by (simp add: unat_word_ariths)
  then show ?thesis using d unfolding key_char_def Let_def by (cases alt) (simp_all only: if_True if_False word_le_nat_alt, simp_all)
qed

lemma input_full_rings: "rings (q, k) xs \<Longrightarrow> input_full (q, k) = Some (length xs = 63)"
  using ring_full [of q] by (simp add: rings_def input_full_def intq_full_def)

lemma input_putc_rings:
  assumes "rings (q, k) xs" "length xs \<noteq> 63"
  shows "\<exists>qk. input_putc c (q, k) = Some qk \<and> rings qk (xs @ [c])"
proof -
  have q: "ring_ok q" "\<not> if_flag k" "ring q = xs" using assms(1) by (simp_all add: rings_def)
  have le: "length xs \<le> 63" using length_ring [of q] q(3) by simp
  have "next_pos (head q) \<noteq> tail q" using ring_full [OF q(1)] assms(2) q(3) by simp
  then have "input_putc c (q, k) = intq_putc (q, k) c" using q(2) by (simp add: input_putc_def intq_full_def)
  then show ?thesis using iq.enq_law [OF assms(1)] assms(2) le by simp
qed

lemma keyboard_returns:
  assumes "rings (q, k) xs" "keyboard_interrupt b1 b2 st (q, k) = None"
  shows "(left_ctrl st \<or> right_ctrl st) \<and> (left_alt st \<or> right_alt st)"
proof (rule ccontr)
  assume "\<not> ?thesis"
  moreover obtain f where "length xs \<noteq> 63 \<Longrightarrow> input_putc c (q, k) = Some (f c)" for c
    using input_putc_rings [OF assms(1)] by metis
  ultimately have "keyboard_interrupt b1 b2 st (q, k) \<noteq> None"
    by (cases "length xs = 63")
      (auto simp: keyboard_interrupt_def Let_def input_full_rings [OF assms(1)] split: option.splits)
  then show False using assms(2) by simp
qed

lemma keyboard_appends:
  assumes "rings (q, k) xs" "keyboard_interrupt b1 b2 st (q, k) = Some (st', q', k')"
  shows "rings (q', k') xs \<and> key_cnt st' = key_cnt st
    \<or> (\<exists>c. rings (q', k') (xs @ [c]) \<and> (c \<ge> 0x80 \<longleftrightarrow> left_alt st \<or> right_alt st)
         \<and> length xs < 63 \<and> key_cnt st' = s64 (key_cnt st + 1))"
proof -
  have le: "length xs \<le> 63" using length_ring [of q] assms(1) by (auto simp: rings_def)
  define shift alt ctrl where "shift = (left_shift st \<or> right_shift st)" "alt = (left_alt st \<or> right_alt st)"
    "ctrl = (left_ctrl st \<or> right_ctrl st)"
  note folds = this [symmetric]
  define code where "code = (if b1 = 0xe0 then push_bit 8 (ucast b1) OR ucast b2 else ucast b1 :: u32)"
  define code' where "code' = code AND NOT 0x80"
  have run: "keyboard_interrupt b1 b2 st (q, k) =
      (if code' = 0x3a then Some (if \<not> (code AND 0x80 \<noteq> 0) then st\<lparr>caps_lock := \<not> caps_lock st\<rparr> else st, q, k)
       else case lookup_key shift code' of
         Some c \<Rightarrow>
           if \<not> (code AND 0x80 \<noteq> 0) then do {
             kassert (\<not> (c = 0x7f \<and> ctrl \<and> alt));
             full \<leftarrow> input_full (q, k);
             if \<not> full then do {
               qk \<leftarrow> input_putc (key_char shift ctrl alt (caps_lock st) c) (q, k);
               Some (st\<lparr>key_cnt := s64 (key_cnt st + 1)\<rparr>, qk) }
             else Some (st, q, k) }
           else Some (st, q, k)
       | None \<Rightarrow> Some (shift_key code' (\<not> (code AND 0x80 \<noteq> 0)) st, q, k))"
    unfolding keyboard_interrupt_def Let_def folds code_def [symmetric] code'_def [symmetric] ..
  consider "q' = q" "k' = k" "key_cnt st' = key_cnt st"
    | c where "lookup_key shift code' = Some c" "length xs \<noteq> 63" "key_cnt st' = s64 (key_cnt st + 1)"
        "input_putc (key_char shift ctrl alt (caps_lock st) c) (q, k) = Some (q', k')"
    using assms(2) unfolding run input_full_rings [OF assms(1)]
    by (auto simp: bind_eq_Some_conv shift_key_def split: if_splits option.splits)
  then show ?thesis
  proof cases
    case 2
    let ?c = "key_char shift ctrl alt (caps_lock st) c"
    have "rings (q', k') (xs @ [?c])" using input_putc_rings [OF assms(1) 2(2), of ?c] 2(4) by auto
    moreover have "0x80 \<le> ?c \<longleftrightarrow> left_alt st \<or> right_alt st"
      using key_char_alt [OF lookup_key_ascii [OF 2(1)]] unfolding folds by blast
    moreover have "length xs < 63" using 2(2) le by simp
    ultimately show ?thesis using 2(3) by blast
  qed (use assms(1) in simp)
qed

text \<open>
  C33: Whatever the controller sends, a keyboard interrupt returns unless Ctrl and Alt are down
  together (Ctrl+Alt+Del restarts the machine). It either leaves the input buffer as it is or
  appends exactly one character to it, whose high bit is set if and only if an Alt key is down;
  it appends nothing to a full buffer and counts a key exactly when it appends.
\<close>

theorem keyboard_character:
  assumes "rings (q, k) xs"
  shows "case keyboard_interrupt b1 b2 st (q, k) of
      None \<Rightarrow> (left_ctrl st \<or> right_ctrl st) \<and> (left_alt st \<or> right_alt st)
    | Some (st', q', k') \<Rightarrow>
        rings (q', k') xs \<and> key_cnt st' = key_cnt st
        \<or> (\<exists>c. rings (q', k') (xs @ [c]) \<and> (c \<ge> 0x80 \<longleftrightarrow> left_alt st \<or> right_alt st)
             \<and> length xs < 63 \<and> key_cnt st' = s64 (key_cnt st + 1))"
proof (cases "keyboard_interrupt b1 b2 st (q, k)")
  case None
  then show ?thesis using keyboard_returns [OF assms None] by simp
next
  case (Some r)
  obtain st' q' k' where r: "r = (st', q', k')" by (cases r)
  show ?thesis using keyboard_appends [OF assms Some [unfolded r]] unfolding Some r by simp
qed

definition quiet_kbd :: kbd where
  "quiet_kbd = \<lparr>left_shift = False, right_shift = False, left_alt = True, right_alt = False, left_ctrl = False,
     right_ctrl = False, caps_lock = False, key_cnt = 0\<rparr>"

theorem keyboard_character_witness:
  "\<exists>st' q' k'. keyboard_interrupt 0x1e 0 quiet_kbd (intq_init blank_queue, off_kernel) = Some (st', q', k')
     \<and> rings (q', k') [225] \<and> key_cnt st' = 1"
proof -
  let ?q = "intq_init blank_queue"
  have r: "rings (?q, off_kernel) []"
    by (simp add: rings_def intq_init_def ring_ok_def ring_def blank_queue_def off_kernel_def)
  have f: "\<not> if_flag off_kernel" by (simp add: off_kernel_def)
  let ?q' = "?q\<lparr>buf := (buf ?q)[0 := 225], head := 1\<rparr>"
  have run: "keyboard_interrupt 0x1e 0 quiet_kbd (?q, off_kernel) = Some (quiet_kbd\<lparr>key_cnt := 1\<rparr>, ?q', off_kernel)"
    using f by (simp add: keyboard_interrupt_def quiet_kbd_def lookup_key_def invariant_keymap_def key_char_def tolower_def
        input_full_def input_putc_def intq_full_def intq_putc_def signal_not_empty_def intq_empty_def intq_init_def
        blank_queue_def next_pos_def)
  from keyboard_character [OF r, where ?b1.0 = "0x1e" and ?b2.0 = 0 and st = quiet_kbd] this have "key_cnt (quiet_kbd\<lparr>key_cnt := 1\<rparr>) = 1 \<and> rings (?q', off_kernel) (ring ?q')"
    by (auto simp: rings_def quiet_kbd_def)
  then show ?thesis using run by (auto simp: ring_def intq_init_def blank_queue_def)
qed

end
