(* ===== verification/Partition.thy ===== *)
theory Partition
  imports Disk_Format
begin

text \<open>
  Partition tables (\<open>devices/partition.c\<close>). The scan of a device reads the table in its first
  sector and registers a block device for every partition that lies within it. The tables of
  extended partitions are meant to be read recursively; the code reads the first sector again
  instead. The properties are about tables without extended partitions; the last section shows
  what an extended partition leads to.

  Messages and the names of devices are left out.
\<close>

section \<open>The code\<close>

record partition_table_entry =
  ptype :: u8
  poffset :: block_sector_t
  psize :: block_sector_t

record partition =
  part_type :: block_type
  start :: block_sector_t
  psectors :: block_sector_t
  nr :: int

record scan =
  dev :: block
  part_nr :: int
  found :: "partition list"
  mallocs :: "bool list"

definition entry_at :: "bytes \<Rightarrow> nat \<Rightarrow> partition_table_entry" where
  "entry_at t i =
     (let e = drop (446 + 16 * i) t
      in \<lparr>ptype = e ! 4, poffset = word_of_bytes (e ! 8) (e ! 9) (e ! 10) (e ! 11),
          psize = word_of_bytes (e ! 12) (e ! 13) (e ! 14) (e ! 15)\<rparr>)"

definition table_entries :: "bytes \<Rightarrow> partition_table_entry list" where
  "table_entries t = map (entry_at t) [0..<4]"

definition signature_ok :: "bytes \<Rightarrow> bool" where
  "signature_ok t \<longleftrightarrow> t ! 510 = 0x55 \<and> t ! 511 = 0xaa"

definition get_memory :: "scan \<Rightarrow> scan option" where
  "get_memory st = (case mallocs st of [] \<Rightarrow> Some st | a # as \<Rightarrow> do { kassert a; Some (st\<lparr>mallocs := as\<rparr>) })"

text \<open>
  The start of \<open>read_partition_table\<close>: the entries of the table, none if the sector lies
  behind the end of the device or the signature is wrong. The sector that is read is always 0.
\<close>

definition load_table :: "block_sector_t \<Rightarrow> scan \<Rightarrow> (partition_table_entry list \<times> scan) option" where
  "load_table sec st =
     (if sec \<ge> block_size (dev st) then Some ([], st)
      else do {
        st \<leftarrow> get_memory st;
        (pt, d) \<leftarrow> block_read (dev st) 0;
        let st = st\<lparr>dev := d\<rparr>;
        if \<not> signature_ok pt then Some ([], st) else Some (table_entries pt, st) })"

definition partition_role :: "u8 \<Rightarrow> block_type" where
  "partition_role t =
     (if t = 0x20 then BLOCK_KERNEL else if t = 0x21 then BLOCK_FILESYS else if t = 0x22 then BLOCK_SCRATCH
      else if t = 0x23 then BLOCK_SWAP else BLOCK_FOREIGN)"

definition found_partition :: "u8 \<Rightarrow> block_sector_t \<Rightarrow> block_sector_t \<Rightarrow> int \<Rightarrow> scan \<Rightarrow> scan option" where
  "found_partition type first sz pnr st =
     (if first \<ge> block_size (dev st) then Some st
      else if first + sz < first \<or> first + sz > block_size (dev st) then Some st
      else do {
        st \<leftarrow> get_memory st;
        Some (st\<lparr>found := found st @ [\<lparr>part_type = partition_role type, start = first, psectors = sz, nr = pnr\<rparr>]\<rparr>) })"

definition type_names :: "(u8 \<times> string) list" where
  "type_names =
    [(0x00, ''Empty''), (0x01, ''FAT12''), (0x02, ''XENIX root''), (0x03, ''XENIX usr''), (0x04, ''FAT16 <32M''),
     (0x05, ''Extended''), (0x06, ''FAT16''), (0x07, ''HPFS/NTFS''), (0x08, ''AIX''), (0x09, ''AIX bootable''),
     (0x0a, ''OS/2 Boot Manager''), (0x0b, ''W95 FAT32''), (0x0c, ''W95 FAT32 (LBA)''),
     (0x0e, ''W95 FAT16 (LBA)''), (0x0f, ''W95 Ext'd (LBA)''), (0x10, ''OPUS''), (0x11, ''Hidden FAT12''),
     (0x12, ''Compaq diagnostics''), (0x14, ''Hidden FAT16 <32M''), (0x16, ''Hidden FAT16''),
     (0x17, ''Hidden HPFS/NTFS''), (0x18, ''AST SmartSleep''), (0x1b, ''Hidden W95 FAT32''),
     (0x1c, ''Hidden W95 FAT32 (LBA)''), (0x1e, ''Hidden W95 FAT16 (LBA)''), (0x20, ''Pintos OS kernel''),
     (0x21, ''Pintos file system''), (0x22, ''Pintos scratch''), (0x23, ''Pintos swap''), (0x24, ''NEC DOS''),
     (0x39, ''Plan 9''), (0x3c, ''PartitionMagic recovery''), (0x40, ''Venix 80286''), (0x41, ''PPC PReP Boot''),
     (0x42, ''SFS''), (0x4d, ''QNX4.x''), (0x4e, ''QNX4.x 2nd part''), (0x4f, ''QNX4.x 3rd part''),
     (0x50, ''OnTrack DM''), (0x51, ''OnTrack DM6 Aux1''), (0x52, ''CP/M''), (0x53, ''OnTrack DM6 Aux3''),
     (0x54, ''OnTrackDM6''), (0x55, ''EZ-Drive''), (0x56, ''Golden Bow''), (0x5c, ''Priam Edisk''),
     (0x61, ''SpeedStor''), (0x63, ''GNU HURD or SysV''), (0x64, ''Novell Netware 286''),
     (0x65, ''Novell Netware 386''), (0x70, ''DiskSecure Multi-Boot''), (0x75, ''PC/IX''), (0x80, ''Old Minix''),
     (0x81, ''Minix / old Linux''), (0x82, ''Linux swap / Solaris''), (0x83, ''Linux''),
     (0x84, ''OS/2 hidden C: drive''), (0x85, ''Linux extended''), (0x86, ''NTFS volume set''),
     (0x87, ''NTFS volume set''), (0x88, ''Linux plaintext''), (0x8e, ''Linux LVM''), (0x93, ''Amoeba''),
     (0x94, ''Amoeba BBT''), (0x9f, ''BSD/OS''), (0xa0, ''IBM Thinkpad hibernation''), (0xa5, ''FreeBSD''),
     (0xa6, ''OpenBSD''), (0xa7, ''NeXTSTEP''), (0xa8, ''Darwin UFS''), (0xa9, ''NetBSD''),
     (0xab, ''Darwin boot''), (0xb7, ''BSDI fs''), (0xb8, ''BSDI swap''), (0xbb, ''Boot Wizard hidden''),
     (0xbe, ''Solaris boot''), (0xbf, ''Solaris''), (0xc1, ''DRDOS/sec (FAT-12)''),
     (0xc4, ''DRDOS/sec (FAT-16 < 32M)''), (0xc6, ''DRDOS/sec (FAT-16)''), (0xc7, ''Syrinx''),
     (0xda, ''Non-FS data''), (0xdb, ''CP/M / CTOS / ...''), (0xde, ''Dell Utility''), (0xdf, ''BootIt''),
     (0xe1, ''DOS access''), (0xe3, ''DOS R/O''), (0xe4, ''SpeedStor''), (0xeb, ''BeOS fs''), (0xee, ''EFI GPT''),
     (0xef, ''EFI (FAT-12/16/32)''), (0xf0, ''Linux/PA-RISC boot''), (0xf1, ''SpeedStor''), (0xf4, ''SpeedStor''),
     (0xf2, ''DOS secondary''), (0xfd, ''Linux raid autodetect''), (0xfe, ''LANstep''), (0xff, ''BBT'')]"

definition partition_type_name :: "u8 \<Rightarrow> string" where
  "partition_type_name type = (case map_of type_names type of Some name \<Rightarrow> name | None \<Rightarrow> ''Unknown'')"

definition is_extended :: "u8 \<Rightarrow> bool" where
  "is_extended t \<longleftrightarrow> t = 0x05 \<or> t = 0x0f \<or> t = 0x85 \<or> t = 0xc5"

partial_function (option) scan_entries ::
  "partition_table_entry list \<Rightarrow> block_sector_t \<Rightarrow> block_sector_t \<Rightarrow> scan \<Rightarrow> scan option" where
  "scan_entries es sec primary st =
     (case es of
        [] \<Rightarrow> Some st
      | e # es \<Rightarrow> do {
          st \<leftarrow> (if psize e = 0 \<or> ptype e = 0 then Some st
                  else if is_extended (ptype e) then do {
                    let sub = (if sec = 0 then poffset e else poffset e + primary);
                    let primary = (if sec = 0 then poffset e else primary);
                    (es', st) \<leftarrow> load_table sub st;
                    scan_entries es' sub primary st }
                  else do {
                    let st = st\<lparr>part_nr := part_nr st + 1\<rparr>;
                    found_partition (ptype e) (poffset e + sec) (psize e) (part_nr st) st });
          scan_entries es sec primary st })"

definition read_partition_table :: "block_sector_t \<Rightarrow> block_sector_t \<Rightarrow> scan \<Rightarrow> scan option" where
  "read_partition_table sec primary st = do {
     (es, st) \<leftarrow> load_table sec st;
     scan_entries es sec primary st }"

definition partition_scan :: "block \<Rightarrow> bool list \<Rightarrow> scan option" where
  "partition_scan b mem = read_partition_table 0 0 \<lparr>dev = b, part_nr = 0, found = [], mallocs = mem\<rparr>"

definition partition_read :: "partition \<Rightarrow> block_sector_t \<Rightarrow> block \<Rightarrow> (bytes \<times> block) option" where
  "partition_read p sec b = block_read b (start p + sec)"

definition partition_write :: "partition \<Rightarrow> block_sector_t \<Rightarrow> bytes \<Rightarrow> block \<Rightarrow> block option" where
  "partition_write p sec data b = block_write b (start p + sec) data"

section \<open>What a scan finds\<close>

text \<open>A registered partition lies within the device, so that no access to one of its sectors panics.\<close>

definition inside :: "block_sector_t \<Rightarrow> partition \<Rightarrow> bool" where
  "inside n p \<longleftrightarrow> start p < n \<and> unat (start p) + unat (psectors p) \<le> unat n"

definition scan_ok :: "block \<Rightarrow> scan \<Rightarrow> bool" where
  "scan_ok b st \<longleftrightarrow> bsize (dev st) = bsize b \<and> contents (dev st) = contents b \<and> (\<forall>p \<in> set (found st). inside (bsize b) p)"

lemma scan_ok_nr [simp]: "scan_ok b (st\<lparr>part_nr := n\<rparr>) = scan_ok b st"
  by (simp add: scan_ok_def)

lemma get_memory_ok: "get_memory st = Some st' \<Longrightarrow> dev st' = dev st \<and> found st' = found st"
  by (auto simp: get_memory_def bind_eq_Some_conv split: list.splits)

lemma load_table_ok: "scan_ok b st \<Longrightarrow> load_table sec st = Some (es, st') \<Longrightarrow> scan_ok b st'"
  by (auto simp: load_table_def scan_ok_def block_read_def block_size_def bind_eq_Some_conv Let_def dest!: get_memory_ok split: if_splits)

lemma no_wrap_sum:
  assumes "\<not> (a :: u32) + b < a"
  shows "unat (a + b) = unat a + unat b"
proof -
  have "unat a < 2 ^ 32" "unat b < 2 ^ 32" using unsigned_less [of a] unsigned_less [of b] by simp_all
  then show ?thesis using assms by (auto simp: word_less_nat_alt unat_word_ariths mod_if split: if_splits)
qed

lemma found_partition_ok:
  assumes "scan_ok b st" "found_partition t first sz pnr st = Some st'"
  shows "scan_ok b st'"
proof (cases "first \<ge> bsize (dev st) \<or> first + sz < first \<or> first + sz > bsize (dev st)")
  case True
  then show ?thesis using assms by (auto simp: found_partition_def block_size_def split: if_splits)
next
  case False
  then have "inside (bsize (dev st)) \<lparr>part_type = r, start = first, psectors = sz, nr = pnr\<rparr>" for r
    using no_wrap_sum [of first sz] by (simp add: inside_def word_le_nat_alt word_less_nat_alt not_le not_less)
  then show ?thesis using assms False
    by (auto simp: found_partition_def block_size_def scan_ok_def bind_eq_Some_conv dest!: get_memory_ok split: if_splits)
qed

text \<open>The ways in which one step of the scan can return.\<close>

lemma scan_step:
  assumes "(case es of
        [] \<Rightarrow> Some st
      | e # es \<Rightarrow> do {
          st \<leftarrow> (if psize e = 0 \<or> ptype e = 0 then Some st
                  else if is_extended (ptype e) then do {
                    let sub = (if sec = 0 then poffset e else poffset e + primary);
                    let primary = (if sec = 0 then poffset e else primary);
                    (es', st) \<leftarrow> load_table sub st;
                    rec es' sub primary st }
                  else do {
                    let st = st\<lparr>part_nr := part_nr st + 1\<rparr>;
                    found_partition (ptype e) (poffset e + sec) (psize e) (part_nr st) st });
          rec es sec primary st }) = Some st'"
  obtains "es = []" "st' = st"
  | e es' where "es = e # es'" "psize e = 0 \<or> ptype e = 0" "rec es' sec primary st = Some st'"
  | e es' es2 st2 st1 where "es = e # es'" "psize e \<noteq> 0" "is_extended (ptype e)"
      "load_table (if sec = 0 then poffset e else poffset e + primary) st = Some (es2, st2)"
      "rec es2 (if sec = 0 then poffset e else poffset e + primary) (if sec = 0 then poffset e else primary) st2 = Some st1"
      "rec es' sec primary st1 = Some st'"
  | e es' st1 where "es = e # es'" "\<not> is_extended (ptype e)"
      "found_partition (ptype e) (poffset e + sec) (psize e) (part_nr st + 1) (st\<lparr>part_nr := part_nr st + 1\<rparr>) = Some st1"
      "rec es' sec primary st1 = Some st'"
proof (cases es)
  case Nil
  then show ?thesis using that(1) assms by simp
next
  case (Cons e es')
  consider "psize e = 0 \<or> ptype e = 0" | "\<not> (psize e = 0 \<or> ptype e = 0)" "is_extended (ptype e)"
    | "\<not> (psize e = 0 \<or> ptype e = 0)" "\<not> is_extended (ptype e)" by blast
  then show ?thesis
  proof cases
    case 1
    then show ?thesis using that(2) [OF Cons] assms unfolding Cons by simp
  next
    case 2
    then show ?thesis using that(3) [OF Cons] assms unfolding Cons by (auto simp: Let_def bind_eq_Some_conv)
  next
    case 3
    then show ?thesis using that(4) [OF Cons] assms unfolding Cons by (auto simp: Let_def bind_eq_Some_conv)
  qed
qed

lemma scan_entries_keeps:
  assumes run: "scan_entries es sec primary st = Some st'"
    and load: "\<And>sec st es st'. Q st \<Longrightarrow> load_table sec st = Some (es, st') \<Longrightarrow> Q st'"
    and fnd: "\<And>t first sz n st st'. Q st \<Longrightarrow> found_partition t first sz n (st\<lparr>part_nr := n\<rparr>) = Some st' \<Longrightarrow> Q st'"
  shows "Q st \<longrightarrow> Q st'"
proof (rule scan_entries.raw_induct [where P = "\<lambda>es sec primary st st'. Q st \<longrightarrow> Q st'", OF _ run], goal_cases)
  case (1 rec es sec primary st st')
  note IH = 1(1)
  from 1(2) show ?case
  proof (rule scan_step)
    fix e es' assume "rec es' sec primary st = Some st'"
    from IH [OF this] show ?thesis .
  next
    fix x es2 st2 st1 es' sub prim
    assume "load_table (if sec = 0 then poffset x else poffset x + primary) st = Some (es2, st2)"
      "rec es2 (if sec = 0 then poffset x else poffset x + primary) (if sec = 0 then poffset x else primary) st2 = Some st1"
      "rec es' sec primary st1 = Some st'"
    then show ?thesis using load IH(1) by blast
  next
    fix x es' st1
    assume "found_partition (ptype x) (poffset x + sec) (psize x) (part_nr st + 1) (st\<lparr>part_nr := part_nr st + 1\<rparr>) = Some st1"
      "rec es' sec primary st1 = Some st'"
    then show ?thesis using fnd IH by blast
  qed simp
qed

lemma scan_entries_ok: "scan_entries es sec primary st = Some st' \<Longrightarrow> scan_ok b st \<longrightarrow> scan_ok b st'"
proof (erule scan_entries_keeps)
  show "scan_ok b st2" if "scan_ok b st1" "found_partition t first sz n (st1\<lparr>part_nr := n\<rparr>) = Some st2" for t first sz n st1 st2
    using found_partition_ok [OF _ that(2)] that(1) by simp
qed (rule load_table_ok)

text \<open>The partitions of a table, in order: those that are not empty, numbered from 1, as far as they fit.\<close>

definition present :: "partition_table_entry \<Rightarrow> bool" where
  "present e \<longleftrightarrow> psize e \<noteq> 0 \<and> ptype e \<noteq> 0"

definition fits :: "block_sector_t \<Rightarrow> partition_table_entry \<Rightarrow> bool" where
  "fits n e \<longleftrightarrow> poffset e < n \<and> unat (poffset e) + unat (psize e) \<le> unat n"

definition registered :: "block_sector_t \<Rightarrow> (nat \<times> partition_table_entry) list \<Rightarrow> partition list" where
  "registered n es =
     map (\<lambda>(i, e). \<lparr>part_type = partition_role (ptype e), start = poffset e, psectors = psize e, nr = int i\<rparr>)
       (filter (\<lambda>(i, e). fits n e) es)"

lemma found_partition_fits:
  assumes "False \<notin> set (mallocs st)" "bsize (dev st) = n"
  obtains mem where "False \<notin> set mem"
    "found_partition (ptype e) (poffset e) (psize e) (int i) st = Some (st\<lparr>found := found st @ registered n [(i, e)], mallocs := mem\<rparr>)"
proof (cases "fits n e")
  case True
  have "poffset e + psize e \<ge> poffset e \<and> poffset e + psize e \<le> n"
  proof -
    have "unat n < 2 ^ 32" using unsigned_less [of n] by simp
    then have "unat (poffset e) + unat (psize e) < 2 ^ 32" using True by (simp add: fits_def)
    then have "unat (poffset e + psize e) = unat (poffset e) + unat (psize e)" by (simp add: unat_word_ariths)
    then show ?thesis using True by (simp add: fits_def word_le_nat_alt)
  qed
  then show ?thesis using True assms that [of "tl (mallocs st)"]
    by (cases "mallocs st") (auto simp: fits_def found_partition_def block_size_def get_memory_def registered_def not_le not_less)
next
  case False
  have "poffset e \<ge> n \<or> poffset e + psize e < poffset e \<or> poffset e + psize e > n"
  proof (cases "poffset e + psize e < poffset e")
    case no_wrap: False
    then show ?thesis using no_wrap_sum [OF no_wrap] False by (simp add: fits_def word_le_nat_alt word_less_nat_alt) linarith
  qed simp
  then show ?thesis using False assms that [of "mallocs st"]
    by (auto simp: found_partition_def block_size_def registered_def)
qed

lemma scan_entries_plain:
  assumes "False \<notin> set (mallocs st)" "bsize (dev st) = n" "part_nr st = int i" "list_all (\<lambda>e. present e \<longrightarrow> \<not> is_extended (ptype e)) es"
  shows "\<exists>st'. scan_entries es 0 0 st = Some st' \<and> found st' = found st @ registered n (enumerate (Suc i) (filter present es))"
  using assms
proof (induction es arbitrary: st i)
  case Nil
  then show ?case by (simp add: scan_entries.simps registered_def)
next
  case (Cons e es)
  show ?case
  proof (cases "present e")
    case False
    then have "scan_entries (e # es) 0 0 st = scan_entries es 0 0 st" by (simp add: scan_entries.simps [of "e # es"] present_def)
    then show ?thesis using Cons.IH [of st i] Cons.prems False by simp
  next
    case True
    let ?st = "st\<lparr>part_nr := int (Suc i)\<rparr>"
    from found_partition_fits [of ?st n e "Suc i"] Cons.prems(1,2) obtain mem where mem: "False \<notin> set mem"
      "found_partition (ptype e) (poffset e) (psize e) (int (Suc i)) ?st
         = Some (?st\<lparr>found := found ?st @ registered n [(Suc i, e)], mallocs := mem\<rparr>)" by auto
    let ?st1 = "?st\<lparr>found := found ?st @ registered n [(Suc i, e)], mallocs := mem\<rparr>"
    have "scan_entries (e # es) 0 0 st = scan_entries es 0 0 ?st1"
    proof -
      have e: "\<not> (psize e = 0 \<or> ptype e = 0)" "\<not> is_extended (ptype e)" "part_nr st + 1 = int (Suc i)"
        using True Cons.prems(3,4) by (simp_all add: present_def)
      show ?thesis unfolding scan_entries.simps [of "e # es" 0 0 st] list.case using e mem(2) by (simp only: Let_def if_False) simp
    qed
    moreover have "registered n (enumerate (Suc i) (filter present (e # es)))
        = registered n [(Suc i, e)] @ registered n (enumerate (Suc (Suc i)) (filter present es))"
      using True by (simp add: registered_def)
    moreover have "\<exists>st'. scan_entries es 0 0 ?st1 = Some st' \<and> found st' = found ?st1 @ registered n (enumerate (Suc (Suc i)) (filter present es))"
      using Cons.prems(2,4) mem(1) by (intro Cons.IH) simp_all
    ultimately show ?thesis by simp
  qed
qed

lemma partition_inside_read:
  assumes "inside (bsize b) p" "sec < psectors p"
  shows "\<exists>d. partition_read p sec b = Some (contents b (start p + sec), d)"
proof -
  have "unat (start p + sec) < unat (bsize b)"
    using assms le_less_trans [of "unat (start p + sec)" "unat (start p) + unat sec"]
    by (simp add: inside_def word_less_nat_alt unat_word_ariths)
  then show ?thesis by (simp add: partition_read_def block_read_def check_sector_def word_less_nat_alt)
qed

section \<open>Extended partitions\<close>

text \<open>
  For every sector of the device, the table that \<open>read_partition_table\<close> parses is the one in
  sector 0.
\<close>

lemma load_table_again:
  assumes "scan_ok b st" "sec < bsize b" "signature_ok (contents b 0)" "load_table sec st = Some (es, st')"
  shows "es = table_entries (contents b 0)"
  using assms
  by (auto simp: load_table_def block_size_def block_read_def scan_ok_def Let_def bind_eq_Some_conv not_le [symmetric]
      dest!: get_memory_ok split: if_splits)

text \<open>
  An extended entry that is met while a nested table is scanned leads back to the same
  entry, in the same situation.
\<close>

definition endless :: "block \<Rightarrow> partition_table_entry \<Rightarrow> bool" where
  "endless b e \<longleftrightarrow>
     signature_ok (contents b 0) \<and> e \<in> set (table_entries (contents b 0)) \<and> psize e \<noteq> 0 \<and> is_extended (ptype e)
     \<and> poffset e \<noteq> 0 \<and> 2 * unat (poffset e) < unat (bsize b)"

lemma endless_sub:
  assumes "endless b e"
  shows "poffset e < bsize b" "poffset e + poffset e < bsize b" "poffset e + poffset e \<noteq> 0"
proof -
  let ?n = "unat (poffset e)"
  have n: "0 < ?n" "2 * ?n < unat (bsize b)" using assms by (auto simp: endless_def unat_gt_0)
  have "unat (bsize b) < 2 ^ 32" using unsigned_less [of "bsize b"] by simp
  then have "unat (poffset e + poffset e) = 2 * ?n" using n by (simp add: unat_word_ariths)
  then show "poffset e < bsize b" "poffset e + poffset e < bsize b" "poffset e + poffset e \<noteq> 0"
    using n by (auto simp: word_less_nat_alt simp flip: unat_eq_0)
qed

lemma found_partition_keeps: "scan_ok b st \<Longrightarrow> found_partition t first sz n (st\<lparr>part_nr := n\<rparr>) = Some st' \<Longrightarrow> scan_ok b st'"
  using found_partition_ok [of b "st\<lparr>part_nr := n\<rparr>"] by simp

lemma scan_entries_endless:
  assumes e: "endless b e" and run: "scan_entries es sec primary st = Some st'"
  shows "\<not> (e \<in> set es \<and> sec \<noteq> 0 \<and> primary = poffset e \<and> scan_ok b st) \<and> (scan_ok b st \<longrightarrow> scan_ok b st')"
proof (rule scan_entries.raw_induct [where P = "\<lambda>es sec primary st st'.
    \<not> (e \<in> set es \<and> sec \<noteq> 0 \<and> primary = poffset e \<and> scan_ok b st) \<and> (scan_ok b st \<longrightarrow> scan_ok b st')", OF _ run], goal_cases)
  case (1 rec es sec primary st st')
  note IH = 1(1)
  note load = load_table_ok and fnd = found_partition_keeps
  note sub = endless_sub [OF e]
  have ext: "psize e \<noteq> 0" "ptype e \<noteq> 0" "is_extended (ptype e)" "signature_ok (contents b 0)" "e \<in> set (table_entries (contents b 0))"
    using e by (auto simp: endless_def is_extended_def)
  from 1(2) show ?case
  proof (rule scan_step)
    fix x es' es2 st2 st1
    assume x: "es = x # es'" "load_table (if sec = 0 then poffset x else poffset x + primary) st = Some (es2, st2)"
      "rec es2 (if sec = 0 then poffset x else poffset x + primary) (if sec = 0 then poffset x else primary) st2 = Some st1"
      "rec es' sec primary st1 = Some st'"
    have keep: "scan_ok b st \<longrightarrow> scan_ok b st'" using load [OF _ x(2)] IH [OF x(3)] IH [OF x(4)] by blast
    have keep1: "scan_ok b st \<longrightarrow> scan_ok b st1" using load [OF _ x(2)] IH [OF x(3)] by blast
    have "\<not> (x = e \<and> sec \<noteq> 0 \<and> primary = poffset e \<and> scan_ok b st)"
    proof
      assume h: "x = e \<and> sec \<noteq> 0 \<and> primary = poffset e \<and> scan_ok b st"
      then have "es2 = table_entries (contents b 0)" "scan_ok b st2"
        using load_table_again [of b st "poffset e + poffset e" es2 st2] load_table_ok [of b st "poffset e + poffset e" es2 st2] sub(2) ext(4) x(2)
        by simp_all
      then show False using IH [OF x(3)] h sub(3) ext(5) by simp
    qed
    then show ?thesis using x(1) keep keep1 IH [OF x(4)] by auto
  next
    fix x es' assume x: "es = x # es'" "psize x = 0 \<or> ptype x = 0" "rec es' sec primary st = Some st'"
    have "x \<noteq> e" using x(2) ext by auto
    then show ?thesis using x(1) IH [OF x(3)] by auto
  next
    fix x es' st1
    assume x: "es = x # es'" "\<not> is_extended (ptype x)"
      "found_partition (ptype x) (poffset x + sec) (psize x) (part_nr st + 1) (st\<lparr>part_nr := part_nr st + 1\<rparr>) = Some st1"
      "rec es' sec primary st1 = Some st'"
    have "x \<noteq> e" using x(2) ext(3) by auto
    then show ?thesis using x(1) fnd [OF _ x(3)] IH [OF x(4)] by auto
  qed simp
qed

lemma scan_top_endless:
  assumes e: "endless b e" and "scan_entries es 0 0 st = Some st'" "scan_ok b st"
  shows "e \<notin> set es"
  using assms(2,3)
proof (induction es arbitrary: st)
  case (Cons x es)
  note sub = endless_sub [OF e]
  have ext: "psize e \<noteq> 0" "ptype e \<noteq> 0" "is_extended (ptype e)" "signature_ok (contents b 0)" "e \<in> set (table_entries (contents b 0))"
    using e by (auto simp: endless_def is_extended_def)
  have run: "scan_entries es 0 0 st1 = Some st' \<Longrightarrow> scan_ok b st1 \<Longrightarrow> e \<notin> set es" for st1 by (rule Cons.IH)
  note fnd = found_partition_keeps [OF Cons.prems(2)] and load = load_table_ok [OF Cons.prems(2)]
  from Cons.prems(1) [unfolded scan_entries.simps [of "x # es"]] show ?case
  proof (rule scan_step)
    fix y es' es2 st2 st1
    assume y: "x # es = y # es'" "load_table (if (0 :: u32) = 0 then poffset y else poffset y + 0) st = Some (es2, st2)"
      "scan_entries es2 (if (0 :: u32) = 0 then poffset y else poffset y + 0) (if (0 :: u32) = 0 then poffset y else 0) st2 = Some st1"
      "scan_entries es' 0 0 st1 = Some st'"
    have l: "load_table (poffset y) st = Some (es2, st2)" "scan_entries es2 (poffset y) (poffset y) st2 = Some st1" using y(2,3) by simp_all
    note st2 = load [OF l(1)]
    note en = scan_entries_endless [OF e l(2)]
    have "y \<noteq> e"
    proof
      assume h: "y = e"
      then have "es2 = table_entries (contents b 0)"
        using load_table_again [of b st "poffset e" es2 st2] Cons.prems(2) sub(1) ext(4) l(1) by simp
      then show False using en st2 h ext(5) e by (simp add: endless_def)
    qed
    then show ?thesis using y(1,4) run en st2 by auto
  next
    fix y es' assume y: "x # es = y # es'" "psize y = 0 \<or> ptype y = 0" "scan_entries es' 0 0 st = Some st'"
    then show ?thesis using run Cons.prems(2) ext(1,2) by auto
  next
    fix y es' st1
    assume y: "x # es = y # es'" "\<not> is_extended (ptype y)"
      "found_partition (ptype y) (poffset y + 0) (psize y) (part_nr st + 1) (st\<lparr>part_nr := part_nr st + 1\<rparr>) = Some st1"
      "scan_entries es' 0 0 st1 = Some st'"
    then show ?thesis using run fnd [OF y(3)] ext(3) by auto
  qed simp
qed simp

text \<open>
  A scan does not return if the table in the first sector holds an extended partition whose
  offset is not 0 and less than half the size of the device, however much memory there is: the
  code finds the same entry again in what it takes for the table of the extended partition, and
  calls itself on it until the memory or the stack runs out.
\<close>

lemma partition_scan_endless:
  assumes "endless b e"
  shows "partition_scan b mem = None"
proof (rule ccontr)
  let ?st = "\<lparr>dev = b, part_nr = 0, found = [], mallocs = mem\<rparr>"
  assume "partition_scan b mem \<noteq> None"
  then obtain es st1 st' where run: "load_table 0 ?st = Some (es, st1)" "scan_entries es 0 0 st1 = Some st'"
    by (auto simp: partition_scan_def read_partition_table_def bind_eq_Some_conv)
  have st: "scan_ok b ?st" by (simp add: scan_ok_def)
  have "0 < bsize b" using endless_sub(1) [OF assms] by (simp add: word_less_nat_alt)
  then have "es = table_entries (contents b 0)" using load_table_again [OF st _ _ run(1)] assms by (simp add: endless_def)
  then show False using scan_top_endless [OF assms run(2) load_table_ok [OF st run(1)]] assms by (simp add: endless_def)
qed

definition extended_disk :: block where
  "extended_disk = \<lparr>btype = BLOCK_RAW, bsize = 256, read_cnt = 0, write_cnt = 0,
     contents = (\<lambda>_. replicate 450 0 @ [5, 0, 0, 0, 64, 0, 0, 0, 100, 0, 0, 0] @ replicate 48 0 @ [0x55, 0xaa])\<rparr>"

lemma partition_scan_endless_example:
  "endless extended_disk \<lparr>ptype = 5, poffset = 64, psize = 100\<rparr> \<and> partition_scan extended_disk mem = None"
proof -
  have "endless extended_disk \<lparr>ptype = 5, poffset = 64, psize = 100\<rparr>"
    by (simp add: endless_def extended_disk_def signature_ok_def table_entries_def entry_at_def is_extended_def upt_rec
        nth_append word_of_bytes_def)
  then show ?thesis using partition_scan_endless by blast
qed

section \<open>Properties\<close>

text \<open>
  C40: When the partition table of a device holds no extended partition and memory does not run
  out, the scan returns and registers exactly the partitions of the table that are not empty and
  lie within the device, in the order of the table and numbered from 1 by their position among
  the partitions that are not empty; a table without signature gives none. Reading any sector
  of a registered partition then reads the sector of the device that far behind its start,
  without leaving the device.
\<close>

theorem partition_scan_exact:
  assumes "0 < bsize b" "False \<notin> set mem" "list_all (\<lambda>e. present e \<longrightarrow> \<not> is_extended (ptype e)) (table_entries (contents b 0))"
  shows "\<exists>st. partition_scan b mem = Some st
    \<and> found st = (if signature_ok (contents b 0)
        then registered (bsize b) (enumerate 1 (filter present (table_entries (contents b 0)))) else [])
    \<and> (\<forall>p \<in> set (found st). \<forall>sec < psectors p. \<exists>d. partition_read p sec b = Some (contents b (start p + sec), d))"
proof -
  let ?es = "if signature_ok (contents b 0) then table_entries (contents b 0) else []"
  let ?st = "\<lparr>dev = b\<lparr>read_cnt := read_cnt b + 1\<rparr>, part_nr = 0, found = [], mallocs = tl mem\<rparr>"
  have load: "load_table 0 \<lparr>dev = b, part_nr = 0, found = [], mallocs = mem\<rparr> = Some (?es, ?st)"
    using assms(1,2) by (cases mem)
      (auto simp: load_table_def block_size_def get_memory_def block_read_def check_sector_def Let_def not_le [symmetric])
  have "False \<notin> set (tl mem)" using assms(2) by (cases mem) simp_all
  moreover have "list_all (\<lambda>e. present e \<longrightarrow> \<not> is_extended (ptype e)) ?es" using assms(3) by simp
  ultimately obtain st where st: "scan_entries ?es 0 0 ?st = Some st" "found st = registered (bsize b) (enumerate 1 (filter present ?es))"
    using scan_entries_plain [of ?st "bsize b" 0 ?es] by force
  then have "partition_scan b mem = Some st" using load by (simp add: partition_scan_def read_partition_table_def)
  moreover have "inside (bsize b) p" if "p \<in> set (found st)" for p
    using that unfolding st(2) by (auto simp: registered_def fits_def inside_def)
  ultimately show ?thesis using st(2) partition_inside_read by (auto simp: registered_def)
qed

text \<open>In the witness, the third entry is empty and the second one ends behind the device.\<close>

definition three_entries :: block where
  "three_entries = \<lparr>btype = BLOCK_RAW, bsize = 256, read_cnt = 0, write_cnt = 0,
     contents = (\<lambda>_. replicate 450 0 @ [0x20, 0, 0, 0, 1, 0, 0, 0, 99, 0, 0, 0] @ replicate 4 0 @ [0x21, 0, 0, 0, 200, 0, 0, 0, 57, 0, 0, 0]
       @ replicate 20 0 @ [0x23, 0, 0, 0, 100, 0, 0, 0, 100, 0, 0, 0] @ [0x55, 0xaa])\<rparr>"

theorem partition_scan_exact_witness:
  "\<exists>st d. partition_scan three_entries [True] = Some st
     \<and> found st = [\<lparr>part_type = BLOCK_KERNEL, start = 1, psectors = 99, nr = 1\<rparr>, \<lparr>part_type = BLOCK_SWAP, start = 100, psectors = 100, nr = 3\<rparr>]
     \<and> partition_read \<lparr>part_type = BLOCK_SWAP, start = 100, psectors = 100, nr = 3\<rparr> 7 three_entries = Some (contents three_entries 107, d)"
proof -
  have t: "table_entries (contents three_entries 0) =
      [\<lparr>ptype = 0x20, poffset = 1, psize = 99\<rparr>, \<lparr>ptype = 0x21, poffset = 200, psize = 57\<rparr>,
       \<lparr>ptype = 0, poffset = 0, psize = 0\<rparr>, \<lparr>ptype = 0x23, poffset = 100, psize = 100\<rparr>]"
    "signature_ok (contents three_entries 0)" "bsize three_entries = 256"
    by (simp_all add: table_entries_def three_entries_def entry_at_def signature_ok_def upt_rec nth_append word_of_bytes_def)
  have "0 < bsize three_entries" "False \<notin> set [True]"
    "list_all (\<lambda>e. present e \<longrightarrow> \<not> is_extended (ptype e)) (table_entries (contents three_entries 0))"
    unfolding t by (simp_all add: present_def is_extended_def)
  from partition_scan_exact [OF this] obtain st where st: "partition_scan three_entries [True] = Some st"
    "found st = [\<lparr>part_type = BLOCK_KERNEL, start = 1, psectors = 99, nr = 1\<rparr>, \<lparr>part_type = BLOCK_SWAP, start = 100, psectors = 100, nr = 3\<rparr>]"
    "\<forall>p \<in> set (found st). \<forall>sec < psectors p. \<exists>d. partition_read p sec three_entries = Some (contents three_entries (start p + sec), d)"
    using t by (auto simp: present_def registered_def fits_def partition_role_def)
  moreover have "(7 :: u32) < 100" "100 + (7 :: u32) = 107" by simp_all
  ultimately show ?thesis using st(3) by (metis list.set_intros partition.select_convs(2,3))
qed

end
