(* ===== verification/Vaddr.thy ===== *)
theory Vaddr
  imports Disk_Format
begin

text \<open>
  Virtual addresses (\<open>threads/vaddr.h\<close>), page table entries (\<open>threads/pte.h\<close>), and the memory
  that the kernel reaches through its one-to-one mapping: a byte per address, with words in
  little-endian order.
\<close>

section \<open>Addresses\<close>

abbreviation (input) PGSIZE :: nat where "PGSIZE \<equiv> 4096"
abbreviation (input) PGMASK :: addr where "PGMASK \<equiv> 0xfff"
abbreviation (input) PHYS_BASE :: addr where "PHYS_BASE \<equiv> 0xc0000000"

definition pg_ofs :: "addr \<Rightarrow> u32" where
  "pg_ofs va = va AND PGMASK"

definition pg_no :: "addr \<Rightarrow> u32" where
  "pg_no va = drop_bit 12 va"

definition pg_round_up :: "addr \<Rightarrow> addr" where
  "pg_round_up va = (va + 4096 - 1) AND NOT PGMASK"

definition pg_round_down :: "addr \<Rightarrow> addr" where
  "pg_round_down va = va AND NOT PGMASK"

definition is_user_vaddr :: "addr \<Rightarrow> bool" where
  "is_user_vaddr va \<longleftrightarrow> va < PHYS_BASE"

definition is_kernel_vaddr :: "addr \<Rightarrow> bool" where
  "is_kernel_vaddr va \<longleftrightarrow> va \<ge> PHYS_BASE"

definition ptov :: "addr \<Rightarrow> addr option" where
  "ptov paddr = do { kassert (paddr < PHYS_BASE); Some (paddr + PHYS_BASE) }"

definition vtop :: "addr \<Rightarrow> addr option" where
  "vtop va = do { kassert (is_kernel_vaddr va); Some (va - PHYS_BASE) }"

section \<open>Page directory and page table entries\<close>

abbreviation (input) PTE_ADDR :: u32 where "PTE_ADDR \<equiv> 0xfffff000"
abbreviation (input) PTE_P :: u32 where "PTE_P \<equiv> 1"
abbreviation (input) PTE_W :: u32 where "PTE_W \<equiv> 2"
abbreviation (input) PTE_U :: u32 where "PTE_U \<equiv> 4"
abbreviation (input) PTE_A :: u32 where "PTE_A \<equiv> 0x20"
abbreviation (input) PTE_D :: u32 where "PTE_D \<equiv> 0x40"

definition pt_no :: "addr \<Rightarrow> u32" where
  "pt_no va = drop_bit 12 (va AND 0x003ff000)"

definition pd_no :: "addr \<Rightarrow> u32" where
  "pd_no va = drop_bit 22 va"

definition pde_create :: "addr \<Rightarrow> u32 option" where
  "pde_create pt = do { kassert (pg_ofs pt = 0); p \<leftarrow> vtop pt; Some (p OR PTE_U OR PTE_P OR PTE_W) }"

definition pde_get_pt :: "u32 \<Rightarrow> addr option" where
  "pde_get_pt pde = do { kassert (pde AND PTE_P \<noteq> 0); ptov (pde AND PTE_ADDR) }"

definition pte_create_kernel :: "addr \<Rightarrow> bool \<Rightarrow> u32 option" where
  "pte_create_kernel page writable = do {
     kassert (pg_ofs page = 0);
     p \<leftarrow> vtop page;
     Some (p OR PTE_P OR (if writable then PTE_W else 0)) }"

definition pte_create_user :: "addr \<Rightarrow> bool \<Rightarrow> u32 option" where
  "pte_create_user page writable = do { e \<leftarrow> pte_create_kernel page writable; Some (e OR PTE_U) }"

definition pte_get_page :: "u32 \<Rightarrow> addr option" where
  "pte_get_page pte = ptov (pte AND PTE_ADDR)"

section \<open>Memory\<close>

type_synonym memory = "addr \<Rightarrow> u8"

definition read_word :: "memory \<Rightarrow> addr \<Rightarrow> u32" where
  "read_word m p = word_of_bytes (m p) (m (p + 1)) (m (p + 2)) (m (p + 3))"

definition write_word :: "addr \<Rightarrow> u32 \<Rightarrow> memory \<Rightarrow> memory" where
  "write_word p w m =
     m(p := ucast w, p + 1 := ucast (drop_bit 8 w), p + 2 := ucast (drop_bit 16 w), p + 3 := ucast (drop_bit 24 w))"

text \<open>\<open>memset\<close> and \<open>memcpy\<close>; a region stops at the top of the memory.\<close>

definition fill :: "addr \<Rightarrow> nat \<Rightarrow> u8 \<Rightarrow> memory \<Rightarrow> memory" where
  "fill p n v m = (\<lambda>a. if unat p \<le> unat a \<and> unat a < unat p + n then v else m a)"

definition put_bytes :: "addr \<Rightarrow> bytes \<Rightarrow> memory \<Rightarrow> memory" where
  "put_bytes p bs m = (\<lambda>a. if unat p \<le> unat a \<and> unat a < unat p + length bs then bs ! (unat a - unat p) else m a)"

definition get_bytes :: "addr \<Rightarrow> nat \<Rightarrow> memory \<Rightarrow> bytes" where
  "get_bytes p n m = map (\<lambda>i. m (p + of_nat i)) [0..<n]"

section \<open>Facts\<close>

lemma unat_u32_less: "unat (a :: u32) < 2 ^ 32"
  using unsigned_less [of a] by simp

lemma pgmask_word: "(0xfff :: u32) = mask 12"
  by (simp add: mask_eq_exp_minus_1)

lemma unat_pg_ofs: "unat (pg_ofs va) = unat va mod 4096"
  unfolding pg_ofs_def pgmask_word by (simp only: take_bit_eq_mask [symmetric] unsigned_take_bit_eq) (simp add: take_bit_eq_mod)

lemma unat_pg_no: "unat (pg_no va) = unat va div 4096"
  by (simp add: pg_no_def unat_drop_bit)

lemma pg_round_down_alt: "pg_round_down va = push_bit 12 (drop_bit 12 va)"
  unfolding pg_round_down_def pgmask_word by (rule bit_word_eqI) (auto simp: bit_simps)

lemma unat_pg_round_down: "unat (pg_round_down va) = unat va - unat va mod 4096"
proof -
  have "unat va div 4096 * 4096 \<le> unat va" by simp
  then have "unat va div 4096 * 4096 < 2 ^ 32" using unat_u32_less [of va] by simp
  then show ?thesis
    by (simp add: pg_round_down_alt unat_push_bit unat_drop_bit minus_mod_eq_div_mult)
qed

lemma pg_ofs_zero: "pg_ofs va = 0 \<longleftrightarrow> unat va mod 4096 = 0"
  using unat_pg_ofs [of va] by (metis unat_0 unsigned_eq_0_iff)

lemma pg_ofs_round_down [simp]: "pg_ofs (pg_round_down va) = 0"
  by (simp add: pg_ofs_zero unat_pg_round_down minus_mod_eq_div_mult)

lemma ptov_vtop: "is_kernel_vaddr va \<Longrightarrow> va - PHYS_BASE < PHYS_BASE \<Longrightarrow> vtop va = Some p \<Longrightarrow> ptov p = Some va"
  by (auto simp: ptov_def vtop_def)

lemma word_address_inj:
  fixes p q :: addr
  assumes "unat p mod 4 = 0" "unat q mod 4 = 0" "p \<noteq> q" "i < 4" "j < 4"
  shows "p + of_nat i \<noteq> q + of_nat j"
proof -
  have b: "unat p < 2 ^ 32" "unat q < 2 ^ 32" by (rule unat_u32_less)+
  have top: "a + k < 2 ^ 32" if "a mod 4 = 0" "a < 2 ^ 32" "k < 4" for a k :: nat
    using that by simp presburger
  have "unat p + i < 2 ^ 32" "unat q + j < 2 ^ 32" by (rule top; use assms b in simp)+
  then have u: "unat (p + of_nat i) = unat p + i" "unat (q + of_nat j) = unat q + j" by (simp_all add: unat_add_of_nat)
  have "unat p \<noteq> unat q" using assms(3) by (simp add: word_unat_eq_iff)
  then have "unat p + i \<noteq> unat q + j" using assms(1,2,4,5) by presburger
  then show ?thesis using u by metis
qed

lemma read_write_same [simp]: "read_word (write_word p w m) p = w"
proof -
  have "p + 1 \<noteq> p" "p + 2 \<noteq> p" "p + 3 \<noteq> p" "p + 2 \<noteq> p + 1" "p + 3 \<noteq> p + 1" "p + 3 \<noteq> p + 2" by simp_all
  then show ?thesis by (simp add: read_word_def write_word_def word_of_bytes_of_word)
qed

lemma read_write_other:
  assumes "unat p mod 4 = 0" "unat q mod 4 = 0" "p \<noteq> q"
  shows "read_word (write_word p w m) q = read_word m q"
proof -
  have "q + of_nat j \<noteq> p + of_nat i" if "i < 4" "j < 4" for i j
    using word_address_inj [OF assms] that by metis
  from this [of 0 0] this [of 0 1] this [of 0 2] this [of 0 3] this [of 1 0] this [of 1 1] this [of 1 2] this [of 1 3]
    this [of 2 0] this [of 2 1] this [of 2 2] this [of 2 3] this [of 3 0] this [of 3 1] this [of 3 2] this [of 3 3]
  show ?thesis by (simp add: read_word_def write_word_def)
qed

text \<open>A word is not touched by changes outside its four bytes.\<close>

lemma read_word_cong:
  assumes "unat p + 4 \<le> 2 ^ 32" "\<And>a. unat p \<le> unat a \<Longrightarrow> unat a < unat p + 4 \<Longrightarrow> m' a = m a"
  shows "read_word m' p = read_word m p"
proof -
  have "m' (p + of_nat i) = m (p + of_nat i)" if "i < 4" for i
    using assms that by (intro assms(2)) (simp_all add: unat_add_of_nat)
  from this [of 0] this [of 1] this [of 2] this [of 3] show ?thesis by (simp add: read_word_def)
qed

lemma write_word_other:
  assumes "unat p + 4 \<le> 2 ^ 32" "unat a < unat p \<or> unat p + 4 \<le> unat a"
  shows "write_word p w m a = m a"
proof -
  have "a \<noteq> p + of_nat i" if "i < 4" for i
  proof
    assume "a = p + of_nat i"
    then have "unat a = unat p + i" using assms(1) that by (simp add: unat_add_of_nat)
    then show False using assms(2) that by linarith
  qed
  from this [of 0] this [of 1] this [of 2] this [of 3] show ?thesis by (simp add: write_word_def)
qed

lemma fill_other: "unat a < unat p \<or> unat p + n \<le> unat a \<Longrightarrow> fill p n v m a = m a"
  by (auto simp: fill_def)

lemma fill_inside: "unat p \<le> unat a \<Longrightarrow> unat a < unat p + n \<Longrightarrow> fill p n v m a = v"
  by (simp add: fill_def)

lemma read_word_fill:
  assumes "unat p \<le> unat q" "unat q + 4 \<le> unat p + n" "unat q + 4 \<le> 2 ^ 32"
  shows "read_word (fill p n v m) q = word_of_bytes v v v v"
proof -
  have "fill p n v m (q + of_nat i) = v" if "i < 4" for i
    using assms that by (simp add: fill_def unat_add_of_nat)
  from this [of 0] this [of 1] this [of 2] this [of 3] show ?thesis by (simp add: read_word_def)
qed

lemma put_get_bytes:
  assumes "unat p + length bs \<le> 2 ^ 32"
  shows "get_bytes p (length bs) (put_bytes p bs m) = bs"
  using assms by (intro nth_equalityI) (simp_all add: get_bytes_def put_bytes_def unat_add_of_nat)

lemma get_bytes_cong:
  assumes "unat p + n \<le> 2 ^ 32" "\<And>a. unat p \<le> unat a \<Longrightarrow> unat a < unat p + n \<Longrightarrow> m' a = m a"
  shows "get_bytes p n m' = get_bytes p n m"
  using assms by (simp add: get_bytes_def unat_add_of_nat)

text \<open>Addresses of pages, and offsets within a page.\<close>

definition aligned :: "addr \<Rightarrow> bool" where
  "aligned a \<longleftrightarrow> unat a mod 4096 = 0"

lemma aligned_top: "aligned a \<Longrightarrow> unat a + 4096 \<le> 2 ^ 32"
proof -
  assume "aligned a"
  then obtain k where "unat a = 4096 * k" by (auto simp: aligned_def)
  then show ?thesis using unat_u32_less [of a] by simp
qed

lemma unat_offset: "aligned a \<Longrightarrow> n < 4096 \<Longrightarrow> unat (a + of_nat n) = unat a + n"
  using aligned_top [of a] by (intro unat_add_of_nat) linarith

lemma round_offset:
  assumes "aligned a" "n < 4096"
  shows "pg_round_down (a + of_nat n) = a" "unat (pg_ofs (a + of_nat n)) = n"
proof -
  have "(unat a + n) mod 4096 = n" using assms by (simp add: aligned_def mod_add_eq [symmetric])
  then show "pg_round_down (a + of_nat n) = a" "unat (pg_ofs (a + of_nat n)) = n"
    using unat_offset [OF assms] by (simp_all add: word_unat_eq_iff unat_pg_round_down unat_pg_ofs)
qed

lemma aligned_offset:
  assumes "aligned a" "aligned b" "unat a + m = unat b + n" "m < 4096" "n < 4096"
  shows "m = n"
proof -
  have "m = (unat a + m) mod 4096" using assms(1,4) by (simp add: aligned_def mod_add_eq [symmetric])
  also have "\<dots> = n" using assms(2,5) unfolding assms(3) by (simp add: aligned_def mod_add_eq [symmetric])
  finally show ?thesis .
qed

end
