(* ===== verification/Palloc.thy ===== *)
theory Palloc
  imports Vaddr Bitmap "HOL-Library.Signed_Division"
begin

text \<open>
  The page allocator (\<open>threads/palloc.c\<close>): two pools of pages, each with a bitmap of its used
  pages. The bitmap of a pool lies in the pages below its base; the model keeps it in the
  record of the pool. The locks of the pools are left out: an allocation is one step.
\<close>

section \<open>The code\<close>

abbreviation (input) PAL_ASSERT :: u32 where "PAL_ASSERT \<equiv> 1"
abbreviation (input) PAL_ZERO :: u32 where "PAL_ZERO \<equiv> 2"
abbreviation (input) PAL_USER :: u32 where "PAL_USER \<equiv> 4"

record pool =
  used_map :: bitmap
  base :: addr

record pools =
  kernel_pool :: pool
  user_pool :: pool
  kmem :: memory

definition the_pool :: "bool \<Rightarrow> 'a pools_scheme \<Rightarrow> pool" where
  "the_pool user s = (if user then user_pool s else kernel_pool s)"

definition set_map :: "bool \<Rightarrow> bitmap \<Rightarrow> 'a pools_scheme \<Rightarrow> 'a pools_scheme" where
  "set_map user b s =
     (if user then s\<lparr>user_pool := (user_pool s)\<lparr>used_map := b\<rparr>\<rparr> else s\<lparr>kernel_pool := (kernel_pool s)\<lparr>used_map := b\<rparr>\<rparr>)"

definition DIV_ROUND_UP :: "u32 \<Rightarrow> u32 \<Rightarrow> u32" where
  "DIV_ROUND_UP x step = (x + step - 1) div step"

definition init_pool :: "addr \<Rightarrow> u32 \<Rightarrow> memory \<Rightarrow> pool option" where
  "init_pool start page_cnt m = do {
     let bm_pages = DIV_ROUND_UP (bitmap_buf_size page_cnt) 4096;
     kassert (bm_pages \<le> page_cnt);
     let page_cnt = page_cnt - bm_pages;
     let raw = map (\<lambda>i. read_word m (start + 8 + 4 * of_nat i)) [0..<unat (elem_cnt page_cnt)];
     b \<leftarrow> bitmap_create_in_buf page_cnt raw (bm_pages * 4096);
     Some \<lparr>used_map = b, base = start + bm_pages * 4096\<rparr> }"

definition page_from_pool :: "pool \<Rightarrow> addr \<Rightarrow> bool" where
  "page_from_pool p page \<longleftrightarrow>
     (let start_page = pg_no (base p)
      in start_page \<le> pg_no page \<and> pg_no page < start_page + bitmap_size (used_map p))"

definition palloc_init :: "u32 \<Rightarrow> u32 \<Rightarrow> memory \<Rightarrow> pools option" where
  "palloc_init user_page_limit init_ram_pages m = do {
     free_start \<leftarrow> ptov (1024 * 1024);
     free_end \<leftarrow> ptov (init_ram_pages * 4096);
     let free_pages = word_of_int (sint (free_end - free_start) sdiv 4096);
     let user_pages = free_pages div 2;
     let user_pages = (if user_pages > user_page_limit then user_page_limit else user_pages);
     let kernel_pages = free_pages - user_pages;
     k \<leftarrow> init_pool free_start kernel_pages m;
     u \<leftarrow> init_pool (free_start + kernel_pages * 4096) user_pages m;
     Some \<lparr>kernel_pool = k, user_pool = u, kmem = m\<rparr> }"

definition palloc_get_multiple :: "u32 \<Rightarrow> u32 \<Rightarrow> 'a pools_scheme \<Rightarrow> (addr \<times> 'a pools_scheme) option" where
  "palloc_get_multiple flags page_cnt s =
     (if page_cnt = 0 then Some (NULL, s)
      else do {
        let user = (flags AND PAL_USER \<noteq> 0);
        (page_idx, b) \<leftarrow> bitmap_scan_and_flip (used_map (the_pool user s)) 0 page_cnt False;
        let s = set_map user b s;
        let pages = (if page_idx \<noteq> BITMAP_ERROR then base (the_pool user s) + 4096 * page_idx else NULL);
        if pages \<noteq> NULL then
          Some (pages, if flags AND PAL_ZERO \<noteq> 0 then s\<lparr>kmem := fill pages (unat (4096 * page_cnt)) 0 (kmem s)\<rparr> else s)
        else do { kassert (flags AND PAL_ASSERT = 0); Some (NULL, s) } })"

definition palloc_get_page :: "u32 \<Rightarrow> 'a pools_scheme \<Rightarrow> (addr \<times> 'a pools_scheme) option" where
  "palloc_get_page flags s = palloc_get_multiple flags 1 s"

definition palloc_free_multiple :: "addr \<Rightarrow> u32 \<Rightarrow> 'a pools_scheme \<Rightarrow> 'a pools_scheme option" where
  "palloc_free_multiple pages page_cnt s = do {
     kassert (pg_ofs pages = 0);
     if pages = NULL \<or> page_cnt = 0 then Some s
     else do {
       user \<leftarrow> (if page_from_pool (kernel_pool s) pages then Some False
                else if page_from_pool (user_pool s) pages then Some True else None);
       let page_idx = pg_no pages - pg_no (base (the_pool user s));
       let s = s\<lparr>kmem := fill pages (unat (4096 * page_cnt)) 0xcc (kmem s)\<rparr>;
       all_used \<leftarrow> bitmap_all (used_map (the_pool user s)) page_idx page_cnt;
       kassert all_used;
       b \<leftarrow> bitmap_set_multiple (used_map (the_pool user s)) page_idx page_cnt False;
       Some (set_map user b s) } }"

definition palloc_free_page :: "addr \<Rightarrow> 'a pools_scheme \<Rightarrow> 'a pools_scheme option" where
  "palloc_free_page page s = palloc_free_multiple page 1 s"

section \<open>The invariant\<close>

definition pool_ok :: "pool \<Rightarrow> bool" where
  "pool_ok p \<longleftrightarrow> bitmap_ok (used_map p) \<and> unat (base p) mod 4096 = 0 \<and> PHYS_BASE \<le> base p
     \<and> unat (base p) + 4096 * size_of (used_map p) < 2 ^ 32"

definition pools_ok :: "'a pools_scheme \<Rightarrow> bool" where
  "pools_ok s \<longleftrightarrow> pool_ok (kernel_pool s) \<and> pool_ok (user_pool s)
     \<and> unat (base (kernel_pool s)) + 4096 * size_of (used_map (kernel_pool s)) \<le> unat (base (user_pool s))"

text \<open>The page of a pool that an address lies in is in use.\<close>

definition page_used :: "bool \<Rightarrow> 'a pools_scheme \<Rightarrow> addr \<Rightarrow> bool" where
  "page_used user s a \<longleftrightarrow>
     (let p = the_pool user s; lo = unat (base p)
      in lo \<le> unat a \<and> unat a < lo + 4096 * size_of (used_map p) \<and> bitv (used_map p) ((unat a - lo) div 4096))"

text \<open>The addresses of a group of pages.\<close>

definition in_pages :: "addr \<Rightarrow> nat \<Rightarrow> addr \<Rightarrow> bool" where
  "in_pages p n a \<longleftrightarrow> unat p \<le> unat a \<and> unat a < unat p + 4096 * n"

lemma the_pool_set_map [simp]:
  "the_pool u (set_map v b s) = (if u = v then (the_pool u s)\<lparr>used_map := b\<rparr> else the_pool u s)"
  by (auto simp: the_pool_def set_map_def)

lemma set_map_kmem [simp]: "kmem (set_map v b s) = kmem s"
  by (simp add: set_map_def)

lemma the_pool_kmem [simp]: "the_pool u (s\<lparr>kmem := m\<rparr>) = the_pool u s"
  by (simp add: the_pool_def)

lemma set_map_same [simp]: "set_map u (used_map (the_pool u s)) s = s"
  by (simp add: set_map_def the_pool_def)

lemma page_used_kmem [simp]: "page_used u (s\<lparr>kmem := m\<rparr>) a = page_used u s a"
  by (simp add: page_used_def)

lemma pools_ok_kmem [simp]: "pools_ok (s\<lparr>kmem := m\<rparr>) = pools_ok s"
  by (simp add: pools_ok_def)

lemma page_used_set_map [simp]: "u \<noteq> v \<Longrightarrow> page_used u (set_map v b s) a = page_used u s a"
  by (simp add: page_used_def)

lemma pools_okD: "pools_ok s \<Longrightarrow> pool_ok (the_pool u s)"
  by (simp add: pools_ok_def the_pool_def)

lemma pools_ok_set_map:
  assumes "pools_ok s" "bitmap_ok b" "bit_cnt b = bit_cnt (used_map (the_pool u s))"
  shows "pools_ok (set_map u b s)"
  using assms by (auto simp: pools_ok_def pool_ok_def set_map_def the_pool_def size_of_def)

lemma pool_okD:
  assumes "pool_ok p"
  shows "bitmap_ok (used_map p)" "unat (base p) mod 4096 = 0" "0xc0000000 \<le> unat (base p)"
    "unat (base p) + 4096 * size_of (used_map p) < 2 ^ 32"
  using assms by (simp_all add: pool_ok_def word_le_nat_alt)

text \<open>A group of pages of a pool, and a bitmap in which exactly this group is set or reset.\<close>

definition group :: "bool \<Rightarrow> 'a pools_scheme \<Rightarrow> addr \<Rightarrow> nat \<Rightarrow> bool" where
  "group u s p n \<longleftrightarrow> n > 0 \<and> unat p mod 4096 = 0 \<and> unat (base (the_pool u s)) \<le> unat p
     \<and> unat p + 4096 * n \<le> unat (base (the_pool u s)) + 4096 * size_of (used_map (the_pool u s))"

definition marked :: "bool \<Rightarrow> addr \<Rightarrow> nat \<Rightarrow> bool \<Rightarrow> 'a pools_scheme \<Rightarrow> bitmap \<Rightarrow> bool" where
  "marked u p n v s b \<longleftrightarrow> bitmap_ok b \<and> bit_cnt b = bit_cnt (used_map (the_pool u s))
     \<and> (\<forall>a. page_used u (set_map u b s) a = (if in_pages p n a then v else page_used u s a))"

text \<open>Page numbers within a pool and addresses.\<close>

lemma page_index:
  fixes lo a i n :: nat
  assumes "lo \<le> a"
  shows "i \<le> (a - lo) div 4096 \<and> (a - lo) div 4096 < i + n \<longleftrightarrow> lo + 4096 * i \<le> a \<and> a < lo + 4096 * i + 4096 * n"
proof -
  have "i \<le> (a - lo) div 4096 \<longleftrightarrow> 4096 * i \<le> a - lo" by (simp add: less_eq_div_iff_mult_less_eq mult.commute)
  moreover have "(a - lo) div 4096 < i + n \<longleftrightarrow> a - lo < 4096 * (i + n)" by (simp add: div_less_iff_less_mult mult.commute)
  ultimately show ?thesis using assms by auto
qed

lemma page_distance:
  fixes a lo :: nat
  assumes "a mod 4096 = 0" "lo mod 4096 = 0" "lo \<le> a"
  shows "a = lo + 4096 * ((a - lo) div 4096)"
proof -
  have "4096 dvd a - lo" using assms by (intro dvd_diff_nat) (auto simp: mod_0_imp_dvd)
  then show ?thesis using assms(3) by simp
qed

lemma marked_flipped:
  assumes "pool_ok (the_pool u s)" "group u s p n" "unat p = unat (base (the_pool u s)) + 4096 * i"
    and "bitmap_ok b" "bit_cnt b = bit_cnt (used_map (the_pool u s))"
    and "\<And>j. bitv b j = (if i \<le> j \<and> j < i + n then v else bitv (used_map (the_pool u s)) j)"
  shows "marked u p n v s b"
proof -
  let ?lo = "unat (base (the_pool u s))" and ?sz = "size_of (used_map (the_pool u s))"
  have sz: "size_of b = ?sz" using assms(5) by (simp add: size_of_def)
  have "page_used u (set_map u b s) a = (if in_pages p n a then v else page_used u s a)" for a
  proof (cases "?lo \<le> unat a \<and> unat a < ?lo + 4096 * ?sz")
    case True
    have "(i \<le> (unat a - ?lo) div 4096 \<and> (unat a - ?lo) div 4096 < i + n) = in_pages p n a"
      using page_index [of ?lo "unat a" i n] True assms(3) by (simp add: in_pages_def)
    then show ?thesis using True sz by (simp add: page_used_def Let_def assms(6))
  next
    case False
    then have "\<not> in_pages p n a" using assms(2) by (auto simp: group_def in_pages_def)
    then show ?thesis using False sz by (auto simp: page_used_def Let_def)
  qed
  then show ?thesis using assms by (simp add: marked_def)
qed

lemma run_unused:
  assumes "group u s p n" "unat p = unat (base (the_pool u s)) + 4096 * i"
    and "\<And>j. i \<le> j \<Longrightarrow> j < i + n \<Longrightarrow> bitv (used_map (the_pool u s)) j = v" "in_pages p n a"
  shows "page_used u s a = v"
proof -
  let ?lo = "unat (base (the_pool u s))"
  have "?lo \<le> unat a" "unat a < ?lo + 4096 * size_of (used_map (the_pool u s))"
    using assms(1,4) by (auto simp: group_def in_pages_def)
  moreover have "i \<le> (unat a - ?lo) div 4096 \<and> (unat a - ?lo) div 4096 < i + n"
    using page_index [of ?lo "unat a" i n] assms(2,4) \<open>?lo \<le> unat a\<close> by (simp add: in_pages_def)
  ultimately show ?thesis using assms(3) by (simp add: page_used_def)
qed

lemma in_pages_sub: "in_pages p m a \<Longrightarrow> m \<le> n \<Longrightarrow> in_pages p n a"
  by (auto simp: in_pages_def)

section \<open>Allocation\<close>

definition free_run :: "bool \<Rightarrow> 'a pools_scheme \<Rightarrow> nat \<Rightarrow> bool" where
  "free_run u s n \<longleftrightarrow> (\<exists>p. group u s p n \<and> (\<forall>a. in_pages p n a \<longrightarrow> \<not> page_used u s a))"

lemma page_address:
  assumes "pool_ok p" "i < size_of (used_map p)"
  shows "unat (base p + 4096 * of_nat i) = unat (base p) + 4096 * i"
proof -
  have "unat (base p) + 4096 * i < 2 ^ 32" using pool_okD(4) [OF assms(1)] assms(2) by linarith
  from unat_add_of_nat [OF this] show ?thesis by simp
qed

lemma free_run_iff:
  assumes "pool_ok (the_pool u s)" "n > 0"
  shows "free_run u s n \<longleftrightarrow> (\<exists>i. run_of (used_map (the_pool u s)) i n False)"
proof
  let ?q = "the_pool u s"
  let ?b = "used_map ?q" and ?lo = "unat (base ?q)"
  assume "free_run u s n"
  then obtain p where p: "group u s p n" "\<And>a. in_pages p n a \<Longrightarrow> \<not> page_used u s a" by (auto simp: free_run_def)
  define i where "i = (unat p - ?lo) div 4096"
  have pi: "unat p = ?lo + 4096 * i"
    using p(1) pool_okD(2) [OF assms(1)] unfolding i_def by (intro page_distance) (auto simp: group_def)
  have "\<not> bitv ?b j" if j: "i \<le> j" "j < i + n" for j
  proof -
    have js: "j < size_of ?b" using p(1) pi j by (simp add: group_def)
    let ?a = "base ?q + 4096 * of_nat j"
    have a: "unat ?a = ?lo + 4096 * j" using page_address [OF assms(1) js] .
    then have "in_pages p n ?a" using pi j by (simp add: in_pages_def)
    from p(2) [OF this] show ?thesis using a js by (simp add: page_used_def)
  qed
  moreover have "i + n \<le> size_of ?b" using p(1) pi by (simp add: group_def)
  ultimately have "run_of ?b i n False" by (simp add: run_of_def)
  then show "\<exists>i. run_of ?b i n False" ..
next
  let ?q = "the_pool u s"
  assume "\<exists>i. run_of (used_map ?q) i n False"
  then obtain i where i: "i + n \<le> size_of (used_map ?q)" "\<And>j. i \<le> j \<Longrightarrow> j < i + n \<Longrightarrow> bitv (used_map ?q) j = False"
    by (auto simp: run_of_def)
  let ?p = "base ?q + 4096 * of_nat i"
  have p: "unat ?p = unat (base ?q) + 4096 * i" using page_address [OF assms(1)] i(1) assms(2) by simp
  have g: "group u s ?p n" using assms i(1) p pool_okD(2) [OF assms(1)] by (simp add: group_def)
  show "free_run u s n" using g run_unused [OF g p i(2)] by (auto simp: free_run_def)
qed

lemma pools_ok_marked: "pools_ok s \<Longrightarrow> marked u p n v s b \<Longrightarrow> pools_ok (set_map u b s)"
  by (rule pools_ok_set_map) (simp_all add: marked_def)

lemma group_bounds:
  assumes "pools_ok s" "group u s p n"
  shows "unat p + 4096 * n < 2 ^ 32" "0xc0000000 \<le> unat p" "p \<noteq> NULL" "pg_ofs p = 0" "unat (4096 * of_nat n :: u32) = 4096 * n"
proof -
  show b: "unat p + 4096 * n < 2 ^ 32" "0xc0000000 \<le> unat p"
    using assms(2) pool_okD(3,4) [OF pools_okD [OF assms(1), of u]] by (auto simp: group_def)
  show "p \<noteq> NULL" using b(2) by auto
  show "pg_ofs p = 0" using assms(2) by (simp add: pg_ofs_zero group_def)
  have "4096 * n < 2 ^ 32" using b(1) by simp
  from unat_of_nat_u32 [OF this] show "unat (4096 * of_nat n :: u32) = 4096 * n" by simp
qed

lemma palloc_get_ok:
  assumes "pools_ok s" "page_cnt \<noteq> 0" "u = (flags AND PAL_USER \<noteq> 0)" "free_run u s (unat page_cnt)"
  shows "\<exists>p b. palloc_get_multiple flags page_cnt s =
      Some (p, (set_map u b s)\<lparr>kmem := if flags AND PAL_ZERO \<noteq> 0 then fill p (4096 * unat page_cnt) 0 (kmem s) else kmem s\<rparr>)
    \<and> group u s p (unat page_cnt) \<and> (\<forall>a. in_pages p (unat page_cnt) a \<longrightarrow> \<not> page_used u s a)
    \<and> marked u p (unat page_cnt) True s b"
proof -
  let ?q = "the_pool u s"
  note ok = pools_okD [OF assms(1), of u]
  have n: "0 < unat page_cnt" using assms(2) by (simp add: unat_gt_0)
  have "\<exists>i\<ge>unat (0 :: u32). run_of (used_map ?q) i (unat page_cnt) False"
    using assms(4) unfolding free_run_iff [OF ok n] by simp
  then obtain i b where run: "bitmap_scan_and_flip (used_map ?q) 0 page_cnt False = Some (of_nat i, b)"
      "(of_nat i :: u32) \<noteq> BITMAP_ERROR" "run_of (used_map ?q) i (unat page_cnt) False"
      "flipped (used_map ?q) i (unat page_cnt) True b"
    using bitmap_scan_and_flip_some [OF pool_okD(1) [OF ok] _ n, of 0 False] by auto
  let ?p = "base ?q + 4096 * of_nat i"
  have i: "i + unat page_cnt \<le> size_of (used_map ?q)" using run(3) by (simp add: run_of_def)
  then have p: "unat ?p = unat (base ?q) + 4096 * i" using page_address [OF ok] n by simp
  have g: "group u s ?p (unat page_cnt)" using n i p pool_okD(2) [OF ok] by (simp add: group_def)
  have unused: "\<not> page_used u s a" if "in_pages ?p (unat page_cnt) a" for a
    using run_unused [OF g p _ that, of False] run(3) by (auto simp: run_of_def)
  have mk: "marked u ?p (unat page_cnt) True s b"
    by (rule marked_flipped [OF ok g p]) (use run(4) in \<open>auto simp: flipped_def\<close>)
  note gb = group_bounds [OF assms(1) g]
  have sz: "unat (4096 * page_cnt) = 4096 * unat page_cnt" using gb(5) by simp
  have same: "(set_map u b s)\<lparr>kmem := kmem s\<rparr> = set_map u b s" by (simp add: set_map_def)
  have "palloc_get_multiple flags page_cnt s =
      Some (?p, (set_map u b s)\<lparr>kmem := if flags AND PAL_ZERO \<noteq> 0 then fill ?p (4096 * unat page_cnt) 0 (kmem s) else kmem s\<rparr>)"
    using gb(3) run(1,2) same assms(2,3) sz by (simp add: palloc_get_multiple_def Let_def)
  then show ?thesis using g unused mk by blast
qed

lemma palloc_get_none:
  assumes "pools_ok s" "page_cnt \<noteq> 0" "u = (flags AND PAL_USER \<noteq> 0)" "\<not> free_run u s (unat page_cnt)"
  shows "palloc_get_multiple flags page_cnt s = (if flags AND PAL_ASSERT = 0 then Some (NULL, s) else None)"
proof -
  note ok = pools_okD [OF assms(1), of u]
  have n: "0 < unat page_cnt" using assms(2) by (simp add: unat_gt_0)
  have "bitmap_scan_and_flip (used_map (the_pool u s)) 0 page_cnt False = Some (BITMAP_ERROR, used_map (the_pool u s))"
    using assms(4) unfolding free_run_iff [OF ok n] by (intro bitmap_scan_and_flip_none [OF pool_okD(1) [OF ok]]) simp_all
  then show ?thesis using assms(2,3) by (simp add: palloc_get_multiple_def Let_def)
qed

section \<open>Release\<close>

lemma page_from_pool_iff:
  assumes "pool_ok p"
  shows "page_from_pool p a \<longleftrightarrow> unat (base p) \<le> unat a \<and> unat a < unat (base p) + 4096 * size_of (used_map p)"
proof -
  note ok = pool_okD [OF assms]
  let ?k = "unat (base p) div 4096"
  have lo: "unat (base p) = 4096 * ?k" using ok(2) by auto
  have "?k + size_of (used_map p) < 2 ^ 32" using ok(4) lo by linarith
  then have "unat (pg_no (base p) + bitmap_size (used_map p)) = ?k + size_of (used_map p)"
    by (simp add: unat_word_ariths unat_pg_no bitmap_size_def size_of_def)
  then have "page_from_pool p a \<longleftrightarrow> ?k \<le> unat a div 4096 \<and> unat a div 4096 < ?k + size_of (used_map p)"
    by (simp add: page_from_pool_def Let_def word_le_nat_alt word_less_nat_alt unat_pg_no)
  then show ?thesis using page_index [of 0 "unat a" ?k "size_of (used_map p)"] lo by simp
qed

lemma group_pool:
  assumes "pools_ok s" "group u s p n"
  shows "page_from_pool (kernel_pool s) p = (\<not> u)" "page_from_pool (user_pool s) p = u"
proof -
  have b: "unat (base (the_pool u s)) \<le> unat p" "unat p < unat (base (the_pool u s)) + 4096 * size_of (used_map (the_pool u s))"
    using assms(2) by (auto simp: group_def)
  have k: "pool_ok (kernel_pool s)" "pool_ok (user_pool s)"
    "unat (base (kernel_pool s)) + 4096 * size_of (used_map (kernel_pool s)) \<le> unat (base (user_pool s))"
    using assms(1) by (simp_all add: pools_ok_def)
  show "page_from_pool (kernel_pool s) p = (\<not> u)" "page_from_pool (user_pool s) p = u"
    using b k(3) unfolding page_from_pool_iff [OF k(1)] page_from_pool_iff [OF k(2)]
    by (cases u; auto simp: the_pool_def)+
qed

lemma palloc_free_ok:
  assumes "pools_ok s" "group u s p (unat page_cnt)" "\<And>a. in_pages p (unat page_cnt) a \<Longrightarrow> page_used u s a"
  shows "\<exists>b. palloc_free_multiple p page_cnt s =
      Some (set_map u b (s\<lparr>kmem := fill p (4096 * unat page_cnt) 0xcc (kmem s)\<rparr>)) \<and> marked u p (unat page_cnt) False s b"
proof -
  let ?q = "the_pool u s"
  note ok = pools_okD [OF assms(1), of u]
  note gb = group_bounds [OF assms(1,2)]
  define i where "i = (unat p - unat (base ?q)) div 4096"
  have g: "unat page_cnt > 0" "unat p mod 4096 = 0" "unat (base ?q) \<le> unat p" using assms(2) by (simp_all add: group_def)
  have p: "unat p = unat (base ?q) + 4096 * i" unfolding i_def by (rule page_distance [OF g(2) pool_okD(2) [OF ok] g(3)])
  have i: "i + unat page_cnt \<le> size_of (used_map ?q)" using assms(2) p by (simp add: group_def)
  have idx: "unat (pg_no p - pg_no (base ?q)) = i"
    using pool_okD(2) [OF ok] p by (subst unat_sub) (auto simp: word_le_nat_alt unat_pg_no)
  have bits: "bitv (used_map ?q) j" if j: "i \<le> j" "j < i + unat page_cnt" for j
  proof -
    have js: "j < size_of (used_map ?q)" using i j by simp
    let ?a = "base ?q + 4096 * of_nat j"
    have a: "unat ?a = unat (base ?q) + 4096 * j" using page_address [OF ok js] .
    then have "in_pages p (unat page_cnt) ?a" using p j by (simp add: in_pages_def)
    from assms(3) [OF this] show ?thesis using a js by (simp add: page_used_def Let_def)
  qed
  have all: "bitmap_all (used_map ?q) (pg_no p - pg_no (base ?q)) page_cnt = Some True"
    using bitmap_contains_spec [OF pool_okD(1) [OF ok], of "pg_no p - pg_no (base ?q)" page_cnt False] idx i bits
    by (simp add: bitmap_all_def)
  obtain b where b: "bitmap_set_multiple (used_map ?q) (pg_no p - pg_no (base ?q)) page_cnt False = Some b"
      "bitmap_ok b" "bit_cnt b = bit_cnt (used_map ?q)"
      "\<And>j. bitv b j = (if i \<le> j \<and> j < i + unat page_cnt then False else bitv (used_map ?q) j)"
    using bitmap_set_multiple_spec [OF pool_okD(1) [OF ok], of "pg_no p - pg_no (base ?q)" page_cnt False] idx i by auto
  have sz: "unat (4096 * page_cnt) = 4096 * unat page_cnt" using gb(5) by simp
  have "palloc_free_multiple p page_cnt s = Some (set_map u b (s\<lparr>kmem := fill p (4096 * unat page_cnt) 0xcc (kmem s)\<rparr>))"
    using group_pool [OF assms(1,2)] gb(3,4) all b(1) sz g(1)
    by (cases u) (auto simp: palloc_free_multiple_def Let_def unat_gt_0)
  moreover have "marked u p (unat page_cnt) False s b" by (rule marked_flipped [OF ok assms(2) p b(2-)])
  ultimately show ?thesis by blast
qed

section \<open>The pools after the start\<close>

lemma unat_DIV_ROUND_UP:
  assumes "unat x + 4096 < 2 ^ 32"
  shows "unat (DIV_ROUND_UP x 4096) = (unat x + 4095) div 4096"
proof -
  have "unat (x + 4095) = unat x + 4095" using unat_add_of_nat [of x 4095] assms by simp
  then show ?thesis by (simp add: DIV_ROUND_UP_def unat_div_distrib flip: add_diff_eq)
qed

lemma unat_bitmap_buf_size:
  assumes "unat n \<le> 2 ^ 20"
  shows "unat (bitmap_buf_size n) = 8 + 4 * ((unat n + 31) div 32)"
proof -
  have e: "unat (elem_cnt n) = (unat n + 31) div 32" using assms by (intro elem_cnt_spec) simp
  moreover have "(unat n + 31) div 32 \<le> 2 ^ 20" using assms by simp
  ultimately show ?thesis by (simp add: bitmap_buf_size_def byte_cnt_def unat_word_ariths)
qed

lemma init_pool_ok:
  assumes "0 < unat cnt" "unat cnt \<le> 2 ^ 18" "unat start mod 4096 = 0" "PHYS_BASE \<le> start"
    and "unat start + 4096 * unat cnt < 2 ^ 32"
  shows "\<exists>p. init_pool start cnt m = Some p \<and> pool_ok p \<and> unat start \<le> unat (base p)
    \<and> unat (base p) + 4096 * size_of (used_map p) = unat start + 4096 * unat cnt \<and> (\<forall>j < size_of (used_map p). \<not> bitv (used_map p) j)"
proof -
  define bm where "bm = DIV_ROUND_UP (bitmap_buf_size cnt) 4096"
  have buf: "unat (bitmap_buf_size cnt) = 8 + 4 * ((unat cnt + 31) div 32)" using assms(2) by (intro unat_bitmap_buf_size) simp
  have small: "(unat cnt + 31) div 32 \<le> 2 ^ 14" using assms(2) by simp
  then have bm: "unat bm = (unat (bitmap_buf_size cnt) + 4095) div 4096"
    unfolding bm_def by (intro unat_DIV_ROUND_UP) (simp add: buf)
  have le: "unat bm \<le> unat cnt" using assms(1) unfolding bm buf by linarith
  let ?n = "cnt - bm"
  have n: "unat ?n = unat cnt - unat bm" using le by (simp add: unat_sub word_le_nat_alt)
  have room: "unat (bm * 4096) = unat bm * 4096" using le assms(2) by (simp add: unat_word_ariths)
  have "unat (bitmap_buf_size ?n) = 8 + 4 * ((unat ?n + 31) div 32)" using assms(2) n by (intro unat_bitmap_buf_size) simp
  then have "unat (bitmap_buf_size ?n) \<le> unat (bitmap_buf_size cnt)" using n by (simp add: buf div_le_mono)
  also have "\<dots> \<le> unat bm * 4096" unfolding bm by linarith
  finally have fits: "bitmap_buf_size ?n \<le> bm * 4096" by (simp add: word_le_nat_alt room)
  let ?raw = "map (\<lambda>i. read_word m (start + 8 + 4 * of_nat i)) [0..<unat (elem_cnt ?n)]"
  have unat_le: "unat ?n \<le> 2 ^ 32 - 32" using assms(2) n by simp
  obtain b where b: "bitmap_create_in_buf ?n ?raw (bm * 4096) = Some b" "bitmap_ok b" "bit_cnt b = ?n" "\<And>j. j < unat ?n \<Longrightarrow> \<not> bitv b j"
    using bitmap_create_in_buf_spec [OF _ _ fits, of ?raw] unat_le by auto
  have start: "unat (start + bm * 4096) = unat start + unat bm * 4096"
    using unat_add_of_nat [of start "unat (bm * 4096)"] room assms(5) le by simp
  let ?p = "\<lparr>used_map = b, base = start + bm * 4096\<rparr>"
  have run: "init_pool start cnt m = Some ?p" using le b(1) by (simp add: init_pool_def Let_def word_le_nat_alt flip: bm_def)
  have "unat (base ?p) + 4096 * size_of (used_map ?p) = unat start + 4096 * unat cnt"
    using start le n b(3) by (simp add: size_of_def)
  moreover have "unat (base ?p) mod 4096 = 0" using assms(3) start by simp
  moreover have "PHYS_BASE \<le> base ?p" using assms(4) start by (simp add: word_le_nat_alt)
  ultimately show ?thesis using run b assms(5) start by (auto simp: pool_ok_def size_of_def)
qed

text \<open>
  A machine with between 258 pages and just under 1 GB of memory, and a limit that leaves the user
  pool at least one page: the start of the allocator succeeds and all pages are free.
\<close>

lemma palloc_init_ok:
  assumes "258 \<le> unat ram" "unat ram < 0x40000" "0 < unat limit"
  shows "\<exists>s. palloc_init limit ram m = Some s \<and> pools_ok s \<and> (\<forall>u a. \<not> page_used u s a)"
proof -
  let ?F = "unat ram - 256"
  have r4: "unat (ram * 4096) = unat ram * 4096" using assms(2) by (simp add: unat_word_ariths)
  have top: "unat (ram * 4096 + PHYS_BASE) = unat ram * 4096 + 0xc0000000"
    using r4 assms(2) by (simp add: unat_word_ariths)
  have diff: "unat (ram * 4096 + PHYS_BASE - 0xc0100000) = ?F * 4096"
    using assms(1) by (subst unat_sub) (auto simp: word_le_nat_alt top)
  have "uint (ram * 4096 + PHYS_BASE - 0xc0100000) = int (?F * 4096)" using diff by (metis uint_nat)
  then have "sint (ram * 4096 + PHYS_BASE - 0xc0100000) = int (?F * 4096)"
    using assms(2) by (simp add: sint_uint signed_take_bit_int_eq_self)
  then have "sint (ram * 4096 + PHYS_BASE - 0xc0100000) sdiv 4096 = int ?F"
    using assms(1) by (simp add: signed_divide_int_def sgn_if)
  define fp :: u32 where "fp = of_nat ?F"
  have fp: "word_of_int (sint (ram * 4096 + PHYS_BASE - 0xc0100000) sdiv 4096) = fp"
    using \<open>_ sdiv 4096 = _\<close> by (simp add: fp_def)
  have ufp: "unat fp = ?F" unfolding fp_def using assms(2) by (intro unat_of_nat_u32) simp
  define up where "up = (if fp div 2 > limit then limit else fp div 2)"
  have up: "0 < unat up" "unat up \<le> ?F div 2"
    using assms(1,3) ufp by (auto simp: up_def unat_div_distrib word_less_nat_alt)
  have kp: "unat (fp - up) = ?F - unat up" using up(2) ufp by (subst unat_sub) (auto simp: word_le_nat_alt)
  have kpos: "256 + unat up < unat ram" "unat ram - (256 + unat up) < 261888" using up assms(1,2) by linarith+
  obtain k where k: "init_pool 0xc0100000 (fp - up) m = Some k" "pool_ok k"
      "unat (base k) + 4096 * size_of (used_map k) = 0xc0100000 + 4096 * (?F - unat up)" "\<And>j. j < size_of (used_map k) \<Longrightarrow> \<not> bitv (used_map k) j"
    using init_pool_ok [of "fp - up" "0xc0100000" m] kp kpos by auto
  let ?us = "0xc0100000 + (fp - up) * 4096 :: u32"
  have us: "unat ?us = 0xc0100000 + 4096 * (?F - unat up)"
  proof -
    have "unat (0xc0100000 + w * 4096 :: u32) = 0xc0100000 + 4096 * unat w" if "unat w < 261888" for w
      using that by (simp add: unat_word_ariths)
    from this [of "fp - up"] show ?thesis using kp kpos by simp
  qed
  have uend: "4096 * (unat ram - (256 + unat up)) + 4096 * unat up < 1072693248" using kpos(1) assms(2) by linarith
  obtain u where u: "init_pool ?us up m = Some u" "pool_ok u" "unat ?us \<le> unat (base u)" "\<And>j. j < size_of (used_map u) \<Longrightarrow> \<not> bitv (used_map u) j"
    using init_pool_ok [of up ?us m] us up(1) kpos uend by (auto simp: word_le_nat_alt)
  let ?s = "\<lparr>kernel_pool = k, user_pool = u, kmem = m\<rparr>"
  have pb: "ram * 4096 < PHYS_BASE" using r4 assms(2) by (simp add: word_less_nat_alt)
  have "palloc_init limit ram m = Some ?s"
    using k(1) u(1) pb fp unfolding up_def by (cases "limit < fp div 2") (simp_all add: palloc_init_def ptov_def Let_def)
  moreover have "pools_ok ?s" using k u us by (simp add: pools_ok_def)
  moreover have "\<not> page_used v ?s a" for v a
    using k(4) u(4) by (cases v) (auto simp: page_used_def the_pool_def Let_def div_less_iff_less_mult mult.commute)
  ultimately show ?thesis by blast
qed

section \<open>Properties\<close>

text \<open>
  C20: An allocation of pages either finds no free group and changes nothing (it then returns a
  null pointer, or stops the kernel if \<open>PAL_ASSERT\<close> is given), or returns a group of pages of
  the right pool none of which was in use. It marks exactly these pages, clears them if
  \<open>PAL_ZERO\<close> is given, and changes no other byte of memory. Freeing the group makes exactly the
  pages that were in use before in use again.
\<close>

theorem palloc_correct:
  assumes "pools_ok s" "page_cnt \<noteq> 0" "u = (flags AND PAL_USER \<noteq> 0)"
  shows "case palloc_get_multiple flags page_cnt s of
      None \<Rightarrow> flags AND PAL_ASSERT \<noteq> 0 \<and> \<not> free_run u s (unat page_cnt)
    | Some (p, s') \<Rightarrow>
        p = NULL \<and> s' = s \<and> \<not> free_run u s (unat page_cnt)
        \<or> group u s p (unat page_cnt) \<and> pools_ok s'
          \<and> (\<forall>a. if in_pages p (unat page_cnt) a
                 then \<not> page_used u s a \<and> page_used u s' a \<and> kmem s' a = (if flags AND PAL_ZERO \<noteq> 0 then 0 else kmem s a)
                 else page_used u s' a = page_used u s a \<and> kmem s' a = kmem s a)
          \<and> (\<exists>s''. palloc_free_multiple p page_cnt s' = Some s'' \<and> pools_ok s'' \<and> page_used u s'' = page_used u s)"
proof (cases "free_run u s (unat page_cnt)")
  case True
  let ?n = "unat page_cnt"
  obtain p b where get: "palloc_get_multiple flags page_cnt s =
        Some (p, (set_map u b s)\<lparr>kmem := if flags AND PAL_ZERO \<noteq> 0 then fill p (4096 * ?n) 0 (kmem s) else kmem s\<rparr>)"
      "group u s p ?n" "\<And>a. in_pages p ?n a \<Longrightarrow> \<not> page_used u s a" "marked u p ?n True s b"
    using palloc_get_ok [OF assms True] by blast
  let ?s' = "(set_map u b s)\<lparr>kmem := if flags AND PAL_ZERO \<noteq> 0 then fill p (4096 * ?n) 0 (kmem s) else kmem s\<rparr>"
  have used: "page_used u ?s' a = (if in_pages p ?n a then True else page_used u s a)" for a
    using get(4) by (simp add: marked_def)
  have ok: "pools_ok ?s'" using pools_ok_marked [OF assms(1) get(4)] by simp
  have "group u ?s' p ?n" using get(2,4) by (simp add: group_def marked_def size_of_def)
  from palloc_free_ok [OF ok this] used obtain b' where f: "palloc_free_multiple p page_cnt ?s' =
      Some (set_map u b' (?s'\<lparr>kmem := fill p (4096 * ?n) 0xcc (kmem ?s')\<rparr>))" "marked u p ?n False ?s' b'" by auto
  let ?s2 = "set_map u b' (?s'\<lparr>kmem := fill p (4096 * ?n) 0xcc (kmem ?s')\<rparr>)"
  have s2: "?s2 = (set_map u b' ?s')\<lparr>kmem := fill p (4096 * ?n) 0xcc (kmem ?s')\<rparr>" by (simp add: set_map_def)
  have "pools_ok ?s2" using pools_ok_marked [OF ok f(2)] unfolding s2 by simp
  moreover have "page_used u ?s2 = page_used u s"
    using f(2) used get(3) unfolding s2 by (auto simp: marked_def fun_eq_iff)
  moreover have "if in_pages p ?n a
      then \<not> page_used u s a \<and> page_used u ?s' a \<and> kmem ?s' a = (if flags AND PAL_ZERO \<noteq> 0 then 0 else kmem s a)
      else page_used u ?s' a = page_used u s a \<and> kmem ?s' a = kmem s a" for a
    using used [of a] get(3) [of a] by (simp add: fill_def in_pages_def)
  ultimately show ?thesis unfolding get(1) option.case prod.case using get(2) ok f(1) by blast
next
  case False
  then show ?thesis using palloc_get_none [OF assms] by simp
qed

definition small_pools :: pools where
  "small_pools = \<lparr>kernel_pool = \<lparr>used_map = \<lparr>bit_cnt = 4, bits = [1]\<rparr>, base = 0xc0101000\<rparr>,
     user_pool = \<lparr>used_map = \<lparr>bit_cnt = 3, bits = [0]\<rparr>, base = 0xc0106000\<rparr>, kmem = (\<lambda>a. 0)\<rparr>"

theorem palloc_correct_witness:
  "pools_ok small_pools \<and> map_option fst (palloc_get_multiple 0 2 small_pools) = Some 0xc0102000 \<and>
   page_used False (snd (the (palloc_get_multiple 0 2 small_pools))) 0xc0103abc"
proof -
  have ok: "pools_ok small_pools"
    by (simp add: small_pools_def pools_ok_def pool_ok_def bitmap_ok_def size_of_def)
  have run: "map_option fst (palloc_get_multiple 0 2 small_pools) = Some 0xc0102000" by code_simp
  then obtain s' where "palloc_get_multiple 0 2 small_pools = Some (0xc0102000, s')" by auto
  then show ?thesis using palloc_correct [OF ok, of 2 False 0] ok by (auto simp: in_pages_def split: if_splits)
qed

end
