(* ===== verification/Malloc.thy ===== *)
theory Malloc
  imports Palloc
begin

text \<open>
  The allocator of small blocks (\<open>threads/malloc.c\<close>). Its memory is the memory of the page
  allocator: the header of an arena is three words at the start of its first page (a magic
  number, the descriptor, the number of free blocks or pages). The pointer to the descriptor
  number \<open>i\<close> of \<open>descs\<close> is the word \<open>i + 1\<close>, so that 0 is the null pointer of a big block. A free
  list is the list of the addresses of its blocks; removing a block that is not on it has no
  result. Locks are left out.
\<close>

section \<open>The code\<close>

abbreviation (input) ARENA_MAGIC :: u32 where "ARENA_MAGIC \<equiv> 0x9a548eed"

record desc =
  desc_block_size :: u32
  blocks_per_arena :: u32
  free_list :: "addr list"

record heap = pools +
  descs :: "desc list"

partial_function (option) malloc_init_loop :: "u32 \<Rightarrow> desc list \<Rightarrow> desc list option" where
  "malloc_init_loop sz ds =
     (if sz < 4096 div 2 then do {
        kassert (length ds + 1 \<le> 10);
        malloc_init_loop (sz * 2) (ds @ [\<lparr>desc_block_size = sz, blocks_per_arena = (4096 - 12) div sz, free_list = []\<rparr>]) }
      else Some ds)"

definition malloc_init :: "desc list option" where
  "malloc_init = malloc_init_loop 16 []"

definition arena_magic :: "memory \<Rightarrow> addr \<Rightarrow> u32" where "arena_magic m a = read_word m a"
definition arena_desc :: "memory \<Rightarrow> addr \<Rightarrow> u32" where "arena_desc m a = read_word m (a + 4)"
definition free_cnt :: "memory \<Rightarrow> addr \<Rightarrow> u32" where "free_cnt m a = read_word m (a + 8)"

definition set_free_cnt :: "addr \<Rightarrow> u32 \<Rightarrow> memory \<Rightarrow> memory" where
  "set_free_cnt a n m = write_word (a + 8) n m"

definition init_arena :: "addr \<Rightarrow> u32 \<Rightarrow> u32 \<Rightarrow> memory \<Rightarrow> memory" where
  "init_arena a d n m = write_word (a + 8) n (write_word (a + 4) d (write_word a ARENA_MAGIC m))"

definition desc_at :: "heap \<Rightarrow> u32 \<Rightarrow> desc option" where
  "desc_at s d = (if d = 0 \<or> length (descs s) < unat d then None else Some (descs s ! (unat d - 1)))"

definition arena_to_block :: "addr \<Rightarrow> u32 \<Rightarrow> heap \<Rightarrow> addr option" where
  "arena_to_block a idx s = do {
     kassert (a \<noteq> NULL);
     kassert (arena_magic (kmem s) a = ARENA_MAGIC);
     d \<leftarrow> desc_at s (arena_desc (kmem s) a);
     kassert (idx < blocks_per_arena d);
     Some (a + 12 + idx * desc_block_size d) }"

definition block_to_arena :: "addr \<Rightarrow> heap \<Rightarrow> addr option" where
  "block_to_arena b s = do {
     let a = pg_round_down b;
     kassert (a \<noteq> NULL);
     kassert (arena_magic (kmem s) a = ARENA_MAGIC);
     (if arena_desc (kmem s) a = NULL then kassert (pg_ofs b = 12)
      else do {
        d \<leftarrow> desc_at s (arena_desc (kmem s) a);
        kassert ((pg_ofs b - 12) mod desc_block_size d = 0) });
     Some a }"

definition set_free_list :: "nat \<Rightarrow> addr list \<Rightarrow> heap \<Rightarrow> heap" where
  "set_free_list i bs s = s\<lparr>descs := (descs s)[i := (descs s ! i)\<lparr>free_list := bs\<rparr>]\<rparr>"

fun find_desc :: "u32 \<Rightarrow> desc list \<Rightarrow> nat option" where
  "find_desc sz [] = None"
| "find_desc sz (d # ds) = (if desc_block_size d \<ge> sz then Some 0 else map_option Suc (find_desc sz ds))"

fun add_blocks :: "addr \<Rightarrow> nat \<Rightarrow> nat list \<Rightarrow> heap \<Rightarrow> heap option" where
  "add_blocks a i [] s = Some s"
| "add_blocks a i (k # ks) s = do {
     b \<leftarrow> arena_to_block a (of_nat k) s;
     add_blocks a i ks (set_free_list i (free_list (descs s ! i) @ [b]) s) }"

definition new_arena :: "nat \<Rightarrow> heap \<Rightarrow> (bool \<times> heap) option" where
  "new_arena i s = do {
     (a, s) \<leftarrow> palloc_get_page 0 s;
     if a = NULL then Some (False, s)
     else do {
       let n = blocks_per_arena (descs s ! i);
       s \<leftarrow> add_blocks a i [0..<unat n] (s\<lparr>kmem := init_arena a (of_nat (i + 1)) n (kmem s)\<rparr>);
       Some (True, s) } }"

definition take_free :: "nat \<Rightarrow> heap \<Rightarrow> (addr \<times> heap) option" where
  "take_free i s = do {
     kassert (free_list (descs s ! i) \<noteq> []);
     let b = hd (free_list (descs s ! i));
     let s = set_free_list i (tl (free_list (descs s ! i))) s;
     a \<leftarrow> block_to_arena b s;
     Some (b, s\<lparr>kmem := set_free_cnt a (free_cnt (kmem s) a - 1) (kmem s)\<rparr>) }"

definition malloc :: "u32 \<Rightarrow> heap \<Rightarrow> (addr \<times> heap) option" where
  "malloc sz s =
     (if sz = 0 then Some (NULL, s)
      else case find_desc sz (descs s) of
        None \<Rightarrow> do {
          let page_cnt = DIV_ROUND_UP (sz + 12) 4096;
          (a, s) \<leftarrow> palloc_get_multiple 0 page_cnt s;
          if a = NULL then Some (NULL, s)
          else Some (a + 12, s\<lparr>kmem := init_arena a NULL page_cnt (kmem s)\<rparr>) }
      | Some i \<Rightarrow> do {
          (ok, s) \<leftarrow> (if free_list (descs s ! i) = [] then new_arena i s else Some (True, s));
          if \<not> ok then Some (NULL, s) else take_free i s })"

definition calloc :: "u32 \<Rightarrow> u32 \<Rightarrow> heap \<Rightarrow> (addr \<times> heap) option" where
  "calloc a b s =
     (let sz = a * b
      in if sz < a \<or> sz < b then Some (NULL, s)
         else do {
           (p, s) \<leftarrow> malloc sz s;
           Some (p, if p \<noteq> NULL then s\<lparr>kmem := fill p (unat sz) 0 (kmem s)\<rparr> else s) })"

definition malloc_block_size :: "addr \<Rightarrow> heap \<Rightarrow> u32 option" where
  "malloc_block_size b s = do {
     a \<leftarrow> block_to_arena b s;
     if arena_desc (kmem s) a \<noteq> NULL then map_option desc_block_size (desc_at s (arena_desc (kmem s) a))
     else Some (4096 * free_cnt (kmem s) a - pg_ofs b) }"

fun remove_blocks :: "addr \<Rightarrow> nat \<Rightarrow> nat list \<Rightarrow> heap \<Rightarrow> heap option" where
  "remove_blocks a i [] s = Some s"
| "remove_blocks a i (k # ks) s = do {
     b \<leftarrow> arena_to_block a (of_nat k) s;
     kassert (b \<in> set (free_list (descs s ! i)));
     remove_blocks a i ks (set_free_list i (remove1 b (free_list (descs s ! i))) s) }"

definition free :: "addr \<Rightarrow> heap \<Rightarrow> heap option" where
  "free p s =
     (if p = NULL then Some s
      else do {
        a \<leftarrow> block_to_arena p s;
        if arena_desc (kmem s) a \<noteq> NULL then do {
          d \<leftarrow> desc_at s (arena_desc (kmem s) a);
          let i = unat (arena_desc (kmem s) a) - 1;
          let s = s\<lparr>kmem := fill p (unat (desc_block_size d)) 0xcc (kmem s)\<rparr>;
          let s = set_free_list i (p # free_list d) s;
          let cnt = free_cnt (kmem s) a + 1;
          let s = s\<lparr>kmem := set_free_cnt a cnt (kmem s)\<rparr>;
          if cnt \<ge> blocks_per_arena d then do {
            kassert (cnt = blocks_per_arena d);
            s \<leftarrow> remove_blocks a i [0..<unat (blocks_per_arena d)] s;
            palloc_free_page a s }
          else Some s }
        else palloc_free_multiple a (free_cnt (kmem s) a) s })"

definition realloc :: "addr \<Rightarrow> u32 \<Rightarrow> heap \<Rightarrow> (addr \<times> heap) option" where
  "realloc old_block new_size s =
     (if new_size = 0 then do { s \<leftarrow> free old_block s; Some (NULL, s) }
      else do {
        (new_block, s) \<leftarrow> malloc new_size s;
        if old_block \<noteq> NULL \<and> new_block \<noteq> NULL then do {
          old_size \<leftarrow> malloc_block_size old_block s;
          let min_size = (if new_size < old_size then new_size else old_size);
          let s = s\<lparr>kmem := put_bytes new_block (get_bytes old_block (unat min_size) (kmem s)) (kmem s)\<rparr>;
          s \<leftarrow> free old_block s;
          Some (new_block, s) }
        else Some (new_block, s) })"

section \<open>Sizes\<close>

definition bsz :: "nat \<Rightarrow> nat" where "bsz i = 16 * 2 ^ i"
definition bpa :: "nat \<Rightarrow> nat" where "bpa i = 4084 div bsz i"

lemma bpa_room: "k < bpa i \<Longrightarrow> k * bsz i + bsz i \<le> 4084"
proof -
  assume "k < bpa i"
  then have "Suc k * bsz i \<le> 4084 div bsz i * bsz i" by (intro mult_right_mono) (simp_all add: bpa_def)
  also have "\<dots> \<le> 4084" by simp
  finally show ?thesis by (simp add: add.commute)
qed

lemma bsz_pos: "16 \<le> bsz i" by (simp add: bsz_def)

lemma less7: "i < 7 \<longleftrightarrow> i = 0 \<or> i = 1 \<or> i = 2 \<or> i = 3 \<or> i = 4 \<or> i = 5 \<or> i = (6 :: nat)"
  by auto

lemma bpa_pos: "i < 7 \<Longrightarrow> 0 < bpa i"
  unfolding less7 by (auto simp: bpa_def bsz_def)

lemma bpa_bound: "bpa i \<le> 255"
proof -
  have "4084 div bsz i \<le> 4084 div 16" by (rule div_le_mono2) (simp_all add: bsz_pos)
  then show ?thesis by (simp add: bpa_def)
qed

definition descs_ok :: "desc list \<Rightarrow> bool" where
  "descs_ok ds \<longleftrightarrow> length ds = 7 \<and> (\<forall>i<7. desc_block_size (ds ! i) = of_nat (bsz i) \<and> blocks_per_arena (ds ! i) = of_nat (bpa i))"

lemma malloc_init_ok: "\<exists>ds. malloc_init = Some ds \<and> descs_ok ds \<and> (\<forall>d \<in> set ds. free_list d = [])"
proof -
  let ?ds = "map (\<lambda>i. \<lparr>desc_block_size = of_nat (bsz i), blocks_per_arena = of_nat (bpa i), free_list = []\<rparr>) [0..<7]"
  have "malloc_init = Some ?ds"
    by (simp add: malloc_init_def malloc_init_loop.simps bsz_def bpa_def upt_rec)
  moreover have "descs_ok ?ds" unfolding descs_ok_def by (simp del: upt_rec_numeral)
  moreover have "\<forall>d \<in> set ?ds. free_list d = []" by auto
  ultimately show ?thesis by blast
qed

section \<open>Blocks of an arena\<close>

definition blk :: "nat \<Rightarrow> addr \<Rightarrow> nat \<Rightarrow> addr" where
  "blk i a k = a + 12 + of_nat k * of_nat (bsz i)"

definition blocks :: "nat \<Rightarrow> addr \<Rightarrow> addr list" where
  "blocks i a = map (blk i a) [0..<bpa i]"

lemma blk_offset: "blk i a k = a + of_nat (12 + k * bsz i)"
  by (simp add: blk_def)

lemma unat_blk:
  assumes "aligned a" "k < bpa i"
  shows "unat (blk i a k) = unat a + 12 + k * bsz i"
  using unat_offset [OF assms(1), of "12 + k * bsz i"] bpa_room [OF assms(2)] bsz_pos [of i] unfolding blk_offset by simp

lemma round_blk:
  assumes "aligned a" "k < bpa i"
  shows "pg_round_down (blk i a k) = a" "unat (pg_ofs (blk i a k)) = 12 + k * bsz i"
  unfolding blk_offset by (rule round_offset [OF assms(1)]; use bpa_room [OF assms(2)] bsz_pos [of i] in linarith)+

lemma distinct_blocks: "aligned a \<Longrightarrow> distinct (blocks i a)"
  unfolding blocks_def distinct_map
proof (intro conjI inj_onI)
  fix k l assume a: "aligned a" "k \<in> set [0..<bpa i]" "l \<in> set [0..<bpa i]" "blk i a k = blk i a l"
  have "unat a + 12 + k * bsz i = unat (blk i a k)" using unat_blk [of a k i] a by simp
  also have "\<dots> = unat a + 12 + l * bsz i" using unat_blk [of a l i] a by simp
  finally have "k * bsz i = l * bsz i" by simp
  then show "k = l" using bsz_pos [of i] by simp
qed simp

lemma in_blocks: "b \<in> set (blocks i a) \<longleftrightarrow> (\<exists>k < bpa i. b = blk i a k)"
  by (auto simp: blocks_def)

lemma round_in_blocks: "aligned a \<Longrightarrow> b \<in> set (blocks i a) \<Longrightarrow> pg_round_down b = a"
  by (auto simp: in_blocks round_blk)

section \<open>Headers\<close>

definition header :: "memory \<Rightarrow> addr \<Rightarrow> u32 \<Rightarrow> u32 \<Rightarrow> bool" where
  "header m a d n \<longleftrightarrow> arena_magic m a = ARENA_MAGIC \<and> arena_desc m a = d \<and> free_cnt m a = n"

lemma header_words:
  assumes "aligned a"
  shows "unat a mod 4 = 0" "unat (a + 4) = unat a + 4" "unat (a + 8) = unat a + 8"
    "unat (a + 4) mod 4 = 0" "unat (a + 8) mod 4 = 0"
proof -
  show u: "unat (a + 4) = unat a + 4" "unat (a + 8) = unat a + 8" using unat_offset [OF assms, of 4] unat_offset [OF assms, of 8] by simp_all
  have "4096 dvd unat a" using assms by (simp add: aligned_def mod_0_imp_dvd)
  from dvd_trans [OF _ this, of 4] have d: "4 dvd unat a" by simp
  then have "4 dvd unat a + 4" "4 dvd unat a + 8" by (simp_all add: dvd_add)
  then show "unat a mod 4 = 0" "unat (a + 4) mod 4 = 0" "unat (a + 8) mod 4 = 0" using d unfolding u by (simp_all add: dvd_imp_mod_0)
qed

lemma header_distinct:
  assumes "aligned a" "aligned b" "a \<noteq> b"
  shows "a + 4 \<noteq> b" "a + 8 \<noteq> b" "a + 4 \<noteq> b + 8" "a + 8 \<noteq> b + 4" "a \<noteq> b + 4" "a \<noteq> b + 8"
proof -
  note off = aligned_offset [OF assms(1,2)]
  have n: "unat a + 4 \<noteq> unat b" "unat a + 8 \<noteq> unat b" "unat a + 4 \<noteq> unat b + 8" "unat a + 8 \<noteq> unat b + 4" "unat a \<noteq> unat b + 4" "unat a \<noteq> unat b + 8"
    using off [of 4 0] off [of 8 0] off [of 4 8] off [of 8 4] off [of 0 4] off [of 0 8] by auto
  show "a + 4 \<noteq> b" "a + 8 \<noteq> b" "a + 4 \<noteq> b + 8" "a + 8 \<noteq> b + 4" "a \<noteq> b + 4" "a \<noteq> b + 8"
    using n header_words(2,3) [OF assms(1)] header_words(2,3) [OF assms(2)] by metis+
qed

lemmas header_defs = header_def arena_magic_def arena_desc_def free_cnt_def

lemma header_set_same: "aligned a \<Longrightarrow> header m a d n \<Longrightarrow> header (set_free_cnt a n' m) a d n'"
  using header_words [of a] by (simp add: header_defs set_free_cnt_def read_write_other)

lemma header_set_other:
  "aligned a \<Longrightarrow> aligned b \<Longrightarrow> a \<noteq> b \<Longrightarrow> header (set_free_cnt a n' m) b d n = header m b d n"
  using header_words [of a] header_words [of b] header_distinct [of a b]
  by (simp add: header_defs set_free_cnt_def read_write_other)

lemma header_init_same: "aligned a \<Longrightarrow> header (init_arena a d n m) a d n"
  using header_words [of a] by (simp add: header_defs init_arena_def read_write_other)

lemma header_init_other:
  "aligned a \<Longrightarrow> aligned b \<Longrightarrow> a \<noteq> b \<Longrightarrow> header (init_arena a d' n' m) b d n = header m b d n"
  using header_words [of a] header_words [of b] header_distinct [of a b]
  by (simp add: header_defs init_arena_def read_write_other)

lemma header_cong:
  assumes "aligned a" "\<And>x. unat a \<le> unat x \<Longrightarrow> unat x < unat a + 12 \<Longrightarrow> m' x = m x"
  shows "header m' a d n = header m a d n"
proof -
  note top = aligned_top [OF assms(1)] and w = header_words [OF assms(1)]
  have "read_word m' a = read_word m a" "read_word m' (a + 4) = read_word m (a + 4)" "read_word m' (a + 8) = read_word m (a + 8)"
    using top w by (auto intro!: read_word_cong assms(2))
  then show ?thesis by (simp add: header_defs)
qed

lemma set_free_cnt_other:
  assumes "aligned a" "unat x < unat a \<or> unat a + 12 \<le> unat x"
  shows "set_free_cnt a n m x = m x"
  using write_word_other [of "a + 8" x n m] aligned_top [OF assms(1)] header_words [OF assms(1)] assms(2)
  by (auto simp: set_free_cnt_def)

lemma init_arena_other:
  assumes "aligned a" "unat x < unat a \<or> unat a + 12 \<le> unat x"
  shows "init_arena a d n m x = m x"
  using write_word_other [of "a + 8" x] write_word_other [of "a + 4" x] write_word_other [of a x]
    aligned_top [OF assms(1)] header_words [OF assms(1)] assms(2)
  by (auto simp: init_arena_def)

section \<open>The invariant\<close>

text \<open>What a used page of the heap is the start of: an arena of a descriptor, or a big block of some pages.\<close>

datatype arena_kind = Small nat | Big nat

type_synonym arenas = "addr \<rightharpoonup> arena_kind"

fun arena_pages :: "arena_kind \<Rightarrow> nat" where
  "arena_pages (Small i) = 1"
| "arena_pages (Big n) = n"

abbreviation frees :: "heap \<Rightarrow> nat \<Rightarrow> addr list" where
  "frees s i \<equiv> free_list (descs s ! i)"

definition free_in :: "heap \<Rightarrow> nat \<Rightarrow> addr \<Rightarrow> nat" where
  "free_in s i a = length (filter (\<lambda>b. pg_round_down b = a) (frees s i))"

fun arena_header :: "heap \<Rightarrow> addr \<Rightarrow> arena_kind \<Rightarrow> bool" where
  "arena_header s a (Small i) = (i < 7 \<and> header (kmem s) a (of_nat (i + 1)) (of_nat (free_in s i a)))"
| "arena_header s a (Big n) = header (kmem s) a NULL (of_nat n)"

definition arena_ok :: "heap \<Rightarrow> addr \<Rightarrow> arena_kind \<Rightarrow> bool" where
  "arena_ok s a k \<longleftrightarrow> group False s a (arena_pages k) \<and> (\<forall>x. in_pages a (arena_pages k) x \<longrightarrow> page_used False s x)
     \<and> arena_header s a k"

definition apart :: "arenas \<Rightarrow> bool" where
  "apart G \<longleftrightarrow> (\<forall>a k b l x. G a = Some k \<longrightarrow> G b = Some l \<longrightarrow> in_pages a (arena_pages k) x \<longrightarrow> in_pages b (arena_pages l) x \<longrightarrow> a = b)"

definition lists_ok :: "arenas \<Rightarrow> heap \<Rightarrow> bool" where
  "lists_ok G s \<longleftrightarrow> (\<forall>i<7. distinct (frees s i) \<and> (\<forall>b\<in>set (frees s i). G (pg_round_down b) = Some (Small i) \<and> b \<in> set (blocks i (pg_round_down b))))"

definition heap_ok :: "arenas \<Rightarrow> heap \<Rightarrow> bool" where
  "heap_ok G s \<longleftrightarrow> pools_ok s \<and> descs_ok (descs s) \<and> (\<forall>a k. G a = Some k \<longrightarrow> arena_ok s a k) \<and> apart G \<and> lists_ok G s"

text \<open>The blocks that are in the hands of the callers, with their sizes.\<close>

definition live :: "arenas \<Rightarrow> heap \<Rightarrow> addr \<Rightarrow> nat \<Rightarrow> bool" where
  "live G s p z \<longleftrightarrow>
     (\<exists>a n. G a = Some (Big n) \<and> p = a + 12 \<and> z = 4096 * n - 12)
     \<or> (\<exists>a i. G a = Some (Small i) \<and> p \<in> set (blocks i a) \<and> p \<notin> set (frees s i) \<and> z = bsz i)"

lemma heap_okD:
  assumes "heap_ok G s"
  shows "pools_ok s" "descs_ok (descs s)" "\<And>a k. G a = Some k \<Longrightarrow> arena_ok s a k" "apart G" "lists_ok G s"
  using assms by (auto simp: heap_ok_def)

lemma arena_okD:
  assumes "arena_ok s a k"
  shows "group False s a (arena_pages k)" "\<And>x. in_pages a (arena_pages k) x \<Longrightarrow> page_used False s x" "arena_header s a k" "aligned a"
    "0 < arena_pages k"
  using assms by (auto simp: arena_ok_def group_def aligned_def)

lemma arena_aligned: "heap_ok G s \<Longrightarrow> G a = Some k \<Longrightarrow> aligned a"
  using heap_okD(3) arena_okD(4) by blast

lemma arena_small: "heap_ok G s \<Longrightarrow> G a = Some (Small i) \<Longrightarrow> i < 7"
  using arena_okD(3) [OF heap_okD(3)] by fastforce

lemma arena_not_null: "heap_ok G s \<Longrightarrow> G a = Some k \<Longrightarrow> a \<noteq> NULL"
  using group_bounds(3) [OF heap_okD(1) arena_okD(1) [OF heap_okD(3)]] by blast

lemma start_in_pages: "0 < n \<Longrightarrow> in_pages a n a"
  by (simp add: in_pages_def)

text \<open>The memory that belongs to a live block.\<close>

definition in_block :: "addr \<Rightarrow> nat \<Rightarrow> addr \<Rightarrow> bool" where
  "in_block p z x \<longleftrightarrow> unat p \<le> unat x \<and> unat x < unat p + z"

lemma live_cases:
  assumes "heap_ok G s" "live G s p z"
  obtains (big) n where "G (pg_round_down p) = Some (Big n)" "pg_round_down p + 12 = p" "z = 4096 * n - 12"
    | (small) i where "G (pg_round_down p) = Some (Small i)" "p \<in> set (blocks i (pg_round_down p))" "p \<notin> set (frees s i)" "z = bsz i"
  using assms(2) unfolding live_def
proof (elim disjE exE conjE)
  fix a n assume a: "G a = Some (Big n)" "p = a + 12" "z = 4096 * n - 12"
  then have "pg_round_down p = a" using round_offset(1) [OF arena_aligned [OF assms(1) a(1)], of 12] by simp
  then show thesis using a that(1) by simp
next
  fix a i assume a: "G a = Some (Small i)" "p \<in> set (blocks i a)" "p \<notin> set (frees s i)" "z = bsz i"
  then have "pg_round_down p = a" using round_in_blocks [OF arena_aligned [OF assms(1) a(1)]] by simp
  then show thesis using a that(2) by simp
qed

lemma live_in_arena:
  assumes "heap_ok G s" "live G s p z"
  shows "\<exists>a k. G a = Some k \<and> (\<forall>x. in_block p z x \<longrightarrow> in_pages a (arena_pages k) x \<and> unat a + 12 \<le> unat x)
    \<and> pg_round_down p = a \<and> unat a + 12 \<le> unat p \<and> unat p + z \<le> unat a + 4096 * arena_pages k"
  using assms(2) unfolding live_def
proof (elim disjE exE conjE)
  fix a n assume a: "G a = Some (Big n)" "p = a + 12" "z = 4096 * n - 12"
  note al = arena_aligned [OF assms(1) a(1)] and n = arena_okD(5) [OF heap_okD(3) [OF assms(1) a(1)]]
  have "unat p = unat a + 12" "pg_round_down p = a" using unat_offset [OF al, of 12] round_offset [OF al, of 12] a(2) by simp_all
  then show ?thesis using a n by (intro exI [of _ a] exI [of _ "Big n"]) (auto simp: in_pages_def in_block_def)
next
  fix a i assume a: "G a = Some (Small i)" "p \<in> set (blocks i a)" "z = bsz i"
  note al = arena_aligned [OF assms(1) a(1)]
  obtain k where k: "k < bpa i" "p = blk i a k" using a(2) by (auto simp: in_blocks)
  have "unat p = unat a + 12 + k * bsz i" "pg_round_down p = a" using unat_blk [OF al k(1)] round_blk [OF al k(1)] k(2) by simp_all
  then show ?thesis using a bpa_room [OF k(1)] by (intro exI [of _ a] exI [of _ "Small i"]) (auto simp: in_pages_def in_block_def)
qed

lemma blk_apart:
  assumes "aligned a" "k < bpa i" "l < bpa i" "in_block (blk i a k) (bsz i) x" "in_block (blk i a l) (bsz i) x"
  shows "k = l"
proof (rule ccontr)
  have x: "unat a + 12 + k * bsz i \<le> unat x" "unat x < unat a + 12 + k * bsz i + bsz i"
      "unat a + 12 + l * bsz i \<le> unat x" "unat x < unat a + 12 + l * bsz i + bsz i"
    using assms unat_blk [OF assms(1,2)] unat_blk [OF assms(1,3)] by (simp_all add: in_block_def)
  assume "k \<noteq> l"
  then consider "Suc k \<le> l" | "Suc l \<le> k" by linarith
  then show False
  proof cases
    case 1
    then have "Suc k * bsz i \<le> l * bsz i" by (rule mult_right_mono) simp
    then show False using x by simp
  next
    case 2
    then have "Suc l * bsz i \<le> k * bsz i" by (rule mult_right_mono) simp
    then show False using x by simp
  qed
qed

text \<open>No two live blocks share a byte.\<close>

lemma live_disjoint:
  assumes "heap_ok G s" "live G s p z" "live G s q y" "in_block p z x" "in_block q y x"
  shows "p = q \<and> z = y"
proof -
  obtain a k where a: "G a = Some k" "in_pages a (arena_pages k) x" "pg_round_down p = a" using live_in_arena [OF assms(1,2)] assms(4) by blast
  obtain b l where b: "G b = Some l" "in_pages b (arena_pages l) x" "pg_round_down q = b" using live_in_arena [OF assms(1,3)] assms(5) by blast
  have ab: "a = b" using heap_okD(4) [OF assms(1)] a b unfolding apart_def by blast
  then have G: "G (pg_round_down p) = Some k" "G (pg_round_down q) = Some k" using a b by simp_all
  note al = arena_aligned [OF assms(1) a(1)]
  show ?thesis
  proof (cases k)
    case (Big n)
    have "p = a + 12 \<and> z = 4096 * n - 12" by (rule live_cases [OF assms(1,2)]) (use G(1) Big a(3) in auto)
    moreover have "q = a + 12 \<and> y = 4096 * n - 12" by (rule live_cases [OF assms(1,3)]) (use G(2) Big b(3) ab in auto)
    ultimately show ?thesis by simp
  next
    case (Small i)
    have p: "p \<in> set (blocks i a) \<and> z = bsz i" by (rule live_cases [OF assms(1,2)]) (use G(1) Small a(3) in auto)
    have q: "q \<in> set (blocks i a) \<and> y = bsz i" by (rule live_cases [OF assms(1,3)]) (use G(2) Small b(3) ab in auto)
    show ?thesis using p q blk_apart [OF al] assms(4,5) by (auto simp: in_blocks)
  qed
qed

section \<open>Walking between blocks and arenas\<close>

lemma set_free_list_simps [simp]:
  "the_pool u (set_free_list i bs s) = the_pool u s" "kmem (set_free_list i bs s) = kmem s"
  "length (descs (set_free_list i bs s)) = length (descs s)"
  by (simp_all add: set_free_list_def the_pool_def)

lemma frees_set: "i < length (descs s) \<Longrightarrow> frees (set_free_list i bs s) j = (if j = i then bs else frees s j)"
  by (simp add: set_free_list_def nth_list_update)

lemma descs_ok_set: "descs_ok (descs s) \<Longrightarrow> i < 7 \<Longrightarrow> descs_ok (descs (set_free_list i bs s))"
  by (auto simp: descs_ok_def set_free_list_def nth_list_update)

lemma set_free_list_twice: "i < length (descs s) \<Longrightarrow> set_free_list i bs (set_free_list i cs s) = set_free_list i bs s"
  by (simp add: set_free_list_def)

lemma set_free_list_same: "i < length (descs s) \<Longrightarrow> set_free_list i (frees s i) s = s"
  by (simp add: set_free_list_def)

lemma descs_okD:
  assumes "descs_ok (descs s)" "i < 7"
  shows "length (descs s) = 7" "desc_block_size (descs s ! i) = of_nat (bsz i)" "blocks_per_arena (descs s ! i) = of_nat (bpa i)"
    "desc_at s (of_nat (i + 1)) = Some (descs s ! i)" "unat (of_nat (bsz i) :: u32) = bsz i" "unat (of_nat (bpa i) :: u32) = bpa i"
    "unat (of_nat (i + 1) :: u32) = i + 1"
proof -
  show "length (descs s) = 7" "desc_block_size (descs s ! i) = of_nat (bsz i)" "blocks_per_arena (descs s ! i) = of_nat (bpa i)"
    using assms by (simp_all add: descs_ok_def)
  show u: "unat (of_nat (i + 1) :: u32) = i + 1" using assms(2) by (intro unat_of_nat_u32) simp
  then have "(of_nat (i + 1) :: u32) \<noteq> 0" by (metis Suc_eq_plus1 nat.distinct(1) unat_0)
  then show "desc_at s (of_nat (i + 1)) = Some (descs s ! i)"
    unfolding desc_at_def u using assms by (simp add: descs_ok_def)
  have "bsz i \<le> 1024" using assms(2) unfolding less7 by (auto simp: bsz_def)
  then show "unat (of_nat (bsz i) :: u32) = bsz i" by (intro unat_of_nat_u32) simp
  show "unat (of_nat (bpa i) :: u32) = bpa i" using bpa_bound [of i] by (intro unat_of_nat_u32) simp
qed

lemma small_desc_not_null: "i < 7 \<Longrightarrow> (of_nat (i + 1) :: u32) \<noteq> 0"
  unfolding less7 by auto

lemma block_to_arena_small:
  assumes "descs_ok (descs s)" "i < 7" "aligned a" "a \<noteq> NULL" "header (kmem s) a (of_nat (i + 1)) c" "b \<in> set (blocks i a)"
  shows "block_to_arena b s = Some a"
proof -
  obtain k where k: "k < bpa i" "b = blk i a k" using assms(6) by (auto simp: in_blocks)
  note r = round_blk [OF assms(3) k(1)] and d = descs_okD [OF assms(1,2)]
  have "(12 :: u32) \<le> pg_ofs b" using r(2) k(2) by (simp add: word_le_nat_alt)
  then have "unat (pg_ofs b - 12) = k * bsz i" using r(2) k(2) by (simp add: unat_sub)
  then have "unat ((pg_ofs b - 12) mod of_nat (bsz i)) = 0" by (simp add: unat_mod_distrib d(5))
  then have "(pg_ofs b - 12) mod of_nat (bsz i) = 0" by (metis unsigned_eq_0_iff)
  moreover have "arena_desc (kmem s) a = of_nat (i + 1)" "arena_magic (kmem s) a = ARENA_MAGIC" using assms(5) by (simp_all add: header_def)
  ultimately show ?thesis using r(1) k(2) assms(4) d(2,4) small_desc_not_null [OF assms(2)]
    by (simp add: block_to_arena_def Let_def del: of_nat_Suc of_nat_add)
qed

lemma arena_to_block_ok:
  assumes "descs_ok (descs s)" "i < 7" "a \<noteq> NULL" "header (kmem s) a (of_nat (i + 1)) c" "k < bpa i"
  shows "arena_to_block a (of_nat k) s = Some (blk i a k)"
proof -
  note d = descs_okD [OF assms(1,2)]
  have "unat (of_nat k :: u32) = k" using assms(5) bpa_bound [of i] by (intro unat_of_nat_u32) simp
  then have "(of_nat k :: u32) < of_nat (bpa i)" using assms(5) by (simp add: word_less_nat_alt d(6))
  moreover have "arena_desc (kmem s) a = of_nat (i + 1)" "arena_magic (kmem s) a = ARENA_MAGIC" using assms(4) by (simp_all add: header_def)
  ultimately show ?thesis using assms(3) d(2,3,4) by (simp add: arena_to_block_def blk_def del: of_nat_Suc of_nat_add)
qed

lemma add_blocks_ok:
  assumes "descs_ok (descs s)" "i < 7" "a \<noteq> NULL" "header (kmem s) a (of_nat (i + 1)) c" "\<forall>k\<in>set ks. k < bpa i"
  shows "add_blocks a i ks s = Some (set_free_list i (frees s i @ map (blk i a) ks) s)"
  using assms(1,4,5)
proof (induction ks arbitrary: s)
  case Nil
  then show ?case using descs_okD(1) [OF Nil(1) assms(2)] assms(2) by (simp add: set_free_list_same)
next
  case (Cons k ks)
  let ?s = "set_free_list i (frees s i @ [blk i a k]) s"
  have len: "i < length (descs s)" using descs_okD(1) [OF Cons(2) assms(2)] assms(2) by simp
  have "arena_to_block a (of_nat k) s = Some (blk i a k)" using arena_to_block_ok [OF Cons(2) assms(2,3) Cons(3)] Cons(4) by simp
  moreover have "add_blocks a i ks ?s = Some (set_free_list i (frees ?s i @ map (blk i a) ks) ?s)"
    using Cons.IH [of ?s] descs_ok_set [OF Cons(2) assms(2)] Cons(3,4) by simp
  ultimately show ?case using len by (simp add: frees_set set_free_list_twice)
qed

lemma remove_blocks_ok:
  assumes "descs_ok (descs s)" "i < 7" "a \<noteq> NULL" "header (kmem s) a (of_nat (i + 1)) c" "\<forall>k\<in>set ks. k < bpa i"
    and "distinct (map (blk i a) ks)" "distinct (frees s i)" "set (map (blk i a) ks) \<subseteq> set (frees s i)"
  shows "remove_blocks a i ks s = Some (set_free_list i (filter (\<lambda>b. b \<notin> set (map (blk i a) ks)) (frees s i)) s)"
  using assms(1,4-)
proof (induction ks arbitrary: s)
  case Nil
  then show ?case using descs_okD(1) [OF Nil(1) assms(2)] assms(2) by (simp add: set_free_list_same)
next
  case (Cons k ks)
  let ?r = "remove1 (blk i a k) (frees s i)"
  let ?s = "set_free_list i ?r s"
  have len: "i < length (descs s)" using descs_okD(1) [OF Cons(2) assms(2)] assms(2) by simp
  have r: "?r = filter (\<lambda>b. b \<noteq> blk i a k) (frees s i)" using Cons(6) by (auto simp: distinct_remove1_removeAll removeAll_filter_not_eq intro: filter_cong)
  have "arena_to_block a (of_nat k) s = Some (blk i a k)" using arena_to_block_ok [OF Cons(2) assms(2,3) Cons(3)] Cons(4) by simp
  moreover have ne: "\<forall>x\<in>set ks. blk i a x \<noteq> blk i a k"
    using Cons(5) by (metis distinct.simps(2) image_eqI list.set_map list.simps(9))
  moreover have "remove_blocks a i ks ?s = Some (set_free_list i (filter (\<lambda>b. b \<notin> set (map (blk i a) ks)) (frees ?s i)) ?s)"
    using Cons.prems len ne by (intro Cons.IH) (auto simp: descs_ok_set [OF _ assms(2)] frees_set r)
  moreover have "filter (\<lambda>b. b \<notin> set (map (blk i a) ks)) ?r = filter (\<lambda>b. b \<notin> set (map (blk i a) (k # ks))) (frees s i)"
    unfolding r by (auto intro: filter_cong)
  ultimately show ?case using len Cons.prems by (simp add: frees_set set_free_list_twice)
qed

section \<open>Preservation of the invariant\<close>

lemma page_used_pool: "the_pool u s' = the_pool u s \<Longrightarrow> page_used u s' = page_used u s"
  by (simp add: page_used_def fun_eq_iff)

lemma group_pool_cong: "the_pool u s' = the_pool u s \<Longrightarrow> group u s' p n = group u s p n"
  by (simp add: group_def)

lemma pools_ok_cong: "\<forall>u. the_pool u s' = the_pool u s \<Longrightarrow> pools_ok s' = pools_ok s"
proof -
  assume a: "\<forall>u. the_pool u s' = the_pool u s"
  have "kernel_pool s' = kernel_pool s" "user_pool s' = user_pool s"
    using spec [OF a, of False] spec [OF a, of True] by (simp_all add: the_pool_def)
  then show ?thesis by (simp add: pools_ok_def)
qed

lemma arena_header_cong:
  assumes "\<And>d n. header (kmem s') a d n = header (kmem s) a d n" "\<And>i. i < 7 \<Longrightarrow> free_in s' i a = free_in s i a"
  shows "arena_header s' a k = arena_header s a k"
  using assms by (cases k) auto

lemma arena_ok_cong:
  assumes "the_pool False s' = the_pool False s"
    and "\<And>d n. header (kmem s') a d n = header (kmem s) a d n" "\<And>i. i < 7 \<Longrightarrow> free_in s' i a = free_in s i a"
  shows "arena_ok s' a k = arena_ok s a k"
proof -
  have "arena_header s' a k = arena_header s a k" using assms(2,3) by (rule arena_header_cong)
  then show ?thesis unfolding arena_ok_def page_used_pool [OF assms(1)] group_pool_cong [OF assms(1)] by simp
qed

text \<open>A new arena or big block on pages that were free.\<close>

lemma arena_added:
  assumes "heap_ok G s" "group False s a (arena_pages k)" "\<And>x. in_pages a (arena_pages k) x \<Longrightarrow> \<not> page_used False s x"
    and "marked False a (arena_pages k) True s b" "\<And>u. the_pool u s' = the_pool u (set_map False b s)"
    and "kmem s' = init_arena a d c (kmem s)" "arena_header s' a k" "descs_ok (descs s')"
    and "\<And>a' i. G a' \<noteq> None \<Longrightarrow> i < 7 \<Longrightarrow> free_in s' i a' = free_in s i a'" "lists_ok (G(a \<mapsto> k)) s'"
  shows "heap_ok (G(a \<mapsto> k)) s'" "G a = None"
proof -
  have al: "aligned a" using assms(2) by (simp add: group_def aligned_def)
  have new: "\<not> in_pages a' (arena_pages k') x" if "G a' = Some k'" "in_pages a (arena_pages k) x" for a' k' x
    using arena_okD(2) [OF heap_okD(3) [OF assms(1) that(1)]] assms(3) [OF that(2)] by blast
  have pos: "0 < arena_pages k" using assms(2) by (simp add: group_def)
  show none: "G a = None"
  proof (rule ccontr)
    assume "G a \<noteq> None"
    then obtain k' where k': "G a = Some k'" by blast
    have "in_pages a (arena_pages k') a" using arena_okD(5) [OF heap_okD(3) [OF assms(1) k']] by (rule start_in_pages)
    then show False using new [OF k' start_in_pages [OF pos]] by simp
  qed
  have used: "page_used False s' x = (if in_pages a (arena_pages k) x then True else page_used False s x)" for x
    using assms(4) page_used_pool [OF assms(5), of False] by (simp add: marked_def)
  have grp: "group False s' p n = group False s p n" for p n
    using assms(4,5) by (simp add: group_def marked_def size_of_def)
  have "arena_ok s' a' k'" if "(G(a \<mapsto> k)) a' = Some k'" for a' k'
  proof (cases "a' = a")
    case True
    then show ?thesis using that assms(2,7) used grp by (simp add: arena_ok_def)
  next
    case False
    then have G: "G a' = Some k'" using that by simp
    note ok = arena_okD [OF heap_okD(3) [OF assms(1) G]]
    have "arena_header s' a' k' = arena_header s a' k'"
      using assms(6,9) G header_init_other [OF al ok(4)] False by (intro arena_header_cong) auto
    then show ?thesis using ok used grp by (simp add: arena_ok_def)
  qed
  moreover have "apart (G(a \<mapsto> k))"
    using heap_okD(4) [OF assms(1)] new unfolding apart_def by (auto split: if_splits) 
  moreover have "pools_ok s'"
    using pools_ok_marked [OF heap_okD(1) [OF assms(1)] assms(4)] pools_ok_cong [of s' "set_map False b s"] assms(5) by simp
  ultimately show "heap_ok (G(a \<mapsto> k)) s'" using assms(8,10) by (simp add: heap_ok_def)
qed

end
