(* ===== verification/Malloc_Correct.thy ===== *)
theory Malloc_Correct
  imports Malloc
begin

text \<open>
  Correctness of \<open>malloc\<close> and \<open>free\<close>: the effect of each step on the invariant of the heap and on
  the set of live blocks, and the properties of the allocator.
\<close>

section \<open>Live blocks\<close>

lemma live_iff:
  assumes "heap_ok G s"
  shows "live G s p z \<longleftrightarrow>
    (case G (pg_round_down p) of
       None \<Rightarrow> False
     | Some (Big n) \<Rightarrow> pg_round_down p + 12 = p \<and> z = 4096 * n - 12
     | Some (Small i) \<Rightarrow> p \<in> set (blocks i (pg_round_down p)) \<and> p \<notin> set (frees s i) \<and> z = bsz i)" (is "_ = ?r")
proof
  assume "live G s p z"
  with assms show ?r
  proof (cases rule: live_cases)
    case (big n)
    show ?thesis unfolding big(1) option.case arena_kind.case using big(2,3) by (rule conjI)
  next
    case (small i)
    show ?thesis unfolding small(1) option.case arena_kind.case using small(2-4) by blast
  qed
next
  assume r: ?r
  then obtain k where k: "G (pg_round_down p) = Some k" by (cases "G (pg_round_down p)") simp_all
  show "live G s p z"
  proof (cases k)
    case (Big n)
    then have "p = pg_round_down p + 12" "z = 4096 * n - 12" using r k by simp_all
    then show ?thesis using k Big unfolding live_def by blast
  next
    case (Small i)
    then show ?thesis using r k unfolding live_def by simp blast
  qed
qed

lemma live_not_header:
  assumes "heap_ok G s" "G a = Some k" "live G s p z" "in_block p z x"
  shows "unat x < unat a \<or> unat a + 12 \<le> unat x"
proof -
  obtain b l where b: "G b = Some l" "in_pages b (arena_pages l) x" "unat b + 12 \<le> unat x"
    using live_in_arena [OF assms(1,3)] assms(4) by blast
  show ?thesis
  proof (rule ccontr)
    assume "\<not> ?thesis"
    moreover from this have "in_pages a (arena_pages k) x"
      using arena_okD(5) [OF heap_okD(3) [OF assms(1,2)]] by (auto simp: in_pages_def)
    then have "a = b" using heap_okD(4) [OF assms(1)] assms(2) b(1,2) unfolding apart_def by blast
    ultimately show False using b(3) by simp
  qed
qed

lemma listsD:
  assumes "heap_ok G s" "i < 7"
  shows "distinct (frees s i)" "\<And>b. b \<in> set (frees s i) \<Longrightarrow> G (pg_round_down b) = Some (Small i)"
    "\<And>b. b \<in> set (frees s i) \<Longrightarrow> b \<in> set (blocks i (pg_round_down b))"
  using heap_okD(5) [OF assms(1)] assms(2) by (auto simp: lists_ok_def)

lemma free_in_set:
  assumes "i < length (descs s)"
  shows "free_in (set_free_list i bs s) j a = (if j = i then length (filter (\<lambda>b. pg_round_down b = a) bs) else free_in s j a)"
  using frees_set [OF assms] by (simp add: free_in_def)

lemma frees_kmem [simp]: "descs (s\<lparr>kmem := m\<rparr>) = descs s"
  by simp

lemma free_in_kmem [simp]: "free_in (s\<lparr>kmem := m\<rparr>) i a = free_in s i a"
  by (simp add: free_in_def)

section \<open>Taking a block off a free list\<close>

lemma block_taken:
  assumes "heap_ok G s" "i < 7" "frees s i = b # bs"
    and "s' = (set_free_list i bs s)\<lparr>kmem := set_free_cnt (pg_round_down b) (free_cnt (kmem s) (pg_round_down b) - 1) (kmem s)\<rparr>"
  shows "heap_ok G s'" "\<And>p z. live G s' p z \<longleftrightarrow> live G s p z \<or> p = b \<and> z = bsz i" "\<And>z. \<not> live G s b z"
    "block_to_arena b (set_free_list i bs s) = Some (pg_round_down b)"
proof -
  let ?a = "pg_round_down b"
  note l = listsD [OF assms(1,2)]
  have G: "G ?a = Some (Small i)" and bb: "b \<in> set (blocks i ?a)" using l(2,3) [of b] assms(3) by auto
  note al = arena_aligned [OF assms(1) G] and ok = heap_okD [OF assms(1)]
  have len: "i < length (descs s)" using descs_okD(1) [OF ok(2) assms(2)] assms(2) by simp
  have fr: "frees s' j = (if j = i then bs else frees s j)" for j using frees_set [OF len] assms(4) by simp
  have pl: "the_pool u s' = the_pool u s" for u using assms(4) by simp
  have fi: "free_in s' j x = (if j = i \<and> x = ?a then free_in s j x - 1 else free_in s j x)" for j x
    using assms(3) by (simp add: free_in_def fr)
  have hd: "header (kmem s) ?a (of_nat (i + 1)) (of_nat (free_in s i ?a))" using arena_okD(3) [OF ok(3) [OF G]] by simp
  have pos: "free_in s i ?a = Suc (free_in s' i ?a)" using assms(3) by (simp add: free_in_def fr)
  have cnt: "free_cnt (kmem s) ?a - 1 = of_nat (free_in s' i ?a)" using hd pos by (simp add: header_def)
  have km: "kmem s' = set_free_cnt ?a (of_nat (free_in s' i ?a)) (kmem s)" unfolding cnt [symmetric] using assms(4) by simp
  have "arena_ok s' x k" if x: "G x = Some k" for x k
  proof (cases "x = ?a")
    case True
    have "header (kmem s') ?a (of_nat (i + 1)) (of_nat (free_in s' i ?a))" unfolding km by (rule header_set_same [OF al hd])
    moreover have "k = Small i" using x G True by simp
    ultimately show ?thesis using ok(3) [OF x] True assms(2) page_used_pool [OF pl] group_pool_cong [OF pl]
      by (simp add: arena_ok_def)
  next
    case False
    have "arena_ok s' x k = arena_ok s x k"
      using header_set_other [OF al arena_aligned [OF assms(1) x]] False by (intro arena_ok_cong pl) (auto simp: km fi)
    then show ?thesis using ok(3) [OF x] by simp
  qed
  moreover have "lists_ok G s'" using ok(5) assms(3) unfolding lists_ok_def by (auto simp: fr)
  moreover have "descs_ok (descs s')" using descs_ok_set [OF ok(2) assms(2)] assms(4) by simp
  ultimately show h': "heap_ok G s'" using ok(1,4) pools_ok_cong [of s' s] pl by (simp add: heap_ok_def)
  show "live G s' p z \<longleftrightarrow> live G s p z \<or> p = b \<and> z = bsz i" for p z
    using l(1) assms(3) bb G unfolding live_iff [OF h'] live_iff [OF assms(1)]
    by (auto simp: fr split: option.splits arena_kind.splits)
  show "\<not> live G s b z" for z using assms(3) G unfolding live_iff [OF assms(1)] by simp
  show "block_to_arena b (set_free_list i bs s) = Some ?a"
    using block_to_arena_small [OF descs_ok_set [OF ok(2) assms(2)] assms(2) al arena_not_null [OF assms(1) G]] hd bb by simp
qed

section \<open>New arenas\<close>

lemma get_pages:
  assumes "heap_ok G s" "n \<noteq> 0" "free_run False s (unat n)"
  shows "\<exists>a b. palloc_get_multiple 0 n s = Some (a, set_map False b s) \<and> a \<noteq> NULL \<and> aligned a
    \<and> group False s a (unat n) \<and> (\<forall>x. in_pages a (unat n) x \<longrightarrow> \<not> page_used False s x) \<and> marked False a (unat n) True s b"
proof -
  have same: "(set_map False b s)\<lparr>kmem := kmem s\<rparr> = set_map False b s" for b by (simp add: set_map_def)
  obtain a b where ab: "palloc_get_multiple 0 n s = Some (a, (set_map False b s)\<lparr>kmem := kmem s\<rparr>)" "group False s a (unat n)"
      "\<forall>x. in_pages a (unat n) x \<longrightarrow> \<not> page_used False s x" "marked False a (unat n) True s b"
    using palloc_get_ok [OF heap_okD(1) [OF assms(1)] assms(2) _ assms(3), of 0] by auto
  note ab [unfolded same]
  moreover have "a \<noteq> NULL" using group_bounds(3) [OF heap_okD(1) [OF assms(1)] ab(2)] .
  moreover have "aligned a" using ab(2) by (simp add: group_def aligned_def)
  ultimately show ?thesis by blast
qed

lemma set_map_descs [simp]: "descs (set_map u b s) = descs s"
  by (simp add: set_map_def)

text \<open>The memory of the live blocks is not touched when the header of an arena is written.\<close>

lemma live_kept:
  assumes "heap_ok G s" "G a = Some k" "live G s p z" "in_block p z x" "aligned a"
  shows "init_arena a d c m x = m x" "set_free_cnt a c m x = m x"
  using live_not_header [OF assms(1-4)] init_arena_other [OF assms(5)] set_free_cnt_other [OF assms(5)] by simp_all

lemma live_subset:
  assumes "heap_ok G s" "heap_ok G' s'" "G \<subseteq>\<^sub>m G'" "\<And>i. i < 7 \<Longrightarrow> set (frees s' i) \<inter> {b. G (pg_round_down b) \<noteq> None} \<subseteq> set (frees s i)" "live G s p z"
  shows "live G' s' p z"
  using assms(1,5)
proof (cases rule: live_cases)
  case (big n)
  then have "G' (pg_round_down p) = Some (Big n)" using assms(3) by (simp add: map_le_def dom_def)
  then show ?thesis using big(2,3) by (simp add: live_iff [OF assms(2)])
next
  case (small i)
  then have "G' (pg_round_down p) = Some (Small i)" using assms(3) by (simp add: map_le_def dom_def)
  moreover have "p \<notin> set (frees s' i)" using assms(4) [OF arena_small [OF assms(1) small(1)]] small(1,3) by auto
  ultimately show ?thesis using small(2,4) by (simp add: live_iff [OF assms(2)])
qed

lemma new_arena_ok:
  assumes "heap_ok G s" "i < 7" "frees s i = []" "free_run False s 1"
  shows "\<exists>a s'. new_arena i s = Some (True, s') \<and> heap_ok (G(a \<mapsto> Small i)) s' \<and> frees s' i = blocks i a
    \<and> (\<forall>p z. live (G(a \<mapsto> Small i)) s' p z = live G s p z) \<and> (\<forall>p z x. live G s p z \<longrightarrow> in_block p z x \<longrightarrow> kmem s' x = kmem s x)"
proof -
  note ok = heap_okD [OF assms(1)] and l = listsD [OF assms(1)]
  obtain a b where ab: "palloc_get_multiple 0 1 s = Some (a, set_map False b s)" "a \<noteq> NULL" "aligned a"
      "group False s a 1" "\<And>x. in_pages a 1 x \<Longrightarrow> \<not> page_used False s x" "marked False a 1 True s b"
    using get_pages [OF assms(1), of 1] assms(4) by auto
  define dw cw :: u32 where dw: "dw = of_nat (i + 1)" and cw: "cw = of_nat (bpa i)"
  have dw': "(of_nat (Suc i) :: u32) = dw" by (simp add: dw)
  let ?s1 = "(set_map False b s)\<lparr>kmem := init_arena a dw cw (kmem s)\<rparr>"
  let ?s' = "set_free_list i (blocks i a) ?s1"
  note d = descs_okD [OF ok(2) assms(2)]
  have hd: "header (kmem ?s1) a dw cw" using header_init_same [OF ab(3), of dw cw "kmem s"] by simp
  have hd': "header (kmem ?s1) a (of_nat (i + 1)) cw" using hd unfolding dw by assumption
  have add: "add_blocks a i [0..<bpa i] ?s1 = Some ?s'"
    using add_blocks_ok [OF _ assms(2) ab(2) hd', of "[0..<bpa i]"] ok(2) assms(3) by (simp add: blocks_def)
  have run: "new_arena i s = Some (True, ?s')"
    using ab(1,2) add d(3,6) by (simp add: new_arena_def palloc_get_page_def Let_def dw' cw [symmetric] del: of_nat_Suc of_nat_add)
  have len: "i < length (descs ?s1)" using d(1) assms(2) by simp
  have fr: "frees ?s' j = (if j = i then blocks i a else frees s j)" for j using frees_set [OF len] by simp
  have rb: "pg_round_down c = a" if "c \<in> set (blocks i a)" for c using round_in_blocks [OF ab(3) that] .
  have free_a: "free_in ?s' i a = bpa i"
    unfolding free_in_def fr using rb by (simp add: filter_True) (simp add: blocks_def)
  have G_a: "G a = None"
  proof (rule ccontr)
    assume "G a \<noteq> None"
    then obtain k where "G a = Some k" by blast
    note okk = arena_okD [OF ok(3) [OF this]]
    show False using okk(2) [OF start_in_pages [OF okk(5)]] ab(5) [OF start_in_pages [of 1 a]] by simp
  qed
  have not_a: "pg_round_down c \<noteq> a" if "j < 7" "c \<in> set (frees s j)" for c j using l(2) [OF that] G_a by auto
  have heap: "heap_ok (G(a \<mapsto> Small i)) ?s'"
  proof (rule arena_added(1) [OF assms(1) _ _ _ _ _ _ _ _ _, where d = dw and c = cw and b = b])
    show "free_in ?s' j a' = free_in s j a'" if "G a' \<noteq> None" "j < 7" for a' j
      using that rb G_a assms(3) unfolding free_in_def fr by (auto simp: filter_empty_conv)
    show "lists_ok (G(a \<mapsto> Small i)) ?s'"
      using l not_a rb distinct_blocks [OF ab(3)] unfolding lists_ok_def by (auto simp: fr)
    show "arena_header ?s' a (Small i)" using hd free_a assms(2) by (simp add: dw' cw [symmetric] del: of_nat_Suc of_nat_add)
  qed (use ab(4-6) ok(2) descs_ok_set [of ?s1, OF _ assms(2)] in simp_all)
  have lv: "live (G(a \<mapsto> Small i)) ?s' p z = live G s p z" for p z
    using G_a assms(3) unfolding live_iff [OF heap] live_iff [OF assms(1)]
    by (auto simp: fr dest: rb split: option.splits arena_kind.splits)
  have "kmem ?s' x = kmem s x" if "live G s p z" "in_block p z x" for p z x
    using live_kept(1) [OF heap _ _ that(2) ab(3)] lv that(1) by simp
  then show ?thesis using run heap lv fr by auto
qed

lemma new_arena_none:
  assumes "heap_ok G s" "\<not> free_run False s 1"
  shows "new_arena i s = Some (False, s)"
  using palloc_get_none [OF heap_okD(1) [OF assms(1)], of 1 False 0] assms(2) by (simp add: new_arena_def palloc_get_page_def)

lemma big_block_ok:
  assumes "heap_ok G s" "n \<noteq> 0" "free_run False s (unat n)"
  shows "\<exists>a s'. palloc_get_multiple 0 n s = Some (a, s') \<and> a \<noteq> NULL \<and> G a = None
    \<and> heap_ok (G(a \<mapsto> Big (unat n))) (s'\<lparr>kmem := init_arena a NULL n (kmem s')\<rparr>)
    \<and> (\<forall>p z. live (G(a \<mapsto> Big (unat n))) (s'\<lparr>kmem := init_arena a NULL n (kmem s')\<rparr>) p z
           \<longleftrightarrow> live G s p z \<or> p = a + 12 \<and> z = 4096 * unat n - 12)
    \<and> (\<forall>p z x. live G s p z \<longrightarrow> in_block p z x \<longrightarrow> init_arena a NULL n (kmem s') x = kmem s x)"
proof -
  note ok = heap_okD [OF assms(1)] and l = listsD [OF assms(1)]
  obtain a b where ab: "palloc_get_multiple 0 n s = Some (a, set_map False b s)" "a \<noteq> NULL" "aligned a"
      "group False s a (unat n)" "\<And>x. in_pages a (unat n) x \<Longrightarrow> \<not> page_used False s x" "marked False a (unat n) True s b"
    using get_pages [OF assms] by blast
  let ?k = "Big (unat n)" and ?s' = "(set_map False b s)\<lparr>kmem := init_arena a NULL n (kmem s)\<rparr>"
  have lists: "lists_ok (G(a \<mapsto> ?k)) ?s'" if "G a = None"
    using l that unfolding lists_ok_def by (auto dest: l(2))
  have G_a: "G a = None"
  proof (rule ccontr)
    assume "G a \<noteq> None"
    then obtain k where "G a = Some k" by blast
    note okk = arena_okD [OF ok(3) [OF this]]
    show False using okk(2) [OF start_in_pages [OF okk(5)]] ab(5) [OF start_in_pages [of "unat n" a]] assms(2)
      by (simp add: unat_gt_0)
  qed
  have heap: "heap_ok (G(a \<mapsto> ?k)) ?s'"
  proof (rule arena_added(1) [OF assms(1) _ _ _ _ _ _ _ _ lists [OF G_a], where d = NULL and c = n and b = b])
    show "arena_header ?s' a ?k" using header_init_same [OF ab(3), of NULL n "kmem s"] by simp
  qed (use ab(4-6) ok(2) in \<open>simp_all add: free_in_def\<close>)
  have r: "pg_round_down (a + 12) = a" using round_offset(1) [OF ab(3), of 12] by simp
  have lv: "live (G(a \<mapsto> ?k)) ?s' p z \<longleftrightarrow> live G s p z \<or> p = a + 12 \<and> z = 4096 * unat n - 12" for p z
    using G_a r unfolding live_iff [OF heap] live_iff [OF assms(1)]
    by (auto split: option.splits arena_kind.splits)
  have "init_arena a NULL n (kmem s) x = kmem s x" if "live G s p z" "in_block p z x" for p z x
    using live_kept(1) [OF heap _ _ that(2) ab(3)] lv that(1) by simp
  then show ?thesis using ab(1,2) G_a heap lv by auto
qed

section \<open>Allocation\<close>

text \<open>The heap whose live blocks, with their sizes, are given by a map.\<close>

definition holds :: "heap \<Rightarrow> (addr \<rightharpoonup> nat) \<Rightarrow> bool" where
  "holds s L \<longleftrightarrow> (\<exists>G. heap_ok G s \<and> (\<forall>p z. L p = Some z \<longleftrightarrow> live G s p z))"

definition unchanged :: "(addr \<rightharpoonup> nat) \<Rightarrow> heap \<Rightarrow> heap \<Rightarrow> bool" where
  "unchanged L s s' \<longleftrightarrow> (\<forall>q y x. L q = Some y \<longrightarrow> in_block q y x \<longrightarrow> kmem s' x = kmem s x)"

definition pages_for :: "u32 \<Rightarrow> nat" where
  "pages_for sz = (unat sz + 12 + 4095) div 4096"

lemma find_desc_some: "find_desc sz ds = Some i \<Longrightarrow> i < length ds \<and> sz \<le> desc_block_size (ds ! i)"
  by (induction ds arbitrary: i) (auto split: if_splits)

lemma find_desc_none: "find_desc sz ds = None \<Longrightarrow> d \<in> set ds \<Longrightarrow> desc_block_size d < sz"
  by (induction ds) (auto split: if_splits)

lemma find_desc_cases:
  fixes s :: heap
  assumes "descs_ok (descs s)"
  obtains (small) i where "find_desc sz (descs s) = Some i" "i < 7" "unat sz \<le> bsz i" "unat sz \<le> 1024"
    | (big) "find_desc sz (descs s) = None" "1024 < unat sz"
proof (cases "find_desc sz (descs s)")
  case None
  have "descs s ! 6 \<in> set (descs s)" using assms by (intro nth_mem) (simp add: descs_ok_def)
  from find_desc_none [OF None this] have "unat (of_nat (bsz 6) :: u32) < unat sz"
    using descs_okD(2) [OF assms, of 6] by (simp add: word_less_nat_alt)
  then show thesis using None that(2) by (simp add: bsz_def)
next
  case (Some i)
  then have i: "i < 7" "sz \<le> of_nat (bsz i)" using find_desc_some [OF Some] assms by (auto simp: descs_ok_def)
  then have le: "unat sz \<le> bsz i" using descs_okD(5) [OF assms i(1)] by (simp add: word_le_nat_alt)
  moreover have "bsz i \<le> 1024" using i(1) unfolding less7 by (auto simp: bsz_def)
  ultimately show thesis using that(1) [OF Some i(1)] by simp
qed

text \<open>What handing out a block means for the live blocks.\<close>

definition handed_out :: "arenas \<Rightarrow> heap \<Rightarrow> addr \<Rightarrow> nat \<Rightarrow> arenas \<Rightarrow> heap \<Rightarrow> bool" where
  "handed_out G s p n G' s' \<longleftrightarrow> p \<noteq> NULL \<and> heap_ok G' s' \<and> (\<forall>q z. live G' s' q z \<longleftrightarrow> live G s q z \<or> q = p \<and> z = n)
     \<and> (\<forall>z. \<not> live G s p z) \<and> (\<forall>q z x. live G s q z \<longrightarrow> in_block q z x \<longrightarrow> kmem s' x = kmem s x)"

lemma take_free_ok:
  assumes "heap_ok G s" "i < 7" "frees s i \<noteq> []"
  shows "\<exists>p s'. take_free i s = Some (p, s') \<and> handed_out G s p (bsz i) G s'"
proof -
  obtain b bs where b: "frees s i = b # bs" using assms(3) by (cases "frees s i") auto
  define s' where "s' = (set_free_list i bs s)\<lparr>kmem := set_free_cnt (pg_round_down b) (free_cnt (kmem s) (pg_round_down b) - 1) (kmem s)\<rparr>"
  note t = block_taken [OF assms(1,2) b s'_def]
  have G: "G (pg_round_down b) = Some (Small i)" using listsD(2) [OF assms(1,2), of b] b by simp
  note al = arena_aligned [OF assms(1) G]
  have "b \<in> set (blocks i (pg_round_down b))" using listsD(3) [OF assms(1,2), of b] b by simp
  then obtain k where "k < bpa i" "b = blk i (pg_round_down b) k" by (auto simp: in_blocks)
  then have "unat b = unat (pg_round_down b) + 12 + k * bsz i" using unat_blk [OF al] by metis
  then have nn: "b \<noteq> NULL" by auto
  have "kmem s' x = kmem s x" if "live G s q z" "in_block q z x" for q z x
    using live_kept(2) [OF assms(1) G that al] by (simp add: s'_def)
  then have "handed_out G s b (bsz i) G s'" using t(1-3) nn by (simp add: handed_out_def)
  moreover have "take_free i s = Some (b, s')" using b t(4) by (simp add: take_free_def Let_def s'_def)
  ultimately show ?thesis by blast
qed

lemma malloc_small:
  assumes "heap_ok G s" "find_desc sz (descs s) = Some i" "i < 7" "sz \<noteq> 0" "frees s i \<noteq> [] \<or> free_run False s 1"
  shows "\<exists>p s' G'. malloc sz s = Some (p, s') \<and> handed_out G s p (bsz i) G' s'"
proof (cases "frees s i = []")
  case True
  then have "free_run False s 1" using assms(5) by simp
  then obtain a s1 where n: "new_arena i s = Some (True, s1)" "heap_ok (G(a \<mapsto> Small i)) s1" "frees s1 i = blocks i a"
      "\<And>p z. live (G(a \<mapsto> Small i)) s1 p z = live G s p z" "\<And>p z x. live G s p z \<Longrightarrow> in_block p z x \<Longrightarrow> kmem s1 x = kmem s x"
    using new_arena_ok [OF assms(1,3) True] by blast
  have "frees s1 i \<noteq> []" using n(3) bpa_pos [OF assms(3)] by (simp add: blocks_def)
  from take_free_ok [OF n(2) assms(3) this] obtain p s' where
    t: "take_free i s1 = Some (p, s')" "handed_out (G(a \<mapsto> Small i)) s1 p (bsz i) (G(a \<mapsto> Small i)) s'" by blast
  have "malloc sz s = Some (p, s')" using n(1) t(1) assms(2,4) True by (simp add: malloc_def)
  moreover have "handed_out G s p (bsz i) (G(a \<mapsto> Small i)) s'" using t(2) n(4,5) by (simp add: handed_out_def)
  ultimately show ?thesis by blast
next
  case False
  from take_free_ok [OF assms(1,3) this] obtain p s' where
    t: "take_free i s = Some (p, s')" "handed_out G s p (bsz i) G s'" by blast
  have "malloc sz s = Some (p, s')" using t(1) assms(2,4) False by (simp add: malloc_def)
  then show ?thesis using t(2) by blast
qed

lemma malloc_big:
  assumes "heap_ok G s" "find_desc sz (descs s) = None" "sz \<noteq> 0" "n = DIV_ROUND_UP (sz + 12) 4096" "n \<noteq> 0" "free_run False s (unat n)"
  shows "\<exists>p s' G'. malloc sz s = Some (p, s') \<and> handed_out G s p (4096 * unat n - 12) G' s'"
proof -
  obtain a s1 where a: "palloc_get_multiple 0 n s = Some (a, s1)" "a \<noteq> NULL" "G a = None"
      "heap_ok (G(a \<mapsto> Big (unat n))) (s1\<lparr>kmem := init_arena a NULL n (kmem s1)\<rparr>)"
      "\<And>p z. live (G(a \<mapsto> Big (unat n))) (s1\<lparr>kmem := init_arena a NULL n (kmem s1)\<rparr>) p z \<longleftrightarrow> live G s p z \<or> p = a + 12 \<and> z = 4096 * unat n - 12"
      "\<And>p z x. live G s p z \<Longrightarrow> in_block p z x \<Longrightarrow> init_arena a NULL n (kmem s1) x = kmem s x"
    using big_block_ok [OF assms(1,5,6)] by blast
  let ?G = "G(a \<mapsto> Big (unat n))" and ?s' = "s1\<lparr>kmem := init_arena a NULL n (kmem s1)\<rparr>"
  have al: "aligned a" using arena_aligned [OF a(4), of a] by simp
  have r: "unat (a + 12) = unat a + 12" "pg_round_down (a + 12) = a" using unat_offset [OF al, of 12] round_offset(1) [OF al, of 12] by simp_all
  then have "a + 12 \<noteq> NULL" by (metis add_is_0 unat_0 zero_neq_numeral)
  moreover have "\<not> live G s (a + 12) z" for z using a(3) r(2) by (simp add: live_iff [OF assms(1)])
  ultimately have "handed_out G s (a + 12) (4096 * unat n - 12) ?G ?s'" using a(4-6) by (simp add: handed_out_def)
  moreover have "malloc sz s = Some (a + 12, ?s')" using assms(2,3,4) a(1,2) by (simp add: malloc_def Let_def)
  ultimately show ?thesis by blast
qed

lemma malloc_none:
  assumes "heap_ok G s" "sz \<noteq> 0" "unat sz + 4108 < 2 ^ 32" "\<not> free_run False s (pages_for sz)"
    and "\<And>i. find_desc sz (descs s) = Some i \<Longrightarrow> frees s i = []"
  shows "malloc sz s = Some (NULL, s)"
proof (cases rule: find_desc_cases [OF heap_okD(2) [OF assms(1)], of sz])
  case (1 i)
  have "pages_for sz = 1" using 1(4) assms(2) unfolding pages_for_def by (cases "unat sz") auto
  then show ?thesis using new_arena_none [OF assms(1)] assms(2,4,5) 1(1) by (simp add: malloc_def)
next
  case 2
  let ?n = "DIV_ROUND_UP (sz + 12) 4096"
  have "unat (sz + 12) = unat sz + 12" using unat_add_of_nat [of sz 12] assms(3) by simp
  then have n: "unat ?n = pages_for sz" using assms(3) by (simp add: unat_DIV_ROUND_UP pages_for_def)
  moreover have "0 < pages_for sz" by (simp add: pages_for_def)
  ultimately have "?n \<noteq> 0" by auto
  then show ?thesis using palloc_get_none [OF heap_okD(1) [OF assms(1)], of ?n False 0] assms(2,4) 2(1) n
    by (simp add: malloc_def Let_def)
qed

lemma holds_handed_out:
  assumes "heap_ok G s" "\<forall>p z. L p = Some z \<longleftrightarrow> live G s p z" "handed_out G s p n G' s'"
  shows "p \<noteq> NULL" "L p = None" "holds s' (L(p \<mapsto> n))" "unchanged L s s'"
proof -
  note h = assms(3) [unfolded handed_out_def]
  show "p \<noteq> NULL" using h by simp
  show none: "L p = None" using assms(2) h by (cases "L p") auto
  have "(L(p \<mapsto> n)) q = Some z \<longleftrightarrow> live G' s' q z" for q z using assms(2) h none by auto
  then show "holds s' (L(p \<mapsto> n))" using h by (auto simp: holds_def)
  show "unchanged L s s'" using h assms(2) by (auto simp: unchanged_def)
qed

section \<open>Release\<close>

text \<open>How many blocks of an arena are free.\<close>

lemma free_in_bound:
  assumes "heap_ok G s" "G a = Some (Small i)"
  shows "free_in s i a \<le> bpa i" "free_in s i a = bpa i \<Longrightarrow> set (blocks i a) \<subseteq> set (frees s i)"
proof -
  let ?F = "set (filter (\<lambda>b. pg_round_down b = a) (frees s i))"
  note i = arena_small [OF assms] and al = arena_aligned [OF assms]
  note l = listsD [OF assms(1) i]
  have F: "free_in s i a = card ?F" unfolding free_in_def by (rule distinct_card [symmetric]) (simp add: l(1))
  have B: "card (set (blocks i a)) = bpa i" using distinct_blocks [OF al] by (simp add: distinct_card) (simp add: blocks_def)
  have sub: "?F \<subseteq> set (blocks i a)" using l(3) by auto
  show "free_in s i a \<le> bpa i" using card_mono [OF _ sub] F B by simp
  show "set (blocks i a) \<subseteq> set (frees s i)" if "free_in s i a = bpa i"
    using card_subset_eq [OF _ sub] that F B by auto
qed

lemma fill_header:
  assumes "heap_ok G s" "live G s p z" "G a = Some k"
  shows "header (fill p z v (kmem s)) a d n = header (kmem s) a d n"
proof (rule header_cong [OF arena_aligned [OF assms(1,3)]])
  fix x :: addr assume x: "unat a \<le> unat x" "unat x < unat a + 12"
  have "\<not> in_block p z x" using live_not_header [OF assms(1,3,2)] x by force
  then show "fill p z v (kmem s) x = kmem s x" by (auto simp: fill_def in_block_def)
qed

lemma block_freed:
  assumes "heap_ok G s" "live G s p z" "a = pg_round_down p" "G a = Some (Small i)"
    and "s' = (set_free_list i (p # frees s i) s)\<lparr>kmem := set_free_cnt a (of_nat (free_in s i a + 1)) (fill p z 0xcc (kmem s))\<rparr>"
  shows "heap_ok G s'" "\<And>q y. live G s' q y \<longleftrightarrow> live G s q y \<and> q \<noteq> p" "free_in s' i a = free_in s i a + 1"
    "\<And>q y x. live G s q y \<Longrightarrow> q \<noteq> p \<Longrightarrow> in_block q y x \<Longrightarrow> kmem s' x = kmem s x"
proof -
  note ok = heap_okD [OF assms(1)] and i = arena_small [OF assms(1,4)] and al = arena_aligned [OF assms(1,4)]
  have p: "p \<in> set (blocks i a)" "p \<notin> set (frees s i)" "z = bsz i"
    using assms(2-4) unfolding live_iff [OF assms(1)] by simp_all
  have len: "i < length (descs s)" using descs_okD(1) [OF ok(2) i] i by simp
  have fr: "frees s' j = (if j = i then p # frees s i else frees s j)" for j using frees_set [OF len] assms(5) by simp
  have pl: "the_pool u s' = the_pool u s" for u using assms(5) by simp
  have fi: "free_in s' j x = (if j = i \<and> x = a then free_in s j x + 1 else free_in s j x)" for j x
    using assms(3) by (simp add: free_in_def fr)
  then show fa: "free_in s' i a = free_in s i a + 1" by simp
  have km: "kmem s' = set_free_cnt a (of_nat (free_in s' i a)) (fill p z 0xcc (kmem s))" unfolding fa using assms(5) by simp
  have hd: "header (fill p z 0xcc (kmem s)) a (of_nat (i + 1)) (of_nat (free_in s i a))"
    unfolding fill_header [OF assms(1,2,4)] using arena_okD(3) [OF ok(3) [OF assms(4)]] by simp
  have "arena_ok s' x k" if x: "G x = Some k" for x k
  proof (cases "x = a")
    case True
    have "header (kmem s') a (of_nat (i + 1)) (of_nat (free_in s' i a))" unfolding km by (rule header_set_same [OF al hd])
    moreover have "k = Small i" using x assms(4) True by simp
    ultimately show ?thesis using ok(3) [OF x] True i page_used_pool [OF pl] group_pool_cong [OF pl]
      by (simp add: arena_ok_def)
  next
    case False
    have "arena_ok s' x k = arena_ok s x k"
      using header_set_other [OF al arena_aligned [OF assms(1) x]] False fill_header [OF assms(1,2) x]
      by (intro arena_ok_cong pl) (auto simp: km fi)
    then show ?thesis using ok(3) [OF x] by simp
  qed
  moreover have "lists_ok G s'" using ok(5) p assms(3,4) unfolding lists_ok_def by (auto simp: fr)
  moreover have "descs_ok (descs s')" using descs_ok_set [OF ok(2) i] assms(5) by simp
  ultimately show h': "heap_ok G s'" using ok(1,4) pools_ok_cong [of s' s] pl by (simp add: heap_ok_def)
  have pa: "pg_round_down p = a" using assms(3) by simp
  show "live G s' q y \<longleftrightarrow> live G s q y \<and> q \<noteq> p" for q y
    using p(2) pa assms(4) unfolding live_iff [OF h'] live_iff [OF assms(1)]
    by (auto simp: fr split: option.splits arena_kind.splits)
  show "kmem s' x = kmem s x" if q: "live G s q y" "q \<noteq> p" "in_block q y x" for q y x
  proof -
    have "\<not> in_block p z x" using live_disjoint [OF assms(1) q(1) assms(2) q(3)] q(2) by blast
    then have "fill p z 0xcc (kmem s) x = kmem s x" by (auto simp: fill_def in_block_def)
    then show ?thesis unfolding km using live_kept(2) [OF assms(1,4) q(1,3) al] by simp
  qed
qed

lemma arena_removed:
  assumes "heap_ok G s" "G a = Some k" "marked False a (arena_pages k) False s b"
    and "\<And>u. the_pool u s' = the_pool u (set_map False b s)" "kmem s' = fill a (4096 * arena_pages k) 0xcc (kmem s)"
    and "descs_ok (descs s')" "\<And>c i. c \<noteq> a \<Longrightarrow> G c \<noteq> None \<Longrightarrow> i < 7 \<Longrightarrow> free_in s' i c = free_in s i c" "lists_ok (G(a := None)) s'"
  shows "heap_ok (G(a := None)) s'"
proof -
  note ok = heap_okD [OF assms(1)]
  have used: "page_used False s' x = (if in_pages a (arena_pages k) x then False else page_used False s x)" for x
    using assms(3) page_used_pool [OF assms(4), of False] by (simp add: marked_def)
  have grp: "group False s' p n = group False s p n" for p n
    using assms(3,4) by (simp add: group_def marked_def size_of_def)
  have "arena_ok s' c l" if "(G(a := None)) c = Some l" for c l
  proof -
    have c: "c \<noteq> a" "G c = Some l" using that by (auto split: if_splits)
    note okc = arena_okD [OF ok(3) [OF c(2)]]
    have apt: "\<not> in_pages a (arena_pages k) x" if "in_pages c (arena_pages l) x" for x
      using ok(4) assms(2) c that unfolding apart_def by blast
    have "header (kmem s') c d n = header (kmem s) c d n" for d n
    proof (rule header_cong [OF okc(4)])
      fix x :: addr assume "unat c \<le> unat x" "unat x < unat c + 12"
      then have "in_pages c (arena_pages l) x" using okc(5) by (auto simp: in_pages_def)
      then have "\<not> in_pages a (arena_pages k) x" by (rule apt)
      then show "kmem s' x = kmem s x" unfolding assms(5) by (auto simp: fill_def in_pages_def)
    qed
    then have "arena_header s' c l = arena_header s c l" using assms(7) [OF c(1)] c(2) by (intro arena_header_cong) auto
    then show ?thesis using okc apt used grp by (simp add: arena_ok_def)
  qed
  moreover have "apart (G(a := None))" using ok(4) unfolding apart_def by (metis fun_upd_apply option.discI)
  moreover have "pools_ok s'"
    using pools_ok_marked [OF ok(1) assms(3)] pools_ok_cong [of s' "set_map False b s"] assms(4) by simp
  ultimately show ?thesis using assms(6,8) by (simp add: heap_ok_def)
qed

lemma marked_cong: "the_pool u s' = the_pool u s \<Longrightarrow> marked u p n v s' b = marked u p n v s b"
  by (simp add: marked_def page_used_def)

text \<open>What taking a block back means for the live blocks.\<close>

definition taken_back :: "arenas \<Rightarrow> heap \<Rightarrow> addr \<Rightarrow> arenas \<Rightarrow> heap \<Rightarrow> bool" where
  "taken_back G s p G' s' \<longleftrightarrow> heap_ok G' s' \<and> (\<forall>q y. live G' s' q y \<longleftrightarrow> live G s q y \<and> q \<noteq> p)
     \<and> (\<forall>q y x. live G s q y \<longrightarrow> q \<noteq> p \<longrightarrow> in_block q y x \<longrightarrow> kmem s' x = kmem s x)"

lemma arena_released:
  assumes "heap_ok G s" "G a = Some (Small i)" "free_in s i a = bpa i"
  shows "\<exists>s2 s'. remove_blocks a i [0..<bpa i] s = Some s2 \<and> palloc_free_page a s2 = Some s'
    \<and> heap_ok (G(a := None)) s' \<and> (\<forall>q y. live (G(a := None)) s' q y = live G s q y)
    \<and> (\<forall>q y x. live G s q y \<longrightarrow> in_block q y x \<longrightarrow> kmem s' x = kmem s x)"
proof -
  note ok = heap_okD [OF assms(1)] and i = arena_small [OF assms(1,2)] and al = arena_aligned [OF assms(1,2)]
  note l = listsD [OF assms(1)] and a = arena_okD [OF ok(3) [OF assms(2)]]
  have sub: "set (blocks i a) \<subseteq> set (frees s i)" using free_in_bound(2) [OF assms(1,2)] assms(3) by simp
  let ?s2 = "set_free_list i (filter (\<lambda>b. b \<notin> set (blocks i a)) (frees s i)) s"
  have hd: "header (kmem s) a (of_nat (i + 1)) (of_nat (free_in s i a))" using a(3) by simp
  have rem: "remove_blocks a i [0..<bpa i] s = Some ?s2"
    using remove_blocks_ok [OF ok(2) i arena_not_null [OF assms(1,2)] hd, of "[0..<bpa i]"]
      distinct_blocks [OF al, of i] l(1) [OF i] sub by (simp add: blocks_def)
  have len: "i < length (descs s)" using descs_okD(1) [OF ok(2) i] i by simp
  have pl: "the_pool u ?s2 = the_pool u s" for u by simp
  obtain b where b: "palloc_free_multiple a 1 ?s2 = Some (set_map False b (?s2\<lparr>kmem := fill a (4096 * unat (1 :: u32)) 0xcc (kmem ?s2)\<rparr>))"
      "marked False a (unat (1 :: u32)) False ?s2 b"
  proof -
    have "pools_ok ?s2" using pools_ok_cong [of ?s2 s] ok(1) by simp
    moreover have "group False ?s2 a (unat (1 :: u32))" using group_pool_cong [OF pl, of False a 1] a(1) by simp
    moreover have "page_used False ?s2 x" if "in_pages a (unat (1 :: u32)) x" for x
      using a(2) [of x] that page_used_pool [OF pl, of False] by simp
    ultimately show ?thesis using palloc_free_ok that by blast
  qed
  define s' where "s' = set_map False b (?s2\<lparr>kmem := fill a 4096 0xcc (kmem s)\<rparr>)"
  have fr: "frees s' j = (if j = i then filter (\<lambda>b. b \<notin> set (blocks i a)) (frees s i) else frees s j)" for j
    using frees_set [OF len] by (simp add: s'_def)
  have rb: "pg_round_down c = a" if "c \<in> set (blocks i a)" for c using round_in_blocks [OF al that] .
  have lists: "lists_ok (G(a := None)) s'"
    unfolding lists_ok_def
  proof (intro allI impI conjI ballI)
    fix j assume j: "(j :: nat) < 7"
    show "distinct (frees s' j)" using l(1) [OF j] by (auto simp: fr)
    fix c assume c: "c \<in> set (frees s' j)"
    then have c': "c \<in> set (frees s j)" by (auto simp: fr split: if_splits)
    have "pg_round_down c \<noteq> a"
    proof
      assume r: "pg_round_down c = a"
      then have "j = i" using l(2) [OF j c'] assms(2) by simp
      then show False using c l(3) [OF j c'] r by (simp add: fr)
    qed
    then show "(G(a := None)) (pg_round_down c) = Some (Small j)" using l(2) [OF j c'] by simp
    show "c \<in> set (blocks j (pg_round_down c))" using l(3) [OF j c'] .
  qed
  have fi: "free_in s' j c = free_in s j c" if "c \<noteq> a" for j c
    unfolding free_in_def fr using rb that by (auto intro!: arg_cong [where f = length] filter_cong)
  have heap: "heap_ok (G(a := None)) s'"
    by (rule arena_removed [OF assms(1,2), where b = b])
      (use b(2) marked_cong [OF pl, of False a 1 False b] descs_ok_set [OF ok(2) i] fi lists in \<open>simp_all add: s'_def\<close>)
  have none: "\<not> live G s q y" if "pg_round_down q = a" for q y
    using that assms(2) sub by (auto simp: live_iff [OF assms(1)])
  have lv: "live (G(a := None)) s' q y = live G s q y" for q y
  proof (cases "pg_round_down q = a")
    case True
    then show ?thesis using none unfolding live_iff [OF heap] by simp
  next
    case False
    then show ?thesis using rb unfolding live_iff [OF heap] live_iff [OF assms(1)]
      by (auto simp: fr split: option.splits arena_kind.splits)
  qed
  have "kmem s' x = kmem s x" if q: "live G s q y" "in_block q y x" for q y x
  proof -
    obtain c k where c: "G c = Some k" "in_pages c (arena_pages k) x" "pg_round_down q = c"
      using live_in_arena [OF assms(1) q(1)] q(2) by blast
    have "c \<noteq> a" using none q(1) c(3) by blast
    then have "\<not> in_pages a 1 x" using ok(4) assms(2) c(1,2) unfolding apart_def by fastforce
    then show ?thesis by (auto simp: s'_def fill_def in_pages_def)
  qed
  then show ?thesis using rem b(1) heap lv by (intro exI [of _ ?s2] exI [of _ s']) (simp add: palloc_free_page_def s'_def)
qed

lemma free_small:
  assumes "heap_ok G s" "live G s p z" "G (pg_round_down p) = Some (Small i)"
  shows "\<exists>s' G'. free p s = Some s' \<and> taken_back G s p G' s'"
proof -
  define a where "a = pg_round_down p"
  note Ga = assms(3) [folded a_def]
  note ok = heap_okD [OF assms(1)] and i = arena_small [OF assms(1) Ga] and al = arena_aligned [OF assms(1) Ga]
  have p: "p \<in> set (blocks i a)" "z = bsz i" using assms(2) Ga a_def unfolding live_iff [OF assms(1)] by simp_all
  have hd: "header (kmem s) a (of_nat (i + 1)) (of_nat (free_in s i a))" using arena_okD(3) [OF ok(3) [OF Ga]] by simp
  have ba: "block_to_arena p s = Some a" using block_to_arena_small [OF ok(2) i al arena_not_null [OF assms(1) Ga] hd p(1)] .
  define dw where "dw = arena_desc (kmem s) a"
  have dw: "dw = of_nat (i + 1)" using hd by (simp add: header_def dw_def)
  note d = descs_okD [OF ok(2) i, folded dw]
  have dn: "dw \<noteq> 0" using small_desc_not_null [OF i] dw by simp
  have ui: "unat dw - 1 = i" using d(7) by simp
  define s1 where "s1 = (set_free_list i (p # frees s i) s)\<lparr>kmem := set_free_cnt a (of_nat (free_in s i a + 1)) (fill p z 0xcc (kmem s))\<rparr>"
  note f = block_freed [OF assms(1,2) a_def Ga s1_def]
  have cnt: "free_cnt (fill p z 0xcc (kmem s)) a + 1 = of_nat (free_in s i a + 1)"
    using hd [folded fill_header [OF assms(1,2) Ga, where v = "0xcc"]] by (simp add: header_def)
  have s1: "(set_free_list i (p # frees s i) (s\<lparr>kmem := fill p z 0xcc (kmem s)\<rparr>))\<lparr>kmem := set_free_cnt a (of_nat (free_in s i a + 1)) (fill p z 0xcc (kmem s))\<rparr> = s1"
    by (simp add: s1_def set_free_list_def)
  have nn: "p \<noteq> NULL"
  proof -
    obtain k where "k < bpa i" "p = blk i a k" using p(1) by (auto simp: in_blocks)
    then have "unat p = unat a + 12 + k * bsz i" using unat_blk [OF al] by metis
    then show ?thesis by auto
  qed
  have run: "free p s = (if of_nat (bpa i) \<le> (of_nat (free_in s i a + 1) :: u32) then do {
       kassert ((of_nat (free_in s i a + 1) :: u32) = of_nat (bpa i));
       s \<leftarrow> remove_blocks a i [0..<bpa i] s1;
       palloc_free_page a s } else Some s1)"
    using nn ba dn d(2,3,4,5,6) ui p(2) cnt s1 by (simp add: free_def Let_def dw_def [symmetric] del: of_nat_add of_nat_Suc)
  have le: "free_in s i a + 1 \<le> bpa i" using free_in_bound(1) [OF f(1) Ga] f(3) by simp
  have u: "unat (of_nat (free_in s i a + 1) :: u32) = free_in s i a + 1"
    using le bpa_bound [of i] by (intro unat_of_nat_u32) simp
  show ?thesis
  proof (cases "free_in s i a + 1 = bpa i")
    case True
    then have "free_in s1 i a = bpa i" using f(3) by simp
    from arena_released [OF f(1) Ga this] obtain s2 s' where
      r: "remove_blocks a i [0..<bpa i] s1 = Some s2" "palloc_free_page a s2 = Some s'" "heap_ok (G(a := None)) s'"
        "\<And>q y. live (G(a := None)) s' q y = live G s1 q y" "\<And>q y x. live G s1 q y \<Longrightarrow> in_block q y x \<Longrightarrow> kmem s' x = kmem s1 x"
      by blast
    have "free p s = Some s'" unfolding run True using r(1,2) by simp
    moreover have "taken_back G s p (G(a := None)) s'" using r(3-5) f(2,4) by (simp add: taken_back_def)
    ultimately show ?thesis by blast
  next
    case False
    then have "\<not> of_nat (bpa i) \<le> (of_nat (free_in s i a + 1) :: u32)" using le u d(6) by (simp add: word_le_nat_alt)
    then have "free p s = Some s1" using run by simp
    moreover have "taken_back G s p G s1" using f by (simp add: taken_back_def)
    ultimately show ?thesis by blast
  qed
qed

lemma free_big:
  assumes "heap_ok G s" "live G s p z" "G (pg_round_down p) = Some (Big n)"
  shows "\<exists>s' G'. free p s = Some s' \<and> taken_back G s p G' s'"
proof -
  define a where "a = pg_round_down p"
  note Ga = assms(3) [folded a_def]
  note ok = heap_okD [OF assms(1)] and al = arena_aligned [OF assms(1) Ga] and l = listsD [OF assms(1)]
  note A = arena_okD [OF ok(3) [OF Ga]]
  have p: "p = a + 12" using assms(2) Ga a_def unfolding live_iff [OF assms(1)] by simp
  have hd: "arena_magic (kmem s) a = ARENA_MAGIC" "arena_desc (kmem s) a = NULL" "free_cnt (kmem s) a = of_nat n"
    using A(3) by (simp_all add: header_def)
  have nb: "unat (of_nat n :: u32) = n" using group_bounds(1) [OF ok(1) A(1)] by (intro unat_of_nat_u32) simp
  have "unat (pg_ofs p) = unat (12 :: u32)" using round_offset(2) [OF al, of 12] p by simp
  then have ofs: "pg_ofs p = 12" by (rule word_unat_eq_iff [THEN iffD2])
  have "unat p = unat a + 12" using unat_offset [OF al, of 12] p by simp
  then have nn: "p \<noteq> NULL" by auto
  have ba: "block_to_arena p s = Some a"
    using hd arena_not_null [OF assms(1) Ga] ofs by (simp add: block_to_arena_def Let_def a_def [symmetric])
  obtain b where b: "palloc_free_multiple a (of_nat n) s = Some (set_map False b (s\<lparr>kmem := fill a (4096 * n) 0xcc (kmem s)\<rparr>))"
      "marked False a n False s b"
    using palloc_free_ok [OF ok(1), of False a "of_nat n"] A(1,2) nb by auto
  define s' where "s' = set_map False b (s\<lparr>kmem := fill a (4096 * n) 0xcc (kmem s)\<rparr>)"
  have run: "free p s = Some s'" using nn ba hd b(1) by (simp add: free_def s'_def)
  have fr: "frees s' j = frees s j" for j by (simp add: s'_def)
  have lists: "lists_ok (G(a := None)) s'" using l Ga unfolding lists_ok_def by (auto simp: fr dest: l(2))
  have heap: "heap_ok (G(a := None)) s'"
    by (rule arena_removed [OF assms(1) Ga, where b = b]) (use b(2) ok(2) lists in \<open>simp_all add: s'_def free_in_def\<close>)
  have pa: "q = p" if "pg_round_down q = a" "live G s q y" for q y
  proof -
    have "a + 12 = q" using that(2) Ga that(1) unfolding live_iff [OF assms(1)] by simp
    then show ?thesis using p by simp
  qed
  have lv: "live (G(a := None)) s' q y \<longleftrightarrow> live G s q y \<and> q \<noteq> p" for q y
  proof (cases "pg_round_down q = a")
    case True
    then have "\<not> live (G(a := None)) s' q y" unfolding live_iff [OF heap] by simp
    then show ?thesis using pa True by blast
  next
    case False
    then have "q \<noteq> p" using a_def by blast
    then show ?thesis using False unfolding live_iff [OF heap] live_iff [OF assms(1)]
      by (simp add: fr split: option.split arena_kind.split)
  qed
  have "kmem s' x = kmem s x" if q: "live G s q y" "q \<noteq> p" "in_block q y x" for q y x
  proof -
    obtain c k where c: "G c = Some k" "in_pages c (arena_pages k) x" "pg_round_down q = c"
      using live_in_arena [OF assms(1) q(1)] q(3) by blast
    have "c \<noteq> a" using pa [of q y] q(1,2) c(3) by blast
    then have "\<not> in_pages a n x" using ok(4) Ga c(1,2) unfolding apart_def by fastforce
    then show ?thesis by (auto simp: s'_def fill_def in_pages_def)
  qed
  then have "taken_back G s p (G(a := None)) s'" using heap lv by (simp add: taken_back_def)
  then show ?thesis using run by blast
qed

lemma free_ok:
  assumes "heap_ok G s" "live G s p z"
  shows "\<exists>s' G'. free p s = Some s' \<and> taken_back G s p G' s'"
  using assms
proof (cases rule: live_cases)
  case (big n)
  then show ?thesis using free_big [OF assms] by blast
next
  case (small i)
  then show ?thesis using free_small [OF assms] by blast
qed

section \<open>Properties\<close>

lemma malloc_ok:
  assumes "heap_ok G s" "\<forall>p z. L p = Some z \<longleftrightarrow> live G s p z" "unat sz + 4108 < 2 ^ 32"
  shows "malloc sz s = Some (NULL, s) \<and> (sz = 0 \<or> \<not> free_run False s (pages_for sz))
    \<or> (\<exists>p s' n. malloc sz s = Some (p, s') \<and> p \<noteq> NULL \<and> L p = None \<and> unat sz \<le> n \<and> holds s' (L(p \<mapsto> n)) \<and> unchanged L s s')"
proof (cases "sz = 0")
  case False
  note hh = holds_handed_out [OF assms(1,2)]
  show ?thesis
  proof (cases rule: find_desc_cases [OF heap_okD(2) [OF assms(1)], of sz])
    case (1 i)
    have one: "pages_for sz = 1" using 1(4) False unfolding pages_for_def by (cases "unat sz") auto
    show ?thesis
    proof (cases "frees s i \<noteq> [] \<or> free_run False s 1")
      case True
      obtain p s' G' where "malloc sz s = Some (p, s')" "handed_out G s p (bsz i) G' s'"
        using malloc_small [OF assms(1) 1(1,2) False True] by blast
      then show ?thesis using hh 1(3) by blast
    next
      case no: False
      then have "malloc sz s = Some (NULL, s)" using malloc_none [OF assms(1) False assms(3)] 1(1) one by simp
      then show ?thesis using no one by simp
    qed
  next
    case 2
    let ?n = "DIV_ROUND_UP (sz + 12) 4096"
    have "unat (sz + 12) = unat sz + 12" using unat_add_of_nat [of sz 12] assms(3) by simp
    then have n: "unat ?n = pages_for sz" using assms(3) by (simp add: unat_DIV_ROUND_UP pages_for_def)
    have pos: "0 < pages_for sz" "unat sz \<le> 4096 * pages_for sz - 12" unfolding pages_for_def by linarith+
    then have nz: "?n \<noteq> 0" using n by auto
    show ?thesis
    proof (cases "free_run False s (pages_for sz)")
      case True
      obtain p s' G' where "malloc sz s = Some (p, s')" "handed_out G s p (4096 * unat ?n - 12) G' s'"
        using malloc_big [OF assms(1) 2(1) False refl nz] True n by auto
      then show ?thesis using hh pos(2) unfolding n by blast
    next
      case no: False
      then show ?thesis using malloc_none [OF assms(1) False assms(3) no] 2(1) by simp
    qed
  qed
qed (simp add: malloc_def)

text \<open>
  C9: The allocator keeps the blocks of its callers apart. In a heap whose live blocks are \<open>L\<close>,
  \<open>malloc\<close> always returns: either a null pointer, with nothing changed, and then only for a request
  of no bytes or when no pages are left for it; or a block of at least the requested size that
  shares no byte with any live block. (The request has to be smaller than \<open>2\<^sup>3\<^sup>2 - 4108\<close> bytes;
  above that, adding the header and rounding up can wrap around.) \<open>free\<close> of a live block always returns and makes exactly this
  block available again. Neither changes a byte of another live block.
\<close>

theorem malloc_free_correct:
  assumes "holds s L" "unat sz + 4108 < 2 ^ 32"
  shows "(malloc sz s = Some (NULL, s) \<and> (sz = 0 \<or> \<not> free_run False s (pages_for sz))
     \<or> (\<exists>p s' n. malloc sz s = Some (p, s') \<and> p \<noteq> NULL \<and> unat sz \<le> n \<and> holds s' (L(p \<mapsto> n)) \<and> unchanged L s s'
          \<and> (\<forall>q y x. L q = Some y \<longrightarrow> in_block q y x \<longrightarrow> \<not> in_block p n x)))
    \<and> (\<forall>q y. L q = Some y \<longrightarrow> (\<exists>s'. free q s = Some s' \<and> holds s' (L(q := None)) \<and> unchanged (L(q := None)) s s'))"
proof -
  obtain G where G: "heap_ok G s" "\<forall>p z. L p = Some z \<longleftrightarrow> live G s p z" using assms(1) by (auto simp: holds_def)
  have disj: "\<not> in_block p n x" if h: "holds s' (L(p \<mapsto> n))" and "L p = None" "L q = Some y" "in_block q y x" for p n s' q y x
  proof
    assume x: "in_block p n x"
    obtain G' where G': "heap_ok G' s'" "\<And>r z. (L(p \<mapsto> n)) r = Some z \<longleftrightarrow> live G' s' r z"
      using h unfolding holds_def by blast
    have "p \<noteq> q" using that(2,3) by auto
    moreover have "live G' s' p n" "live G' s' q y" using G'(2) [of p n] G'(2) [of q y] that(3) \<open>p \<noteq> q\<close> by simp_all
    ultimately show False using live_disjoint [OF G'(1)] x that(4) by blast
  qed
  have "\<exists>s'. free q s = Some s' \<and> holds s' (L(q := None)) \<and> unchanged (L(q := None)) s s'" if q: "L q = Some y" for q y
  proof -
    have "live G s q y" using G(2) q by simp
    from free_ok [OF G(1) this] obtain s' G' where f: "free q s = Some s'" "taken_back G s q G' s'" by blast
    have "holds s' (L(q := None))" using f(2) G(2) unfolding holds_def taken_back_def by (intro exI [of _ G']) simp
    moreover have "unchanged (L(q := None)) s s'" using f(2) G(2) by (auto simp: unchanged_def taken_back_def split: if_splits)
    ultimately show ?thesis using f(1) by blast
  qed
  then show ?thesis using malloc_ok [OF G assms(2)] disj by blast
qed

text \<open>
  C36: A request of more than \<open>2\<^sup>3\<^sup>2 - 12\<close> bytes wraps around when the size of the header is added:
  as long as a page is free, \<open>malloc\<close> does not fail but hands out a block of 4084 bytes.
\<close>

theorem malloc_wraps:
  assumes "holds s L" "2 ^ 32 - 12 < unat sz" "free_run False s 1"
  shows "\<exists>p s'. malloc sz s = Some (p, s') \<and> p \<noteq> NULL \<and> holds s' (L(p \<mapsto> 4084)) \<and> 4084 < unat sz"
proof -
  obtain G where G: "heap_ok G s" "\<forall>p z. L p = Some z \<longleftrightarrow> live G s p z" using assms(1) by (auto simp: holds_def)
  let ?n = "DIV_ROUND_UP (sz + 12) 4096"
  have "unat (sz + 12) = (unat sz + 12) mod 2 ^ 32" by (simp add: unat_word_ariths)
  then have w: "unat (sz + 12) = unat sz - (2 ^ 32 - 12)" using assms(2) unat_u32_less [of sz] by (simp add: mod_if)
  have "unat ?n = (unat sz - (2 ^ 32 - 12) + 4095) div 4096"
    using unat_DIV_ROUND_UP [of "sz + 12"] unat_u32_less [of sz] by (simp add: w)
  then have n: "unat ?n = 1" using assms(2) unat_u32_less [of sz] by simp
  then have nz: "?n \<noteq> 0" "free_run False s (unat ?n)" using assms(3) by auto
  have sz: "sz \<noteq> 0" "\<not> unat sz \<le> 1024" using assms(2) by auto
  have none: "find_desc sz (descs s) = None"
    by (rule find_desc_cases [OF heap_okD(2) [OF G(1)], of sz]) (use sz(2) in auto)
  obtain p s' G' where m: "malloc sz s = Some (p, s')" "handed_out G s p (4096 * unat ?n - 12) G' s'"
    using malloc_big [OF G(1) none sz(1) refl nz] by blast
  then show ?thesis using holds_handed_out(1,3) [OF G m(2)] assms(2) n by simp
qed

definition fresh_heap :: heap where
  "fresh_heap = \<lparr>kernel_pool = kernel_pool small_pools, user_pool = user_pool small_pools, kmem = (\<lambda>a. 0),
     descs = map (\<lambda>i. \<lparr>desc_block_size = of_nat (bsz i), blocks_per_arena = of_nat (bpa i), free_list = []\<rparr>) [0..<7]\<rparr>"

lemma fresh_heap_ok: "holds fresh_heap Map.empty" "free_run False fresh_heap 1"
proof -
  have p: "pools_ok fresh_heap"
    by (simp add: fresh_heap_def small_pools_def pools_ok_def pool_ok_def bitmap_ok_def size_of_def)
  moreover have "descs_ok (descs fresh_heap)" "lists_ok Map.empty fresh_heap"
    by (simp_all add: fresh_heap_def descs_ok_def lists_ok_def del: upt_rec_numeral)
  ultimately have "heap_ok Map.empty fresh_heap" by (simp add: heap_ok_def apart_def)
  then show "holds fresh_heap Map.empty" unfolding holds_def by (intro exI [of _ Map.empty]) (simp add: live_def)
  have "run_of (used_map (the_pool False fresh_heap)) 1 1 False"
    by (simp add: run_of_def the_pool_def fresh_heap_def small_pools_def size_of_def bitv_def bit_1_iff)
  then show "free_run False fresh_heap 1" using free_run_iff [OF pools_okD [OF p, of False], of 1] by auto
qed

theorem malloc_free_correct_witness:
  "\<exists>p s' n. malloc 20 fresh_heap = Some (p, s') \<and> 20 \<le> n \<and> holds s' [p \<mapsto> n]"
  using malloc_free_correct [OF fresh_heap_ok(1), of 20] fresh_heap_ok(2) by (auto simp: pages_for_def)

theorem malloc_wraps_witness: "\<exists>p s'. malloc 0xffffffff fresh_heap = Some (p, s') \<and> p \<noteq> NULL \<and> holds s' [p \<mapsto> 4084]"
  using malloc_wraps [OF fresh_heap_ok(1) _ fresh_heap_ok(2), of "0xffffffff"] by auto

end
