(* ===== verification/Pagedir.thy ===== *)
theory Pagedir
  imports Palloc
begin

text \<open>
  Page directories (\<open>userprog/pagedir.c\<close>) and the kernel's own one (\<open>paging_init\<close> in
  \<open>threads/init.c\<close>). Directories and page tables are words in the memory of the kernel; their pages
  come from the page allocator. The control register that holds the active directory and the
  translation lookaside buffer of the processor are part of the state: storing the register
  empties the buffer.
\<close>

section \<open>The code\<close>

record paging = pools +
  init_page_dir :: addr
  init_ram_pages :: u32
  cr3 :: addr
  tlb :: "addr \<rightharpoonup> u32"

definition pagedir_create :: "paging \<Rightarrow> (addr \<times> paging) option" where
  "pagedir_create s = do {
     (pd, s) \<leftarrow> palloc_get_page 0 s;
     Some (pd, if pd \<noteq> NULL then s\<lparr>kmem := put_bytes pd (get_bytes (init_page_dir s) 4096 (kmem s)) (kmem s)\<rparr> else s) }"

definition pagedir_activate :: "addr \<Rightarrow> paging \<Rightarrow> paging option" where
  "pagedir_activate pd s = do {
     p \<leftarrow> vtop (if pd = NULL then init_page_dir s else pd);
     Some (s\<lparr>cr3 := p, tlb := Map.empty\<rparr>) }"

definition active_pd :: "paging \<Rightarrow> addr option" where
  "active_pd s = ptov (cr3 s)"

definition invalidate_pagedir :: "addr \<Rightarrow> paging \<Rightarrow> paging option" where
  "invalidate_pagedir pd s = do {
     active \<leftarrow> active_pd s;
     if active = pd then pagedir_activate pd s else Some s }"

text \<open>The loop over the page directory entries; with virtual memory only the page tables are freed.\<close>

fun destroy_loop :: "addr \<Rightarrow> nat list \<Rightarrow> paging \<Rightarrow> paging option" where
  "destroy_loop pd [] s = Some s"
| "destroy_loop pd (i # is) s = do {
     let pde = read_word (kmem s) (pd + 4 * of_nat i);
     s \<leftarrow> (if pde AND PTE_P \<noteq> 0 then do { pt \<leftarrow> pde_get_pt pde; palloc_free_page pt s } else Some s);
     destroy_loop pd is s }"

definition pagedir_destroy :: "addr \<Rightarrow> paging \<Rightarrow> paging option" where
  "pagedir_destroy pd s =
     (if pd = NULL then Some s
      else do {
        kassert (pd \<noteq> init_page_dir s);
        s \<leftarrow> destroy_loop pd [0..<unat (pd_no PHYS_BASE)] s;
        palloc_free_page pd s })"

definition lookup_page :: "addr \<Rightarrow> addr \<Rightarrow> bool \<Rightarrow> paging \<Rightarrow> (addr \<times> paging) option" where
  "lookup_page pd vaddr create s = do {
     kassert (pd \<noteq> NULL);
     kassert (\<not> create \<or> is_user_vaddr vaddr);
     let pde = pd + 4 * pd_no vaddr;
     (ok, s) \<leftarrow>
       (if read_word (kmem s) pde = 0 then
          if create then do {
            (pt, s) \<leftarrow> palloc_get_page PAL_ZERO s;
            if pt = NULL then Some (False, s)
            else do { e \<leftarrow> pde_create pt; Some (True, s\<lparr>kmem := write_word pde e (kmem s)\<rparr>) } }
          else Some (False, s)
        else Some (True, s));
     if ok then do { pt \<leftarrow> pde_get_pt (read_word (kmem s) pde); Some (pt + 4 * pt_no vaddr, s) }
     else Some (NULL, s) }"

definition pagedir_set_page :: "addr \<Rightarrow> addr \<Rightarrow> addr \<Rightarrow> bool \<Rightarrow> paging \<Rightarrow> (bool \<times> paging) option" where
  "pagedir_set_page pd upage kpage writable s = do {
     kassert (pg_ofs upage = 0);
     kassert (pg_ofs kpage = 0);
     kassert (is_user_vaddr upage);
     p \<leftarrow> vtop kpage;
     kassert (drop_bit 12 p < init_ram_pages s);
     kassert (pd \<noteq> init_page_dir s);
     (pte, s) \<leftarrow> lookup_page pd upage True s;
     if pte \<noteq> NULL then do {
       kassert (read_word (kmem s) pte AND PTE_P = 0);
       e \<leftarrow> pte_create_user kpage writable;
       Some (True, s\<lparr>kmem := write_word pte e (kmem s)\<rparr>) }
     else Some (False, s) }"

definition pagedir_get_page :: "addr \<Rightarrow> addr \<Rightarrow> paging \<Rightarrow> (addr \<times> paging) option" where
  "pagedir_get_page pd uaddr s = do {
     kassert (is_user_vaddr uaddr);
     (pte, s) \<leftarrow> lookup_page pd uaddr False s;
     if pte \<noteq> NULL \<and> read_word (kmem s) pte AND PTE_P \<noteq> 0 then do {
       page \<leftarrow> pte_get_page (read_word (kmem s) pte);
       Some (page + pg_ofs uaddr, s) }
     else Some (NULL, s) }"

definition pagedir_clear_page :: "addr \<Rightarrow> addr \<Rightarrow> paging \<Rightarrow> paging option" where
  "pagedir_clear_page pd upage s = do {
     kassert (pg_ofs upage = 0);
     kassert (is_user_vaddr upage);
     (pte, s) \<leftarrow> lookup_page pd upage False s;
     if pte \<noteq> NULL \<and> read_word (kmem s) pte AND PTE_P \<noteq> 0 then
       invalidate_pagedir pd (s\<lparr>kmem := write_word pte (read_word (kmem s) pte AND NOT PTE_P) (kmem s)\<rparr>)
     else Some s }"

text \<open>The accessed and the dirty bit of an entry.\<close>

definition pte_bit :: "u32 \<Rightarrow> addr \<Rightarrow> addr \<Rightarrow> paging \<Rightarrow> (bool \<times> paging) option" where
  "pte_bit b pd vpage s = do {
     (pte, s) \<leftarrow> lookup_page pd vpage False s;
     Some (pte \<noteq> NULL \<and> read_word (kmem s) pte AND b \<noteq> 0, s) }"

definition set_pte_bit :: "u32 \<Rightarrow> addr \<Rightarrow> addr \<Rightarrow> bool \<Rightarrow> paging \<Rightarrow> paging option" where
  "set_pte_bit b pd vpage v s = do {
     (pte, s) \<leftarrow> lookup_page pd vpage False s;
     if pte \<noteq> NULL then
       if v then Some (s\<lparr>kmem := write_word pte (read_word (kmem s) pte OR b) (kmem s)\<rparr>)
       else invalidate_pagedir pd (s\<lparr>kmem := write_word pte (read_word (kmem s) pte AND NOT b) (kmem s)\<rparr>)
     else Some s }"

definition pagedir_is_dirty :: "addr \<Rightarrow> addr \<Rightarrow> paging \<Rightarrow> (bool \<times> paging) option" where
  "pagedir_is_dirty = pte_bit PTE_D"

definition pagedir_set_dirty :: "addr \<Rightarrow> addr \<Rightarrow> bool \<Rightarrow> paging \<Rightarrow> paging option" where
  "pagedir_set_dirty = set_pte_bit PTE_D"

definition pagedir_is_accessed :: "addr \<Rightarrow> addr \<Rightarrow> paging \<Rightarrow> (bool \<times> paging) option" where
  "pagedir_is_accessed = pte_bit PTE_A"

definition pagedir_set_accessed :: "addr \<Rightarrow> addr \<Rightarrow> bool \<Rightarrow> paging \<Rightarrow> paging option" where
  "pagedir_set_accessed = set_pte_bit PTE_A"

text \<open>
  The kernel's page directory. The arguments are the bounds of the kernel's code. The variable
  \<open>pt\<close> is the page table that the loop created last.
\<close>

fun paging_loop :: "addr \<Rightarrow> addr \<Rightarrow> addr \<Rightarrow> nat list \<Rightarrow> addr \<Rightarrow> paging \<Rightarrow> paging option" where
  "paging_loop text_start text_end pd [] pt s = Some s"
| "paging_loop text_start text_end pd (page # pages) pt s = do {
     vaddr \<leftarrow> ptov (of_nat page * 4096);
     let in_kernel_text = (text_start \<le> vaddr \<and> vaddr < text_end);
     let pde = pd + 4 * pd_no vaddr;
     (pt, s) \<leftarrow>
       (if read_word (kmem s) pde = 0 then do {
          (pt, s) \<leftarrow> palloc_get_page (PAL_ASSERT OR PAL_ZERO) s;
          e \<leftarrow> pde_create pt;
          Some (pt, s\<lparr>kmem := write_word pde e (kmem s)\<rparr>) }
        else Some (pt, s));
     e \<leftarrow> pte_create_kernel vaddr (\<not> in_kernel_text);
     kassert (pt \<noteq> NULL);
     paging_loop text_start text_end pd pages pt (s\<lparr>kmem := write_word (pt + 4 * pt_no vaddr) e (kmem s)\<rparr>) }"

definition paging_init :: "addr \<Rightarrow> addr \<Rightarrow> paging \<Rightarrow> paging option" where
  "paging_init text_start text_end s = do {
     (pd, s) \<leftarrow> palloc_get_page (PAL_ASSERT OR PAL_ZERO) s;
     let s = s\<lparr>init_page_dir := pd\<rparr>;
     s \<leftarrow> paging_loop text_start text_end pd [0..<unat (init_ram_pages s)] NULL s;
     p \<leftarrow> vtop (init_page_dir s);
     Some (s\<lparr>cr3 := p, tlb := Map.empty\<rparr>) }"

section \<open>Entries\<close>

lemma pte_addr_not: "(0xfffff000 :: u32) = NOT 0xfff"
  by simp

lemma aligned_pg_ofs: "aligned p \<longleftrightarrow> pg_ofs p = 0"
  by (simp add: aligned_def pg_ofs_zero)

lemma aligned_low: "aligned p \<Longrightarrow> n < 12 \<Longrightarrow> \<not> bit p n"
proof -
  assume a: "aligned p" "n < 12"
  then have "\<not> bit (p AND mask 12) n" by (simp add: aligned_pg_ofs pg_ofs_def pgmask_word)
  then show ?thesis using a(2) by (simp add: bit_and_iff bit_mask_iff)
qed

lemma entry_addr:
  assumes "aligned p" "f AND NOT 0xfff = 0"
  shows "(p OR f) AND PTE_ADDR = p"
proof -
  have "p AND NOT 0xfff = p" unfolding pgmask_word
    by (rule bit_word_eqI) (auto simp: bit_simps dest: aligned_low [OF assms(1)])
  then show ?thesis unfolding pte_addr_not using assms(2) by (simp add: bit.conj_disj_distrib2)
qed

lemma entry_flags:
  assumes "aligned p" "g AND NOT 0xfff = 0"
  shows "(p OR f) AND g = f AND g"
proof -
  have high: "\<not> bit g n" if "12 \<le> n" "n < 32" for n
  proof -
    have "\<not> bit (g AND NOT (mask 12)) n" using assms(2) unfolding pgmask_word by simp
    then show ?thesis using that by (simp add: bit_simps)
  qed
  show ?thesis
  proof (rule bit_word_eqI)
    fix n assume "n < LENGTH(32)"
    then show "bit ((p OR f) AND g) n = bit (f AND g) n"
      using aligned_low [OF assms(1), of n] high [of n] by (cases "n < 12") (auto simp: bit_simps)
  qed
qed

definition page_of :: "u32 \<Rightarrow> addr" where
  "page_of e = (e AND PTE_ADDR) + PHYS_BASE"

text \<open>A page with a kernel address below the end of the mapped memory.\<close>

definition kernel_page :: "addr \<Rightarrow> bool" where
  "kernel_page p \<longleftrightarrow> aligned p \<and> PHYS_BASE \<le> p"

lemma kernel_page_phys:
  assumes "kernel_page p"
  shows "aligned (p - PHYS_BASE)" "p - PHYS_BASE < PHYS_BASE" "vtop p = Some (p - PHYS_BASE)" "p \<noteq> NULL"
proof -
  have u: "unat (p - PHYS_BASE) = unat p - 0xc0000000" using assms by (simp add: kernel_page_def unat_sub)
  have "unat p = 0xc0000000 + 4096 * ((unat p - 0xc0000000) div 4096)"
    using assms by (intro page_distance) (simp_all add: kernel_page_def aligned_def word_le_nat_alt)
  then have "(unat p - 0xc0000000) mod 4096 = 0" by (metis add_diff_cancel_left' mod_mult_self1_is_0)
  then show "aligned (p - PHYS_BASE)" using u by (simp add: aligned_def)
  show "p - PHYS_BASE < PHYS_BASE" using u unat_u32_less [of p] by (simp add: word_less_nat_alt)
  show "vtop p = Some (p - PHYS_BASE)" using assms by (simp add: vtop_def is_kernel_vaddr_def kernel_page_def)
  show "p \<noteq> NULL" using assms by (auto simp: kernel_page_def)
qed

lemma page_of_entry:
  assumes "kernel_page p" "f AND NOT 0xfff = 0"
  shows "page_of ((p - PHYS_BASE) OR f) = p" "((p - PHYS_BASE) OR f) AND PTE_ADDR < PHYS_BASE"
  using entry_addr [OF kernel_page_phys(1) [OF assms(1)] assms(2)] kernel_page_phys(2) [OF assms(1)] by (simp_all add: page_of_def)

lemma pde_create_ok: "kernel_page p \<Longrightarrow> pde_create p = Some ((p - PHYS_BASE) OR 7)"
  using kernel_page_phys [of p] by (simp add: pde_create_def aligned_pg_ofs [symmetric] kernel_page_def or.assoc)

lemma pde_get_ok:
  assumes "kernel_page p"
  shows "pde_get_pt ((p - PHYS_BASE) OR 7) = Some p" "(p - PHYS_BASE) OR 7 \<noteq> 0"
proof -
  have f: "((p - PHYS_BASE) OR 7) AND 1 = 1" using entry_flags [OF kernel_page_phys(1) [OF assms], of 1 7] by simp
  then show "(p - PHYS_BASE) OR 7 \<noteq> 0" by auto
  show "pde_get_pt ((p - PHYS_BASE) OR 7) = Some p"
    using f page_of_entry [OF assms, of 7] by (simp add: pde_get_pt_def ptov_def page_of_def)
qed

lemma pte_create_ok:
  assumes "kernel_page p"
  shows "pte_create_user p w = Some ((p - PHYS_BASE) OR (if w then 7 else 5))"
  using kernel_page_phys [OF assms] assms
  by (simp add: pte_create_user_def pte_create_kernel_def aligned_pg_ofs [symmetric] kernel_page_def or.assoc)

section \<open>Words of a table\<close>

definition slot_addr :: "addr \<Rightarrow> nat \<Rightarrow> addr" where
  "slot_addr t i = t + 4 * of_nat i"

lemma unat_slot: "aligned t \<Longrightarrow> i < 1024 \<Longrightarrow> unat (slot_addr t i) = unat t + 4 * i"
  using unat_offset [of t "4 * i"] by (simp add: slot_addr_def)

lemma slot_word:
  assumes "aligned t" "i < 1024"
  shows "unat (slot_addr t i) mod 4 = 0" "unat (slot_addr t i) + 4 \<le> 2 ^ 32"
proof -
  have "4096 dvd unat t" using assms(1) by (simp add: aligned_def mod_0_imp_dvd)
  from dvd_trans [OF _ this, of 4] have "4 dvd unat t" by simp
  then have "4 dvd unat t + 4 * i" by (simp add: dvd_add)
  then show "unat (slot_addr t i) mod 4 = 0" unfolding unat_slot [OF assms] by (rule dvd_imp_mod_0)
  show "unat (slot_addr t i) + 4 \<le> 2 ^ 32" using unat_slot [OF assms] aligned_top [OF assms(1)] assms(2) by simp
qed

lemma slot_inj:
  assumes "aligned t" "aligned u" "i < 1024" "j < 1024" "slot_addr t i = slot_addr u j"
  shows "t = u \<and> i = j"
proof -
  have e: "unat t + 4 * i = unat u + 4 * j" using assms unat_slot [of t i] unat_slot [of u j] by simp
  then have "4 * i = 4 * j" by (rule aligned_offset [OF assms(1,2)]) (use assms in simp_all)
  then show ?thesis using e by (simp add: word_unat_eq_iff)
qed

lemma read_slot_write:
  assumes "aligned t" "aligned u" "i < 1024" "j < 1024"
  shows "read_word (write_word (slot_addr t i) w m) (slot_addr u j) = (if t = u \<and> i = j then w else read_word m (slot_addr u j))"
  using slot_inj [OF assms] read_write_other [OF slot_word(1) [OF assms(1,3)] slot_word(1) [OF assms(2,4)]] by auto

lemma round_within:
  assumes "aligned p" "unat p \<le> unat a" "unat a < unat p + 4096"
  shows "pg_round_down a = p"
proof -
  have "unat a - unat p < 4096" using assms(2,3) by linarith
  from round_offset(1) [OF assms(1) this] show ?thesis using assms(2) by simp
qed

lemma read_slot_fill:
  assumes "aligned p" "aligned u" "j < 1024"
  shows "read_word (fill p 4096 0 m) (slot_addr u j) = (if u = p then 0 else read_word m (slot_addr u j))"
proof (cases "u = p")
  case True
  have "read_word (fill p 4096 0 m) (slot_addr p j) = word_of_bytes 0 0 0 0"
    using unat_slot [OF assms(1,3)] assms(3) aligned_top [OF assms(1)] by (intro read_word_fill) simp_all
  then show ?thesis using True by (simp add: word_of_bytes_def)
next
  case False
  have "read_word (fill p 4096 0 m) (slot_addr u j) = read_word m (slot_addr u j)"
  proof (rule read_word_cong [OF slot_word(2) [OF assms(2,3)]])
    fix a :: addr assume a: "unat (slot_addr u j) \<le> unat a" "unat a < unat (slot_addr u j) + 4"
    have "\<not> (unat p \<le> unat a \<and> unat a < unat p + 4096)"
    proof
      assume b: "unat p \<le> unat a \<and> unat a < unat p + 4096"
      have "pg_round_down a = p" using b by (intro round_within [OF assms(1)]) simp_all
      moreover have "pg_round_down a = u" using a unat_slot [OF assms(2,3)] assms(3) by (intro round_within [OF assms(2)]) simp_all
      ultimately show False using False by simp
    qed
    then show "fill p 4096 0 m a = m a" by (auto simp: fill_def)
  qed
  then show ?thesis using False by simp
qed

text \<open>The two indices of an address.\<close>

definition pdi :: "addr \<Rightarrow> nat" where "pdi va = unat (pd_no va)"
definition pti :: "addr \<Rightarrow> nat" where "pti va = unat (pt_no va)"

lemma pdi_val: "pdi va = unat va div 4194304" "pdi va < 1024"
proof -
  show "pdi va = unat va div 4194304" by (simp add: pdi_def pd_no_def unat_drop_bit)
  then show "pdi va < 1024" using unat_u32_less [of va] by (simp add: div_less_iff_less_mult)
qed

lemma pti_val: "pti va = unat va div 4096 mod 1024" "pti va < 1024"
proof -
  have "(0x003ff000 :: u32) = push_bit 12 (mask 10)" by (simp add: mask_eq_exp_minus_1 push_bit_eq_mult)
  then have "pt_no va = drop_bit 12 (va AND push_bit 12 (mask 10))" unfolding pt_no_def by simp
  also have "\<dots> = take_bit 10 (drop_bit 12 va)"
    by (intro bit_word_eqI) (auto simp: bit_simps bit_mask_iff simp del: mask_numeral)
  finally have "pt_no va = take_bit 10 (drop_bit 12 va)" .
  then show "pti va = unat va div 4096 mod 1024"
    by (simp add: pti_def take_bit_eq_mod unat_mod_distrib unat_drop_bit)
  then show "pti va < 1024" by simp
qed

lemma user_pdi: "is_user_vaddr va \<longleftrightarrow> pdi va < 768"
  by (simp add: is_user_vaddr_def word_less_nat_alt pdi_val div_less_iff_less_mult)

lemma same_page: "pdi va = pdi vb \<and> pti va = pti vb \<longleftrightarrow> pg_round_down va = pg_round_down vb"
proof -
  have d: "unat v div 4194304 = unat v div 4096 div 1024" for v :: addr by (simp add: div_mult2_eq [symmetric])
  have "pdi va = pdi vb \<and> pti va = pti vb \<longleftrightarrow> unat va div 4096 = unat vb div 4096"
    unfolding pdi_val pti_val d by (metis div_mult_mod_eq)
  also have "\<dots> \<longleftrightarrow> pg_round_down va = pg_round_down vb"
    by (simp add: word_unat_eq_iff unat_pg_round_down minus_mod_eq_mult_div)
  finally show ?thesis .
qed

lemma round_idem: "aligned p \<Longrightarrow> pg_round_down p = p"
  using round_offset(1) [of p 0] by simp

lemma slot_pd: "pd + 4 * pd_no va = slot_addr pd (pdi va)" "pt + 4 * pt_no va = slot_addr pt (pti va)"
  by (simp_all add: slot_addr_def pdi_def pti_def)

section \<open>Directories\<close>

abbreviation pde :: "'a pools_scheme \<Rightarrow> addr \<Rightarrow> nat \<Rightarrow> u32" where
  "pde s pd i \<equiv> read_word (kmem s) (slot_addr pd i)"

text \<open>The word that describes a page in a directory; 0 if there is no page table for it.\<close>

definition pte_of :: "'a pools_scheme \<Rightarrow> addr \<Rightarrow> addr \<Rightarrow> u32" where
  "pte_of s pd va = (if pde s pd (pdi va) = 0 then 0 else pde s (page_of (pde s pd (pdi va))) (pti va))"

definition translate :: "'a pools_scheme \<Rightarrow> addr \<Rightarrow> addr \<rightharpoonup> addr" where
  "translate s pd va = (let e = pte_of s pd va in if e AND PTE_P = 0 then None else Some (page_of e + pg_ofs va))"

text \<open>A page of the kernel pool that is in use.\<close>

definition table_page :: "'a pools_scheme \<Rightarrow> addr \<Rightarrow> bool" where
  "table_page s p \<longleftrightarrow> group False s p 1 \<and> page_used False s p"

text \<open>
  The invariant of a set of user directories: every directory is a page in use, its entries for
  user addresses are empty or point to page tables, no page table is used twice, and the
  entries of the page tables point to memory that the kernel can reach.
\<close>

definition dirs_ok :: "addr set \<Rightarrow> 'a pools_scheme \<Rightarrow> bool" where
  "dirs_ok D s \<longleftrightarrow> pools_ok s
     \<and> (\<forall>pd\<in>D. table_page s pd)
     \<and> (\<forall>pd\<in>D. \<forall>i<768. pde s pd i = 0 \<or> (\<exists>pt. pde s pd i = (pt - PHYS_BASE) OR 7 \<and> table_page s pt \<and> pt \<notin> D))
     \<and> (\<forall>pd\<in>D. \<forall>pd'\<in>D. \<forall>i<768. \<forall>j<768. pde s pd i \<noteq> 0 \<longrightarrow> pde s pd' j \<noteq> 0 \<longrightarrow> page_of (pde s pd i) = page_of (pde s pd' j) \<longrightarrow> pd = pd' \<and> i = j)
     \<and> (\<forall>pd\<in>D. \<forall>va. is_user_vaddr va \<longrightarrow> pte_of s pd va AND PTE_ADDR < PHYS_BASE)"

lemma dirs_okD:
  assumes "dirs_ok D s"
  shows "pools_ok s" "\<And>pd. pd \<in> D \<Longrightarrow> table_page s pd"
    "\<And>pd i. pd \<in> D \<Longrightarrow> i < 768 \<Longrightarrow> pde s pd i = 0 \<or> (\<exists>pt. pde s pd i = (pt - PHYS_BASE) OR 7 \<and> table_page s pt \<and> pt \<notin> D)"
    "\<And>pd pd' i j. pd \<in> D \<Longrightarrow> pd' \<in> D \<Longrightarrow> i < 768 \<Longrightarrow> j < 768 \<Longrightarrow> pde s pd i \<noteq> 0 \<Longrightarrow> pde s pd' j \<noteq> 0
       \<Longrightarrow> page_of (pde s pd i) = page_of (pde s pd' j) \<Longrightarrow> pd = pd' \<and> i = j"
    "\<And>pd va. pd \<in> D \<Longrightarrow> is_user_vaddr va \<Longrightarrow> pte_of s pd va AND PTE_ADDR < PHYS_BASE"
  using assms unfolding dirs_ok_def by blast+

lemma table_page_kernel: "pools_ok s \<Longrightarrow> table_page s p \<Longrightarrow> kernel_page p"
  using group_bounds(2) [of s False p 1] by (auto simp: table_page_def kernel_page_def aligned_def group_def word_le_nat_alt)

lemma table_page_aligned: "table_page s p \<Longrightarrow> aligned p"
  by (simp add: table_page_def group_def aligned_def)

lemma page_table:
  assumes "dirs_ok D s" "pd \<in> D" "i < 768" "pde s pd i \<noteq> 0"
  shows "table_page s (page_of (pde s pd i))" "page_of (pde s pd i) \<notin> D" "pde_get_pt (pde s pd i) = Some (page_of (pde s pd i))"
proof -
  obtain pt where pt: "pde s pd i = (pt - PHYS_BASE) OR 7" "table_page s pt" "pt \<notin> D"
    using dirs_okD(3) [OF assms(1-3)] assms(4) by blast
  note k = table_page_kernel [OF dirs_okD(1) [OF assms(1)] pt(2)]
  have "page_of (pde s pd i) = pt" using page_of_entry(1) [OF k, of 7] pt(1) by simp
  then show "table_page s (page_of (pde s pd i))" "page_of (pde s pd i) \<notin> D" "pde_get_pt (pde s pd i) = Some (page_of (pde s pd i))"
    using pt pde_get_ok(1) [OF k] by simp_all
qed

lemma lookup_page_read:
  assumes "dirs_ok D s" "pd \<in> D" "is_user_vaddr va"
  shows "lookup_page pd va False s =
    Some (if pde s pd (pdi va) = 0 then NULL else slot_addr (page_of (pde s pd (pdi va))) (pti va), s)"
    "pde s pd (pdi va) \<noteq> 0 \<Longrightarrow> slot_addr (page_of (pde s pd (pdi va))) (pti va) \<noteq> NULL"
proof -
  note k = table_page_kernel [OF dirs_okD(1,2) [OF assms(1)]]
  have nn: "pd \<noteq> NULL" using kernel_page_phys(4) [OF k] assms(2) by blast
  have i: "pdi va < 768" using assms(3) by (simp add: user_pdi)
  show "lookup_page pd va False s =
    Some (if pde s pd (pdi va) = 0 then NULL else slot_addr (page_of (pde s pd (pdi va))) (pti va), s)"
    using nn page_table(3) [OF assms(1,2) i] by (simp add: lookup_page_def Let_def slot_pd)
  show "slot_addr (page_of (pde s pd (pdi va))) (pti va) \<noteq> NULL" if "pde s pd (pdi va) \<noteq> 0"
  proof -
    note t = page_table(1) [OF assms(1,2) i that]
    have "0xc0000000 \<le> unat (page_of (pde s pd (pdi va)))"
      using table_page_kernel [OF dirs_okD(1) [OF assms(1)] t] by (simp add: kernel_page_def word_le_nat_alt)
    then have "unat (slot_addr (page_of (pde s pd (pdi va))) (pti va)) \<noteq> 0"
      using unat_slot [OF table_page_aligned [OF t] pti_val(2) [of va]] by simp
    then show ?thesis by (metis unat_0)
  qed
qed

text \<open>Looking up an address gives the translation.\<close>

lemma pagedir_get_page_ok:
  assumes "dirs_ok D s" "pd \<in> D" "is_user_vaddr va"
  shows "pagedir_get_page pd va s = Some (case translate s pd va of None \<Rightarrow> NULL | Some a \<Rightarrow> a, s)"
proof -
  have "pte_of s pd va AND PTE_ADDR < PHYS_BASE" using dirs_okD(5) [OF assms] .
  then have "pte_get_page (pte_of s pd va) = Some (page_of (pte_of s pd va))" by (simp add: pte_get_page_def ptov_def page_of_def)
  then show ?thesis
    using lookup_page_read [OF assms] assms(3)
    by (cases "pde s pd (pdi va) = 0") (simp_all add: pagedir_get_page_def translate_def pte_of_def Let_def)
qed

section \<open>Changes of an entry\<close>

lemma table_page_kmem [simp]: "table_page (s\<lparr>kmem := m\<rparr>) p = table_page s p"
  by (simp add: table_page_def group_def)

text \<open>Writing the entry of a page in a page table changes the translation of this page only.\<close>

lemma pte_write:
  assumes "dirs_ok D s" "pd \<in> D" "is_user_vaddr va" "pde s pd (pdi va) \<noteq> 0" "w AND PTE_ADDR < PHYS_BASE"
    and "s' = s\<lparr>kmem := write_word (slot_addr (page_of (pde s pd (pdi va))) (pti va)) w (kmem s)\<rparr>"
  shows "dirs_ok D s'"
    "\<And>pd' vb. pd' \<in> D \<Longrightarrow> is_user_vaddr vb \<Longrightarrow>
       pte_of s' pd' vb = (if pd' = pd \<and> pg_round_down vb = pg_round_down va then w else pte_of s pd' vb)"
proof -
  note ok = dirs_okD [OF assms(1)]
  have i: "pdi va < 768" using assms(3) by (simp add: user_pdi)
  note t = page_table [OF assms(1,2) i assms(4)]
  let ?pt = "page_of (pde s pd (pdi va))"
  have same: "pde s' pd' j = pde s pd' j" if "pd' \<in> D" "j < 768" for pd' j
    using read_slot_write [OF table_page_aligned [OF t(1)] table_page_aligned [OF ok(2) [OF that(1)]] pti_val(2), of j va w "kmem s"]
      that t(2) assms(6) by auto
  show pte: "pte_of s' pd' vb = (if pd' = pd \<and> pg_round_down vb = pg_round_down va then w else pte_of s pd' vb)"
    if "pd' \<in> D" "is_user_vaddr vb" for pd' vb
  proof (cases "pde s pd' (pdi vb) = 0")
    case True
    have j: "pdi vb < 768" using that(2) by (simp add: user_pdi)
    have "\<not> (pd' = pd \<and> pg_round_down vb = pg_round_down va)" using True assms(4) same_page [of vb va] by auto
    then show ?thesis using True same [OF that(1) j] by (auto simp: pte_of_def)
  next
    case False
    have j: "pdi vb < 768" using that(2) by (simp add: user_pdi)
    let ?pt' = "page_of (pde s pd' (pdi vb))"
    note t' = page_table(1) [OF assms(1) that(1) j False]
    have eq: "?pt = ?pt' \<and> pti va = pti vb \<longleftrightarrow> pd' = pd \<and> pg_round_down vb = pg_round_down va"
      using ok(4) [OF assms(2) that(1) i j assms(4) False] same_page [of vb va] by auto
    have "pde s' ?pt' (pti vb) = (if ?pt = ?pt' \<and> pti va = pti vb then w else pde s ?pt' (pti vb))"
      using read_slot_write [OF table_page_aligned [OF t(1)] table_page_aligned [OF t'] pti_val(2) pti_val(2)] assms(6) by simp
    then show ?thesis using False same [OF that(1) j] eq by (simp add: pte_of_def)
  qed
  have tp: "table_page s' p = table_page s p" for p using assms(6) by simp
  have po: "pools_ok s'" using ok(1) assms(6) by simp
  show "dirs_ok D s'"
    unfolding dirs_ok_def
  proof (intro conjI ballI allI impI)
    fix pd' i assume p: "pd' \<in> D" "(i :: nat) < 768"
    show "pde s' pd' i = 0 \<or> (\<exists>pt. pde s' pd' i = (pt - PHYS_BASE) OR 7 \<and> table_page s' pt \<and> pt \<notin> D)"
      unfolding same [OF p] tp by (rule ok(3) [OF p])
    fix pd2 j assume q: "pd2 \<in> D" "(j :: nat) < 768" "pde s' pd' i \<noteq> 0" "pde s' pd2 j \<noteq> 0" "page_of (pde s' pd' i) = page_of (pde s' pd2 j)"
    show "pd' = pd2" "i = j" using ok(4) [OF p(1) q(1) p(2) q(2)] q(3-5) unfolding same [OF p] same [OF q(1,2)] by blast+
  next
    fix pd' vb assume "pd' \<in> D" "is_user_vaddr vb"
    then show "pte_of s' pd' vb AND PTE_ADDR < PHYS_BASE" using pte ok(5) assms(5) by simp
  qed (use po tp ok(2) in simp_all)
qed

text \<open>A new page table for a directory translates nothing.\<close>

lemma table_added:
  assumes "dirs_ok D s" "pd \<in> D" "i < 768" "pde s pd i = 0"
    and "group False s p 1" "\<not> page_used False s p" "marked False p 1 True s b"
    and "s' = (set_map False b s)\<lparr>kmem := write_word (slot_addr pd i) ((p - PHYS_BASE) OR 7) (fill p 4096 0 (kmem s))\<rparr>"
  shows "dirs_ok D s'" "pde s' pd i = (p - PHYS_BASE) OR 7" "page_of (pde s' pd i) = p"
    "\<And>pd' vb. pd' \<in> D \<Longrightarrow> is_user_vaddr vb \<Longrightarrow> pte_of s' pd' vb = pte_of s pd' vb"
proof -
  note ok = dirs_okD [OF assms(1)]
  let ?e = "(p - PHYS_BASE) OR 7 :: u32"
  have kp: "kernel_page p" using group_bounds(2) [OF ok(1) assms(5)] assms(5)
    by (auto simp: kernel_page_def aligned_def group_def word_le_nat_alt)
  have al: "aligned p" using kp by (simp add: kernel_page_def)
  have tp: "table_page s' q" if "table_page s q" for q
    using that assms(7,8) by (auto simp: table_page_def group_def marked_def size_of_def)
  have "in_pages p 1 p" by (simp add: in_pages_def)
  then have tpp: "table_page s' p" using assms(5,7,8) by (simp add: table_page_def group_def marked_def size_of_def)
  have ne: "q \<noteq> p" if "table_page s q" for q using that assms(6) by (auto simp: table_page_def)
  note pdal = table_page_aligned [OF ok(2) [OF assms(2)]] 
  have i: "i < 1024" using assms(3) by simp
  have rd: "pde s' t j = (if t = pd \<and> j = i then ?e else if t = p then 0 else pde s t j)" if "aligned t" "j < 1024" for t j
    using read_slot_write [OF pdal that(1) i that(2)] read_slot_fill [OF al that] assms(8) by auto
  have dir: "pde s' pd' j = (if pd' = pd \<and> j = i then ?e else pde s pd' j)" if "pd' \<in> D" "j < 768" for pd' j
    using rd [OF table_page_aligned [OF ok(2) [OF that(1)]], of j] that(2) ne [OF ok(2) [OF that(1)]] by simp
  have pg: "page_of ?e = p" using page_of_entry(1) [OF kp, of 7] by simp
  have nz: "?e \<noteq> 0" using pde_get_ok(2) [OF kp] .
  show e: "pde s' pd i = ?e" using dir [OF assms(2,3)] by simp
  then show "page_of (pde s' pd i) = p" using pg by simp
  show pte: "pte_of s' pd' vb = pte_of s pd' vb" if "pd' \<in> D" "is_user_vaddr vb" for pd' vb
  proof -
    have j: "pdi vb < 768" using that(2) by (simp add: user_pdi)
    consider "pd' = pd" "pdi vb = i" | "\<not> (pd' = pd \<and> pdi vb = i)" "pde s pd' (pdi vb) = 0"
      | "\<not> (pd' = pd \<and> pdi vb = i)" "pde s pd' (pdi vb) \<noteq> 0" by blast
    then show ?thesis
    proof cases
      case 1
      have "p \<noteq> pd" using ne [OF ok(2) [OF assms(2)]] by simp
      then show ?thesis using 1 assms(4) nz pg rd [OF al pti_val(2) [of vb]] dir [OF that(1) j] by (simp add: pte_of_def)
    next
      case 2
      then show ?thesis using dir [OF that(1) j] by (auto simp: pte_of_def)
    next
      case 3
      note t = page_table [OF assms(1) that(1) j 3(2)]
      have d: "pde s' pd' (pdi vb) = pde s pd' (pdi vb)" using dir [OF that(1) j] 3(1) by simp
      have "pde s' (page_of (pde s pd' (pdi vb))) (pti vb) = pde s (page_of (pde s pd' (pdi vb))) (pti vb)"
        using rd [OF table_page_aligned [OF t(1)] pti_val(2) [of vb]] ne [OF t(1)] t(2) assms(2) by auto
      then show ?thesis unfolding pte_of_def d using 3(2) by simp
    qed
  qed
  show "dirs_ok D s'"
    unfolding dirs_ok_def
  proof (intro conjI ballI allI impI)
    show "pools_ok s'" using pools_ok_marked [OF ok(1) assms(7)] assms(8) by simp
    show "table_page s' pd'" if "pd' \<in> D" for pd' using tp ok(2) that by blast
    fix pd' k assume q: "pd' \<in> D" "(k :: nat) < 768"
    have pD: "p \<notin> D" using ne ok(2) by blast
    show "pde s' pd' k = 0 \<or> (\<exists>pt. pde s' pd' k = (pt - PHYS_BASE) OR 7 \<and> table_page s' pt \<and> pt \<notin> D)"
      using ok(3) [OF q] tp tpp pD unfolding dir [OF q] by auto
    have fresh: "page_of (pde s pd2 l) \<noteq> p" if "pd2 \<in> D" "l < 768" "pde s pd2 l \<noteq> 0" for pd2 l
      using ne page_table(1) [OF assms(1) that] by blast
    fix pd2 l assume r: "pd2 \<in> D" "(l :: nat) < 768" "pde s' pd' k \<noteq> 0" "pde s' pd2 l \<noteq> 0" "page_of (pde s' pd' k) = page_of (pde s' pd2 l)"
    have "pd' = pd2 \<and> k = l"
    proof (cases "pd' = pd \<and> k = i")
      case True
      then have "page_of (pde s' pd2 l) = p" using r(5) e pg by simp
      then have "pd2 = pd \<and> l = i" using fresh [OF r(1,2)] r(4) dir [OF r(1,2)] by (auto split: if_splits)
      then show ?thesis using True by simp
    next
      case False
      then have k: "pde s' pd' k = pde s pd' k" using dir [OF q] by (simp only: if_False)
      then have "\<not> (pd2 = pd \<and> l = i)" using r(3,5) e pg fresh [OF q] by auto
      then show ?thesis using ok(4) [OF q(1) r(1) q(2) r(2)] r(3-5) dir [OF r(1,2)] k by auto
    qed
    then show "pd' = pd2" "k = l" by blast+
  next
    fix pd' vb assume "pd' \<in> D" "is_user_vaddr vb"
    then show "pte_of s' pd' vb AND PTE_ADDR < PHYS_BASE" using pte ok(5) by simp
  qed
qed

text \<open>The fields of the processor are not touched.\<close>

definition same_cpu :: "paging \<Rightarrow> paging \<Rightarrow> bool" where
  "same_cpu s s' \<longleftrightarrow> cr3 s' = cr3 s \<and> tlb s' = tlb s \<and> init_page_dir s' = init_page_dir s \<and> init_ram_pages s' = init_ram_pages s"

lemma same_cpu_map: "same_cpu s ((set_map u b s)\<lparr>kmem := m\<rparr>)" "same_cpu s (s\<lparr>kmem := m\<rparr>)"
  by (simp_all add: same_cpu_def set_map_def)

lemma lookup_page_create:
  assumes "dirs_ok D s" "pd \<in> D" "is_user_vaddr va"
  shows "\<exists>r s'. lookup_page pd va True s = Some (r, s') \<and>
     (r = NULL \<and> s' = s \<and> pde s pd (pdi va) = 0 \<and> \<not> free_run False s 1
      \<or> r \<noteq> NULL \<and> dirs_ok D s' \<and> same_cpu s s' \<and> pde s' pd (pdi va) \<noteq> 0 \<and> r = slot_addr (page_of (pde s' pd (pdi va))) (pti va)
        \<and> (\<forall>pd'\<in>D. \<forall>vb. is_user_vaddr vb \<longrightarrow> pte_of s' pd' vb = pte_of s pd' vb))"
proof (cases "pde s pd (pdi va) = 0")
  case False
  have "lookup_page pd va True s = lookup_page pd va False s" using False assms(3) by (simp add: lookup_page_def Let_def slot_pd)
  then show ?thesis using lookup_page_read [OF assms] False assms(1) by (simp add: same_cpu_def)
next
  case True
  note ok = dirs_okD [OF assms(1)]
  have nn: "pd \<noteq> NULL" using kernel_page_phys(4) [OF table_page_kernel [OF ok(1,2)]] assms(2) by blast
  have i: "pdi va < 768" using assms(3) by (simp add: user_pdi)
  show ?thesis
  proof (cases "free_run False s 1")
    case no: False
    then have "palloc_get_page PAL_ZERO s = Some (NULL, s)"
      using palloc_get_none [OF ok(1), of 1 False PAL_ZERO] by (simp add: palloc_get_page_def)
    then show ?thesis using True no nn assms(3) by (simp add: lookup_page_def Let_def slot_pd)
  next
    case yes: True
    then obtain p b where g: "palloc_get_page PAL_ZERO s = Some (p, (set_map False b s)\<lparr>kmem := fill p 4096 0 (kmem s)\<rparr>)"
        "group False s p 1" "\<not> page_used False s p" "marked False p 1 True s b"
      using palloc_get_ok [OF ok(1), of 1 False PAL_ZERO] by (auto simp: palloc_get_page_def in_pages_def)
    define s' where "s' = (set_map False b s)\<lparr>kmem := write_word (slot_addr pd (pdi va)) ((p - PHYS_BASE) OR 7) (fill p 4096 0 (kmem s))\<rparr>"
    note t = table_added [OF assms(1,2) i True g(2-4) s'_def]
    have kp: "kernel_page p" using group_bounds(2) [OF ok(1) g(2)] g(2)
      by (auto simp: kernel_page_def aligned_def group_def word_le_nat_alt)
    note nz = pde_get_ok [OF kp]
    have "lookup_page pd va True s = Some (slot_addr p (pti va), s')"
      using True nn assms(3) g(1) kernel_page_phys(4) [OF kp] pde_create_ok [OF kp] nz(1) t(2)
      by (simp add: lookup_page_def Let_def slot_pd s'_def)
    moreover have "slot_addr p (pti va) \<noteq> NULL" "pde s' pd (pdi va) \<noteq> 0"
      using lookup_page_read(2) [OF t(1) assms(2,3)] t(2,3) nz(2) by simp_all
    moreover have "same_cpu s s'" unfolding s'_def by (rule same_cpu_map)
    ultimately show ?thesis using t(1,3,4) by auto
  qed
qed

section \<open>The processor's copies\<close>

text \<open>Every cached translation of the active directory is the one that its tables give.\<close>

definition tlb_ok :: "addr set \<Rightarrow> paging \<Rightarrow> bool" where
  "tlb_ok D s \<longleftrightarrow> (\<forall>pd va e. active_pd s = Some pd \<longrightarrow> pd \<in> D \<longrightarrow> is_user_vaddr va \<longrightarrow> tlb s va = Some e \<longrightarrow>
     translate s pd va = Some (page_of e + pg_ofs va))"

text \<open>The processor caches an entry when it uses it.\<close>

definition tlb_fill :: "addr \<Rightarrow> addr \<Rightarrow> paging \<Rightarrow> paging" where
  "tlb_fill pd va s = (if pte_of s pd va AND PTE_P \<noteq> 0 then s\<lparr>tlb := (tlb s)(va \<mapsto> pte_of s pd va)\<rparr> else s)"

lemma tlb_fill_ok: "tlb_ok D s \<Longrightarrow> active_pd s = Some pd \<Longrightarrow> tlb_ok D (tlb_fill pd va s)"
  by (auto simp: tlb_ok_def tlb_fill_def active_pd_def translate_def pte_of_def Let_def)

lemma pte_of_page: "pg_round_down va = pg_round_down vb \<Longrightarrow> pte_of s pd va = pte_of s pd vb"
  using same_page [of va vb] by (simp add: pte_of_def)

lemma translate_pte: "pte_of s' pd va = pte_of s pd va \<Longrightarrow> translate s' pd va = translate s pd va"
  by (simp add: translate_def)

text \<open>
  Changing what a directory says about one page keeps the cached translations right if the page
  was not mapped before.
\<close>

lemma tlb_ok_set:
  assumes "tlb_ok D s" "same_cpu s s'" "translate s pd upage = None" "aligned upage"
    and "\<And>pd' vb. pd' \<in> D \<Longrightarrow> is_user_vaddr vb \<Longrightarrow> \<not> (pd' = pd \<and> pg_round_down vb = upage) \<Longrightarrow> translate s' pd' vb = translate s pd' vb"
  shows "tlb_ok D s'"
  unfolding tlb_ok_def
proof (intro allI impI)
  fix pd' va e assume a: "active_pd s' = Some pd'" "pd' \<in> D" "is_user_vaddr va" "tlb s' va = Some e"
  then have t: "translate s pd' va = Some (page_of e + pg_ofs va)"
    using assms(1,2) by (auto simp: tlb_ok_def same_cpu_def active_pd_def)
  have "\<not> (pd' = pd \<and> pg_round_down va = upage)"
  proof
    assume "pd' = pd \<and> pg_round_down va = upage"
    then have "pte_of s pd' va = pte_of s pd upage" using pte_of_page [of va upage] round_idem [OF assms(4)] by auto
    then show False using t assms(3) by (auto simp: translate_def Let_def split: if_splits)
  qed
  then show "translate s' pd' va = Some (page_of e + pg_ofs va)" using assms(5) [OF a(2,3)] t by simp
qed

section \<open>Mapping and unmapping a page\<close>

lemma entry_present: "kernel_page p \<Longrightarrow> ((p - PHYS_BASE) OR (if w then 7 else 5)) AND PTE_P \<noteq> 0"
  using entry_flags [OF kernel_page_phys(1), of p 1] by simp

lemma set_page_ok:
  assumes "dirs_ok D s" "pd \<in> D" "pd \<noteq> init_page_dir s" "aligned upage" "is_user_vaddr upage" "kernel_page kpage"
    and "drop_bit 12 (kpage - PHYS_BASE) < init_ram_pages s" "translate s pd upage = None"
  shows "\<exists>ok s'. pagedir_set_page pd upage kpage w s = Some (ok, s') \<and> dirs_ok D s' \<and> same_cpu s s' \<and> (ok \<or> \<not> free_run False s 1)
    \<and> (\<forall>pd'\<in>D. \<forall>va. is_user_vaddr va \<longrightarrow> translate s' pd' va =
         (if ok \<and> pd' = pd \<and> pg_round_down va = upage then Some (kpage + pg_ofs va) else translate s pd' va))"
proof -
  let ?e = "(kpage - PHYS_BASE) OR (if w then 7 else 5) :: u32"
  have pre: "pg_ofs upage = 0" "pg_ofs kpage = 0" "vtop kpage = Some (kpage - PHYS_BASE)"
    using assms(4,6) kernel_page_phys(3) [OF assms(6)] by (simp_all add: aligned_pg_ofs kernel_page_def)
  obtain r s1 where r: "lookup_page pd upage True s = Some (r, s1)" and
    cases: "r = NULL \<and> s1 = s \<and> \<not> free_run False s 1
      \<or> r \<noteq> NULL \<and> dirs_ok D s1 \<and> same_cpu s s1 \<and> pde s1 pd (pdi upage) \<noteq> 0 \<and> r = slot_addr (page_of (pde s1 pd (pdi upage))) (pti upage)
        \<and> (\<forall>pd'\<in>D. \<forall>vb. is_user_vaddr vb \<longrightarrow> pte_of s1 pd' vb = pte_of s pd' vb)"
    using lookup_page_create [OF assms(1,2,5)] by blast
  from cases show ?thesis
  proof
    assume "r = NULL \<and> s1 = s \<and> \<not> free_run False s 1"
    then have "pagedir_set_page pd upage kpage w s = Some (False, s)" using r pre assms(3,5,7) by (simp add: pagedir_set_page_def)
    then show ?thesis using \<open>r = NULL \<and> _\<close> assms(1) by (auto simp: same_cpu_def)
  next
    assume c: "r \<noteq> NULL \<and> dirs_ok D s1 \<and> same_cpu s s1 \<and> pde s1 pd (pdi upage) \<noteq> 0 \<and> r = slot_addr (page_of (pde s1 pd (pdi upage))) (pti upage)
        \<and> (\<forall>pd'\<in>D. \<forall>vb. is_user_vaddr vb \<longrightarrow> pte_of s1 pd' vb = pte_of s pd' vb)"
    then have pte1: "pte_of s1 pd' vb = pte_of s pd' vb" if "pd' \<in> D" "is_user_vaddr vb" for pd' vb using that by blast
    define s' where "s' = s1\<lparr>kmem := write_word (slot_addr (page_of (pde s1 pd (pdi upage))) (pti upage)) ?e (kmem s1)\<rparr>"
    have ea: "?e AND PTE_ADDR < PHYS_BASE" using page_of_entry(2) [OF assms(6), of 7] page_of_entry(2) [OF assms(6), of 5] by simp
    have ep: "page_of ?e = kpage" using page_of_entry(1) [OF assms(6), of 7] page_of_entry(1) [OF assms(6), of 5] by simp
    note pw = pte_write [OF _ assms(2,5) _ ea s'_def]
    have "read_word (kmem s1) r = pte_of s1 pd upage" using c by (simp add: pte_of_def)
    then have free: "read_word (kmem s1) r AND PTE_P = 0"
      using assms(8) pte1 [OF assms(2,5)] by (simp add: translate_def Let_def split: if_splits)
    have rr: "r \<noteq> NULL" and rs: "slot_addr (page_of (pde s1 pd (pdi upage))) (pti upage) = r" using c by blast+
    have "pagedir_set_page pd upage kpage w s = Some (True, s')"
      using r pre assms(3,5,7) rr free pte_create_ok [OF assms(6)] by (simp add: pagedir_set_page_def s'_def rs)
    moreover have "translate s' pd' va = (if pd' = pd \<and> pg_round_down va = upage then Some (kpage + pg_ofs va) else translate s pd' va)"
      if "pd' \<in> D" "is_user_vaddr va" for pd' va
      using pw(2) [OF _ _ that] c pte1 [OF that] round_idem [OF assms(4)] ep entry_present [OF assms(6), of w]
      by (simp add: translate_def Let_def)
    moreover have "same_cpu s s'" using c by (simp add: same_cpu_def s'_def)
    ultimately show ?thesis using pw(1) c by auto
  qed
qed

lemma invalidate_ok:
  assumes "dirs_ok D s" "pd \<in> D" "cr3 s < PHYS_BASE"
  shows "\<exists>s'. invalidate_pagedir pd s = Some s' \<and> kmem s' = kmem s \<and> (\<forall>u. the_pool u s' = the_pool u s) \<and> active_pd s' = active_pd s
    \<and> tlb s' = (if active_pd s = Some pd then Map.empty else tlb s)"
proof -
  note k = table_page_kernel [OF dirs_okD(1,2) [OF assms(1)], OF assms(2)]
  note k' = kernel_page_phys [OF k]
  have "cr3 s = pd - PHYS_BASE" if "cr3 s + PHYS_BASE = pd" using that by (metis add_diff_cancel_right')
  then show ?thesis using k' assms(3)
    by (auto simp: invalidate_pagedir_def active_pd_def ptov_def pagedir_activate_def the_pool_def)
qed

lemma dirs_ok_cong:
  assumes "kmem s' = kmem s" "\<forall>u. the_pool u s' = the_pool u s"
  shows "dirs_ok D s' = dirs_ok D s" "translate s' pd va = translate s pd va" "pte_of s' pd va = pte_of s pd va"
proof -
  have "kernel_pool s' = kernel_pool s" "user_pool s' = user_pool s"
    using spec [OF assms(2), of False] spec [OF assms(2), of True] by (simp_all add: the_pool_def)
  then have p: "pools_ok s' = pools_ok s" by (simp add: pools_ok_def)
  show q: "pte_of s' pd va = pte_of s pd va" for pd va using assms(1) by (simp add: pte_of_def)
  have t: "table_page s' p = table_page s p" for p using assms(2) by (simp add: table_page_def group_def page_used_def)
  show "dirs_ok D s' = dirs_ok D s" unfolding dirs_ok_def p q t assms(1) ..
  show "translate s' pd va = translate s pd va" by (simp add: translate_def q)
qed

lemma clear_page_ok:
  assumes "dirs_ok D s" "pd \<in> D" "aligned upage" "is_user_vaddr upage" "cr3 s < PHYS_BASE"
  shows "\<exists>s'. pagedir_clear_page pd upage s = Some s' \<and> dirs_ok D s' \<and> (tlb_ok D s \<longrightarrow> tlb_ok D s')
    \<and> (\<forall>pd'\<in>D. \<forall>va. is_user_vaddr va \<longrightarrow> translate s' pd' va = (if pd' = pd \<and> pg_round_down va = upage then None else translate s pd' va))"
proof -
  have ofs: "pg_ofs upage = 0" using assms(3) by (simp add: aligned_pg_ofs)
  note rd = lookup_page_read [OF assms(1,2,4)]
  have page: "translate s pd va = None \<longleftrightarrow> translate s pd upage = None" if "pg_round_down va = upage" for va
    using pte_of_page [of va upage s pd] that round_idem [OF assms(3)] by (auto simp: translate_def Let_def)
  show ?thesis
  proof (cases "translate s pd upage = None")
    case True
    then have "pagedir_clear_page pd upage s = Some s"
      using rd ofs assms(4) by (auto simp: pagedir_clear_page_def translate_def pte_of_def Let_def split: if_splits)
    moreover have "translate s pd' va = (if pd' = pd \<and> pg_round_down va = upage then None else translate s pd' va)" for pd' va
      using page [of va] True by auto
    ultimately show ?thesis using assms(1) by blast
  next
    case False
    then have nz: "pde s pd (pdi upage) \<noteq> 0" by (auto simp: translate_def pte_of_def)
    let ?r = "slot_addr (page_of (pde s pd (pdi upage))) (pti upage)"
    let ?w = "pte_of s pd upage AND NOT PTE_P"
    define s1 where "s1 = s\<lparr>kmem := write_word ?r ?w (kmem s)\<rparr>"
    have w: "?w AND PTE_P = 0" by (simp add: and.assoc)
    have wa: "?w AND PTE_ADDR = pte_of s pd upage AND PTE_ADDR"
      unfolding pte_addr_not pgmask_word by (rule bit_word_eqI) (auto simp: bit_simps bit_1_iff bit_mask_iff simp del: mask_numeral)
    then have "?w AND PTE_ADDR < PHYS_BASE" using dirs_okD(5) [OF assms(1,2,4)] by simp
    note pw = pte_write [OF assms(1,2,4) nz this s1_def]
    have tr: "translate s1 pd' va = (if pd' = pd \<and> pg_round_down va = upage then None else translate s pd' va)"
      if "pd' \<in> D" "is_user_vaddr va" for pd' va
      using pw(2) [OF that] w round_idem [OF assms(3)] by (simp add: translate_def Let_def)
    have r: "read_word (kmem s) ?r = pte_of s pd upage" using nz by (simp add: pte_of_def)
    have "pagedir_clear_page pd upage s = invalidate_pagedir pd s1"
      using rd nz ofs assms(4) r False by (simp add: pagedir_clear_page_def s1_def translate_def Let_def split: if_splits)
    moreover obtain s' where s': "invalidate_pagedir pd s1 = Some s'" "kmem s' = kmem s1" "\<forall>u. the_pool u s' = the_pool u s1"
        "active_pd s' = active_pd s1" "tlb s' = (if active_pd s1 = Some pd then Map.empty else tlb s1)"
      using invalidate_ok [OF pw(1) assms(2)] assms(5) by (auto simp: s1_def)
    note c = dirs_ok_cong [OF s'(2,3)]
    have a1: "active_pd s1 = active_pd s" "tlb s1 = tlb s" by (simp_all add: s1_def active_pd_def)
    have "tlb_ok D s'" if "tlb_ok D s"
      using that tr s'(4,5) a1 unfolding tlb_ok_def c(2) by (auto split: if_splits)
    moreover have "dirs_ok D s'" unfolding c(1) by (rule pw(1))
    ultimately show ?thesis using s'(1) tr unfolding c(2) [symmetric] by auto
  qed
qed

section \<open>Properties\<close>

text \<open>
  C10: Mapping a user page that is not mapped makes every address of the page lead to the given
  frame and changes the meaning of no other user address, in this or any other directory; it
  fails only if there is no page left for a page table. Unmapping the page afterwards restores
  the meaning of all addresses. Both keep the tables well-formed and never leave a stale
  translation in the processor's buffer.
\<close>

theorem pagedir_correct:
  assumes "dirs_ok D s" "pd \<in> D" "pd \<noteq> init_page_dir s" "cr3 s < PHYS_BASE" "aligned upage" "is_user_vaddr upage"
    and "kernel_page kpage" "drop_bit 12 (kpage - PHYS_BASE) < init_ram_pages s" "translate s pd upage = None" "tlb_ok D s"
  shows "\<exists>ok s'. pagedir_set_page pd upage kpage w s = Some (ok, s') \<and> dirs_ok D s' \<and> tlb_ok D s' \<and> (ok \<or> \<not> free_run False s 1)
    \<and> (\<forall>pd'\<in>D. \<forall>va. is_user_vaddr va \<longrightarrow> pagedir_get_page pd' va s' =
         Some (if ok \<and> pd' = pd \<and> pg_round_down va = upage then kpage + pg_ofs va else case translate s pd' va of None \<Rightarrow> NULL | Some a \<Rightarrow> a, s'))
    \<and> (\<exists>t. pagedir_clear_page pd upage s' = Some t \<and> dirs_ok D t \<and> tlb_ok D t
         \<and> (\<forall>pd'\<in>D. \<forall>va. is_user_vaddr va \<longrightarrow> pagedir_get_page pd' va t = Some (case translate s pd' va of None \<Rightarrow> NULL | Some a \<Rightarrow> a, t)))"
proof -
  obtain ok s' where s': "pagedir_set_page pd upage kpage w s = Some (ok, s')" "dirs_ok D s'" "same_cpu s s'" "ok \<or> \<not> free_run False s 1"
      and tr: "\<And>pd' va. pd' \<in> D \<Longrightarrow> is_user_vaddr va \<Longrightarrow>
        translate s' pd' va = (if ok \<and> pd' = pd \<and> pg_round_down va = upage then Some (kpage + pg_ofs va) else translate s pd' va)"
    using set_page_ok [OF assms(1-3,5-9)] by blast
  have tlb: "tlb_ok D s'" using tr by (intro tlb_ok_set [OF assms(10) s'(3) assms(9,5)]) auto
  have "cr3 s' < PHYS_BASE" using assms(4) s'(3) by (simp add: same_cpu_def)
  then obtain t where t: "pagedir_clear_page pd upage s' = Some t" "dirs_ok D t" "tlb_ok D t"
      and tr2: "\<And>pd' va. pd' \<in> D \<Longrightarrow> is_user_vaddr va \<Longrightarrow>
        translate t pd' va = (if pd' = pd \<and> pg_round_down va = upage then None else translate s' pd' va)"
    using clear_page_ok [OF s'(2) assms(2,5,6)] tlb by blast
  have restored: "translate t pd' va = translate s pd' va" if "pd' \<in> D" "is_user_vaddr va" for pd' va
  proof (cases "pd' = pd \<and> pg_round_down va = upage")
    case True
    then have "pte_of s pd' va = pte_of s pd upage" using pte_of_page [of va upage] round_idem [OF assms(5)] by auto
    then have "translate s pd' va = None" using assms(9) by (auto simp: translate_def Let_def split: if_splits)
    then show ?thesis using tr2 [OF that] True by simp
  next
    case False
    then show ?thesis using tr2 [OF that] tr [OF that] by auto
  qed
  have "pagedir_get_page pd' va t = Some (case translate s pd' va of None \<Rightarrow> NULL | Some a \<Rightarrow> a, t)"
    if "pd' \<in> D" "is_user_vaddr va" for pd' va
    unfolding pagedir_get_page_ok [OF t(2) that] restored [OF that] ..
  moreover have "pagedir_get_page pd' va s' =
         Some (if ok \<and> pd' = pd \<and> pg_round_down va = upage then kpage + pg_ofs va else case translate s pd' va of None \<Rightarrow> NULL | Some a \<Rightarrow> a, s')"
    if "pd' \<in> D" "is_user_vaddr va" for pd' va
    unfolding pagedir_get_page_ok [OF s'(2) that] tr [OF that] by simp
  ultimately show ?thesis using s' t tlb by blast
qed

definition one_dir :: paging where
  "one_dir = \<lparr>kernel_pool = kernel_pool small_pools, user_pool = user_pool small_pools, kmem = (\<lambda>a. 0),
     init_page_dir = 0xc0100000, init_ram_pages = 0x200, cr3 = 0x101000, tlb = Map.empty\<rparr>"

lemma one_dir_ok: "dirs_ok {0xc0101000} one_dir" "free_run False one_dir 1"
proof -
  have p: "pools_ok one_dir"
    by (simp add: one_dir_def small_pools_def pools_ok_def pool_ok_def bitmap_ok_def size_of_def)
  have z: "read_word (kmem one_dir) a = 0" for a by (simp add: one_dir_def read_word_def word_of_bytes_def)
  have "table_page one_dir 0xc0101000"
    by (simp add: table_page_def group_def page_used_def the_pool_def one_dir_def small_pools_def size_of_def bitv_def)
  then show "dirs_ok {0xc0101000} one_dir" using p by (simp add: dirs_ok_def z pte_of_def)
  have "run_of (used_map (the_pool False one_dir)) 1 1 False"
    by (simp add: run_of_def the_pool_def one_dir_def small_pools_def size_of_def bitv_def bit_1_iff)
  then show "free_run False one_dir 1" using free_run_iff [OF pools_okD [OF p, of False], of 1] by auto
qed

theorem pagedir_correct_witness:
  "\<exists>s'. pagedir_set_page 0xc0101000 0x08048000 0xc0106000 True one_dir = Some (True, s')
     \<and> pagedir_get_page 0xc0101000 0x08048123 s' = Some (0xc0106123, s')"
proof -
  have "translate one_dir 0xc0101000 0x08048000 = None" "tlb_ok {0xc0101000} one_dir"
    by (simp_all add: translate_def pte_of_def one_dir_def read_word_def word_of_bytes_def tlb_ok_def)
  moreover have "aligned 0x08048000" "is_user_vaddr 0x08048000" "is_user_vaddr 0x08048123" "kernel_page 0xc0106000"
      "pg_round_down 0x08048123 = 0x08048000" "pg_ofs 0x08048123 = 0x123"
    by (simp_all add: aligned_def is_user_vaddr_def kernel_page_def pg_round_down_def pg_ofs_def)
  moreover have "(0xc0101000 :: addr) \<noteq> init_page_dir one_dir" "cr3 one_dir < PHYS_BASE"
      "drop_bit 12 (0xc0106000 - PHYS_BASE) < init_ram_pages one_dir"
    by (simp_all add: one_dir_def)
  ultimately show ?thesis
    using pagedir_correct [OF one_dir_ok(1), of "0xc0101000" "0x08048000" "0xc0106000" True] one_dir_ok(2) by auto
qed

end
