(* ===== verification/Vm.thy ===== *)
theory Vm
  imports Pagedir Directory Khash
begin

text \<open>
  Virtual memory: the swap device (\<open>vm/swap.c\<close>), the table of frames with the choice of a victim
  (\<open>vm/frame.c\<close>), the supplemental pages of a process (\<open>vm/page.c\<close>) and the page fault handler
  (\<open>userprog/exception.c\<close>).

  Pages, frames and open files are numbered objects; \<open>struct_of\<close> gives the address of the structure
  of a page. The supplemental page table of a process is a map from addresses to pages. Locks are
  left out: a page fault is handled in one go. A null pointer that is followed, like the page of a
  frame without page, has no result. That the processor marks the entries of the pages that it
  accesses is not part of the operations. \<open>wm\<close> is the write of the free map of the file system.
\<close>

section \<open>State\<close>

abbreviation (input) PAGE_BLOCKS :: nat where "PAGE_BLOCKS \<equiv> 8"
abbreviation (input) MAP_FAILED :: int where "MAP_FAILED \<equiv> - 1"
abbreviation (input) STACK_SIZE :: addr where "STACK_SIZE \<equiv> 0x800000"

record page =
  vaddr :: addr
  pframe :: "nat option"
  pthread :: nat
  is_private :: bool
  dirty :: bool
  pfile :: "nat option"
  file_ofs :: int
  read_bytes :: u32
  zero_bytes :: u32
  writable :: bool
  mmap_id :: int
  swap_slot :: block_sector_t

record frame =
  kpage :: addr
  vpage :: "nat option"
  pinned :: bool

record mmap =
  m_id :: int
  m_file :: nat
  m_vaddr :: addr
  m_length :: u32

record uthread =
  pagedir :: addr
  stack_pointer :: addr
  exit_code :: int
  is_exited :: bool
  supplemental_pages :: "addr \<rightharpoonup> nat"
  mmap_list :: "mmap list"

record vm = paging +
  swap_device :: block
  swap_bitmap :: bitmap
  frame_table :: "frame list"
  clock_hand :: "nat option"
  pages :: "nat \<rightharpoonup> page"
  next_page :: nat
  struct_of :: "nat \<Rightarrow> addr"
  page_fault_cnt :: u64
  uthreads :: "nat \<Rightarrow> uthread"
  current :: nat
  files :: "nat \<rightharpoonup> file_t"
  vfs :: fs
  vm_allocs :: "bool list"

definition upd_page :: "nat \<Rightarrow> (page \<Rightarrow> page) \<Rightarrow> vm \<Rightarrow> vm option" where
  "upd_page p f s = do { pg \<leftarrow> pages s p; Some (s\<lparr>pages := (pages s)(p \<mapsto> f pg)\<rparr>) }"

definition upd_frame :: "nat \<Rightarrow> (frame \<Rightarrow> frame) \<Rightarrow> vm \<Rightarrow> vm option" where
  "upd_frame i f s =
     (if i < length (frame_table s) then Some (s\<lparr>frame_table := (frame_table s)[i := f (frame_table s ! i)]\<rparr>) else None)"

definition frame_at :: "nat \<Rightarrow> vm \<Rightarrow> frame option" where
  "frame_at i s = (if i < length (frame_table s) then Some (frame_table s ! i) else None)"

definition set_pin :: "nat \<Rightarrow> bool \<Rightarrow> vm \<Rightarrow> vm option" where
  "set_pin p b s = do { pg \<leftarrow> pages s p; i \<leftarrow> pframe pg; upd_frame i (\<lambda>f. f\<lparr>pinned := b\<rparr>) s }"

definition kpage_of :: "nat \<Rightarrow> vm \<Rightarrow> addr option" where
  "kpage_of p s = do { pg \<leftarrow> pages s p; i \<leftarrow> pframe pg; f \<leftarrow> frame_at i s; Some (kpage f) }"

definition vm_alloc :: "vm \<Rightarrow> bool \<times> vm" where
  "vm_alloc s = (case vm_allocs s of [] \<Rightarrow> (True, s) | a # as \<Rightarrow> (a, s\<lparr>vm_allocs := as\<rparr>))"

abbreviation cur_thread :: "vm \<Rightarrow> uthread" where
  "cur_thread s \<equiv> uthreads s (current s)"

text \<open>Running an operation of the page tables on the state.\<close>

definition on_paging :: "(paging \<Rightarrow> ('r \<times> paging) option) \<Rightarrow> vm \<Rightarrow> ('r \<times> vm) option" where
  "on_paging f s = do { (r, p) \<leftarrow> f (paging.truncate s); Some (r, paging.extend p (paging.more s)) }"

definition on_paging' :: "(paging \<Rightarrow> paging option) \<Rightarrow> vm \<Rightarrow> vm option" where
  "on_paging' f s = do { p \<leftarrow> f (paging.truncate s); Some (paging.extend p (paging.more s)) }"

section \<open>Swapping\<close>

definition swap_init :: "block option \<Rightarrow> u32 list \<Rightarrow> vm \<Rightarrow> vm option" where
  "swap_init dev raw s = do {
     d \<leftarrow> dev;
     bo \<leftarrow> bitmap_create (block_size d) True (Some raw);
     b \<leftarrow> bo;
     Some (s\<lparr>swap_device := d, swap_bitmap := b\<rparr>) }"

fun swap_read_loop :: "addr \<Rightarrow> block_sector_t \<Rightarrow> nat list \<Rightarrow> vm \<Rightarrow> vm option" where
  "swap_read_loop kp idx [] s = Some s"
| "swap_read_loop kp idx (i # is) s = do {
     (d, dev) \<leftarrow> block_read (swap_device s) (idx + of_nat i);
     swap_read_loop kp idx is (s\<lparr>swap_device := dev, kmem := put_bytes (kp + of_nat (512 * i)) d (kmem s)\<rparr>) }"

fun swap_write_loop :: "addr \<Rightarrow> block_sector_t \<Rightarrow> nat list \<Rightarrow> vm \<Rightarrow> vm option" where
  "swap_write_loop kp idx [] s = Some s"
| "swap_write_loop kp idx (i # is) s = do {
     dev \<leftarrow> block_write (swap_device s) (idx + of_nat i) (get_bytes (kp + of_nat (512 * i)) 512 (kmem s));
     swap_write_loop kp idx is (s\<lparr>swap_device := dev\<rparr>) }"

definition swap_in :: "nat \<Rightarrow> vm \<Rightarrow> vm option" where
  "swap_in p s = do {
     pg \<leftarrow> pages s p;
     kassert (is_private pg);
     kassert (swap_slot pg \<noteq> BITMAP_ERROR);
     all_used \<leftarrow> bitmap_all (swap_bitmap s) (swap_slot pg) (of_nat PAGE_BLOCKS);
     kassert all_used;
     kp \<leftarrow> kpage_of p s;
     s \<leftarrow> set_pin p True s;
     s \<leftarrow> swap_read_loop kp (swap_slot pg) [0..<PAGE_BLOCKS] s;
     s \<leftarrow> set_pin p False s;
     b \<leftarrow> bitmap_set_multiple (swap_bitmap s) (swap_slot pg) (of_nat PAGE_BLOCKS) False;
     upd_page p (\<lambda>pg. pg\<lparr>is_private := False, swap_slot := - 1\<rparr>) (s\<lparr>swap_bitmap := b\<rparr>) }"

definition swap_out :: "nat \<Rightarrow> vm \<Rightarrow> (block_sector_t \<times> vm) option" where
  "swap_out p s = do {
     (idx, b) \<leftarrow> bitmap_scan_and_flip (swap_bitmap s) 0 (of_nat PAGE_BLOCKS) False;
     let s = s\<lparr>swap_bitmap := b\<rparr>;
     if idx \<noteq> BITMAP_ERROR then do {
       kp \<leftarrow> kpage_of p s;
       s \<leftarrow> set_pin p True s;
       s \<leftarrow> swap_write_loop kp idx [0..<PAGE_BLOCKS] s;
       s \<leftarrow> set_pin p False s;
       s \<leftarrow> upd_page p (\<lambda>pg. pg\<lparr>is_private := True, swap_slot := idx, pframe := None\<rparr>) s;
       Some (idx, s) }
     else Some (idx, s) }"

definition swap_clear :: "nat \<Rightarrow> vm \<Rightarrow> vm option" where
  "swap_clear p s = do {
     pg \<leftarrow> pages s p;
     kassert (is_private pg);
     all_used \<leftarrow> bitmap_all (swap_bitmap s) (swap_slot pg) (of_nat PAGE_BLOCKS);
     kassert all_used;
     b \<leftarrow> bitmap_set_multiple (swap_bitmap s) (swap_slot pg) (of_nat PAGE_BLOCKS) False;
     Some (s\<lparr>swap_bitmap := b\<rparr>) }"

section \<open>Pages\<close>

definition page_hash_value :: "page \<Rightarrow> u32" where
  "page_hash_value p = hash_bytes (map (\<lambda>k. ucast (drop_bit (8 * k) (vaddr p))) [0..<4])"

definition page_hash_less :: "page \<Rightarrow> page \<Rightarrow> bool" where
  "page_hash_less a b \<longleftrightarrow> vaddr a < vaddr b"

definition page_lookup :: "nat \<Rightarrow> addr \<Rightarrow> vm \<Rightarrow> nat option" where
  "page_lookup t va s = supplemental_pages (uthreads s t) va"

definition set_spt :: "nat \<Rightarrow> addr \<Rightarrow> nat option \<Rightarrow> vm \<Rightarrow> vm" where
  "set_spt t va po s =
     s\<lparr>uthreads := (uthreads s)(t := (uthreads s t)\<lparr>supplemental_pages := (supplemental_pages (uthreads s t))(va := po)\<rparr>)\<rparr>"

definition page_alloc :: "addr \<Rightarrow> bool \<Rightarrow> vm \<Rightarrow> (nat option \<times> vm) option" where
  "page_alloc va w s = do {
     let t = current s;
     let page_vaddr = pg_round_down va;
     case page_lookup t page_vaddr s of
       Some p \<Rightarrow> Some (Some p, s)
     | None \<Rightarrow> do {
         let (a, s) = vm_alloc s;
         if \<not> a then Some (None, s)
         else do {
           let p = next_page s;
           let pg = \<lparr>vaddr = page_vaddr, pframe = None, pthread = t, is_private = False, dirty = False, pfile = None, file_ofs = 0,
                     read_bytes = 0, zero_bytes = 0, writable = w, mmap_id = MAP_FAILED, swap_slot = - 1\<rparr>;
           Some (Some p, set_spt t page_vaddr (Some p) (s\<lparr>pages := (pages s)(p \<mapsto> pg), next_page := p + 1\<rparr>)) } } }"

definition page_is_accessed :: "nat \<Rightarrow> vm \<Rightarrow> (bool \<times> vm) option" where
  "page_is_accessed p s = do {
     pg \<leftarrow> pages s p;
     on_paging (pagedir_is_accessed (pagedir (uthreads s (pthread pg))) (vaddr pg)) s }"

definition page_set_accessed :: "nat \<Rightarrow> bool \<Rightarrow> vm \<Rightarrow> vm option" where
  "page_set_accessed p v s = do {
     pg \<leftarrow> pages s p;
     on_paging' (pagedir_set_accessed (pagedir (uthreads s (pthread pg))) (vaddr pg) v) s }"

definition page_is_dirty :: "nat \<Rightarrow> vm \<Rightarrow> (bool \<times> vm) option" where
  "page_is_dirty p s = do {
     pg \<leftarrow> pages s p;
     on_paging (pagedir_is_dirty (pagedir (uthreads s (pthread pg))) (vaddr pg)) s }"

text \<open>The kernel reads a page of the current process through its user address.\<close>

definition user_bytes :: "addr \<Rightarrow> nat \<Rightarrow> vm \<Rightarrow> (bytes \<times> vm) option" where
  "user_bytes va n s = do {
     kassert (unat (pg_ofs va) + n \<le> PGSIZE);
     (ka, s) \<leftarrow> on_paging (pagedir_get_page (pagedir (cur_thread s)) va) s;
     kassert (ka \<noteq> NULL);
     Some (get_bytes ka n (kmem s), s) }"

definition write_back :: "write_map \<Rightarrow> nat \<Rightarrow> page \<Rightarrow> vm \<Rightarrow> (int \<times> vm) option" where
  "write_back wm fid pg s = do {
     f \<leftarrow> files s fid;
     (d, s) \<leftarrow> user_bytes (vaddr pg) (unat (read_bytes pg)) s;
     (n, fs') \<leftarrow> file_write_at wm f d (sint (read_bytes pg)) (file_ofs pg) (vfs s);
     Some (n, s\<lparr>vfs := fs'\<rparr>) }"

definition page_out :: "write_map \<Rightarrow> nat \<Rightarrow> vm \<Rightarrow> (bool \<times> vm) option" where
  "page_out wm p s = do {
     pg \<leftarrow> pages s p;
     kassert (pframe pg \<noteq> None);
     kassert (\<not> is_private pg);
     (d, s) \<leftarrow> page_is_dirty p s;
     let d = (dirty pg \<or> d);
     s \<leftarrow> upd_page p (\<lambda>pg. pg\<lparr>dirty := d\<rparr>) s;
     (success, s) \<leftarrow>
       (if d then
          case pfile pg of
            None \<Rightarrow> do { (idx, s) \<leftarrow> swap_out p s; Some (True, s) }
          | Some fid \<Rightarrow>
              if mmap_id pg = MAP_FAILED then do { (idx, s) \<leftarrow> swap_out p s; Some (True, s) }
              else do {
                f \<leftarrow> files s fid;
                (fo, fs') \<leftarrow> file_reopen wm f (vfs s);
                f \<leftarrow> file_seek (Some f) (file_ofs pg);
                (n, s) \<leftarrow> write_back wm fid pg (s\<lparr>vfs := fs', files := (files s)(fid \<mapsto> f)\<rparr>);
                if n \<noteq> sint (read_bytes pg) then Some (False, s)
                else do {
                  s \<leftarrow> on_paging' (pagedir_set_dirty (pagedir (cur_thread s)) (vaddr pg) False) s;
                  s \<leftarrow> upd_page p (\<lambda>pg. pg\<lparr>dirty := False\<rparr>) s;
                  Some (True, s) } }
        else Some (True, s));
     if success then do {
       s \<leftarrow> on_paging' (pagedir_clear_page (pagedir (cur_thread s)) (vaddr pg)) s;
       s \<leftarrow> upd_page p (\<lambda>pg. pg\<lparr>pframe := None\<rparr>) s;
       Some (True, s) }
     else Some (False, s) }"

section \<open>Frames\<close>

partial_function (option) frame_init_loop :: "vm \<Rightarrow> vm option" where
  "frame_init_loop s = do {
     (kp, s) \<leftarrow> palloc_get_page (PAL_USER OR PAL_ZERO) s;
     if kp = NULL then Some s
     else do {
       let (a, s) = vm_alloc s;
       kassert a;
       frame_init_loop (s\<lparr>frame_table := frame_table s @ [\<lparr>kpage = kp, vpage = None, pinned = False\<rparr>]\<rparr>) } }"

definition frame_init :: "vm \<Rightarrow> vm option" where
  "frame_init s = frame_init_loop (s\<lparr>frame_table := [], clock_hand := None\<rparr>)"

definition frame_release :: "nat \<Rightarrow> vm \<Rightarrow> vm option" where
  "frame_release i s = upd_frame i (\<lambda>f. f\<lparr>vpage := None\<rparr>) s"

text \<open>One sweep of the clock over the frames with the given numbers.\<close>

fun clock_sweep :: "nat list \<Rightarrow> vm \<Rightarrow> (nat option \<times> vm) option" where
  "clock_sweep [] s = Some (None, s)"
| "clock_sweep (i # is) s = do {
     f \<leftarrow> frame_at i s;
     if \<not> pinned f then do {
       p \<leftarrow> vpage f;
       pg \<leftarrow> pages s p;
       if pthread pg = current s then do {
         (accessed, s) \<leftarrow> page_is_accessed p s;
         if accessed then do { s \<leftarrow> page_set_accessed p False s; clock_sweep is s }
         else Some (Some i, s\<lparr>clock_hand := Some i\<rparr>) }
       else clock_sweep is s }
     else clock_sweep is s }"

partial_function (option) clock_loop :: "vm \<Rightarrow> (nat \<times> vm) option" where
  "clock_loop s = do {
     let n = length (frame_table s);
     (found, s) \<leftarrow> clock_sweep [(case clock_hand s of None \<Rightarrow> n | Some i \<Rightarrow> i)..<n] s;
     case found of
       Some i \<Rightarrow> Some (i, s)
     | None \<Rightarrow> clock_loop (s\<lparr>clock_hand := (if n = 0 then None else Some 0)\<rparr>) }"

definition frame_victim :: "write_map \<Rightarrow> nat \<Rightarrow> vm \<Rightarrow> (nat \<times> vm) option" where
  "frame_victim wm p s = do {
     (i, s) \<leftarrow> clock_loop s;
     s \<leftarrow> upd_frame i (\<lambda>f. f\<lparr>pinned := True\<rparr>) s;
     f \<leftarrow> frame_at i s;
     q \<leftarrow> vpage f;
     (success, s) \<leftarrow> page_out wm q s;
     s \<leftarrow> upd_frame i (\<lambda>f. f\<lparr>pinned := False, vpage := Some p\<rparr>) s;
     Some (i, s) }"

fun free_frame :: "nat \<Rightarrow> frame list \<Rightarrow> nat option" where
  "free_frame i [] = None"
| "free_frame i (f # fs) = (if vpage f = None then Some i else free_frame (i + 1) fs)"

definition frame_alloc :: "write_map \<Rightarrow> nat \<Rightarrow> vm \<Rightarrow> (nat \<times> vm) option" where
  "frame_alloc wm p s =
     (case free_frame 0 (frame_table s) of
        Some i \<Rightarrow> do { s \<leftarrow> upd_frame i (\<lambda>f. f\<lparr>vpage := Some p\<rparr>) s; Some (i, s) }
      | None \<Rightarrow> frame_victim wm p s)"

section \<open>Bringing pages in and out\<close>

definition is_stack :: "addr \<Rightarrow> addr \<Rightarrow> bool" where
  "is_stack fault_addr esp =
     (if fault_addr > PHYS_BASE then False
      else fault_addr > PHYS_BASE - STACK_SIZE \<and>
           (fault_addr \<ge> esp \<or> fault_addr = esp - 32 \<or> fault_addr = esp - 4))"

text \<open>Filling the frame of a page from swap, with zeros, or from its file.\<close>

definition load_page :: "write_map \<Rightarrow> nat \<Rightarrow> vm \<Rightarrow> (bool \<times> vm) option" where
  "load_page wm p s = do {
     pg \<leftarrow> pages s p;
     if is_private pg then do { s \<leftarrow> swap_in p s; Some (True, s) }
     else case pfile pg of
       None \<Rightarrow> do {
         s \<leftarrow> set_pin p True s;
         kp \<leftarrow> kpage_of p s;
         s \<leftarrow> set_pin p False (s\<lparr>kmem := fill kp PGSIZE 0 (kmem s)\<rparr>);
         Some (True, s) }
     | Some fid \<Rightarrow> do {
         s \<leftarrow> set_pin p True s;
         kp \<leftarrow> kpage_of p s;
         f \<leftarrow> file_seek (files s fid) (file_ofs pg);
         (d, f, fs') \<leftarrow> file_read wm f (sint (read_bytes pg)) (vfs s);
         let s = s\<lparr>vfs := fs', files := (files s)(fid \<mapsto> f), kmem := put_bytes kp d (kmem s)\<rparr>;
         let success = (int (length d) = sint (read_bytes pg));
         let s = (if success then s\<lparr>kmem := fill (kp + read_bytes pg) (unat (zero_bytes pg)) 0 (kmem s)\<rparr> else s);
         s \<leftarrow> (if writable pg then set_pin p False s else Some s);
         Some (success, s) } }"

text \<open>Entering a loaded page in the page directory of the current process.\<close>

definition map_page :: "nat \<Rightarrow> vm \<Rightarrow> (bool \<times> vm) option" where
  "map_page p s = do {
     pg \<leftarrow> pages s p;
     (ka, s) \<leftarrow> on_paging (pagedir_get_page (pagedir (cur_thread s)) (vaddr pg)) s;
     if ka = NULL then do {
       kp \<leftarrow> kpage_of p s;
       on_paging (pagedir_set_page (pagedir (cur_thread s)) (vaddr pg) kp (writable pg)) s }
     else Some (True, s) }"

definition page_in :: "write_map \<Rightarrow> addr \<Rightarrow> vm \<Rightarrow> (bool \<times> vm) option" where
  "page_in wm va s = do {
     s \<leftarrow> (if is_stack va (stack_pointer (cur_thread s)) then do { (_, s) \<leftarrow> page_alloc va True s; Some s }
           else Some s);
     case page_lookup (current s) (pg_round_down va) s of
       None \<Rightarrow> Some (False, s)
     | Some p \<Rightarrow> do {
         pg \<leftarrow> pages s p;
         kassert (pthread pg = current s);
         s \<leftarrow> (if pframe pg = None then do {
                  (i, s) \<leftarrow> frame_alloc wm p s;
                  upd_page p (\<lambda>pg. pg\<lparr>pframe := Some i\<rparr>) s }
                else Some s);
         (success, s) \<leftarrow> load_page wm p s;
         if success then map_page p s else Some (False, s) } }"

definition page_release :: "nat \<Rightarrow> vm \<Rightarrow> vm option" where
  "page_release p s = do {
     pg \<leftarrow> pages s p;
     s \<leftarrow> (case pframe pg of Some i \<Rightarrow> frame_release i s | None \<Rightarrow> Some s);
     s \<leftarrow> (if is_private pg then swap_clear p s else Some s);
     let s = set_spt (current s) (vaddr pg) None s;
     Some (s\<lparr>pages := (pages s)(p := None)\<rparr>) }"

definition page_destroy :: "nat \<Rightarrow> vm \<Rightarrow> vm option" where
  "page_destroy p s = do {
     pg \<leftarrow> pages s p;
     s \<leftarrow> (case pframe pg of Some i \<Rightarrow> frame_release i s | None \<Rightarrow> Some s);
     s \<leftarrow> (if is_private pg then swap_clear p s else Some s);
     Some (s\<lparr>pages := (pages s)(p := None)\<rparr>) }"

text \<open>
  Pinning a page that is not in memory hands the address of its structure, or a null pointer, to
  \<open>page_in\<close>.
\<close>

definition page_pin :: "write_map \<Rightarrow> addr \<Rightarrow> vm \<Rightarrow> vm option" where
  "page_pin wm page_vaddr s =
     (case page_lookup (current s) page_vaddr s of
        None \<Rightarrow> do { (ok, s) \<leftarrow> page_in wm NULL s; kassert (\<not> ok); Some s }
      | Some p \<Rightarrow> do {
          pg \<leftarrow> pages s p;
          if pframe pg = None then do {
            (ok, s) \<leftarrow> page_in wm (struct_of s p) s;
            if ok then set_pin p True s else Some s }
          else set_pin p True s })"

definition page_unpin :: "addr \<Rightarrow> vm \<Rightarrow> vm option" where
  "page_unpin page_vaddr s = do {
     p \<leftarrow> page_lookup (current s) page_vaddr s;
     pg \<leftarrow> pages s p;
     if pframe pg \<noteq> None then set_pin p False s else Some s }"

definition mmap_get_id :: "int \<Rightarrow> vm \<Rightarrow> mmap option" where
  "mmap_get_id mapid s = find (\<lambda>m. m_id m = mapid) (mmap_list (cur_thread s))"

definition munmap_page :: "write_map \<Rightarrow> addr \<Rightarrow> vm \<Rightarrow> vm option" where
  "munmap_page wm upage s =
     (case page_lookup (current s) upage s of
        None \<Rightarrow> Some s
      | Some p \<Rightarrow> do {
          pg \<leftarrow> pages s p;
          s \<leftarrow> (if pframe pg \<noteq> None then do {
                   (d, s) \<leftarrow> page_is_dirty p s;
                   if d then do { fid \<leftarrow> pfile pg; (n, s) \<leftarrow> write_back wm fid pg s; Some s } else Some s }
                 else Some s);
          page_release p s })"

fun munmap_loop :: "write_map \<Rightarrow> nat \<Rightarrow> addr \<Rightarrow> vm \<Rightarrow> vm option" where
  "munmap_loop wm r upage s =
     (if r > 0 then do {
        s \<leftarrow> munmap_page wm upage s;
        munmap_loop wm (r - min r PGSIZE) (upage + 4096) s }
      else Some s)"

definition page_munmap :: "write_map \<Rightarrow> mmap \<Rightarrow> vm \<Rightarrow> vm option" where
  "page_munmap wm mm s = munmap_loop wm (unat (m_length mm)) (m_vaddr mm) s"

declare munmap_loop.simps [simp del]

section \<open>Page faults\<close>

text \<open>
  The parts of the interrupt frame that the handler looks at or changes. Leaving the handler
  resumes the interrupted code; \<open>Thread_exit\<close> is the call of \<open>thread_exit\<close>, which does not return.
\<close>

abbreviation (input) SEL_UCSEG :: "16 word" where "SEL_UCSEG \<equiv> 0x1b"
abbreviation (input) SEL_KCSEG :: "16 word" where "SEL_KCSEG \<equiv> 8"

record intr_frame =
  error_code :: u32
  cs :: "16 word"
  eip :: addr
  esp :: addr
  eax :: u32

datatype outcome = Resume | Thread_exit

definition upd_current :: "(uthread \<Rightarrow> uthread) \<Rightarrow> vm \<Rightarrow> vm" where
  "upd_current g s = s\<lparr>uthreads := (uthreads s)(current s := g (uthreads s (current s)))\<rparr>"

definition kill :: "intr_frame \<Rightarrow> vm \<Rightarrow> (outcome \<times> intr_frame \<times> vm) option" where
  "kill f s =
     (if cs f = SEL_UCSEG then Some (Thread_exit, f, s)
      else if cs f = SEL_KCSEG then None
      else Some (Thread_exit, f, s))"

definition page_fault :: "write_map \<Rightarrow> addr \<Rightarrow> intr_frame \<Rightarrow> vm \<Rightarrow> (outcome \<times> intr_frame \<times> vm) option" where
  "page_fault wm fault_addr f s = do {
     let s = s\<lparr>page_fault_cnt := page_fault_cnt s + 1\<rparr>;
     let not_present = (error_code f AND 1 = 0);
     let s = (if cs f = SEL_UCSEG then upd_current (\<lambda>t. t\<lparr>stack_pointer := esp f\<rparr>) s else s);
     if not_present \<and> is_user_vaddr fault_addr then do {
       (success, s) \<leftarrow> page_in wm fault_addr s;
       if success then Some (Resume, f, s)
       else Some (Thread_exit, f, upd_current (\<lambda>t. t\<lparr>exit_code := - 1, is_exited := False\<rparr>) s) }
     else if \<not> not_present then
       Some (Thread_exit, f\<lparr>eip := eax f, eax := 0xffffffff\<rparr>,
             upd_current (\<lambda>t. t\<lparr>exit_code := - 1, is_exited := False\<rparr>) s)
     else kill f s }"

end
