(* ===== verification/Vm_Example.thy ===== *)
theory Vm_Example
  imports Vm Fs_Example
begin

text \<open>
  A small state for the examples: one process with a dirty page of its stack in the first of two frames,
  and a swap device with room for one page, whose bitmap is the argument.
\<close>

definition demo_page :: page where
  "demo_page = \<lparr>vaddr = 0x08048000, pframe = Some 0, pthread = 0, is_private = False, dirty = True, pfile = None, file_ofs = 0,
     read_bytes = 0, zero_bytes = 0, writable = True, mmap_id = MAP_FAILED, swap_slot = - 1\<rparr>"

definition demo_thread :: uthread where
  "demo_thread = \<lparr>pagedir = 0xc0101000, stack_pointer = 0xbffff000, exit_code = 0, is_exited = False,
     supplemental_pages = [0x08048000 \<mapsto> 0], mmap_list = []\<rparr>"

definition demo_vm :: "u32 \<Rightarrow> vm" where
  "demo_vm w =
     \<lparr>kernel_pool = kernel_pool small_pools, user_pool = user_pool small_pools, kmem = (\<lambda>a. if a = 0xc0106005 then 7 else 0),
      init_page_dir = 0xc0100000, init_ram_pages = 0x200, cr3 = 0x101000, tlb = Map.empty,
      swap_device = \<lparr>btype = BLOCK_SWAP, bsize = 8, read_cnt = 0, write_cnt = 0, contents = blank\<rparr>,
      swap_bitmap = \<lparr>bit_cnt = 8, bits = [w]\<rparr>,
      frame_table = [\<lparr>kpage = 0xc0106000, vpage = Some 0, pinned = False\<rparr>, \<lparr>kpage = 0xc0107000, vpage = None, pinned = True\<rparr>],
      clock_hand = None, pages = [0 \<mapsto> demo_page], next_page = 1, struct_of = (\<lambda>_. 0xc0102000), page_fault_cnt = 0,
      uthreads = (\<lambda>_. demo_thread), current = 0, files = Map.empty, vfs = demo two_sectors blank, vm_allocs = []\<rparr>"

lemma demo_dirs: "dirs_ok {0xc0101000} (demo_vm w)" "\<And>va. is_user_vaddr va \<Longrightarrow> pte_of (demo_vm w) 0xc0101000 va = 0"
    "free_run False (demo_vm w) 1"
proof -
  have p: "pools_ok (demo_vm w)"
    by (simp add: demo_vm_def small_pools_def pools_ok_def pool_ok_def bitmap_ok_def size_of_def)
  have t: "table_page (demo_vm w) 0xc0101000"
    by (simp add: table_page_def group_def page_used_def the_pool_def demo_vm_def small_pools_def size_of_def bitv_def)
  have z: "read_word (kmem (demo_vm w)) (slot_addr 0xc0101000 i) = 0" if "i < 1024" for i
  proof -
    have "unat (slot_addr 0xc0101000 i) = unat (0xc0101000 :: u32) + 4 * i" using that by (intro unat_slot) (simp_all add: aligned_def)
    then have "read_word (kmem (demo_vm w)) (slot_addr 0xc0101000 i) = read_word (\<lambda>_. 0) (slot_addr 0xc0101000 i)"
      using that by (intro read_word_cong) (auto simp: demo_vm_def)
    then show ?thesis by (simp add: read_word_def word_of_bytes_def)
  qed
  show e: "pte_of (demo_vm w) 0xc0101000 va = 0" if "is_user_vaddr va" for va
    using z [of "pdi va"] that by (simp add: pte_of_def user_pdi)
  show "dirs_ok {0xc0101000} (demo_vm w)" using p t z e by (auto simp: dirs_ok_def)
  have "run_of (used_map (the_pool False (demo_vm w))) 1 1 False"
    by (simp add: run_of_def the_pool_def demo_vm_def small_pools_def size_of_def bitv_def bit_1_iff)
  then show "free_run False (demo_vm w) 1" using free_run_iff [OF pools_okD [OF p, of False], of 1] by auto
qed

end
