(* ===== verification/Vm_Swap.thy ===== *)
theory Vm_Swap
  imports Vm_Example
begin

text \<open>
  The swap device keeps the pages that are written to it: the slots of different pages are
  disjoint, and reading a page back gives the bytes that were written.
\<close>

section \<open>Bytes of a page\<close>

lemma put_bytes_Nil [simp]: "put_bytes p [] m = m"
  by (rule ext) (auto simp: put_bytes_def)

lemma put_bytes_append:
  assumes "unat p + length a + length b \<le> 2 ^ 32"
  shows "put_bytes (p + of_nat (length a)) b (put_bytes p a m) = put_bytes p (a @ b) m"
proof (cases "b = []")
  case False
  then have "unat p + length a < 2 ^ 32" using assms by (cases b) auto
  then have "unat (p + of_nat (length a)) = unat p + length a" by (rule unat_add_of_nat)
  then show ?thesis by (auto simp: put_bytes_def fun_eq_iff nth_append)
qed simp

lemma get_bytes_split:
  "get_bytes p (m + n) mem = get_bytes p m mem @ get_bytes (p + of_nat m) n mem"
  by (rule nth_equalityI) (auto simp: get_bytes_def nth_append add.assoc simp flip: of_nat_add)

lemma get_bytes_chunks: "concat (map (\<lambda>i. get_bytes (p + of_nat (c * i)) c m) [0..<n]) = get_bytes p (c * n) m"
  by (induction n) (simp_all add: get_bytes_def [of p 0] get_bytes_split add.commute [of c])

lemma put_bytes_chunks:
  assumes "\<And>i. i < n \<Longrightarrow> length (d i) = c" "unat p + c * n \<le> 2 ^ 32"
  shows "foldl (\<lambda>m i. put_bytes (p + of_nat (c * i)) (d i) m) m [0..<n] = put_bytes p (concat (map d [0..<n])) m"
  using assms
proof (induction n)
  case (Suc n)
  have l: "length (concat (map d [0..<n])) = c * n" using Suc.prems(1) by (induction n) auto
  show ?case
    using Suc put_bytes_append [of p "concat (map d [0..<n])" "d n" m] Suc.prems by (simp add: l)
qed simp

section \<open>The loops over the sectors of a page\<close>

lemma swap_read_loop_ok:
  assumes "\<forall>i\<in>set is. idx + of_nat i < bsize (swap_device s)"
  shows "swap_read_loop kp idx is s = Some (s\<lparr>swap_device := (swap_device s)\<lparr>read_cnt := read_cnt (swap_device s) + of_nat (length is)\<rparr>,
    kmem := foldl (\<lambda>m i. put_bytes (kp + of_nat (512 * i)) (contents (swap_device s) (idx + of_nat i)) m) (kmem s) is\<rparr>)"
  using assms
proof (induction "is" arbitrary: s)
  case (Cons i "is")
  let ?s = "s\<lparr>swap_device := (swap_device s)\<lparr>read_cnt := read_cnt (swap_device s) + 1\<rparr>,
    kmem := put_bytes (kp + of_nat (512 * i)) (contents (swap_device s) (idx + of_nat i)) (kmem s)\<rparr>"
  have "swap_read_loop kp idx (i # is) s = swap_read_loop kp idx is ?s"
    using Cons.prems by (simp add: block_read_def check_sector_def)
  then show ?case using Cons.IH [of ?s] Cons.prems by (simp add: add.assoc)
qed simp

lemma swap_write_loop_ok:
  assumes "\<forall>i\<in>set is. idx + of_nat i < bsize (swap_device s)" "btype (swap_device s) \<noteq> BLOCK_FOREIGN"
    and "distinct is" "inj_on (\<lambda>i. idx + of_nat i) (set is)"
  shows "\<exists>dev. swap_write_loop kp idx is s = Some (s\<lparr>swap_device := dev\<rparr>)
    \<and> bsize dev = bsize (swap_device s) \<and> btype dev = btype (swap_device s)
    \<and> (\<forall>i\<in>set is. contents dev (idx + of_nat i) = get_bytes (kp + of_nat (512 * i)) 512 (kmem s))
    \<and> (\<forall>x. x \<notin> (\<lambda>i. idx + of_nat i) ` set is \<longrightarrow> contents dev x = contents (swap_device s) x)"
  using assms
proof (induction "is" arbitrary: s)
  case Nil
  then show ?case by (intro exI [of _ "swap_device s"]) simp
next
  case (Cons i "is")
  let ?w = "get_bytes (kp + of_nat (512 * i)) 512 (kmem s)"
  define d where "d = (swap_device s)\<lparr>contents := (contents (swap_device s))(idx + of_nat i := ?w), write_cnt := write_cnt (swap_device s) + 1\<rparr>"
  have step: "swap_write_loop kp idx (i # is) s = swap_write_loop kp idx is (s\<lparr>swap_device := d\<rparr>)"
    using Cons.prems by (simp add: block_write_def check_sector_def d_def)
  have same: "bsize d = bsize (swap_device s)" "btype d = btype (swap_device s)" by (simp_all add: d_def)
  have "inj_on (\<lambda>i. idx + of_nat i) (set is)" using Cons.prems(4) by (auto simp: inj_on_def)
  then obtain dev where dev: "swap_write_loop kp idx is (s\<lparr>swap_device := d\<rparr>) = Some (s\<lparr>swap_device := dev\<rparr>)"
      "bsize dev = bsize (swap_device s)" "btype dev = btype (swap_device s)"
      "\<forall>j\<in>set is. contents dev (idx + of_nat j) = get_bytes (kp + of_nat (512 * j)) 512 (kmem s)"
      "\<forall>x. x \<notin> (\<lambda>i. idx + of_nat i) ` set is \<longrightarrow> contents dev x = contents d x"
    using Cons.IH [of "s\<lparr>swap_device := d\<rparr>"] Cons.prems same by auto
  have "idx + of_nat i \<notin> (\<lambda>i. idx + of_nat i) ` set is"
    using Cons.prems(3,4) by (auto simp: inj_on_def)
  then have "contents dev (idx + of_nat i) = ?w" using dev(5) by (simp add: d_def)
  moreover have "contents dev x = contents (swap_device s) x" if "x \<notin> (\<lambda>i. idx + of_nat i) ` set (i # is)" for x
    using dev(5) that by (simp add: d_def)
  ultimately show ?case unfolding step using dev by (intro exI [of _ dev]) auto
qed

section \<open>The invariant\<close>

text \<open>The sectors of a page that is swapped out.\<close>

definition slots :: "page \<Rightarrow> nat set" where
  "slots pg = {unat (swap_slot pg)..<unat (swap_slot pg) + 8}"

definition on_swap :: "vm \<Rightarrow> page \<Rightarrow> bytes" where
  "on_swap s pg = concat (map (\<lambda>i. contents (swap_device s) (swap_slot pg + of_nat i)) [0..<8])"

definition out :: "vm \<Rightarrow> nat \<Rightarrow> page \<Rightarrow> bool" where
  "out s q pg \<longleftrightarrow> pages s q = Some pg \<and> is_private pg"

definition swap_ok :: "vm \<Rightarrow> bool" where
  "swap_ok s \<longleftrightarrow> bitmap_ok (swap_bitmap s) \<and> bit_cnt (swap_bitmap s) = bsize (swap_device s)
     \<and> btype (swap_device s) \<noteq> BLOCK_FOREIGN
     \<and> (\<forall>q pg. out s q pg \<longrightarrow> unat (swap_slot pg) + 8 \<le> size_of (swap_bitmap s)
          \<and> (\<forall>j\<in>slots pg. bitv (swap_bitmap s) j)
          \<and> (\<forall>i<8. length (contents (swap_device s) (swap_slot pg + of_nat i)) = 512))
     \<and> (\<forall>q pg q' pg'. out s q pg \<longrightarrow> out s q' pg' \<longrightarrow> q \<noteq> q' \<longrightarrow> slots pg \<inter> slots pg' = {})"

lemma swap_okD:
  assumes "swap_ok s"
  shows "bitmap_ok (swap_bitmap s)" "bit_cnt (swap_bitmap s) = bsize (swap_device s)" "btype (swap_device s) \<noteq> BLOCK_FOREIGN"
    "\<And>q pg. out s q pg \<Longrightarrow> unat (swap_slot pg) + 8 \<le> size_of (swap_bitmap s)"
    "\<And>q pg j. out s q pg \<Longrightarrow> j \<in> slots pg \<Longrightarrow> bitv (swap_bitmap s) j"
    "\<And>q pg i. out s q pg \<Longrightarrow> i < 8 \<Longrightarrow> length (contents (swap_device s) (swap_slot pg + of_nat i)) = 512"
    "\<And>q pg q' pg'. out s q pg \<Longrightarrow> out s q' pg' \<Longrightarrow> q \<noteq> q' \<Longrightarrow> slots pg \<inter> slots pg' = {}"
  using assms unfolding swap_ok_def by blast+

text \<open>A page in a frame of the frame table.\<close>

definition in_frame :: "vm \<Rightarrow> nat \<Rightarrow> nat \<Rightarrow> addr \<Rightarrow> bool" where
  "in_frame s p i k \<longleftrightarrow> (\<exists>pg. pages s p = Some pg \<and> pframe pg = Some i) \<and> i < length (frame_table s)
     \<and> kpage (frame_table s ! i) = k \<and> aligned k"

lemma in_frameD:
  assumes "in_frame s p i k"
  shows "kpage_of p s = Some k" "set_pin p b s = Some (s\<lparr>frame_table := (frame_table s)[i := (frame_table s ! i)\<lparr>pinned := b\<rparr>]\<rparr>)"
  using assms by (auto simp: in_frame_def kpage_of_def set_pin_def upd_frame_def frame_at_def)

lemma sector_number:
  assumes "unat idx + 8 \<le> size_of b" "i < 8"
  shows "unat (idx + of_nat i) = unat idx + i" "bit_cnt b = n \<Longrightarrow> idx + of_nat i < n"
proof -
  have "unat idx + i < 2 ^ 32" using assms size_of_bound [of b] by linarith
  then show u: "unat (idx + of_nat i) = unat idx + i" by (rule unat_add_of_nat)
  show "idx + of_nat i < n" if "bit_cnt b = n" using assms that u by (auto simp: word_less_nat_alt size_of_def)
qed

section \<open>Writing a page to swap\<close>

lemma swap_all:
  assumes "swap_ok s" "out s p pg"
  shows "bitmap_all (swap_bitmap s) (swap_slot pg) 8 = Some True"
  using bitmap_contains_spec [OF swap_okD(1) [OF assms(1)], of "swap_slot pg" 8 False] swap_okD(4,5) [OF assms]
  by (auto simp: bitmap_all_def slots_def)

lemma swapped_other:
  assumes "swap_ok s" "out s q pq" "slots pq \<inter> A = {}"
    and "\<And>x. unat x \<notin> A \<Longrightarrow> contents d x = contents (swap_device s) x"
  shows "concat (map (\<lambda>i. contents d (swap_slot pq + of_nat i)) [0..<8]) = on_swap s pq"
    "\<forall>i<8. contents d (swap_slot pq + of_nat i) = contents (swap_device s) (swap_slot pq + of_nat i)"
proof -
  have "unat (swap_slot pq + of_nat i) \<notin> A" if "i < 8" for i
    using sector_number(1) [OF swap_okD(4) [OF assms(1,2)] that] that disjoint_iff [THEN iffD1, OF assms(3)] by (auto simp: slots_def)
  then show c: "\<forall>i<8. contents d (swap_slot pq + of_nat i) = contents (swap_device s) (swap_slot pq + of_nat i)"
    using assms(4) by blast
  then show "concat (map (\<lambda>i. contents d (swap_slot pq + of_nat i)) [0..<8]) = on_swap s pq"
    by (auto simp: on_swap_def intro!: arg_cong [of _ _ concat])
qed

text \<open>The state after a page was written to the slots from \<open>idx\<close> on.\<close>

definition swapped_out :: "vm \<Rightarrow> nat \<Rightarrow> nat \<Rightarrow> u32 \<Rightarrow> bitmap \<Rightarrow> block \<Rightarrow> vm" where
  "swapped_out s p i idx b dev = s\<lparr>swap_bitmap := b, swap_device := dev,
     frame_table := (frame_table s)[i := (frame_table s ! i)\<lparr>pinned := False\<rparr>],
     pages := (pages s)(p \<mapsto> (the (pages s p))\<lparr>is_private := True, swap_slot := idx, pframe := None\<rparr>)\<rparr>"

lemma swap_out_full:
  assumes "swap_ok s" "\<nexists>j. run_of (swap_bitmap s) j 8 False"
  shows "swap_out p s = Some (BITMAP_ERROR, s)"
  using bitmap_scan_and_flip_none [OF swap_okD(1) [OF assms(1)], of 0 8 False] assms(2) by (simp add: swap_out_def)

lemma swap_out_run:
  assumes "swap_ok s" "in_frame s p i k" "\<exists>j. run_of (swap_bitmap s) j 8 False"
  shows "\<exists>idx b dev. swap_out p s = Some (idx, swapped_out s p i idx b dev) \<and> idx \<noteq> BITMAP_ERROR
    \<and> run_of (swap_bitmap s) (unat idx) 8 False \<and> flipped (swap_bitmap s) (unat idx) 8 True b
    \<and> bsize dev = bsize (swap_device s) \<and> btype dev = btype (swap_device s)
    \<and> (\<forall>n<8. contents dev (idx + of_nat n) = get_bytes (k + of_nat (512 * n)) 512 (kmem s))
    \<and> (\<forall>x. unat x \<notin> {unat idx..<unat idx + 8} \<longrightarrow> contents dev x = contents (swap_device s) x)"
proof -
  obtain j b where sc: "bitmap_scan_and_flip (swap_bitmap s) 0 8 False = Some (of_nat j, b)" "unat (of_nat j :: u32) = j"
      "(of_nat j :: u32) \<noteq> BITMAP_ERROR" "run_of (swap_bitmap s) j 8 False" "flipped (swap_bitmap s) j 8 True b"
    using bitmap_scan_and_flip_some [OF swap_okD(1) [OF assms(1)], of 0 8 False] assms(3) by auto
  let ?idx = "of_nat j :: u32"
  note num = sector_number [of ?idx "swap_bitmap s", unfolded sc(2)]
  have le: "j + 8 \<le> size_of (swap_bitmap s)" using sc(4) by (simp add: run_of_def)
  have img: "x \<in> (\<lambda>i. ?idx + of_nat i) ` set [0..<8] \<longleftrightarrow> unat x \<in> {j..<j + 8}" for x
  proof
    assume "unat x \<in> {j..<j + 8}"
    then have "x = ?idx + of_nat (unat x - j)" using num(1) [OF le, of "unat x - j"] by (auto simp: word_eq_iff_unsigned)
    then show "x \<in> (\<lambda>i. ?idx + of_nat i) ` set [0..<8]" using \<open>unat x \<in> {j..<j + 8}\<close> by (intro image_eqI [of _ _ "unat x - j"]) auto
  qed (use num(1) [OF le] in auto)
  let ?s1 = "s\<lparr>swap_bitmap := b, frame_table := (frame_table s)[i := (frame_table s ! i)\<lparr>pinned := True\<rparr>]\<rparr>"
  have "inj_on (\<lambda>i. ?idx + of_nat i) (set [0..<8])"
    using num(1) [OF le] by (intro inj_onI) (metis add_left_cancel atLeastLessThan_iff set_upt)
  then obtain dev where dev: "swap_write_loop k ?idx [0..<8] ?s1 = Some (?s1\<lparr>swap_device := dev\<rparr>)"
      "bsize dev = bsize (swap_device s)" "btype dev = btype (swap_device s)"
      "\<forall>n\<in>set [0..<8]. contents dev (?idx + of_nat n) = get_bytes (k + of_nat (512 * n)) 512 (kmem s)"
      "\<forall>x. x \<notin> (\<lambda>i. ?idx + of_nat i) ` set [0..<8] \<longrightarrow> contents dev x = contents (swap_device s) x"
    using swap_write_loop_ok [of "[0..<8]" ?idx ?s1 k] num(2) [OF le] swap_okD(2,3) [OF assms(1)] by auto
  have fr: "in_frame (s\<lparr>swap_bitmap := b\<rparr>) p i k" "in_frame (?s1\<lparr>swap_device := dev\<rparr>) p i k"
    using assms(2) by (auto simp: in_frame_def)
  have i: "i < length (frame_table s)" using assms(2) by (simp add: in_frame_def)
  have "swap_out p s = Some (?idx, swapped_out s p i ?idx b dev)"
    using sc(1,3) in_frameD [OF fr(1)] in_frameD(2) [OF fr(2)] dev(1) assms(2) i
    by (auto simp: swap_out_def swapped_out_def upd_page_def in_frame_def)
  then show ?thesis
    using sc dev(2-5) unfolding img by (intro exI [of _ ?idx] exI [of _ b] exI [of _ dev]) auto
qed

lemma swap_ok_out:
  assumes "swap_ok s" "pages s p = Some pg" "\<not> is_private pg" "run_of (swap_bitmap s) (unat idx) 8 False"
    and "flipped (swap_bitmap s) (unat idx) 8 True b" "bsize dev = bsize (swap_device s)" "btype dev = btype (swap_device s)"
    and "\<forall>n<8. contents dev (idx + of_nat n) = get_bytes (k + of_nat (512 * n)) 512 (kmem s)"
    and "\<forall>x. unat x \<notin> {unat idx..<unat idx + 8} \<longrightarrow> contents dev x = contents (swap_device s) x"
  shows "swap_ok (swapped_out s p i idx b dev)"
    "\<And>q pq. q \<noteq> p \<Longrightarrow> out s q pq \<Longrightarrow> on_swap (swapped_out s p i idx b dev) pq = on_swap s pq"
proof -
  let ?s = "swapped_out s p i idx b dev"
  let ?pg = "pg\<lparr>is_private := True, swap_slot := idx, pframe := None\<rparr>"
  have oi: "out ?s q pq \<longleftrightarrow> (if q = p then pq = ?pg else out s q pq)" for q pq
    using assms(2) by (auto simp: out_def swapped_out_def)
  have new: "slots ?pg = {unat idx..<unat idx + 8}" by (simp add: slots_def)
  have apart: "slots pq \<inter> {unat idx..<unat idx + 8} = {}" if "out s q pq" for q pq
    using swap_okD(5) [OF assms(1) that] assms(4) by (auto simp: run_of_def)
  have bits: "bitv b j = (if j \<in> {unat idx..<unat idx + 8} then True else bitv (swap_bitmap s) j)" for j
    using assms(5) by (simp add: flipped_def)
  have b: "bitmap_ok b" "bit_cnt b = bit_cnt (swap_bitmap s)" "size_of b = size_of (swap_bitmap s)"
    using assms(5) by (simp_all add: flipped_def size_of_def)
  have sec: "\<forall>n<8. contents dev (swap_slot pq + of_nat n) = contents (swap_device s) (swap_slot pq + of_nat n)"
      and sw: "on_swap ?s pq = on_swap s pq" if "out s q pq" for q pq
    using swapped_other [OF assms(1) that apart [OF that], of dev] assms(9) by (auto simp: on_swap_def swapped_out_def)
  show "on_swap ?s pq = on_swap s pq" if "q \<noteq> p" "out s q pq" for q pq using sw [OF that(2)] .
  have one: "unat (swap_slot pq) + 8 \<le> size_of b \<and> (\<forall>j\<in>slots pq. bitv b j)
      \<and> (\<forall>n<8. length (contents dev (swap_slot pq + of_nat n)) = 512)" if "out ?s q pq" for q pq
  proof (cases "q = p")
    case True
    then have "pq = ?pg" using that oi by simp
    then show ?thesis using assms(4,8) bits b(3) new by (simp add: run_of_def get_bytes_def)
  next
    case False
    then have o: "out s q pq" using that oi by simp
    then show ?thesis using swap_okD(4-6) [OF assms(1) o] sec [OF o] bits b(3) by simp
  qed
  have "slots pq \<inter> slots pq' = {}" if "out ?s q pq" "out ?s q' pq'" "q \<noteq> q'" for q pq q' pq'
    using that swap_okD(7) [OF assms(1), of q pq q' pq'] apart [of q pq] apart [of q' pq'] new
    unfolding oi by (auto split: if_splits)
  then show "swap_ok ?s"
    using one b swap_okD(2,3) [OF assms(1)] assms(6,7) unfolding swap_ok_def by (auto simp: swapped_out_def)
qed

section \<open>Reading a page back\<close>

definition swapped_in :: "vm \<Rightarrow> nat \<Rightarrow> nat \<Rightarrow> addr \<Rightarrow> bitmap \<Rightarrow> vm" where
  "swapped_in s p i k b = s\<lparr>swap_bitmap := b, swap_device := (swap_device s)\<lparr>read_cnt := read_cnt (swap_device s) + 8\<rparr>,
     kmem := put_bytes k (on_swap s (the (pages s p))) (kmem s),
     frame_table := (frame_table s)[i := (frame_table s ! i)\<lparr>pinned := False\<rparr>],
     pages := (pages s)(p \<mapsto> (the (pages s p))\<lparr>is_private := False, swap_slot := - 1\<rparr>)\<rparr>"

lemma swap_in_ok:
  assumes "swap_ok s" "in_frame s p i k" "out s p pg"
  shows "\<exists>b. swap_in p s = Some (swapped_in s p i k b) \<and> flipped (swap_bitmap s) (unat (swap_slot pg)) 8 False b"
proof -
  note ok = swap_okD [OF assms(1)]
  note le = ok(4) [OF assms(3)]
  have pg: "pages s p = Some pg" "is_private pg" using assms(3) by (simp_all add: out_def)
  have k: "unat k + 512 * 8 \<le> 2 ^ 32" using assms(2) aligned_top [of k] by (simp add: in_frame_def)
  have ne: "swap_slot pg \<noteq> BITMAP_ERROR"
  proof
    assume "swap_slot pg = BITMAP_ERROR"
    then have "unat (swap_slot pg) = 2 ^ 32 - 1" by (simp add: unsigned_minus_1_eq_mask mask_eq_exp_minus_1)
    then show False using le size_of_bound [of "swap_bitmap s"] by simp
  qed
  let ?s1 = "s\<lparr>frame_table := (frame_table s)[i := (frame_table s ! i)\<lparr>pinned := True\<rparr>]\<rparr>"
  let ?dev = "(swap_device s)\<lparr>read_cnt := read_cnt (swap_device s) + 8\<rparr>"
  let ?s2 = "?s1\<lparr>swap_device := ?dev, kmem := put_bytes k (on_swap s pg) (kmem s)\<rparr>"
  have "swap_read_loop k (swap_slot pg) [0..<8] ?s1 = Some ?s2"
    using swap_read_loop_ok [of "[0..<8]" "swap_slot pg" ?s1 k] sector_number(2) [OF le _ ok(2)]
      put_bytes_chunks [of 8 "\<lambda>i. contents (swap_device s) (swap_slot pg + of_nat i)" 512 k "kmem s"] ok(6) [OF assms(3)] k
    by (simp add: on_swap_def del: upt_rec_numeral)
  moreover obtain b where b: "bitmap_set_multiple (swap_bitmap s) (swap_slot pg) 8 False = Some b" "bitmap_ok b" "bit_cnt b = bit_cnt (swap_bitmap s)"
      "\<forall>j. bitv b j = (if unat (swap_slot pg) \<le> j \<and> j < unat (swap_slot pg) + 8 then False else bitv (swap_bitmap s) j)"
    using bitmap_set_multiple_spec [OF ok(1), of "swap_slot pg" 8 False] le by auto
  moreover have "in_frame ?s2 p i k" "i < length (frame_table s)" using assms(2) by (auto simp: in_frame_def)
  ultimately have "swap_in p s = Some (swapped_in s p i k b)"
    using pg ne swap_all [OF assms(1,3)] in_frameD [OF assms(2)] in_frameD(2) [of ?s2]
    by (simp add: swap_in_def swapped_in_def upd_page_def del: upt_rec_numeral)
  then show ?thesis using b(2-4) by (auto simp: flipped_def)
qed

lemma swap_ok_in:
  assumes "swap_ok s" "out s p pg" "flipped (swap_bitmap s) (unat (swap_slot pg)) 8 False b"
  shows "swap_ok (swapped_in s p i k b)" "\<And>pq. on_swap (swapped_in s p i k b) pq = on_swap s pq"
proof -
  let ?s = "swapped_in s p i k b"
  show "on_swap ?s pq = on_swap s pq" for pq by (simp add: on_swap_def swapped_in_def)
  have o: "out s q pq \<and> q \<noteq> p" if "out ?s q pq" for q pq
    using that by (auto simp: out_def swapped_in_def split: if_splits)
  have bits: "bitv b j = (j \<notin> slots pg \<and> bitv (swap_bitmap s) j)" for j
    using assms(3) by (simp add: flipped_def slots_def)
  have b: "bitmap_ok b" "bit_cnt b = bit_cnt (swap_bitmap s)" "size_of b = size_of (swap_bitmap s)"
    using assms(3) by (simp_all add: flipped_def size_of_def)
  have one: "unat (swap_slot pq) + 8 \<le> size_of b \<and> (\<forall>j\<in>slots pq. bitv b j)
      \<and> (\<forall>n<8. length (contents (swap_device s) (swap_slot pq + of_nat n)) = 512)" if "out ?s q pq" for q pq
  proof -
    have oq: "out s q pq" "q \<noteq> p" using o [OF that] by simp_all
    have "slots pq \<inter> slots pg = {}" using swap_okD(7) [OF assms(1) oq(1) assms(2) oq(2)] .
    then show ?thesis using swap_okD(4-6) [OF assms(1) oq(1)] bits b(3) by auto
  qed
  have "slots pq \<inter> slots pq' = {}" if "out ?s q pq" "out ?s q' pq'" "q \<noteq> q'" for q pq q' pq'
    using o [OF that(1)] o [OF that(2)] swap_okD(7) [OF assms(1) _ _ that(3)] by blast
  then show "swap_ok ?s"
    using one b swap_okD(2,3) [OF assms(1)] unfolding swap_ok_def by (auto simp: swapped_in_def)
qed

section \<open>Properties\<close>

text \<open>The other pages that are swapped out keep their contents.\<close>

definition others_kept :: "vm \<Rightarrow> nat \<Rightarrow> vm \<Rightarrow> bool" where
  "others_kept s p s' \<longleftrightarrow> (\<forall>q pq. q \<noteq> p \<longrightarrow> out s q pq \<longrightarrow> out s' q pq \<and> on_swap s' pq = on_swap s pq)"

lemma swap_out_stored:
  assumes "swap_ok s" "in_frame s p i k" "pages s p = Some pg" "\<not> is_private pg" "\<exists>j. run_of (swap_bitmap s) j 8 False"
  shows "\<exists>idx b dev. swap_out p s = Some (idx, swapped_out s p i idx b dev) \<and> idx \<noteq> BITMAP_ERROR
    \<and> swap_ok (swapped_out s p i idx b dev) \<and> others_kept s p (swapped_out s p i idx b dev)
    \<and> on_swap (swapped_out s p i idx b dev) (pg\<lparr>is_private := True, swap_slot := idx, pframe := None\<rparr>) = get_bytes k 4096 (kmem s)"
proof -
  from swap_out_run [OF assms(1,2,5)] obtain idx b dev where r: "swap_out p s = Some (idx, swapped_out s p i idx b dev)"
      "idx \<noteq> BITMAP_ERROR" "run_of (swap_bitmap s) (unat idx) 8 False" "flipped (swap_bitmap s) (unat idx) 8 True b"
      "bsize dev = bsize (swap_device s)" "btype dev = btype (swap_device s)"
      "\<forall>n<8. contents dev (idx + of_nat n) = get_bytes (k + of_nat (512 * n)) 512 (kmem s)"
      "\<forall>x. unat x \<notin> {unat idx..<unat idx + 8} \<longrightarrow> contents dev x = contents (swap_device s) x" by blast
  note ok = swap_ok_out [OF assms(1,3,4) r(3-8), where i = i]
  have eq: "map (\<lambda>n. contents dev (idx + of_nat n)) [0..<8] = map (\<lambda>n. get_bytes (k + of_nat (512 * n)) 512 (kmem s)) [0..<8]"
    using r(7) by simp
  have "concat (map (\<lambda>n. contents dev (idx + of_nat n)) [0..<8]) = get_bytes k 4096 (kmem s)"
    unfolding eq get_bytes_chunks by simp
  moreover have "out (swapped_out s p i idx b dev) q pq" if "q \<noteq> p" "out s q pq" for q pq
    using that by (simp add: out_def swapped_out_def)
  ultimately show ?thesis
    using r(1,2) ok by (intro exI [of _ idx] exI [of _ b] exI [of _ dev]) (simp add: others_kept_def on_swap_def [of _ "_\<lparr>pframe := _\<rparr>"] swapped_out_def)
qed

text \<open>
  C25: The swap device is a store of pages. Swapping a page out fails, and then changes nothing,
  only if no eight neighbouring sectors are free; otherwise the bytes of its frame are what the
  device holds for the page. Swapping a page in puts the bytes that the device holds for it into its
  frame, changes no other byte of memory, and frees exactly its sectors. Neither operation
  changes what the device holds for another page.
\<close>

theorem swap_correct:
  assumes "swap_ok s" "in_frame s p i k" "pages s p = Some pg"
  shows "if is_private pg
    then \<exists>s'. swap_in p s = Some s' \<and> swap_ok s' \<and> others_kept s p s' \<and> kmem s' = put_bytes k (on_swap s pg) (kmem s)
         \<and> pages s' p = Some (pg\<lparr>is_private := False, swap_slot := - 1\<rparr>)
         \<and> (\<forall>j. bitv (swap_bitmap s') j \<longleftrightarrow> bitv (swap_bitmap s) j \<and> j \<notin> slots pg)
    else if \<exists>j. run_of (swap_bitmap s) j 8 False
    then \<exists>idx s' pg'. swap_out p s = Some (idx, s') \<and> idx \<noteq> BITMAP_ERROR \<and> swap_ok s' \<and> others_kept s p s' \<and> kmem s' = kmem s
         \<and> out s' p pg' \<and> pframe pg' = None \<and> on_swap s' pg' = get_bytes k 4096 (kmem s)
    else swap_out p s = Some (BITMAP_ERROR, s)"
proof (cases "is_private pg")
  case True
  then have o: "out s p pg" using assms(3) by (simp add: out_def)
  obtain b where b: "swap_in p s = Some (swapped_in s p i k b)" "flipped (swap_bitmap s) (unat (swap_slot pg)) 8 False b"
    using swap_in_ok [OF assms(1,2) o] by blast
  have "\<forall>j. bitv b j \<longleftrightarrow> bitv (swap_bitmap s) j \<and> j \<notin> slots pg" using b(2) by (auto simp: flipped_def slots_def)
  moreover have "others_kept s p (swapped_in s p i k b)"
    using swap_ok_in(2) [OF assms(1) o b(2), of i k] by (auto simp: others_kept_def out_def swapped_in_def)
  ultimately show ?thesis
    using True b(1) swap_ok_in(1) [OF assms(1) o b(2), of i k] assms(3)
    by (auto simp: swapped_in_def intro!: exI [of _ "swapped_in s p i k b"])
next
  case False
  show ?thesis
  proof (cases "\<exists>j. run_of (swap_bitmap s) j 8 False")
    case True
    then obtain idx b dev where r: "swap_out p s = Some (idx, swapped_out s p i idx b dev)" "idx \<noteq> BITMAP_ERROR"
        "swap_ok (swapped_out s p i idx b dev)" "others_kept s p (swapped_out s p i idx b dev)"
        "on_swap (swapped_out s p i idx b dev) (pg\<lparr>is_private := True, swap_slot := idx, pframe := None\<rparr>) = get_bytes k 4096 (kmem s)"
      using swap_out_stored [OF assms False] by blast
    moreover have "out (swapped_out s p i idx b dev) p (pg\<lparr>is_private := True, swap_slot := idx, pframe := None\<rparr>)"
        "kmem (swapped_out s p i idx b dev) = kmem s"
      using assms(3) by (simp_all add: out_def swapped_out_def)
    ultimately show ?thesis using False True by (auto intro!: exI [of _ "pg\<lparr>is_private := True, swap_slot := idx, pframe := None\<rparr>"])
  qed (use swap_out_full [OF assms(1)] False in auto)
qed

lemma demo_swap: "swap_ok (demo_vm w)" "in_frame (demo_vm w) 0 0 0xc0106000" "pages (demo_vm w) 0 = Some demo_page"
proof -
  have "\<not> out (demo_vm w) q pg" for q pg by (auto simp: out_def demo_vm_def demo_page_def)
  then show "swap_ok (demo_vm w)" by (simp add: swap_ok_def) (simp add: demo_vm_def bitmap_ok_def size_of_def)
  show "in_frame (demo_vm w) 0 0 0xc0106000" "pages (demo_vm w) 0 = Some demo_page"
    by (simp_all add: in_frame_def demo_vm_def demo_page_def aligned_def)
qed

lemma demo_room: "run_of (swap_bitmap (demo_vm 0)) 0 8 False" "\<not> run_of (swap_bitmap (demo_vm 0xff)) j 8 False"
proof -
  show "run_of (swap_bitmap (demo_vm 0)) 0 8 False" by (simp add: run_of_def demo_vm_def size_of_def bitv_def)
  show "\<not> run_of (swap_bitmap (demo_vm 0xff)) j 8 False"
  proof
    assume r: "run_of (swap_bitmap (demo_vm 0xff)) j 8 False"
    then have "j = 0" by (simp add: run_of_def demo_vm_def size_of_def)
    then have "\<not> bitv (swap_bitmap (demo_vm 0xff)) 0" using r by (simp add: run_of_def)
    then show False by (simp add: demo_vm_def bitv_def)
  qed
qed

theorem swap_correct_witness:
  "\<exists>idx s' pg'. swap_out 0 (demo_vm 0) = Some (idx, s') \<and> swap_ok s' \<and> out s' 0 pg' \<and> on_swap s' pg' ! 5 = 7"
proof -
  have "get_bytes 0xc0106000 4096 (kmem (demo_vm 0)) ! 5 = 7" by (simp add: get_bytes_def demo_vm_def)
  moreover have np: "\<not> is_private demo_page" by (simp add: demo_page_def)
  have ex: "\<exists>j. run_of (swap_bitmap (demo_vm 0)) j 8 False" using demo_room(1) by blast
  note swap_correct [OF demo_swap [where w = 0], unfolded if_not_P [OF np] if_P [OF ex]]
  ultimately show ?thesis by metis
qed

end
