(* ===== verification/Pagedir_Bits.thy ===== *)
theory Pagedir_Bits
  imports Pagedir
begin

text \<open>
  The accessed and dirty bits of page table entries, and what the operations on page directories
  leave alone: the registers of the processor, the pool of user pages, and every byte of its pages.
\<close>

section \<open>What is left alone\<close>

definition quiet :: "paging \<Rightarrow> paging \<Rightarrow> bool" where
  "quiet s s' \<longleftrightarrow> user_pool s' = user_pool s \<and> init_page_dir s' = init_page_dir s \<and> init_ram_pages s' = init_ram_pages s
     \<and> cr3 s' = cr3 s \<and> (\<forall>a. unat (base (user_pool s)) \<le> unat a \<longrightarrow> kmem s' a = kmem s a)"

lemma quiet_refl [simp]: "quiet s s"
  by (simp add: quiet_def)

lemma quiet_trans: "quiet s t \<Longrightarrow> quiet t u \<Longrightarrow> quiet s u"
  by (auto simp: quiet_def)

lemma quiet_write:
  assumes "pools_ok s" "table_page s t" "i < 1024" "quiet s s1"
  shows "quiet s (s1\<lparr>kmem := write_word (slot_addr t i) w (kmem s1)\<rparr>)"
proof -
  have t: "aligned t" by (rule table_page_aligned [OF assms(2)])
  have "unat t + 4096 \<le> unat (base (user_pool s))"
    using assms(1,2) by (auto simp: table_page_def group_def the_pool_def pools_ok_def)
  then have "unat (slot_addr t i) + 4 \<le> unat a" if "unat (base (user_pool s)) \<le> unat a" for a
    using unat_slot [OF t assms(3)] assms(3) that by linarith
  then have "write_word (slot_addr t i) w m a = m a" if "unat (base (user_pool s)) \<le> unat a" for m a
    using write_word_other [OF slot_word(2) [OF t assms(3)], of a] that by blast
  then show ?thesis using assms(4) by (simp add: quiet_def)
qed

lemma quiet_alloc:
  assumes "pools_ok s" "palloc_get_page PAL_ZERO s = Some (p, s')"
  shows "quiet s s'"
proof (cases "free_run False s 1")
  case True
  then obtain q b where g: "palloc_get_page PAL_ZERO s = Some (q, (set_map False b s)\<lparr>kmem := fill q 4096 0 (kmem s)\<rparr>)" "group False s q 1"
    using palloc_get_ok [OF assms(1), of 1 False PAL_ZERO] by (auto simp: palloc_get_page_def)
  have "unat q + 4096 \<le> unat (base (user_pool s))"
    using assms(1) g(2) by (auto simp: group_def the_pool_def pools_ok_def)
  then show ?thesis using g(1) assms(2) by (auto simp: quiet_def set_map_def fill_other)
next
  case False
  then show ?thesis using palloc_get_none [OF assms(1), of 1 False PAL_ZERO] assms(2) by (simp add: palloc_get_page_def)
qed

lemma quiet_lookup:
  assumes "dirs_ok D s" "pd \<in> D" "is_user_vaddr va" "lookup_page pd va create s = Some (r, s')"
  shows "quiet s s'"
proof (cases "pde s pd (pdi va) = 0 \<and> create")
  case True
  note ok = dirs_okD(1,2) [OF assms(1)]
  have i: "pdi va < 1024" using assms(3) by (simp add: user_pdi)
  obtain p s1 where p: "palloc_get_page PAL_ZERO s = Some (p, s1)"
    using assms(4) True by (auto simp: lookup_page_def slot_pd Let_def bind_eq_Some_conv)
  have q: "quiet s s1" by (rule quiet_alloc [OF ok(1) p])
  show ?thesis
  proof (cases "p = NULL")
    case n: True
    then show ?thesis using assms(4) True p q by (auto simp: lookup_page_def slot_pd Let_def bind_eq_Some_conv)
  next
    case False
    then obtain e where s': "s' = s1\<lparr>kmem := write_word (slot_addr pd (pdi va)) e (kmem s1)\<rparr>"
      using assms(4) True p by (auto simp: lookup_page_def slot_pd Let_def bind_eq_Some_conv)
    show ?thesis unfolding s' by (rule quiet_write [OF ok(1) ok(2) [OF assms(2)] i q])
  qed
next
  case False
  then show ?thesis using assms(4) by (auto simp: lookup_page_def slot_pd Let_def bind_eq_Some_conv split: if_splits)
qed

lemma quiet_invalidate:
  assumes "dirs_ok D s" "pd \<in> D" "invalidate_pagedir pd s = Some s'"
  shows "quiet s s'"
proof -
  note k = kernel_page_phys [OF table_page_kernel [OF dirs_okD(1,2) [OF assms(1)], OF assms(2)]]
  have "cr3 s = pd - PHYS_BASE" if "cr3 s + PHYS_BASE = pd" using that by (metis add_diff_cancel_right')
  then show ?thesis using assms(3) k
    by (auto simp: invalidate_pagedir_def active_pd_def ptov_def pagedir_activate_def quiet_def bind_eq_Some_conv split: if_splits)
qed

lemma quiet_entry:
  assumes "dirs_ok D s" "pd \<in> D" "is_user_vaddr va" "pde s pd (pdi va) \<noteq> 0"
  shows "quiet s (s\<lparr>kmem := write_word (slot_addr (page_of (pde s pd (pdi va))) (pti va)) w (kmem s)\<rparr>)"
  using assms by (intro quiet_write dirs_okD(1) [OF assms(1)] page_table(1) pti_val(2) quiet_refl) (simp_all add: user_pdi)

lemma quiet_set_page:
  assumes "dirs_ok D s" "pd \<in> D" "pagedir_set_page pd upage kpage w s = Some (ok, s')"
  shows "quiet s s'"
proof -
  obtain r s1 where l: "is_user_vaddr upage" "lookup_page pd upage True s = Some (r, s1)"
      and s': "s' = s1 \<or> r \<noteq> NULL \<and> (\<exists>e. s' = s1\<lparr>kmem := write_word r e (kmem s1)\<rparr>)"
    using assms(3) by (auto simp: pagedir_set_page_def bind_eq_Some_conv split: if_splits)
  note q = quiet_lookup [OF assms(1,2) l]
  obtain r' s2 where "lookup_page pd upage True s = Some (r', s2)" "r' = NULL \<and> s2 = s \<or> r' \<noteq> NULL \<and> dirs_ok D s2
      \<and> pde s2 pd (pdi upage) \<noteq> 0 \<and> r' = slot_addr (page_of (pde s2 pd (pdi upage))) (pti upage)"
    using lookup_page_create [OF assms(1,2) l(1)] by blast
  then have "r = NULL \<or> dirs_ok D s1 \<and> pde s1 pd (pdi upage) \<noteq> 0 \<and> r = slot_addr (page_of (pde s1 pd (pdi upage))) (pti upage)"
    using l(2) by auto
  then show ?thesis using s' q quiet_trans [OF q] quiet_entry [OF _ assms(2) l(1)] by auto
qed

section \<open>The bits of an entry\<close>

lemma pte_bit_ok:
  assumes "dirs_ok D s" "pd \<in> D" "is_user_vaddr va"
  shows "pte_bit b pd va s = Some (pte_of s pd va AND b \<noteq> 0, s)"
  using lookup_page_read [OF assms] by (auto simp: pte_bit_def pte_of_def)

lemma clear_pte_bit_ok:
  assumes "dirs_ok D s" "pd \<in> D" "is_user_vaddr va" "cr3 s < PHYS_BASE" "b AND PTE_ADDR = 0"
  shows "\<exists>s'. set_pte_bit b pd va False s = Some s' \<and> dirs_ok D s' \<and> quiet s s'
    \<and> (\<forall>pd'\<in>D. \<forall>vb. is_user_vaddr vb \<longrightarrow>
         pte_of s' pd' vb = (if pd' = pd \<and> pg_round_down vb = pg_round_down va then pte_of s pd va AND NOT b else pte_of s pd' vb))"
proof (cases "pde s pd (pdi va) = 0")
  case True
  then have z: "pte_of s pd va = 0" by (simp add: pte_of_def)
  have "set_pte_bit b pd va False s = Some s" using lookup_page_read [OF assms(1-3)] True by (simp add: set_pte_bit_def)
  moreover have "pte_of s pd' vb = (if pd' = pd \<and> pg_round_down vb = pg_round_down va then pte_of s pd va AND NOT b else pte_of s pd' vb)" for pd' vb
    using pte_of_page [of vb va s pd] z by auto
  ultimately show ?thesis using assms(1) by auto
next
  case False
  let ?r = "slot_addr (page_of (pde s pd (pdi va))) (pti va)" and ?w = "pte_of s pd va AND NOT b"
  define s1 where "s1 = s\<lparr>kmem := write_word ?r ?w (kmem s)\<rparr>"
  have "?w AND PTE_ADDR = pte_of s pd va AND PTE_ADDR AND NOT (b AND PTE_ADDR)"
    by (rule bit_word_eqI) (auto simp: bit_simps)
  then have "?w AND PTE_ADDR < PHYS_BASE" using dirs_okD(5) [OF assms(1-3)] assms(5) by simp
  note pw = pte_write [OF assms(1-3) False this s1_def]
  have "read_word (kmem s) ?r = pte_of s pd va" using False by (simp add: pte_of_def)
  then have "set_pte_bit b pd va False s = invalidate_pagedir pd s1"
    using lookup_page_read [OF assms(1-3)] False by (simp add: set_pte_bit_def s1_def)
  moreover obtain s' where s': "invalidate_pagedir pd s1 = Some s'" "kmem s' = kmem s1" "\<forall>u. the_pool u s' = the_pool u s1"
    using invalidate_ok [OF pw(1) assms(2)] assms(4) by (auto simp: s1_def)
  moreover have "quiet s s'"
    using quiet_trans [OF quiet_entry [OF assms(1-3) False, of ?w]] quiet_invalidate [OF pw(1) assms(2) s'(1)] by (simp add: s1_def)
  ultimately show ?thesis using pw dirs_ok_cong [OF s'(2,3)] by auto
qed

lemma quiet_clear_page:
  assumes "dirs_ok D s" "pd \<in> D" "cr3 s < PHYS_BASE" "pagedir_clear_page pd upage s = Some s'"
  shows "quiet s s'"
proof -
  have u: "is_user_vaddr upage" using assms(4) by (auto simp: pagedir_clear_page_def bind_eq_Some_conv)
  note rd = lookup_page_read [OF assms(1,2) u]
  show ?thesis
  proof (cases "pde s pd (pdi upage) = 0 \<or> pte_of s pd upage AND PTE_P = 0")
    case True
    then have "s' = s" using assms(4) rd by (auto simp: pagedir_clear_page_def pte_of_def bind_eq_Some_conv split: if_splits)
    then show ?thesis by simp
  next
    case False
    have c: "PTE_P AND PTE_ADDR = 0" by simp
    have "pagedir_clear_page pd upage s = set_pte_bit PTE_P pd upage False s"
      using False rd assms(4) by (auto simp: pagedir_clear_page_def set_pte_bit_def pte_of_def bind_eq_Some_conv)
    then show ?thesis using clear_pte_bit_ok [OF assms(1,2) u assms(3) c] assms(4) by auto
  qed
qed

end
