(* ===== verification/Vm_Clock.thy ===== *)
theory Vm_Clock
  imports Vm_Example Pagedir_Bits
begin

text \<open>
  The choice of a victim by the second chance algorithm: it ends exactly if the current process
  has a page in a frame that is not pinned.
\<close>

section \<open>The part of the state that the page tables use\<close>

definition with_paging :: "vm \<Rightarrow> paging \<Rightarrow> vm" where
  "with_paging s p = paging.extend p (paging.more s)"

lemma on_paging_alt:
  "on_paging f s = map_option (\<lambda>(r, p). (r, with_paging s p)) (f (paging.truncate s))"
  "on_paging' g s = map_option (with_paging s) (g (paging.truncate s))"
  by (cases "f (paging.truncate s)"; simp add: on_paging_def with_paging_def split: prod.splits)
    (cases "g (paging.truncate s)"; simp add: on_paging'_def with_paging_def)

lemma with_paging_fields [simp]:
  "swap_device (with_paging s p) = swap_device s" "swap_bitmap (with_paging s p) = swap_bitmap s"
  "frame_table (with_paging s p) = frame_table s" "clock_hand (with_paging s p) = clock_hand s"
  "pages (with_paging s p) = pages s" "next_page (with_paging s p) = next_page s" "uthreads (with_paging s p) = uthreads s"
  "current (with_paging s p) = current s" "files (with_paging s p) = files s" "vfs (with_paging s p) = vfs s"
  "kmem (with_paging s p) = kmem p" "kernel_pool (with_paging s p) = kernel_pool p" "user_pool (with_paging s p) = user_pool p"
  "cr3 (with_paging s p) = cr3 p" "init_page_dir (with_paging s p) = init_page_dir p" "init_ram_pages (with_paging s p) = init_ram_pages p"
  "tlb (with_paging s p) = tlb p" "with_paging (with_paging s p) q = with_paging s q" "paging.truncate (with_paging s p) = p"
  by (cases s, cases p, simp add: with_paging_def paging.defs)+

lemma truncate_fields [simp]:
  "kmem (paging.truncate s) = kmem s" "kernel_pool (paging.truncate s) = kernel_pool s" "user_pool (paging.truncate s) = user_pool s"
  "cr3 (paging.truncate s) = cr3 s" "init_page_dir (paging.truncate s) = init_page_dir s"
  "init_ram_pages (paging.truncate s) = init_ram_pages s" "tlb (paging.truncate s) = tlb s"
  "with_paging s (paging.truncate s) = s"
  for s :: vm
  by (cases s, simp add: with_paging_def paging.defs)+

lemma with_paging_hand [simp]:
  "with_paging (s\<lparr>clock_hand := h\<rparr>) p = (with_paging s p)\<lparr>clock_hand := h\<rparr>"
  "(with_paging s p)\<lparr>clock_hand := clock_hand s\<rparr> = with_paging s p"
  by (cases s, cases p, simp add: with_paging_def paging.defs)+

lemma dirs_truncate [simp]:
  "dirs_ok D (paging.truncate s) = dirs_ok D s" "pte_of (paging.truncate s) pd va = pte_of s pd va"
  "translate (paging.truncate s) pd va = translate s pd va"
  "dirs_ok D (with_paging s p) = dirs_ok D p" "pte_of (with_paging s p) pd va = pte_of p pd va"
  "translate (with_paging s p) pd va = translate p pd va" for s :: vm
  by (rule dirs_ok_cong; simp add: the_pool_def)+

section \<open>Frames and their pages\<close>

text \<open>The entry that describes a page of a process.\<close>

definition entry_of :: "vm \<Rightarrow> page \<Rightarrow> u32" where
  "entry_of s pg = pte_of s (pagedir (uthreads s (pthread pg))) (vaddr pg)"

definition page_ok :: "addr set \<Rightarrow> vm \<Rightarrow> page \<Rightarrow> bool" where
  "page_ok D s pg \<longleftrightarrow> pagedir (uthreads s (pthread pg)) \<in> D \<and> is_user_vaddr (vaddr pg)"

text \<open>The frames that may be taken from the current process.\<close>

definition candidate :: "vm \<Rightarrow> nat \<Rightarrow> page \<Rightarrow> bool" where
  "candidate s i pg \<longleftrightarrow> i < length (frame_table s) \<and> \<not> pinned (frame_table s ! i)
     \<and> (\<exists>p. vpage (frame_table s ! i) = Some p \<and> pages s p = Some pg) \<and> pthread pg = current s"

text \<open>Every frame that is not pinned holds a page of a process.\<close>

definition clock_ok :: "addr set \<Rightarrow> vm \<Rightarrow> bool" where
  "clock_ok D s \<longleftrightarrow> dirs_ok D s \<and> cr3 s < PHYS_BASE
     \<and> (\<forall>i<length (frame_table s). \<not> pinned (frame_table s ! i) \<longrightarrow>
          (\<exists>p pg. vpage (frame_table s ! i) = Some p \<and> pages s p = Some pg \<and> page_ok D s pg))"

text \<open>
  The clock only resets accessed bits and moves its hand: the rest of the state stays as it is.
\<close>

definition bits_reset :: "addr set \<Rightarrow> vm \<Rightarrow> vm \<Rightarrow> bool" where
  "bits_reset D s s' \<longleftrightarrow> (\<exists>p. s' = (with_paging s p)\<lparr>clock_hand := clock_hand s'\<rparr> \<and> quiet (paging.truncate s) p)
     \<and> (\<forall>pd\<in>D. \<forall>va. is_user_vaddr va \<longrightarrow> pte_of s' pd va = pte_of s pd va \<or> pte_of s' pd va = pte_of s pd va AND NOT PTE_A)"

lemma bits_reset_refl [simp]: "bits_reset D s s"
  by (auto simp: bits_reset_def intro!: exI [of _ "paging.truncate s"])

lemma bits_reset_trans:
  assumes "bits_reset D s t" "bits_reset D t u"
  shows "bits_reset D s u"
proof -
  obtain p q where p: "t = (with_paging s p)\<lparr>clock_hand := clock_hand t\<rparr>" "quiet (paging.truncate s) p"
      "u = (with_paging t q)\<lparr>clock_hand := clock_hand u\<rparr>" "quiet (paging.truncate t) q"
    using assms unfolding bits_reset_def by blast
  have tr: "paging.truncate t = p" by (subst p(1)) simp
  have "with_paging t q = (with_paging s q)\<lparr>clock_hand := clock_hand t\<rparr>" by (subst p(1)) simp
  then have "u = (with_paging s q)\<lparr>clock_hand := clock_hand u\<rparr>" using p(3) by simp
  moreover have "quiet (paging.truncate s) q" using quiet_trans [OF p(2)] p(4) tr by simp
  moreover have "pte_of u pd va = pte_of s pd va \<or> pte_of u pd va = pte_of s pd va AND NOT PTE_A" if "pd \<in> D" "is_user_vaddr va" for pd va
  proof -
    have "pte_of t pd va = pte_of s pd va \<or> pte_of t pd va = pte_of s pd va AND NOT PTE_A"
        "pte_of u pd va = pte_of t pd va \<or> pte_of u pd va = pte_of t pd va AND NOT PTE_A"
      using assms that unfolding bits_reset_def by blast+
    then show ?thesis by (auto simp: and.assoc)
  qed
  ultimately show ?thesis unfolding bits_reset_def by blast
qed

lemma bits_reset_hand [simp]: "bits_reset D s (s'\<lparr>clock_hand := h\<rparr>) = bits_reset D s s'"
proof -
  have "s'\<lparr>clock_hand := h\<rparr> = (with_paging s p)\<lparr>clock_hand := h\<rparr> \<longleftrightarrow> s' = (with_paging s p)\<lparr>clock_hand := clock_hand s'\<rparr>" for p
    by (cases s', cases "with_paging s p") auto
  then show ?thesis by (simp add: bits_reset_def pte_of_def)
qed

lemma bits_reset_same:
  assumes "bits_reset D s s'"
  shows "frame_table s' = frame_table s" "pages s' = pages s" "uthreads s' = uthreads s" "current s' = current s"
    "candidate s' i pg = candidate s i pg" "page_ok D s' pg = page_ok D s pg" "cr3 s' = cr3 s"
proof -
  obtain p where p: "s' = (with_paging s p)\<lparr>clock_hand := clock_hand s'\<rparr>" "quiet (paging.truncate s) p"
    using assms unfolding bits_reset_def by blast
  show f: "frame_table s' = frame_table s" "pages s' = pages s" "uthreads s' = uthreads s" "current s' = current s" "cr3 s' = cr3 s"
    using p(2) by (subst p(1), simp add: quiet_def)+
  show "candidate s' i pg = candidate s i pg" "page_ok D s' pg = page_ok D s pg"
    by (simp_all add: candidate_def page_ok_def f)
qed

lemma bits_reset_entry:
  assumes "bits_reset D s s'" "page_ok D s pg" "entry_of s' pg AND PTE_A \<noteq> 0"
  shows "entry_of s pg AND PTE_A \<noteq> 0"
proof -
  have "entry_of s' pg = entry_of s pg \<or> entry_of s' pg = entry_of s pg AND NOT PTE_A"
    using assms(1,2) unfolding entry_of_def bits_reset_same(3) [OF assms(1)] bits_reset_def page_ok_def by blast
  then show ?thesis using assms(3) by (auto simp: and.assoc)
qed

lemma clock_ok_reset: "clock_ok D s \<Longrightarrow> bits_reset D s s' \<Longrightarrow> dirs_ok D s' \<Longrightarrow> clock_ok D s'"
  using bits_reset_same [of D s s'] by (auto simp: clock_ok_def)

section \<open>One frame\<close>

lemma page_is_accessed_ok:
  assumes "dirs_ok D s" "page_ok D s pg" "pages s p = Some pg"
  shows "page_is_accessed p s = Some (entry_of s pg AND PTE_A \<noteq> 0, s)"
  using assms pte_bit_ok [of D "paging.truncate s" "pagedir (uthreads s (pthread pg))" "vaddr pg" PTE_A]
  by (simp add: page_is_accessed_def on_paging_alt pagedir_is_accessed_def page_ok_def entry_of_def)

lemma page_reset_accessed:
  assumes "clock_ok D s" "page_ok D s pg" "pages s p = Some pg"
  shows "\<exists>s'. page_set_accessed p False s = Some s' \<and> bits_reset D s s' \<and> clock_ok D s' \<and> entry_of s' pg AND PTE_A = 0"
proof -
  let ?pd = "pagedir (uthreads s (pthread pg))"
  obtain t where t: "set_pte_bit PTE_A ?pd (vaddr pg) False (paging.truncate s) = Some t" "dirs_ok D t" "quiet (paging.truncate s) t"
      "\<forall>pd'\<in>D. \<forall>vb. is_user_vaddr vb \<longrightarrow> pte_of t pd' vb =
         (if pd' = ?pd \<and> pg_round_down vb = pg_round_down (vaddr pg) then pte_of s ?pd (vaddr pg) AND NOT PTE_A else pte_of s pd' vb)"
    using clear_pte_bit_ok [of D "paging.truncate s" ?pd "vaddr pg" PTE_A] assms(1,2) by (auto simp: clock_ok_def page_ok_def)
  have "pte_of t pd va = pte_of s pd va \<or> pte_of t pd va = pte_of s pd va AND NOT PTE_A" if "pd \<in> D" "is_user_vaddr va" for pd va
    using t(4) that pte_of_page [of va "vaddr pg" s pd] by auto
  then have r: "bits_reset D s (with_paging s t)" using t(3) by (auto simp: bits_reset_def intro!: exI [of _ t])
  moreover have "entry_of (with_paging s t) pg AND PTE_A = 0"
    using t(4) assms(2) by (simp add: entry_of_def page_ok_def and.assoc)
  moreover have "page_set_accessed p False s = Some (with_paging s t)"
    using t(1) assms(3) by (simp add: page_set_accessed_def on_paging_alt pagedir_set_accessed_def)
  ultimately show ?thesis using clock_ok_reset [OF assms(1) r] t(2) by auto
qed

section \<open>One sweep\<close>

lemma clock_ok_hand [simp]: "clock_ok D (s\<lparr>clock_hand := h\<rparr>) = clock_ok D s"
  by (simp add: clock_ok_def page_ok_def dirs_ok_cong [of "s\<lparr>clock_hand := h\<rparr>" s] the_pool_def)

lemma entry_of_hand [simp]: "entry_of (s\<lparr>clock_hand := h\<rparr>) pg = entry_of s pg"
  by (simp add: entry_of_def pte_of_def)

lemma candidate_hand [simp]: "candidate (s\<lparr>clock_hand := h\<rparr>) = candidate s"
  by (simp add: candidate_def fun_eq_iff)

definition swept :: "addr set \<Rightarrow> nat list \<Rightarrow> vm \<Rightarrow> nat option \<Rightarrow> vm \<Rightarrow> bool" where
  "swept D is s r t \<longleftrightarrow> bits_reset D s t \<and> clock_ok D t \<and>
     (case r of
        None \<Rightarrow> \<forall>i\<in>set is. \<forall>pg. candidate s i pg \<longrightarrow> entry_of s pg AND PTE_A \<noteq> 0 \<and> entry_of t pg AND PTE_A = 0
      | Some i \<Rightarrow> clock_hand t = Some i \<and> (\<exists>pg. candidate s i pg \<and> entry_of t pg AND PTE_A = 0))"

lemma sweep_skip:
  assumes "clock_ok D s" "i < length (frame_table s)" "\<nexists>pg. candidate s i pg"
  shows "clock_sweep (i # is) s = clock_sweep is s"
proof (cases "pinned (frame_table s ! i)")
  case False
  then obtain p pg where p: "vpage (frame_table s ! i) = Some p" "pages s p = Some pg" using assms(1,2) by (auto simp: clock_ok_def)
  then have "pthread pg \<noteq> current s" using assms(2,3) False by (auto simp: candidate_def)
  then show ?thesis using assms(2) False p by (simp add: frame_at_def)
qed (use assms(2) in \<open>simp add: frame_at_def\<close>)

lemma sweep_candidate:
  assumes "clock_ok D s" "candidate s i pg"
  shows "if entry_of s pg AND PTE_A = 0 then clock_sweep (i # is) s = Some (Some i, s\<lparr>clock_hand := Some i\<rparr>)
    else \<exists>s1. clock_sweep (i # is) s = clock_sweep is s1 \<and> bits_reset D s s1 \<and> clock_ok D s1 \<and> entry_of s1 pg AND PTE_A = 0"
proof -
  obtain p where c: "i < length (frame_table s)" "\<not> pinned (frame_table s ! i)" "vpage (frame_table s ! i) = Some p"
      "pages s p = Some pg" "pthread pg = current s"
    using assms(2) by (auto simp: candidate_def)
  then have pk: "page_ok D s pg" using assms(1) by (auto simp: clock_ok_def)
  have acc: "page_is_accessed p s = Some (entry_of s pg AND PTE_A \<noteq> 0, s)"
    using assms(1) by (intro page_is_accessed_ok [OF _ pk c(4)]) (simp add: clock_ok_def)
  obtain s1 where s1: "page_set_accessed p False s = Some s1" "bits_reset D s s1" "clock_ok D s1" "entry_of s1 pg AND PTE_A = 0"
    using page_reset_accessed [OF assms(1) pk c(4)] by blast
  then show ?thesis using c acc by (auto simp: frame_at_def)
qed

lemma swept_cons:
  assumes "clock_ok D s" "candidate s i pg" "entry_of s pg AND PTE_A \<noteq> 0" "bits_reset D s s1" "entry_of s1 pg AND PTE_A = 0" "swept D is s1 r t"
  shows "swept D (i # is) s r t"
proof -
  note same = bits_reset_same [OF assms(4)]
  have pk: "page_ok D s pq" if "candidate s j pq" for j pq using that assms(1) by (auto simp: candidate_def clock_ok_def)
  have r: "bits_reset D s1 t" "clock_ok D t"
      "case r of None \<Rightarrow> \<forall>i\<in>set is. \<forall>pg. candidate s i pg \<longrightarrow> entry_of s1 pg AND PTE_A \<noteq> 0 \<and> entry_of t pg AND PTE_A = 0
       | Some i \<Rightarrow> clock_hand t = Some i \<and> (\<exists>pg. candidate s i pg \<and> entry_of t pg AND PTE_A = 0)"
    using assms(6) unfolding swept_def same(5) by blast+
  have "entry_of t pg AND PTE_A = 0" using bits_reset_entry [OF r(1)] pk [OF assms(2)] same(6) assms(5) by blast
  moreover have "entry_of s pq AND PTE_A \<noteq> 0" if "entry_of s1 pq AND PTE_A \<noteq> 0" "candidate s j pq" for j pq
    using bits_reset_entry [OF assms(4) pk [OF that(2)] that(1)] .
  moreover have "pq = pg" if "candidate s i pq" for pq using that assms(2) by (auto simp: candidate_def)
  ultimately have "case r of None \<Rightarrow> \<forall>j\<in>set (i # is). \<forall>pg. candidate s j pg \<longrightarrow> entry_of s pg AND PTE_A \<noteq> 0 \<and> entry_of t pg AND PTE_A = 0
       | Some j \<Rightarrow> clock_hand t = Some j \<and> (\<exists>pg. candidate s j pg \<and> entry_of t pg AND PTE_A = 0)"
    using r(3) assms(3) by (auto split: option.splits)
  then show ?thesis unfolding swept_def using bits_reset_trans [OF assms(4) r(1)] r(2) by blast
qed

lemma clock_sweep_ok:
  assumes "clock_ok D s" "\<forall>i\<in>set is. i < length (frame_table s)"
  shows "\<exists>r t. clock_sweep is s = Some (r, t) \<and> swept D is s r t"
  using assms
proof (induction "is" arbitrary: s)
  case Nil
  then show ?case by (auto simp: swept_def)
next
  case (Cons i "is")
  show ?case
  proof (cases "\<exists>pg. candidate s i pg")
    case False
    then have "clock_sweep (i # is) s = clock_sweep is s" using Cons.prems by (intro sweep_skip) auto
    moreover have "swept D (i # is) s r t" if "swept D is s r t" for r t
      using that False by (auto simp: swept_def split: option.splits)
    ultimately show ?thesis using Cons.IH [OF Cons.prems(1)] Cons.prems(2) by auto
  next
    case True
    then obtain pg where c: "candidate s i pg" by blast
    note sc = sweep_candidate [OF Cons.prems(1) c, of "is"]
    show ?thesis
    proof (cases "entry_of s pg AND PTE_A = 0")
      case True
      then have "swept D (i # is) s (Some i) (s\<lparr>clock_hand := Some i\<rparr>)"
        unfolding swept_def using Cons.prems(1) c by auto
      then show ?thesis using sc True by auto
    next
      case False
      then obtain s1 where s1: "clock_sweep (i # is) s = clock_sweep is s1" "bits_reset D s s1" "clock_ok D s1" "entry_of s1 pg AND PTE_A = 0"
        using sc by auto
      have "\<forall>i\<in>set is. i < length (frame_table s1)" using Cons.prems(2) bits_reset_same(1) [OF s1(2)] by simp
      then show ?thesis using Cons.IH [OF s1(3)] s1(1) swept_cons [OF Cons.prems(1) c False s1(2,4)] by auto
    qed
  qed
qed

section \<open>The loop\<close>

definition hand_list :: "vm \<Rightarrow> nat list" where
  "hand_list s = [(case clock_hand s of None \<Rightarrow> length (frame_table s) | Some i \<Rightarrow> i)..<length (frame_table s)]"

lemma clock_loop_sweep:
  "clock_loop s = (case clock_sweep (hand_list s) s of None \<Rightarrow> None
     | Some (Some i, t) \<Rightarrow> Some (i, t)
     | Some (None, t) \<Rightarrow> clock_loop (t\<lparr>clock_hand := (if length (frame_table s) = 0 then None else Some 0)\<rparr>))"
  by (subst clock_loop.simps) (auto simp: hand_list_def Let_def split: option.splits bind_splits)

lemma clock_sweep_none:
  assumes "clock_ok D s" "\<nexists>i pg. candidate s i pg" "\<forall>i\<in>set is. i < length (frame_table s)"
  shows "clock_sweep is s = Some (None, s)"
  using assms(3) by (induction "is") (use assms(1,2) sweep_skip in auto)

lemma clock_loop_candidate:
  assumes run: "clock_loop s = Some x"
  shows "clock_ok D s \<longrightarrow> (\<exists>i pg. candidate s i pg)"
proof (rule clock_loop.raw_induct [where P = "\<lambda>s x. clock_ok D s \<longrightarrow> (\<exists>i pg. candidate s i pg)", OF _ run], goal_cases)
  case (1 loop s x)
  show ?case
  proof (rule impI, rule ccontr)
    assume a: "clock_ok D s" "\<nexists>i pg. candidate s i pg"
    have sw: "clock_sweep [(case clock_hand s of None \<Rightarrow> length (frame_table s) | Some i \<Rightarrow> i)..<length (frame_table s)] s = Some (None, s)"
      by (rule clock_sweep_none [OF a]) simp
    then have "loop (s\<lparr>clock_hand := (if length (frame_table s) = 0 then None else Some 0)\<rparr>) = Some x"
      using 1(2) by (simp add: Let_def)
    from 1(1) [OF this] a show False by simp
  qed
qed

lemma hand_list_index: "\<forall>i\<in>set (hand_list s). i < length (frame_table s)"
  by (simp add: hand_list_def)

lemma hand_list_start: "0 < length (frame_table s) \<Longrightarrow> clock_hand s = Some 0 \<Longrightarrow> set (hand_list s) = {..<length (frame_table s)}"
  by (auto simp: hand_list_def)

text \<open>The result of the choice.\<close>

definition chosen :: "addr set \<Rightarrow> vm \<Rightarrow> nat \<Rightarrow> vm \<Rightarrow> bool" where
  "chosen D s i t \<longleftrightarrow> bits_reset D s t \<and> clock_ok D t \<and> clock_hand t = Some i \<and> (\<exists>pg. candidate s i pg \<and> entry_of t pg AND PTE_A = 0)"

lemma clock_round:
  assumes "clock_ok D s"
  shows "(\<exists>i t. clock_loop s = Some (i, t) \<and> chosen D s i t)
    \<or> (\<exists>t. clock_loop s = clock_loop t \<and> bits_reset D s t \<and> clock_ok D t \<and> clock_hand t = (if length (frame_table s) = 0 then None else Some 0)
         \<and> (\<forall>i\<in>set (hand_list s). \<forall>pg. candidate s i pg \<longrightarrow> entry_of s pg AND PTE_A \<noteq> 0 \<and> entry_of t pg AND PTE_A = 0))"
proof -
  obtain r t where r: "clock_sweep (hand_list s) s = Some (r, t)" "swept D (hand_list s) s r t"
    using clock_sweep_ok [OF assms hand_list_index] by blast
  show ?thesis
  proof (cases r)
    case None
    let ?t = "t\<lparr>clock_hand := (if length (frame_table s) = 0 then None else Some 0)\<rparr>"
    have "clock_loop s = clock_loop ?t" using r(1) None by (subst clock_loop_sweep) simp
    then show ?thesis using r(2) None by (intro disjI2 exI [of _ ?t]) (simp add: swept_def)
  next
    case (Some i)
    then have "clock_loop s = Some (i, t)" using r(1) by (subst clock_loop_sweep) simp
    then show ?thesis using r(2) Some by (auto simp: swept_def chosen_def)
  qed
qed

lemma chosen_later: "bits_reset D s s1 \<Longrightarrow> chosen D s1 i t \<Longrightarrow> chosen D s i t"
  using bits_reset_trans bits_reset_same(5) by (auto simp: chosen_def)

text \<open>At the latest in the third round a frame is found.\<close>

lemma clock_loop_found:
  assumes "clock_ok D s" "candidate s i pg"
  shows "\<exists>j t. clock_loop s = Some (j, t) \<and> chosen D s j t"
proof (cases "\<exists>j t. clock_loop s = Some (j, t) \<and> chosen D s j t")
  case False
  then obtain t where t: "clock_loop s = clock_loop t" "bits_reset D s t" "clock_ok D t"
      "clock_hand t = (if length (frame_table s) = 0 then None else Some 0)"
    using clock_round [OF assms(1)] by blast
  have ct: "candidate t i pg" using assms(2) bits_reset_same(5) [OF t(2)] by simp
  then have n: "0 < length (frame_table t)" "i < length (frame_table t)" by (auto simp: candidate_def)
  then have h: "clock_hand t = Some 0" using t(4) bits_reset_same(1) [OF t(2)] by simp
  show ?thesis
  proof (cases "\<exists>j u. clock_loop t = Some (j, u) \<and> chosen D t j u")
    case True
    then show ?thesis using t(1) chosen_later [OF t(2)] by auto
  next
    case False
    then obtain u where u: "clock_loop t = clock_loop u" "bits_reset D t u" "clock_ok D u"
        "clock_hand u = (if length (frame_table t) = 0 then None else Some 0)" "entry_of u pg AND PTE_A = 0"
      using clock_round [OF t(3)] ct n hand_list_start [OF n(1) h] by auto
    have cu: "candidate u i pg" using ct bits_reset_same(5) [OF u(2)] by simp
    have "i \<in> set (hand_list u)" using n u(4) bits_reset_same(1) [OF u(2)] hand_list_start [of u] by simp
    then obtain j v where "clock_loop u = Some (j, v)" "chosen D u j v" using clock_round [OF u(3)] cu u(5) by blast
    then show ?thesis using t(1) u(1) chosen_later [OF t(2)] chosen_later [OF u(2)] by auto
  qed
qed

section \<open>Properties\<close>

text \<open>
  C21: The search for a victim ends exactly if the current process has a page in a frame that is not
  pinned. It then returns such a frame whose page is not marked as accessed, leaves the hand
  there, and has changed nothing but accessed bits, which it only resets. Otherwise it never
  returns, even if frames of other processes could be taken.
\<close>

theorem clock_second_chance:
  assumes "clock_ok D s"
  shows "case clock_loop s of
      None \<Rightarrow> \<nexists>i pg. candidate s i pg
    | Some (i, t) \<Rightarrow> bits_reset D s t \<and> clock_hand t = Some i \<and> (\<exists>pg. candidate s i pg \<and> entry_of t pg AND PTE_A = 0)"
proof (cases "\<exists>i pg. candidate s i pg")
  case True
  then obtain i t where "clock_loop s = Some (i, t)" "chosen D s i t" using clock_loop_found [OF assms] by blast
  then show ?thesis by (simp add: chosen_def)
next
  case False
  then have "clock_loop s = None" using clock_loop_candidate [of s _ D] assms by (cases "clock_loop s") auto
  then show ?thesis using False by simp
qed

theorem clock_second_chance_witness: "clock_ok {0xc0101000} (demo_vm 0) \<and> map_option fst (clock_loop (demo_vm 0)) = Some 0"
proof -
  have f: "frame_table (demo_vm 0) = [\<lparr>kpage = 0xc0106000, vpage = Some 0, pinned = False\<rparr>, \<lparr>kpage = 0xc0107000, vpage = None, pinned = True\<rparr>]"
      "pages (demo_vm 0) = [0 \<mapsto> demo_page]" "uthreads (demo_vm 0) = (\<lambda>_. demo_thread)" "current (demo_vm 0) = 0" "cr3 (demo_vm 0) = 0x101000"
    by (simp_all add: demo_vm_def)
  have ok: "clock_ok {0xc0101000} (demo_vm 0)"
    using demo_dirs(1) by (auto simp: clock_ok_def f page_ok_def demo_page_def demo_thread_def is_user_vaddr_def nth_Cons')
  have c: "candidate (demo_vm 0) i pg \<longleftrightarrow> i = 0 \<and> pg = demo_page" for i pg
    by (auto simp: candidate_def f demo_page_def nth_Cons' split: if_splits)
  show ?thesis using ok clock_second_chance [OF ok] by (auto simp: c split: option.splits)
qed

end
