(* ===== verification/Vm_Paging.thy ===== *)
theory Vm_Paging
  imports Vm_Swap Vm_Clock
begin

text \<open>
  Evicting a page and bringing it back: the process finds the bytes that it left, unless the swap
  device was full.
\<close>

section \<open>The invariant\<close>

text \<open>The frames are pages of the user pool, so that writing to them leaves the page tables alone.\<close>

definition frames_ok :: "vm \<Rightarrow> bool" where
  "frames_ok s \<longleftrightarrow> (\<forall>f\<in>set (frame_table s). kernel_page (kpage f) \<and> unat (base (user_pool s)) \<le> unat (kpage f)
     \<and> drop_bit 12 (kpage f - PHYS_BASE) < init_ram_pages s)"

definition vm_ok :: "addr set \<Rightarrow> vm \<Rightarrow> bool" where
  "vm_ok D s \<longleftrightarrow> dirs_ok D s \<and> init_page_dir s \<notin> D \<and> cr3 s < PHYS_BASE \<and> swap_ok s \<and> frames_ok s"

lemma vm_okD:
  assumes "vm_ok D s"
  shows "dirs_ok D s" "init_page_dir s \<notin> D" "cr3 s < PHYS_BASE" "swap_ok s" "frames_ok s"
  using assms by (simp_all add: vm_ok_def)

lemma read_table_cong:
  assumes "pools_ok s" "table_page s t" "i < 1024" "\<And>a. unat a < unat (base (user_pool s)) \<Longrightarrow> m a = kmem s a"
  shows "read_word m (slot_addr t i) = read_word (kmem s) (slot_addr t i)"
proof -
  have t: "aligned t" by (rule table_page_aligned [OF assms(2)])
  have "unat t + 4096 \<le> unat (base (user_pool s))"
    using assms(1,2) by (auto simp: table_page_def group_def the_pool_def pools_ok_def)
  then have "unat (slot_addr t i) + 4 \<le> unat (base (user_pool s))" using unat_slot [OF t assms(3)] assms(3) by linarith
  then show ?thesis using assms(4) by (intro read_word_cong slot_word(2) [OF t assms(3)]) auto
qed

lemma dirs_user_write:
  assumes "dirs_ok D s" "\<And>a. unat a < unat (base (user_pool s)) \<Longrightarrow> m a = kmem s a"
  shows "dirs_ok D (s\<lparr>kmem := m\<rparr>)" "\<And>pd va. pd \<in> D \<Longrightarrow> is_user_vaddr va \<Longrightarrow> pte_of (s\<lparr>kmem := m\<rparr>) pd va = pte_of s pd va"
proof -
  note ok = dirs_okD [OF assms(1)]
  have e: "read_word m (slot_addr pd i) = pde s pd i" if "pd \<in> D" "i < 768" for pd i
    using that by (intro read_table_cong [OF ok(1) ok(2)] assms(2)) simp_all
  have p: "pte_of (s\<lparr>kmem := m\<rparr>) pd va = pte_of s pd va" if "pd \<in> D" "is_user_vaddr va" for pd va
  proof -
    have i: "pdi va < 768" using that(2) by (simp add: user_pdi)
    have "read_word m (slot_addr (page_of (pde s pd (pdi va))) (pti va)) = pde s (page_of (pde s pd (pdi va))) (pti va)"
      if "pde s pd (pdi va) \<noteq> 0"
      using page_table(1) [OF assms(1) \<open>pd \<in> D\<close> i that] by (intro read_table_cong [OF ok(1) _ pti_val(2)] assms(2)) simp_all
    then show ?thesis using e [OF that(1) i] by (simp add: pte_of_def)
  qed
  show "pte_of (s\<lparr>kmem := m\<rparr>) pd va = pte_of s pd va" if "pd \<in> D" "is_user_vaddr va" for pd va by (rule p [OF that])
  show "dirs_ok D (s\<lparr>kmem := m\<rparr>)" using assms(1) p e unfolding dirs_ok_def by auto
qed

text \<open>What the parts of the invariant depend on.\<close>

lemma swap_ok_cong:
  assumes "swap_bitmap s' = swap_bitmap s" "swap_device s' = swap_device s" "\<And>q pg. out s' q pg = out s q pg"
  shows "swap_ok s' = swap_ok s"
  unfolding swap_ok_def assms ..

lemma swapped_cong: "swap_device s' = swap_device s \<Longrightarrow> on_swap s' pg = on_swap s pg"
  by (simp add: on_swap_def)

lemma frames_ok_cong:
  assumes "map kpage (frame_table s') = map kpage (frame_table s)" "user_pool s' = user_pool s" "init_ram_pages s' = init_ram_pages s"
  shows "frames_ok s' = frames_ok s"
proof -
  have eq: "frames_ok s \<longleftrightarrow> (\<forall>k\<in>set (map kpage (frame_table s)). kernel_page k \<and> unat (base (user_pool s)) \<le> unat k
     \<and> drop_bit 12 (k - PHYS_BASE) < init_ram_pages s)" for s by (simp add: frames_ok_def)
  show ?thesis unfolding eq [of s'] eq [of s] assms ..
qed

lemma frames_okD:
  assumes "frames_ok s" "i < length (frame_table s)"
  shows "kernel_page (kpage (frame_table s ! i))" "unat (base (user_pool s)) \<le> unat (kpage (frame_table s ! i))"
    "drop_bit 12 (kpage (frame_table s ! i) - PHYS_BASE) < init_ram_pages s" "aligned (kpage (frame_table s ! i))"
  using assms by (auto simp: frames_ok_def kernel_page_def)

text \<open>Changes that leave the page tables, the swap device and the places of the frames alone.\<close>

lemma vm_ok_cong:
  assumes "vm_ok D s" "kmem s' = kmem s" "kernel_pool s' = kernel_pool s" "user_pool s' = user_pool s" "init_page_dir s' = init_page_dir s"
    and "cr3 s' = cr3 s" "init_ram_pages s' = init_ram_pages s" "map kpage (frame_table s') = map kpage (frame_table s)" "swap_ok s'"
  shows "vm_ok D s'"
  using assms dirs_ok_cong(1) [of s' s D] frames_ok_cong [of s' s] by (simp add: vm_ok_def the_pool_def)

section \<open>Evicting a page\<close>

definition evictable :: "addr set \<Rightarrow> vm \<Rightarrow> nat \<Rightarrow> page \<Rightarrow> nat \<Rightarrow> addr \<Rightarrow> bool" where
  "evictable D s p pg i k \<longleftrightarrow> vm_ok D s \<and> in_frame s p i k \<and> pages s p = Some pg \<and> \<not> is_private pg
     \<and> page_ok D s pg \<and> pthread pg = current s \<and> aligned (vaddr pg)
     \<and> (pfile pg = None \<or> mmap_id pg = MAP_FAILED) \<and> (dirty pg \<or> entry_of s pg AND PTE_D \<noteq> 0)"

lemma page_is_dirty_ok:
  assumes "dirs_ok D s" "page_ok D s pg" "pages s p = Some pg"
  shows "page_is_dirty p s = Some (entry_of s pg AND PTE_D \<noteq> 0, s)"
  using assms pte_bit_ok [of D "paging.truncate s" "pagedir (uthreads s (pthread pg))" "vaddr pg" PTE_D]
  by (simp add: page_is_dirty_def on_paging_alt pagedir_is_dirty_def page_ok_def entry_of_def)

lemma clear_page_vm:
  assumes "vm_ok D s" "pd \<in> D" "aligned va" "is_user_vaddr va"
  shows "\<exists>q. on_paging' (pagedir_clear_page pd va) s = Some (with_paging s q) \<and> vm_ok D (with_paging s q) \<and> quiet (paging.truncate s) q
    \<and> (\<forall>pd'\<in>D. \<forall>vb. is_user_vaddr vb \<longrightarrow> translate q pd' vb = (if pd' = pd \<and> pg_round_down vb = va then None else translate s pd' vb))"
proof -
  note ok = vm_okD [OF assms(1)]
  obtain q where q: "pagedir_clear_page pd va (paging.truncate s) = Some q" "dirs_ok D q"
      "\<forall>pd'\<in>D. \<forall>vb. is_user_vaddr vb \<longrightarrow> translate q pd' vb = (if pd' = pd \<and> pg_round_down vb = va then None else translate s pd' vb)"
    using clear_page_ok [of D "paging.truncate s" pd va] ok(1,3) assms(2-4) by auto
  have qt: "quiet (paging.truncate s) q" using quiet_clear_page [of D "paging.truncate s" pd va q] ok(1,3) assms(2) q(1) by simp
  have "swap_ok (with_paging s q) = swap_ok s" by (rule swap_ok_cong) (simp_all add: out_def)
  moreover have "frames_ok (with_paging s q) = frames_ok s" using qt by (intro frames_ok_cong) (simp_all add: quiet_def)
  ultimately have "vm_ok D (with_paging s q)" using ok q(2) qt by (simp add: vm_ok_def quiet_def)
  then show ?thesis using q qt by (auto simp: on_paging_alt)
qed

text \<open>A page of the swapped kind that is dirty is handed to the swap device and unmapped in any case.\<close>

definition marked_dirty :: "vm \<Rightarrow> nat \<Rightarrow> page \<Rightarrow> vm" where
  "marked_dirty s p pg = s\<lparr>pages := (pages s)(p \<mapsto> pg\<lparr>dirty := True\<rparr>)\<rparr>"

lemma page_out_swap:
  assumes "evictable D s p pg i k" "swap_out p (marked_dirty s p pg) = Some (idx, s1)"
  shows "page_out wm p s = do {
     s \<leftarrow> on_paging' (pagedir_clear_page (pagedir (cur_thread s1)) (vaddr pg)) s1;
     s \<leftarrow> upd_page p (\<lambda>pg. pg\<lparr>pframe := None\<rparr>) s;
     Some (True, s) }"
proof -
  have e: "dirs_ok D s" "page_ok D s pg" "pages s p = Some pg" "\<not> is_private pg" "pframe pg \<noteq> None"
      "pfile pg = None \<or> mmap_id pg = MAP_FAILED" "dirty pg \<or> entry_of s pg AND PTE_D \<noteq> 0"
    using assms(1) by (auto simp: evictable_def vm_ok_def in_frame_def)
  have d: "upd_page p (\<lambda>pg. pg\<lparr>dirty := True\<rparr>) s = Some (marked_dirty s p pg)" using e(3) by (simp add: upd_page_def marked_dirty_def)
  show ?thesis
    using e(3-7) page_is_dirty_ok [OF e(1-3)] d assms(2) by (cases "pfile pg") (auto simp: page_out_def)
qed

lemma map_kpage_update [simp]:
  "kpage f = kpage (fs ! i) \<Longrightarrow> map kpage (fs[i := f]) = map kpage fs"
  by (metis list_update_id map_update)

lemma marked_dirty_ok:
  assumes "evictable D s p pg i k"
  shows "swap_ok (marked_dirty s p pg)" "vm_ok D (marked_dirty s p pg)" "in_frame (marked_dirty s p pg) p i k"
    "pages (marked_dirty s p pg) p = Some (pg\<lparr>dirty := True\<rparr>)"
proof -
  have e: "vm_ok D s" "in_frame s p i k" "pages s p = Some pg" "\<not> is_private pg"
    using assms by (auto simp: evictable_def)
  have "swap_ok (marked_dirty s p pg) = swap_ok s"
    using e(3,4) by (intro swap_ok_cong) (auto simp: marked_dirty_def out_def)
  then show ok: "swap_ok (marked_dirty s p pg)" using vm_okD(4) [OF e(1)] by simp
  show "vm_ok D (marked_dirty s p pg)" by (rule vm_ok_cong [OF e(1) _ _ _ _ _ _ _ ok]) (simp_all add: marked_dirty_def)
  show "in_frame (marked_dirty s p pg) p i k" "pages (marked_dirty s p pg) p = Some (pg\<lparr>dirty := True\<rparr>)"
    using e(2,3) by (auto simp: marked_dirty_def in_frame_def)
qed

text \<open>The outcome of unmapping the page \<open>p\<close> in the state \<open>s1\<close>.\<close>

lemma page_out_unmaps:
  assumes "evictable D s p pg i k" "swap_out p (marked_dirty s p pg) = Some (idx, s1)" "vm_ok D s1"
    and "uthreads s1 = uthreads s" "current s1 = current s" "kmem s1 = kmem s" "kernel_pool s1 = kernel_pool s" "user_pool s1 = user_pool s"
    and "pages s1 p = Some pg1" "swap_ok (s1\<lparr>pages := (pages s1)(p \<mapsto> pg1\<lparr>pframe := None\<rparr>)\<rparr>)"
  shows "\<exists>q. page_out wm p s = Some (True, (with_paging s1 q)\<lparr>pages := (pages s1)(p \<mapsto> pg1\<lparr>pframe := None\<rparr>)\<rparr>)
    \<and> vm_ok D ((with_paging s1 q)\<lparr>pages := (pages s1)(p \<mapsto> pg1\<lparr>pframe := None\<rparr>)\<rparr>)
    \<and> (\<forall>pd\<in>D. \<forall>va. is_user_vaddr va \<longrightarrow> translate q pd va =
         (if pd = pagedir (cur_thread s) \<and> pg_round_down va = vaddr pg then None else translate s pd va))"
proof -
  have e: "page_ok D s pg" "pthread pg = current s" "aligned (vaddr pg)" using assms(1) by (auto simp: evictable_def)
  then have pd: "pagedir (cur_thread s1) \<in> D" "is_user_vaddr (vaddr pg)" using assms(4,5) by (simp_all add: page_ok_def)
  obtain q where q: "on_paging' (pagedir_clear_page (pagedir (cur_thread s1)) (vaddr pg)) s1 = Some (with_paging s1 q)" "vm_ok D (with_paging s1 q)"
      "\<forall>pd'\<in>D. \<forall>vb. is_user_vaddr vb \<longrightarrow> translate q pd' vb = (if pd' = pagedir (cur_thread s1) \<and> pg_round_down vb = vaddr pg then None else translate s1 pd' vb)"
    using clear_page_vm [OF assms(3) pd(1) e(3) pd(2)] by blast
  let ?s' = "(with_paging s1 q)\<lparr>pages := (pages s1)(p \<mapsto> pg1\<lparr>pframe := None\<rparr>)\<rparr>"
  have "page_out wm p s = Some (True, ?s')" using page_out_swap [OF assms(1,2)] q(1) assms(9) by (simp add: upd_page_def)
  moreover have "swap_ok ?s' = swap_ok (s1\<lparr>pages := (pages s1)(p \<mapsto> pg1\<lparr>pframe := None\<rparr>)\<rparr>)"
    by (rule swap_ok_cong) (simp_all add: out_def)
  then have "vm_ok D ?s'" using assms(10) by (intro vm_ok_cong [OF q(2)]) simp_all
  moreover have "translate s1 pd va = translate s pd va" for pd va
    using dirs_ok_cong(2) [of s1 s] assms(6-8) by (simp add: the_pool_def)
  ultimately show ?thesis using q(3) assms(4,5) by auto
qed

lemma page_out_stored:
  assumes "evictable D s p pg i k" "\<exists>j. run_of (swap_bitmap s) j 8 False"
  shows "\<exists>s' pg'. page_out wm p s = Some (True, s') \<and> vm_ok D s' \<and> others_kept s p s'
    \<and> out s' p pg' \<and> pframe pg' = None \<and> vaddr pg' = vaddr pg \<and> pthread pg' = pthread pg \<and> on_swap s' pg' = get_bytes k 4096 (kmem s)
    \<and> (\<forall>pd\<in>D. \<forall>va. is_user_vaddr va \<longrightarrow> translate s' pd va =
         (if pd = pagedir (cur_thread s) \<and> pg_round_down va = vaddr pg then None else translate s pd va))"
proof -
  let ?m = "marked_dirty s p pg"
  note m = marked_dirty_ok [OF assms(1)]
  have np: "\<not> is_private (pg\<lparr>dirty := True\<rparr>)" "pages s p = Some pg" using assms(1) by (simp_all add: evictable_def)
  obtain idx b dev where r: "swap_out p ?m = Some (idx, swapped_out ?m p i idx b dev)" "swap_ok (swapped_out ?m p i idx b dev)"
      "others_kept ?m p (swapped_out ?m p i idx b dev)"
      "on_swap (swapped_out ?m p i idx b dev) (pg\<lparr>dirty := True, is_private := True, swap_slot := idx, pframe := None\<rparr>) = get_bytes k 4096 (kmem s)"
    using swap_out_stored [OF m(1,3,4) np(1)] assms(2) by (auto simp: marked_dirty_def)
  let ?s1 = "swapped_out ?m p i idx b dev" and ?pg = "pg\<lparr>dirty := True, is_private := True, swap_slot := idx, pframe := None\<rparr>"
  have v1: "vm_ok D ?s1" by (rule vm_ok_cong [OF m(2) _ _ _ _ _ _ _ r(2)]) (simp_all add: swapped_out_def)
  have pg1: "pages ?s1 p = Some ?pg" using m(4) by (simp add: swapped_out_def)
  have upd: "(pages ?s1)(p \<mapsto> ?pg\<lparr>pframe := None\<rparr>) = pages ?s1" using pg1 by (simp add: fun_upd_idem_iff)
  then have "swap_ok (?s1\<lparr>pages := (pages ?s1)(p \<mapsto> ?pg\<lparr>pframe := None\<rparr>)\<rparr>)" using r(2) by simp
  then obtain q where q: "page_out wm p s = Some (True, (with_paging ?s1 q)\<lparr>pages := pages ?s1\<rparr>)"
      "vm_ok D ((with_paging ?s1 q)\<lparr>pages := pages ?s1\<rparr>)"
      "\<forall>pd\<in>D. \<forall>va. is_user_vaddr va \<longrightarrow> translate q pd va =
         (if pd = pagedir (cur_thread s) \<and> pg_round_down va = vaddr pg then None else translate s pd va)"
    using page_out_unmaps [OF assms(1) r(1) v1 _ _ _ _ _ pg1, where wm = wm] upd by (auto simp: swapped_out_def marked_dirty_def)
  let ?s' = "(with_paging ?s1 q)\<lparr>pages := pages ?s1\<rparr>"
  have "out ?m q' pq = out s q' pq" for q' pq using np by (auto simp: out_def marked_dirty_def)
  then have "others_kept s p ?s'"
    using r(3) by (simp add: others_kept_def on_swap_def out_def marked_dirty_def)
  moreover have "out ?s' p ?pg" using pg1 by (simp add: out_def)
  moreover have "on_swap ?s' ?pg = get_bytes k 4096 (kmem s)" using r(4) swapped_cong [of ?s' ?s1] by simp
  moreover have "translate ?s' pd va = translate q pd va" for pd va using dirs_ok_cong(2) [of ?s' q] by (simp add: the_pool_def)
  ultimately show ?thesis using q by (intro exI [of _ ?s'] exI [of _ ?pg]) simp
qed

section \<open>Bringing a page back\<close>

lemma swap_ok_slots:
  assumes "swap_ok s" "swap_bitmap s' = swap_bitmap s" "swap_device s' = swap_device s"
    and "\<And>q pg. out s' q pg \<Longrightarrow> \<exists>pg'. out s q pg' \<and> swap_slot pg' = swap_slot pg"
  shows "swap_ok s'"
proof -
  note ok = swap_okD [OF assms(1)]
  have "unat (swap_slot pg) + 8 \<le> size_of (swap_bitmap s) \<and> (\<forall>j\<in>slots pg. bitv (swap_bitmap s) j)
      \<and> (\<forall>i<8. length (contents (swap_device s) (swap_slot pg + of_nat i)) = 512)" if o: "out s' q pg" for q pg
  proof -
    obtain x where x: "out s q x" "swap_slot x = swap_slot pg" using assms(4) [OF o] by blast
    show ?thesis using ok(4-6) [OF x(1)] x(2) by (simp add: slots_def)
  qed
  moreover have "slots pg \<inter> slots pg' = {}" if o: "out s' q pg" "out s' q' pg'" "q \<noteq> q'" for q pg q' pg'
  proof -
    obtain x x' where "out s q x" "swap_slot x = swap_slot pg" "out s q' x'" "swap_slot x' = swap_slot pg'"
      using assms(4) [OF o(1)] assms(4) [OF o(2)] by blast
    then show ?thesis using ok(7) [of q x q' x'] o(3) by (simp add: slots_def)
  qed
  ultimately show ?thesis using ok(1-3) unfolding swap_ok_def assms(2,3) by blast
qed

lemma free_frame_index: "free_frame n fs = Some j \<Longrightarrow> n \<le> j \<and> j < n + length fs"
  by (induction fs arbitrary: n) (fastforce split: if_splits)+

text \<open>A page that is in no frame and can be brought back into the free frame \<open>j\<close>.\<close>

definition absent :: "addr set \<Rightarrow> vm \<Rightarrow> nat \<Rightarrow> page \<Rightarrow> nat \<Rightarrow> bool" where
  "absent D t p pg j \<longleftrightarrow> vm_ok D t \<and> pages t p = Some pg \<and> pframe pg = None \<and> pthread pg = current t \<and> page_ok D t pg \<and> aligned (vaddr pg)
     \<and> page_lookup (current t) (vaddr pg) t = Some p \<and> translate t (pagedir (cur_thread t)) (vaddr pg) = None
     \<and> free_frame 0 (frame_table t) = Some j \<and> free_run False t 1"

definition given :: "vm \<Rightarrow> nat \<Rightarrow> page \<Rightarrow> nat \<Rightarrow> vm" where
  "given t p pg j = t\<lparr>frame_table := (frame_table t)[j := (frame_table t ! j)\<lparr>vpage := Some p\<rparr>],
     pages := (pages t)(p \<mapsto> pg\<lparr>pframe := Some j\<rparr>)\<rparr>"

lemma page_in_given:
  assumes "absent D t p pg j" "pg_round_down va = vaddr pg"
  shows "page_in wm va t = do {
     (success, s) \<leftarrow> load_page wm p (given t p pg j);
     if success then map_page p s else Some (False, s) }"
proof -
  have a: "pages t p = Some pg" "pframe pg = None" "pthread pg = current t" "page_lookup (current t) (vaddr pg) t = Some p"
      "free_frame 0 (frame_table t) = Some j" using assms(1) by (simp_all add: absent_def)
  have "j < length (frame_table t)" using free_frame_index [OF a(5)] by simp
  moreover have "page_alloc va True t = Some (Some p, t)" using a(4) assms(2) by (simp add: page_alloc_def)
  ultimately show ?thesis
    using a assms(2) by (simp add: page_in_def frame_alloc_def upd_frame_def upd_page_def given_def)
qed

lemma given_ok:
  assumes "absent D t p pg j" "k = kpage (frame_table t ! j)"
  shows "vm_ok D (given t p pg j)" "in_frame (given t p pg j) p j k" "unat (base (user_pool t)) \<le> unat k" "kernel_page k"
    "drop_bit 12 (k - PHYS_BASE) < init_ram_pages t"
proof -
  have a: "vm_ok D t" "pages t p = Some pg" "free_frame 0 (frame_table t) = Some j" using assms(1) by (simp_all add: absent_def)
  have j: "j < length (frame_table t)" using free_frame_index [OF a(3)] by simp
  note f = frames_okD [OF vm_okD(5) [OF a(1)] j, folded assms(2)]
  show "unat (base (user_pool t)) \<le> unat k" "kernel_page k" "drop_bit 12 (k - PHYS_BASE) < init_ram_pages t" by (rule f(2), rule f(1), rule f(3))
  show "in_frame (given t p pg j) p j k" using j f(4) assms(2) by (simp add: in_frame_def given_def)
  have "swap_ok (given t p pg j)"
  proof (rule swap_ok_slots [OF vm_okD(4) [OF a(1)]])
    show "\<exists>pg'. out t q pg' \<and> swap_slot pg' = swap_slot x" if "out (given t p pg j) q x" for q x
      using that a(2) by (auto simp: out_def given_def split: if_splits)
  qed (simp_all add: given_def)
  then show "vm_ok D (given t p pg j)" by (intro vm_ok_cong [OF a(1)]) (simp_all add: given_def)
qed

text \<open>Writing to the frames changes no page table.\<close>

lemma user_write_vm:
  assumes "vm_ok D t" "\<forall>a. unat a < unat (base (user_pool t)) \<longrightarrow> kmem u a = kmem t a"
    and "kernel_pool u = kernel_pool t" "user_pool u = user_pool t" "init_page_dir u = init_page_dir t" "cr3 u = cr3 t"
    and "init_ram_pages u = init_ram_pages t" "map kpage (frame_table u) = map kpage (frame_table t)" "swap_ok u"
  shows "vm_ok D u" "\<And>pd va. pd \<in> D \<Longrightarrow> is_user_vaddr va \<Longrightarrow> translate u pd va = translate t pd va"
proof -
  note w = dirs_user_write [OF vm_okD(1) [OF assms(1)] assms(2) [THEN spec, THEN mp]]
  note c = dirs_ok_cong [of u "t\<lparr>kmem := kmem u\<rparr>", simplified the_pool_def, simplified assms(3,4)]
  have "dirs_ok D u" using w(1) c(1) by simp
  moreover have "frames_ok u" using frames_ok_cong [OF assms(8,4,7)] vm_okD(5) [OF assms(1)] by simp
  ultimately show "vm_ok D u" using vm_okD [OF assms(1)] assms by (simp add: vm_ok_def)
  show "translate u pd va = translate t pd va" if "pd \<in> D" "is_user_vaddr va" for pd va
    using c(2) [of pd va] translate_pte [OF w(2) [OF _ that]] by simp
qed

lemma map_page_ok:
  assumes "vm_ok D u" "in_frame u p j k" "pages u p = Some pg" "page_ok D u pg" "pthread pg = current u" "aligned (vaddr pg)"
    and "translate u (pagedir (cur_thread u)) (vaddr pg) = None" "free_run False u 1" "kernel_page k" "drop_bit 12 (k - PHYS_BASE) < init_ram_pages u"
  shows "\<exists>q. map_page p u = Some (True, with_paging u q) \<and> quiet (paging.truncate u) q \<and> vm_ok D (with_paging u q)
    \<and> (\<forall>pd\<in>D. \<forall>va. is_user_vaddr va \<longrightarrow> translate q pd va =
         (if pd = pagedir (cur_thread u) \<and> pg_round_down va = vaddr pg then Some (k + pg_ofs va) else translate u pd va))"
proof -
  let ?pd = "pagedir (cur_thread u)"
  note ok = vm_okD [OF assms(1)]
  have pd: "?pd \<in> D" "is_user_vaddr (vaddr pg)" "?pd \<noteq> init_page_dir u" using assms(4,5) ok(2) by (auto simp: page_ok_def)
  have get: "on_paging (pagedir_get_page ?pd (vaddr pg)) u = Some (NULL, u)"
    using pagedir_get_page_ok [of D "paging.truncate u" ?pd "vaddr pg"] ok(1) pd assms(7) by (simp add: on_paging_alt)
  have run: "free_run False (paging.truncate u) 1" using assms(8) by (simp add: free_run_def group_def page_used_def the_pool_def)
  obtain b q where q: "pagedir_set_page ?pd (vaddr pg) k (writable pg) (paging.truncate u) = Some (b, q)" "dirs_ok D q" "b"
      "\<forall>pd'\<in>D. \<forall>va. is_user_vaddr va \<longrightarrow> translate q pd' va =
         (if pd' = ?pd \<and> pg_round_down va = vaddr pg then Some (k + pg_ofs va) else translate u pd' va)"
    using set_page_ok [of D "paging.truncate u" ?pd "vaddr pg" k "writable pg"] ok(1) pd assms(6,7,9,10) run by auto
  have qt: "quiet (paging.truncate u) q" using quiet_set_page [of D "paging.truncate u" ?pd] ok(1) pd(1) q(1) by simp
  have "swap_ok (with_paging u q) = swap_ok u" by (rule swap_ok_cong) (simp_all add: out_def)
  moreover have "frames_ok (with_paging u q) = frames_ok u" using qt by (intro frames_ok_cong) (simp_all add: quiet_def)
  ultimately have "vm_ok D (with_paging u q)" using ok q(2) qt by (simp add: vm_ok_def quiet_def)
  moreover have "on_paging (pagedir_set_page ?pd (vaddr pg) k (writable pg)) u = Some (True, with_paging u q)"
    using q(1,3) by (simp add: on_paging_alt)
  then have "map_page p u = Some (True, with_paging u q)"
    using assms(3) get in_frameD(1) [OF assms(2)] by (simp add: map_page_def)
  ultimately show ?thesis using q(4) qt by blast
qed

text \<open>The byte that the current process finds at an address.\<close>

definition user_byte :: "vm \<Rightarrow> addr \<Rightarrow> u8 option" where
  "user_byte s va = map_option (kmem s) (translate s (pagedir (cur_thread s)) va)"

text \<open>Loading the frame of an absent page with the bytes \<open>B\<close> and mapping it.\<close>

lemma page_in_loaded:
  assumes "absent D t p pg j" "k = kpage (frame_table t ! j)" "length B = 4096" "pg_round_down va = vaddr pg"
    and load: "load_page wm p (given t p pg j) = Some (True, u)"
    and u: "kmem u = put_bytes k B (kmem t)" "kernel_pool u = kernel_pool t" "user_pool u = user_pool t" "init_page_dir u = init_page_dir t" "cr3 u = cr3 t"
      "init_ram_pages u = init_ram_pages t" "map kpage (frame_table u) = map kpage (frame_table t)" "swap_ok u" "uthreads u = uthreads t" "current u = current t"
      "pages u p = Some pu" "pframe pu = Some j" "vaddr pu = vaddr pg" "pthread pu = pthread pg"
  shows "\<exists>t'. page_in wm va t = Some (True, t') \<and> vm_ok D t' \<and> (\<forall>n<4096. user_byte t' (vaddr pg + of_nat n) = Some (B ! n))"
proof -
  have a: "vm_ok D t" "pthread pg = current t" "page_ok D t pg" "aligned (vaddr pg)" "translate t (pagedir (cur_thread t)) (vaddr pg) = None"
      "free_run False t 1" "free_frame 0 (frame_table t) = Some j" using assms(1) by (simp_all add: absent_def)
  note g = given_ok [OF assms(1,2)]
  have k: "aligned k" using g(4) by (simp add: kernel_page_def)
  have "\<forall>a. unat a < unat (base (user_pool t)) \<longrightarrow> kmem u a = kmem t a" using g(3) by (simp add: u(1) put_bytes_def)
  note w = user_write_vm [OF a(1) this u(2-8)]
  have j: "j < length (frame_table t)" using free_frame_index [OF a(7)] by simp
  then have "in_frame u p j k" using u(7,11,12) k assms(2) by (metis in_frame_def length_map nth_map)
  moreover have pk: "page_ok D u pu" "pthread pu = current u" "aligned (vaddr pu)" using a(2-4) u(9,10,13,14) by (simp_all add: page_ok_def)
  moreover have pd: "pagedir (cur_thread u) \<in> D" "is_user_vaddr (vaddr pg)" using a(2,3) u(9,10) by (simp_all add: page_ok_def)
  moreover have "translate u (pagedir (cur_thread u)) (vaddr pu) = None" using w(2) [OF pd] a(5) u(9,10,13) by simp
  moreover have "free_run False u 1" using a(6) u(2,3) by (simp add: free_run_def group_def page_used_def the_pool_def)
  ultimately obtain q where q: "map_page p u = Some (True, with_paging u q)" "quiet (paging.truncate u) q" "vm_ok D (with_paging u q)"
      "\<forall>pd\<in>D. \<forall>va. is_user_vaddr va \<longrightarrow> translate q pd va =
         (if pd = pagedir (cur_thread u) \<and> pg_round_down va = vaddr pg then Some (k + pg_ofs va) else translate u pd va)"
    using map_page_ok [OF w(1) _ u(11), of j k] g(4,5) u(6,13) by auto
  have "user_byte (with_paging u q) (vaddr pg + of_nat n) = Some (B ! n)" if n: "n < 4096" for n
  proof -
    note r = round_offset [OF a(4) n]
    have kn: "unat (k + of_nat n) = unat k + n" by (rule unat_offset [OF k n])
    have "pg_ofs (vaddr pg + of_nat n) = of_nat n" using r(2) n by (metis of_nat_unat ucast_id)
    moreover have "is_user_vaddr (vaddr pg + of_nat n)" using pd(2) same_page [of "vaddr pg + of_nat n" "vaddr pg"] r(1) round_idem [OF a(4)] by (simp add: user_pdi)
    ultimately have "translate q (pagedir (cur_thread u)) (vaddr pg + of_nat n) = Some (k + of_nat n)" using q(4) pd(1) r(1) by simp
    moreover have "kmem q (k + of_nat n) = kmem u (k + of_nat n)" using q(2) g(3) u(3) kn by (simp add: quiet_def)
    moreover have "kmem u (k + of_nat n) = B ! n" using n assms(3) kn by (simp add: u(1) put_bytes_def)
    ultimately show ?thesis by (simp add: user_byte_def)
  qed
  moreover have "page_in wm va t = Some (True, with_paging u q)" using page_in_given [OF assms(1,4)] load q(1) by simp
  ultimately show ?thesis using q(3) by blast
qed

lemma page_in_swapped:
  assumes "absent D t p pg j" "is_private pg" "length (on_swap t pg) = 4096" "pg_round_down va = vaddr pg"
  shows "\<exists>t'. page_in wm va t = Some (True, t') \<and> vm_ok D t' \<and> (\<forall>n<4096. user_byte t' (vaddr pg + of_nat n) = Some (on_swap t pg ! n))"
proof -
  let ?g = "given t p pg j" and ?k = "kpage (frame_table t ! j)" and ?pg = "pg\<lparr>pframe := Some j\<rparr>"
  note g = given_ok [OF assms(1) refl]
  have j: "j < length (frame_table t)" using free_frame_index [of 0] assms(1) by (auto simp: absent_def)
  have o: "out ?g p ?pg" using assms(2) by (simp add: out_def given_def)
  have sw: "on_swap ?g ?pg = on_swap t pg" by (simp add: on_swap_def given_def)
  obtain b where b: "swap_in p ?g = Some (swapped_in ?g p j ?k b)" "flipped (swap_bitmap ?g) (unat (swap_slot ?pg)) 8 False b"
    using swap_in_ok [OF vm_okD(4) [OF g(1)] g(2) o] by blast
  have "load_page wm p ?g = Some (True, swapped_in ?g p j ?k b)"
    using assms(2) b(1) by (simp add: load_page_def given_def)
  moreover have "kmem (swapped_in ?g p j ?k b) = put_bytes ?k (on_swap t pg) (kmem t)"
    using sw by (simp add: swapped_in_def given_def)
  moreover have "swap_ok (swapped_in ?g p j ?k b)" by (rule swap_ok_in(1) [OF vm_okD(4) [OF g(1)] o b(2)])
  ultimately show ?thesis
    by (intro page_in_loaded [OF assms(1) refl assms(3,4), where u = "swapped_in ?g p j ?k b" and pu = "?pg\<lparr>is_private := False, swap_slot := - 1\<rparr>"])
      (simp_all add: swapped_in_def given_def j)
qed

lemma fill_put_bytes: "fill p n v m = put_bytes p (replicate n v) m"
  by (auto simp: fill_def put_bytes_def fun_eq_iff)

lemma page_in_zero:
  assumes "absent D t p pg j" "\<not> is_private pg" "pfile pg = None" "pg_round_down va = vaddr pg"
  shows "\<exists>t'. page_in wm va t = Some (True, t') \<and> vm_ok D t' \<and> (\<forall>n<4096. user_byte t' (vaddr pg + of_nat n) = Some 0)"
proof -
  let ?g = "given t p pg j" and ?k = "kpage (frame_table t ! j)" and ?pg = "pg\<lparr>pframe := Some j\<rparr>"
  note g = given_ok [OF assms(1) refl]
  let ?u = "?g\<lparr>frame_table := (frame_table ?g)[j := (frame_table ?g ! j)\<lparr>pinned := False\<rparr>], kmem := fill ?k 4096 0 (kmem t)\<rparr>"
  let ?v = "?g\<lparr>frame_table := (frame_table ?g)[j := (frame_table ?g ! j)\<lparr>pinned := True\<rparr>], kmem := fill ?k 4096 0 (kmem t)\<rparr>"
  have j: "j < length (frame_table t)" using free_frame_index [of 0] assms(1) by (auto simp: absent_def)
  have v: "in_frame (?g\<lparr>frame_table := (frame_table ?g)[j := (frame_table ?g ! j)\<lparr>pinned := True\<rparr>]\<rparr>) p j ?k" "in_frame ?v p j ?k"
    using g(2) by (auto simp: in_frame_def)
  have pg: "pages ?g p = Some ?pg" "kmem ?g = kmem t" by (simp_all add: given_def)
  have "load_page wm p ?g = Some (True, ?u)"
    using assms(2,3) pg in_frameD(2) [OF g(2)] in_frameD(1) [OF v(1)] in_frameD(2) [OF v(2)] j by (simp add: load_page_def given_def)
  moreover have "swap_ok ?u = swap_ok ?g" by (rule swap_ok_cong) (simp_all add: out_def)
  then have "swap_ok ?u" using vm_okD(4) [OF g(1)] by simp
  ultimately have "\<exists>t'. page_in wm va t = Some (True, t') \<and> vm_ok D t' \<and> (\<forall>n<4096. user_byte t' (vaddr pg + of_nat n) = Some (replicate 4096 0 ! n))"
    by (intro page_in_loaded [OF assms(1) refl _ assms(4), where u = ?u and pu = ?pg]) (simp_all add: given_def fill_put_bytes j)
  then show ?thesis by simp
qed

section \<open>Properties\<close>

text \<open>
  C11: Eviction is transparent to a process as long as there is room on the swap device. Evicting a
  dirty page of the current process that is not a memory-mapped file unmaps exactly this page.
  In every later state in which the device still holds the page and a frame is free, an access to
  an address of the page brings it back, and the process finds at each of its addresses
  the byte that its frame held before.
\<close>

theorem eviction_roundtrip:
  assumes "evictable D s p pg i k" "\<exists>j. run_of (swap_bitmap s) j 8 False"
  shows "\<exists>s' pg'. page_out wm p s = Some (True, s') \<and> vm_ok D s' \<and> others_kept s p s'
    \<and> out s' p pg' \<and> pframe pg' = None \<and> vaddr pg' = vaddr pg \<and> pthread pg' = pthread pg
    \<and> (\<forall>pd\<in>D. \<forall>va. is_user_vaddr va \<longrightarrow> translate s' pd va =
         (if pd = pagedir (cur_thread s) \<and> pg_round_down va = vaddr pg then None else translate s pd va))
    \<and> (\<forall>t j va. absent D t p pg' j \<longrightarrow> on_swap t pg' = on_swap s' pg' \<longrightarrow> pg_round_down va = vaddr pg \<longrightarrow>
         (\<exists>t'. page_in wm va t = Some (True, t') \<and> vm_ok D t'
            \<and> (\<forall>n<4096. user_byte t' (vaddr pg + of_nat n) = Some (kmem s (k + of_nat n)))))"
proof -
  obtain s' pg' where s': "page_out wm p s = Some (True, s')" "vm_ok D s'" "others_kept s p s'"
      "out s' p pg'" "pframe pg' = None" "vaddr pg' = vaddr pg" "pthread pg' = pthread pg" "on_swap s' pg' = get_bytes k 4096 (kmem s)"
      "\<forall>pd\<in>D. \<forall>va. is_user_vaddr va \<longrightarrow> translate s' pd va =
         (if pd = pagedir (cur_thread s) \<and> pg_round_down va = vaddr pg then None else translate s pd va)"
    using page_out_stored [OF assms] by blast
  have priv: "is_private pg'" using s'(4) by (simp add: out_def)
  have "\<exists>t'. page_in wm va t = Some (True, t') \<and> vm_ok D t' \<and> (\<forall>n<4096. user_byte t' (vaddr pg + of_nat n) = Some (kmem s (k + of_nat n)))"
    if "absent D t p pg' j" "on_swap t pg' = on_swap s' pg'" "pg_round_down va = vaddr pg" for t j va
    using page_in_swapped [OF that(1) priv, of va wm] that(2,3) s'(6,8) by (auto simp: get_bytes_def)
  then show ?thesis using s' by blast
qed

text \<open>
  C35: When no eight neighbouring sectors of the swap device are free, evicting a dirty page of the
  stack still reports success: the page is unmapped and marked as neither in a frame nor on the
  device. The next access to it finds a page of zeros.
\<close>

theorem page_lost_when_swap_full:
  assumes "evictable D s p pg i k" "pfile pg = None" "\<nexists>j. run_of (swap_bitmap s) j 8 False"
  shows "\<exists>s' pg'. page_out wm p s = Some (True, s') \<and> vm_ok D s' \<and> pages s' p = Some pg'
    \<and> pframe pg' = None \<and> \<not> is_private pg' \<and> pg' = pg\<lparr>dirty := True, pframe := None\<rparr>
    \<and> (\<forall>t j va. absent D t p pg' j \<longrightarrow> pg_round_down va = vaddr pg \<longrightarrow>
         (\<exists>t'. page_in wm va t = Some (True, t') \<and> vm_ok D t' \<and> (\<forall>n<4096. user_byte t' (vaddr pg + of_nat n) = Some 0)))"
proof -
  let ?m = "marked_dirty s p pg" and ?pg = "pg\<lparr>dirty := True, pframe := None\<rparr>"
  note m = marked_dirty_ok [OF assms(1)]
  have np: "\<not> is_private pg" using assms(1) by (simp add: evictable_def)
  have full: "swap_out p ?m = Some (BITMAP_ERROR, ?m)"
    using assms(3) by (intro swap_out_full [OF m(1)]) (simp add: marked_dirty_def)
  have "swap_ok (?m\<lparr>pages := (pages ?m)(p \<mapsto> (pg\<lparr>dirty := True\<rparr>)\<lparr>pframe := None\<rparr>)\<rparr>) = swap_ok ?m"
    using np by (intro swap_ok_cong) (auto simp: out_def marked_dirty_def)
  then obtain q where q: "page_out wm p s = Some (True, (with_paging ?m q)\<lparr>pages := (pages ?m)(p \<mapsto> ?pg)\<rparr>)"
      "vm_ok D ((with_paging ?m q)\<lparr>pages := (pages ?m)(p \<mapsto> ?pg)\<rparr>)"
    using page_out_unmaps [OF assms(1) full m(2) _ _ _ _ _ m(4), where wm = wm] m(1) by (auto simp: marked_dirty_def)
  have "\<exists>t'. page_in wm va t = Some (True, t') \<and> vm_ok D t' \<and> (\<forall>n<4096. user_byte t' (vaddr pg + of_nat n) = Some 0)"
    if "absent D t p ?pg j" "pg_round_down va = vaddr pg" for t j va
    using page_in_zero [OF that(1), of va wm] that(2) np assms(2) by simp
  then show ?thesis using q np by (intro exI [of _ "(with_paging ?m q)\<lparr>pages := (pages ?m)(p \<mapsto> ?pg)\<rparr>"] exI [of _ ?pg]) simp
qed

lemma demo_vm_ok: "vm_ok {0xc0101000} (demo_vm w)" "evictable {0xc0101000} (demo_vm w) 0 demo_page 0 0xc0106000"
proof -
  have "frames_ok (demo_vm w)" by (simp add: frames_ok_def demo_vm_def small_pools_def kernel_page_def aligned_def)
  then show "vm_ok {0xc0101000} (demo_vm w)"
    using demo_dirs(1) demo_swap(1) by (simp add: vm_ok_def) (simp add: demo_vm_def)
  then show "evictable {0xc0101000} (demo_vm w) 0 demo_page 0 0xc0106000"
    using demo_swap(2,3)
    by (simp add: evictable_def) (simp add: demo_page_def page_ok_def demo_vm_def demo_thread_def is_user_vaddr_def aligned_def)
qed

text \<open>The state in which the page is needed again: both frames are free.\<close>

definition demo_later :: "vm \<Rightarrow> page \<Rightarrow> vm" where
  "demo_later s pg = (demo_vm 0)\<lparr>pages := [0 \<mapsto> pg], swap_bitmap := swap_bitmap s, swap_device := swap_device s,
     frame_table := [\<lparr>kpage = 0xc0106000, vpage = None, pinned = False\<rparr>]\<rparr>"

lemma demo_absent:
  assumes "swap_ok s" "pages s 0 = Some pg" "pframe pg = None" "vaddr pg = 0x08048000" "pthread pg = 0"
  shows "absent {0xc0101000} (demo_later s pg) 0 pg 0"
proof -
  have pages: "pages (demo_later s pg) = [0 \<mapsto> pg]" by (simp add: demo_later_def)
  have "swap_ok (demo_later s pg)"
  proof (rule swap_ok_slots [OF assms(1)])
    show "\<exists>pg'. out s q pg' \<and> swap_slot pg' = swap_slot x" if "out (demo_later s pg) q x" for q x
      using that assms(2) unfolding out_def pages by (auto split: if_splits)
  qed (simp_all add: demo_later_def)
  moreover have "frames_ok (demo_later s pg)"
    by (simp add: frames_ok_def demo_later_def demo_vm_def small_pools_def kernel_page_def aligned_def)
  moreover have f: "current (demo_later s pg) = 0" "uthreads (demo_later s pg) = (\<lambda>_. demo_thread)" "pages (demo_later s pg) = [0 \<mapsto> pg]"
      "frame_table (demo_later s pg) = [\<lparr>kpage = 0xc0106000, vpage = None, pinned = False\<rparr>]" "init_page_dir (demo_later s pg) = 0xc0100000"
      "cr3 (demo_later s pg) = 0x101000"
    by (simp_all add: demo_later_def demo_vm_def)
  moreover have th: "pagedir demo_thread = 0xc0101000" "supplemental_pages demo_thread = [0x08048000 \<mapsto> 0]" by (simp_all add: demo_thread_def)
  moreover have c: "kmem (demo_later s pg) = kmem (demo_vm 0)" "the_pool u (demo_later s pg) = the_pool u (demo_vm 0)" for u
    by (simp_all add: demo_later_def the_pool_def)
  moreover have "dirs_ok {0xc0101000} (demo_later s pg)" using dirs_ok_cong(1) [of "demo_later s pg" "demo_vm 0"] c demo_dirs(1) by simp
  moreover have "is_user_vaddr 0x08048000" by (simp add: is_user_vaddr_def)
  then have "translate (demo_later s pg) 0xc0101000 0x08048000 = None"
    using dirs_ok_cong(3) [of "demo_later s pg" "demo_vm 0"] c demo_dirs(2) by (simp add: translate_def)
  moreover have "free_run False (demo_later s pg) 1"
    using demo_dirs(3) c(2) by (simp add: free_run_def group_def page_used_def)
  ultimately show ?thesis
    using assms(3-5) unfolding absent_def vm_ok_def page_ok_def page_lookup_def f th
    by (simp add: th is_user_vaddr_def aligned_def)
qed

theorem eviction_roundtrip_witness:
  "\<exists>s' pg' t'. page_out (free_map_write 2) 0 (demo_vm 0) = Some (True, s')
     \<and> page_in (free_map_write 2) 0x08048123 (demo_later s' pg') = Some (True, t') \<and> user_byte t' 0x08048005 = Some 7"
proof -
  have ex: "\<exists>j. run_of (swap_bitmap (demo_vm 0)) j 8 False" using demo_room(1) by blast
  have pg: "vaddr demo_page = 0x08048000" "pthread demo_page = 0" by (simp_all add: demo_page_def)
  obtain s' pg' where s': "page_out (free_map_write 2) 0 (demo_vm 0) = Some (True, s')" "vm_ok {0xc0101000} s'" "out s' 0 pg'" "pframe pg' = None"
      "vaddr pg' = 0x08048000" "pthread pg' = 0"
      and again: "\<And>t j va. absent {0xc0101000} t 0 pg' j \<Longrightarrow> on_swap t pg' = on_swap s' pg' \<Longrightarrow> pg_round_down va = 0x08048000 \<Longrightarrow>
         \<exists>t'. page_in (free_map_write 2) va t = Some (True, t') \<and> vm_ok {0xc0101000} t'
            \<and> (\<forall>n<4096. user_byte t' (0x08048000 + of_nat n) = Some (kmem (demo_vm 0) (0xc0106000 + of_nat n)))"
    using eviction_roundtrip [OF demo_vm_ok(2) ex, of "free_map_write 2", unfolded pg] by blast
  have "absent {0xc0101000} (demo_later s' pg') 0 pg' 0"
    using s' by (intro demo_absent vm_okD(4) [OF s'(2)]) (simp_all add: out_def)
  moreover have "on_swap (demo_later s' pg') pg' = on_swap s' pg'" by (rule swapped_cong) (simp add: demo_later_def)
  moreover have "pg_round_down 0x08048123 = 0x08048000" by (simp add: pg_round_down_def)
  ultimately obtain t' where t': "page_in (free_map_write 2) 0x08048123 (demo_later s' pg') = Some (True, t')"
      "\<forall>n<4096. user_byte t' (0x08048000 + of_nat n) = Some (kmem (demo_vm 0) (0xc0106000 + of_nat n))"
    using again by blast
  have "user_byte t' 0x08048005 = Some 7" using spec [OF t'(2), of 5] by (simp add: demo_vm_def)
  then show ?thesis using s'(1) t'(1) by blast
qed

theorem page_lost_when_swap_full_witness:
  "\<exists>s' pg' t'. page_out (free_map_write 2) 0 (demo_vm 0xff) = Some (True, s')
     \<and> page_in (free_map_write 2) 0x08048123 (demo_later s' pg') = Some (True, t') \<and> user_byte t' 0x08048005 = Some 0"
proof -
  have no: "\<nexists>j. run_of (swap_bitmap (demo_vm 0xff)) j 8 False" using demo_room(2) by blast
  have pg: "vaddr demo_page = 0x08048000" "pthread demo_page = 0" "pfile demo_page = None" by (simp_all add: demo_page_def)
  obtain s' pg' where s': "page_out (free_map_write 2) 0 (demo_vm 0xff) = Some (True, s')" "vm_ok {0xc0101000} s'" "pages s' 0 = Some pg'"
      "pframe pg' = None" "pg' = demo_page\<lparr>dirty := True, pframe := None\<rparr>"
      and again: "\<And>t j va. absent {0xc0101000} t 0 pg' j \<Longrightarrow> pg_round_down va = 0x08048000 \<Longrightarrow>
         \<exists>t'. page_in (free_map_write 2) va t = Some (True, t') \<and> vm_ok {0xc0101000} t' \<and> (\<forall>n<4096. user_byte t' (0x08048000 + of_nat n) = Some 0)"
    using page_lost_when_swap_full [OF demo_vm_ok(2) pg(3) no, of "free_map_write 2", unfolded pg(1,2)] by blast
  have "absent {0xc0101000} (demo_later s' pg') 0 pg' 0"
    using s'(3-5) pg by (intro demo_absent vm_okD(4) [OF s'(2)]) simp_all
  moreover have "pg_round_down 0x08048123 = 0x08048000" by (simp add: pg_round_down_def)
  ultimately obtain t' where t': "page_in (free_map_write 2) 0x08048123 (demo_later s' pg') = Some (True, t')"
      "\<forall>n<4096. user_byte t' (0x08048000 + of_nat n) = Some 0"
    using again by blast
  have "user_byte t' 0x08048005 = Some 0" using spec [OF t'(2), of 5] by simp
  then show ?thesis using s'(1) t'(1) by blast
qed

end
