(* ===== verification/Spec2Isabelle.thy ===== *)
theory Spec2Isabelle
  imports Klist_Sort Arith64 Kernel_Props Khash Ustar File_Props Directory_Props Filesys Intq Partition Malloc_Correct Vm_Paging
begin

text \<open>
  A verification library for the Pintos kernel of this repository (\<open>src/pintos/src\<close>, to which
  all paths below are relative).

  Pintos is a small x86 teaching kernel. Its parts, from the bottom up: the support
  library (\<open>lib/\<close>, \<open>lib/kernel/\<close>: lists, hash tables, bitmaps, strings, sorting, 64-bit
  division, formatted output); the thread system (\<open>threads/\<close>: scheduler, semaphores, locks
  and condition variables, page and block allocators); device code (\<open>devices/\<close>); the file
  system (\<open>filesys/\<close>: buffer cache, free map, inodes, directories, files); virtual memory
  (\<open>vm/\<close>) and user programs (\<open>userprog/\<close>). The file system stands on block devices, bitmaps and
  the cache; virtual memory on page directories, the page allocator, bitmaps and a block device;
  the scheduler and the locks use the lists.

  Conventions. Definitions have the names of the C functions. A \<open>struct\<close> is a record, a machine
  integer is a word or an integer with the wrap-around written out. A function that can stop the
  machine returns an option: \<open>None\<close> stands for a failed assertion, a panic, an access that C
  leaves undefined, or a call that does not return. A theorem that concludes \<open>Some\<close> excludes all
  of these.

  The support library.
  \<^item> \<open>Klist\<close>, \<open>Klist_Correct\<close>, \<open>Klist_Sort\<close> (\<open>lib/kernel/list.c\<close>): lists as the two link fields of
    each node, in a map from addresses. \<open>dlist m l xs\<close> says that the list at \<open>l\<close> is intact and holds \<open>xs\<close>; the
    lemmas give the effect of each operation on \<open>xs\<close> and on other lists, up to the merge sort.
  \<^item> \<open>Fifo\<close>: the contract of a queue, as a locale; the lists and the interrupt queue provide it.
  \<^item> \<open>Khash\<close> (\<open>lib/kernel/hash.c\<close>): buckets and rehashing; the contract of a dictionary, as a locale.
  \<^item> \<open>Bitmap\<close> (\<open>lib/kernel/bitmap.c\<close>), \<open>Stdlib\<close> (\<open>lib/stdlib.c\<close>), \<open>Kstring\<close> (\<open>lib/string.c\<close>, over a flat
    memory), \<open>Kstdio\<close> (\<open>lib/stdio.c\<close>), \<open>Ustar\<close> (\<open>lib/ustar.c\<close>), \<open>Arith64\<close> (\<open>lib/arithmetic.c\<close>): the code and
    what it computes.

  The thread system.
  \<^item> \<open>Kernel_State\<close>, \<open>Sched\<close>, \<open>Synch\<close> (\<open>threads/thread.c\<close>, \<open>threads/synch.c\<close>, the parts of
    \<open>threads/interrupt.c\<close> and \<open>devices/timer.c\<close> that they need): a machine. Each thread carries the calls that it
    is in the middle of, as a stack of frames; an event calls a function, resumes the innermost
    frame of the running thread, or is a timer tick. A step ends where a function turns
    interrupts on again or gives up the processor in the middle of its work; the code between two such
    points is one step, and the sequences of events are the interleavings of these steps.
  \<^item> \<open>Kernel_Inv\<close>, \<open>Kernel_Steps\<close>, \<open>Kernel_Calls\<close>, \<open>Kernel_Machine\<close>: the invariant of that machine and that
    every event keeps it. \<open>Donation\<close>: priority donation as a least fixed point. \<open>Kernel_Boot\<close>: runs
    from the start of the kernel. \<open>Kernel_Props\<close>: scheduling, mutual exclusion, wakeups, sleeping.
  \<^item> \<open>Vaddr\<close>, \<open>Palloc\<close> (\<open>threads/vaddr.h\<close>, \<open>threads/pte.h\<close>, \<open>threads/palloc.c\<close>): addresses and the page pools.
    \<open>Malloc\<close>, \<open>Malloc_Correct\<close> (\<open>threads/malloc.c\<close>): arenas and descriptors; live blocks stay apart.

  Devices. \<open>Block\<close> (\<open>devices/block.c\<close>): a device is its sectors. \<open>Intq\<close> (\<open>devices/intq.c\<close>,
  \<open>devices/input.c\<close>, \<open>devices/kbd.c\<close>): from the scan code to the input buffer. \<open>Partition\<close>
  (\<open>devices/partition.c\<close>): the partition table.

  The file system.
  \<^item> \<open>Cache\<close> (\<open>filesys/cache.c\<close>): 64 buffers with delayed writes; the locale \<open>block_store\<close> is the
    contract of a store of sectors, and the cache refines it.
  \<^item> \<open>Disk_Format\<close>, \<open>Inode\<close> (\<open>filesys/inode.c\<close>, \<open>filesys/free-map.c\<close>): the code. \<open>Inode_Read\<close>, \<open>Inode_Write\<close>,
    \<open>Inode_Grow\<close>, \<open>Inode_Holes\<close>, \<open>Inode_Release\<close>, \<open>Free_Map\<close>: a file without holes as an array of
    bytes, and what reading, writing, growing and removing do to it. \<open>File_Props\<close>: the properties.
  \<^item> \<open>Directory\<close>, \<open>Filesys\<close> (\<open>filesys/directory.c\<close>, \<open>filesys/file.c\<close>, \<open>filesys/filesys.c\<close>,
    \<open>filesys/fsutil.c\<close>): the code. \<open>Directory_Spec\<close>, \<open>Directory_Remove\<close>, \<open>Directory_Props\<close>: a directory
    as a map from names to sectors.

  Virtual memory.
  \<^item> \<open>Pagedir\<close>, \<open>Pagedir_Bits\<close> (\<open>userprog/pagedir.c\<close>, \<open>paging_init\<close> of \<open>threads/init.c\<close>): tables as
    words in memory.
  \<^item> \<open>Vm\<close> (\<open>vm/swap.c\<close>, \<open>vm/frame.c\<close>, \<open>vm/page.c\<close>, the page fault of \<open>userprog/exception.c\<close>): the code.
    \<open>Vm_Swap\<close>, \<open>Vm_Clock\<close>, \<open>Vm_Paging\<close>: swapping, the choice of a victim, eviction and return of a page.

  \<open>Fs_Example\<close> and \<open>Vm_Example\<close> hold small states for the witnesses.

  Bounds. Loops of the C code that are not obviously finite are partial functions into the option
  type, without fuel. The one depth bound is the argument of \<open>free_map_write\<close>: allocating a sector
  writes the free map's own file, which could allocate again. The theorems hold for every depth
  above zero, since that file has no holes and the inner write never allocates. The theorems on
  growing and removing files are about the 123 sectors that an inode lists directly;
  larger files are covered for reading and writing in place. The tick counters and
  the array indices of the heap sort are unbounded.

  Not modelled: device drivers and other port input and output, assembly language, the rest of the
  kernel's start-up, the loading of programs and the system calls, the user library, tests and
  tools, and the Java project \<open>kvstore\<close>. The file system, the allocators and virtual memory run one
  operation at a time: their locks are left out, or in the cache a lock that is taken counts as a
  call that does not return. The interrupt queue has no result where a caller would sleep. Where
  sectors are counted, the length of a file is taken not to be negative.
\<close>

end
